(* ===== verification/Nilfs_Prelude.thy ===== *)
theory Nilfs_Prelude
  imports Main "HOL-Library.Word" "HOL-Library.Multiset"
begin

text \<open>
  Shared vocabulary of the development: the fixed-width integers of the C sources, the
  \<open>errno\<close> values they set, little-endian access to byte buffers
  (\<open>src/include/compat.h\<close>, \<open>le16_to_cpu\<close> and friends), the wrap-around sequence
  number comparison of \<open>src/include/util.h\<close>, and the C library's \<open>qsort\<close>, modelled
  as the merge sort glibc implements. The lemmas here carry no knowledge of NILFS; the
  component theories use them through the collection \<open>bytes_simps\<close>.
\<close>

unbundle bit_operations_syntax

named_theorems bytes_simps "rewriting of little-endian reads and writes"

type_synonym u8 = "8 word"
type_synonym u16 = "16 word"
type_synonym u32 = "32 word"
type_synonym u64 = "64 word"
type_synonym i64 = "64 word"  \<comment> \<open>read through \<open>sint\<close>\<close>
type_synonym bytes = "u8 list"

text \<open>
  The values \<open>errno\<close> takes. Three more constructors mark runs that do not return to the
  caller: \<open>EAbort\<close>, a failed \<open>assert\<close> or \<open>BUG_ON\<close>, \<open>EExit\<close>, a call of
  \<open>exit\<close>, and \<open>EHang\<close>, a loop
  that does not end.
\<close>

datatype errno = EPERM | ENOENT | EINTR | EIO | ENXIO | EBADF | EAGAIN | ENOMEM | ENODEV
  | EINVAL | ENOTTY | ERANGE | EOVERFLOW | ENOTSUP | EOPNOTSUPP | ENOTBLK | EOther nat
  | EAbort | EHang | EExit

section \<open>Counters that wrap around\<close>

text \<open>
  \<open>cnt64_ge(a, b)\<close> and \<open>cnt64_gt(a, b)\<close> of \<open>src/include/util.h\<close>: the sign of
  the 64-bit difference, so that a sequence number that has wrapped still compares as
  the later one.
\<close>

definition cnt64_gt :: "u64 \<Rightarrow> u64 \<Rightarrow> bool" where
  "cnt64_gt a b \<longleftrightarrow> sint (b - a) < 0"

definition cnt64_ge :: "u64 \<Rightarrow> u64 \<Rightarrow> bool" where
  "cnt64_ge a b \<longleftrightarrow> 0 \<le> sint (a - b)"

section \<open>Little-endian buffers\<close>

fun le_nat :: "bytes \<Rightarrow> nat" where
  "le_nat [] = 0"
| "le_nat (b # bs) = unat b + 256 * le_nat bs"

fun to_le :: "nat \<Rightarrow> nat \<Rightarrow> bytes" where
  "to_le 0 x = []"
| "to_le (Suc n) x = of_nat (x mod 256) # to_le n (x div 256)"

definition rd :: "nat \<Rightarrow> bytes \<Rightarrow> nat \<Rightarrow> nat" where
  "rd n bs off = le_nat (take n (drop off bs))"

definition le16_at :: "bytes \<Rightarrow> nat \<Rightarrow> u16" where "le16_at bs off = of_nat (rd 2 bs off)"
definition le32_at :: "bytes \<Rightarrow> nat \<Rightarrow> u32" where "le32_at bs off = of_nat (rd 4 bs off)"
definition le64_at :: "bytes \<Rightarrow> nat \<Rightarrow> u64" where "le64_at bs off = of_nat (rd 8 bs off)"

text \<open>Storing a run of entries into an array (\<open>memcpy\<close>, or an assignment to a field).\<close>

definition put_at :: "nat \<Rightarrow> 'a list \<Rightarrow> 'a list \<Rightarrow> 'a list" where
  "put_at off v bs = take off bs @ v @ drop (off + length v) bs"

lemma length_to_le [simp]: "length (to_le n x) = n"
  by (induction n arbitrary: x) auto

lemma le_nat_to_le [simp]: "le_nat (to_le n x) = x mod 256 ^ n"
proof (induction n arbitrary: x)
  case (Suc n)
  have "unat (of_nat (x mod 256) :: u8) = x mod 256"
    by (simp add: unat_of_nat)
  then show ?case using Suc by (simp add: mod_mult2_eq)
qed simp

lemma to_le_le_nat: "length bs = n \<Longrightarrow> to_le n (le_nat bs) = bs"
proof (induction bs arbitrary: n)
  case (Cons b bs)
  have "unat b < 256" using unsigned_less [of b, where ?'a = nat] by simp
  then show ?case using Cons by auto
qed simp

lemma length_put_at [simp]:
  "off + length v \<le> length bs \<Longrightarrow> length (put_at off v bs) = length bs"
  by (simp add: put_at_def)

lemma take_drop_put_at_same:
  "off + length v \<le> length bs \<Longrightarrow> n = length v \<Longrightarrow> take n (drop off (put_at off v bs)) = v"
  by (simp add: put_at_def)

lemma take_drop_put_at_before:
  "off' + n \<le> off \<Longrightarrow> off + length v \<le> length bs \<Longrightarrow>
   take n (drop off' (put_at off v bs)) = take n (drop off' bs)"
  by (simp add: put_at_def drop_take)

lemma take_drop_put_at_after:
  "off + length v \<le> off' \<Longrightarrow> off + length v \<le> length bs \<Longrightarrow>
   take n (drop off' (put_at off v bs)) = take n (drop off' bs)"
  by (simp add: put_at_def)

lemma rd_put_at_same [bytes_simps]:
  "off + length v \<le> length bs \<Longrightarrow> n = length v \<Longrightarrow> rd n (put_at off v bs) off = le_nat v"
  by (simp add: rd_def take_drop_put_at_same)

lemma rd_put_at_other [bytes_simps]:
  "off' + n \<le> off \<or> off + length v \<le> off' \<Longrightarrow> off + length v \<le> length bs \<Longrightarrow>
   rd n (put_at off v bs) off' = rd n bs off'"
  by (auto simp: rd_def take_drop_put_at_before take_drop_put_at_after)

lemma put_at_put_at [simp]:
  "length v = length u \<Longrightarrow> off + length v \<le> length bs \<Longrightarrow>
   put_at off v (put_at off u bs) = put_at off v bs"
  by (simp add: put_at_def)

lemma put_at_id:
  "off + n \<le> length bs \<Longrightarrow> put_at off (take n (drop off bs)) bs = bs"
  by (simp add: put_at_def)
     (metis append_take_drop_id drop_drop add.commute)

section \<open>qsort\<close>

text \<open>
  \<open>qsort\<close> as glibc implements it: split into halves of \<open>n / 2\<close> and \<open>n - n / 2\<close>
  elements, sort both, and merge, taking from the first half while
  \<open>compar(b1, b2) <= 0\<close>.
\<close>

fun qmerge :: "('a \<Rightarrow> 'a \<Rightarrow> int) \<Rightarrow> 'a list \<Rightarrow> 'a list \<Rightarrow> 'a list" where
  "qmerge cmp [] ys = ys"
| "qmerge cmp xs [] = xs"
| "qmerge cmp (x # xs) (y # ys) =
     (if cmp x y \<le> 0 then x # qmerge cmp xs (y # ys) else y # qmerge cmp (x # xs) ys)"

fun qsort :: "('a \<Rightarrow> 'a \<Rightarrow> int) \<Rightarrow> 'a list \<Rightarrow> 'a list" where
  "qsort cmp xs =
     (if length xs \<le> 1 then xs
      else qmerge cmp (qsort cmp (take (length xs div 2) xs))
                      (qsort cmp (drop (length xs div 2) xs)))"

declare qsort.simps [simp del]

lemma mset_qmerge [simp]: "mset (qmerge cmp xs ys) = mset xs + mset ys"
  by (induction cmp xs ys rule: qmerge.induct) auto

lemma set_qmerge [simp]: "set (qmerge cmp xs ys) = set xs \<union> set ys"
  by (induction cmp xs ys rule: qmerge.induct) auto

lemma mset_qsort [simp]: "mset (qsort cmp xs) = mset xs"
proof (induction cmp xs rule: qsort.induct)
  case (1 cmp xs)
  show ?case
  proof (cases "length xs \<le> 1")
    case False
    then have "mset (qsort cmp xs) = mset (take (length xs div 2) xs @ drop (length xs div 2) xs)"
      using 1 by (simp add: qsort.simps [of cmp xs] del: append_take_drop_id)
    then show ?thesis by simp
  qed (simp add: qsort.simps [of cmp xs])
qed

lemma set_qsort [simp]: "set (qsort cmp xs) = set xs"
  by (metis mset_qsort set_mset_mset)

lemma length_qsort [simp]: "length (qsort cmp xs) = length xs"
  by (metis mset_qsort size_mset)

text \<open>
  The order the result has: any transitive relation that follows from the comparison's
  sign. A comparison that answers 1 for equal keys in both directions, as several of
  the sources' do, is covered.
\<close>

definition cmp_order :: "('a \<Rightarrow> 'a \<Rightarrow> int) \<Rightarrow> ('a \<Rightarrow> 'a \<Rightarrow> bool) \<Rightarrow> bool" where
  "cmp_order cmp S \<longleftrightarrow> transp S \<and> (\<forall>x y. cmp x y \<le> 0 \<longrightarrow> S x y) \<and> (\<forall>x y. \<not> cmp x y \<le> 0 \<longrightarrow> S y x)"

lemma sorted_wrt_qmerge:
  "cmp_order cmp S \<Longrightarrow> sorted_wrt S xs \<Longrightarrow> sorted_wrt S ys \<Longrightarrow> sorted_wrt S (qmerge cmp xs ys)"
proof (induction cmp xs ys rule: qmerge.induct)
  case (3 cmp x xs y ys)
  then show ?case unfolding cmp_order_def by (auto elim: transpE) (meson transpE)+
qed auto

lemma sorted_wrt_qsort:
  assumes "cmp_order cmp S"
  shows "sorted_wrt S (qsort cmp xs)"
  using assms
proof (induction cmp xs rule: qsort.induct)
  case (1 cmp xs)
  show ?case
  proof (cases "length xs \<le> 1")
    case True
    then have "qsort cmp xs = xs" by (simp add: qsort.simps [of cmp xs])
    with True show ?thesis by (cases xs) auto
  next
    case False
    with 1 show ?thesis by (simp add: qsort.simps [of cmp xs] sorted_wrt_qmerge)
  qed
qed

section \<open>Lists and words\<close>

lemma unat_of_nat_u64 [simp]: "n < 2 ^ 64 \<Longrightarrow> unat (of_nat n :: u64) = n"
  by (simp add: unat_of_nat)

lemma unat_of_nat_u32 [simp]: "n < 2 ^ 32 \<Longrightarrow> unat (of_nat n :: u32) = n"
  by (simp add: unat_of_nat)

lemma unat_lt_u64: "unat (x :: u64) < 2 ^ 64"
  using unsigned_less [of x, where ?'a = nat] by simp

lemma unat_lt_u32: "unat (x :: u32) < 2 ^ 32"
  using unsigned_less [of x, where ?'a = nat] by simp

lemma unat_add_u64: "unat (a :: u64) + unat b < 2 ^ 64 \<Longrightarrow> unat (a + b) = unat a + unat b"
  by (simp add: unat_word_ariths)

lemma unat_sub_u64: "b \<le> a \<Longrightarrow> unat (a - b :: u64) = unat a - unat b"
  by (simp add: unat_sub)

lemma unat_ucast_u32_u64 [simp]: "unat (ucast (x :: u32) :: u64) = unat x"
  using unat_lt_u32 [of x] by (simp add: unsigned_ucast_eq take_bit_nat_eq_self)

end
