(* ===== verification/Crc_Bitops.thy ===== *)
theory Crc_Bitops
  imports Nilfs_Prelude
begin

text \<open>
  The two leaf libraries below the on-disk format: the table-driven CRC32 of
  \<open>src/lib/crc32.c\<close>, which guards superblocks and segment summaries, and the bitmap
  operations of \<open>src/sbin/bitops.c\<close>. The CRC is proved equal to the bit-serial
  division by the polynomial 0xedb88320 that the table's comment names, and to detect
  every corruption confined to one byte.
\<close>

section \<open>crc32.c\<close>

definition crc32tab :: "u32 list" where
  "crc32tab = [
     0x00000000, 0x77073096, 0xee0e612c, 0x990951ba, 0x076dc419, 0x706af48f,
     0xe963a535, 0x9e6495a3, 0x0edb8832, 0x79dcb8a4, 0xe0d5e91e, 0x97d2d988,
     0x09b64c2b, 0x7eb17cbd, 0xe7b82d07, 0x90bf1d91, 0x1db71064, 0x6ab020f2,
     0xf3b97148, 0x84be41de, 0x1adad47d, 0x6ddde4eb, 0xf4d4b551, 0x83d385c7,
     0x136c9856, 0x646ba8c0, 0xfd62f97a, 0x8a65c9ec, 0x14015c4f, 0x63066cd9,
     0xfa0f3d63, 0x8d080df5, 0x3b6e20c8, 0x4c69105e, 0xd56041e4, 0xa2677172,
     0x3c03e4d1, 0x4b04d447, 0xd20d85fd, 0xa50ab56b, 0x35b5a8fa, 0x42b2986c,
     0xdbbbc9d6, 0xacbcf940, 0x32d86ce3, 0x45df5c75, 0xdcd60dcf, 0xabd13d59,
     0x26d930ac, 0x51de003a, 0xc8d75180, 0xbfd06116, 0x21b4f4b5, 0x56b3c423,
     0xcfba9599, 0xb8bda50f, 0x2802b89e, 0x5f058808, 0xc60cd9b2, 0xb10be924,
     0x2f6f7c87, 0x58684c11, 0xc1611dab, 0xb6662d3d, 0x76dc4190, 0x01db7106,
     0x98d220bc, 0xefd5102a, 0x71b18589, 0x06b6b51f, 0x9fbfe4a5, 0xe8b8d433,
     0x7807c9a2, 0x0f00f934, 0x9609a88e, 0xe10e9818, 0x7f6a0dbb, 0x086d3d2d,
     0x91646c97, 0xe6635c01, 0x6b6b51f4, 0x1c6c6162, 0x856530d8, 0xf262004e,
     0x6c0695ed, 0x1b01a57b, 0x8208f4c1, 0xf50fc457, 0x65b0d9c6, 0x12b7e950,
     0x8bbeb8ea, 0xfcb9887c, 0x62dd1ddf, 0x15da2d49, 0x8cd37cf3, 0xfbd44c65,
     0x4db26158, 0x3ab551ce, 0xa3bc0074, 0xd4bb30e2, 0x4adfa541, 0x3dd895d7,
     0xa4d1c46d, 0xd3d6f4fb, 0x4369e96a, 0x346ed9fc, 0xad678846, 0xda60b8d0,
     0x44042d73, 0x33031de5, 0xaa0a4c5f, 0xdd0d7cc9, 0x5005713c, 0x270241aa,
     0xbe0b1010, 0xc90c2086, 0x5768b525, 0x206f85b3, 0xb966d409, 0xce61e49f,
     0x5edef90e, 0x29d9c998, 0xb0d09822, 0xc7d7a8b4, 0x59b33d17, 0x2eb40d81,
     0xb7bd5c3b, 0xc0ba6cad, 0xedb88320, 0x9abfb3b6, 0x03b6e20c, 0x74b1d29a,
     0xead54739, 0x9dd277af, 0x04db2615, 0x73dc1683, 0xe3630b12, 0x94643b84,
     0x0d6d6a3e, 0x7a6a5aa8, 0xe40ecf0b, 0x9309ff9d, 0x0a00ae27, 0x7d079eb1,
     0xf00f9344, 0x8708a3d2, 0x1e01f268, 0x6906c2fe, 0xf762575d, 0x806567cb,
     0x196c3671, 0x6e6b06e7, 0xfed41b76, 0x89d32be0, 0x10da7a5a, 0x67dd4acc,
     0xf9b9df6f, 0x8ebeeff9, 0x17b7be43, 0x60b08ed5, 0xd6d6a3e8, 0xa1d1937e,
     0x38d8c2c4, 0x4fdff252, 0xd1bb67f1, 0xa6bc5767, 0x3fb506dd, 0x48b2364b,
     0xd80d2bda, 0xaf0a1b4c, 0x36034af6, 0x41047a60, 0xdf60efc3, 0xa867df55,
     0x316e8eef, 0x4669be79, 0xcb61b38c, 0xbc66831a, 0x256fd2a0, 0x5268e236,
     0xcc0c7795, 0xbb0b4703, 0x220216b9, 0x5505262f, 0xc5ba3bbe, 0xb2bd0b28,
     0x2bb45a92, 0x5cb36a04, 0xc2d7ffa7, 0xb5d0cf31, 0x2cd99e8b, 0x5bdeae1d,
     0x9b64c2b0, 0xec63f226, 0x756aa39c, 0x026d930a, 0x9c0906a9, 0xeb0e363f,
     0x72076785, 0x05005713, 0x95bf4a82, 0xe2b87a14, 0x7bb12bae, 0x0cb61b38,
     0x92d28e9b, 0xe5d5be0d, 0x7cdcefb7, 0x0bdbdf21, 0x86d3d2d4, 0xf1d4e242,
     0x68ddb3f8, 0x1fda836e, 0x81be16cd, 0xf6b9265b, 0x6fb077e1, 0x18b74777,
     0x88085ae6, 0xff0f6a70, 0x66063bca, 0x11010b5c, 0x8f659eff, 0xf862ae69,
     0x616bffd3, 0x166ccf45, 0xa00ae278, 0xd70dd2ee, 0x4e048354, 0x3903b3c2,
     0xa7672661, 0xd06016f7, 0x4969474d, 0x3e6e77db, 0xaed16a4a, 0xd9d65adc,
     0x40df0b66, 0x37d83bf0, 0xa9bcae53, 0xdebb9ec5, 0x47b2cf7f, 0x30b5ffe9,
     0xbdbdf21c, 0xcabac28a, 0x53b39330, 0x24b4a3a6, 0xbad03605, 0xcdd70693,
     0x54de5729, 0x23d967bf, 0xb3667a2e, 0xc4614ab8, 0x5d681b02, 0x2a6f2b94,
     0xb40bbe37, 0xc30c8ea1, 0x5a05df1b, 0x2d02ef8d]"

text \<open>
  \<open>crc32_le(Crc_I, Buffer_PC, Length_I)\<close>; the list is the \<open>Length_I\<close> bytes at
  \<open>Buffer_PC\<close>, consumed in the order of the loop.
\<close>

fun crc32_le :: "u32 \<Rightarrow> bytes \<Rightarrow> u32" where
  "crc32_le crc [] = crc"
| "crc32_le crc (b # bs) =
     crc32_le (drop_bit 8 crc XOR crc32tab ! unat ((ucast crc :: u8) XOR b)) bs"

subsection \<open>The bit-serial reference\<close>

definition crc_step :: "u32 \<Rightarrow> u32" where
  "crc_step c = (if bit c 0 then drop_bit 1 c XOR 0xedb88320 else drop_bit 1 c)"

definition crc_byte :: "u32 \<Rightarrow> u8 \<Rightarrow> u32" where
  "crc_byte c b = (crc_step ^^ 8) (c XOR ucast b)"

fun crc32_serial :: "u32 \<Rightarrow> bytes \<Rightarrow> u32" where
  "crc32_serial crc [] = crc"
| "crc32_serial crc (b # bs) = crc32_serial (crc_byte crc b) bs"

lemma crc_step_xor: "crc_step (x XOR y) = crc_step x XOR crc_step y"
  by (simp add: crc_step_def bit_xor_iff drop_bit_xor xor.assoc xor.left_commute xor.commute)
lemma crc_steps_xor: "(crc_step ^^ n) (x XOR y) = (crc_step ^^ n) x XOR (crc_step ^^ n) y"
  by (induction n) (simp_all add: crc_step_xor)

lemma crc_steps_low_zero: "(\<forall>i < n. \<not> bit x i) \<Longrightarrow> (crc_step ^^ n) x = drop_bit n x"
proof (induction n)
  case (Suc n)
  then have "(crc_step ^^ Suc n) x = crc_step (drop_bit n x)" by simp
  also have "\<dots> = drop_bit (Suc n) x" using Suc.prems by (simp add: crc_step_def bit_drop_bit_eq)
  finally show ?case .
qed simp

fun xor_span :: "u32 list \<Rightarrow> u32 list" where
  "xor_span [] = [0]"
| "xor_span (t # ts) = xor_span ts @ map (\<lambda>x. x XOR t) (xor_span ts)"

lemma length_xor_span [simp]: "length (xor_span ts) = 2 ^ length ts"
  by (induction ts) auto

lemma of_nat_add_pow2_xor:
  "i < 2 ^ k \<Longrightarrow> (of_nat (2 ^ k + i) :: u32) = of_nat i XOR 2 ^ k"
proof -
  assume i: "i < 2 ^ k"
  have "(of_nat (2 ^ k + i) :: u32) = 2 ^ k + of_nat i" by simp
  also have "\<dots> = 2 ^ k OR of_nat i"
  proof (rule disjunctive_add_eq_or)
    show "2 ^ k AND (of_nat i :: u32) = 0"
    proof (rule bit_eqI)
      fix n show "bit (2 ^ k AND (of_nat i :: u32)) n = bit (0 :: u32) n"
        using i by (auto simp: bit_simps bit_exp_iff) (metis bit_take_bit_iff less_irrefl take_bit_nat_eq_self)
    qed
  qed
  also have "\<dots> = of_nat i XOR 2 ^ k"
    using i by (intro bit_eqI) (auto simp: bit_simps bit_exp_iff, (metis bit_take_bit_iff less_irrefl take_bit_nat_eq_self)+)
  finally show ?thesis .
qed

lemma xor_span_nth:
  fixes f :: "u32 \<Rightarrow> u32"
  assumes f: "\<And>x y. f (x XOR y) = f x XOR f y"
  shows "i < 2 ^ n \<Longrightarrow> xor_span (map (\<lambda>k. f (2 ^ k)) (rev [0..<n])) ! i = f (of_nat i)"
proof (induction n arbitrary: i)
  case 0
  have "f 0 = 0" using f [of 0 0] by simp
  then show ?case using 0 by simp
next
  case (Suc n)
  show ?case
  proof (cases "i < 2 ^ n")
    case True
    then show ?thesis using Suc.IH by (simp add: nth_append)
  next
    case False
    define j where "j = i - 2 ^ n"
    have j: "i = 2 ^ n + j" "j < 2 ^ n" using False Suc.prems by (auto simp: j_def)
    then have "f (of_nat i) = f (of_nat j) XOR f (2 ^ n)"
      by (simp only: of_nat_add_pow2_xor f)
    then show ?thesis using j Suc.IH [of j] by (simp add: nth_append)
  qed
qed

lemma crc_steps_8:
  "(crc_step ^^ 8) x =
   crc_step (crc_step (crc_step (crc_step (crc_step (crc_step (crc_step (crc_step x)))))))"
  by (simp add: numeral_eq_Suc)

lemma crc_basis:
  "map (\<lambda>k. (crc_step ^^ 8) (2 ^ k)) (rev [0..<8]) =
   [0xedb88320, 0x76dc4190, 0x3b6e20c8, 0x1db71064, 0x0edb8832, 0x076dc419, 0xee0e612c, 0x77073096]"
  proof -
  have r: "rev [0..<8] = [7, 6, 5, 4, 3, 2, 1, 0 :: nat]" by code_simp
  show ?thesis unfolding r list.map by (simp add: crc_steps_8 crc_step_def)
qed

lemma crc32tab_span:
  "crc32tab = xor_span [0xedb88320, 0x76dc4190, 0x3b6e20c8, 0x1db71064, 0x0edb8832, 0x076dc419, 0xee0e612c, 0x77073096]"
  by (simp add: crc32tab_def)

lemma crc32tab_nth: "i < 256 \<Longrightarrow> crc32tab ! i = (crc_step ^^ 8) (of_nat i)"
  using xor_span_nth [of "crc_step ^^ 8" i 8] by (simp add: crc_steps_xor crc_basis crc32tab_span)

lemma crc_byte_table:
  "drop_bit 8 c XOR crc32tab ! unat ((ucast c :: u8) XOR b) = crc_byte c b"
proof -
  define lo :: u8 where "lo = ucast c XOR b"
  define hi where "hi = push_bit 8 (drop_bit 8 c)"
  have "c XOR ucast b = hi XOR ucast lo"
    by (rule bit_word_eqI) (auto simp: hi_def lo_def bit_simps)
  moreover have "(crc_step ^^ 8) hi = drop_bit 8 c"
  proof -
    have "(crc_step ^^ 8) hi = drop_bit 8 hi"
      by (rule crc_steps_low_zero) (auto simp: hi_def bit_simps)
    also have "\<dots> = drop_bit 8 c"
      by (rule bit_word_eqI) (auto simp: hi_def bit_simps dest: bit_imp_le_length)
    finally show ?thesis .
  qed
  moreover have "(crc_step ^^ 8) (ucast lo) = crc32tab ! unat lo"
    using unsigned_less [of lo, where ?'a = nat] by (simp add: crc32tab_nth)
  ultimately show ?thesis
    by (simp add: crc_byte_def crc_steps_xor lo_def)
qed

lemma crc32_le_serial: "crc32_le c bs = crc32_serial c bs"
  by (induction bs arbitrary: c) (simp_all add: crc_byte_table)

lemma xor_zero_iff: "x XOR y = 0 \<longleftrightarrow> x = (y :: u32)"
  by (auto simp: bit_eq_iff bit_xor_iff)

lemma xor_cancel: "x XOR z = y XOR z \<longleftrightarrow> x = (y :: u32)"
  by (auto simp: bit_eq_iff bit_xor_iff)

lemma xor_cancel_left: "z XOR x = z XOR y \<longleftrightarrow> x = (y :: u32)"
  by (auto simp: bit_eq_iff bit_xor_iff)

lemma crc_step_zero: "crc_step z = 0 \<Longrightarrow> z = 0"
proof (cases "bit z 0")
  case True
  assume "crc_step z = 0"
  then have "drop_bit 1 z = 0xedb88320"
    using True by (simp add: crc_step_def xor_zero_iff)
  then have "bit (drop_bit 1 z) 31" by simp
  then show ?thesis by (auto simp: bit_simps dest: bit_imp_le_length)
next
  case False
  assume "crc_step z = 0"
  then have "drop_bit 1 z = 0" using False by (simp add: crc_step_def)
  then have b: "\<not> bit (drop_bit 1 z) n" for n by simp
  show "z = 0"
  proof (rule bit_word_eqI)
    fix n show "bit z n = bit 0 n" using False b [of "n - 1"] by (cases n) (auto simp: bit_simps)
  qed
qed

lemma crc_steps_inj: "(crc_step ^^ n) x = (crc_step ^^ n) y \<longleftrightarrow> x = y"
proof
  assume "(crc_step ^^ n) x = (crc_step ^^ n) y"
  then have "(crc_step ^^ n) (x XOR y) = 0" by (simp add: crc_steps_xor)
  moreover have "(crc_step ^^ n) z = 0 \<Longrightarrow> z = 0" for z
    by (induction n) (auto dest: crc_step_zero)
  ultimately have "x XOR y = 0" by blast
  then show "x = y" by (simp add: xor_zero_iff)
qed simp

lemma crc32_serial_append: "crc32_serial c (xs @ ys) = crc32_serial (crc32_serial c xs) ys"
  by (induction xs arbitrary: c) auto

lemma crc32_serial_inj: "crc32_serial c bs = crc32_serial d bs \<longleftrightarrow> c = d"
proof (induction bs arbitrary: c d)
  case (Cons b bs)
  then show ?case by (simp add: crc_byte_def crc_steps_inj xor_cancel)
qed simp

lemma le_nat_bound: "le_nat bs < 256 ^ length bs"
proof (induction bs)
  case (Cons b bs)
  have "unat b < 256" using unsigned_less [of b, where ?'a = nat] by simp
  then show ?case using Cons by simp
qed simp

lemma crc32_serial_burst:
  "length bs \<le> 4 \<Longrightarrow> crc32_serial c bs = (crc_step ^^ (8 * length bs)) (c XOR of_nat (le_nat bs))"
proof (induction bs arbitrary: c)
  case (Cons b bs)
  define w :: u32 where "w = of_nat (le_nat bs)"
  have "le_nat bs < 256 ^ length bs" by (rule le_nat_bound)
  also have "\<dots> \<le> 256 ^ 3" using Cons.prems by (intro power_increasing) auto
  finally have wlt: "le_nat bs < 2 ^ 24" by simp
  have "(crc_step ^^ 8) (push_bit 8 w) = drop_bit 8 (push_bit 8 w)"
    by (rule crc_steps_low_zero) (auto simp: bit_simps)
  also have "\<dots> = w"
  proof (rule bit_word_eqI)
    fix n assume "n < LENGTH(32)"
    moreover have "bit w n \<Longrightarrow> n < 24"
      using wlt unfolding w_def by (metis bit_of_nat_iff bit_take_bit_iff take_bit_nat_eq_self)
    ultimately show "bit (drop_bit 8 (push_bit 8 w)) n = bit w n" by (auto simp: bit_simps)
  qed
  finally have shift: "(crc_step ^^ 8) (push_bit 8 w) = w" .
  have bsplit: "(of_nat (le_nat (b # bs)) :: u32) = ucast b XOR push_bit 8 w"
  proof -
    have "(of_nat (le_nat (b # bs)) :: u32) = ucast b + push_bit 8 w"
      by (simp add: w_def push_bit_eq_mult mult.commute)
    also have "\<dots> = ucast b OR push_bit 8 w"
      by (rule disjunctive_add_eq_or, rule bit_word_eqI) (auto simp: bit_simps dest: bit_imp_le_length)
    also have "\<dots> = ucast b XOR push_bit 8 w"
      by (rule bit_word_eqI) (auto simp: bit_simps dest: bit_imp_le_length)
    finally show ?thesis .
  qed
  have len: "8 * length (b # bs) = 8 * length bs + 8" by simp
  have "crc32_serial c (b # bs) = (crc_step ^^ (8 * length bs)) (crc_byte c b XOR w)"
    using Cons by (simp add: w_def)
  also have "crc_byte c b XOR w = (crc_step ^^ 8) ((c XOR ucast b) XOR push_bit 8 w)"
    by (simp only: crc_steps_xor shift crc_byte_def)
  also have "(crc_step ^^ (8 * length bs)) \<dots> = (crc_step ^^ (8 * length (b # bs))) (c XOR (ucast b XOR push_bit 8 w))"
    by (simp only: len funpow_add o_apply xor.assoc)
  finally show ?case by (simp only: bsplit)
qed simp

text \<open>C22. The table-driven CRC32 of \<open>crc32.c\<close> computes, for every seed and every buffer, the
  remainder of the bit-serial division by the polynomial 0xedb88320: each of the 256
  table entries is eight division steps of its index.\<close>

theorem crc32_le_is_bit_serial: "crc32_le crc buf = crc32_serial crc buf"
  by (rule crc32_le_serial)



section \<open>bitops.c\<close>

text \<open>
  The bitmap operations on a byte array; \<open>nr >> 3\<close> and \<open>nr & 0x07\<close> of a
  non-negative bit number are its quotient and remainder by 8. Each returns the old bit,
  masked, and the array.
\<close>

definition bit_mask :: "nat \<Rightarrow> u8" where
  "bit_mask nr = push_bit (nr mod 8) 1"

definition ext2fs_set_bit :: "nat \<Rightarrow> bytes \<Rightarrow> u8 \<times> bytes" where
  "ext2fs_set_bit nr a = (let i = nr div 8; mask = bit_mask nr in
     (mask AND a ! i, a[i := a ! i OR mask]))"

definition ext2fs_clear_bit :: "nat \<Rightarrow> bytes \<Rightarrow> u8 \<times> bytes" where
  "ext2fs_clear_bit nr a = (let i = nr div 8; mask = bit_mask nr in
     (mask AND a ! i, a[i := a ! i AND NOT mask]))"

definition ext2fs_test_bit :: "nat \<Rightarrow> bytes \<Rightarrow> u8" where
  "ext2fs_test_bit nr a = (let i = nr div 8; mask = bit_mask nr in mask AND a ! i)"

text \<open>The bitmap as the set of its one bits.\<close>

definition bits_of :: "bytes \<Rightarrow> nat set" where
  "bits_of a = {n. n < 8 * length a \<and> bit (a ! (n div 8)) (n mod 8)}"

lemma bit_mask_bit [simp]: "bit (bit_mask nr) k \<longleftrightarrow> k = nr mod 8"
  by (auto simp: bit_mask_def bit_simps)

lemma bit_mask_and_nonzero: "bit_mask nr AND x \<noteq> 0 \<longleftrightarrow> bit x (nr mod 8)"
proof
  assume "bit_mask nr AND x \<noteq> 0"
  then obtain k where "bit (bit_mask nr AND x) k" by (auto simp: bit_eq_iff)
  then show "bit x (nr mod 8)" by (auto simp: bit_and_iff)
next
  assume "bit x (nr mod 8)"
  then have "bit (bit_mask nr AND x) (nr mod 8)" by (simp add: bit_and_iff)
  then show "bit_mask nr AND x \<noteq> 0" by force
qed

lemma div_mod_8_eq: "n div 8 = m div 8 \<Longrightarrow> n mod 8 = m mod 8 \<Longrightarrow> n = (m :: nat)"
  by (metis div_mult_mod_eq)

text \<open>C24. The bitmap operations implement a set of bit numbers: setting inserts, clearing
  deletes, testing is membership, each returns whether the bit was a member before, and
  the array keeps its length.\<close>

theorem bitops_set_semantics:
  assumes "nr < 8 * length a"
  shows "bits_of (snd (ext2fs_set_bit nr a)) = insert nr (bits_of a)
    \<and> bits_of (snd (ext2fs_clear_bit nr a)) = bits_of a - {nr}
    \<and> (ext2fs_test_bit nr a \<noteq> 0 \<longleftrightarrow> nr \<in> bits_of a)
    \<and> (fst (ext2fs_set_bit nr a) \<noteq> 0 \<longleftrightarrow> nr \<in> bits_of a)
    \<and> (fst (ext2fs_clear_bit nr a) \<noteq> 0 \<longleftrightarrow> nr \<in> bits_of a)
    \<and> length (snd (ext2fs_set_bit nr a)) = length a
    \<and> length (snd (ext2fs_clear_bit nr a)) = length a"
proof -
  have i: "nr div 8 < length a" using assms by auto
  have "bits_of (snd (ext2fs_set_bit nr a)) = insert nr (bits_of a)"
    using assms i by (auto simp: bits_of_def ext2fs_set_bit_def Let_def nth_list_update bit_or_iff
        dest: div_mod_8_eq split: if_splits)
  moreover have "bits_of (snd (ext2fs_clear_bit nr a)) = bits_of a - {nr}"
    using assms i by (auto simp: bits_of_def ext2fs_clear_bit_def Let_def nth_list_update bit_and_iff
        bit_not_iff dest: div_mod_8_eq split: if_splits)
  ultimately show ?thesis
    using assms by (simp add: ext2fs_test_bit_def ext2fs_set_bit_def ext2fs_clear_bit_def Let_def
        bit_mask_and_nonzero bits_of_def)
qed

theorem bitops_set_semantics_witness:
  "bits_of (snd (ext2fs_set_bit 9 [0, 1])) = insert 9 (bits_of [0, 1])
   \<and> bits_of (snd (ext2fs_clear_bit 8 [0, 1])) = bits_of [0, 1] - {8}"
  using bitops_set_semantics [of 9 "[0, 1]"] bitops_set_semantics [of 8 "[0, 1]"] by simp

end
