(* ===== verification/Nilfs_Vector.thy ===== *)
theory Nilfs_Vector
  imports Nilfs_Prelude
begin

text \<open>
  The resizable array of \<open>src/lib/vector.c\<close> and \<open>src/include/vector.h\<close>, the
  container of the garbage collector, the checkpoint mapper and the cleaner daemon.
  A vector is its array of slots and the three sizes of the C structure; a slot that
  \<open>malloc\<close> or \<open>realloc\<close> has just provided holds an unspecified value, the
  parameter \<open>junk\<close>. Whether an allocation of a number of bytes succeeds is decided by
  the parameter \<open>alloc\<close>, which also steps the state \<open>'w\<close> of the environment.
  Pointers to elements are slot indices.

  The list a vector stands for is \<open>vlist\<close>; every operation is proved to keep
  \<open>vector_inv\<close> and to act on \<open>vlist\<close> as the list operation its comment names, and
  the locale \<open>vector_interface\<close> is what the clients rely on.
\<close>

record 'a nilfs_vector =
  v_data :: "'a list"
  v_elemsize :: u64
  v_nelems :: u64
  v_maxelems :: u64

type_synonym 'w allocator = "u64 \<Rightarrow> 'w \<Rightarrow> bool \<times> 'w"

definition NILFS_VECTOR_INIT_MAXELEMS :: u64 where "NILFS_VECTOR_INIT_MAXELEMS = 256"
definition NILFS_VECTOR_FACTOR :: u64 where "NILFS_VECTOR_FACTOR = 2"
definition SIZE_MAX :: u64 where "SIZE_MAX = 2 ^ 64 - 1"
definition sizeof_nilfs_vector :: u64 where "sizeof_nilfs_vector = 32"

lemmas vector_consts = NILFS_VECTOR_INIT_MAXELEMS_def NILFS_VECTOR_FACTOR_def SIZE_MAX_def

section \<open>Operations\<close>

text \<open>\<open>realloc\<close> of the slot array: kept slots first, fresh ones hold junk.\<close>

definition resize :: "'a \<Rightarrow> nat \<Rightarrow> 'a list \<Rightarrow> 'a list" where
  "resize junk n xs = take n xs @ replicate (n - length xs) junk"

definition memmove :: "nat \<Rightarrow> nat \<Rightarrow> nat \<Rightarrow> 'a list \<Rightarrow> 'a list" where
  "memmove dst src n xs = put_at dst (take n (drop src xs)) xs"

definition nilfs_vector_create ::
    "'w allocator \<Rightarrow> 'a \<Rightarrow> u64 \<Rightarrow> 'w \<Rightarrow> (errno + 'a nilfs_vector) \<times> 'w" where
  "nilfs_vector_create alloc junk elemsize w =
     (if elemsize = 0 then (Inl EINVAL, w)
      else case alloc sizeof_nilfs_vector w of
        (False, w) \<Rightarrow> (Inl ENOMEM, w)
      | (True, w) \<Rightarrow>
          (case alloc (elemsize * NILFS_VECTOR_INIT_MAXELEMS) w of
             (False, w) \<Rightarrow> (Inl ENOMEM, w)
           | (True, w) \<Rightarrow>
               (Inr \<lparr>v_data = replicate (unat NILFS_VECTOR_INIT_MAXELEMS) junk,
                     v_elemsize = elemsize, v_nelems = 0,
                     v_maxelems = NILFS_VECTOR_INIT_MAXELEMS\<rparr>, w)))"

text \<open>
  The doubling loop of \<open>nilfs_vector_enlarge\<close>; \<open>None\<close> would be an endless loop
  (an array of zero slots).
\<close>

partial_function (option) enlarge_loop :: "u64 \<Rightarrow> u64 \<Rightarrow> u64 \<Rightarrow> (errno + u64) option" where
  "enlarge_loop maxelems nelems_limit minelems =
     (if maxelems > nelems_limit then Some (Inl EOVERFLOW)
      else if maxelems * NILFS_VECTOR_FACTOR < minelems
           then enlarge_loop (maxelems * NILFS_VECTOR_FACTOR) nelems_limit minelems
           else Some (Inr (maxelems * NILFS_VECTOR_FACTOR)))"

definition nilfs_vector_enlarge ::
    "'w allocator \<Rightarrow> 'a \<Rightarrow> 'a nilfs_vector \<Rightarrow> u64 \<Rightarrow> 'w \<Rightarrow> (errno + 'a nilfs_vector) \<times> 'w" where
  "nilfs_vector_enlarge alloc junk v minelems w =
     (case enlarge_loop (v_maxelems v) ((SIZE_MAX div NILFS_VECTOR_FACTOR) div v_elemsize v) minelems of
        None \<Rightarrow> (Inl EHang, w)
      | Some (Inl e) \<Rightarrow> (Inl e, w)
      | Some (Inr maxelems) \<Rightarrow>
          (case alloc (v_elemsize v * maxelems) w of
             (False, w) \<Rightarrow> (Inl ENOMEM, w)
           | (True, w) \<Rightarrow>
               (Inr (v\<lparr>v_data := resize junk (unat maxelems) (v_data v), v_maxelems := maxelems\<rparr>), w)))"

definition nilfs_vector_get_new_element ::
    "'w allocator \<Rightarrow> 'a \<Rightarrow> 'a nilfs_vector \<Rightarrow> 'w \<Rightarrow> (errno + nat \<times> 'a nilfs_vector) \<times> 'w" where
  "nilfs_vector_get_new_element alloc junk v w =
     (let (r, w) = (if v_nelems v \<ge> v_maxelems v
                    then nilfs_vector_enlarge alloc junk v (v_nelems v + 1) w
                    else (Inr v, w))
      in case r of Inl e \<Rightarrow> (Inl e, w)
         | Inr v \<Rightarrow> (Inr (unat (v_nelems v), v\<lparr>v_nelems := v_nelems v + 1\<rparr>), w))"

definition nilfs_vector_delete_elements ::
    "'a nilfs_vector \<Rightarrow> u32 \<Rightarrow> u64 \<Rightarrow> errno + 'a nilfs_vector" where
  "nilfs_vector_delete_elements v index nelems =
     (let i = ucast index :: u64 in
      if i \<ge> v_nelems v \<or> i + nelems - 1 \<ge> v_nelems v then Inl EINVAL
      else Inr (v\<lparr>v_data := (if i + nelems - 1 < v_nelems v - 1
                             then memmove (unat i) (unat (i + nelems))
                                    (unat (v_nelems v - (i + nelems))) (v_data v)
                             else v_data v),
                  v_nelems := v_nelems v - nelems\<rparr>))"

definition nilfs_vector_clear ::
    "'w allocator \<Rightarrow> 'a \<Rightarrow> 'a nilfs_vector \<Rightarrow> 'w \<Rightarrow> 'a nilfs_vector \<times> 'w" where
  "nilfs_vector_clear alloc junk v w =
     (let (v, w) =
        (if v_maxelems v > NILFS_VECTOR_INIT_MAXELEMS
         then case alloc (v_elemsize v * NILFS_VECTOR_INIT_MAXELEMS) w of
                (True, w) \<Rightarrow>
                  (v\<lparr>v_data := resize junk (unat NILFS_VECTOR_INIT_MAXELEMS) (v_data v),
                     v_maxelems := NILFS_VECTOR_INIT_MAXELEMS\<rparr>, w)
              | (False, w) \<Rightarrow> (v, w)
         else (v, w))
      in (v\<lparr>v_nelems := 0\<rparr>, w))"

definition nilfs_vector_insert_elements ::
    "'w allocator \<Rightarrow> 'a \<Rightarrow> 'a nilfs_vector \<Rightarrow> u32 \<Rightarrow> u64 \<Rightarrow> 'w
     \<Rightarrow> (errno + nat \<times> 'a nilfs_vector) \<times> 'w" where
  "nilfs_vector_insert_elements alloc junk v index nelems w =
     (let i = ucast index :: u64 in
      if i > v_nelems v then (Inl EINVAL, w)
      else if nelems > SIZE_MAX - v_nelems v then (Inl EOVERFLOW, w)
      else
        let (r, w) = (if v_nelems v + nelems > v_maxelems v
                      then nilfs_vector_enlarge alloc junk v (v_nelems v + nelems) w
                      else (Inr v, w))
        in case r of Inl e \<Rightarrow> (Inl e, w)
           | Inr v \<Rightarrow>
             (Inr (unat i,
                   v\<lparr>v_data := (if i < v_nelems v
                                then memmove (unat (i + nelems)) (unat i)
                                       (unat (v_nelems v - i)) (v_data v)
                                else v_data v),
                     v_nelems := v_nelems v + nelems\<rparr>), w))"

definition nilfs_vector_get_size :: "'a nilfs_vector \<Rightarrow> u64" where
  "nilfs_vector_get_size v = v_nelems v"

definition nilfs_vector_get_element :: "'a nilfs_vector \<Rightarrow> u32 \<Rightarrow> nat option" where
  "nilfs_vector_get_element v index =
     (if (ucast index :: u64) < v_nelems v then Some (unat index) else None)"

definition nilfs_vector_delete_element :: "'a nilfs_vector \<Rightarrow> u32 \<Rightarrow> errno + 'a nilfs_vector" where
  "nilfs_vector_delete_element v index = nilfs_vector_delete_elements v index 1"

definition nilfs_vector_insert_element ::
    "'w allocator \<Rightarrow> 'a \<Rightarrow> 'a nilfs_vector \<Rightarrow> u32 \<Rightarrow> 'w \<Rightarrow> (errno + nat \<times> 'a nilfs_vector) \<times> 'w" where
  "nilfs_vector_insert_element alloc junk v index w =
     nilfs_vector_insert_elements alloc junk v index 1 w"

definition nilfs_vector_sort :: "'a nilfs_vector \<Rightarrow> ('a \<Rightarrow> 'a \<Rightarrow> int) \<Rightarrow> 'a nilfs_vector" where
  "nilfs_vector_sort v compar =
     v\<lparr>v_data := qsort compar (take (unat (v_nelems v)) (v_data v)) @ drop (unat (v_nelems v)) (v_data v)\<rparr>"

text \<open>Reading and writing through an element pointer.\<close>

definition slot :: "'a nilfs_vector \<Rightarrow> nat \<Rightarrow> 'a" where
  "slot v i = v_data v ! i"

definition set_slot :: "'a nilfs_vector \<Rightarrow> nat \<Rightarrow> 'a \<Rightarrow> 'a nilfs_vector" where
  "set_slot v i x = v\<lparr>v_data := (v_data v)[i := x]\<rparr>"

text \<open>The idiom of every producer: a new element, filled in at once.\<close>

definition vector_push ::
    "'w allocator \<Rightarrow> 'a \<Rightarrow> 'a nilfs_vector \<Rightarrow> 'a \<Rightarrow> 'w \<Rightarrow> (errno + 'a nilfs_vector) \<times> 'w" where
  "vector_push alloc junk v x w =
     (case nilfs_vector_get_new_element alloc junk v w of
        (Inl e, w) \<Rightarrow> (Inl e, w)
      | (Inr (i, v), w) \<Rightarrow> (Inr (set_slot v i x), w))"

section \<open>Invariant and abstraction\<close>

definition vector_inv :: "'a nilfs_vector \<Rightarrow> bool" where
  "vector_inv v \<longleftrightarrow> length (v_data v) = unat (v_maxelems v) \<and> v_nelems v \<le> v_maxelems v
     \<and> v_elemsize v \<noteq> 0 \<and> NILFS_VECTOR_INIT_MAXELEMS \<le> v_maxelems v
     \<and> unat (v_maxelems v) * unat (v_elemsize v) < 2 ^ 64"

definition vlist :: "'a nilfs_vector \<Rightarrow> 'a list" where
  "vlist v = take (unat (v_nelems v)) (v_data v)"

section \<open>Lemmas\<close>

lemma unat_SIZE_MAX [simp]: "unat SIZE_MAX = 2 ^ 64 - 1"
  by (simp add: SIZE_MAX_def unsigned_minus_1_eq_mask mask_eq_exp_minus_1)

lemma vector_inv_le: "vector_inv v \<Longrightarrow> unat (v_nelems v) \<le> length (v_data v)"
  by (simp add: vector_inv_def word_le_nat_alt)

lemma length_vlist [simp]: "vector_inv v \<Longrightarrow> length (vlist v) = unat (v_nelems v)"
  using vector_inv_le [of v] by (simp add: vlist_def)

lemma length_resize [simp]: "length (resize junk n xs) = n"
  by (simp add: resize_def)

lemma take_resize [simp]: "k \<le> n \<Longrightarrow> k \<le> length xs \<Longrightarrow> take k (resize junk n xs) = take k xs"
  by (simp add: resize_def)

lemma unat_double: "unat (m :: u64) < 2 ^ 63 \<Longrightarrow> unat (m * 2) = 2 * unat m"
  by (simp add: unat_word_ariths)

text \<open>
  The loop stops: each round doubles a positive count. On success the count is large
  enough and its byte size does not wrap.
\<close>

lemma enlarge_loop_terminates:
  assumes "0 < m" "lim * 2 < 2 ^ 64" "unat limit = lim"
  shows "\<exists>r. enlarge_loop m limit minelems = Some r"
  using assms
proof (induction "2 ^ 64 - unat m" arbitrary: m rule: less_induct)
  case less
  show ?case
  proof (cases "m > limit")
    case True
    then show ?thesis by (simp add: enlarge_loop.simps)
  next
    case False
    then have "unat m < 2 ^ 63" using less.prems by (simp add: word_le_nat_alt not_less)
    then have d: "unat (m * 2) = 2 * unat m" by (rule unat_double)
    have pos: "0 < unat m" using less.prems(1) by (simp add: word_less_nat_alt)
    then have "2 ^ 64 - unat (m * 2) < 2 ^ 64 - unat m"
      using d unat_lt_u64 [of m] by simp
    moreover have "0 < m * 2" using d pos by (simp add: word_less_nat_alt)
    ultimately have "\<exists>r. enlarge_loop (m * 2) limit minelems = Some r"
      using less.hyps less.prems by blast
    then show ?thesis
      by (subst enlarge_loop.simps) (simp add: NILFS_VECTOR_FACTOR_def)
  qed
qed

lemma enlarge_loop_result:
  assumes "enlarge_loop m limit minelems = Some (Inr n)" "2 * unat limit < 2 ^ 64"
  shows "minelems \<le> n \<and> 2 * unat m \<le> unat n \<and> unat n \<le> 2 * unat limit"
proof (rule enlarge_loop.raw_induct [where P = "\<lambda>m limit minelems r. \<forall>n. r = Inr n \<longrightarrow>
    2 * unat limit < 2 ^ 64 \<longrightarrow> minelems \<le> n \<and> 2 * unat m \<le> unat n \<and> unat n \<le> 2 * unat limit",
    OF _ assms(1), rule_format, OF _ refl assms(2)])
  fix f m limit minelems r n
  assume IH: "\<And>m limit minelems r n. f m limit minelems = Some r \<Longrightarrow> r = Inr n \<Longrightarrow>
      2 * unat limit < 2 ^ 64 \<Longrightarrow> minelems \<le> n \<and> 2 * unat m \<le> unat n \<and> unat n \<le> 2 * unat limit"
    and eq: "(if limit < m then Some (Inl EOVERFLOW)
        else if m * NILFS_VECTOR_FACTOR < minelems then f (m * NILFS_VECTOR_FACTOR) limit minelems
             else Some (Inr (m * NILFS_VECTOR_FACTOR))) = Some r"
    and r: "r = Inr n" and lim: "2 * unat limit < 2 ^ 64"
  have ml: "\<not> limit < m" using eq r by (auto split: if_splits)
  then have "unat m \<le> unat limit" by (simp add: word_le_nat_alt not_less)
  then have d: "unat (m * 2) = 2 * unat m" and le: "2 * unat m \<le> 2 * unat limit"
    using lim by (auto intro: unat_double)
  show "minelems \<le> n \<and> 2 * unat m \<le> unat n \<and> unat n \<le> 2 * unat limit"
  proof (cases "m * NILFS_VECTOR_FACTOR < minelems")
    case True
    then have "f (m * 2) limit minelems = Some r"
      using eq ml by (simp add: NILFS_VECTOR_FACTOR_def)
    from IH [OF this r lim] show ?thesis using d by linarith
  next
    case False
    then have "n = m * 2" using eq ml r by (simp add: NILFS_VECTOR_FACTOR_def)
    then show ?thesis using False d le by (simp add: NILFS_VECTOR_FACTOR_def)
  qed
qed

lemma nelems_limit_bound:
  assumes "e \<noteq> (0 :: u64)"
  shows "2 * unat ((SIZE_MAX div NILFS_VECTOR_FACTOR) div e) * unat e < 2 ^ 64"
    and "2 * unat ((SIZE_MAX div NILFS_VECTOR_FACTOR) div e) < 2 ^ 64"
proof -
  have "unat (SIZE_MAX div NILFS_VECTOR_FACTOR) = 2 ^ 63 - 1"
    by (simp add: vector_consts unat_div_distrib unat_sub)
  then have q: "unat ((SIZE_MAX div NILFS_VECTOR_FACTOR) div e) = (2 ^ 63 - 1) div unat e"
    by (simp add: unat_div_distrib)
  have "(2 ^ 63 - 1) div unat e * unat e \<le> 2 ^ 63 - 1" by simp
  then show "2 * unat ((SIZE_MAX div NILFS_VECTOR_FACTOR) div e) * unat e < 2 ^ 64"
    unfolding q mult.assoc by (rule le_less_trans [OF mult_le_mono2]) simp
  show "2 * unat ((SIZE_MAX div NILFS_VECTOR_FACTOR) div e) < 2 ^ 64"
    unfolding q by (rule le_less_trans [OF mult_le_mono2 [OF div_le_dividend]]) simp
qed

lemma enlarge_ok:
  assumes inv: "vector_inv v" and r: "nilfs_vector_enlarge alloc junk v minelems w = (Inr v', w')"
  shows "vector_inv v' \<and> vlist v' = vlist v \<and> v_nelems v' = v_nelems v \<and> minelems \<le> v_maxelems v'
    \<and> v_maxelems v < v_maxelems v' \<and> v_elemsize v' = v_elemsize v"
proof -
  let ?lim = "(SIZE_MAX div NILFS_VECTOR_FACTOR) div v_elemsize v"
  have e: "v_elemsize v \<noteq> 0" using inv by (simp add: vector_inv_def)
  from r obtain n where n: "enlarge_loop (v_maxelems v) ?lim minelems = Some (Inr n)"
    and v': "v' = v\<lparr>v_data := resize junk (unat n) (v_data v), v_maxelems := n\<rparr>"
    by (auto simp: nilfs_vector_enlarge_def split: option.splits sum.splits prod.splits bool.splits)
  from enlarge_loop_result [OF n nelems_limit_bound(2) [OF e]]
  have n1: "minelems \<le> n" "2 * unat (v_maxelems v) \<le> unat n" "unat n \<le> 2 * unat ?lim" by auto
  have "unat n * unat (v_elemsize v) \<le> 2 * unat ?lim * unat (v_elemsize v)" using n1(3) by simp
  then have "unat n * unat (v_elemsize v) < 2 ^ 64" using nelems_limit_bound(1) [OF e] by linarith
  then show ?thesis
    using inv n1 vector_inv_le [OF inv]
    by (auto simp: v' vector_inv_def vlist_def word_le_nat_alt word_less_nat_alt vector_consts)
qed

lemma enlarge_err:
  assumes "vector_inv v" "nilfs_vector_enlarge alloc junk v minelems w = (Inl e, w')"
  shows "e = EOVERFLOW \<or> e = ENOMEM"
proof -
  let ?lim = "(SIZE_MAX div NILFS_VECTOR_FACTOR) div v_elemsize v"
  have e: "v_elemsize v \<noteq> 0" using assms by (simp add: vector_inv_def)
  have "unat NILFS_VECTOR_INIT_MAXELEMS \<le> unat (v_maxelems v)"
    using assms by (simp add: vector_inv_def word_le_nat_alt)
  then have "0 < v_maxelems v" by (simp add: vector_consts word_less_nat_alt)
  then obtain r where r: "enlarge_loop (v_maxelems v) ?lim minelems = Some r"
    using enlarge_loop_terminates [of "v_maxelems v" "unat ?lim" ?lim minelems] nelems_limit_bound(2) [OF e]
    by auto
  have "\<forall>e. r = Inl e \<longrightarrow> e = EOVERFLOW"
  proof (rule enlarge_loop.raw_induct [where P = "\<lambda>m l k r. \<forall>e. r = Inl e \<longrightarrow> e = EOVERFLOW", OF _ r])
  qed (auto split: if_splits)
  with r assms(2) show ?thesis
    by (auto simp: nilfs_vector_enlarge_def split: option.splits sum.splits prod.splits bool.splits)
qed

lemma inv_nelems_bounds:
  assumes "vector_inv v"
  shows "unat (v_nelems v) \<le> unat (v_maxelems v)" "unat (v_maxelems v) < 2 ^ 64"
  using assms unat_lt_u64 by (simp_all add: vector_inv_def word_le_nat_alt)

lemma unat_suc_nelems:
  "v_nelems v < m \<Longrightarrow> unat (v_nelems v + 1) = Suc (unat (v_nelems v))"
  using unat_lt_u64 [of m] by (simp add: word_less_nat_alt unat_word_ariths)

text \<open>A new element: one more slot at the end, the ones before it untouched.\<close>

lemma get_new_element_ok:
  assumes inv: "vector_inv v"
    and r: "nilfs_vector_get_new_element alloc junk v w = (Inr (i, v'), w')"
  shows "vector_inv v' \<and> i = length (vlist v) \<and> length (vlist v') = Suc (length (vlist v))
    \<and> take i (vlist v') = vlist v \<and> i < length (v_data v')"
proof -
  obtain u where u: "vector_inv u" "vlist u = vlist v" "v_nelems u = v_nelems v"
      "v_nelems u < v_maxelems u"
    and v': "i = unat (v_nelems u)" "v' = u\<lparr>v_nelems := v_nelems u + 1\<rparr>"
  proof (cases "v_nelems v \<ge> v_maxelems v")
    case True
    then have eq: "v_nelems v = v_maxelems v" using inv by (simp add: vector_inv_def)
    from True r obtain u where e: "nilfs_vector_enlarge alloc junk v (v_nelems v + 1) w = (Inr u, w')"
      and *: "i = unat (v_nelems u)" "v' = u\<lparr>v_nelems := v_nelems u + 1\<rparr>"
      by (auto simp: nilfs_vector_get_new_element_def split: prod.splits sum.splits)
    from enlarge_ok [OF inv e]
    have "vector_inv u" "vlist u = vlist v" "v_nelems u = v_nelems v" by auto
    moreover have "v_nelems v < v_maxelems u" using enlarge_ok [OF inv e] eq by simp
    ultimately show ?thesis using that * by auto
  next
    case False
    with r inv that show ?thesis
      by (auto simp: nilfs_vector_get_new_element_def split: prod.splits sum.splits)
  qed
  have S: "unat (v_nelems u + 1) = Suc (unat (v_nelems u))" using u(4) by (rule unat_suc_nelems)
  have lt: "unat (v_nelems u) < length (v_data u)"
    using u(1,4) by (simp add: vector_inv_def word_less_nat_alt)
  have inv': "vector_inv v'"
    using u(1,4) S by (auto simp: v' vector_inv_def word_le_nat_alt word_less_nat_alt)
  show ?thesis
    using inv' inv u lt S vector_inv_le [OF inv] by (simp add: v' vlist_def min_absorb2)
qed

lemma get_new_element_err:
  assumes "vector_inv v" "nilfs_vector_get_new_element alloc junk v w = (Inl e, w')"
  shows "e = EOVERFLOW \<or> e = ENOMEM"
  using enlarge_err [OF assms(1), of alloc junk "v_nelems v + 1" w] assms(2)
  by (auto simp: nilfs_vector_get_new_element_def split: prod.splits sum.splits if_splits)

lemma vector_push_err:
  assumes "vector_inv v" "vector_push alloc junk v x w = (Inl e, w')"
  shows "e = EOVERFLOW \<or> e = ENOMEM"
  using get_new_element_err [OF assms(1), of alloc junk w] assms(2)
  by (auto simp: vector_push_def split: prod.splits sum.splits)

lemma vector_push_ok:
  assumes inv: "vector_inv v" and r: "vector_push alloc junk v x w = (Inr v', w')"
  shows "vector_inv v' \<and> vlist v' = vlist v @ [x]"
proof -
  from r obtain i u where g: "nilfs_vector_get_new_element alloc junk v w = (Inr (i, u), w')"
    and v': "v' = set_slot u i x"
    by (auto simp: vector_push_def split: prod.splits sum.splits)
  note u = get_new_element_ok [OF inv g]
  have inv': "vector_inv v'" using u by (simp add: v' set_slot_def vector_inv_def)
  have n: "unat (v_nelems u) = Suc i" using u length_vlist [of u] by simp
  have "vlist v' = (take (Suc i) (v_data u))[i := x]"
    using n by (simp add: v' set_slot_def vlist_def take_update_swap)
  also have "\<dots> = take i (v_data u) @ [x]"
    using u by (simp add: take_Suc_conv_app_nth list_update_append)
  also have "take i (v_data u) = take i (vlist u)" using n by (simp add: vlist_def)
  also have "\<dots> = vlist v" using u by blast
  finally show ?thesis using inv' by simp
qed

text \<open>
  Deleting a range that the index arithmetic does not wrap: out of range is refused,
  otherwise the range is cut out.
\<close>

lemma unat_range:
  assumes "unat (index :: u32) + unat (n :: u64) < 2 ^ 64"
  shows "unat (ucast index + n :: u64) = unat index + unat n"
  using assms by (simp add: unat_add_u64)

lemma delete_elements_spec:
  assumes inv: "vector_inv v" and k: "0 < unat n" "unat index + unat n < 2 ^ 64"
  shows "nilfs_vector_delete_elements v index n =
    (if unat index + unat n \<le> length (vlist v)
     then Inr (v\<lparr>v_data := memmove (unat index) (unat index + unat n)
                   (length (vlist v) - (unat index + unat n)) (v_data v),
              v_nelems := v_nelems v - n\<rparr>)
     else Inl EINVAL)"
proof -
  let ?i = "ucast index :: u64"
  have s: "unat (?i + n) = unat index + unat n" using k(2) by (rule unat_range)
  then have s1: "unat (?i + n - 1) = unat index + unat n - 1"
    using k by (subst unat_sub) (auto simp: word_le_nat_alt)
  have N: "length (vlist v) = unat (v_nelems v)" using inv by simp
  show ?thesis
  proof (cases "unat index + unat n \<le> unat (v_nelems v)")
    case True
    then have a: "\<not> ?i \<ge> v_nelems v" "\<not> ?i + n - 1 \<ge> v_nelems v" "?i + n \<le> v_nelems v"
      using k s s1 by (auto simp: word_le_nat_alt not_le word_less_nat_alt)
    have m: "unat (v_nelems v - (?i + n)) = unat (v_nelems v) - (unat index + unat n)"
      using a(3) s by (simp add: unat_sub)
    have c: "?i + n - 1 < v_nelems v - 1 \<longleftrightarrow> unat index + unat n < unat (v_nelems v)"
      using True k s1 by (subst word_less_nat_alt, subst (2) unat_sub) (auto simp: word_le_nat_alt)
    have e: "memmove i (unat (v_nelems v)) 0 xs = xs" for i and xs :: "'a list"
      by (simp add: memmove_def put_at_def)
    show ?thesis
      using True a m c s N e by (auto simp: nilfs_vector_delete_elements_def Let_def)
  next
    case False
    then have "?i \<ge> v_nelems v \<or> ?i + n - 1 \<ge> v_nelems v"
      using k s1 by (auto simp: word_le_nat_alt)
    then show ?thesis using False N by (simp add: nilfs_vector_delete_elements_def Let_def)
  qed
qed

lemma take_cut:
  assumes "k + n \<le> N" "N \<le> length xs"
  shows "take (N - n) (put_at k (take (N - (k + n)) (drop (k + n) xs)) xs)
       = take k (take N xs) @ drop (k + n) (take N xs)"
proof -
  have "N - n = length (take k xs @ take (N - (k + n)) (drop (k + n) xs))" using assms by simp
  then show ?thesis using assms by (simp add: put_at_def drop_take min_absorb1 add.commute)
qed

lemma delete_elements_ok:
  assumes inv: "vector_inv v" and k: "0 < unat n" "unat index + unat n \<le> length (vlist v)"
  shows "\<exists>v'. nilfs_vector_delete_elements v index n = Inr v' \<and> vector_inv v' \<and> v_elemsize v' = v_elemsize v
    \<and> vlist v' = take (unat index) (vlist v) @ drop (unat index + unat n) (vlist v)"
proof -
  have b: "length (vlist v) = unat (v_nelems v)" "unat (v_nelems v) \<le> length (v_data v)"
    using inv vector_inv_le by auto
  have lt: "unat index + unat n < 2 ^ 64" using k(2) b unat_lt_u64 [of "v_nelems v"] by simp
  let ?m = "memmove (unat index) (unat index + unat n) (length (vlist v) - (unat index + unat n)) (v_data v)"
  let ?v = "v\<lparr>v_data := ?m, v_nelems := v_nelems v - n\<rparr>"
  have len: "length ?m = length (v_data v)"
    unfolding memmove_def using k b by (intro length_put_at) simp
  have u: "unat (v_nelems v - n) = unat (v_nelems v) - unat n"
    using k b by (simp add: unat_sub word_le_nat_alt)
  have "vector_inv ?v" using inv len u by (auto simp: vector_inv_def word_le_nat_alt)
  moreover have "vlist ?v = take (unat index) (vlist v) @ drop (unat index + unat n) (vlist v)"
    using k b u take_cut [of "unat index" "unat n" "unat (v_nelems v)" "v_data v"]
    by (simp add: vlist_def memmove_def)
  ultimately show ?thesis using delete_elements_spec [OF inv k(1) lt] k(2) by auto
qed

lemma delete_elements_einval:
  assumes "vector_inv v" "0 < unat n" "unat index + unat n < 2 ^ 64" "length (vlist v) < unat index + unat n"
  shows "nilfs_vector_delete_elements v index n = Inl EINVAL"
  using delete_elements_spec [OF assms(1-3)] assms(4) by simp

lemma take_gap:
  assumes "i \<le> N" "N + n \<le> length xs"
  shows "take i (take (N + n) (put_at (i + n) (take (N - i) (drop i xs)) xs)) = take i (take N xs)"
    and "drop (i + n) (take (N + n) (put_at (i + n) (take (N - i) (drop i xs)) xs)) = drop i (take N xs)"
  using assms by (simp_all add: put_at_def drop_take min_absorb1)

text \<open>Insertion opens a gap of fresh slots at the index.\<close>

lemma insert_elements_ok:
  assumes inv: "vector_inv v"
    and r: "nilfs_vector_insert_elements alloc junk v index n w = (Inr (i, v'), w')"
  shows "vector_inv v' \<and> i = unat index \<and> i \<le> length (vlist v)
    \<and> length (vlist v') = length (vlist v) + unat n
    \<and> take i (vlist v') = take i (vlist v) \<and> drop (i + unat n) (vlist v') = drop i (vlist v)"
proof -
  let ?i = "ucast index :: u64"
  have a: "\<not> ?i > v_nelems v" "\<not> n > SIZE_MAX - v_nelems v"
    using r by (auto simp: nilfs_vector_insert_elements_def Let_def split: if_splits)
  have iN: "unat index \<le> unat (v_nelems v)" using a(1) by (simp add: not_less word_le_nat_alt)
  have "unat n \<le> unat (SIZE_MAX - v_nelems v)" using a(2) by (simp add: not_less word_le_nat_alt)
  also have "\<dots> = 2 ^ 64 - 1 - unat (v_nelems v)"
    using unat_lt_u64 [of "v_nelems v"]
    by (subst unat_sub) (auto simp: word_le_nat_alt)
  finally have nn: "unat n + unat (v_nelems v) < 2 ^ 64" using unat_lt_u64 [of "v_nelems v"] by simp
  have S: "unat (v_nelems v + n) = unat (v_nelems v) + unat n"
    using nn by (simp add: unat_add_u64)
  have T: "unat (?i + n) = unat index + unat n" using nn iN by (intro unat_range) simp
  obtain u where u: "vector_inv u" "vlist u = vlist v" "v_nelems u = v_nelems v" "v_nelems v + n \<le> v_maxelems u"
    and i: "i = unat index"
    and v': "v' = u\<lparr>v_data := (if ?i < v_nelems u
                then memmove (unat (?i + n)) (unat ?i) (unat (v_nelems u - ?i)) (v_data u)
                else v_data u), v_nelems := v_nelems u + n\<rparr>"
  proof (cases "v_nelems v + n > v_maxelems v")
    case True
    with r a obtain u where e: "nilfs_vector_enlarge alloc junk v (v_nelems v + n) w = (Inr u, w')"
      and *: "i = unat ?i" "v' = u\<lparr>v_data := (if ?i < v_nelems u
                then memmove (unat (?i + n)) (unat ?i) (unat (v_nelems u - ?i)) (v_data u)
                else v_data u), v_nelems := v_nelems u + n\<rparr>"
      by (auto simp: nilfs_vector_insert_elements_def Let_def split: prod.splits sum.splits)
    from enlarge_ok [OF inv e] that * show ?thesis by auto
  next
    case False
    with r a inv that [of v] show ?thesis
      by (auto simp: nilfs_vector_insert_elements_def Let_def)
  qed
  have D: "unat (v_nelems v) + unat n \<le> length (v_data u)"
    using u(1,4) S by (simp add: vector_inv_def word_le_nat_alt)
  have M: "unat (v_nelems v - ?i) = unat (v_nelems v) - unat index"
    using iN by (simp add: unat_sub word_le_nat_alt)
  define d where "d = memmove (unat index + unat n) (unat index) (unat (v_nelems v) - unat index) (v_data u)"
  have d: "length d = length (v_data u)"
    unfolding d_def memmove_def using D iN by (intro length_put_at) simp
  have dd: "v' = u\<lparr>v_data := d, v_nelems := v_nelems v + n\<rparr>"
    using iN M T u(3) by (auto simp: v' d_def word_less_nat_alt memmove_def put_at_def)
  have "vector_inv v'" using u(1,4) d by (auto simp: dd vector_inv_def)
  moreover have "take i (vlist v') = take i (vlist u)" "drop (i + unat n) (vlist v') = drop i (vlist u)"
    using take_gap [OF iN D] u(3) S by (simp_all add: dd i vlist_def d_def memmove_def)
  moreover have "length (vlist v') = length (vlist v) + unat n"
    using \<open>vector_inv v'\<close> inv S by (simp add: dd)
  ultimately show ?thesis using i iN inv u(2) by simp
qed

lemma clear_ok:
  assumes inv: "vector_inv v"
  shows "vector_inv (fst (nilfs_vector_clear alloc junk v w)) \<and> vlist (fst (nilfs_vector_clear alloc junk v w)) = []"
proof -
  have "256 * unat (v_elemsize v) \<le> unat (v_maxelems v) * unat (v_elemsize v)"
    using inv by (intro mult_le_mono) (auto simp: vector_inv_def word_le_nat_alt vector_consts)
  moreover have "unat (v_maxelems v) * unat (v_elemsize v) < 2 ^ 64" using inv by (simp add: vector_inv_def)
  ultimately have "256 * unat (v_elemsize v) < 2 ^ 64" by (rule le_less_trans)
  then show ?thesis
    using inv by (auto simp: nilfs_vector_clear_def Let_def vector_inv_def vlist_def vector_consts
        split: prod.splits bool.splits)
qed

lemma create_ok:
  assumes "nilfs_vector_create alloc junk elemsize w = (Inr v, w')" "unat elemsize * 256 < 2 ^ 64"
  shows "vector_inv v \<and> vlist v = [] \<and> v_elemsize v = elemsize"
  using assms
  by (auto simp: nilfs_vector_create_def vector_inv_def vlist_def vector_consts mult.commute
      split: if_splits prod.splits bool.splits)

lemma sort_ok:
  assumes "vector_inv v"
  shows "vector_inv (nilfs_vector_sort v cmp) \<and> vlist (nilfs_vector_sort v cmp) = qsort cmp (vlist v)"
  using assms vector_inv_le [OF assms]
  by (auto simp: nilfs_vector_sort_def vector_inv_def vlist_def)

section \<open>The interface of the clients\<close>

text \<open>
  What the collector and the mapper rely on: a vector stands for a list, appending and
  cutting act on it, and its size is the list's length. \<open>delete_run\<close> is the step of
  every compaction loop of \<open>gc.c\<close> (a maximal run of rejected elements found behind
  index \<open>i\<close> is cut out), \<open>push_undo\<close> the retraction of a rejected candidate in
  \<open>nilfs_cleanerd_select_segments\<close>.
\<close>

locale vector_interface =
  fixes inv :: "'v \<Rightarrow> bool" and lst :: "'v \<Rightarrow> 'a list"
    and push :: "'v \<Rightarrow> 'a \<Rightarrow> 'w \<Rightarrow> (errno + 'v) \<times> 'w"
    and del :: "'v \<Rightarrow> u32 \<Rightarrow> u64 \<Rightarrow> errno + 'v" and vsize :: "'v \<Rightarrow> u64"
  assumes push_ok: "inv v \<Longrightarrow> push v x w = (Inr v', w') \<Longrightarrow> inv v' \<and> lst v' = lst v @ [x]"
    and del_ok: "inv v \<Longrightarrow> 0 < unat n \<Longrightarrow> unat i + unat n \<le> length (lst v) \<Longrightarrow>
      \<exists>v'. del v i n = Inr v' \<and> inv v' \<and> lst v' = take (unat i) (lst v) @ drop (unat i + unat n) (lst v)"
    and size_ok: "inv v \<Longrightarrow> unat (vsize v) = length (lst v)"
begin

lemma length_bound: "inv v \<Longrightarrow> length (lst v) < 2 ^ 64"
  using size_ok [of v] unat_lt_u64 [of "vsize v"] by simp

lemma delete_run:
  assumes "inv v" "lst v = pre @ run @ post" "run \<noteq> []" "length pre < 2 ^ 32"
  shows "\<exists>v'. del v (of_nat (length pre)) (of_nat (length run)) = Inr v' \<and> inv v' \<and> lst v' = pre @ post"
proof -
  have "length run < 2 ^ 64" using length_bound [OF assms(1)] assms(2) by simp
  then have u: "unat (of_nat (length run) :: u64) = length run" by (rule unat_of_nat_u64)
  have p: "unat (of_nat (length pre) :: u32) = length pre" using assms(4) by (rule unat_of_nat_u32)
  show ?thesis
    using del_ok [OF assms(1), of "of_nat (length run)" "of_nat (length pre)"] assms(2,3) u p by simp
qed

lemma push_undo:
  assumes "inv v" "push v x w = (Inr v', w')" "length (lst v) < 2 ^ 32"
  shows "\<exists>u. del v' (of_nat (length (lst v))) 1 = Inr u \<and> inv u \<and> lst u = lst v"
  using delete_run [of v' "lst v" "[x]" "[]"] push_ok [OF assms(1,2)] assms(3) by simp

end

interpretation vec: vector_interface vector_inv vlist "vector_push alloc junk"
    nilfs_vector_delete_elements nilfs_vector_get_size for alloc junk
proof
  fix v :: "'a nilfs_vector" and n :: u64 and i :: u32
  assume "vector_inv v" "0 < unat n" "unat i + unat n \<le> length (vlist v)"
  then show "\<exists>v'. nilfs_vector_delete_elements v i n = Inr v' \<and> vector_inv v'
      \<and> vlist v' = take (unat i) (vlist v) @ drop (unat i + unat n) (vlist v)"
    using delete_elements_ok by blast
qed (auto simp: nilfs_vector_get_size_def dest: vector_push_ok)

section \<open>Properties\<close>


definition demo_vector :: "nat \<Rightarrow> nat nilfs_vector" where
  "demo_vector n = \<lparr>v_data = [0..<256], v_elemsize = 8, v_nelems = of_nat n, v_maxelems = 256\<rparr>"

lemma demo_vector_inv: "n \<le> 256 \<Longrightarrow> vector_inv (demo_vector n)"
  by (simp add: demo_vector_def vector_inv_def vector_consts word_le_nat_alt)

lemma demo_vector_list: "n \<le> 256 \<Longrightarrow> vlist (demo_vector n) = [0..<n]"
  by (simp add: demo_vector_def vlist_def)


text \<open>Deleting \<open>nelems > 0\<close> elements at an index, where index plus count fits the
  machine word, refuses exactly the ranges that do not lie inside the vector (EINVAL)
  and otherwise cuts that range out of the list, keeping the vector well formed.\<close>

theorem vector_delete_range:
  assumes "vector_inv v" "0 < unat nelems" "unat index + unat nelems < 2 ^ 64"
  shows "case nilfs_vector_delete_elements v index nelems of
      Inl e \<Rightarrow> e = EINVAL \<and> length (vlist v) < unat index + unat nelems
    | Inr v' \<Rightarrow> vector_inv v' \<and> unat index + unat nelems \<le> length (vlist v)
        \<and> vlist v' = take (unat index) (vlist v) @ drop (unat index + unat nelems) (vlist v)"
proof (cases "unat index + unat nelems \<le> length (vlist v)")
  case True
  with delete_elements_ok [OF assms(1,2)] show ?thesis by fastforce
next
  case False
  with delete_elements_einval [OF assms] show ?thesis by simp
qed

theorem vector_delete_range_witness:
  "case nilfs_vector_delete_elements (demo_vector 5) 1 2 of
      Inl e \<Rightarrow> e = EINVAL \<and> length (vlist (demo_vector 5)) < unat (1 :: u32) + unat (2 :: u64)
    | Inr v' \<Rightarrow> vector_inv v' \<and> unat (1 :: u32) + unat (2 :: u64) \<le> length (vlist (demo_vector 5))
        \<and> vlist v' = take (unat (1 :: u32)) (vlist (demo_vector 5))
            @ drop (unat (1 :: u32) + unat (2 :: u64)) (vlist (demo_vector 5))"
  by (rule vector_delete_range, rule demo_vector_inv) simp_all

text \<open>Inserting elements opens a gap of exactly that many slots at the index: what was
  before and behind the index is kept in order, also when the array had to grow.\<close>

theorem vector_insert_gap:
  assumes "vector_inv v"
    and "nilfs_vector_insert_elements alloc junk v index nelems w = (Inr (i, v'), w')"
  shows "vector_inv v' \<and> i = unat index \<and> i \<le> length (vlist v)
    \<and> length (vlist v') = length (vlist v) + unat nelems
    \<and> take i (vlist v') = take i (vlist v)
    \<and> drop (i + unat nelems) (vlist v') = drop i (vlist v)"
  using assms by (rule insert_elements_ok)

theorem vector_insert_gap_witness:
  "\<exists>v'. nilfs_vector_insert_elements (\<lambda>n w. (True, w)) 7 (demo_vector 3) 1 2 () = (Inr (1, v'), ())
     \<and> vector_inv v' \<and> length (vlist v') = 5 \<and> take 1 (vlist v') = [0] \<and> drop 3 (vlist v') = [1, 2]"
proof -
  let ?v = "demo_vector 3"
  have upt3: "[0..<3] = [0, 1, 2 :: nat]" by code_simp
  have "v_nelems ?v = 3" "v_maxelems ?v = 256" by (simp_all add: demo_vector_def)
  then obtain v' where r: "nilfs_vector_insert_elements (\<lambda>n w. (True, w)) 7 ?v 1 2 () = (Inr (1, v'), ())"
    by (simp add: nilfs_vector_insert_elements_def SIZE_MAX_def)
  have l: "vlist ?v = [0, 1, 2]" using demo_vector_list [of 3] by (simp add: upt3)
  show ?thesis
    using vector_insert_gap [OF demo_vector_inv r] r l by (auto simp: numeral_3_eq_3)
qed

subsection \<open>Vectors with given elements\<close>

definition vector_of :: "'a \<Rightarrow> 'a list \<Rightarrow> 'a nilfs_vector" where
  "vector_of junk xs = \<lparr>v_data = xs @ replicate (256 - length xs) junk, v_elemsize = 8,
     v_nelems = of_nat (length xs), v_maxelems = 256\<rparr>"

lemma vector_of_inv: "length xs \<le> 256 \<Longrightarrow> vector_inv (vector_of junk xs)"
  by (simp add: vector_of_def vector_inv_def vector_consts word_le_nat_alt)

lemma vector_of_list: "length xs \<le> 256 \<Longrightarrow> vlist (vector_of junk xs) = xs"
  by (simp add: vector_of_def vlist_def)

lemma vector_of_size: "length xs \<le> 256 \<Longrightarrow> unat (nilfs_vector_get_size (vector_of junk xs)) = length xs"
  by (simp add: vector_of_def nilfs_vector_get_size_def)

text \<open>Appending below the initial capacity needs no allocation.\<close>

lemma vector_of_push:
  assumes "length xs < 256"
  shows "vector_push alloc junk (vector_of junk xs) x w = (Inr (vector_of junk (xs @ [x])), w)"
proof -
  have u: "unat (of_nat (length xs) :: u64) = length xs" using assms by simp
  then have lt: "\<not> (of_nat (length xs) :: u64) \<ge> 256" using assms by (simp add: word_le_nat_alt)
  have r: "replicate (256 - length xs) junk = junk # replicate (256 - Suc (length xs)) junk"
    using assms by (simp add: Suc_diff_Suc flip: replicate_Suc)
  show ?thesis
    using lt u
    by (simp add: vector_push_def nilfs_vector_get_new_element_def vector_of_def set_slot_def list_update_append r add.commute)
qed

end
