(* ===== verification/Nilfs_Env.thy ===== *)
theory Nilfs_Env
  imports Nilfs_Vector
begin

text \<open>
  The structures exchanged with the kernel (\<open>src/include/linux/nilfs2_api.h\<close>) and the
  environment the library runs in. The kernel, the C allocator, the file system and the
  signal machinery are not part of the sources: they are the fields of the record
  \<open>kernel\<close>, functions over an unspecified state \<open>'w\<close> that every call steps. A call
  that fails gives \<open>Inl\<close> of the value it leaves in \<open>errno\<close>.

  Fallible, state-changing operations have the type \<open>('s, 'a) act\<close>; \<open>bindE\<close>
  continues with the result of the first operation and stops at an error, the early
  \<open>return -1\<close> of the sources.
\<close>

section \<open>Fallible actions\<close>

type_synonym ('s, 'a) act = "'s \<Rightarrow> (errno + 'a) \<times> 's"

definition retE :: "'a \<Rightarrow> ('s, 'a) act" where
  "retE x s = (Inr x, s)"

definition failE :: "errno \<Rightarrow> ('s, 'a) act" where
  "failE e s = (Inl e, s)"

definition bindE :: "('s, 'a) act \<Rightarrow> ('a \<Rightarrow> ('s, 'b) act) \<Rightarrow> ('s, 'b) act" where
  "bindE m f s = (case m s of (Inl e, s') \<Rightarrow> (Inl e, s') | (Inr x, s') \<Rightarrow> f x s')"

text \<open>A loop over successive iterator positions that leaves at the first error.\<close>

fun foldE :: "('a \<Rightarrow> 'b \<Rightarrow> ('s, 'b) act) \<Rightarrow> 'a list \<Rightarrow> 'b \<Rightarrow> ('s, 'b) act" where
  "foldE f [] b = retE b"
| "foldE f (x # xs) b = bindE (f x b) (foldE f xs)"

lemma retE_simp [simp]: "retE x s = (Inr x, s)"
  by (simp add: retE_def)

lemma failE_simp [simp]: "failE e s = (Inl e, s)"
  by (simp add: failE_def)

lemma bindE_Inr: "bindE m f s = (Inr y, s'') \<longleftrightarrow> (\<exists>x s'. m s = (Inr x, s') \<and> f x s' = (Inr y, s''))"
  by (auto simp: bindE_def split: prod.splits sum.splits)

lemma bindE_InrE:
  assumes "bindE m f s = (Inr y, s'')"
  obtains x s' where "m s = (Inr x, s')" "f x s' = (Inr y, s'')"
  using assms by (auto simp: bindE_Inr)

lemma bindE_step [simp]: "m s = (Inr x, s') \<Longrightarrow> bindE m f s = f x s'"
  by (simp add: bindE_def)

lemma bindE_stop [simp]: "m s = (Inl e, s') \<Longrightarrow> bindE m f s = (Inl e, s')"
  by (simp add: bindE_def)

lemma bindE_retE [simp]: "bindE (retE x) f = f x"
  by (rule ext) (simp add: bindE_def)

text \<open>Invariants of a successful loop.\<close>

lemma foldE_invariant:
  assumes "foldE f xs b s = (Inr b', s')" "P b"
    and "\<And>x b s b' s'. x \<in> set xs \<Longrightarrow> P b \<Longrightarrow> f x b s = (Inr b', s') \<Longrightarrow> P b'"
  shows "P b'"
  using assms
proof (induction xs arbitrary: b s)
  case (Cons x xs)
  from Cons.prems(1) obtain c t where "f x b s = (Inr c, t)" "foldE f xs c t = (Inr b', s')"
    by (auto elim: bindE_InrE)
  with Cons show ?case by (metis list.set_intros)
qed simp

section \<open>Structures of the kernel interface\<close>

record nilfs_cpinfo =
  ci_flags :: u32
  ci_cno :: u64
  ci_create :: u64
  ci_nblk_inc :: u64
  ci_inodes_count :: u64
  ci_blocks_count :: u64
  ci_next :: u64

definition NILFS_CPINFO_SNAPSHOT :: nat where "NILFS_CPINFO_SNAPSHOT = 0"
definition NILFS_CPINFO_INVALID :: nat where "NILFS_CPINFO_INVALID = 1"
definition NILFS_CPINFO_MINOR :: nat where "NILFS_CPINFO_MINOR = 3"

definition nilfs_cpinfo_snapshot :: "nilfs_cpinfo \<Rightarrow> bool" where
  "nilfs_cpinfo_snapshot ci \<longleftrightarrow> ci_flags ci AND push_bit NILFS_CPINFO_SNAPSHOT 1 \<noteq> 0"
definition nilfs_cpinfo_invalid :: "nilfs_cpinfo \<Rightarrow> bool" where
  "nilfs_cpinfo_invalid ci \<longleftrightarrow> ci_flags ci AND push_bit NILFS_CPINFO_INVALID 1 \<noteq> 0"
definition nilfs_cpinfo_minor :: "nilfs_cpinfo \<Rightarrow> bool" where
  "nilfs_cpinfo_minor ci \<longleftrightarrow> ci_flags ci AND push_bit NILFS_CPINFO_MINOR 1 \<noteq> 0"

record nilfs_suinfo =
  sui_lastmod :: u64
  sui_nblocks :: u32
  sui_flags :: u32

definition NILFS_SUINFO_ACTIVE :: nat where "NILFS_SUINFO_ACTIVE = 0"
definition NILFS_SUINFO_DIRTY :: nat where "NILFS_SUINFO_DIRTY = 1"
definition NILFS_SUINFO_ERROR :: nat where "NILFS_SUINFO_ERROR = 2"

definition nilfs_suinfo_active :: "nilfs_suinfo \<Rightarrow> bool" where
  "nilfs_suinfo_active si \<longleftrightarrow> sui_flags si AND push_bit NILFS_SUINFO_ACTIVE 1 \<noteq> 0"
definition nilfs_suinfo_dirty :: "nilfs_suinfo \<Rightarrow> bool" where
  "nilfs_suinfo_dirty si \<longleftrightarrow> sui_flags si AND push_bit NILFS_SUINFO_DIRTY 1 \<noteq> 0"
definition nilfs_suinfo_error :: "nilfs_suinfo \<Rightarrow> bool" where
  "nilfs_suinfo_error si \<longleftrightarrow> sui_flags si AND push_bit NILFS_SUINFO_ERROR 1 \<noteq> 0"
definition nilfs_suinfo_clean :: "nilfs_suinfo \<Rightarrow> bool" where
  "nilfs_suinfo_clean si \<longleftrightarrow> sui_flags si = 0"

lemmas suinfo_flag_defs = nilfs_suinfo_active_def nilfs_suinfo_dirty_def nilfs_suinfo_error_def
  nilfs_suinfo_clean_def NILFS_SUINFO_ACTIVE_def NILFS_SUINFO_DIRTY_def NILFS_SUINFO_ERROR_def

record nilfs_suinfo_update =
  sup_segnum :: u64
  sup_flags :: u32
  sup_sui :: nilfs_suinfo

definition NILFS_SUINFO_UPDATE_LASTMOD :: nat where "NILFS_SUINFO_UPDATE_LASTMOD = 0"
definition NILFS_SUINFO_UPDATE_NBLOCKS :: nat where "NILFS_SUINFO_UPDATE_NBLOCKS = 1"
definition NILFS_SUINFO_UPDATE_FLAGS :: nat where "NILFS_SUINFO_UPDATE_FLAGS = 2"

definition nilfs_suinfo_update_set :: "nat \<Rightarrow> nilfs_suinfo_update \<Rightarrow> nilfs_suinfo_update" where
  "nilfs_suinfo_update_set flag su = su\<lparr>sup_flags := sup_flags su OR push_bit flag 1\<rparr>"
definition nilfs_suinfo_update_clear :: "nat \<Rightarrow> nilfs_suinfo_update \<Rightarrow> nilfs_suinfo_update" where
  "nilfs_suinfo_update_clear flag su = su\<lparr>sup_flags := sup_flags su AND NOT (push_bit flag 1)\<rparr>"
definition nilfs_suinfo_update_test :: "nat \<Rightarrow> nilfs_suinfo_update \<Rightarrow> bool" where
  "nilfs_suinfo_update_test flag su \<longleftrightarrow> sup_flags su AND push_bit flag 1 \<noteq> 0"

datatype cpmode = NILFS_CHECKPOINT | NILFS_SNAPSHOT

record nilfs_period =
  p_start :: u64
  p_end :: u64

record nilfs_cpstat =
  cs_cno :: u64
  cs_ncps :: u64
  cs_nsss :: u64

record nilfs_sustat =
  ss_nsegs :: u64
  ss_ncleansegs :: u64
  ss_ndirtysegs :: u64
  ss_ctime :: u64
  ss_nongc_ctime :: u64
  ss_prot_seq :: u64

record nilfs_vinfo =
  vi_vblocknr :: u64
  vi_start :: u64
  vi_end :: u64
  vi_blocknr :: u64

record nilfs_vdesc =
  vd_ino :: u64
  vd_cno :: u64
  vd_vblocknr :: u64
  vd_period :: nilfs_period
  vd_blocknr :: u64
  vd_offset :: u64
  vd_flags :: u32

record nilfs_bdesc =
  bd_ino :: u64
  bd_oblocknr :: u64
  bd_blocknr :: u64
  bd_offset :: u64
  bd_level :: u32

text \<open>Their sizes, the \<open>v_size\<close> members of the argument vectors.\<close>

definition sizeof_cpinfo :: u64 where "sizeof_cpinfo = 56"
definition sizeof_suinfo :: u64 where "sizeof_suinfo = 16"
definition sizeof_suinfo_update :: u64 where "sizeof_suinfo_update = 32"
definition sizeof_vinfo :: u64 where "sizeof_vinfo = 32"
definition sizeof_vdesc :: u64 where "sizeof_vdesc = 64"
definition sizeof_bdesc :: u64 where "sizeof_bdesc = 40"
definition sizeof_period :: u64 where "sizeof_period = 16"
definition sizeof_u64 :: u64 where "sizeof_u64 = 8"

text \<open>
  The argument vector of an ioctl: the number of members, truncated to 32 bits by the
  assignment to \<open>v_nmembs\<close>, their size, the flags and the start index. The array
  \<open>v_base\<close> points to is an argument or the result of the call.
\<close>

record nilfs_argv =
  v_nmembs :: u32
  v_size :: u16
  v_flags :: u16
  v_index :: u64

section \<open>The environment\<close>

datatype filekind = Block | Regular | Directory | OtherFile

record kstat =
  st_kind :: filekind
  st_size :: u64
  st_dev :: u64
  st_ino :: u64
  st_rdev :: u64

datatype clockid = CLOCK_REALTIME | CLOCK_REALTIME_COARSE | CLOCK_MONOTONIC | CLOCK_MONOTONIC_COARSE | CLOCK_BOOTTIME

text \<open>
  One field per call that leaves the sources. Calls that fill an array (\<open>k_get_cpinfo\<close>,
  \<open>k_get_suinfo\<close>, \<open>k_get_vinfo\<close>, \<open>k_get_bdescs\<close>) return the entries they
  have written, whose number is what the kernel leaves in \<open>v_nmembs\<close>; \<open>k_pread\<close>
  returns the bytes read and \<open>k_pwrite\<close> their number. \<open>k_junk\<close> is the content of
  memory that was not written yet.
\<close>

record 'w kernel =
  k_malloc :: "u64 \<Rightarrow> 'w \<Rightarrow> u64 option \<times> 'w"
  k_junk :: "nat \<Rightarrow> u8"
  k_pagesize :: int
  k_stat :: "string \<Rightarrow> ('w, kstat) act"
  k_fstat :: "int \<Rightarrow> ('w, kstat) act"
  k_open :: "string \<Rightarrow> ('w, int) act"
  k_close :: "int \<Rightarrow> 'w \<Rightarrow> 'w"
  k_blkgetsize64 :: "int \<Rightarrow> ('w, u64) act"
  k_pread :: "int \<Rightarrow> u64 \<Rightarrow> u64 \<Rightarrow> ('w, bytes) act"
  k_pwrite :: "int \<Rightarrow> bytes \<Rightarrow> u64 \<Rightarrow> ('w, u64) act"
  k_mmap :: "u64 \<Rightarrow> int \<Rightarrow> u64 \<Rightarrow> ('w, u64 \<times> bytes) act"
  k_munmap :: "u64 \<Rightarrow> u64 \<Rightarrow> ('w, unit) act"
  k_sem_open :: "string \<Rightarrow> ('w, nat) act"
  k_sem_close :: "nat \<Rightarrow> 'w \<Rightarrow> 'w"
  k_sem_wait :: "nat option \<Rightarrow> ('w, unit) act"
  k_sem_trywait :: "nat option \<Rightarrow> ('w, unit) act"
  k_sem_post :: "nat option \<Rightarrow> ('w, unit) act"
  k_change_cpmode :: "int \<Rightarrow> u64 \<Rightarrow> cpmode \<Rightarrow> ('w, unit) act"
  k_get_cpinfo :: "int \<Rightarrow> nilfs_argv \<Rightarrow> ('w, nilfs_cpinfo list) act"
  k_delete_checkpoint :: "int \<Rightarrow> u64 \<Rightarrow> ('w, unit) act"
  k_get_cpstat :: "int \<Rightarrow> ('w, nilfs_cpstat) act"
  k_get_suinfo :: "int \<Rightarrow> nilfs_argv \<Rightarrow> ('w, nilfs_suinfo list) act"
  k_set_suinfo :: "int \<Rightarrow> nilfs_argv \<Rightarrow> nilfs_suinfo_update list \<Rightarrow> ('w, unit) act"
  k_get_sustat :: "int \<Rightarrow> ('w, nilfs_sustat) act"
  k_get_vinfo :: "int \<Rightarrow> nilfs_argv \<Rightarrow> nilfs_vinfo list \<Rightarrow> ('w, nilfs_vinfo list) act"
  k_get_bdescs :: "int \<Rightarrow> nilfs_argv \<Rightarrow> nilfs_bdesc list \<Rightarrow> ('w, nilfs_bdesc list) act"
  k_clean_segments :: "int \<Rightarrow> nilfs_argv list \<Rightarrow> nilfs_vdesc list \<Rightarrow> nilfs_period list \<Rightarrow> u64 list
    \<Rightarrow> nilfs_bdesc list \<Rightarrow> u64 list \<Rightarrow> ('w, unit) act"
  k_sync :: "int \<Rightarrow> ('w, u64) act"
  k_resize :: "int \<Rightarrow> u64 \<Rightarrow> ('w, unit) act"
  k_set_alloc_range :: "int \<Rightarrow> u64 \<Rightarrow> u64 \<Rightarrow> ('w, unit) act"
  k_freeze :: "int \<Rightarrow> ('w, unit) act"
  k_thaw :: "int \<Rightarrow> ('w, unit) act"
  k_sigblock :: "('w, unit) act"
  k_sigrestore :: "'w \<Rightarrow> 'w"
  k_sigpending :: "('w, bool) act"
  k_gettimeofday :: "('w, i64) act"
  k_clock_gettime :: "clockid \<Rightarrow> ('w, i64) act"

text \<open>
  A kernel on which memory can be allocated and every other call fails; examples override the
  calls they need.
\<close>

definition null_kernel :: "'w kernel" where
  "null_kernel =
     \<lparr>k_malloc = (\<lambda>n w. (Some 0, w)), k_junk = (\<lambda>i. 0), k_pagesize = 4096,
      k_stat = (\<lambda>s. failE EIO), k_fstat = (\<lambda>fd. failE EIO), k_open = (\<lambda>s. failE EIO), k_close = (\<lambda>fd w. w),
      k_blkgetsize64 = (\<lambda>fd. failE EIO), k_pread = (\<lambda>fd n off. failE EIO),
      k_pwrite = (\<lambda>fd bs off. failE EIO), k_mmap = (\<lambda>n fd off. failE ENODEV), k_munmap = (\<lambda>a n. failE EIO),
      k_sem_open = (\<lambda>s. failE EIO), k_sem_close = (\<lambda>s w. w), k_sem_wait = (\<lambda>s. failE EIO),
      k_sem_trywait = (\<lambda>s. failE EIO), k_sem_post = (\<lambda>s. failE EIO),
      k_change_cpmode = (\<lambda>fd c m. failE EIO), k_get_cpinfo = (\<lambda>fd a. failE EIO),
      k_delete_checkpoint = (\<lambda>fd c. failE EIO), k_get_cpstat = (\<lambda>fd. failE EIO),
      k_get_suinfo = (\<lambda>fd a. failE EIO), k_set_suinfo = (\<lambda>fd a us. failE EIO),
      k_get_sustat = (\<lambda>fd. failE EIO), k_get_vinfo = (\<lambda>fd a vs. failE EIO),
      k_get_bdescs = (\<lambda>fd a bs. failE EIO), k_clean_segments = (\<lambda>fd as vs ps ns bs ss. failE EIO),
      k_sync = (\<lambda>fd. failE EIO), k_resize = (\<lambda>fd n. failE EIO), k_set_alloc_range = (\<lambda>fd a b. failE EIO),
      k_freeze = (\<lambda>fd. failE EIO), k_thaw = (\<lambda>fd. failE EIO), k_sigblock = failE EIO, k_sigrestore = id,
      k_sigpending = failE EIO, k_gettimeofday = failE EIO, k_clock_gettime = (\<lambda>c. failE EIO)\<rparr>"

end
