(* ===== verification/Segment_Iter.thy ===== *)
theory Segment_Iter
  imports Crc_Bitops Nilfs_Env
begin

text \<open>
  The three nested iterators over the logs of a segment (\<open>src/lib/segment.c\<close>,
  \<open>src/include/segment.h\<close>): partial segments in a segment, files in a partial segment,
  blocks in a file. A pointer into the segment's memory is the byte offset from its
  start; the 32-bit and 64-bit members keep their width, so the wrap-around of the
  sources' checks is in the model.

  An iterator's \<open>for_each\<close> macro is the list of the positions its body sees, with the
  position at which the loop ended, whose error code tells a corrupted log from the
  regular end. The lemmas show that the loops end, that every position the collector
  dereferences lies inside the segment summary, and that the closed form
  \<open>nilfs_binfo_total_size\<close> is the distance the block iterator travels.
\<close>

section \<open>Segments and their summaries\<close>

record nilfs_segment =
  sg_mem :: bytes
  sg_addr :: u64
  sg_segsize :: u64
  sg_segnum :: u64
  sg_seqnum :: u64
  sg_blocknr :: u64
  sg_nblocks :: u32
  sg_blocks_per_segment :: u32
  sg_blkbits :: u32
  sg_seed :: u32
  sg_mmapped :: bool
  sg_adjusted :: bool

text \<open>Members of \<open>struct nilfs_segment_summary\<close> at an offset of the memory.\<close>

definition ss_sumsum :: "bytes \<Rightarrow> nat \<Rightarrow> u32" where "ss_sumsum m p = le32_at m (p + 4)"
definition ss_magic :: "bytes \<Rightarrow> nat \<Rightarrow> u32" where "ss_magic m p = le32_at m (p + 8)"
definition ss_bytes :: "bytes \<Rightarrow> nat \<Rightarrow> u16" where "ss_bytes m p = le16_at m (p + 12)"
definition ss_flags :: "bytes \<Rightarrow> nat \<Rightarrow> u16" where "ss_flags m p = le16_at m (p + 14)"
definition ss_seq :: "bytes \<Rightarrow> nat \<Rightarrow> u64" where "ss_seq m p = le64_at m (p + 16)"
definition ss_nblocks :: "bytes \<Rightarrow> nat \<Rightarrow> u32" where "ss_nblocks m p = le32_at m (p + 40)"
definition ss_nfinfo :: "bytes \<Rightarrow> nat \<Rightarrow> u32" where "ss_nfinfo m p = le32_at m (p + 44)"
definition ss_sumbytes :: "bytes \<Rightarrow> nat \<Rightarrow> u32" where "ss_sumbytes m p = le32_at m (p + 48)"

definition sizeof_segment_summary :: nat where "sizeof_segment_summary = 64"
definition NILFS_SEGSUM_MAGIC :: u32 where "NILFS_SEGSUM_MAGIC = 0x1eaffa11"
definition NILFS_PSEG_MIN_BLOCKS :: u32 where "NILFS_PSEG_MIN_BLOCKS = 2"

text \<open>Members of \<open>struct nilfs_finfo\<close>.\<close>

definition fi_ino :: "bytes \<Rightarrow> nat \<Rightarrow> u64" where "fi_ino m p = le64_at m p"
definition fi_cno :: "bytes \<Rightarrow> nat \<Rightarrow> u64" where "fi_cno m p = le64_at m (p + 8)"
definition fi_nblocks :: "bytes \<Rightarrow> nat \<Rightarrow> u32" where "fi_nblocks m p = le32_at m (p + 16)"
definition fi_ndatablk :: "bytes \<Rightarrow> nat \<Rightarrow> u32" where "fi_ndatablk m p = le32_at m (p + 20)"

definition sizeof_finfo :: nat where "sizeof_finfo = 24"
definition NILFS_DAT_INO :: u64 where "NILFS_DAT_INO = 3"

definition NILFS_BINFO_DATA_SIZE :: u32 where "NILFS_BINFO_DATA_SIZE = 16"
definition NILFS_BINFO_NODE_SIZE :: u32 where "NILFS_BINFO_NODE_SIZE = 8"
definition NILFS_BINFO_DAT_DATA_SIZE :: u32 where "NILFS_BINFO_DAT_DATA_SIZE = 8"
definition NILFS_BINFO_DAT_NODE_SIZE :: u32 where "NILFS_BINFO_DAT_NODE_SIZE = 16"

section \<open>Partial segments\<close>

datatype psegment_error = NILFS_PSEGMENT_SUCCESS | NILFS_PSEGMENT_ERROR_ALIGNMENT
  | NILFS_PSEGMENT_ERROR_BIGPSEG | NILFS_PSEGMENT_ERROR_BIGHDR | NILFS_PSEGMENT_ERROR_BIGSUM

record nilfs_psegment =
  ps_segment :: nilfs_segment
  ps_segsum :: nat
  ps_blocknr :: u64
  ps_blkcnt :: u32
  ps_blkbits :: u32
  ps_error :: psegment_error

definition ps_mem :: "nilfs_psegment \<Rightarrow> bytes" where
  "ps_mem p = sg_mem (ps_segment p)"

definition ps_blksize :: "nilfs_psegment \<Rightarrow> u32" where
  "ps_blksize p = ucast (push_bit (unat (ps_blkbits p)) (1 :: u64))"

definition nilfs_psegment_is_valid :: "nilfs_psegment \<Rightarrow> bool \<times> nilfs_psegment" where
  "nilfs_psegment_is_valid p =
     (let m = ps_mem p; s = ps_segsum p; sg = ps_segment p; offset = 8 :: u32;
          sumbytes = ss_sumbytes m s;
          hdrsize = ucast (ss_bytes m s) :: u32;
          nblocks = ss_nblocks m s;
          sumblks = ucast (drop_bit (unat (ps_blkbits p))
            ((ucast sumbytes :: u64) + push_bit (unat (ps_blkbits p)) 1 - 1)) :: u32
      in if ss_magic m s \<noteq> NILFS_SEGSUM_MAGIC then (False, p)
         else if sumbytes < offset \<or> s + unat sumbytes \<ge> unat (sg_segsize sg) then (False, p)
         else if ss_sumsum m s \<noteq> crc32_le (sg_seed sg)
                   (take (unat (sumbytes - offset)) (drop (s + unat offset) m)) then (False, p)
         else if hdrsize AND 7 \<noteq> 0 then (False, p\<lparr>ps_error := NILFS_PSEGMENT_ERROR_ALIGNMENT\<rparr>)
         else if ps_blocknr p + ucast nblocks > sg_blocknr sg + ucast (sg_nblocks sg)
              then (False, p\<lparr>ps_error := NILFS_PSEGMENT_ERROR_BIGPSEG\<rparr>)
         else if hdrsize > sumbytes then (False, p\<lparr>ps_error := NILFS_PSEGMENT_ERROR_BIGHDR\<rparr>)
         else if sumblks \<ge> nblocks then (False, p\<lparr>ps_error := NILFS_PSEGMENT_ERROR_BIGSUM\<rparr>)
         else (True, p))"

definition nilfs_psegment_init :: "nilfs_segment \<Rightarrow> u32 \<Rightarrow> nilfs_psegment" where
  "nilfs_psegment_init sg blkcnt =
     \<lparr>ps_segment = sg, ps_segsum = 0, ps_blocknr = sg_blocknr sg,
      ps_blkcnt = min blkcnt (sg_nblocks sg), ps_blkbits = sg_blkbits sg,
      ps_error = NILFS_PSEGMENT_SUCCESS\<rparr>"

definition nilfs_psegment_is_end :: "nilfs_psegment \<Rightarrow> bool \<times> nilfs_psegment" where
  "nilfs_psegment_is_end p =
     (if ps_blkcnt p < NILFS_PSEG_MIN_BLOCKS then (True, p)
      else let (v, p) = nilfs_psegment_is_valid p in (\<not> v, p))"

definition nilfs_psegment_next :: "nilfs_psegment \<Rightarrow> nilfs_psegment" where
  "nilfs_psegment_next p =
     (let nblocks = ss_nblocks (ps_mem p) (ps_segsum p) in
      p\<lparr>ps_segsum := ps_segsum p + unat (push_bit (unat (ps_blkbits p)) (ucast nblocks :: u64)),
        ps_blkcnt := (if ps_blkcnt p \<ge> nblocks then ps_blkcnt p - nblocks else 0),
        ps_blocknr := ps_blocknr p + ucast nblocks\<rparr>)"

definition nilfs_psegment_is_error :: "nilfs_psegment \<Rightarrow> bool" where
  "nilfs_psegment_is_error p \<longleftrightarrow> ps_error p \<noteq> NILFS_PSEGMENT_SUCCESS"

fun nilfs_psegment_strerror :: "psegment_error \<Rightarrow> string" where
  "nilfs_psegment_strerror NILFS_PSEGMENT_SUCCESS = ''success''"
| "nilfs_psegment_strerror NILFS_PSEGMENT_ERROR_ALIGNMENT = ''bad alignment''"
| "nilfs_psegment_strerror NILFS_PSEGMENT_ERROR_BIGPSEG = ''too big partial segment''"
| "nilfs_psegment_strerror NILFS_PSEGMENT_ERROR_BIGHDR = ''too big summary header''"
| "nilfs_psegment_strerror NILFS_PSEGMENT_ERROR_BIGSUM = ''too big summary info''"

lemma valid_psegment_nblocks:
  "nilfs_psegment_is_valid p = (True, p') \<Longrightarrow> p' = p \<and> 0 < ss_nblocks (ps_mem p) (ps_segsum p)"
  by (auto simp: nilfs_psegment_is_valid_def Let_def word_gt_0 split: if_splits)

text \<open>
  The loop over a segment's logs ends: an accepted log has more blocks than its summary
  and so at least one.
\<close>

function nilfs_psegment_iter :: "nilfs_psegment \<Rightarrow> nilfs_psegment list \<times> nilfs_psegment" where
  "nilfs_psegment_iter p =
     (case nilfs_psegment_is_end p of
        (True, p') \<Rightarrow> ([], p')
      | (False, p') \<Rightarrow>
          (let (ps, e) = nilfs_psegment_iter (nilfs_psegment_next p') in (p' # ps, e)))"
  by pat_completeness auto

lemma psegment_next_decreases:
  assumes "nilfs_psegment_is_end p = (False, p')"
  shows "unat (ps_blkcnt (nilfs_psegment_next p')) < unat (ps_blkcnt p)"
proof -
  let ?n = "ss_nblocks (ps_mem p) (ps_segsum p)"
  from assms have p: "p' = p" "0 < ?n" "\<not> ps_blkcnt p < 2"
    by (auto simp: nilfs_psegment_is_end_def NILFS_PSEG_MIN_BLOCKS_def
        split: if_splits prod.splits dest: valid_psegment_nblocks)
  then have "0 < unat ?n" "0 < unat (ps_blkcnt p)"
    by (simp_all add: word_less_nat_alt)
  with p show ?thesis
    by (auto simp: nilfs_psegment_next_def Let_def unat_sub)
qed

termination nilfs_psegment_iter
  by (relation "measure (\<lambda>p. unat (ps_blkcnt p))") (auto dest!: psegment_next_decreases [OF sym])

definition nilfs_psegment_for_each :: "nilfs_segment \<Rightarrow> u32 \<Rightarrow> nilfs_psegment list \<times> nilfs_psegment" where
  "nilfs_psegment_for_each sg blkcnt = nilfs_psegment_iter (nilfs_psegment_init sg blkcnt)"

declare nilfs_psegment_iter.simps [simp del]

section \<open>Files\<close>

datatype file_error = NILFS_FILE_SUCCESS | NILFS_FILE_ERROR_MANYBLKS
  | NILFS_FILE_ERROR_BLKCNT | NILFS_FILE_ERROR_OVERRUN

record nilfs_file =
  fl_psegment :: nilfs_psegment
  fl_finfo :: nat
  fl_blocknr :: u64
  fl_offset :: u32
  fl_index :: u32
  fl_nfinfo :: u32
  fl_sumbytes :: u32
  fl_sumlen :: u64
  fl_error :: file_error
  fl_use_real_blocknr :: bool

definition fl_mem :: "nilfs_file \<Rightarrow> bytes" where
  "fl_mem f = ps_mem (fl_psegment f)"

definition nilfs_finfo_use_real_blocknr :: "bytes \<Rightarrow> nat \<Rightarrow> bool" where
  "nilfs_finfo_use_real_blocknr m finfo \<longleftrightarrow> fi_ino m finfo = NILFS_DAT_INO"

definition nilfs_file_adjust_finfo_position :: "nilfs_file \<Rightarrow> u32 \<Rightarrow> nilfs_file" where
  "nilfs_file_adjust_finfo_position f blksize =
     (let rest = blksize - (fl_offset f AND (blksize - 1)) in
      if sizeof_finfo > unat rest
      then f\<lparr>fl_finfo := fl_finfo f + unat rest, fl_offset := fl_offset f + rest\<rparr>
      else f)"

definition nilfs_binfo_total_size :: "u64 \<Rightarrow> u32 \<Rightarrow> u32 \<Rightarrow> u32 \<Rightarrow> u64" where
  "nilfs_binfo_total_size offset blksize binfosize blkcnt =
     (let rest = ucast (ucast blksize - (offset AND ucast (blksize - 1))) :: u32 in
      if binfosize * blkcnt \<le> rest then ucast (binfosize * blkcnt)
      else let blkcnt = blkcnt - rest div binfosize;
               binfo_per_block = blksize div binfosize
           in ucast rest + ucast (blkcnt div binfo_per_block) * ucast blksize
                + ucast (blkcnt mod binfo_per_block * binfosize))"

definition nilfs_file_info_size :: "nilfs_file \<Rightarrow> u64" where
  "nilfs_file_info_size f =
     (let blksize = ps_blksize (fl_psegment f);
          (dsize, nsize) = (if fl_use_real_blocknr f
             then (NILFS_BINFO_DAT_DATA_SIZE, NILFS_BINFO_DAT_NODE_SIZE)
             else (NILFS_BINFO_DATA_SIZE, NILFS_BINFO_NODE_SIZE));
          nblocks = fi_nblocks (fl_mem f) (fl_finfo f);
          ndatablk = fi_ndatablk (fl_mem f) (fl_finfo f);
          delta = of_nat sizeof_finfo :: u64;
          delta = delta + nilfs_binfo_total_size (ucast (fl_offset f) + delta) blksize dsize ndatablk;
          delta = delta + nilfs_binfo_total_size (ucast (fl_offset f) + delta) blksize nsize
                            (nblocks - ndatablk)
      in delta)"

definition nilfs_file_init_from_finfo :: "nilfs_file \<Rightarrow> nilfs_file" where
  "nilfs_file_init_from_finfo f =
     (if unat (fl_offset f) + sizeof_finfo > unat (fl_sumbytes f)
      then f\<lparr>fl_sumlen := of_nat sizeof_finfo\<rparr>
      else let f = f\<lparr>fl_use_real_blocknr := nilfs_finfo_use_real_blocknr (fl_mem f) (fl_finfo f)\<rparr>
           in f\<lparr>fl_sumlen := nilfs_file_info_size f\<rparr>)"

text \<open>
  The flag \<open>use_real_blocknr\<close> of a fresh iterator is the value the caller's stack holds
  until a finfo is read; \<open>flag\<close> stands for it.
\<close>

definition nilfs_file_init :: "bool \<Rightarrow> nilfs_psegment \<Rightarrow> nilfs_file" where
  "nilfs_file_init flag p =
     (let blksize = ps_blksize p; m = ps_mem p; s = ps_segsum p;
          sumbytes = ss_sumbytes m s; hdrsize = ss_bytes m s;
          f = \<lparr>fl_psegment = p, fl_finfo = s + unat hdrsize,
               fl_blocknr = ps_blocknr p
                 + ucast (drop_bit (unat (ps_blkbits p)) (sumbytes + blksize - 1)),
               fl_offset = ucast hdrsize, fl_index = 0, fl_nfinfo = ss_nfinfo m s,
               fl_sumbytes = sumbytes, fl_sumlen = 0, fl_error = NILFS_FILE_SUCCESS,
               fl_use_real_blocknr = flag\<rparr>
      in nilfs_file_init_from_finfo (nilfs_file_adjust_finfo_position f blksize))"

definition nilfs_file_is_valid :: "nilfs_file \<Rightarrow> bool \<times> nilfs_file" where
  "nilfs_file_is_valid f =
     (let p = fl_psegment f in
      if ucast (fl_offset f) + fl_sumlen f > ucast (fl_sumbytes f)
      then (False, f\<lparr>fl_error := NILFS_FILE_ERROR_OVERRUN\<rparr>)
      else let nblocks = fi_nblocks (fl_mem f) (fl_finfo f);
               blkoff = ucast (fl_blocknr f - ps_blocknr p) :: u32;
               pseg_nblocks = ss_nblocks (ps_mem p) (ps_segsum p)
           in if blkoff + nblocks > pseg_nblocks
              then (False, f\<lparr>fl_error := NILFS_FILE_ERROR_MANYBLKS\<rparr>)
              else if fi_ndatablk (fl_mem f) (fl_finfo f) > nblocks
              then (False, f\<lparr>fl_error := NILFS_FILE_ERROR_BLKCNT\<rparr>)
              else (True, f))"

definition nilfs_file_is_end :: "nilfs_file \<Rightarrow> bool \<times> nilfs_file" where
  "nilfs_file_is_end f =
     (if fl_index f \<ge> fl_nfinfo f then (True, f)
      else let (v, f) = nilfs_file_is_valid f in (\<not> v, f))"

definition nilfs_file_next :: "nilfs_file \<Rightarrow> nilfs_file" where
  "nilfs_file_next f =
     (let blksize = ps_blksize (fl_psegment f);
          f = f\<lparr>fl_blocknr := fl_blocknr f + ucast (fi_nblocks (fl_mem f) (fl_finfo f)),
                fl_offset := fl_offset f + ucast (fl_sumlen f),
                fl_finfo := fl_finfo f + unat (fl_sumlen f)\<rparr>;
          f = nilfs_file_init_from_finfo (nilfs_file_adjust_finfo_position f blksize)
      in f\<lparr>fl_index := fl_index f + 1\<rparr>)"

definition nilfs_file_use_real_blocknr :: "nilfs_file \<Rightarrow> bool" where
  "nilfs_file_use_real_blocknr f = fl_use_real_blocknr f"

definition nilfs_file_is_error :: "nilfs_file \<Rightarrow> bool" where
  "nilfs_file_is_error f \<longleftrightarrow> fl_error f \<noteq> NILFS_FILE_SUCCESS"

fun nilfs_file_strerror :: "file_error \<Rightarrow> string" where
  "nilfs_file_strerror NILFS_FILE_SUCCESS = ''success''"
| "nilfs_file_strerror NILFS_FILE_ERROR_MANYBLKS = ''too many payload blocks''"
| "nilfs_file_strerror NILFS_FILE_ERROR_BLKCNT = ''inconsistent block count''"
| "nilfs_file_strerror NILFS_FILE_ERROR_OVERRUN = ''finfo/binfo overrun''"

function nilfs_file_iter :: "nilfs_file \<Rightarrow> nilfs_file list \<times> nilfs_file" where
  "nilfs_file_iter f =
     (case nilfs_file_is_end f of
        (True, f') \<Rightarrow> ([], f')
      | (False, f') \<Rightarrow> (let (fs, e) = nilfs_file_iter (nilfs_file_next f') in (f' # fs, e)))"
  by pat_completeness auto

lemma file_static [simp]:
  "fl_index (nilfs_file_adjust_finfo_position f b) = fl_index f"
  "fl_nfinfo (nilfs_file_adjust_finfo_position f b) = fl_nfinfo f"
  "fl_psegment (nilfs_file_adjust_finfo_position f b) = fl_psegment f"
  "fl_sumbytes (nilfs_file_adjust_finfo_position f b) = fl_sumbytes f"
  "fl_blocknr (nilfs_file_adjust_finfo_position f b) = fl_blocknr f"
  "fl_error (nilfs_file_adjust_finfo_position f b) = fl_error f"
  "fl_index (nilfs_file_init_from_finfo f) = fl_index f"
  "fl_nfinfo (nilfs_file_init_from_finfo f) = fl_nfinfo f"
  "fl_psegment (nilfs_file_init_from_finfo f) = fl_psegment f"
  "fl_sumbytes (nilfs_file_init_from_finfo f) = fl_sumbytes f"
  "fl_blocknr (nilfs_file_init_from_finfo f) = fl_blocknr f"
  "fl_error (nilfs_file_init_from_finfo f) = fl_error f"
  "fl_offset (nilfs_file_init_from_finfo f) = fl_offset f"
  "fl_finfo (nilfs_file_init_from_finfo f) = fl_finfo f"
  by (simp_all add: nilfs_file_adjust_finfo_position_def nilfs_file_init_from_finfo_def Let_def)

lemma file_is_end_False:
  "nilfs_file_is_end f = (False, f') \<Longrightarrow>
   f' = f \<and> fl_index f < fl_nfinfo f \<and> nilfs_file_is_valid f = (True, f)"
  by (auto simp: nilfs_file_is_end_def nilfs_file_is_valid_def Let_def split: if_splits prod.splits)

lemma unat_Suc_u32: "(i :: u32) < n \<Longrightarrow> unat (i + 1) = Suc (unat i)"
  using unat_lt_u32 [of n] by (simp add: word_less_nat_alt unat_word_ariths)

lemma file_next_decreases:
  assumes "nilfs_file_is_end f = (False, f')"
  shows "unat (fl_nfinfo (nilfs_file_next f')) - unat (fl_index (nilfs_file_next f'))
       < unat (fl_nfinfo f) - unat (fl_index f)"
proof -
  have "fl_index f < fl_nfinfo f" "f' = f" using file_is_end_False [OF assms] by auto
  then show ?thesis
    by (simp add: nilfs_file_next_def Let_def unat_Suc_u32 [of "fl_index f" "fl_nfinfo f"] word_less_nat_alt)
qed

termination nilfs_file_iter
  by (relation "measure (\<lambda>f. unat (fl_nfinfo f) - unat (fl_index f))")
     (auto dest!: file_next_decreases [OF sym])

declare nilfs_file_iter.simps [simp del]

definition nilfs_file_for_each :: "bool \<Rightarrow> nilfs_psegment \<Rightarrow> nilfs_file list \<times> nilfs_file" where
  "nilfs_file_for_each flag p = nilfs_file_iter (nilfs_file_init flag p)"

section \<open>Blocks\<close>

record nilfs_block =
  bk_file :: nilfs_file
  bk_binfo :: nat
  bk_blocknr :: u64
  bk_offset :: u32
  bk_index :: u32
  bk_nbinfo :: u32
  bk_nbinfo_data :: u32
  bk_dsize :: u32
  bk_nsize :: u32

definition nilfs_block_is_data :: "nilfs_block \<Rightarrow> bool" where
  "nilfs_block_is_data b \<longleftrightarrow> bk_index b < bk_nbinfo_data b"

definition nilfs_block_is_node :: "nilfs_block \<Rightarrow> bool" where
  "nilfs_block_is_node b \<longleftrightarrow> bk_index b \<ge> bk_nbinfo_data b"

definition binfosize :: "nilfs_block \<Rightarrow> u32" where
  "binfosize b = (if nilfs_block_is_data b then bk_dsize b else bk_nsize b)"

definition nilfs_block_adjust_binfo_position :: "nilfs_block \<Rightarrow> u32 \<Rightarrow> nilfs_block" where
  "nilfs_block_adjust_binfo_position b blksize =
     (let rest = blksize - (bk_offset b AND (blksize - 1)) in
      if binfosize b > rest
      then b\<lparr>bk_binfo := bk_binfo b + unat rest, bk_offset := bk_offset b + rest\<rparr>
      else b)"

definition nilfs_block_init :: "nilfs_file \<Rightarrow> nilfs_block" where
  "nilfs_block_init f =
     nilfs_block_adjust_binfo_position
       \<lparr>bk_file = f, bk_binfo = fl_finfo f + sizeof_finfo, bk_blocknr = fl_blocknr f,
        bk_offset = fl_offset f + of_nat sizeof_finfo, bk_index = 0,
        bk_nbinfo = fi_nblocks (fl_mem f) (fl_finfo f),
        bk_nbinfo_data = fi_ndatablk (fl_mem f) (fl_finfo f),
        bk_dsize = (if fl_use_real_blocknr f then NILFS_BINFO_DAT_DATA_SIZE else NILFS_BINFO_DATA_SIZE),
        bk_nsize = (if fl_use_real_blocknr f then NILFS_BINFO_DAT_NODE_SIZE else NILFS_BINFO_NODE_SIZE)\<rparr>
       (ps_blksize (fl_psegment f))"

definition nilfs_block_is_end :: "nilfs_block \<Rightarrow> bool" where
  "nilfs_block_is_end b \<longleftrightarrow> bk_index b \<ge> bk_nbinfo b"

definition nilfs_block_next :: "nilfs_block \<Rightarrow> nilfs_block" where
  "nilfs_block_next b =
     nilfs_block_adjust_binfo_position
       (b\<lparr>bk_binfo := bk_binfo b + unat (binfosize b), bk_offset := bk_offset b + binfosize b,
          bk_blocknr := bk_blocknr b + 1, bk_index := bk_index b + 1\<rparr>)
       (ps_blksize (fl_psegment (bk_file b)))"

function nilfs_block_iter :: "nilfs_block \<Rightarrow> nilfs_block list" where
  "nilfs_block_iter b =
     (if nilfs_block_is_end b then [] else b # nilfs_block_iter (nilfs_block_next b))"
  by pat_completeness auto

lemma block_static [simp]:
  "bk_index (nilfs_block_adjust_binfo_position b s) = bk_index b"
  "bk_nbinfo (nilfs_block_adjust_binfo_position b s) = bk_nbinfo b"
  "bk_nbinfo_data (nilfs_block_adjust_binfo_position b s) = bk_nbinfo_data b"
  "bk_dsize (nilfs_block_adjust_binfo_position b s) = bk_dsize b"
  "bk_nsize (nilfs_block_adjust_binfo_position b s) = bk_nsize b"
  "bk_file (nilfs_block_adjust_binfo_position b s) = bk_file b"
  "bk_blocknr (nilfs_block_adjust_binfo_position b s) = bk_blocknr b"
  by (simp_all add: nilfs_block_adjust_binfo_position_def Let_def)

lemma block_next_static [simp]:
  "bk_index (nilfs_block_next b) = bk_index b + 1"
  "bk_nbinfo (nilfs_block_next b) = bk_nbinfo b"
  "bk_nbinfo_data (nilfs_block_next b) = bk_nbinfo_data b"
  "bk_dsize (nilfs_block_next b) = bk_dsize b"
  "bk_nsize (nilfs_block_next b) = bk_nsize b"
  "bk_file (nilfs_block_next b) = bk_file b"
  "bk_blocknr (nilfs_block_next b) = bk_blocknr b + 1"
  by (simp_all add: nilfs_block_next_def)

termination nilfs_block_iter
proof (relation "measure (\<lambda>b. unat (bk_nbinfo b) - unat (bk_index b))")
  fix b
  assume "\<not> nilfs_block_is_end b"
  then have "bk_index b < bk_nbinfo b" by (simp add: nilfs_block_is_end_def not_le)
  then show "(nilfs_block_next b, b) \<in> measure (\<lambda>b. unat (bk_nbinfo b) - unat (bk_index b))"
    by (simp add: unat_Suc_u32 word_less_nat_alt)
qed simp

declare nilfs_block_iter.simps [simp del]

definition nilfs_block_for_each :: "nilfs_file \<Rightarrow> nilfs_block list" where
  "nilfs_block_for_each f = nilfs_block_iter (nilfs_block_init f)"

section \<open>Block arithmetic\<close>

text \<open>
  \<open>binfo_total\<close> is \<open>nilfs_binfo_total_size\<close> over unbounded numbers, \<open>binfo_pos\<close> the
  adjustment that keeps a binfo from straddling a block boundary.
\<close>

definition binfo_total :: "nat \<Rightarrow> nat \<Rightarrow> nat \<Rightarrow> nat \<Rightarrow> nat" where
  "binfo_total B off b n =
     (let rest = B - off mod B in
      if b * n \<le> rest then b * n
      else rest + (n - rest div b) div (B div b) * B + (n - rest div b) mod (B div b) * b)"

definition binfo_pos :: "nat \<Rightarrow> nat \<Rightarrow> nat \<Rightarrow> nat" where
  "binfo_pos B off b = (if b > B - off mod B then off + (B - off mod B) else off)"

lemma off_add_rest_mod:
  assumes "0 < (B :: nat)" "x < B" "r = B - off mod B"
  shows "(off + (r + (q * B + x))) mod B = x"
proof -
  have "off mod B \<le> B" "off = off div B * B + off mod B" using assms by simp_all
  then have "off + r = off div B * B + B" using assms(3) by linarith
  then have "off + (r + (q * B + x)) = x + (off div B + 1 + q) * B"
    by (simp add: add_mult_distrib)
  also have "\<dots> mod B = x" using assms(2) by (metis mod_less mod_mult_self1)
  finally show ?thesis .
qed

lemma binfo_total_0 [simp]: "binfo_total B off b 0 = 0"
  by (simp add: binfo_total_def Let_def)

text \<open>One binfo more is one adjusted step of the iterator.\<close>

lemma binfo_total_Suc:
  assumes b: "0 < b" "B = c * b" "1 < c"
  shows "off + binfo_total B off b (Suc n) = binfo_pos B (off + binfo_total B off b n) b + b"
proof -
  define r where "r = B - off mod B"
  have B: "0 < B" using b by simp
  have r: "0 < r" "r \<le> B" using B by (auto simp: r_def)
  have c: "B div b = c" using b by simp
  have offm: "off mod B = B - r" using B by (simp add: r_def)
  have T: "binfo_total B off b m = (if b * m \<le> r then b * m
      else r + ((m - r div b) div c * B + (m - r div b) mod c * b))" for m
    by (simp add: binfo_total_def Let_def r_def c)
  consider (in1) "b * Suc n \<le> r" | (edge) "b * n \<le> r" "r < b * Suc n" | (out) "r < b * n"
    by linarith
  then show ?thesis
  proof cases
    case in1
    then have "b * n < r" using b by simp
    then have "off mod B + b * n < B" using r offm by simp
    then have "(off + b * n) mod B = off mod B + b * n"
      by (metis mod_add_left_eq mod_less)
    with in1 have "binfo_pos B (off + b * n) b = off + b * n"
      using offm r by (simp add: binfo_pos_def)
    with in1 show ?thesis using b(1) by (simp add: T)
  next
    case edge
    then have n: "r div b = n" using b by (intro div_nat_eqI) (simp_all add: mult.commute)
    have tot: "binfo_total B off b (Suc n) = r + b"
      using edge b(3) n by (simp add: T)
    have "binfo_pos B (off + b * n) b = off + r"
    proof (cases "b * n = r")
      case True
      then have "(off + b * n) mod B = 0" using off_add_rest_mod [OF B B r_def, of 0] by simp
      then show ?thesis using True b by (simp add: binfo_pos_def)
    next
      case False
      then have lt: "b * n < r" using edge by simp
      then have "(off + b * n) mod B = off mod B + b * n"
        using r offm by (metis mod_add_left_eq mod_less add.commute less_diff_conv le_add_diff_inverse2 nat_add_left_cancel_less)
      then show ?thesis using lt edge offm r by (auto simp: binfo_pos_def)
    qed
    then show ?thesis using edge tot by (simp add: T)
  next
    case out
    then have n: "r div b < n" using b by (metis div_less_iff_less_mult less_mult_imp_div_less mult.commute)
    define q where "q = n - r div b"
    have q: "Suc n - r div b = Suc q" using n by (simp add: q_def)
    have t: "binfo_total B off b n = r + (q div c * B + q mod c * b)"
      using out by (simp add: T q_def)
    have xB: "q mod c * b + b \<le> B" using b by (metis Suc_leI add.commute mod_less_divisor mult_Suc mult_le_mono1 less_trans zero_less_one)
    then have "(off + (r + (q div c * B + q mod c * b))) mod B = q mod c * b"
      using off_add_rest_mod [OF B _ r_def, of "q mod c * b" "q div c"] b(1) by simp
    then have pos: "binfo_pos B (off + binfo_total B off b n) b = off + binfo_total B off b n"
      using xB by (simp add: binfo_pos_def t)
    have "b * Suc n > r" using out by simp
    then have t': "binfo_total B off b (Suc n) = r + (Suc q div c * B + Suc q mod c * b)"
      using q by (simp add: T)
    have "Suc q div c * B + Suc q mod c * b = Suc q * b"
      by (simp add: b(2) mult.assoc [symmetric] add_mult_distrib [symmetric] div_mult_mod_eq)
    moreover have "q div c * B + q mod c * b = q * b"
      by (simp add: b(2) mult.assoc [symmetric] add_mult_distrib [symmetric] div_mult_mod_eq)
    ultimately show ?thesis using pos t t' by simp
  qed
qed

lemma binfo_total_ge:
  assumes "0 < b" "B = c * b" "1 < c"
  shows "b * n \<le> binfo_total B off b n"
proof (induction n)
  case (Suc n)
  have "off + binfo_total B off b n \<le> binfo_pos B (off + binfo_total B off b n) b"
    by (simp add: binfo_pos_def)
  with Suc binfo_total_Suc [OF assms, of off n] show ?case by simp
qed simp

lemma binfo_total_mono:
  assumes "0 < b" "B = c * b" "1 < c" "m \<le> n"
  shows "binfo_total B off b m \<le> binfo_total B off b n"
  using assms(4)
proof (induction rule: dec_induct)
  case (step n)
  have "off + binfo_total B off b n \<le> binfo_pos B (off + binfo_total B off b n) b"
    by (simp add: binfo_pos_def)
  with step binfo_total_Suc [OF assms(1-3), of off n] show ?case by simp
qed simp

section \<open>The same arithmetic on machine words\<close>

definition blk :: "u32 \<Rightarrow> nat \<Rightarrow> bool" where
  "blk w k \<longleftrightarrow> 10 \<le> k \<and> k \<le> 16 \<and> w = 2 ^ k"

lemma unat_2p_u32: "k < 32 \<Longrightarrow> unat (2 ^ k :: u32) = 2 ^ k"
proof -
  assume "k < 32"
  then have "(2 :: nat) ^ k < 2 ^ 32" by (intro power_strict_increasing) simp_all
  then have "unat (of_nat (2 ^ k) :: u32) = 2 ^ k" by (rule unat_of_nat_u32)
  then show ?thesis by simp
qed

lemma unat_2p_u64: "k < 64 \<Longrightarrow> unat (2 ^ k :: u64) = 2 ^ k"
proof -
  assume "k < 64"
  then have "(2 :: nat) ^ k < 2 ^ 64" by (intro power_strict_increasing) simp_all
  then have "unat (of_nat (2 ^ k) :: u64) = 2 ^ k" by (rule unat_of_nat_u64)
  then show ?thesis by simp
qed

lemma unat_blk: "blk w k \<Longrightarrow> unat w = 2 ^ k"
  by (auto simp: blk_def unat_2p_u32)

lemma ucast_2p: "k < 32 \<Longrightarrow> (ucast (2 ^ k :: u64) :: u32) = 2 ^ k"
  by (rule word_unat_eq_iff [THEN iffD2])
     (simp add: unsigned_ucast_eq unat_2p_u64 unat_2p_u32 take_bit_nat_eq_self)

lemma unat_take_bit_mod: "unat (take_bit k (x :: 'a :: len word)) = unat x mod 2 ^ k"
  by (simp only: unsigned_take_bit_eq) (simp add: take_bit_eq_mod)

lemma blk_minus_1: "blk w k \<Longrightarrow> w - 1 = mask k"
  by (simp add: blk_def mask_eq_exp_minus_1)

lemma blk_bounds: "blk w k \<Longrightarrow> 1024 \<le> unat w \<and> unat w \<le> 65536"
  using power_increasing [of 10 k "2 :: nat"] power_increasing [of k 16 "2 :: nat"]
  by (auto simp: unat_blk blk_def)

lemma unat_rest32:
  assumes "blk w k" shows "unat (w - (x AND (w - 1))) = unat w - unat x mod unat w"
proof -
  have "x AND (w - 1) = take_bit k x"
    by (simp add: blk_minus_1 [OF assms] take_bit_eq_mask)
  then have u: "unat (x AND (w - 1)) = unat x mod unat w"
    by (simp add: unat_take_bit_mod unat_blk [OF assms])
  moreover have "unat x mod unat w \<le> unat w"
    using blk_bounds [OF assms] by (simp add: less_imp_le)
  ultimately show ?thesis by (simp add: unat_sub word_le_nat_alt)
qed

lemma unat_rest64:
  assumes "blk w k"
  shows "unat (ucast (ucast w - (x AND ucast (w - 1)) :: u64) :: u32) = unat w - unat x mod unat w"
proof -
  have "(ucast (w - 1) :: u64) = mask k"
  proof (rule word_unat_eq_iff [THEN iffD2])
    have k: "k < 64" using assms by (simp add: blk_def)
    have "unat (mask k :: u64) = 2 ^ k - 1"
      using unat_2p_u64 [OF k] by (simp add: mask_eq_exp_minus_1 unat_sub word_le_nat_alt)
    moreover have "unat (w - 1) = 2 ^ k - 1"
      using unat_blk [OF assms] by (simp add: unat_sub word_le_nat_alt)
    ultimately show "unat (ucast (w - 1) :: u64) = unat (mask k :: u64)" by simp
  qed
  then have "x AND ucast (w - 1) = take_bit k x" by (simp add: take_bit_eq_mask)
  then have u: "unat (x AND ucast (w - 1)) = unat x mod unat w"
    by (simp add: unat_take_bit_mod unat_blk [OF assms])
  have le: "unat x mod unat w \<le> unat w"
    using blk_bounds [OF assms] by (simp add: less_imp_le)
  have "unat (ucast w - (x AND ucast (w - 1)) :: u64) = unat w - unat x mod unat w"
    using u le by (simp add: unat_sub word_le_nat_alt)
  then show ?thesis
    using unat_lt_u32 [of w] by (simp add: unsigned_ucast_eq take_bit_nat_eq_self)
qed

definition bisize :: "u32 \<Rightarrow> bool" where
  "bisize b \<longleftrightarrow> b = 8 \<or> b = 16"

lemma blk_div:
  assumes "blk w k" "bisize b"
  shows "\<exists>c. unat w = c * unat b \<and> 1 < c \<and> unat (w div b) = c \<and> 0 < unat b"
proof -
  have w: "unat w = 2 ^ k" "10 \<le> k" using assms unat_blk by (auto simp: blk_def)
  then obtain j where j: "k = j + 10" by (metis add.commute le_add_diff_inverse)
  have p: "(2 :: nat) ^ k = 2 ^ j * 1024" by (simp add: j power_add)
  have "1 \<le> (2 :: nat) ^ j" by simp
  then have j1: "1 < 2 ^ j * (128 :: nat)" "1 < 2 ^ j * (64 :: nat)" by linarith+
  show ?thesis
  proof (cases "b = 8")
    case True
    then have "unat b = 8" by simp
    then show ?thesis using w p j1 by (intro exI [of _ "2 ^ j * 128"]) (simp add: unat_div)
  next
    case False
    then have "unat b = 16" using assms(2) by (simp add: bisize_def)
    then show ?thesis using w p j1 by (intro exI [of _ "2 ^ j * 64"]) (simp add: unat_div)
  qed
qed

text \<open>Without wrap-around the C function is its specification.\<close>

lemma unat_mult_u32: "unat (a :: u32) * unat b < 2 ^ 32 \<Longrightarrow> unat (a * b) = unat a * unat b"
  by (simp add: unat_word_ariths)

lemma binfo_total_size_word:
  assumes "blk w k" "bisize b" and big: "unat (b * n) > unat w - unat off mod unat w"
    and le: "unat w - unat off mod unat w \<le> unat b * unat n"
  shows "unat (nilfs_binfo_total_size off w b n) =
    (let rest = unat w - unat off mod unat w; m = unat n - rest div unat b; c = unat w div unat b
     in rest + m div c * unat w + m mod c * unat b)"
proof -
  obtain c where c: "unat w = c * unat b" "1 < c" "unat (w div b) = c" "0 < unat b"
    using blk_div [OF assms(1,2)] by blast
  define r where "r = (ucast (ucast w - (off AND ucast (w - 1)) :: u64) :: u32)"
  have r: "unat r = unat w - unat off mod unat w" unfolding r_def by (rule unat_rest64 [OF assms(1)])
  define m where "m = n - r div b"
  have "unat r div unat b \<le> unat n" using le r c(4) by (metis div_le_mono nonzero_mult_div_cancel_left less_not_refl)
  then have m: "unat m = unat n - unat r div unat b"
    by (simp add: m_def unat_sub word_le_nat_alt unat_div)
  have w16: "unat w \<le> 65536" using blk_bounds [OF assms(1)] by simp
  have m1: "unat (m mod (w div b)) = unat m mod c" "unat (m div (w div b)) = unat m div c"
    by (simp_all add: unat_mod unat_div c(3) [symmetric])
  have lt: "unat m mod c * unat b < unat w"
    using c by (metis mod_less_divisor mult_less_mono1 less_trans zero_less_one)
  have m2: "unat (m mod (w div b) * b) = unat m mod c * unat b"
    using lt w16 m1 by (subst unat_mult_u32) simp_all
  have "unat m div c * unat w \<le> unat m * unat w" by simp
  also have "\<dots> \<le> 2 ^ 32 * 65536" using w16 unat_lt_u32 [of m] by (intro mult_le_mono) simp_all
  finally have d: "unat m div c * unat w \<le> 2 ^ 48" by simp
  have m3: "unat (ucast (m div (w div b)) * ucast w :: u64) = unat m div c * unat w"
    using d m1 by (simp add: unat_word_ariths)
  have rl: "unat r \<le> 65536" using r w16 by simp
  have res: "nilfs_binfo_total_size off w b n =
      ucast r + ucast (m div (w div b)) * ucast w + ucast (m mod (w div b) * b)"
    using big r by (simp add: nilfs_binfo_total_size_def Let_def r_def [symmetric] m_def [symmetric] word_le_nat_alt)
  have "unat (ucast r + ucast (m div (w div b)) * ucast w :: u64) = unat r + unat m div c * unat w"
    using d rl m3 by (subst unat_add_u64) simp_all
  then have "unat (nilfs_binfo_total_size off w b n) = unat r + unat m div c * unat w + unat m mod c * unat b"
    unfolding res using d rl m2 lt w16 by (subst unat_add_u64) simp_all
  then show ?thesis using c by (simp add: Let_def r m)
qed

lemma binfo_total_size_exact:
  assumes "blk w k" "bisize b" "unat b * unat n < 2 ^ 32"
  shows "unat (nilfs_binfo_total_size off w b n) = binfo_total (unat w) (unat off) (unat b) (unat n)"
proof -
  have u: "unat (b * n) = unat b * unat n" using assms(3) by (rule unat_mult_u32)
  show ?thesis
  proof (cases "unat b * unat n \<le> unat w - unat off mod unat w")
    case True
    then show ?thesis
      using u unat_rest64 [OF assms(1), of off]
      by (simp add: nilfs_binfo_total_size_def Let_def word_le_nat_alt binfo_total_def)
  next
    case False
    then show ?thesis
      using u binfo_total_size_word [OF assms(1,2), of off n]
      by (simp add: binfo_total_def Let_def)
  qed
qed

text \<open>
  With wrap-around it is still at least the byte count modulo \<open>2\<^sup>3\<^sup>2\<close>, which is what the
  validity check of a file relies on.
\<close>

lemma binfo_total_size_ge:
  assumes "blk w k" "bisize b"
  shows "unat b * unat n mod 2 ^ 32 \<le> unat (nilfs_binfo_total_size off w b n)"
proof -
  have u: "unat (b * n) = unat b * unat n mod 2 ^ 32" by (simp add: unat_word_ariths)
  show ?thesis
  proof (cases "unat (b * n) \<le> unat w - unat off mod unat w")
    case True
    then show ?thesis
      using u unat_rest64 [OF assms(1), of off]
      by (simp add: nilfs_binfo_total_size_def Let_def word_le_nat_alt)
  next
    case False
    obtain c where c: "0 < unat b" "unat w = c * unat b" "1 < c" using blk_div [OF assms] by blast
    have le: "unat b * unat n mod 2 ^ 32 \<le> unat b * unat n" by simp
    then have le2: "unat w - unat off mod unat w < unat b * unat n" using False u by linarith
    have "unat (nilfs_binfo_total_size off w b n) = binfo_total (unat w) (unat off) (unat b) (unat n)"
      using binfo_total_size_word [OF assms, of off n] False le2
      by (simp add: binfo_total_def Let_def)
    then show ?thesis using binfo_total_ge [OF c, of "unat n" "unat off"] le by simp
  qed
qed

lemma unat_drop_bit_div: "unat (drop_bit k (x :: 'a :: len word)) = unat x div 2 ^ k"
proof -
  have "unat (drop_bit k x) = drop_bit k (take_bit LENGTH('a) (unat x))"
    by (rule unsigned_drop_bit_eq)
  also have "\<dots> = drop_bit k (unat x)" by (simp add: take_bit_nat_eq_self unsigned_less)
  finally show ?thesis by (simp only: drop_bit_eq_div)
qed

section \<open>Well-formed segments and positions\<close>

text \<open>
  What \<open>nilfs_get_segment\<close> establishes of a segment of at most 1 GiB: its memory
  holds its blocks, of 1 KiB to 64 KiB each.
\<close>

definition segment_wf :: "nilfs_segment \<Rightarrow> bool" where
  "segment_wf sg \<longleftrightarrow> 10 \<le> unat (sg_blkbits sg) \<and> unat (sg_blkbits sg) \<le> 16
     \<and> unat (sg_segsize sg) = unat (sg_nblocks sg) * 2 ^ unat (sg_blkbits sg)
     \<and> unat (sg_segsize sg) \<le> length (sg_mem sg) \<and> unat (sg_segsize sg) \<le> 2 ^ 30
     \<and> unat (sg_blocknr sg) + unat (sg_nblocks sg) \<le> 2 ^ 63"

definition ps_off :: "nilfs_psegment \<Rightarrow> nat" where
  "ps_off p = unat (ps_blocknr p) - unat (sg_blocknr (ps_segment p))"

definition psegment_inv :: "nilfs_psegment \<Rightarrow> bool" where
  "psegment_inv p \<longleftrightarrow> segment_wf (ps_segment p) \<and> ps_blkbits p = sg_blkbits (ps_segment p)
     \<and> sg_blocknr (ps_segment p) \<le> ps_blocknr p
     \<and> ps_segsum p = ps_off p * 2 ^ unat (ps_blkbits p)
     \<and> ps_off p + unat (ps_blkcnt p) \<le> unat (sg_nblocks (ps_segment p))"

lemma psegment_init_inv: "segment_wf sg \<Longrightarrow> psegment_inv (nilfs_psegment_init sg n)"
  by (simp add: psegment_inv_def nilfs_psegment_init_def ps_off_def min_def word_le_nat_alt)

lemma segment_wf_nblocks:
  assumes "segment_wf sg" shows "unat (sg_nblocks sg) \<le> 2 ^ 20"
proof -
  have "(2 :: nat) ^ 10 \<le> 2 ^ unat (sg_blkbits sg)"
    using assms by (intro power_increasing) (auto simp: segment_wf_def)
  then have "unat (sg_nblocks sg) * 2 ^ 10 \<le> unat (sg_nblocks sg) * 2 ^ unat (sg_blkbits sg)"
    by (rule mult_le_mono2)
  also have "\<dots> \<le> 2 ^ 30" using assms by (simp add: segment_wf_def)
  finally show ?thesis by simp
qed

lemma psegment_blk: "psegment_inv p \<Longrightarrow> blk (ps_blksize p) (unat (ps_blkbits p))"
  by (simp add: psegment_inv_def segment_wf_def blk_def ps_blksize_def ucast_2p)

lemma ps_blocknr_eq: "psegment_inv p \<Longrightarrow> unat (ps_blocknr p) = unat (sg_blocknr (ps_segment p)) + ps_off p"
  by (simp add: psegment_inv_def ps_off_def word_le_nat_alt)

definition psegment_valid :: "nilfs_psegment \<Rightarrow> bool" where
  "psegment_valid p \<longleftrightarrow> psegment_inv p \<and> nilfs_psegment_is_end p = (False, p)"

text \<open>What the checks of \<open>nilfs_psegment_is_valid\<close> establish.\<close>

lemma psegment_valid_bounds:
  assumes "psegment_valid p"
  defines "m \<equiv> ps_mem p" and "s \<equiv> ps_segsum p"
  shows "ps_off p + unat (ss_nblocks m s) \<le> unat (sg_nblocks (ps_segment p))"
    and "s + unat (ss_sumbytes m s) < unat (sg_segsize (ps_segment p))"
    and "unat (ss_bytes m s) \<le> unat (ss_sumbytes m s)"
    and "unat (ss_sumbytes m s) \<le> (unat (ss_nblocks m s) - 1) * unat (ps_blksize p)"
    and "0 < unat (ss_nblocks m s)" and "2 \<le> unat (ps_blkcnt p)"
    and "8 \<le> unat (ss_sumbytes m s)"
proof -
  have inv: "psegment_inv p" and v: "nilfs_psegment_is_valid p = (True, p)" and c: "\<not> ps_blkcnt p < 2"
    using assms(1) by (auto simp: psegment_valid_def nilfs_psegment_is_end_def NILFS_PSEG_MIN_BLOCKS_def
        split: if_splits prod.splits)
  let ?sg = "ps_segment p" and ?sb = "ss_sumbytes m s" and ?nb = "ss_nblocks m s"
  have wf: "segment_wf ?sg" using inv by (simp add: psegment_inv_def)
  have facts: "\<not> (?sb < 8 \<or> s + unat ?sb \<ge> unat (sg_segsize ?sg))"
    "\<not> ps_blocknr p + ucast ?nb > sg_blocknr ?sg + ucast (sg_nblocks ?sg)"
    "\<not> (ucast (ss_bytes m s) :: u32) > ?sb"
    "\<not> (ucast (drop_bit (unat (ps_blkbits p)) ((ucast ?sb :: u64) + push_bit (unat (ps_blkbits p)) 1 - 1)) :: u32) \<ge> ?nb"
    using v unfolding nilfs_psegment_is_valid_def Let_def m_def s_def by (auto split: if_splits)
  show "2 \<le> unat (ps_blkcnt p)" using c by (simp add: word_less_nat_alt)
  show a: "s + unat ?sb < unat (sg_segsize ?sg)" using facts(1) by simp
  show "8 \<le> unat ?sb" using facts(1) by (simp add: word_less_nat_alt)
  have u16: "unat (ucast x :: u32) = unat x" for x :: u16
    using unsigned_less [of x, where ?'a = nat] by (simp add: unsigned_ucast_eq take_bit_nat_eq_self)
  show "unat (ss_bytes m s) \<le> unat ?sb" using facts(3) u16 by (simp add: word_less_nat_alt not_less)
  have b63: "unat (sg_blocknr ?sg) + unat (sg_nblocks ?sg) \<le> 2 ^ 63" using wf by (simp add: segment_wf_def)
  have off: "ps_off p \<le> unat (sg_nblocks ?sg)" using inv by (simp add: psegment_inv_def)
  have e1: "unat (ps_blocknr p + ucast ?nb) = unat (ps_blocknr p) + unat ?nb"
    using b63 off ps_blocknr_eq [OF inv] unat_lt_u32 [of ?nb] by (subst unat_add_u64) simp_all
  have e2: "unat (sg_blocknr ?sg + ucast (sg_nblocks ?sg)) = unat (sg_blocknr ?sg) + unat (sg_nblocks ?sg)"
    using b63 by (subst unat_add_u64) simp_all
  show "ps_off p + unat ?nb \<le> unat (sg_nblocks ?sg)"
    using facts(2) e1 e2 ps_blocknr_eq [OF inv] by (simp add: word_less_nat_alt not_less)
  let ?k = "unat (ps_blkbits p)"
  have k: "?k \<le> 16" "10 \<le> ?k" using inv by (simp_all add: psegment_inv_def segment_wf_def)
  have B: "unat (ps_blksize p) = 2 ^ ?k" using unat_blk [OF psegment_blk [OF inv]] .
  have k16: "(2 :: nat) ^ ?k \<le> 65536" using k power_increasing [of ?k 16 "2 :: nat"] by simp
  have p1: "unat ((ucast ?sb :: u64) + push_bit ?k 1) = unat ?sb + 2 ^ ?k"
    using k k16 unat_lt_u32 [of ?sb] unat_2p_u64 [of ?k] by (subst unat_add_u64) simp_all
  have p2: "unat ((ucast ?sb :: u64) + push_bit ?k 1 - 1) = unat ?sb + 2 ^ ?k - 1"
    using p1 by (subst unat_sub) (simp_all add: word_le_nat_alt Suc_le_eq)
  have p3: "unat (drop_bit ?k ((ucast ?sb :: u64) + push_bit ?k 1 - 1)) = (unat ?sb + 2 ^ ?k - 1) div 2 ^ ?k"
    using p2 by (simp only: unat_drop_bit_div)
  have "unat ?sb + 2 ^ ?k - 1 < 2 ^ 33" using k16 unat_lt_u32 [of ?sb] by simp
  then have "(unat ?sb + 2 ^ ?k - 1) div 2 ^ ?k < 2 ^ 32"
  proof -
    assume "unat ?sb + 2 ^ ?k - 1 < 2 ^ 33"
    moreover have "(2 :: nat) ^ 10 \<le> 2 ^ ?k" using k by (intro power_increasing) simp_all
    then have "(2 :: nat) ^ 32 * 2 ^ 10 \<le> 2 ^ 32 * 2 ^ ?k" by (rule mult_le_mono2)
    ultimately have "unat ?sb + 2 ^ ?k - 1 < 2 ^ 32 * 2 ^ ?k" by simp
    then show ?thesis by (simp add: div_less_iff_less_mult)
  qed
  then have p4: "(unat ?sb + 2 ^ ?k - 1) div 2 ^ ?k < unat ?nb"
    using facts(4) p3 by (simp add: word_less_nat_alt not_le unsigned_ucast_eq take_bit_nat_eq_self)
  then show nb: "0 < unat ?nb" by simp
  have "unat ?sb + 2 ^ ?k - 1 < unat ?nb * 2 ^ ?k"
    using p4 by (simp add: div_less_iff_less_mult)
  then have "unat ?sb + 2 ^ ?k \<le> unat ?nb * 2 ^ ?k" using nb by simp
  then show "unat ?sb \<le> (unat ?nb - 1) * unat (ps_blksize p)"
    using nb B by (simp add: diff_mult_distrib)
qed

lemma unat_shift_u64:
  assumes "unat (x :: u32) * 2 ^ k < 2 ^ 64"
  shows "unat (push_bit k (ucast x :: u64)) = unat x * 2 ^ k"
proof -
  have "unat (push_bit k (ucast x :: u64)) = take_bit 64 (push_bit k (unat x))"
    by (simp only: unsigned_push_bit_eq unat_ucast_u32_u64 len_bit0 len_num1) simp
  also have "\<dots> = unat x * 2 ^ k" using assms by (simp only: push_bit_eq_mult take_bit_nat_eq_self)
  finally show ?thesis .
qed

lemma psegment_next_inv:
  assumes "psegment_valid p"
  shows "psegment_inv (nilfs_psegment_next p)"
    and "ps_off (nilfs_psegment_next p) = ps_off p + unat (ss_nblocks (ps_mem p) (ps_segsum p))"
    and "ps_segment (nilfs_psegment_next p) = ps_segment p"
proof -
  let ?nb = "ss_nblocks (ps_mem p) (ps_segsum p)" and ?q = "nilfs_psegment_next p" and ?sg = "ps_segment p"
  have inv: "psegment_inv p" using assms by (simp add: psegment_valid_def)
  have b63: "unat (sg_blocknr ?sg) + unat (sg_nblocks ?sg) \<le> 2 ^ 63"
    using inv by (simp add: segment_wf_def psegment_inv_def)
  note nb = psegment_valid_bounds(1) [OF assms]
  show sg: "ps_segment ?q = ?sg" by (simp add: nilfs_psegment_next_def Let_def)
  have u: "unat (ps_blocknr ?q) = unat (ps_blocknr p) + unat ?nb"
    using b63 nb ps_blocknr_eq [OF inv]
    by (simp add: nilfs_psegment_next_def Let_def unat_add_u64)
  have "unat (sg_blocknr ?sg) \<le> unat (ps_blocknr p)"
    using inv by (simp add: psegment_inv_def word_le_nat_alt)
  then show off: "ps_off ?q = ps_off p + unat ?nb" using u sg by (simp add: ps_off_def)
  let ?k = "unat (ps_blkbits p)"
  have k16: "(2 :: nat) ^ ?k \<le> 65536"
    using inv power_increasing [of ?k 16 "2 :: nat"] by (simp add: psegment_inv_def segment_wf_def)
  have "unat ?nb * 2 ^ ?k \<le> 2 ^ 32 * 65536"
    using k16 unat_lt_u32 [of ?nb] by (intro mult_le_mono) simp_all
  then have "unat ?nb * 2 ^ ?k < 2 ^ 64" by simp
  then have "unat (push_bit ?k (ucast ?nb :: u64)) = unat ?nb * 2 ^ ?k" by (rule unat_shift_u64)
  then have s: "ps_segsum ?q = ps_segsum p + unat ?nb * 2 ^ ?k"
    by (simp add: nilfs_psegment_next_def Let_def)
  have c: "ps_off ?q + unat (ps_blkcnt ?q) \<le> unat (sg_nblocks ?sg)"
    using nb inv off
    by (auto simp: nilfs_psegment_next_def Let_def psegment_inv_def unat_sub word_le_nat_alt)
  have bb: "ps_blkbits ?q = ps_blkbits p" by (simp add: nilfs_psegment_next_def Let_def)
  have "sg_blocknr ?sg \<le> ps_blocknr ?q" using u ps_blocknr_eq [OF inv] by (simp add: word_le_nat_alt)
  then show "psegment_inv ?q"
    using inv s c off sg bb by (simp add: psegment_inv_def algebra_simps)
qed

text \<open>The logs the loop visits are valid and follow one another without overlap.\<close>

lemma psegment_is_end_cases:
  obtains e where "nilfs_psegment_is_end p = (True, e)" | "nilfs_psegment_is_end p = (False, p)"
  by (cases "nilfs_psegment_is_end p"; cases "fst (nilfs_psegment_is_end p)")
     (auto simp: nilfs_psegment_is_end_def split: if_splits prod.splits dest: valid_psegment_nblocks)

lemma psegment_iter_ok:
  assumes "psegment_inv p"
  shows "(\<forall>q \<in> set (fst (nilfs_psegment_iter p)). psegment_valid q \<and> ps_segment q = ps_segment p \<and> ps_off p \<le> ps_off q)
    \<and> sorted_wrt (\<lambda>q r. ps_off q + unat (ss_nblocks (ps_mem q) (ps_segsum q)) \<le> ps_off r) (fst (nilfs_psegment_iter p))"
  using assms
proof (induction p rule: nilfs_psegment_iter.induct)
  case (1 p)
  show ?case
  proof (cases rule: psegment_is_end_cases [of p])
    case (1 e)
    then show ?thesis by (simp add: nilfs_psegment_iter.simps [of p])
  next
    case 2
    then have v: "psegment_valid p" using "1.prems" by (simp add: psegment_valid_def)
    note n = psegment_next_inv [OF v]
    have it: "fst (nilfs_psegment_iter p) = p # fst (nilfs_psegment_iter (nilfs_psegment_next p))"
      using 2 by (simp add: nilfs_psegment_iter.simps [of p] split: prod.splits)
    show ?thesis using "1.IH" [OF 2 [symmetric]] 2 n v by (auto simp: it)
  qed
qed

subsection \<open>Files\<close>

definition fl_off :: "nilfs_file \<Rightarrow> nat" where
  "fl_off f = unat (fl_blocknr f) - unat (ps_blocknr (fl_psegment f))"

definition fl_nblocks :: "nilfs_file \<Rightarrow> nat" where
  "fl_nblocks f = unat (fi_nblocks (fl_mem f) (fl_finfo f))"

definition fl_ndatablk :: "nilfs_file \<Rightarrow> nat" where
  "fl_ndatablk f = unat (fi_ndatablk (fl_mem f) (fl_finfo f))"

definition ps_nblocks :: "nilfs_psegment \<Rightarrow> nat" where
  "ps_nblocks p = unat (ss_nblocks (ps_mem p) (ps_segsum p))"

definition ps_sumbytes :: "nilfs_psegment \<Rightarrow> nat" where
  "ps_sumbytes p = unat (ss_sumbytes (ps_mem p) (ps_segsum p))"

definition file_inv :: "nilfs_file \<Rightarrow> bool" where
  "file_inv f \<longleftrightarrow> (let p = fl_psegment f in
     psegment_valid p \<and> fl_sumbytes f = ss_sumbytes (ps_mem p) (ps_segsum p)
     \<and> fl_finfo f = ps_segsum p + unat (fl_offset f) \<and> unat (fl_offset f) \<le> 2 ^ 30 + 24
     \<and> ps_blocknr p \<le> fl_blocknr f \<and> fl_off f \<le> ps_nblocks p
     \<and> (if unat (fl_offset f) + 24 \<le> ps_sumbytes p then fl_sumlen f = nilfs_file_info_size f
        else fl_sumlen f = 24))"

definition file_valid :: "nilfs_file \<Rightarrow> bool" where
  "file_valid f \<longleftrightarrow> file_inv f \<and> nilfs_file_is_end f = (False, f)"

lemma ps_sumbytes_le: "psegment_valid p \<Longrightarrow> ps_segsum p + ps_sumbytes p < unat (sg_segsize (ps_segment p)) \<and> ps_sumbytes p < 2 ^ 30"
  using psegment_valid_bounds(2) [of p]
  by (auto simp: ps_sumbytes_def psegment_valid_def psegment_inv_def segment_wf_def ps_mem_def)

lemma ps_nblocks_le: "psegment_valid p \<Longrightarrow> ps_off p + ps_nblocks p \<le> unat (sg_nblocks (ps_segment p)) \<and> ps_nblocks p \<le> 2 ^ 20"
  using psegment_valid_bounds(1) [of p] segment_wf_nblocks [of "ps_segment p"]
  by (auto simp: ps_nblocks_def psegment_valid_def psegment_inv_def)

definition fl_dsize :: "nilfs_file \<Rightarrow> u32" where
  "fl_dsize f = (if fl_use_real_blocknr f then NILFS_BINFO_DAT_DATA_SIZE else NILFS_BINFO_DATA_SIZE)"

definition fl_nsize :: "nilfs_file \<Rightarrow> u32" where
  "fl_nsize f = (if fl_use_real_blocknr f then NILFS_BINFO_DAT_NODE_SIZE else NILFS_BINFO_NODE_SIZE)"

lemmas binfo_size_defs = NILFS_BINFO_DAT_DATA_SIZE_def NILFS_BINFO_DATA_SIZE_def
  NILFS_BINFO_DAT_NODE_SIZE_def NILFS_BINFO_NODE_SIZE_def

lemma fl_bisize: "bisize (fl_dsize f)" "bisize (fl_nsize f)"
  and fl_sizes: "unat (fl_dsize f) = 8 \<and> unat (fl_nsize f) = 16 \<or> unat (fl_dsize f) = 16 \<and> unat (fl_nsize f) = 8"
  by (simp_all add: bisize_def fl_dsize_def fl_nsize_def binfo_size_defs)

lemma binfo_total_size_le:
  assumes "blk w k" "bisize b"
  shows "unat (nilfs_binfo_total_size off w b n) \<le> 2 ^ 50"
proof (cases "unat (b * n) \<le> unat w - unat off mod unat w")
  case True
  then show ?thesis
    using unat_rest64 [OF assms(1), of off] unat_lt_u32 [of "b * n"]
    by (simp add: nilfs_binfo_total_size_def Let_def word_le_nat_alt)
next
  case False
  obtain c where c: "0 < unat b" "unat w = c * unat b" "1 < c" using blk_div [OF assms] by blast
  define r where "r = unat w - unat off mod unat w"
  define m where "m = unat n - r div unat b"
  have w16: "unat w \<le> 65536" using blk_bounds [OF assms(1)] by simp
  have cb: "unat w div unat b = c" using c by simp
  have "unat (b * n) \<le> unat b * unat n" by (simp add: unat_word_ariths)
  then have "unat (nilfs_binfo_total_size off w b n) = r + m div c * unat w + m mod c * unat b"
    using binfo_total_size_word [OF assms, of off n] False
    by (simp add: Let_def r_def [symmetric] cb m_def [symmetric])
  also have "\<dots> = r + m * unat b"
    by (simp add: c(2) mult.assoc [symmetric] add_mult_distrib [symmetric] div_mult_mod_eq)
  also have "\<dots> \<le> 65536 + 2 ^ 32 * 16"
    using w16 unat_lt_u32 [of n] assms(2) by (intro add_mono mult_le_mono) (auto simp: r_def m_def bisize_def)
  finally show ?thesis by simp
qed

text \<open>The length of a finfo with its binfos, as the sum of its parts.\<close>

definition fl_data_len :: "nilfs_file \<Rightarrow> u64" where
  "fl_data_len f = nilfs_binfo_total_size (ucast (fl_offset f) + 24)
     (ps_blksize (fl_psegment f)) (fl_dsize f) (fi_ndatablk (fl_mem f) (fl_finfo f))"

definition fl_node_len :: "nilfs_file \<Rightarrow> u64" where
  "fl_node_len f = nilfs_binfo_total_size (ucast (fl_offset f) + 24 + fl_data_len f)
     (ps_blksize (fl_psegment f)) (fl_nsize f)
     (fi_nblocks (fl_mem f) (fl_finfo f) - fi_ndatablk (fl_mem f) (fl_finfo f))"

lemma file_info_size_sum: "nilfs_file_info_size f = 24 + fl_data_len f + fl_node_len f"
  by (simp add: nilfs_file_info_size_def Let_def fl_data_len_def fl_node_len_def fl_dsize_def fl_nsize_def
      sizeof_finfo_def add.assoc)

lemma file_blk: "file_inv f \<Longrightarrow> blk (ps_blksize (fl_psegment f)) (unat (ps_blkbits (fl_psegment f)))"
  by (auto simp: file_inv_def Let_def psegment_valid_def intro: psegment_blk)

lemma unat_file_info_size:
  assumes "file_inv f"
  shows "unat (nilfs_file_info_size f) = 24 + unat (fl_data_len f) + unat (fl_node_len f)"
    and "unat (fl_data_len f) \<le> 2 ^ 50"
proof -
  have d: "unat (fl_data_len f) \<le> 2 ^ 50" "unat (fl_node_len f) \<le> 2 ^ 50"
    unfolding fl_data_len_def fl_node_len_def
    using binfo_total_size_le [OF file_blk [OF assms]] fl_bisize by blast+
  then show "unat (nilfs_file_info_size f) = 24 + unat (fl_data_len f) + unat (fl_node_len f)"
    by (simp add: file_info_size_sum unat_word_ariths)
  show "unat (fl_data_len f) \<le> 2 ^ 50" by (rule d(1))
qed

text \<open>
  The heart of the validity check: although its comparisons are made modulo \<open>2\<^sup>3\<^sup>2\<close>, an
  accepted file's block count is not a wrapped one.
\<close>

lemma counts_no_wrap:
  fixes a c e :: nat
  assumes "16 * a mod 2 ^ 32 \<le> 2 ^ 30" "8 * c mod 2 ^ 32 \<le> 2 ^ 30" "a + c < 2 ^ 32" "e \<le> 2 ^ 20"
  shows "e + (a + c) < 2 ^ 32"
proof (rule ccontr)
  assume "\<not> e + (a + c) < 2 ^ 32"
  then have lo: "2 ^ 32 - 2 ^ 20 \<le> a + c" using assms(4) by simp
  have "16 * (a mod 2 ^ 28) \<le> 2 ^ 30" using assms(1) mult_mod_right [of 16 a "2 ^ 28"] by simp
  then have a: "a mod 2 ^ 28 \<le> 2 ^ 26" by simp
  have "8 * (c mod 2 ^ 29) \<le> 2 ^ 30" using assms(2) mult_mod_right [of 8 c "2 ^ 29"] by simp
  then have c29: "c mod 2 ^ 29 \<le> 2 ^ 27" by simp
  have "c mod 2 ^ 28 = (c mod 2 ^ 29) mod 2 ^ 28" by (simp add: mod_mod_cancel)
  also have "\<dots> \<le> c mod 2 ^ 29" by simp
  finally have c: "c mod 2 ^ 28 \<le> 2 ^ 27" using c29 by simp
  have "(a + c) mod 2 ^ 28 \<le> a mod 2 ^ 28 + c mod 2 ^ 28" by (metis mod_add_eq mod_less_eq_dividend)
  then have u: "(a + c) mod 2 ^ 28 \<le> 2 ^ 26 + 2 ^ 27" using a c by linarith
  define x where "x = a + c - (2 ^ 32 - 2 ^ 28)"
  have x: "a + c = x + 15 * 2 ^ 28" "x < 2 ^ 28" "2 ^ 28 - 2 ^ 20 \<le> x"
    using lo assms(3) by (simp_all add: x_def)
  have "(a + c) mod 2 ^ 28 = x" using x(2) unfolding x(1) by (simp only: mod_mult_self1 mod_less)
  then show False using u x(3) by simp
qed

lemma file_valid_facts:
  assumes "file_valid f"
  shows "unat (fl_offset f) + unat (fl_sumlen f) \<le> ps_sumbytes (fl_psegment f)"
    and "fl_sumlen f = nilfs_file_info_size f"
    and "fl_off f + fl_nblocks f \<le> ps_nblocks (fl_psegment f)"
    and "fl_ndatablk f \<le> fl_nblocks f"
    and "fl_index f < fl_nfinfo f"
proof -
  let ?p = "fl_psegment f" and ?nb = "fi_nblocks (fl_mem f) (fl_finfo f)" and ?nd = "fi_ndatablk (fl_mem f) (fl_finfo f)"
  have inv: "file_inv f" and idx: "fl_index f < fl_nfinfo f" and v: "nilfs_file_is_valid f = (True, f)"
    using assms file_is_end_False [of f f] by (auto simp: file_valid_def)
  show "fl_index f < fl_nfinfo f" by (rule idx)
  have pv: "psegment_valid ?p" and sb: "fl_sumbytes f = ss_sumbytes (ps_mem ?p) (ps_segsum ?p)"
    and bo: "fl_off f \<le> ps_nblocks ?p" and bl: "ps_blocknr ?p \<le> fl_blocknr f"
    using inv by (auto simp: file_inv_def Let_def)
  have facts: "\<not> ucast (fl_offset f) + fl_sumlen f > (ucast (fl_sumbytes f) :: u64)"
    "\<not> ucast (fl_blocknr f - ps_blocknr ?p) + ?nb > ss_nblocks (ps_mem ?p) (ps_segsum ?p)"
    "\<not> ?nd > ?nb"
    using v by (auto simp: nilfs_file_is_valid_def Let_def split: if_splits)
  have l50: "unat (fl_sumlen f) \<le> 2 ^ 52"
  proof (cases "unat (fl_offset f) + 24 \<le> ps_sumbytes ?p")
    case True
    have "unat (fl_node_len f) \<le> 2 ^ 50"
      unfolding fl_node_len_def using binfo_total_size_le [OF file_blk [OF inv]] fl_bisize by blast
    then show ?thesis
      using True inv unat_file_info_size [OF inv] by (simp add: file_inv_def Let_def)
  qed (use inv in \<open>simp add: file_inv_def Let_def\<close>)
  have "unat (ucast (fl_offset f) + fl_sumlen f) = unat (fl_offset f) + unat (fl_sumlen f)"
    using l50 unat_lt_u32 [of "fl_offset f"] by (subst unat_add_u64) simp_all
  then show le: "unat (fl_offset f) + unat (fl_sumlen f) \<le> ps_sumbytes ?p"
    using facts(1) sb by (simp add: word_less_nat_alt not_less ps_sumbytes_def)
  show info: "fl_sumlen f = nilfs_file_info_size f"
  proof (rule ccontr)
    assume "fl_sumlen f \<noteq> nilfs_file_info_size f"
    then have "fl_sumlen f = 24" "\<not> unat (fl_offset f) + 24 \<le> ps_sumbytes ?p"
      using inv by (auto simp: file_inv_def Let_def split: if_splits)
    then show False using le by simp
  qed
  show nd: "fl_ndatablk f \<le> fl_nblocks f"
    using facts(3) by (simp add: word_less_nat_alt not_less fl_ndatablk_def fl_nblocks_def)
  have b30: "ps_sumbytes ?p < 2 ^ 30" using ps_sumbytes_le [OF pv] by simp
  have parts: "unat (fl_data_len f) \<le> 2 ^ 30" "unat (fl_node_len f) \<le> 2 ^ 30"
    using le unat_file_info_size [OF inv] b30 by (simp_all add: info)
  have un: "unat (?nb - ?nd) = fl_nblocks f - fl_ndatablk f"
    using nd by (simp add: unat_sub word_le_nat_alt fl_ndatablk_def fl_nblocks_def)
  have d: "unat (fl_dsize f) * fl_ndatablk f mod 2 ^ 32 \<le> 2 ^ 30"
    using parts(1) binfo_total_size_ge [OF file_blk [OF inv] fl_bisize(1)]
    unfolding fl_data_len_def fl_ndatablk_def by (rule le_trans [rotated])
  have n: "unat (fl_nsize f) * (fl_nblocks f - fl_ndatablk f) mod 2 ^ 32 \<le> 2 ^ 30"
    using parts(2) binfo_total_size_ge [OF file_blk [OF inv] fl_bisize(2)]
    unfolding fl_node_len_def un [symmetric] by (rule le_trans [rotated])
  have e: "fl_off f \<le> 2 ^ 20" using bo ps_nblocks_le [OF pv] by simp
  have lt: "fl_nblocks f < 2 ^ 32" by (simp only: fl_nblocks_def unat_lt_u32)
  have nw: "fl_off f + fl_nblocks f < 2 ^ 32"
    using fl_sizes [of f]
  proof
    assume *: "unat (fl_dsize f) = 8 \<and> unat (fl_nsize f) = 16"
    then show ?thesis
      using counts_no_wrap [of "fl_nblocks f - fl_ndatablk f" "fl_ndatablk f" "fl_off f"] d n e lt nd by simp
  next
    assume *: "unat (fl_dsize f) = 16 \<and> unat (fl_nsize f) = 8"
    then show ?thesis
      using counts_no_wrap [of "fl_ndatablk f" "fl_nblocks f - fl_ndatablk f" "fl_off f"] d n e lt nd by simp
  qed
  have "unat (fl_blocknr f - ps_blocknr ?p) = fl_off f" using bl by (simp add: fl_off_def unat_sub)
  then have "unat (ucast (fl_blocknr f - ps_blocknr ?p) :: u32) = fl_off f"
    using e by (simp add: unsigned_ucast_eq take_bit_nat_eq_self)
  then have "unat (ucast (fl_blocknr f - ps_blocknr ?p) + ?nb) = fl_off f + fl_nblocks f"
    using nw by (simp add: unat_word_ariths fl_nblocks_def)
  then show "fl_off f + fl_nblocks f \<le> ps_nblocks ?p"
    using facts(2) by (simp add: word_less_nat_alt not_less ps_nblocks_def)
qed

lemma adjust_finfo:
  assumes "blk w k" "unat (fl_offset f) \<le> 2 ^ 30"
    and "g = nilfs_file_adjust_finfo_position f w"
  shows "\<exists>d < 24. unat (fl_offset g) = unat (fl_offset f) + d \<and> fl_finfo g = fl_finfo f + d"
proof -
  let ?r = "w - (fl_offset f AND (w - 1))"
  show ?thesis
  proof (cases "24 > unat ?r")
    case True
    then have "unat (fl_offset f + ?r) = unat (fl_offset f) + unat ?r"
      using assms(2) by (simp add: unat_word_ariths)
    then show ?thesis
      using True assms(3) by (intro exI [of _ "unat ?r"])
        (simp add: nilfs_file_adjust_finfo_position_def Let_def sizeof_finfo_def)
  next
    case False
    then show ?thesis
      using assms(3) by (intro exI [of _ 0])
        (simp add: nilfs_file_adjust_finfo_position_def Let_def sizeof_finfo_def)
  qed
qed

lemma file_info_size_cong [simp]:
  "nilfs_file_info_size (f\<lparr>fl_sumlen := x\<rparr>) = nilfs_file_info_size f"
  "nilfs_file_info_size (f\<lparr>fl_index := i\<rparr>) = nilfs_file_info_size f"
  by (simp_all add: nilfs_file_info_size_def fl_mem_def)

lemma init_from_finfo_inv:
  assumes "psegment_valid (fl_psegment f)"
    and "fl_sumbytes f = ss_sumbytes (ps_mem (fl_psegment f)) (ps_segsum (fl_psegment f))"
    and "fl_finfo f = ps_segsum (fl_psegment f) + unat (fl_offset f)" "unat (fl_offset f) \<le> 2 ^ 30 + 24"
    and "ps_blocknr (fl_psegment f) \<le> fl_blocknr f" "fl_off f \<le> ps_nblocks (fl_psegment f)"
  shows "file_inv (nilfs_file_init_from_finfo f)"
  using assms
  by (simp add: file_inv_def Let_def fl_off_def ps_sumbytes_def nilfs_file_init_from_finfo_def sizeof_finfo_def)

lemma psegment_blocknr_bound:
  assumes "psegment_valid p" shows "unat (ps_blocknr p) + ps_nblocks p \<le> 2 ^ 63"
proof -
  have "psegment_inv p" using assms by (simp add: psegment_valid_def)
  then show ?thesis
    using ps_nblocks_le [OF assms] ps_blocknr_eq [of p] by (simp add: psegment_inv_def segment_wf_def)
qed

lemma file_init_inv:
  assumes v: "psegment_valid p"
  shows "file_inv (nilfs_file_init flag p)" "fl_psegment (nilfs_file_init flag p) = p"
    "unat (ss_bytes (ps_mem p) (ps_segsum p)) \<le> unat (fl_offset (nilfs_file_init flag p))"
proof -
  let ?sb = "ss_sumbytes (ps_mem p) (ps_segsum p)" and ?h = "ss_bytes (ps_mem p) (ps_segsum p)"
  let ?k = "unat (ps_blkbits p)" and ?w = "ps_blksize p"
  define f where "f = \<lparr>fl_psegment = p, fl_finfo = ps_segsum p + unat ?h,
      fl_blocknr = ps_blocknr p + ucast (drop_bit ?k (?sb + ?w - 1)), fl_offset = ucast ?h, fl_index = 0,
      fl_nfinfo = ss_nfinfo (ps_mem p) (ps_segsum p), fl_sumbytes = ?sb, fl_sumlen = 0,
      fl_error = NILFS_FILE_SUCCESS, fl_use_real_blocknr = flag\<rparr>"
  define g where "g = nilfs_file_adjust_finfo_position f ?w"
  have init: "nilfs_file_init flag p = nilfs_file_init_from_finfo g"
    by (simp add: nilfs_file_init_def Let_def g_def f_def)
  have b: "blk ?w ?k" using v by (auto simp: psegment_valid_def intro: psegment_blk)
  have sb: "unat ?sb < 2 ^ 30" using ps_sumbytes_le [OF v] by (simp add: ps_sumbytes_def)
  have h: "unat (ucast ?h :: u32) = unat ?h"
    using unsigned_less [of ?h, where ?'a = nat] by (simp add: unsigned_ucast_eq take_bit_nat_eq_self)
  have h30: "unat (fl_offset f) \<le> 2 ^ 30"
    using psegment_valid_bounds(3) [OF v] sb h by (simp add: f_def)
  obtain d where d: "d < 24" "unat (fl_offset g) = unat (fl_offset f) + d" "fl_finfo g = fl_finfo f + d"
    using adjust_finfo [OF b h30 g_def] by blast
  have w: "unat ?w \<le> 65536" "1024 \<le> unat ?w" "unat ?w = 2 ^ ?k" using blk_bounds [OF b] unat_blk [OF b] by auto
  have s: "unat (?sb + ?w - 1) = unat ?sb + unat ?w - 1"
  proof -
    have "unat (?sb + ?w) = unat ?sb + unat ?w" using sb w by (simp add: unat_word_ariths)
    then show ?thesis using w by (subst unat_sub) (simp_all add: word_le_nat_alt)
  qed
  obtain n where n: "ps_nblocks p = Suc n"
    using psegment_valid_bounds(5) [OF v] by (metis ps_nblocks_def gr0_conv_Suc)
  have "unat ?sb \<le> n * unat ?w" using psegment_valid_bounds(4) [OF v] n by (simp add: ps_nblocks_def)
  then have "unat ?sb + unat ?w - 1 < ps_nblocks p * unat ?w" using w(2) unfolding n mult_Suc by linarith
  then have q: "unat (drop_bit ?k (?sb + ?w - 1)) < ps_nblocks p"
    using w by (simp only: unat_drop_bit_div s) (simp add: div_less_iff_less_mult)
  have bn: "unat (fl_blocknr f) = unat (ps_blocknr p) + unat (drop_bit ?k (?sb + ?w - 1))"
    using q psegment_blocknr_bound [OF v] unfolding f_def by (subst nilfs_file.simps, subst unat_add_u64) simp_all
  have psf: "fl_psegment f = p" by (simp add: f_def)
  show "unat ?h \<le> unat (fl_offset (nilfs_file_init flag p))" using d h by (simp add: init f_def)
  show ps: "fl_psegment (nilfs_file_init flag p) = p" by (simp add: init g_def f_def)
  show "file_inv (nilfs_file_init flag p)"
    unfolding init
  proof (rule init_from_finfo_inv)
    show "unat (fl_offset g) \<le> 2 ^ 30 + 24" using d h30 by simp
    show "fl_finfo g = ps_segsum (fl_psegment g) + unat (fl_offset g)" using d h by (simp add: g_def f_def)
    show "ps_blocknr (fl_psegment g) \<le> fl_blocknr g" using bn by (simp add: g_def psf word_le_nat_alt)
    show "fl_off g \<le> ps_nblocks (fl_psegment g)" using bn q by (simp add: fl_off_def g_def psf)
  qed (simp_all add: v g_def f_def)
qed

lemma file_next_inv:
  assumes v: "file_valid f"
  shows "file_inv (nilfs_file_next f)" "fl_psegment (nilfs_file_next f) = fl_psegment f"
    "fl_off (nilfs_file_next f) = fl_off f + fl_nblocks f"
    "unat (fl_offset f) + unat (fl_sumlen f) \<le> unat (fl_offset (nilfs_file_next f))"
proof -
  have inv: "file_inv f" using v by (simp add: file_valid_def)
  let ?p = "fl_psegment f" and ?w = "ps_blksize (fl_psegment f)"
  have pv: "psegment_valid ?p" and fi: "fl_finfo f = ps_segsum ?p + unat (fl_offset f)"
    and sbe: "fl_sumbytes f = ss_sumbytes (ps_mem ?p) (ps_segsum ?p)" and bl: "ps_blocknr ?p \<le> fl_blocknr f"
    using inv by (auto simp: file_inv_def Let_def)
  define g where "g = f\<lparr>fl_blocknr := fl_blocknr f + ucast (fi_nblocks (fl_mem f) (fl_finfo f)),
      fl_offset := fl_offset f + ucast (fl_sumlen f), fl_finfo := fl_finfo f + unat (fl_sumlen f)\<rparr>"
  define h where "h = nilfs_file_adjust_finfo_position g ?w"
  have nx: "nilfs_file_next f = (nilfs_file_init_from_finfo h)\<lparr>fl_index := fl_index f + 1\<rparr>"
    by (simp add: nilfs_file_next_def Let_def g_def h_def)
  note fv = file_valid_facts [OF v]
  have sb: "ps_sumbytes ?p < 2 ^ 30" using ps_sumbytes_le [OF pv] by simp
  have sl: "unat (ucast (fl_sumlen f) :: u32) = unat (fl_sumlen f)"
    using fv(1) sb by (simp add: unsigned_ucast_eq take_bit_nat_eq_self)
  have off: "unat (fl_offset g) = unat (fl_offset f) + unat (fl_sumlen f)"
    using fv(1) sb sl by (simp add: g_def unat_word_ariths)
  then have o30: "unat (fl_offset g) \<le> 2 ^ 30" using fv(1) sb by simp
  obtain d where d: "d < 24" "unat (fl_offset h) = unat (fl_offset g) + d" "fl_finfo h = fl_finfo g + d"
    using adjust_finfo [OF file_blk [OF inv] o30 h_def] by blast
  have le: "unat (ps_blocknr ?p) \<le> unat (fl_blocknr f)" using bl by (simp add: word_le_nat_alt)
  have bn: "unat (fl_blocknr g) = unat (fl_blocknr f) + fl_nblocks f"
  proof -
    have "unat (fl_blocknr f) + fl_nblocks f \<le> 2 ^ 63"
      using fv(3) le psegment_blocknr_bound [OF pv] by (simp add: fl_off_def)
    then show ?thesis unfolding g_def fl_nblocks_def by (simp add: unat_add_u64)
  qed
  have psh: "fl_psegment h = ?p" "fl_blocknr h = fl_blocknr g" "fl_sumbytes h = fl_sumbytes f"
    by (simp_all add: h_def g_def)
  have oh: "fl_off h = fl_off f + fl_nblocks f" using bn le by (simp add: fl_off_def psh)
  have ih: "file_inv (nilfs_file_init_from_finfo h)"
  proof (rule init_from_finfo_inv)
    show "unat (fl_offset h) \<le> 2 ^ 30 + 24" using d o30 by simp
    show "fl_finfo h = ps_segsum (fl_psegment h) + unat (fl_offset h)"
      using d off fi by (simp add: psh g_def)
    show "ps_blocknr (fl_psegment h) \<le> fl_blocknr h" using bn le by (simp add: psh word_le_nat_alt)
    show "fl_off h \<le> ps_nblocks (fl_psegment h)" using oh fv(3) by (simp add: psh)
  qed (simp_all add: pv psh sbe)
  have upd: "file_inv (x\<lparr>fl_index := i\<rparr>) = file_inv x" for x i
    by (simp add: file_inv_def fl_off_def Let_def)
  show "file_inv (nilfs_file_next f)" using ih by (simp add: nx upd)
  show "fl_psegment (nilfs_file_next f) = ?p" by (simp add: nx psh)
  show "fl_off (nilfs_file_next f) = fl_off f + fl_nblocks f"
    using oh by (simp add: nx fl_off_def psh)
  show "unat (fl_offset f) + unat (fl_sumlen f) \<le> unat (fl_offset (nilfs_file_next f))"
    using d off by (simp add: nx)
qed

lemma file_is_end_cases:
  obtains e where "nilfs_file_is_end f = (True, e)" | "nilfs_file_is_end f = (False, f)"
  using file_is_end_False [of f] by (cases "nilfs_file_is_end f"; cases "fst (nilfs_file_is_end f)") auto

lemma file_iter_ok:
  assumes "file_inv f"
  shows "(\<forall>g \<in> set (fst (nilfs_file_iter f)). file_valid g \<and> fl_psegment g = fl_psegment f
      \<and> fl_off f \<le> fl_off g \<and> unat (fl_offset f) \<le> unat (fl_offset g))
    \<and> sorted_wrt (\<lambda>g h. fl_off g + fl_nblocks g \<le> fl_off h) (fst (nilfs_file_iter f))"
  using assms
proof (induction f rule: nilfs_file_iter.induct)
  case (1 f)
  show ?case
  proof (cases rule: file_is_end_cases [of f])
    case (1 e)
    then show ?thesis by (simp add: nilfs_file_iter.simps [of f])
  next
    case 2
    then have v: "file_valid f" using "1.prems" by (simp add: file_valid_def)
    have it: "fst (nilfs_file_iter f) = f # fst (nilfs_file_iter (nilfs_file_next f))"
      using 2 by (simp add: nilfs_file_iter.simps [of f] split: prod.splits)
    show ?thesis using "1.IH" [OF 2 [symmetric]] 2 file_next_inv [OF v] v by (fastforce simp: it)
  qed
qed

subsection \<open>Blocks\<close>

text \<open>
  \<open>fl_end f i\<close> is the offset behind the \<open>i\<close>-th binfo of a file by the closed form;
  \<open>block_at f i b\<close> describes the iterator in front of that binfo.
\<close>

definition fl_blksize :: "nilfs_file \<Rightarrow> nat" where
  "fl_blksize f = unat (ps_blksize (fl_psegment f))"

definition fl_end :: "nilfs_file \<Rightarrow> nat \<Rightarrow> nat" where
  "fl_end f i =
     (let off = unat (fl_offset f) + 24; d = unat (fl_dsize f); nd = fl_ndatablk f; B = fl_blksize f
      in if i \<le> nd then off + binfo_total B off d i
         else off + binfo_total B off d nd
              + binfo_total B (off + binfo_total B off d nd) (unat (fl_nsize f)) (i - nd))"

definition fl_bsize :: "nilfs_file \<Rightarrow> nat \<Rightarrow> nat" where
  "fl_bsize f i = (if i < fl_ndatablk f then unat (fl_dsize f) else unat (fl_nsize f))"

lemma fl_end_Suc:
  assumes "file_inv f"
  shows "fl_end f (Suc i) = binfo_pos (fl_blksize f) (fl_end f i) (fl_bsize f i) + fl_bsize f i"
proof -
  obtain c where c: "unat (ps_blksize (fl_psegment f)) = c * unat (fl_dsize f)" "1 < c" "0 < unat (fl_dsize f)"
    using blk_div [OF file_blk [OF assms] fl_bisize(1)] by blast
  obtain e where e: "unat (ps_blksize (fl_psegment f)) = e * unat (fl_nsize f)" "1 < e" "0 < unat (fl_nsize f)"
    using blk_div [OF file_blk [OF assms] fl_bisize(2)] by blast
  note S = binfo_total_Suc [OF c(3) c(1) c(2)] binfo_total_Suc [OF e(3) e(1) e(2)]
  consider "i < fl_ndatablk f" | "i = fl_ndatablk f" | "fl_ndatablk f < i" by linarith
  then show ?thesis
  proof cases
    case 1
    then show ?thesis using S(1) by (simp add: fl_end_def fl_bsize_def fl_blksize_def Let_def)
  next
    case 2
    then show ?thesis
      using S(2) [of _ 0] by (simp add: fl_end_def fl_bsize_def fl_blksize_def Let_def)
  next
    case 3
    then show ?thesis
      using S(2) [of _ "i - fl_ndatablk f"]
      by (simp add: fl_end_def fl_bsize_def fl_blksize_def Let_def Suc_diff_le)
  qed
qed

lemma fl_end_mono:
  assumes "file_inv f" "i \<le> j" shows "fl_end f i \<le> fl_end f j"
  using assms(2)
proof (induction rule: dec_induct)
  case (step n)
  then show ?case using fl_end_Suc [OF assms(1), of n] by (simp add: binfo_pos_def split: if_splits)
qed simp

lemma fl_end_total:
  assumes v: "file_valid f"
  shows "fl_end f (fl_nblocks f) = unat (fl_offset f) + unat (fl_sumlen f)"
proof -
  have inv: "file_inv f" using v by (simp add: file_valid_def)
  note fv = file_valid_facts [OF v] and b = file_blk [OF inv]
  have pv: "psegment_valid (fl_psegment f)" using inv by (simp add: file_inv_def Let_def)
  have nb: "fl_nblocks f \<le> 2 ^ 20" using fv(3) ps_nblocks_le [OF pv] by simp
  have un: "unat (fi_nblocks (fl_mem f) (fl_finfo f) - fi_ndatablk (fl_mem f) (fl_finfo f)) = fl_nblocks f - fl_ndatablk f"
    using fv(4) by (simp add: unat_sub word_le_nat_alt fl_ndatablk_def fl_nblocks_def)
  have off: "unat (fl_offset f) \<le> 2 ^ 30 + 24" using inv by (simp add: file_inv_def Let_def)
  have o: "unat (ucast (fl_offset f) + 24 :: u64) = unat (fl_offset f) + 24"
    using off by (simp add: unat_word_ariths)
  let ?B = "fl_blksize f" and ?o = "unat (fl_offset f) + 24"
  have d: "unat (fl_data_len f) = binfo_total ?B ?o (unat (fl_dsize f)) (fl_ndatablk f)"
    unfolding fl_data_len_def fl_blksize_def fl_ndatablk_def o [symmetric]
    using fl_sizes [of f] nb fv(4)
    by (intro binfo_total_size_exact [OF b fl_bisize(1)]) (auto simp: fl_ndatablk_def fl_nblocks_def)
  have "unat (ucast (fl_offset f) + 24 + fl_data_len f) = ?o + unat (fl_data_len f)"
    using o off unat_file_info_size(2) [OF inv] by (subst unat_add_u64) simp_all
  then have n: "unat (fl_node_len f) =
      binfo_total ?B (?o + unat (fl_data_len f)) (unat (fl_nsize f)) (fl_nblocks f - fl_ndatablk f)"
    unfolding fl_node_len_def fl_blksize_def un [symmetric]
    using binfo_total_size_exact [OF b fl_bisize(2)] fl_sizes [of f] nb un by auto
  show ?thesis
    using d n fv(2,4) unat_file_info_size(1) [OF inv] by (auto simp: fl_end_def Let_def)
qed

definition block_at :: "nilfs_file \<Rightarrow> nat \<Rightarrow> nilfs_block \<Rightarrow> bool" where
  "block_at f i b \<longleftrightarrow> bk_file b = f \<and> unat (bk_index b) = i
     \<and> unat (bk_nbinfo b) = fl_nblocks f \<and> unat (bk_nbinfo_data b) = fl_ndatablk f
     \<and> bk_dsize b = fl_dsize f \<and> bk_nsize b = fl_nsize f
     \<and> unat (bk_blocknr b) = unat (fl_blocknr f) + i
     \<and> unat (bk_offset b) = binfo_pos (fl_blksize f) (fl_end f i) (fl_bsize f i)
     \<and> bk_binfo b = ps_segsum (fl_psegment f) + unat (bk_offset b)"

lemma adjust_binfo:
  assumes "blk w k" "unat (bk_offset b) \<le> 2 ^ 30 + 2 ^ 10"
  shows "unat (bk_offset (nilfs_block_adjust_binfo_position b w)) =
      binfo_pos (unat w) (unat (bk_offset b)) (unat (binfosize b))"
    and "bk_binfo (nilfs_block_adjust_binfo_position b w) + unat (bk_offset b) =
      bk_binfo b + unat (bk_offset (nilfs_block_adjust_binfo_position b w))"
proof -
  let ?r = "w - (bk_offset b AND (w - 1))"
  have r: "unat ?r = unat w - unat (bk_offset b) mod unat w" by (rule unat_rest32 [OF assms(1)])
  have "unat ?r \<le> 65536" using r blk_bounds [OF assms(1)] by linarith
  then have s: "unat (bk_offset b + ?r) = unat (bk_offset b) + unat ?r"
    using assms(2) by (simp add: unat_word_ariths)
  show "unat (bk_offset (nilfs_block_adjust_binfo_position b w)) =
      binfo_pos (unat w) (unat (bk_offset b)) (unat (binfosize b))"
    using s r by (simp add: nilfs_block_adjust_binfo_position_def Let_def binfo_pos_def word_less_nat_alt)
  show "bk_binfo (nilfs_block_adjust_binfo_position b w) + unat (bk_offset b) =
      bk_binfo b + unat (bk_offset (nilfs_block_adjust_binfo_position b w))"
    using s by (simp add: nilfs_block_adjust_binfo_position_def Let_def)
qed

lemma block_init_at:
  assumes v: "file_valid f" shows "block_at f 0 (nilfs_block_init f)"
proof -
  have inv: "file_inv f" using v by (simp add: file_valid_def)
  define b where "b = \<lparr>bk_file = f, bk_binfo = fl_finfo f + sizeof_finfo, bk_blocknr = fl_blocknr f,
        bk_offset = fl_offset f + of_nat sizeof_finfo, bk_index = 0,
        bk_nbinfo = fi_nblocks (fl_mem f) (fl_finfo f),
        bk_nbinfo_data = fi_ndatablk (fl_mem f) (fl_finfo f),
        bk_dsize = fl_dsize f, bk_nsize = fl_nsize f\<rparr>"
  have i: "nilfs_block_init f = nilfs_block_adjust_binfo_position b (ps_blksize (fl_psegment f))"
    by (simp add: nilfs_block_init_def b_def fl_dsize_def fl_nsize_def)
  have off: "unat (fl_offset f) \<le> 2 ^ 30 + 24" and fi: "fl_finfo f = ps_segsum (fl_psegment f) + unat (fl_offset f)"
    using inv by (auto simp: file_inv_def Let_def)
  have o: "unat (bk_offset b) = unat (fl_offset f) + 24"
    using off by (simp add: b_def sizeof_finfo_def unat_word_ariths)
  then have "unat (bk_offset b) \<le> 2 ^ 30 + 2 ^ 10" using off by simp
  note a = adjust_binfo [OF file_blk [OF inv] this]
  have sz: "unat (binfosize b) = fl_bsize f 0"
    by (simp add: binfosize_def b_def fl_bsize_def nilfs_block_is_data_def fl_ndatablk_def word_less_nat_alt)
  have e: "fl_end f 0 = unat (bk_offset b)" by (simp add: fl_end_def Let_def o)
  have bi: "bk_binfo b = ps_segsum (fl_psegment f) + unat (bk_offset b)"
    using o fi by (simp add: b_def sizeof_finfo_def)
  show ?thesis
    using a sz bi unfolding block_at_def i e fl_blksize_def
    by (simp_all add: b_def fl_nblocks_def fl_ndatablk_def)
qed

lemma block_at_size:
  assumes "block_at f i b" shows "unat (binfosize b) = fl_bsize f i"
  using assms by (simp add: block_at_def binfosize_def fl_bsize_def nilfs_block_is_data_def word_less_nat_alt)

lemma block_at_end:
  assumes "file_inv f" "block_at f i b"
  shows "unat (bk_offset b) + unat (binfosize b) = fl_end f (Suc i)"
  using fl_end_Suc [OF assms(1), of i] block_at_size [OF assms(2)] assms(2) by (simp add: block_at_def)

lemma block_next_at:
  assumes v: "file_valid f" and at: "block_at f i b" and i: "i < fl_nblocks f"
  shows "block_at f (Suc i) (nilfs_block_next b)"
proof -
  have inv: "file_inv f" using v by (simp add: file_valid_def)
  have pv: "psegment_valid (fl_psegment f)" using inv by (simp add: file_inv_def Let_def)
  note fv = file_valid_facts [OF v] and be = block_at_end [OF inv at]
  have le: "fl_end f (Suc i) \<le> ps_sumbytes (fl_psegment f)"
    using fl_end_mono [OF inv, of "Suc i" "fl_nblocks f"] i fl_end_total [OF v] fv(1) by simp
  then have e30: "fl_end f (Suc i) < 2 ^ 30" using ps_sumbytes_le [OF pv] by simp
  define c where "c = b\<lparr>bk_binfo := bk_binfo b + unat (binfosize b), bk_offset := bk_offset b + binfosize b,
      bk_blocknr := bk_blocknr b + 1, bk_index := bk_index b + 1\<rparr>"
  have nx: "nilfs_block_next b = nilfs_block_adjust_binfo_position c (ps_blksize (fl_psegment f))"
    using at by (simp add: nilfs_block_next_def c_def block_at_def)
  have o: "unat (bk_offset c) = fl_end f (Suc i)"
    using be e30 by (simp add: c_def unat_word_ariths)
  then have "unat (bk_offset c) \<le> 2 ^ 30 + 2 ^ 10" using e30 by simp
  note a = adjust_binfo [OF file_blk [OF inv] this]
  have idx: "unat (bk_index b + 1) = Suc i"
    using unat_Suc_u32 [of "bk_index b" "bk_nbinfo b"] at i by (simp add: block_at_def word_less_nat_alt)
  have "unat (fl_blocknr f) = unat (ps_blocknr (fl_psegment f)) + fl_off f"
    using inv by (simp add: file_inv_def Let_def fl_off_def word_le_nat_alt)
  then have "unat (fl_blocknr f) + fl_nblocks f \<le> 2 ^ 63" using fv(3) psegment_blocknr_bound [OF pv] by simp
  then have bn: "unat (bk_blocknr b + 1) = unat (fl_blocknr f) + Suc i"
    using at i by (subst unat_add_u64) (simp_all add: block_at_def)
  have sz: "unat (binfosize c) = fl_bsize f (Suc i)"
    using at idx by (simp add: block_at_def binfosize_def fl_bsize_def nilfs_block_is_data_def word_less_nat_alt c_def)
  have bi: "bk_binfo c = ps_segsum (fl_psegment f) + unat (bk_offset c)"
    using o be at by (simp add: c_def block_at_def)
  show ?thesis
    using a sz bi at idx bn unfolding block_at_def nx o fl_blksize_def
    by (simp_all add: c_def)
qed

lemma block_iter_at:
  assumes v: "file_valid f" and "block_at f i b" "i \<le> fl_nblocks f"
  shows "length (nilfs_block_iter b) = fl_nblocks f - i
    \<and> (\<forall>j < fl_nblocks f - i. block_at f (i + j) (nilfs_block_iter b ! j))"
  using assms(2,3)
proof (induction b arbitrary: i rule: nilfs_block_iter.induct)
  case (1 b)
  have e: "nilfs_block_is_end b \<longleftrightarrow> i = fl_nblocks f"
    using "1.prems" by (auto simp: nilfs_block_is_end_def block_at_def word_le_nat_alt)
  show ?case
  proof (cases "i = fl_nblocks f")
    case True
    then show ?thesis using e by (simp add: nilfs_block_iter.simps [of b])
  next
    case False
    then have i: "i < fl_nblocks f" using "1.prems" by simp
    have it: "nilfs_block_iter b = b # nilfs_block_iter (nilfs_block_next b)"
      using e False by (simp add: nilfs_block_iter.simps [of b])
    note IH = "1.IH" [OF _ block_next_at [OF v "1.prems"(1) i]]
    show ?thesis
    proof (intro conjI allI impI)
      show "length (nilfs_block_iter b) = fl_nblocks f - i" using IH e False i by (simp add: it)
      fix j assume "j < fl_nblocks f - i"
      then show "block_at f (i + j) (nilfs_block_iter b ! j)"
        using IH e False i "1.prems"(1) by (cases j) (auto simp: it)
    qed
  qed
qed

section \<open>The whole walk\<close>

text \<open>All blocks of a segment, in the order the collector sees them.\<close>

definition segment_blocks :: "bool \<Rightarrow> nilfs_segment \<Rightarrow> u32 \<Rightarrow> nilfs_block list" where
  "segment_blocks flag sg blkcnt =
     concat (map (\<lambda>p. concat (map nilfs_block_for_each (fst (nilfs_file_for_each flag p))))
                 (fst (nilfs_psegment_for_each sg blkcnt)))"

lemma file_blocks_at:
  assumes "file_valid f"
  shows "length (nilfs_block_for_each f) = fl_nblocks f"
    and "j < fl_nblocks f \<Longrightarrow> block_at f j (nilfs_block_for_each f ! j)"
  using block_iter_at [OF assms block_init_at [OF assms]] by (auto simp: nilfs_block_for_each_def)

lemma block_in_bounds:
  assumes v: "file_valid f" and b: "b \<in> set (nilfs_block_for_each f)"
  shows "ps_segsum (fl_psegment f) + unat (fl_offset f) + 24 \<le> bk_binfo b
    \<and> bk_binfo b + unat (binfosize b) \<le> ps_segsum (fl_psegment f) + ps_sumbytes (fl_psegment f)
    \<and> unat (fl_blocknr f) \<le> unat (bk_blocknr b) \<and> unat (bk_blocknr b) < unat (fl_blocknr f) + fl_nblocks f"
proof -
  from b obtain j where j: "j < fl_nblocks f" "b = nilfs_block_for_each f ! j"
    using file_blocks_at(1) [OF v] by (metis in_set_conv_nth)
  have inv: "file_inv f" using v by (simp add: file_valid_def)
  have at: "block_at f j b" using file_blocks_at(2) [OF v j(1)] j(2) by simp
  have "fl_end f (Suc j) \<le> ps_sumbytes (fl_psegment f)"
    using fl_end_mono [OF inv, of "Suc j" "fl_nblocks f"] j(1) fl_end_total [OF v] file_valid_facts(1) [OF v] by simp
  moreover have "unat (fl_offset f) + 24 \<le> fl_end f j"
    using fl_end_mono [OF inv, of 0 j] by (simp add: fl_end_def Let_def)
  then have "unat (fl_offset f) + 24 \<le> unat (bk_offset b)"
    using at by (simp add: block_at_def binfo_pos_def split: if_splits)
  ultimately show ?thesis using at j(1) block_at_end [OF inv at] by (simp add: block_at_def)
qed

lemma sorted_file_blocks:
  assumes v: "file_valid f"
  shows "sorted_wrt (<) (map bk_blocknr (nilfs_block_for_each f))"
proof -
  have "bk_blocknr (nilfs_block_for_each f ! i) < bk_blocknr (nilfs_block_for_each f ! j)"
    if "i < j" "j < fl_nblocks f" for i j
    using file_blocks_at(2) [OF v, of i] file_blocks_at(2) [OF v, of j] that
    by (simp add: block_at_def word_less_nat_alt)
  then show ?thesis by (simp add: sorted_wrt_iff_nth_less file_blocks_at(1) [OF v])
qed

lemma sorted_concat:
  assumes "\<And>x. x \<in> set xs \<Longrightarrow> sorted_wrt R (g x)"
    and "sorted_wrt (\<lambda>x y. \<forall>a \<in> set (g x). \<forall>b \<in> set (g y). R a b) xs"
  shows "sorted_wrt R (concat (map g xs))"
  using assms
proof (induction xs)
  case (Cons x xs)
  then show ?case by (auto simp: sorted_wrt_append)
qed simp

lemma psegment_files:
  assumes "psegment_valid p"
  shows "(\<forall>f \<in> set (fst (nilfs_file_for_each flag p)). file_valid f \<and> fl_psegment f = p
      \<and> unat (ss_bytes (ps_mem p) (ps_segsum p)) \<le> unat (fl_offset f))
    \<and> sorted_wrt (\<lambda>f g. fl_off f + fl_nblocks f \<le> fl_off g) (fst (nilfs_file_for_each flag p))"
  using file_iter_ok [OF file_init_inv(1) [OF assms, of flag]] file_init_inv(2,3) [OF assms, of flag]
  by (fastforce simp: nilfs_file_for_each_def)

lemma fl_blocknr_eq: "file_inv f \<Longrightarrow> unat (fl_blocknr f) = unat (ps_blocknr (fl_psegment f)) + fl_off f"
  by (simp add: file_inv_def Let_def fl_off_def word_le_nat_alt)

lemma psegment_block_range:
  assumes "psegment_valid p" "f \<in> set (fst (nilfs_file_for_each flag p))" "b \<in> set (nilfs_block_for_each f)"
  shows "unat (ps_blocknr p) \<le> unat (bk_blocknr b) \<and> unat (bk_blocknr b) < unat (ps_blocknr p) + ps_nblocks p"
proof -
  have f: "file_valid f" "fl_psegment f = p" using psegment_files [OF assms(1)] assms(2) by blast+
  have inv: "file_inv f" using f by (simp add: file_valid_def)
  then show ?thesis
    using block_in_bounds [OF f(1) assms(3)] file_valid_facts(3) [OF f(1)] fl_blocknr_eq [OF inv] f(2) by simp
qed

lemma sorted_psegment_blocks:
  assumes "psegment_valid p"
  shows "sorted_wrt (<) (concat (map (\<lambda>f. map bk_blocknr (nilfs_block_for_each f)) (fst (nilfs_file_for_each flag p))))"
proof (rule sorted_concat)
  note pf = psegment_files [OF assms, of flag]
  then show "f \<in> set (fst (nilfs_file_for_each flag p)) \<Longrightarrow> sorted_wrt (<) (map bk_blocknr (nilfs_block_for_each f))" for f
    using sorted_file_blocks by blast
  show "sorted_wrt (\<lambda>f g. \<forall>a \<in> set (map bk_blocknr (nilfs_block_for_each f)).
      \<forall>b \<in> set (map bk_blocknr (nilfs_block_for_each g)). a < b) (fst (nilfs_file_for_each flag p))"
  proof (rule sorted_wrt_mono_rel [OF _ conjunct2 [OF pf]])
    fix f g
    assume "f \<in> set (fst (nilfs_file_for_each flag p))" "g \<in> set (fst (nilfs_file_for_each flag p))"
    then have f: "file_valid f" "fl_psegment f = p" and g: "file_valid g" "fl_psegment g = p"
      using pf by blast+
    then have i: "file_inv f" "file_inv g" by (simp_all add: file_valid_def)
    assume "fl_off f + fl_nblocks f \<le> fl_off g"
    then show "\<forall>a \<in> set (map bk_blocknr (nilfs_block_for_each f)).
      \<forall>b \<in> set (map bk_blocknr (nilfs_block_for_each g)). a < b"
      using block_in_bounds [OF f(1)] block_in_bounds [OF g(1)] fl_blocknr_eq [OF i(1)] fl_blocknr_eq [OF i(2)] f(2) g(2)
      by (fastforce simp: word_less_nat_alt)
  qed
qed

lemma segment_psegments:
  assumes "segment_wf sg"
  shows "(\<forall>p \<in> set (fst (nilfs_psegment_for_each sg n)). psegment_valid p \<and> ps_segment p = sg)
    \<and> sorted_wrt (\<lambda>p q. ps_off p + ps_nblocks p \<le> ps_off q) (fst (nilfs_psegment_for_each sg n))"
proof -
  have "ps_segment (nilfs_psegment_init sg n) = sg" by (simp add: nilfs_psegment_init_def)
  then show ?thesis
    using psegment_iter_ok [OF psegment_init_inv [OF assms, of n]]
    by (auto simp: nilfs_psegment_for_each_def ps_nblocks_def)
qed

lemma map_segment_blocks:
  "map bk_blocknr (segment_blocks flag sg n) =
     concat (map (\<lambda>p. concat (map (\<lambda>f. map bk_blocknr (nilfs_block_for_each f)) (fst (nilfs_file_for_each flag p))))
                 (fst (nilfs_psegment_for_each sg n)))"
  by (simp add: segment_blocks_def map_concat comp_def)

section \<open>Properties\<close>


text \<open>C17. The walk describes each disk block at most once: the block numbers it delivers, over
  all files of all logs of a segment, strictly increase.\<close>

theorem segment_walk_increasing:
  assumes "segment_wf sg"
  shows "sorted_wrt (<) (map bk_blocknr (segment_blocks flag sg blkcnt))"
  unfolding map_segment_blocks
proof (rule sorted_concat)
  note sp = segment_psegments [OF assms, of blkcnt]
  let ?bs = "\<lambda>p. concat (map (\<lambda>f. map bk_blocknr (nilfs_block_for_each f)) (fst (nilfs_file_for_each flag p)))"
  show "p \<in> set (fst (nilfs_psegment_for_each sg blkcnt)) \<Longrightarrow> sorted_wrt (<) (?bs p)" for p
    using sp sorted_psegment_blocks by blast
  show "sorted_wrt (\<lambda>p q. \<forall>a \<in> set (?bs p). \<forall>b \<in> set (?bs q). a < b) (fst (nilfs_psegment_for_each sg blkcnt))"
  proof (rule sorted_wrt_mono_rel [OF _ conjunct2 [OF sp]])
    fix p q
    assume "p \<in> set (fst (nilfs_psegment_for_each sg blkcnt))" "q \<in> set (fst (nilfs_psegment_for_each sg blkcnt))"
    then have v: "psegment_valid p" "psegment_valid q" "ps_segment p = sg" "ps_segment q = sg" using sp by blast+
    then have i: "psegment_inv p" "psegment_inv q" by (simp_all add: psegment_valid_def)
    assume le: "ps_off p + ps_nblocks p \<le> ps_off q"
    then have "unat (ps_blocknr p) + ps_nblocks p \<le> unat (ps_blocknr q)"
      using ps_blocknr_eq [OF i(1)] ps_blocknr_eq [OF i(2)] v by simp
    then show "\<forall>a \<in> set (?bs p). \<forall>b \<in> set (?bs q). a < b"
      using psegment_block_range [OF v(1)] psegment_block_range [OF v(2)]
      by (fastforce simp: word_less_nat_alt)
  qed
qed

text \<open>The iterator's steps over descriptors of one size, as a reference.\<close>

fun binfo_walk :: "nat \<Rightarrow> nat \<Rightarrow> nat \<Rightarrow> nat \<Rightarrow> nat" where
  "binfo_walk B off b 0 = off"
| "binfo_walk B off b (Suc n) = binfo_pos B (binfo_walk B off b n) b + b"

lemma binfo_walk_total:
  assumes "0 < b" "B = c * b" "1 < c"
  shows "binfo_walk B off b n = off + binfo_total B off b n"
  by (induction n) (simp_all add: binfo_total_Suc [OF assms])

definition demo_summary :: bytes where
  "demo_summary = [0, 0, 0, 0, 17, 70, 159, 76, 17, 250, 175, 30, 64, 0, 0, 0, 5, 0, 0, 0, 0, 0, 0, 0, 0, 0, 0, 0, 0, 0, 0, 0, 0, 0, 0, 0, 0, 0, 0, 0, 2, 0, 0, 0, 1, 0, 0, 0, 104, 0, 0, 0, 0, 0, 0, 0, 9, 0, 0, 0, 0, 0, 0, 0, 12, 0, 0, 0, 0, 0, 0, 0, 9, 0, 0, 0, 0, 0, 0, 0, 1, 0, 0, 0, 1, 0, 0, 0, 77, 0, 0, 0, 0, 0, 0, 0, 3, 0, 0, 0, 0, 0, 0, 0]"

definition demo_segment :: nilfs_segment where
  "demo_segment = \<lparr>sg_mem = demo_summary @ replicate 1944 0, sg_addr = 0, sg_segsize = 2048, sg_segnum = 1,
     sg_seqnum = 5, sg_blocknr = 8, sg_nblocks = 2, sg_blocks_per_segment = 8, sg_blkbits = 10,
     sg_seed = 7, sg_mmapped = False, sg_adjusted = False\<rparr>"

lemma demo_segment_wf: "segment_wf demo_segment"
  by (simp add: segment_wf_def demo_segment_def demo_summary_def)

lemma crc_byte_steps:
  "crc_byte c b = crc_step (crc_step (crc_step (crc_step (crc_step (crc_step (crc_step (crc_step (c XOR ucast b))))))))"
proof -
  have "(8 :: nat) = Suc (Suc (Suc (Suc (Suc (Suc (Suc (Suc 0)))))))" by simp
  then show ?thesis by (simp only: crc_byte_def funpow.simps o_apply id_apply)
qed

lemma crc_step_odd: "bit c 0 \<Longrightarrow> crc_step c = drop_bit 1 c XOR 0xedb88320"
  and crc_step_even: "\<not> bit c 0 \<Longrightarrow> crc_step c = drop_bit 1 c"
  by (simp_all add: crc_step_def)

lemma demo_crc: "crc32_serial 7 (drop 8 demo_summary) = 1285506577"
  by (simp add: demo_summary_def crc_byte_steps crc_step_odd crc_step_even)

lemmas demo_defs = demo_segment_def demo_summary_def

lemma demo_header:
  "ss_magic (sg_mem demo_segment) 0 = NILFS_SEGSUM_MAGIC" "ss_sumsum (sg_mem demo_segment) 0 = 1285506577"
  "ss_bytes (sg_mem demo_segment) 0 = 64" "ss_nblocks (sg_mem demo_segment) 0 = 2"
  "ss_nfinfo (sg_mem demo_segment) 0 = 1" "ss_sumbytes (sg_mem demo_segment) 0 = 104"
  "ss_seq (sg_mem demo_segment) 0 = 5"
  by (simp_all add: ss_magic_def ss_sumsum_def ss_bytes_def ss_nblocks_def ss_nfinfo_def ss_sumbytes_def ss_seq_def
      NILFS_SEGSUM_MAGIC_def le32_at_def le16_at_def le64_at_def rd_def demo_defs)

lemma demo_finfo:
  "fi_ino (sg_mem demo_segment) 64 = 12" "fi_cno (sg_mem demo_segment) 64 = 9"
  "fi_nblocks (sg_mem demo_segment) 64 = 1" "fi_ndatablk (sg_mem demo_segment) 64 = 1"
  "le64_at (sg_mem demo_segment) 88 = 77" "le64_at (sg_mem demo_segment) 96 = 3"
  by (simp_all add: fi_ino_def fi_cno_def fi_nblocks_def fi_ndatablk_def le32_at_def le64_at_def rd_def demo_defs)

lemma demo_fields:
  "sg_segsize demo_segment = 2048" "sg_blocknr demo_segment = 8" "sg_nblocks demo_segment = 2"
  "sg_blkbits demo_segment = 10" "sg_seed demo_segment = 7"
  by (simp_all add: demo_segment_def)

definition demo_pseg :: nilfs_psegment where
  "demo_pseg = nilfs_psegment_init demo_segment 2"

lemma demo_pseg_fields:
  "ps_segment demo_pseg = demo_segment" "ps_segsum demo_pseg = 0" "ps_blocknr demo_pseg = 8"
  "ps_blkcnt demo_pseg = 2" "ps_blkbits demo_pseg = 10" "ps_mem demo_pseg = sg_mem demo_segment"
  "ps_blksize demo_pseg = 1024"
  by (simp_all add: demo_pseg_def nilfs_psegment_init_def demo_fields ps_mem_def ps_blksize_def)

lemma demo_pseg_valid: "nilfs_psegment_is_end demo_pseg = (False, demo_pseg)"
proof -
  have "take 96 (drop 8 (sg_mem demo_segment)) = drop 8 demo_summary"
    by (simp add: demo_defs)
  then have "crc32_le 7 (take 96 (drop 8 (sg_mem demo_segment))) = 1285506577"
    by (simp add: crc32_le_serial demo_crc)
  then show ?thesis
    by (simp add: nilfs_psegment_is_end_def nilfs_psegment_is_valid_def Let_def demo_pseg_fields demo_header
        demo_fields NILFS_PSEG_MIN_BLOCKS_def word_le_nat_alt)
qed

lemma demo_psegs: "fst (nilfs_psegment_for_each demo_segment 2) = [demo_pseg]"
proof -
  have "nilfs_psegment_is_end (nilfs_psegment_next demo_pseg) = (True, nilfs_psegment_next demo_pseg)"
    by (simp add: nilfs_psegment_is_end_def nilfs_psegment_next_def Let_def demo_pseg_fields demo_header
        NILFS_PSEG_MIN_BLOCKS_def)
  then show ?thesis
    by (simp add: nilfs_psegment_for_each_def demo_pseg_def [symmetric] nilfs_psegment_iter.simps [of demo_pseg]
        demo_pseg_valid nilfs_psegment_iter.simps [of "nilfs_psegment_next demo_pseg"])
qed

definition demo_file :: nilfs_file where
  "demo_file = nilfs_file_init False demo_pseg"

lemma demo_file_eq: "demo_file = \<lparr>fl_psegment = demo_pseg, fl_finfo = 64, fl_blocknr = 9, fl_offset = 64,
    fl_index = 0, fl_nfinfo = 1, fl_sumbytes = 104, fl_sumlen = 40, fl_error = NILFS_FILE_SUCCESS,
    fl_use_real_blocknr = False\<rparr>"
  by (simp add: demo_file_def nilfs_file_init_def Let_def demo_pseg_fields demo_header
      nilfs_file_adjust_finfo_position_def nilfs_file_init_from_finfo_def sizeof_finfo_def
      nilfs_finfo_use_real_blocknr_def fl_mem_def demo_finfo NILFS_DAT_INO_def nilfs_file_info_size_def
      binfo_size_defs nilfs_binfo_total_size_def)

lemma demo_files: "fst (nilfs_file_for_each False demo_pseg) = [demo_file]"
proof -
  have v: "nilfs_file_is_end demo_file = (False, demo_file)"
    by (simp add: demo_file_eq nilfs_file_is_end_def nilfs_file_is_valid_def Let_def fl_mem_def demo_pseg_fields
        demo_finfo demo_header)
  have "nilfs_file_is_end (nilfs_file_next demo_file) = (True, nilfs_file_next demo_file)"
    by (simp add: nilfs_file_is_end_def nilfs_file_next_def Let_def demo_file_eq)
  then show ?thesis
    by (simp add: nilfs_file_for_each_def demo_file_def [symmetric] nilfs_file_iter.simps [of demo_file] v
        nilfs_file_iter.simps [of "nilfs_file_next demo_file"])
qed

definition demo_block :: nilfs_block where
  "demo_block = nilfs_block_init demo_file"

lemma demo_block_eq: "demo_block = \<lparr>bk_file = demo_file, bk_binfo = 88, bk_blocknr = 9, bk_offset = 88,
    bk_index = 0, bk_nbinfo = 1, bk_nbinfo_data = 1, bk_dsize = 16, bk_nsize = 8\<rparr>"
  by (simp add: demo_block_def nilfs_block_init_def nilfs_block_adjust_binfo_position_def Let_def demo_file_eq
      fl_mem_def demo_pseg_fields demo_finfo sizeof_finfo_def binfo_size_defs binfosize_def nilfs_block_is_data_def)

lemma demo_blocks: "nilfs_block_for_each demo_file = [demo_block]"
  by (simp add: nilfs_block_for_each_def demo_block_def [symmetric] nilfs_block_iter.simps [of demo_block]
      nilfs_block_iter.simps [of "nilfs_block_next demo_block"] nilfs_block_is_end_def)
     (simp add: demo_block_eq)



theorem segment_walk_increasing_witness:
  "segment_blocks False demo_segment 2 = [demo_block]
    \<and> sorted_wrt (<) (map bk_blocknr (segment_blocks False demo_segment 2))"
  using segment_walk_increasing [OF demo_segment_wf, of False 2]
  by (simp add: segment_blocks_def demo_psegs demo_files demo_blocks)

text \<open>C18. The closed form \<open>nilfs_binfo_total_size\<close> is the distance the block iterator
  travels over that many descriptors of one size, for every block size from 1 KiB to 64 KiB and
  as long as the byte count fits 32 bits: each step skips the rest of a block in which a
  descriptor would not fit.\<close>

theorem binfo_total_size_is_walk:
  assumes "10 \<le> k" "k \<le> 16" "b = 8 \<or> b = 16" "unat b * unat n < 2 ^ 32"
  shows "unat off + unat (nilfs_binfo_total_size off (2 ^ k) b n) = binfo_walk (2 ^ k) (unat off) (unat b) (unat n)"
proof -
  have bl: "blk (2 ^ k) k" "bisize b" using assms by (simp_all add: blk_def bisize_def)
  obtain c where c: "unat (2 ^ k :: u32) = c * unat b" "1 < c" "0 < unat b" using blk_div [OF bl] by blast
  have "unat (2 ^ k :: u32) = 2 ^ k" using assms by (intro unat_2p_u32) simp
  then show ?thesis
    using binfo_total_size_exact [OF bl assms(4)] binfo_walk_total [OF c(3,1,2)] by simp
qed

theorem binfo_total_size_is_walk_witness:
  "unat (1000 :: u64) + unat (nilfs_binfo_total_size 1000 (2 ^ 10) 16 70) = binfo_walk (2 ^ 10) (unat (1000 :: u64)) (unat (16 :: u32)) (unat (70 :: u32))"
  by (rule binfo_total_size_is_walk) simp_all

text \<open>C16. A file that passes the checks delivers exactly its \<open>fi_nblocks\<close> blocks: the
  \<open>j\<close>-th of them is the disk block \<open>j\<close> places behind the file's first one, and the
  first \<open>fi_ndatablk\<close> of them are the data blocks.\<close>

theorem file_blocks_complete:
  assumes "segment_wf sg" "p \<in> set (fst (nilfs_psegment_for_each sg blkcnt))"
    and "f \<in> set (fst (nilfs_file_for_each flag p))"
  shows "length (nilfs_block_for_each f) = unat (fi_nblocks (sg_mem sg) (fl_finfo f))
    \<and> (\<forall>j < length (nilfs_block_for_each f).
        unat (bk_blocknr (nilfs_block_for_each f ! j)) = unat (fl_blocknr f) + j
        \<and> (nilfs_block_is_data (nilfs_block_for_each f ! j) \<longleftrightarrow> j < unat (fi_ndatablk (sg_mem sg) (fl_finfo f))))"
proof -
  have p: "psegment_valid p" "ps_segment p = sg" using segment_psegments [OF assms(1)] assms(2) by blast+
  then have f: "file_valid f" "fl_mem f = sg_mem sg"
    using psegment_files [OF p(1), of flag] assms(3) by (auto simp: fl_mem_def ps_mem_def)
  then show ?thesis
    using file_blocks_at [OF f(1)]
    by (auto simp: block_at_def fl_nblocks_def fl_ndatablk_def nilfs_block_is_data_def word_less_nat_alt)
qed

theorem file_blocks_complete_witness:
  "length (nilfs_block_for_each demo_file) = unat (fi_nblocks (sg_mem demo_segment) (fl_finfo demo_file))
    \<and> nilfs_block_is_data (nilfs_block_for_each demo_file ! 0)"
  using file_blocks_complete [OF demo_segment_wf, of demo_pseg 2 demo_file False]
  by (simp add: demo_psegs demo_files demo_blocks demo_file_eq demo_finfo)

end
