(* ===== verification/Superblock.thy ===== *)
theory Superblock
  imports Segment_Iter
begin

text \<open>
  The superblock and its two copies on a device (\<open>src/lib/sb.c\<close>; layout of
  \<open>struct nilfs_super_block\<close> in \<open>src/include/linux/nilfs2_ondisk.h\<close>). A superblock
  is its 1024 bytes. The lemmas follow an update through both copies: the masked fields
  come from the caller, the checksum is renewed, everything else is kept, and a reader
  finds the update afterwards.
\<close>

section \<open>Layout\<close>

definition s_rev_level :: "bytes \<Rightarrow> u32" where "s_rev_level sb = le32_at sb 0"
definition s_minor_rev_level :: "bytes \<Rightarrow> u16" where "s_minor_rev_level sb = le16_at sb 4"
definition s_magic :: "bytes \<Rightarrow> u16" where "s_magic sb = le16_at sb 6"
definition s_bytes :: "bytes \<Rightarrow> u16" where "s_bytes sb = le16_at sb 8"
definition s_flags :: "bytes \<Rightarrow> u16" where "s_flags sb = le16_at sb 10"
definition s_crc_seed :: "bytes \<Rightarrow> u32" where "s_crc_seed sb = le32_at sb 12"
definition s_sum :: "bytes \<Rightarrow> u32" where "s_sum sb = le32_at sb 16"
definition s_log_block_size :: "bytes \<Rightarrow> u32" where "s_log_block_size sb = le32_at sb 20"
definition s_nsegments :: "bytes \<Rightarrow> u64" where "s_nsegments sb = le64_at sb 24"
definition s_dev_size :: "bytes \<Rightarrow> u64" where "s_dev_size sb = le64_at sb 32"
definition s_first_data_block :: "bytes \<Rightarrow> u64" where "s_first_data_block sb = le64_at sb 40"
definition s_blocks_per_segment :: "bytes \<Rightarrow> u32" where "s_blocks_per_segment sb = le32_at sb 48"
definition s_r_segments_percentage :: "bytes \<Rightarrow> u32" where "s_r_segments_percentage sb = le32_at sb 52"
definition s_feature_compat :: "bytes \<Rightarrow> u64" where "s_feature_compat sb = le64_at sb 256"
definition s_feature_compat_ro :: "bytes \<Rightarrow> u64" where "s_feature_compat_ro sb = le64_at sb 264"
definition s_feature_incompat :: "bytes \<Rightarrow> u64" where "s_feature_incompat sb = le64_at sb 272"

definition NILFS_SUPER_MAGIC :: u16 where "NILFS_SUPER_MAGIC = 0x3434"
definition NILFS_MAX_SB_SIZE :: nat where "NILFS_MAX_SB_SIZE = 1024"
definition NILFS_SB_OFFSET_BYTES :: u64 where "NILFS_SB_OFFSET_BYTES = 1024"
definition NILFS_SB2_OFFSET_BYTES :: "u64 \<Rightarrow> u64" where
  "NILFS_SB2_OFFSET_BYTES devsize = push_bit 12 (drop_bit 12 devsize - 1)"

definition NILFS_SB_LABEL :: u32 where "NILFS_SB_LABEL = 0x0001"
definition NILFS_SB_UUID :: u32 where "NILFS_SB_UUID = 0x0002"
definition NILFS_SB_FEATURES :: u32 where "NILFS_SB_FEATURES = 0x0004"
definition NILFS_SB_COMMIT_INTERVAL :: u32 where "NILFS_SB_COMMIT_INTERVAL = 0x4000"
definition NILFS_SB_BLOCK_MAX :: u32 where "NILFS_SB_BLOCK_MAX = 0x8000"

lemmas sb_masks = NILFS_SB_LABEL_def NILFS_SB_UUID_def NILFS_SB_FEATURES_def
  NILFS_SB_COMMIT_INTERVAL_def NILFS_SB_BLOCK_MAX_def

section \<open>Operations\<close>

definition nilfs_sb_check_sum :: "bytes \<Rightarrow> u32" where
  "nilfs_sb_check_sum sb = crc32_le (s_crc_seed sb) (take (unat (s_bytes sb)) (put_at 16 (to_le 4 0) sb))"

definition nilfs_sb_is_valid :: "bytes \<Rightarrow> bool \<Rightarrow> bool" where
  "nilfs_sb_is_valid sb check_crc \<longleftrightarrow>
     (if s_magic sb \<noteq> NILFS_SUPER_MAGIC then False
      else if unat (s_bytes sb) > NILFS_MAX_SB_SIZE then False
      else if \<not> check_crc then True
      else nilfs_sb_check_sum sb = s_sum sb)"

definition nilfs_sb2_offset_is_too_small :: "bytes \<Rightarrow> u64 \<Rightarrow> bool" where
  "nilfs_sb2_offset_is_too_small sb sb2_offset \<longleftrightarrow>
     sb2_offset < push_bit (unat (s_log_block_size sb + 10))
       (s_nsegments sb * ucast (s_blocks_per_segment sb))"

text \<open>
  One copy is read into its buffer; it counts when it was read completely and passes the
  tests. \<open>EOther 0\<close> is the \<open>errno\<close> of a short read, which leaves it as it was.
\<close>

definition sb_copy :: "(bytes \<Rightarrow> bool) \<Rightarrow> errno + bytes \<Rightarrow> bytes option \<times> bool \<times> errno" where
  "sb_copy ok r =
     (case r of Inl e \<Rightarrow> (None, False, e)
      | Inr bs \<Rightarrow> if length bs = NILFS_MAX_SB_SIZE
                  then if ok bs then (Some bs, False, EOther 0) else (None, True, EOther 0)
                  else (None, False, EOther 0))"

definition nilfs_sb_read2 ::
    "'w kernel \<Rightarrow> int \<Rightarrow> ('w, (bytes option \<times> bytes option) \<times> u64 \<times> u64) act" where
  "nilfs_sb_read2 k devfd w =
     (case k_malloc k (of_nat NILFS_MAX_SB_SIZE) w of (b0, w) \<Rightarrow>
      case k_malloc k (of_nat NILFS_MAX_SB_SIZE) w of (b1, w) \<Rightarrow>
      if b0 = None \<or> b1 = None then (Inl ENOMEM, w)
      else bindE (k_fstat k devfd) (\<lambda>st.
           bindE (case st_kind st of
                    Block \<Rightarrow> k_blkgetsize64 k devfd
                  | Regular \<Rightarrow> retE (st_size st)
                  | _ \<Rightarrow> failE EBADF) (\<lambda>devsize w.
             case k_pread k devfd (of_nat NILFS_MAX_SB_SIZE) NILFS_SB_OFFSET_BYTES w of (r0, w) \<Rightarrow>
             let (sb0, inv0, e0) = sb_copy (\<lambda>sb. nilfs_sb_is_valid sb False) r0;
                 sb2_offset = NILFS_SB2_OFFSET_BYTES devsize
             in case k_pread k devfd (of_nat NILFS_MAX_SB_SIZE) sb2_offset w of (r1, w) \<Rightarrow>
                let (sb1, inv1, e1) = sb_copy (\<lambda>sb. nilfs_sb_is_valid sb False
                      \<and> \<not> nilfs_sb2_offset_is_too_small sb sb2_offset) r1
                in if sb0 = None \<and> sb1 = None
                   then (Inl (if inv0 \<or> inv1 then EINVAL else if e1 = EOther 0 then e0 else e1), w)
                   else (Inr ((sb0, sb1), NILFS_SB_OFFSET_BYTES, sb2_offset), w))) w)"

definition nilfs_sb_read :: "'w kernel \<Rightarrow> int \<Rightarrow> ('w, bytes) act" where
  "nilfs_sb_read k devfd =
     bindE (nilfs_sb_read2 k devfd) (\<lambda>((sb0, sb1), _).
       case sb0 of Some sb \<Rightarrow> retE sb | None \<Rightarrow> retE (the sb1))"

text \<open>\<open>memcpy\<close> of a member from one superblock to another.\<close>

definition copy_member :: "nat \<Rightarrow> nat \<Rightarrow> bytes \<Rightarrow> bytes \<Rightarrow> bytes" where
  "copy_member off n src dst = put_at off (take n (drop off src)) dst"

definition sb_masked :: "u32 \<Rightarrow> bytes \<Rightarrow> bytes \<Rightarrow> bytes" where
  "sb_masked m src sb =
     (let sb = (if m AND NILFS_SB_LABEL \<noteq> 0 then copy_member 168 80 src sb else sb);
          sb = (if m AND NILFS_SB_COMMIT_INTERVAL \<noteq> 0 then copy_member 248 4 src sb else sb);
          sb = (if m AND NILFS_SB_BLOCK_MAX \<noteq> 0 then copy_member 252 4 src sb else sb);
          sb = (if m AND NILFS_SB_UUID \<noteq> 0 then copy_member 152 16 src sb else sb)
      in if m AND NILFS_SB_FEATURES \<noteq> 0
         then copy_member 272 8 src (copy_member 264 8 src (copy_member 256 8 src sb)) else sb)"

definition sb_update :: "u32 \<Rightarrow> bytes \<Rightarrow> bytes \<Rightarrow> bytes" where
  "sb_update m src sb =
     (let sb = sb_masked m src sb; crc = nilfs_sb_check_sum sb
      in put_at 16 (to_le 4 (unat crc)) sb)"

fun sb_write_copies :: "'w kernel \<Rightarrow> int \<Rightarrow> u32 \<Rightarrow> bytes \<Rightarrow> (bytes option \<times> u64) list \<Rightarrow> ('w, unit) act" where
  "sb_write_copies k devfd m src [] = retE ()"
| "sb_write_copies k devfd m src ((None, _) # cs) = sb_write_copies k devfd m src cs"
| "sb_write_copies k devfd m src ((Some sb, off) # cs) =
     bindE (k_pwrite k devfd (sb_update m src sb) off) (\<lambda>count.
       if count < of_nat NILFS_MAX_SB_SIZE then failE (EOther 0)
       else sb_write_copies k devfd m src cs)"

definition nilfs_sb_write :: "'w kernel \<Rightarrow> int \<Rightarrow> bytes option \<Rightarrow> u32 \<Rightarrow> ('w, unit) act" where
  "nilfs_sb_write k devfd sbp m =
     (if devfd < 0 then failE EAbort
      else case sbp of None \<Rightarrow> failE EINVAL
      | Some src \<Rightarrow>
          bindE (nilfs_sb_read2 k devfd) (\<lambda>((sb0, sb1), off0, off1).
            sb_write_copies k devfd m src [(sb0, off0), (sb1, off1)]))"

section \<open>Lemmas\<close>

lemma nth_put_at:
  "off + length v \<le> length bs \<Longrightarrow> put_at off v bs ! i =
     (if off \<le> i \<and> i < off + length v then v ! (i - off) else bs ! i)"
  by (auto simp: put_at_def nth_append)

lemma length_copy_member [simp]:
  "off + n \<le> length src \<Longrightarrow> off + n \<le> length dst \<Longrightarrow> length (copy_member off n src dst) = length dst"
  by (simp add: copy_member_def)

lemma nth_copy_member:
  "off + n \<le> length src \<Longrightarrow> off + n \<le> length dst \<Longrightarrow> copy_member off n src dst ! i =
     (if off \<le> i \<and> i < off + n then src ! i else dst ! i)"
  by (auto simp: copy_member_def nth_put_at)

text \<open>The bytes a mask selects.\<close>

definition sb_mask_bytes :: "u32 \<Rightarrow> nat set" where
  "sb_mask_bytes m =
     (if m AND NILFS_SB_LABEL \<noteq> 0 then {168..<248} else {})
     \<union> (if m AND NILFS_SB_COMMIT_INTERVAL \<noteq> 0 then {248..<252} else {})
     \<union> (if m AND NILFS_SB_BLOCK_MAX \<noteq> 0 then {252..<256} else {})
     \<union> (if m AND NILFS_SB_UUID \<noteq> 0 then {152..<168} else {})
     \<union> (if m AND NILFS_SB_FEATURES \<noteq> 0 then {256..<280} else {})"

lemma length_sb_masked [simp]:
  "length src = 1024 \<Longrightarrow> length sb = 1024 \<Longrightarrow> length (sb_masked m src sb) = 1024"
  by (simp add: sb_masked_def Let_def)

lemma nth_if_copy:
  "off + n \<le> length src \<Longrightarrow> off + n \<le> length dst \<Longrightarrow>
   (if c then copy_member off n src dst else dst) ! i = (if c \<and> off \<le> i \<and> i < off + n then src ! i else dst ! i)"
  by (simp add: nth_copy_member)

lemma length_if_copy [simp]:
  "off + n \<le> length src \<Longrightarrow> off + n \<le> length dst \<Longrightarrow>
   length (if c then copy_member off n src dst else dst) = length dst"
  by simp

lemma nth_sb_masked:
  assumes "length src = 1024" "length sb = 1024"
  shows "sb_masked m src sb ! i = (if i \<in> sb_mask_bytes m then src ! i else sb ! i)"
proof -
  define a where "a = (if m AND NILFS_SB_LABEL \<noteq> 0 then copy_member 168 80 src sb else sb)"
  define b where "b = (if m AND NILFS_SB_COMMIT_INTERVAL \<noteq> 0 then copy_member 248 4 src a else a)"
  define c where "c = (if m AND NILFS_SB_BLOCK_MAX \<noteq> 0 then copy_member 252 4 src b else b)"
  define d where "d = (if m AND NILFS_SB_UUID \<noteq> 0 then copy_member 152 16 src c else c)"
  have l: "length a = 1024" "length b = 1024" "length c = 1024" "length d = 1024"
    using assms unfolding a_def b_def c_def d_def by simp_all
  have sm: "sb_masked m src sb = (if m AND NILFS_SB_FEATURES \<noteq> 0
      then copy_member 272 8 src (copy_member 264 8 src (copy_member 256 8 src d)) else d)"
    by (simp only: sb_masked_def Let_def a_def b_def c_def d_def)
  have e: "sb_masked m src sb ! i =
      (if m AND NILFS_SB_FEATURES \<noteq> 0 \<and> 256 \<le> i \<and> i < 280 then src ! i else d ! i)"
    using l(4) assms unfolding sm by (auto simp: nth_copy_member)
  have "d ! i = (if m AND NILFS_SB_UUID \<noteq> 0 \<and> 152 \<le> i \<and> i < 168 then src ! i else c ! i)"
    "c ! i = (if m AND NILFS_SB_BLOCK_MAX \<noteq> 0 \<and> 252 \<le> i \<and> i < 256 then src ! i else b ! i)"
    "b ! i = (if m AND NILFS_SB_COMMIT_INTERVAL \<noteq> 0 \<and> 248 \<le> i \<and> i < 252 then src ! i else a ! i)"
    "a ! i = (if m AND NILFS_SB_LABEL \<noteq> 0 \<and> 168 \<le> i \<and> i < 248 then src ! i else sb ! i)"
    using l assms unfolding a_def b_def c_def d_def by (subst nth_if_copy; simp)+
  moreover have "i \<in> sb_mask_bytes m \<longleftrightarrow> m AND NILFS_SB_FEATURES \<noteq> 0 \<and> 256 \<le> i \<and> i < 280
      \<or> m AND NILFS_SB_UUID \<noteq> 0 \<and> 152 \<le> i \<and> i < 168 \<or> m AND NILFS_SB_BLOCK_MAX \<noteq> 0 \<and> 252 \<le> i \<and> i < 256
      \<or> m AND NILFS_SB_COMMIT_INTERVAL \<noteq> 0 \<and> 248 \<le> i \<and> i < 252
      \<or> m AND NILFS_SB_LABEL \<noteq> 0 \<and> 168 \<le> i \<and> i < 248"
    by (auto simp: sb_mask_bytes_def)
  ultimately show ?thesis unfolding e by presburger
qed

lemma length_sb_update [simp]:
  "length src = 1024 \<Longrightarrow> length sb = 1024 \<Longrightarrow> length (sb_update m src sb) = 1024"
  by (simp add: sb_update_def Let_def)

lemma nth_sb_update:
  assumes "length src = 1024" "length sb = 1024" "i < 16 \<or> 20 \<le> i"
  shows "sb_update m src sb ! i = (if i \<in> sb_mask_bytes m then src ! i else sb ! i)"
  using assms by (auto simp: sb_update_def Let_def nth_put_at nth_sb_masked)

lemma mask_bytes_ge: "i \<in> sb_mask_bytes m \<Longrightarrow> 152 \<le> i"
  by (auto simp: sb_mask_bytes_def split: if_splits)

lemma rd_cong: "length xs = length ys \<Longrightarrow> (\<And>i. off \<le> i \<Longrightarrow> i < off + n \<Longrightarrow> xs ! i = ys ! i) \<Longrightarrow> rd n xs off = rd n ys off"
  unfolding rd_def by (rule arg_cong [where f = le_nat], rule nth_equalityI) auto

lemma sb_update_rd:
  assumes "length src = 1024" "length sb = 1024" "off + n \<le> 16 \<or> 20 \<le> off" "off + n \<le> 152"
  shows "rd n (sb_update m src sb) off = rd n sb off"
proof (rule rd_cong)
  fix i assume i: "off \<le> i" "i < off + n"
  then have "i \<notin> sb_mask_bytes m" using assms(4) mask_bytes_ge [of i m] by auto
  then show "sb_update m src sb ! i = sb ! i"
    using nth_sb_update [OF assms(1,2), of i m] i assms(3) by auto
qed (use assms in simp)

lemma sb_update_fields:
  assumes "length src = 1024" "length sb = 1024"
  shows "s_magic (sb_update m src sb) = s_magic sb" "s_bytes (sb_update m src sb) = s_bytes sb"
    "s_crc_seed (sb_update m src sb) = s_crc_seed sb" "s_log_block_size (sb_update m src sb) = s_log_block_size sb"
    "s_nsegments (sb_update m src sb) = s_nsegments sb"
    "s_blocks_per_segment (sb_update m src sb) = s_blocks_per_segment sb"
  using assms
  by (simp_all add: s_magic_def s_bytes_def s_crc_seed_def s_log_block_size_def s_nsegments_def
      s_blocks_per_segment_def le16_at_def le32_at_def le64_at_def sb_update_rd)

lemma check_sum_put:
  "length sb = 1024 \<Longrightarrow> length v = 4 \<Longrightarrow> nilfs_sb_check_sum (put_at 16 v sb) = nilfs_sb_check_sum sb"
  by (simp add: nilfs_sb_check_sum_def s_crc_seed_def s_bytes_def le16_at_def le32_at_def bytes_simps)

lemma sb_update_sum:
  assumes "length src = 1024" "length sb = 1024"
  shows "nilfs_sb_check_sum (sb_update m src sb) = s_sum (sb_update m src sb)"
proof -
  let ?sb = "sb_masked m src sb"
  have l: "length ?sb = 1024" using assms by simp
  have "s_sum (sb_update m src sb) = nilfs_sb_check_sum ?sb"
    using l unat_lt_u32 [of "nilfs_sb_check_sum ?sb"]
    by (simp add: sb_update_def Let_def s_sum_def le32_at_def bytes_simps)
  then show ?thesis using l by (simp add: sb_update_def Let_def check_sum_put)
qed

lemma sb_update_valid:
  assumes "length src = 1024" "length sb = 1024" "nilfs_sb_is_valid sb False"
  shows "nilfs_sb_is_valid (sb_update m src sb) c"
  using assms sb_update_sum [OF assms(1,2)]
  by (auto simp: nilfs_sb_is_valid_def sb_update_fields split: if_splits)

lemma sb2_offset_update:
  assumes "length src = 1024" "length sb = 1024"
  shows "nilfs_sb2_offset_is_too_small (sb_update m src sb) o2 = nilfs_sb2_offset_is_too_small sb o2"
  using assms by (simp add: nilfs_sb2_offset_is_too_small_def sb_update_fields)

section \<open>A device\<close>

text \<open>
  The documented behaviour of a device or image file of \<open>dsz\<close> bytes on which no call
  fails: \<open>dev\<close> gives its content in a state of the environment, \<open>pread\<close> and
  \<open>pwrite\<close> of a range inside it are complete, and only \<open>pwrite\<close> changes it.
\<close>

definition device_laws :: "'w kernel \<Rightarrow> int \<Rightarrow> ('w \<Rightarrow> bytes) \<Rightarrow> u64 \<Rightarrow> bool" where
  "device_laws k fd dev dsz \<longleftrightarrow>
     (\<forall>w. length (dev w) = unat dsz)
     \<and> (\<forall>w n. fst (k_malloc k n w) \<noteq> None \<and> dev (snd (k_malloc k n w)) = dev w)
     \<and> (\<forall>w. (\<exists>st. fst (k_fstat k fd w) = Inr st \<and> (st_kind st = Block \<or> st_kind st = Regular \<and> st_size st = dsz))
            \<and> dev (snd (k_fstat k fd w)) = dev w)
     \<and> (\<forall>w. fst (k_blkgetsize64 k fd w) = Inr dsz \<and> dev (snd (k_blkgetsize64 k fd w)) = dev w)
     \<and> (\<forall>w n off. unat off + unat n \<le> unat dsz \<longrightarrow>
            fst (k_pread k fd n off w) = Inr (take (unat n) (drop (unat off) (dev w)))
            \<and> dev (snd (k_pread k fd n off w)) = dev w)
     \<and> (\<forall>w bs off. unat off + length bs \<le> unat dsz \<longrightarrow>
            fst (k_pwrite k fd bs off w) = Inr (of_nat (length bs))
            \<and> dev (snd (k_pwrite k fd bs off w)) = put_at (unat off) bs (dev w))"

definition dev_sb :: "bytes \<Rightarrow> nat \<Rightarrow> bytes" where
  "dev_sb d off = take 1024 (drop off d)"

definition dev_copies :: "bytes \<Rightarrow> u64 \<Rightarrow> bytes option \<times> bytes option" where
  "dev_copies d off2 =
     ((if nilfs_sb_is_valid (dev_sb d 1024) False then Some (dev_sb d 1024) else None),
      (if nilfs_sb_is_valid (dev_sb d (unat off2)) False \<and> \<not> nilfs_sb2_offset_is_too_small (dev_sb d (unat off2)) off2
       then Some (dev_sb d (unat off2)) else None))"

lemma sb2_offset_bounds:
  assumes "8192 \<le> unat dsz"
  shows "4096 \<le> unat (NILFS_SB2_OFFSET_BYTES dsz) \<and> unat (NILFS_SB2_OFFSET_BYTES dsz) + 4096 \<le> unat dsz"
proof -
  let ?q = "unat dsz div 4096"
  have q: "2 \<le> ?q" using assms by (simp add: less_eq_div_iff_mult_less_eq)
  have d: "unat (drop_bit 12 dsz) = ?q" using unat_drop_bit_div [of 12 dsz] by simp
  have d1: "unat (drop_bit 12 dsz - 1) = ?q - 1"
    using q d by (subst unat_sub) (simp_all add: word_le_nat_alt)
  have lt: "(?q - 1) * 4096 < 2 ^ 64" using unat_lt_u64 [of dsz] by (simp add: diff_mult_distrib)
  have "unat (push_bit 12 (drop_bit 12 dsz - 1)) = (?q - 1) * 4096"
  proof -
    have "unat (push_bit 12 (drop_bit 12 dsz - 1)) = unat ((drop_bit 12 dsz - 1) * 4096)"
      by (simp add: push_bit_eq_mult)
    also have "\<dots> = unat (drop_bit 12 dsz - 1) * unat (4096 :: u64) mod 2 ^ 64"
      by (simp only: unat_word_ariths) simp
    also have "\<dots> = (?q - 1) * 4096" using d1 lt by simp
    finally show ?thesis .
  qed
  then have e: "unat (NILFS_SB2_OFFSET_BYTES dsz) = (?q - 1) * 4096"
    by (simp only: NILFS_SB2_OFFSET_BYTES_def)
  have "?q * 4096 \<le> unat dsz" by simp
  then show ?thesis using q unfolding e by (simp add: diff_mult_distrib)
qed

lemma device_malloc:
  assumes "device_laws k fd dev dsz"
  shows "\<exists>a w'. k_malloc k n w = (Some a, w') \<and> dev w' = dev w"
  using assms unfolding device_laws_def by (metis prod.collapse not_None_eq)

lemma device_pread:
  assumes "device_laws k fd dev dsz" "unat off + unat n \<le> unat dsz"
  obtains w' where "k_pread k fd n off w = (Inr (take (unat n) (drop (unat off) (dev w))), w')" "dev w' = dev w"
  using assms unfolding device_laws_def by (metis prod.collapse)

lemma device_pwrite:
  assumes "device_laws k fd dev dsz" "unat off + length bs \<le> unat dsz"
  obtains w' where "k_pwrite k fd bs off w = (Inr (of_nat (length bs)), w')" "dev w' = put_at (unat off) bs (dev w)"
  using assms unfolding device_laws_def by (metis prod.collapse)

lemma device_length: "device_laws k fd dev dsz \<Longrightarrow> length (dev w) = unat dsz"
  by (simp add: device_laws_def)

lemma device_size:
  assumes "device_laws k fd dev dsz"
  obtains st w1 where "k_fstat k fd w = (Inr st, w1)" "dev w1 = dev w"
    "\<exists>w2. (case st_kind st of Block \<Rightarrow> k_blkgetsize64 k fd | Regular \<Rightarrow> retE (st_size st) | _ \<Rightarrow> failE EBADF) w1
       = (Inr dsz, w2) \<and> dev w2 = dev w"
proof -
  obtain st w1 where s: "k_fstat k fd w = (Inr st, w1)" "dev w1 = dev w"
    and kd: "st_kind st = Block \<or> st_kind st = Regular \<and> st_size st = dsz"
    using assms unfolding device_laws_def by (metis prod.collapse)
  have "fst (k_blkgetsize64 k fd w1) = Inr dsz \<and> dev (snd (k_blkgetsize64 k fd w1)) = dev w1"
    using assms by (simp add: device_laws_def)
  then have "\<exists>w2. (case st_kind st of Block \<Rightarrow> k_blkgetsize64 k fd | Regular \<Rightarrow> retE (st_size st) | _ \<Rightarrow> failE EBADF) w1
       = (Inr dsz, w2) \<and> dev w2 = dev w"
    using kd s(2) by (cases "k_blkgetsize64 k fd w1") auto
  with s that show ?thesis by blast
qed

lemma read2_device:
  assumes dl: "device_laws k fd dev dsz" and sz: "8192 \<le> unat dsz"
  defines "off2 \<equiv> NILFS_SB2_OFFSET_BYTES dsz"
  shows "\<exists>w'. dev w' = dev w \<and> nilfs_sb_read2 k fd w =
    (if dev_copies (dev w) off2 = (None, None) then (Inl EINVAL, w')
     else (Inr (dev_copies (dev w) off2, 1024, off2), w'))"
proof -
  note m = device_malloc [OF dl]
  obtain a w1 where w1: "k_malloc k 1024 w = (Some a, w1)" "dev w1 = dev w" using m by blast
  obtain b w2 where w2: "k_malloc k 1024 w1 = (Some b, w2)" "dev w2 = dev w" using m w1 by metis
  obtain st w3 w4 where w3: "k_fstat k fd w2 = (Inr st, w3)"
    and w4: "(case st_kind st of Block \<Rightarrow> k_blkgetsize64 k fd | Regular \<Rightarrow> retE (st_size st) | _ \<Rightarrow> failE EBADF) w3
       = (Inr dsz, w4)" "dev w4 = dev w"
    using device_size [OF dl, of w2] w2(2) by metis
  have b0: "unat (1024 :: u64) + unat (1024 :: u64) \<le> unat dsz" using sz by simp
  have b1: "unat off2 + unat (1024 :: u64) \<le> unat dsz" using sb2_offset_bounds [OF sz] by (simp add: off2_def)
  obtain w5 where w5: "k_pread k fd 1024 1024 w4 = (Inr (dev_sb (dev w) 1024), w5)" "dev w5 = dev w"
    using device_pread [OF dl b0, of w4] w4(2) by (auto simp: dev_sb_def)
  obtain w6 where w6: "k_pread k fd 1024 off2 w5 = (Inr (dev_sb (dev w) (unat off2)), w6)" "dev w6 = dev w"
    using device_pread [OF dl b1, of w5] w5(2) by (auto simp: dev_sb_def)
  have l: "length (dev_sb (dev w) 1024) = 1024" "length (dev_sb (dev w) (unat off2)) = 1024"
    using device_length [OF dl, of w] b0 b1 by (simp_all add: dev_sb_def)
  show ?thesis
    using w1 w2 w3 w4 w5 w6 l
    by (intro exI [of _ w6])
      (simp add: nilfs_sb_read2_def NILFS_MAX_SB_SIZE_def NILFS_SB_OFFSET_BYTES_def off2_def [symmetric]
        sb_copy_def dev_copies_def Let_def)
qed

lemma dev_sb_put:
  assumes "length sb = 1024" "off + 1024 \<le> length d"
  shows "dev_sb (put_at off sb d) off = sb"
    and "off' + 1024 \<le> off \<or> off + 1024 \<le> off' \<Longrightarrow> dev_sb (put_at off sb d) off' = dev_sb d off'"
  using assms by (auto simp: dev_sb_def take_drop_put_at_same take_drop_put_at_before take_drop_put_at_after)

definition upd_copies :: "u32 \<Rightarrow> bytes \<Rightarrow> bytes option \<times> bytes option \<Rightarrow> bytes option \<times> bytes option" where
  "upd_copies m src c = (map_option (sb_update m src) (fst c), map_option (sb_update m src) (snd c))"

lemma write_copy:
  assumes dl: "device_laws k fd dev dsz" and "length src = 1024" "length sb = 1024" "unat off + 1024 \<le> unat dsz"
  shows "\<exists>w'. sb_write_copies k fd m src ((Some sb, off) # cs) w = sb_write_copies k fd m src cs w'
    \<and> dev w' = put_at (unat off) (sb_update m src sb) (dev w)"
proof -
  have l: "length (sb_update m src sb) = 1024" using assms by simp
  with assms(4) obtain w' where w': "k_pwrite k fd (sb_update m src sb) off w = (Inr 1024, w')"
      "dev w' = put_at (unat off) (sb_update m src sb) (dev w)"
    using device_pwrite [OF dl, of off "sb_update m src sb" w] by auto
  then show ?thesis by (intro exI [of _ w']) (simp add: NILFS_MAX_SB_SIZE_def)
qed

text \<open>The whole update: both valid copies on the device are replaced by their updates.\<close>

lemma sb_write_device:
  assumes dl: "device_laws k fd dev dsz" and sz: "8192 \<le> unat dsz" and fd: "0 \<le> fd" and src: "length src = 1024"
  defines "off2 \<equiv> NILFS_SB2_OFFSET_BYTES dsz"
  assumes some: "dev_copies (dev w) off2 \<noteq> (None, None)"
  shows "\<exists>w'. nilfs_sb_write k fd (Some src) m w = (Inr (), w')
    \<and> dev_copies (dev w') off2 = upd_copies m src (dev_copies (dev w) off2)"
proof -
  let ?d = "dev w" and ?U = "sb_update m src"
  let ?s0 = "dev_sb ?d 1024" and ?s1 = "dev_sb ?d (unat off2)"
  obtain w1 where w1: "dev w1 = ?d" "nilfs_sb_read2 k fd w = (Inr (dev_copies ?d off2, 1024, off2), w1)"
    using read2_device [OF dl sz, of w] some by (auto simp: off2_def)
  have o: "4096 \<le> unat off2" "unat off2 + 4096 \<le> unat dsz" using sb2_offset_bounds [OF sz] by (auto simp: off2_def)
  have l: "length ?s0 = 1024" "length ?s1 = 1024" "length ?d = unat dsz"
    using device_length [OF dl, of w] o sz by (simp_all add: dev_sb_def)
  have b0: "unat (1024 :: u64) + 1024 \<le> unat dsz" using sz by simp
  have b1: "unat off2 + 1024 \<le> unat dsz" using o by simp
  obtain c0 c1 where c: "dev_copies ?d off2 = (c0, c1)" by (cases "dev_copies ?d off2") auto
  have c0: "c0 = None \<or> c0 = Some ?s0" and c1: "c1 = None \<or> c1 = Some ?s1"
    using c by (auto simp: dev_copies_def split: if_splits)
  define e0 where "e0 = (if c0 = None then ?d else put_at 1024 (?U ?s0) ?d)"
  define e1 where "e1 = (if c1 = None then e0 else put_at (unat off2) (?U ?s1) e0)"
  have le: "length e0 = unat dsz" using l src b0 by (simp add: e0_def)
  have wr: "nilfs_sb_write k fd (Some src) m w = sb_write_copies k fd m src [(c0, 1024), (c1, off2)] w1"
    using fd w1(2) c by (simp add: nilfs_sb_write_def)
  have "\<exists>w2. sb_write_copies k fd m src [(c0, 1024), (c1, off2)] w1 = sb_write_copies k fd m src [(c1, off2)] w2 \<and> dev w2 = e0"
    using c0 write_copy [OF dl src l(1) b0, of m "[(c1, off2)]" w1] w1(1) by (auto simp: e0_def)
  then obtain w2 where w2: "nilfs_sb_write k fd (Some src) m w = sb_write_copies k fd m src [(c1, off2)] w2" "dev w2 = e0"
    using wr by auto
  have "\<exists>w3. sb_write_copies k fd m src [(c1, off2)] w2 = (Inr (), w3) \<and> dev w3 = e1"
    using c1 write_copy [OF dl src l(2) b1, of m "[]" w2] w2(2) by (auto simp: e1_def)
  then obtain w3 where w3: "nilfs_sb_write k fd (Some src) m w = (Inr (), w3)" "dev w3 = e1" using w2(1) by auto
  have s0: "dev_sb e1 1024 = (if c0 = None then ?s0 else ?U ?s0)"
    using o l le src b1 b0 by (auto simp: e1_def e0_def dev_sb_put)
  have s1: "dev_sb e1 (unat off2) = (if c1 = None then ?s1 else ?U ?s1)"
    using o l le src b1 b0 by (auto simp: e1_def e0_def dev_sb_put)
  have "dev_copies e1 off2 = upd_copies m src (c0, c1)"
    using c s0 s1 sb_update_valid [OF src l(1)] sb_update_valid [OF src l(2)] sb2_offset_update [OF src l(2)]
    by (auto simp: dev_copies_def upd_copies_def split: if_splits)
  then show ?thesis using w3 c by auto
qed

section \<open>Properties\<close>


text \<open>The update of one superblock copy: the result has a valid checksum, so that it is accepted
  also when the checksum is verified, the bytes the mask selects are the caller's, and every
  other byte except the checksum itself is kept.\<close>

theorem sb_update_frame:
  assumes "length src = 1024" "length sb = 1024" "nilfs_sb_is_valid sb False"
  shows "nilfs_sb_is_valid (sb_update m src sb) True
    \<and> length (sb_update m src sb) = 1024
    \<and> (\<forall>i. i < 16 \<or> 20 \<le> i \<longrightarrow>
         sb_update m src sb ! i = (if i \<in> sb_mask_bytes m then src ! i else sb ! i))"
  using assms sb_update_valid [OF assms] nth_sb_update [OF assms(1,2)] by simp


subsection \<open>A concrete device\<close>

definition disk :: "u64 \<Rightarrow> bytes \<Rightarrow> bytes" where
  "disk dsz w = take (unat dsz) (w @ replicate (unat dsz) 0)"

definition disk_kernel :: "u64 \<Rightarrow> bytes kernel" where
  "disk_kernel dsz = null_kernel
     \<lparr>k_fstat := (\<lambda>fd w. (Inr \<lparr>st_kind = Regular, st_size = dsz, st_dev = 0, st_ino = 0, st_rdev = 0\<rparr>, w)),
      k_blkgetsize64 := (\<lambda>fd w. (Inr dsz, w)),
      k_pread := (\<lambda>fd n off w. (Inr (take (unat n) (drop (unat off) (disk dsz w))), w)),
      k_pwrite := (\<lambda>fd bs off w. (Inr (of_nat (length bs)), put_at (unat off) bs (disk dsz w)))\<rparr>"

lemma disk_kernel_laws: "device_laws (disk_kernel dsz) 3 (disk dsz) dsz"
proof -
  have l: "length (disk dsz w) = unat dsz" for w by (simp add: disk_def)
  have "disk dsz (put_at off bs (disk dsz w)) = put_at off bs (disk dsz w)" if "off + length bs \<le> unat dsz" for off bs w
    using that l [of w] by (simp add: disk_def [of dsz "put_at off bs (disk dsz w)"])
  then show ?thesis using l by (simp add: device_laws_def disk_kernel_def null_kernel_def)
qed

definition demo_sb :: bytes where
  "demo_sb = [0, 0, 0, 0, 0, 0, 0x34, 0x34] @ replicate 1016 0"

lemma le_nat_zeros: "le_nat (replicate n 0) = 0"
  by (induction n) simp_all

lemma demo_sb_props: "length demo_sb = 1024" "nilfs_sb_is_valid demo_sb c \<or> c"
  by (simp_all add: demo_sb_def nilfs_sb_is_valid_def s_magic_def s_bytes_def le16_at_def rd_def
      NILFS_SUPER_MAGIC_def NILFS_MAX_SB_SIZE_def le_nat_zeros)

lemma demo_sb_read: "\<exists>w1. nilfs_sb_read (disk_kernel 8192) 3 (replicate 1024 0 @ demo_sb) = (Inr demo_sb, w1)"
proof -
  let ?w = "replicate 1024 0 @ demo_sb"
  have "dev_sb (disk 8192 ?w) 1024 = demo_sb" by (simp add: dev_sb_def disk_def demo_sb_props(1))
  then obtain c where "dev_copies (disk 8192 ?w) (NILFS_SB2_OFFSET_BYTES 8192) = (Some demo_sb, c)"
    using demo_sb_props(2) [of False] by (simp add: dev_copies_def)
  then show ?thesis
    using read2_device [OF disk_kernel_laws, of 8192 ?w] by (auto simp: nilfs_sb_read_def)
qed


theorem sb_update_frame_witness:
  "nilfs_sb_is_valid (sb_update NILFS_SB_UUID (replicate 1024 1) demo_sb) True
    \<and> sb_update NILFS_SB_UUID (replicate 1024 1) demo_sb ! 152 = 1
    \<and> sb_update NILFS_SB_UUID (replicate 1024 1) demo_sb ! 6 = 0x34"
proof -
  have "152 \<in> sb_mask_bytes NILFS_SB_UUID" "6 \<notin> sb_mask_bytes NILFS_SB_UUID"
    by (simp_all add: sb_mask_bytes_def sb_masks)
  moreover have "nilfs_sb_is_valid demo_sb False" using demo_sb_props(2) [of False] by simp
  ultimately show ?thesis
    using sb_update_frame [of "replicate 1024 1" demo_sb NILFS_SB_UUID] demo_sb_props(1)
    by (auto simp: demo_sb_def)
qed

end
