(* ===== verification/Nilfs_Api.thy ===== *)
theory Nilfs_Api
  imports Superblock
begin

text \<open>
  The NILFS object and the calls on it (\<open>src/lib/nilfs.c\<close>, \<open>src/include/nilfs.h\<close>):
  layout queries, options, the cleaner lock, the ioctl wrappers and raw access to segments.
  The state of an operation is the record \<open>lib\<close>: the object and the environment. The
  lemmas show which guards precede each ioctl, that the cached minimum checkpoint number
  only grows, and that a segment obtained by \<open>nilfs_get_segment\<close> is well formed for the
  iterators of \<open>segment.c\<close>.
\<close>

record nilfs =
  n_sb :: "bytes option"
  n_dev :: "string option"
  n_ioc :: "string option"
  n_devfd :: int
  n_iocfd :: int
  n_opts :: u32
  n_mincno :: u64
  n_sems :: "nat option"

record 'w lib =
  l_nilfs :: nilfs
  l_env :: 'w

definition NILFS_CNO_MIN :: u64 where "NILFS_CNO_MIN = 1"
definition NILFS_CNO_MAX :: u64 where "NILFS_CNO_MAX = - 1"
definition NILFS_OPT_MMAP :: u32 where "NILFS_OPT_MMAP = 0"
definition NILFS_OPT_SET_SUINFO :: u32 where "NILFS_OPT_SET_SUINFO = 1"
definition NR_NILFS_OPT :: u32 where "NR_NILFS_OPT = 2"
definition NILFS_SEG_MIN_BLOCKS :: u32 where "NILFS_SEG_MIN_BLOCKS = 16"

text \<open>A call of the environment, from the library's state.\<close>

definition liftK :: "('w, 'a) act \<Rightarrow> ('w lib, 'a) act" where
  "liftK f s = (case f (l_env s) of (r, w) \<Rightarrow> (r, s\<lparr>l_env := w\<rparr>))"

definition lib_alloc :: "'w kernel \<Rightarrow> 'w lib allocator" where
  "lib_alloc k n s = (case k_malloc k n (l_env s) of (a, w) \<Rightarrow> (a \<noteq> None, s\<lparr>l_env := w\<rparr>))"

section \<open>Layout\<close>

record nilfs_layout =
  rev_level :: u32
  minor_rev_level :: u16
  layout_flags :: u16
  blocksize_bits :: u32
  blocksize :: u32
  devsize :: u64
  crc_seed :: u32
  nsegments :: u64
  blocks_per_segment :: u32
  reserved_segments_ratio :: u32
  first_segment_blkoff :: u64
  feature_compat :: u64
  feature_compat_ro :: u64
  feature_incompat :: u64

definition nilfs_get_layout :: "nilfs \<Rightarrow> u64 \<Rightarrow> errno + nilfs_layout" where
  "nilfs_get_layout n layout_size =
     (if layout_size < 0x50 then Inl EINVAL
      else case n_sb n of None \<Rightarrow> Inl EPERM
      | Some sb \<Rightarrow>
          Inr \<lparr>rev_level = s_rev_level sb, minor_rev_level = s_minor_rev_level sb, layout_flags = s_flags sb,
               blocksize_bits = s_log_block_size sb + 10,
               blocksize = ucast (push_bit (unat (s_log_block_size sb + 10)) (1 :: u64)),
               devsize = s_dev_size sb, crc_seed = s_crc_seed sb, nsegments = s_nsegments sb,
               blocks_per_segment = s_blocks_per_segment sb,
               reserved_segments_ratio = s_r_segments_percentage sb,
               first_segment_blkoff = s_first_data_block sb,
               feature_compat = s_feature_compat sb, feature_compat_ro = s_feature_compat_ro sb,
               feature_incompat = s_feature_incompat sb\<rparr>)"

text \<open>The plain queries assert that a superblock was read; \<open>None\<close> is the failed assertion.\<close>

definition nilfs_get_block_size :: "nilfs \<Rightarrow> u64 option" where
  "nilfs_get_block_size n = map_option (\<lambda>sb. push_bit (unat (s_log_block_size sb + 10)) 1) (n_sb n)"

definition nilfs_get_nsegments :: "nilfs \<Rightarrow> u64 option" where
  "nilfs_get_nsegments n = map_option s_nsegments (n_sb n)"

definition nilfs_get_blocks_per_segment :: "nilfs \<Rightarrow> u32 option" where
  "nilfs_get_blocks_per_segment n = map_option s_blocks_per_segment (n_sb n)"

definition nilfs_get_reserved_segments_ratio :: "nilfs \<Rightarrow> u32 option" where
  "nilfs_get_reserved_segments_ratio n = map_option s_r_segments_percentage (n_sb n)"

definition nilfs_get_dev :: "nilfs \<Rightarrow> string option" where "nilfs_get_dev n = n_dev n"
definition nilfs_get_root_path :: "nilfs \<Rightarrow> string option" where "nilfs_get_root_path n = n_ioc n"
definition nilfs_get_root_fd :: "nilfs \<Rightarrow> int" where "nilfs_get_root_fd n = n_iocfd n"

section \<open>Options\<close>

text \<open>
  \<open>__nilfs_opt_set_mmap\<close>. \<open>sysconf\<close> reports failure as a negative page size; the
  \<open>errno\<close> of the alignment refusal is the one it had.
\<close>

definition nilfs_opt_set_mmap_check :: "'w kernel \<Rightarrow> nilfs \<Rightarrow> errno + unit" where
  "nilfs_opt_set_mmap_check k n =
     (if k_pagesize k < 0 then Inl (EOther 0)
      else case n_sb n of None \<Rightarrow> Inl EPERM
      | Some sb \<Rightarrow>
          let segsize = ucast (s_blocks_per_segment sb) * push_bit (unat (s_log_block_size sb + 10)) (1 :: u64)
          in if segsize mod of_int (k_pagesize k) \<noteq> 0 then Inl (EOther 0) else Inr ())"

definition nilfs_opt_test :: "nilfs \<Rightarrow> u32 \<Rightarrow> bool" where
  "nilfs_opt_test n index \<longleftrightarrow> index < NR_NILFS_OPT \<and> n_opts n AND push_bit (unat index) 1 \<noteq> 0"

definition nilfs_opt_set :: "'w kernel \<Rightarrow> u32 \<Rightarrow> ('w lib, unit) act" where
  "nilfs_opt_set k index s =
     (if index \<ge> NR_NILFS_OPT then (Inl EINVAL, s)
      else case (if index = NILFS_OPT_MMAP then nilfs_opt_set_mmap_check k (l_nilfs s) else Inr ()) of
        Inl e \<Rightarrow> (Inl e, s)
      | Inr _ \<Rightarrow>
          (Inr (), s\<lparr>l_nilfs := (l_nilfs s)\<lparr>n_opts := n_opts (l_nilfs s) OR push_bit (unat index) 1\<rparr>\<rparr>))"

definition nilfs_opt_clear :: "u32 \<Rightarrow> ('w lib, unit) act" where
  "nilfs_opt_clear index s =
     (if index \<ge> NR_NILFS_OPT then (Inl EINVAL, s)
      else (Inr (), s\<lparr>l_nilfs := (l_nilfs s)\<lparr>n_opts := n_opts (l_nilfs s) AND NOT (push_bit (unat index) 1)\<rparr>\<rparr>))"

section \<open>The cleaner lock\<close>

definition nilfs_lock :: "'w kernel \<Rightarrow> u32 \<Rightarrow> ('w lib, unit) act" where
  "nilfs_lock k index s =
     (if index \<ge> 1 then (Inl EINVAL, s) else liftK (k_sem_wait k (n_sems (l_nilfs s))) s)"

definition nilfs_trylock :: "'w kernel \<Rightarrow> u32 \<Rightarrow> ('w lib, unit) act" where
  "nilfs_trylock k index s =
     (if index \<ge> 1 then (Inl EINVAL, s) else liftK (k_sem_trywait k (n_sems (l_nilfs s))) s)"

definition nilfs_unlock :: "'w kernel \<Rightarrow> u32 \<Rightarrow> ('w lib, unit) act" where
  "nilfs_unlock k index s =
     (if index \<ge> 1 then (Inl EINVAL, s) else liftK (k_sem_post k (n_sems (l_nilfs s))) s)"

section \<open>ioctl wrappers\<close>

text \<open>Every wrapper refuses to run without the descriptor of the mount point.\<close>

definition with_iocfd :: "(int \<Rightarrow> ('w, 'a) act) \<Rightarrow> ('w lib, 'a) act" where
  "with_iocfd f s =
     (if n_iocfd (l_nilfs s) < 0 then (Inl EBADF, s) else liftK (f (n_iocfd (l_nilfs s))) s)"

definition argv :: "u64 \<Rightarrow> u64 \<Rightarrow> u64 \<Rightarrow> nat \<Rightarrow> nilfs_argv" where
  "argv nmembs sz index flags =
     \<lparr>v_nmembs = ucast nmembs, v_size = ucast sz, v_flags = of_nat flags, v_index = index\<rparr>"

definition nilfs_change_cpmode :: "'w kernel \<Rightarrow> u64 \<Rightarrow> cpmode \<Rightarrow> ('w lib, unit) act" where
  "nilfs_change_cpmode k cno mode s =
     (if n_iocfd (l_nilfs s) < 0 then (Inl EBADF, s)
      else if cno < NILFS_CNO_MIN then (Inl EINVAL, s)
      else liftK (k_change_cpmode k (n_iocfd (l_nilfs s)) cno mode) s)"

fun cpmode_nat :: "cpmode \<Rightarrow> nat" where
  "cpmode_nat NILFS_CHECKPOINT = 0"
| "cpmode_nat NILFS_SNAPSHOT = 1"

definition nilfs_get_cpinfo :: "'w kernel \<Rightarrow> u64 \<Rightarrow> cpmode \<Rightarrow> u64 \<Rightarrow> ('w lib, nilfs_cpinfo list) act" where
  "nilfs_get_cpinfo k cno mode nci s =
     (let n = l_nilfs s in
      if n_iocfd n < 0 then (Inl EBADF, s)
      else if mode = NILFS_CHECKPOINT \<and> cno < NILFS_CNO_MIN then (Inl EINVAL, s)
      else let cno = (if mode = NILFS_CHECKPOINT \<and> cno < n_mincno n then n_mincno n else cno)
           in bindE (liftK (k_get_cpinfo k (n_iocfd n) (argv nci sizeof_cpinfo cno (cpmode_nat mode))))
                (\<lambda>cpinfo s.
                   if mode = NILFS_CHECKPOINT \<and> cpinfo \<noteq> [] \<and> cno = n_mincno n \<and> ci_cno (hd cpinfo) > n_mincno n
                   then (Inr cpinfo, s\<lparr>l_nilfs := (l_nilfs s)\<lparr>n_mincno := ci_cno (hd cpinfo)\<rparr>\<rparr>)
                   else (Inr cpinfo, s)) s)"

definition nilfs_delete_checkpoint :: "'w kernel \<Rightarrow> u64 \<Rightarrow> ('w lib, unit) act" where
  "nilfs_delete_checkpoint k cno = with_iocfd (\<lambda>fd. k_delete_checkpoint k fd cno)"

definition nilfs_get_cpstat :: "'w kernel \<Rightarrow> ('w lib, nilfs_cpstat) act" where
  "nilfs_get_cpstat k = with_iocfd (k_get_cpstat k)"

definition nilfs_get_suinfo :: "'w kernel \<Rightarrow> u64 \<Rightarrow> u64 \<Rightarrow> ('w lib, nilfs_suinfo list) act" where
  "nilfs_get_suinfo k segnum nsi = with_iocfd (\<lambda>fd. k_get_suinfo k fd (argv nsi sizeof_suinfo segnum 0))"

definition nilfs_set_suinfo :: "'w kernel \<Rightarrow> nilfs_suinfo_update list \<Rightarrow> u64 \<Rightarrow> ('w lib, unit) act" where
  "nilfs_set_suinfo k sups nsup = with_iocfd (\<lambda>fd. k_set_suinfo k fd (argv nsup sizeof_suinfo_update 0 0) sups)"

definition nilfs_get_sustat :: "'w kernel \<Rightarrow> ('w lib, nilfs_sustat) act" where
  "nilfs_get_sustat k = with_iocfd (k_get_sustat k)"

definition nilfs_get_vinfo :: "'w kernel \<Rightarrow> nilfs_vinfo list \<Rightarrow> u64 \<Rightarrow> ('w lib, nilfs_vinfo list) act" where
  "nilfs_get_vinfo k vinfo nvi = with_iocfd (\<lambda>fd. k_get_vinfo k fd (argv nvi sizeof_vinfo 0 0) vinfo)"

definition nilfs_get_bdescs :: "'w kernel \<Rightarrow> nilfs_bdesc list \<Rightarrow> u64 \<Rightarrow> ('w lib, nilfs_bdesc list) act" where
  "nilfs_get_bdescs k bdescs nbdescs = with_iocfd (\<lambda>fd. k_get_bdescs k fd (argv nbdescs sizeof_bdesc 0 0) bdescs)"

definition nilfs_clean_segments :: "'w kernel \<Rightarrow> nilfs_vdesc list \<Rightarrow> nilfs_period list \<Rightarrow> u64 list
    \<Rightarrow> nilfs_bdesc list \<Rightarrow> u64 list \<Rightarrow> ('w lib, unit) act" where
  "nilfs_clean_segments k vdescs periods vblocknrs bdescs segnums =
     with_iocfd (\<lambda>fd. k_clean_segments k fd
       [argv (of_nat (length vdescs)) sizeof_vdesc 0 0, argv (of_nat (length periods)) sizeof_period 0 0,
        argv (of_nat (length vblocknrs)) sizeof_u64 0 0, argv (of_nat (length bdescs)) sizeof_bdesc 0 0,
        argv (of_nat (length segnums)) sizeof_u64 0 0]
       vdescs periods vblocknrs bdescs segnums)"

definition nilfs_sync :: "'w kernel \<Rightarrow> ('w lib, u64) act" where
  "nilfs_sync k = with_iocfd (k_sync k)"

definition nilfs_resize :: "'w kernel \<Rightarrow> i64 \<Rightarrow> ('w lib, unit) act" where
  "nilfs_resize k sz = with_iocfd (\<lambda>fd. k_resize k fd sz)"

definition nilfs_set_alloc_range :: "'w kernel \<Rightarrow> i64 \<Rightarrow> i64 \<Rightarrow> ('w lib, unit) act" where
  "nilfs_set_alloc_range k start end' = with_iocfd (\<lambda>fd. k_set_alloc_range k fd start end')"

definition nilfs_freeze :: "'w kernel \<Rightarrow> ('w lib, unit) act" where
  "nilfs_freeze k = with_iocfd (k_freeze k)"

definition nilfs_thaw :: "'w kernel \<Rightarrow> ('w lib, unit) act" where
  "nilfs_thaw k = with_iocfd (k_thaw k)"

definition nilfs_get_oldest_cno :: "'w kernel \<Rightarrow> 'w lib \<Rightarrow> u64 \<times> 'w lib" where
  "nilfs_get_oldest_cno k s =
     (case nilfs_get_cpinfo k (n_mincno (l_nilfs s)) NILFS_CHECKPOINT 1 s of
        (_, s) \<Rightarrow> (n_mincno (l_nilfs s), s))"

section \<open>Raw access to segments\<close>

text \<open>\<open>roundup(x, y)\<close> of \<open>util.h\<close> on 64-bit sizes.\<close>

definition roundup64 :: "u64 \<Rightarrow> u64 \<Rightarrow> u64" where
  "roundup64 x y = (x + y - 1) div y * y"

text \<open>The place of a segment on the device: its first block and its number of blocks.\<close>

definition segment_geometry :: "bytes \<Rightarrow> u64 \<Rightarrow> errno + u64 \<times> u32" where
  "segment_geometry sb segnum =
     (let bps = s_blocks_per_segment sb in
      if bps < NILFS_SEG_MIN_BLOCKS then Inl EINVAL
      else if segnum = 0
           then if s_first_data_block sb \<ge> ucast bps then Inl EINVAL
                else Inr (s_first_data_block sb, bps - ucast (s_first_data_block sb))
           else Inr (ucast bps * segnum, bps))"

definition mk_segment :: "bytes \<Rightarrow> u64 \<Rightarrow> u64 \<Rightarrow> u32 \<Rightarrow> u64 \<Rightarrow> bytes \<Rightarrow> bool \<Rightarrow> bool \<Rightarrow> nilfs_segment" where
  "mk_segment sb segnum segblocknr nblocks addr mem mapped adjusted =
     (let blkbits = s_log_block_size sb + 10 in
      \<lparr>sg_mem = mem, sg_addr = addr, sg_segsize = push_bit (unat blkbits) (ucast nblocks), sg_segnum = segnum,
       sg_seqnum = ss_seq mem 0, sg_blocknr = segblocknr, sg_nblocks = nblocks,
       sg_blocks_per_segment = s_blocks_per_segment sb, sg_blkbits = blkbits, sg_seed = s_crc_seed sb,
       sg_mmapped = mapped, sg_adjusted = adjusted\<rparr>)"

text \<open>Reading into allocated memory; a short read leaves the rest as the allocator gave it.\<close>

definition read_segment :: "'w kernel \<Rightarrow> int \<Rightarrow> u64 \<Rightarrow> u64 \<Rightarrow> ('w, u64 \<times> bytes) act" where
  "read_segment k fd segsize segstart w =
     (case k_malloc k segsize w of
        (None, w) \<Rightarrow> (Inl ENOMEM, w)
      | (Some addr, w) \<Rightarrow>
          bindE (k_pread k fd segsize segstart)
            (\<lambda>bs. retE (addr, bs @ map (k_junk k) [length bs..<unat segsize])) w)"

definition nilfs_get_segment :: "'w kernel \<Rightarrow> u64 \<Rightarrow> ('w lib, nilfs_segment) act" where
  "nilfs_get_segment k segnum s =
     (let n = l_nilfs s; fd = n_devfd n; pagesize = of_int (k_pagesize k) :: u64 in
      case n_sb n of None \<Rightarrow> (Inl EBADF, s)
      | Some sb \<Rightarrow>
          if fd < 0 then (Inl EBADF, s)
          else if k_pagesize k \<le> 0 then (Inl EINVAL, s)
          else if segnum \<ge> s_nsegments sb then (Inl EINVAL, s)
          else case segment_geometry sb segnum of Inl e \<Rightarrow> (Inl e, s)
          | Inr (segblocknr, nblocks) \<Rightarrow>
              let blkbits = unat (s_log_block_size sb + 10);
                  segsize = push_bit blkbits (ucast nblocks) :: u64;
                  segstart = push_bit blkbits segblocknr;
                  reading = bindE (read_segment k fd segsize segstart)
                    (\<lambda>(addr, mem). retE (mk_segment sb segnum segblocknr nblocks addr mem False False));
                  page_offset = segstart mod pagesize;
                  alloc_size = roundup64 (segsize + page_offset) pagesize
              in if nilfs_opt_test n NILFS_OPT_MMAP
                 then case k_mmap k alloc_size fd (segstart - page_offset) (l_env s) of
                        (Inr (addr, mem), w) \<Rightarrow>
                          (Inr (mk_segment sb segnum segblocknr nblocks addr mem True
                                  (page_offset \<noteq> 0 \<or> alloc_size \<noteq> pagesize)), s\<lparr>l_env := w\<rparr>)
                      | (Inl e, w) \<Rightarrow>
                          if e \<noteq> ENODEV then (Inl e, s\<lparr>l_env := w\<rparr>)
                          else liftK reading (s\<lparr>l_env := w\<rparr>)
                 else liftK reading s)"

definition nilfs_put_segment :: "'w kernel \<Rightarrow> nilfs_segment \<Rightarrow> ('w lib, unit) act" where
  "nilfs_put_segment k sg =
     (if sg_mmapped sg
      then let pagesize = of_int (k_pagesize k) :: u64 in
           if sg_adjusted sg
           then if k_pagesize k \<le> 0 then failE EINVAL
                else let page_offset = sg_addr sg mod pagesize;
                         sz = roundup64 (sg_segsize sg + page_offset) pagesize
                     in liftK (k_munmap k (sg_addr sg - page_offset) sz)
           else liftK (k_munmap k (sg_addr sg) (sg_segsize sg))
      else retE ())"

definition nilfs_get_segment_seqnum :: "'w kernel \<Rightarrow> u64 \<Rightarrow> ('w lib, u64) act" where
  "nilfs_get_segment_seqnum k segnum s =
     (let n = l_nilfs s in
      case n_sb n of None \<Rightarrow> (Inl EBADF, s)
      | Some sb \<Rightarrow>
          if n_devfd n < 0 then (Inl EBADF, s)
          else if segnum \<ge> s_nsegments sb then (Inl EINVAL, s)
          else let segstart = push_bit (unat (s_log_block_size sb + 10))
                     (if segnum = 0 then s_first_data_block sb else ucast (s_blocks_per_segment sb) * segnum)
               in liftK (bindE (k_pread k (n_devfd n) 8 (segstart + 16))
                    (\<lambda>bs. retE (le64_at (bs @ map (k_junk k) [length bs..<8]) 0))) s)"

section \<open>Lemmas\<close>

lemma liftK_Inr: "liftK f s = (Inr x, s') \<longleftrightarrow> (\<exists>w. f (l_env s) = (Inr x, w) \<and> s' = s\<lparr>l_env := w\<rparr>)"
  by (auto simp: liftK_def split: prod.splits)

lemma liftK_nilfs [simp]: "l_nilfs (snd (liftK f s)) = l_nilfs s"
  by (simp add: liftK_def split: prod.splits)

lemma with_iocfd_nilfs [simp]: "l_nilfs (snd (with_iocfd f s)) = l_nilfs s"
  by (simp add: with_iocfd_def)

text \<open>The wrappers that do not touch the object.\<close>

lemma iocfd_keeps_object:
  assumes "with_iocfd f s = (r, s')" shows "l_nilfs s' = l_nilfs s"
  using with_iocfd_nilfs [of f s] assms by simp

lemma roundup64_ge:
  assumes "0 < unat y" "unat x + unat y \<le> 2 ^ 63"
  shows "unat x \<le> unat (roundup64 x y)"
proof -
  let ?q = "(unat x + unat y - 1) div unat y"
  have a: "unat (x + y) = unat x + unat y" using assms by (simp add: unat_add_u64)
  then have b: "unat (x + y - 1) = unat x + unat y - 1"
    using assms by (subst unat_sub) (simp_all add: word_le_nat_alt)
  have "?q * unat y \<le> unat x + unat y - 1" by (rule div_times_less_eq_dividend)
  moreover have "unat x + unat y - 1 < 2 ^ 64" using assms by simp
  ultimately have lt: "?q * unat y < 2 ^ 64" by (rule le_less_trans)
  have q: "unat ((x + y - 1) div y) = ?q" by (simp only: unat_div b)
  have "unat (roundup64 x y) = ?q * unat y mod 2 ^ 64"
    unfolding roundup64_def unat_word_ariths(2) q by simp
  then have "unat (roundup64 x y) = ?q * unat y" using lt by simp
  moreover have "unat x + unat y - 1 < ?q * unat y + unat y"
    using dividend_less_div_times [OF assms(1), of "unat x + unat y - 1"] by simp
  ultimately show ?thesis by linarith
qed

text \<open>
  A superblock whose segments the iterators can handle: blocks of 1 KiB to 64 KiB and
  segments of at most 1 GiB below block \<open>2\<^sup>6\<^sup>3\<close>.
\<close>

definition sane_layout :: "bytes \<Rightarrow> bool" where
  "sane_layout sb \<longleftrightarrow> unat (s_log_block_size sb) \<le> 6
     \<and> unat (s_blocks_per_segment sb) * 2 ^ (unat (s_log_block_size sb) + 10) \<le> 2 ^ 30
     \<and> unat (s_blocks_per_segment sb) * unat (s_nsegments sb) \<le> 2 ^ 63"

lemma sane_blkbits:
  "sane_layout sb \<Longrightarrow> unat (s_log_block_size sb + 10) = unat (s_log_block_size sb) + 10"
  by (simp add: sane_layout_def unat_word_ariths)

lemma segment_geometry_bounds:
  assumes "sane_layout sb" "segnum < s_nsegments sb" "segment_geometry sb segnum = Inr (bn, nb)"
  shows "unat nb \<le> unat (s_blocks_per_segment sb) \<and> unat bn + unat nb \<le> 2 ^ 63 \<and> 0 < unat nb
    \<and> unat bn + unat nb = unat (s_blocks_per_segment sb) * (unat segnum + 1)"
proof (cases "segnum = 0")
  case True
  have f: "s_first_data_block sb < ucast (s_blocks_per_segment sb)"
    "bn = s_first_data_block sb" "nb = s_blocks_per_segment sb - ucast (s_first_data_block sb)"
    using assms(3) True by (auto simp: segment_geometry_def Let_def split: if_splits)
  let ?f = "s_first_data_block sb" and ?b = "s_blocks_per_segment sb"
  have lt: "unat ?f < unat ?b" using f(1) by (simp add: word_less_nat_alt)
  then have u: "unat (ucast ?f :: u32) = unat ?f"
    using unat_lt_u32 [of ?b] by (simp add: unsigned_ucast_eq take_bit_nat_eq_self)
  have "unat nb = unat ?b - unat ?f" using lt u f(3) by (simp add: unat_sub word_le_nat_alt)
  then show ?thesis using lt f(2) unat_lt_u32 [of ?b] True by simp
next
  case False
  let ?b = "s_blocks_per_segment sb"
  have f: "bn = ucast ?b * segnum" "nb = ?b" "\<not> ?b < 16"
    using assms(3) False by (auto simp: segment_geometry_def Let_def NILFS_SEG_MIN_BLOCKS_def split: if_splits)
  have "unat ?b * (unat segnum + 1) \<le> unat ?b * unat (s_nsegments sb)"
    using assms(2) by (intro mult_le_mono2) (simp add: word_less_nat_alt)
  also have "\<dots> \<le> 2 ^ 63" using assms(1) by (simp add: sane_layout_def)
  finally have le: "unat ?b * (unat segnum + 1) \<le> 2 ^ 63" .
  then have "unat bn = unat ?b * unat segnum" by (simp add: f(1) unat_word_ariths)
  then show ?thesis using le f(2,3) by (simp add: word_less_nat_alt)
qed

lemma mk_segment_wf:
  assumes "sane_layout sb" "segnum < s_nsegments sb" "segment_geometry sb segnum = Inr (bn, nb)"
    and len: "unat (push_bit (unat (s_log_block_size sb + 10)) (ucast nb :: u64)) \<le> length mem"
  shows "segment_wf (mk_segment sb segnum bn nb addr mem mp adj)
    \<and> unat (push_bit (unat (s_log_block_size sb + 10)) (ucast nb :: u64)) \<le> 2 ^ 30"
proof -
  let ?k = "unat (s_log_block_size sb + 10)"
  note g = segment_geometry_bounds [OF assms(1-3)]
  have k: "?k = unat (s_log_block_size sb) + 10" by (rule sane_blkbits [OF assms(1)])
  have "unat nb * 2 ^ ?k \<le> unat (s_blocks_per_segment sb) * 2 ^ ?k" using g by (intro mult_le_mono1) simp
  also have "\<dots> \<le> 2 ^ 30" using assms(1) by (simp add: sane_layout_def k)
  finally have le: "unat nb * 2 ^ ?k \<le> 2 ^ 30" .
  then have e: "unat (push_bit ?k (ucast nb :: u64)) = unat nb * 2 ^ ?k"
    by (intro unat_shift_u64) simp
  have "unat (s_log_block_size sb) \<le> 6" using assms(1) by (simp add: sane_layout_def)
  then show ?thesis
    unfolding segment_wf_def using len le e g k by (simp add: mk_segment_def Let_def)
qed

definition mmap_laws :: "'w kernel \<Rightarrow> bool" where
  "mmap_laws k \<longleftrightarrow> (\<forall>n fd off w addr mem w'. k_mmap k n fd off w = (Inr (addr, mem), w') \<longrightarrow> length mem = unat n)"

lemma read_segment_length:
  "read_segment k fd n off w = (Inr (addr, mem), w') \<Longrightarrow> unat n \<le> length mem"
  by (auto simp: read_segment_def bindE_Inr split: prod.splits option.splits)

lemma unat_shift_u64':
  assumes "unat (x :: u64) * 2 ^ k < 2 ^ 64"
  shows "unat (push_bit k x) = unat x * 2 ^ k"
proof -
  have "unat (push_bit k x) = take_bit 64 (push_bit k (unat x))"
    by (simp only: unsigned_push_bit_eq len_bit0 len_num1) simp
  also have "\<dots> = unat x * 2 ^ k" using assms by (simp only: push_bit_eq_mult take_bit_nat_eq_self)
  finally show ?thesis .
qed

lemma get_segment_cases:
  assumes "nilfs_get_segment k segnum s = (Inr sg, s')"
  obtains sb bn nb addr mem mp adj w w' fd where
    "n_sb (l_nilfs s) = Some sb" "segnum < s_nsegments sb" "segment_geometry sb segnum = Inr (bn, nb)"
    "sg = mk_segment sb segnum bn nb addr mem mp adj" "0 < k_pagesize k"
    "l_nilfs s' = l_nilfs s"
    "(\<not> mp \<and> read_segment k fd (push_bit (unat (s_log_block_size sb + 10)) (ucast nb))
                (push_bit (unat (s_log_block_size sb + 10)) bn) w = (Inr (addr, mem), w'))
     \<or> (mp \<and> k_mmap k (roundup64 (push_bit (unat (s_log_block_size sb + 10)) (ucast nb)
             + push_bit (unat (s_log_block_size sb + 10)) bn mod of_int (k_pagesize k)) (of_int (k_pagesize k)))
          fd (push_bit (unat (s_log_block_size sb + 10)) bn
               - push_bit (unat (s_log_block_size sb + 10)) bn mod of_int (k_pagesize k)) w = (Inr (addr, mem), w'))"
  using assms
  by (auto simp: nilfs_get_segment_def Let_def liftK_Inr bindE_Inr not_le
      split: option.splits if_splits sum.splits prod.splits)

section \<open>Properties\<close>

text \<open>C19. Every segment that \<open>nilfs_get_segment\<close> hands out, read or mapped, of a file system
  with blocks of at most 64 KiB and segments of at most 1 GiB, is well formed for the iterators:
  its memory covers all its blocks and its block range is the segment's.\<close>

theorem get_segment_wf:
  assumes "nilfs_get_segment k segnum s = (Inr sg, s')" "n_sb (l_nilfs s) = Some sb" "sane_layout sb"
    and "mmap_laws k" "k_pagesize k \<le> 2 ^ 32"
  shows "segment_wf sg \<and> sg_segnum sg = segnum \<and> sg_seqnum sg = ss_seq (sg_mem sg) 0
    \<and> unat (sg_blocknr sg) + unat (sg_nblocks sg) = unat (s_blocks_per_segment sb) * (unat segnum + 1)
    \<and> l_nilfs s' = l_nilfs s"
proof (rule get_segment_cases [OF assms(1)])
  fix sb' addr mem mp adj w w' fd and nb :: u32 and bn :: u64
  let ?k = "unat (s_log_block_size sb + 10)"
  let ?sz = "push_bit ?k (ucast nb :: u64)" and ?st = "push_bit ?k bn" and ?pg = "of_int (k_pagesize k) :: u64"
  assume a: "n_sb (l_nilfs s) = Some sb'" "segnum < s_nsegments sb'" "segment_geometry sb' segnum = Inr (bn, nb)"
    "sg = mk_segment sb' segnum bn nb addr mem mp adj" "0 < k_pagesize k" "l_nilfs s' = l_nilfs s"
  then have sb: "sb' = sb" using assms(2) by simp
  assume "(\<not> mp \<and> read_segment k fd (push_bit (unat (s_log_block_size sb' + 10)) (ucast nb))
                (push_bit (unat (s_log_block_size sb' + 10)) bn) w = (Inr (addr, mem), w'))
     \<or> (mp \<and> k_mmap k (roundup64 (push_bit (unat (s_log_block_size sb' + 10)) (ucast nb)
             + push_bit (unat (s_log_block_size sb' + 10)) bn mod of_int (k_pagesize k)) (of_int (k_pagesize k)))
          fd (push_bit (unat (s_log_block_size sb' + 10)) bn
               - push_bit (unat (s_log_block_size sb' + 10)) bn mod of_int (k_pagesize k)) w = (Inr (addr, mem), w'))"
  then have src: "(\<not> mp \<and> read_segment k fd ?sz ?st w = (Inr (addr, mem), w'))
     \<or> (mp \<and> k_mmap k (roundup64 (?sz + ?st mod ?pg) ?pg) fd (?st - ?st mod ?pg) w = (Inr (addr, mem), w'))"
    by (simp only: sb)
  have pgi: "uint ?pg = k_pagesize k" using a(5) assms(5) by (simp add: uint_word_of_int_eq take_bit_int_eq_self)
  then have pg: "0 < unat ?pg" "unat ?pg \<le> 2 ^ 32"
    using a(5) assms(5) by (simp_all add: unat_eq_nat_uint nat_le_iff)
  have sz30: "unat ?sz \<le> 2 ^ 30"
    using mk_segment_wf [OF assms(3) a(2,3) [unfolded sb], of "replicate (unat ?sz) 0"] by simp
  have md: "unat (?st mod ?pg) < unat ?pg" using pg by (simp add: unat_mod)
  have sum: "unat (?sz + ?st mod ?pg) = unat ?sz + unat (?st mod ?pg)"
    using sz30 md pg by (intro unat_add_u64) simp
  have "unat (?sz + ?st mod ?pg) \<le> unat (roundup64 (?sz + ?st mod ?pg) ?pg)"
    using pg sz30 md sum by (intro roundup64_ge) simp_all
  then have "unat ?sz \<le> length mem"
    using src read_segment_length [of k fd ?sz ?st w addr mem w'] assms(4) sum
    by (fastforce simp: mmap_laws_def)
  then have "segment_wf sg" using mk_segment_wf [OF assms(3) a(2,3) [unfolded sb]] by (simp add: a(4) sb)
  then show ?thesis
    using segment_geometry_bounds [OF assms(3) a(2,3) [unfolded sb]] a(6)
    by (simp add: a(4) sb mk_segment_def Let_def)
qed


text \<open>The cached minimum checkpoint number of the object never decreases, every other member
  of the object is kept, and a checkpoint query never asks the kernel below the cached
  minimum: for a start number below it, the query is the one at the minimum.\<close>

theorem get_cpinfo_mincno:
  assumes "n_iocfd (l_nilfs s) \<ge> 0" "NILFS_CNO_MIN \<le> cno"
  shows "(let s' = snd (nilfs_get_cpinfo k cno mode nci s) in
       n_mincno (l_nilfs s) \<le> n_mincno (l_nilfs s')
       \<and> l_nilfs s' = (l_nilfs s)\<lparr>n_mincno := n_mincno (l_nilfs s')\<rparr>)
    \<and> nilfs_get_cpinfo k cno NILFS_CHECKPOINT nci s
        = nilfs_get_cpinfo k (max cno (n_mincno (l_nilfs s))) NILFS_CHECKPOINT nci s
    \<and> fst (nilfs_get_cpinfo k cno NILFS_CHECKPOINT nci s)
        = fst (k_get_cpinfo k (n_iocfd (l_nilfs s))
            (argv nci sizeof_cpinfo (max cno (n_mincno (l_nilfs s))) (cpmode_nat NILFS_CHECKPOINT)) (l_env s))"
proof (intro conjI)
  show "let s' = snd (nilfs_get_cpinfo k cno mode nci s) in
       n_mincno (l_nilfs s) \<le> n_mincno (l_nilfs s')
       \<and> l_nilfs s' = (l_nilfs s)\<lparr>n_mincno := n_mincno (l_nilfs s')\<rparr>"
    using assms
    by (auto simp: nilfs_get_cpinfo_def Let_def bindE_def liftK_def less_imp_le split: prod.splits sum.splits)
  have m: "max cno (n_mincno (l_nilfs s)) = (if cno < n_mincno (l_nilfs s) then n_mincno (l_nilfs s) else cno)"
    by (auto simp: max_def)
  have nl: "\<not> cno < NILFS_CNO_MIN" using assms(2) by (simp add: not_less)
  have "\<not> max cno (n_mincno (l_nilfs s)) < NILFS_CNO_MIN" using assms(2) by (auto simp: m not_less intro: less_imp_le le_less_trans)
  then show "nilfs_get_cpinfo k cno NILFS_CHECKPOINT nci s
        = nilfs_get_cpinfo k (max cno (n_mincno (l_nilfs s))) NILFS_CHECKPOINT nci s"
    using assms
    by (auto simp: nilfs_get_cpinfo_def Let_def m not_less simp del: bindE_step bindE_stop)
  show "fst (nilfs_get_cpinfo k cno NILFS_CHECKPOINT nci s)
        = fst (k_get_cpinfo k (n_iocfd (l_nilfs s))
            (argv nci sizeof_cpinfo (max cno (n_mincno (l_nilfs s))) (cpmode_nat NILFS_CHECKPOINT)) (l_env s))"
    using assms nl
    by (cases "cno < n_mincno (l_nilfs s)")
      (auto simp: nilfs_get_cpinfo_def Let_def bindE_def liftK_def m split: prod.splits sum.splits)
qed



subsection \<open>A concrete object\<close>

text \<open>Blocks of 1 KiB, segments of 16 blocks, four segments, data from block 1 on.\<close>

definition demo_layout :: bytes where
  "demo_layout = [0, 0, 0, 0, 0, 0, 0x34, 0x34] @ replicate 16 0 @ [4, 0, 0, 0, 0, 0, 0, 0] @ replicate 8 0
     @ [1, 0, 0, 0, 0, 0, 0, 0] @ [16, 0, 0, 0] @ replicate 972 0"

lemma demo_layout_fields:
  "s_log_block_size demo_layout = 0" "s_nsegments demo_layout = 4" "s_first_data_block demo_layout = 1"
  "s_blocks_per_segment demo_layout = 16"
  by (simp_all add: s_log_block_size_def s_nsegments_def s_first_data_block_def s_blocks_per_segment_def
      le32_at_def le64_at_def rd_def demo_layout_def le_nat_zeros)

lemma demo_layout_sane: "sane_layout demo_layout"
  by (simp add: sane_layout_def demo_layout_fields)

definition demo_lib :: "'w \<Rightarrow> 'w lib" where
  "demo_lib w = \<lparr>l_nilfs = \<lparr>n_sb = Some demo_layout, n_dev = Some ''/dev/sdb1'', n_ioc = Some ''/mnt'', n_devfd = 3,
     n_iocfd = 4, n_opts = 2, n_mincno = 1, n_sems = Some 0\<rparr>, l_env = w\<rparr>"

lemma demo_lib_segment:
  "\<exists>sg s'. nilfs_get_segment (disk_kernel 65536) 1 (demo_lib w) = (Inr sg, s')"
  by (simp add: nilfs_get_segment_def demo_lib_def Let_def segment_geometry_def demo_layout_fields
      NILFS_SEG_MIN_BLOCKS_def nilfs_opt_test_def NILFS_OPT_MMAP_def NR_NILFS_OPT_def liftK_def
      read_segment_def disk_kernel_def null_kernel_def bindE_def word_less_nat_alt word_le_nat_alt)

theorem get_segment_wf_witness:
  "\<exists>sg s'. nilfs_get_segment (disk_kernel 65536) 1 (demo_lib []) = (Inr sg, s') \<and> segment_wf sg
    \<and> unat (sg_blocknr sg) + unat (sg_nblocks sg) = 32"
proof -
  obtain sg s' where g: "nilfs_get_segment (disk_kernel 65536) 1 (demo_lib []) = (Inr sg, s')"
    using demo_lib_segment by blast
  have "mmap_laws (disk_kernel 65536)" by (simp add: mmap_laws_def disk_kernel_def null_kernel_def)
  then show ?thesis
    using get_segment_wf [OF g _ demo_layout_sane] g
    by (simp add: demo_lib_def demo_layout_fields disk_kernel_def null_kernel_def)
qed

theorem get_cpinfo_mincno_witness:
  "n_mincno (l_nilfs (demo_lib ())) \<le>
     n_mincno (l_nilfs (snd (nilfs_get_cpinfo (null_kernel
       \<lparr>k_get_cpinfo := (\<lambda>fd a w. (Inr [\<lparr>ci_flags = 0, ci_cno = 5, ci_create = 0, ci_nblk_inc = 0,
          ci_inodes_count = 0, ci_blocks_count = 0, ci_next = 0\<rparr>], w))\<rparr>) 1 NILFS_CHECKPOINT 1 (demo_lib ()))))"
  using get_cpinfo_mincno [of "demo_lib ()" 1]
  by (simp add: demo_lib_def NILFS_CNO_MIN_def Let_def)


end
