(* ===== verification/Gc.thy ===== *)
theory Gc
  imports Nilfs_Api
begin

text \<open>
  The garbage collection library (\<open>src/lib/gc.c\<close>, \<open>src/include/nilfs_gc.h\<close>): it
  collects the block descriptors of the selected segments, asks the kernel for the life
  times of their blocks, separates live from dead blocks by the protection period and the
  snapshots, and hands the result to the kernel's clean-segments call.

  The vectors of the sources are those of \<open>Nilfs_Vector\<close>, reached through the locale
  \<open>vector_interface\<close> in the proofs. Vector indices, \<open>int\<close> in the sources, are
  natural numbers, converted to the 32-bit index of the vector operations. Objects on the
  stack that are read before they are written have the contents of the record
  \<open>gc_junk\<close>, as have fresh vector slots. A loop that goes on as long as the kernel
  answers with zero items is a \<open>partial_function\<close>; \<open>EHang\<close> stands for its
  non-termination.
\<close>

section \<open>Data\<close>

record gc_junk =
  j_vdesc :: nilfs_vdesc
  j_bdesc :: nilfs_bdesc
  j_period :: nilfs_period
  j_u64 :: u64
  j_sup :: nilfs_suinfo_update
  j_suinfo :: nilfs_suinfo
  j_vinfo :: nilfs_vinfo
  j_flag :: bool

type_synonym vdescv = "nilfs_vdesc nilfs_vector"
type_synonym bdescv = "nilfs_bdesc nilfs_vector"
type_synonym periodv = "nilfs_period nilfs_vector"
type_synonym vblocknrv = "u64 nilfs_vector"

definition NILFS_GC_NBDESCS :: nat where "NILFS_GC_NBDESCS = 512"
definition NILFS_GC_NVINFO :: nat where "NILFS_GC_NVINFO = 512"
definition NILFS_GC_NCPINFO :: u64 where "NILFS_GC_NCPINFO = 512"

definition NILFS_RECLAIM_PARAM_PROTSEQ :: u64 where "NILFS_RECLAIM_PARAM_PROTSEQ = 1"
definition NILFS_RECLAIM_PARAM_PROTCNO :: u64 where "NILFS_RECLAIM_PARAM_PROTCNO = 2"
definition NILFS_RECLAIM_PARAM_MIN_RECLAIMABLE_BLKS :: u64 where
  "NILFS_RECLAIM_PARAM_MIN_RECLAIMABLE_BLKS = 4"
definition NR_NILFS_RECLAIM_PARAMS :: nat where "NR_NILFS_RECLAIM_PARAMS = 3"

record nilfs_reclaim_params =
  rp_flags :: u64
  rp_min_reclaimable_blks :: u64
  rp_protseq :: u64
  rp_protcno :: u64

record nilfs_reclaim_stat =
  rs_exflags :: u64
  cleaned_segs :: u64
  protected_segs :: u64
  deferred_segs :: u64
  live_blks :: u64
  live_vblks :: u64
  live_pblks :: u64
  defunct_blks :: u64
  defunct_vblks :: u64
  defunct_pblks :: u64
  freed_vblks :: u64

definition zero_stat :: nilfs_reclaim_stat where
  "zero_stat = \<lparr>rs_exflags = 0, cleaned_segs = 0, protected_segs = 0, deferred_segs = 0, live_blks = 0,
     live_vblks = 0, live_pblks = 0, defunct_blks = 0, defunct_vblks = 0, defunct_pblks = 0, freed_vblks = 0\<rparr>"

definition nilfs_suinfo_reclaimable :: "nilfs_suinfo \<Rightarrow> bool" where
  "nilfs_suinfo_reclaimable si \<longleftrightarrow>
     nilfs_suinfo_dirty si \<and> \<not> nilfs_suinfo_active si \<and> \<not> nilfs_suinfo_error si"

definition nilfs_suinfo_empty :: "nilfs_suinfo \<Rightarrow> bool" where
  "nilfs_suinfo_empty si \<longleftrightarrow> sui_nblocks si = 0"

section \<open>Comparisons\<close>

definition nilfs_comp_vdesc_blocknr :: "nilfs_vdesc \<Rightarrow> nilfs_vdesc \<Rightarrow> int" where
  "nilfs_comp_vdesc_blocknr a b = (if vd_blocknr a < vd_blocknr b then - 1 else 1)"

definition nilfs_comp_vdesc_vblocknr :: "nilfs_vdesc \<Rightarrow> nilfs_vdesc \<Rightarrow> int" where
  "nilfs_comp_vdesc_vblocknr a b = (if vd_vblocknr a < vd_vblocknr b then - 1 else 1)"

definition nilfs_comp_period :: "nilfs_period \<Rightarrow> nilfs_period \<Rightarrow> int" where
  "nilfs_comp_period a b =
     (if p_start a < p_start b then - 1 else if p_start a = p_start b then 0 else 1)"

definition nilfs_comp_bdesc :: "nilfs_bdesc \<Rightarrow> nilfs_bdesc \<Rightarrow> int" where
  "nilfs_comp_bdesc a b =
     (if bd_ino a < bd_ino b then - 1 else if bd_ino a > bd_ino b then 1
      else if bd_level a < bd_level b then - 1 else if bd_level a > bd_level b then 1
      else if bd_offset a < bd_offset b then - 1 else if bd_offset a > bd_offset b then 1
      else 0)"

section \<open>Collecting the blocks of segments\<close>

text \<open>
  The two bodies of the block loop of \<open>nilfs_acc_blocks_file\<close>: the assignments to the
  members of a new descriptor, which keeps what the slot held in the others.
\<close>

definition fill_bdesc :: "u64 \<Rightarrow> nilfs_block \<Rightarrow> nilfs_bdesc \<Rightarrow> nilfs_bdesc" where
  "fill_bdesc ino b bd =
     (let m = fl_mem (bk_file b); bd = bd\<lparr>bd_ino := ino, bd_oblocknr := bk_blocknr b\<rparr> in
      if nilfs_block_is_data b
      then bd\<lparr>bd_offset := le64_at m (bk_binfo b), bd_level := 0\<rparr>
      else bd\<lparr>bd_offset := le64_at m (bk_binfo b), bd_level := ucast (m ! (bk_binfo b + 8))\<rparr>)"

definition fill_vdesc :: "u64 \<Rightarrow> u64 \<Rightarrow> nilfs_block \<Rightarrow> nilfs_vdesc \<Rightarrow> nilfs_vdesc" where
  "fill_vdesc ino cno b vd =
     (let m = fl_mem (bk_file b);
          vd = vd\<lparr>vd_ino := ino, vd_cno := cno, vd_blocknr := bk_blocknr b\<rparr> in
      if nilfs_block_is_data b
      then vd\<lparr>vd_vblocknr := le64_at m (bk_binfo b), vd_offset := le64_at m (bk_binfo b + 8), vd_flags := 0\<rparr>
      else vd\<lparr>vd_vblocknr := le64_at m (bk_binfo b), vd_flags := 1\<rparr>)"

definition acc_bdesc :: "'w kernel \<Rightarrow> gc_junk \<Rightarrow> u64 \<Rightarrow> nilfs_block \<Rightarrow> bdescv \<Rightarrow> ('w lib, bdescv) act" where
  "acc_bdesc k j ino b bv =
     bindE (nilfs_vector_get_new_element (lib_alloc k) (j_bdesc j) bv) (\<lambda>(i, bv).
       retE (set_slot bv i (fill_bdesc ino b (slot bv i))))"

definition acc_vdesc :: "'w kernel \<Rightarrow> gc_junk \<Rightarrow> u64 \<Rightarrow> u64 \<Rightarrow> nilfs_block \<Rightarrow> vdescv \<Rightarrow> ('w lib, vdescv) act" where
  "acc_vdesc k j ino cno b vv =
     bindE (nilfs_vector_get_new_element (lib_alloc k) (j_vdesc j) vv) (\<lambda>(i, vv).
       retE (set_slot vv i (fill_vdesc ino cno b (slot vv i))))"

definition nilfs_acc_blocks_file :: "'w kernel \<Rightarrow> gc_junk \<Rightarrow> nilfs_file \<Rightarrow> vdescv \<times> bdescv
    \<Rightarrow> ('w lib, vdescv \<times> bdescv) act" where
  "nilfs_acc_blocks_file k j f = (\<lambda>(vv, bv).
     let ino = fi_ino (fl_mem f) (fl_finfo f) in
     if nilfs_file_use_real_blocknr f
     then bindE (foldE (acc_bdesc k j ino) (nilfs_block_for_each f) bv) (\<lambda>bv. retE (vv, bv))
     else let cno = fi_cno (fl_mem f) (fl_finfo f) in
          bindE (foldE (acc_vdesc k j ino cno) (nilfs_block_for_each f) vv) (\<lambda>vv. retE (vv, bv)))"

definition nilfs_acc_blocks_psegment :: "'w kernel \<Rightarrow> gc_junk \<Rightarrow> nilfs_psegment \<Rightarrow> vdescv \<times> bdescv
    \<Rightarrow> ('w lib, vdescv \<times> bdescv) act" where
  "nilfs_acc_blocks_psegment k j p vs =
     (let (fs, e) = nilfs_file_for_each (j_flag j) p in
      bindE (foldE (nilfs_acc_blocks_file k j) fs vs) (\<lambda>vs.
        if nilfs_file_is_error e then failE EINVAL else retE vs))"

definition nilfs_acc_blocks_segment :: "'w kernel \<Rightarrow> gc_junk \<Rightarrow> nilfs_segment \<Rightarrow> u32 \<Rightarrow> vdescv \<times> bdescv
    \<Rightarrow> ('w lib, vdescv \<times> bdescv) act" where
  "nilfs_acc_blocks_segment k j sg nblocks vs =
     (let (ps, e) = nilfs_psegment_for_each sg nblocks in
      bindE (foldE (nilfs_acc_blocks_psegment k j) ps vs) (\<lambda>vs.
        if nilfs_psegment_is_error e then failE EINVAL else retE vs))"

text \<open>Moving a deselected segment behind the selected ones; \<open>None\<close> is the result -1.\<close>

definition nilfs_deselect_segment :: "u64 list \<Rightarrow> nat \<Rightarrow> nat \<Rightarrow> (u64 list \<times> nat) option" where
  "nilfs_deselect_segment segnums nsegs nr =
     (if nr \<ge> nsegs \<or> nsegs = 0 then None
      else if nr < nsegs - 1
           then let tn = segnums ! nr;
                    segnums = memmove nr (nr + 1) (nsegs - 1 - nr) segnums
                in Some (segnums[nsegs - 1 := tn], nsegs - 1)
           else Some (segnums, nsegs - 1))"

lemma deselect_count: "nilfs_deselect_segment xs n i = Some (ys, n') \<Longrightarrow> n' = n - 1 \<and> i < n"
  by (auto simp: nilfs_deselect_segment_def Let_def split: if_splits)

text \<open>
  \<open>nilfs_acc_blocks\<close>. When the kernel reports no entry for a segment, \<open>si\<close> keeps the
  contents it had. The segment is released also when collecting its blocks failed.
\<close>

function acc_blocks_loop :: "'w kernel \<Rightarrow> gc_junk \<Rightarrow> u64 \<Rightarrow> nat \<Rightarrow> nat \<Rightarrow> nilfs_suinfo
    \<Rightarrow> u64 list \<times> vdescv \<times> bdescv \<Rightarrow> ('w lib, nat \<times> u64 list \<times> vdescv \<times> bdescv) act" where
  "acc_blocks_loop k j protseq i n si (segnums, vs) s =
     (if \<not> i < n then (Inr (n, segnums, vs), s)
      else case nilfs_get_suinfo k (segnums ! i) 1 s of
        (Inl e, s) \<Rightarrow> (Inl e, s)
      | (Inr sis, s) \<Rightarrow>
          let si = (case sis of [] \<Rightarrow> si | x # _ \<Rightarrow> x) in
          if \<not> nilfs_suinfo_reclaimable si
          then (case nilfs_deselect_segment segnums n i of
                  None \<Rightarrow> (Inl (EOther 0), s)
                | Some (segnums, n) \<Rightarrow> acc_blocks_loop k j protseq i n si (segnums, vs) s)
          else if nilfs_suinfo_empty si
          then acc_blocks_loop k j protseq (i + 1) n si (segnums, vs) s
          else case nilfs_get_segment k (segnums ! i) s of
            (Inl e, s) \<Rightarrow> (Inl e, s)
          | (Inr sg, s) \<Rightarrow>
              if cnt64_ge (sg_seqnum sg) protseq
              then (case nilfs_deselect_segment segnums n i of
                      None \<Rightarrow> (Inl (EOther 0), s)
                    | Some (segnums, n) \<Rightarrow>
                        (case nilfs_put_segment k sg s of
                           (Inl e, s) \<Rightarrow> (Inl e, s)
                         | (Inr _, s) \<Rightarrow> acc_blocks_loop k j protseq i n si (segnums, vs) s))
              else case nilfs_acc_blocks_segment k j sg (sui_nblocks si) vs s of (r, s) \<Rightarrow>
                   (case nilfs_put_segment k sg s of
                      (Inl e, s) \<Rightarrow> (Inl e, s)
                    | (Inr _, s) \<Rightarrow>
                        (case r of Inl e \<Rightarrow> (Inl e, s)
                         | Inr vs \<Rightarrow> acc_blocks_loop k j protseq (i + 1) n si (segnums, vs) s)))"
  by pat_completeness auto

termination acc_blocks_loop
  by (relation "measure (\<lambda>(k, j, protseq, i, n, si, vs, s). n - i)")
     (auto dest!: deselect_count)

declare acc_blocks_loop.simps [simp del]

definition nilfs_acc_blocks :: "'w kernel \<Rightarrow> gc_junk \<Rightarrow> u64 list \<Rightarrow> nat \<Rightarrow> u64 \<Rightarrow> vdescv \<times> bdescv
    \<Rightarrow> ('w lib, nat \<times> u64 list \<times> vdescv \<times> bdescv) act" where
  "nilfs_acc_blocks k j segnums nsegs protseq vs =
     acc_blocks_loop k j protseq 0 nsegs (j_suinfo j) (segnums, vs)"

section \<open>Life times of blocks\<close>

text \<open>
  The second inner loop of \<open>nilfs_get_vdesc\<close>: the periods the kernel found are stored
  with the descriptors; \<open>None\<close> is a failed assertion.
\<close>

fun store_periods :: "vdescv \<Rightarrow> nat \<Rightarrow> nilfs_vinfo list \<Rightarrow> vdescv option" where
  "store_periods v i [] = Some v"
| "store_periods v i (x # xs) =
     (case nilfs_vector_get_element v (of_nat i) of
        None \<Rightarrow> None
      | Some e \<Rightarrow>
          if vd_vblocknr (slot v e) \<noteq> vi_vblocknr x then None
          else store_periods
                 (set_slot v e ((slot v e)\<lparr>vd_period := \<lparr>p_start = vi_start x, p_end = vi_end x\<rparr>\<rparr>))
                 (i + 1) xs)"

partial_function (option) get_vdesc_loop :: "'w kernel \<Rightarrow> gc_junk \<Rightarrow> nat \<Rightarrow> vdescv \<Rightarrow> 'w lib
    \<Rightarrow> ((errno + vdescv) \<times> 'w lib) option" where
  "get_vdesc_loop k j i v s =
     (let size = unat (nilfs_vector_get_size v);
          js = [i..<min (i + NILFS_GC_NVINFO) size];
          vinfo = map (\<lambda>x. (j_vinfo j)\<lparr>vi_vblocknr := vd_vblocknr (slot v x)\<rparr>) js
      in if i < size
         then (case nilfs_get_vinfo k vinfo (of_nat (length js)) s of
                 (Inl e, s) \<Rightarrow> Some (Inl e, s)
               | (Inr vs, s) \<Rightarrow>
                   (case store_periods v i vs of
                      None \<Rightarrow> Some (Inl EAbort, s)
                    | Some v \<Rightarrow> get_vdesc_loop k j (i + length vs) v s))
         else Some (Inr v, s))"

definition nilfs_get_vdesc :: "'w kernel \<Rightarrow> gc_junk \<Rightarrow> vdescv \<Rightarrow> ('w lib, vdescv) act" where
  "nilfs_get_vdesc k j v s =
     (case get_vdesc_loop k j 0 (nilfs_vector_sort v nilfs_comp_vdesc_vblocknr) s of
        None \<Rightarrow> (Inl EHang, s) | Some r \<Rightarrow> r)"

text \<open>
  \<open>nilfs_get_snapshot\<close>. The array \<open>ss\<close> has \<open>cs_nsss\<close> entries; storing behind it
  is undefined and stops the model with \<open>EAbort\<close>.
\<close>

fun store_snapshots :: "nat \<Rightarrow> u64 \<Rightarrow> u64 list \<Rightarrow> nilfs_cpinfo list \<Rightarrow> errno + u64 \<times> u64 list" where
  "store_snapshots nsss prev ss [] = Inr (prev, ss)"
| "store_snapshots nsss prev ss (ci # cis) =
     (if length ss \<ge> nsss then Inl EAbort
      else if prev \<ge> ci_cno ci then Inl EIO
      else store_snapshots nsss (ci_cno ci) (ss @ [ci_cno ci]) cis)"

lemma store_snapshots_length:
  "store_snapshots nsss prev ss cis = Inr (prev', ss') \<Longrightarrow>
   length ss' = length ss + length cis \<and> (cis \<noteq> [] \<longrightarrow> length ss' \<le> nsss)"
  by (induction nsss prev ss cis arbitrary: prev' ss' rule: store_snapshots.induct)
     (auto split: if_splits)

function get_snapshot_loop :: "'w kernel \<Rightarrow> nat \<Rightarrow> u64 \<Rightarrow> u64 \<Rightarrow> u64 list \<Rightarrow> ('w lib, u64 list) act" where
  "get_snapshot_loop k nsss cno prev ss s =
     (if \<not> length ss < nsss then (Inr ss, s)
      else case nilfs_get_cpinfo k cno NILFS_SNAPSHOT NILFS_GC_NCPINFO s of
        (Inl e, s) \<Rightarrow> (Inl e, s)
      | (Inr [], s) \<Rightarrow> (Inr ss, s)
      | (Inr (ci # cis), s) \<Rightarrow>
          (case store_snapshots nsss prev ss (ci # cis) of
             Inl e \<Rightarrow> (Inl e, s)
           | Inr (prev, ss) \<Rightarrow>
               let cno = ci_next (last (ci # cis)) in
               if cno = 0 then (Inr ss, s) else get_snapshot_loop k nsss cno prev ss s))"
  by pat_completeness auto

termination get_snapshot_loop
  by (relation "measure (\<lambda>(k, nsss, cno, prev, ss, s). nsss - length ss)")
     (auto dest: store_snapshots_length split: if_splits)

declare get_snapshot_loop.simps [simp del]

definition nilfs_get_snapshot :: "'w kernel \<Rightarrow> ('w lib, u64 list) act" where
  "nilfs_get_snapshot k =
     bindE (nilfs_get_cpstat k) (\<lambda>cpstat s.
       if cs_nsss cpstat = 0 then (Inr [], s)
       else case lib_alloc k (8 * cs_nsss cpstat) s of
         (False, s) \<Rightarrow> (Inl ENOMEM, s)
       | (True, s) \<Rightarrow> get_snapshot_loop k (unat (cs_nsss cpstat)) 0 0 [] s)"

section \<open>Live and dead blocks\<close>

text \<open>The binary search of \<open>nilfs_vdesc_is_live\<close> for a snapshot inside the period.\<close>

function ss_search :: "u64 list \<Rightarrow> nilfs_period \<Rightarrow> int \<Rightarrow> int \<Rightarrow> u64 option" where
  "ss_search ss p low high =
     (if \<not> low \<le> high then None
      else let index = (low + high) div 2 in
        if ss ! nat index < p_start p then ss_search ss p (index + 1) high
        else if ss ! nat index \<ge> p_end p then ss_search ss p low (index - 1)
        else Some (ss ! nat index))"
  by pat_completeness auto

termination ss_search
  by (relation "measure (\<lambda>(ss, p, low, high). nat (high - low + 1))") auto

declare ss_search.simps [simp del]

definition nilfs_vdesc_is_live :: "nilfs_vdesc \<Rightarrow> u64 \<Rightarrow> u64 list \<Rightarrow> u64 \<Rightarrow> bool \<times> u64" where
  "nilfs_vdesc_is_live vd protect ss last_hit =
     (let p = vd_period vd; n = length ss in
      if vd_cno vd = 0 then (p_end p = NILFS_CNO_MAX, last_hit)
      else if p_end p = vd_cno vd then (False, last_hit)
      else if p_end p = NILFS_CNO_MAX \<or> p_end p > protect then (True, last_hit)
      else if n = 0 \<or> p_start p > ss ! (n - 1) \<or> p_end p \<le> ss ! 0 then (False, last_hit)
      else if last_hit \<ge> p_start p \<and> last_hit < p_end p then (True, last_hit)
      else case ss_search ss p 0 (int n - 1) of
             Some hit \<Rightarrow> (True, hit)
           | None \<Rightarrow> (False, last_hit))"

text \<open>
  The inner loop of \<open>nilfs_toss_vdescs\<close>: from index \<open>jx\<close> on, dead descriptors are
  recorded until a live one is met.
\<close>

function toss_run :: "'w kernel \<Rightarrow> gc_junk \<Rightarrow> u64 \<Rightarrow> u64 list \<Rightarrow> vdescv \<Rightarrow> nat \<Rightarrow> u64 \<times> periodv \<times> vblocknrv
    \<Rightarrow> ('w lib, nat \<times> u64 \<times> periodv \<times> vblocknrv) act" where
  "toss_run k j protcno ss v jx (last_hit, pv, bv) s =
     (if \<not> jx < unat (nilfs_vector_get_size v) then (Inr (jx, last_hit, pv, bv), s)
      else case nilfs_vector_get_element v (of_nat jx) of
        None \<Rightarrow> (Inl EAbort, s)
      | Some e \<Rightarrow>
          let vd = slot v e; (live, last_hit) = nilfs_vdesc_is_live vd protcno ss last_hit in
          if live then (Inr (jx, last_hit, pv, bv), s)
          else case vector_push (lib_alloc k) (j_u64 j) bv (vd_vblocknr vd) s of
            (Inl e, s) \<Rightarrow> (Inl e, s)
          | (Inr bv, s) \<Rightarrow>
              if vd_cno vd \<noteq> 0
              then (case vector_push (lib_alloc k) (j_period j) pv (vd_period vd) s of
                      (Inl e, s) \<Rightarrow> (Inl e, s)
                    | (Inr pv, s) \<Rightarrow> toss_run k j protcno ss v (jx + 1) (last_hit, pv, bv) s)
              else toss_run k j protcno ss v (jx + 1) (last_hit, pv, bv) s)"
  by pat_completeness auto

termination toss_run
  by (relation "measure (\<lambda>(k, j, protcno, ss, v, jx, x, s). unat (nilfs_vector_get_size v) - jx)") auto

declare toss_run.simps [simp del]


lemma toss_run_bound:
  "toss_run k j protcno ss v jx x s = (Inr (jx', y), s') \<Longrightarrow>
   jx \<le> jx' \<and> (jx \<le> unat (v_nelems v) \<longrightarrow> jx' \<le> unat (v_nelems v))"
proof (induction k j protcno ss v jx x s rule: toss_run.induct)
  case (1 k j protcno ss v jx last_hit pv bv s)
  show ?case
    using 1(3) 1(1,2)
    by (subst (asm) toss_run.simps)
      (fastforce split: if_splits option.splits prod.splits sum.splits simp: Let_def nilfs_vector_get_size_def)
qed


text \<open>The result of \<open>nilfs_vector_delete_elements\<close> is ignored by the callers.\<close>

definition delete_run :: "'a nilfs_vector \<Rightarrow> nat \<Rightarrow> nat \<Rightarrow> 'a nilfs_vector" where
  "delete_run v i n =
     (case nilfs_vector_delete_elements v (of_nat i) (of_nat n) of Inl _ \<Rightarrow> v | Inr v' \<Rightarrow> v')"

lemma delete_run_size:
  assumes "n \<le> unat (v_nelems v)"
  shows "unat (v_nelems (delete_run v i n)) \<le> unat (v_nelems v)"
proof -
  have "unat (of_nat n :: u64) = n" using assms unat_lt_u64 [of "v_nelems v"] by (intro unat_of_nat_u64) simp
  then have "of_nat n \<le> v_nelems v" using assms by (simp add: word_le_nat_alt)
  then show ?thesis
    by (auto simp: delete_run_def nilfs_vector_delete_elements_def Let_def unat_sub split: sum.splits if_splits)
qed

function toss_vdescs_loop :: "'w kernel \<Rightarrow> gc_junk \<Rightarrow> u64 \<Rightarrow> u64 list \<Rightarrow> nat \<Rightarrow> vdescv \<Rightarrow> u64 \<times> periodv \<times> vblocknrv
    \<Rightarrow> ('w lib, vdescv \<times> periodv \<times> vblocknrv) act" where
  "toss_vdescs_loop k j protcno ss i v (last_hit, pv, bv) s =
     (if \<not> i < unat (nilfs_vector_get_size v) then (Inr (v, pv, bv), s)
      else case toss_run k j protcno ss v i (last_hit, pv, bv) s of
        (Inl e, s) \<Rightarrow> (Inl e, s)
      | (Inr (jx, last_hit, pv, bv), s) \<Rightarrow>
          toss_vdescs_loop k j protcno ss (i + 1)
            (if jx > i then delete_run v i (jx - i) else v) (last_hit, pv, bv) s)"
  by pat_completeness auto

termination toss_vdescs_loop
proof (relation "measure (\<lambda>(k, j, protcno, ss, i, v, x, s). unat (v_nelems v) - i)", goal_cases)
  case (2 k j protcno ss i v last_hit pv bv s r s1 res jx x2 lh x3 pv' bv')
  have i: "i < unat (v_nelems v)" using 2(1) by (simp add: nilfs_vector_get_size_def)
  have r: "toss_run k j protcno ss v i (last_hit, pv, bv) s = (Inr (jx, lh, pv', bv'), s1)" using 2 by simp
  then have "jx \<le> unat (v_nelems v)" using toss_run_bound i by (metis less_imp_le)
  then have "unat (v_nelems (if jx > i then delete_run v i (jx - i) else v)) \<le> unat (v_nelems v)"
    using delete_run_size [of "jx - i" v i] by simp
  with i show ?case by simp
qed simp

declare toss_vdescs_loop.simps [simp del]

definition nilfs_toss_vdescs :: "'w kernel \<Rightarrow> gc_junk \<Rightarrow> vdescv \<Rightarrow> periodv \<Rightarrow> vblocknrv \<Rightarrow> u64
    \<Rightarrow> ('w lib, vdescv \<times> periodv \<times> vblocknrv) act" where
  "nilfs_toss_vdescs k j v pv bv protcno =
     bindE (nilfs_get_snapshot k) (\<lambda>ss. toss_vdescs_loop k j protcno ss 0 v (0, pv, bv))"

text \<open>\<open>nilfs_unify_period\<close>: the inner loop extends the base period over what it touches.\<close>

function unify_run :: "periodv \<Rightarrow> nat \<Rightarrow> nat \<Rightarrow> periodv \<times> nat" where
  "unify_run v i jx =
     (if \<not> jx < unat (nilfs_vector_get_size v) then (v, jx)
      else let base = slot v i; target = slot v jx in
        if p_end base < p_start target then (v, jx)
        else unify_run (if p_end base < p_end target then set_slot v i (base\<lparr>p_end := p_end target\<rparr>) else v) i (jx + 1))"
  by pat_completeness auto

termination unify_run
  by (relation "measure (\<lambda>(v, i, jx). unat (v_nelems v) - jx)")
     (auto simp: nilfs_vector_get_size_def set_slot_def)

declare unify_run.simps [simp del]

lemma unify_run_bound:
  "unify_run v i jx = (v', jx') \<Longrightarrow>
   v_nelems v' = v_nelems v \<and> jx \<le> jx' \<and> (jx \<le> unat (v_nelems v) \<longrightarrow> jx' \<le> unat (v_nelems v))"
proof (induction v i jx rule: unify_run.induct)
  case (1 v i jx)
  show ?case
    using 1(2) 1(1)
    by (subst (asm) unify_run.simps)
      (fastforce split: if_splits simp: Let_def nilfs_vector_get_size_def set_slot_def)
qed

function unify_loop :: "nat \<Rightarrow> periodv \<Rightarrow> periodv" where
  "unify_loop i v =
     (if \<not> i < unat (nilfs_vector_get_size v) then v
      else let (v, jx) = unify_run v i (i + 1) in
           unify_loop (i + 1) (if jx > i + 1 then delete_run v (i + 1) (jx - i - 1) else v))"
  by pat_completeness auto

termination unify_loop
proof (relation "measure (\<lambda>(i, v). unat (v_nelems v) - i)", goal_cases)
  case (2 i v x v1 jx)
  have i: "i < unat (v_nelems v)" using 2(1) by (simp add: nilfs_vector_get_size_def)
  have b: "v_nelems v1 = v_nelems v" "jx \<le> unat (v_nelems v)"
    using unify_run_bound [of v i "i + 1" v1 jx] 2 i by auto
  then have "unat (v_nelems (if jx > i + 1 then delete_run v1 (i + 1) (jx - i - 1) else v1)) \<le> unat (v_nelems v)"
    using delete_run_size [of "jx - i - 1" v1 "i + 1"] by simp
  with i show ?case by simp
qed simp

declare unify_loop.simps [simp del]

definition nilfs_unify_period :: "periodv \<Rightarrow> periodv" where
  "nilfs_unify_period v = unify_loop 0 (nilfs_vector_sort v nilfs_comp_period)"

section \<open>Blocks of the DAT file\<close>

partial_function (option) get_bdesc_loop :: "'w kernel \<Rightarrow> nat \<Rightarrow> nat \<Rightarrow> bdescv \<Rightarrow> 'w lib
    \<Rightarrow> ((errno + bdescv) \<times> 'w lib) option" where
  "get_bdesc_loop k nbdescs i v s =
     (if i < nbdescs
      then let count = min (nbdescs - i) NILFS_GC_NBDESCS in
           (case nilfs_get_bdescs k (take count (drop i (v_data v))) (of_nat count) s of
              (Inl e, s) \<Rightarrow> Some (Inl e, s)
            | (Inr bs, s) \<Rightarrow> get_bdesc_loop k nbdescs (i + length bs) (v\<lparr>v_data := put_at i bs (v_data v)\<rparr>) s)
      else Some (Inr v, s))"

definition nilfs_get_bdesc :: "'w kernel \<Rightarrow> bdescv \<Rightarrow> ('w lib, bdescv) act" where
  "nilfs_get_bdesc k v s =
     (let v = nilfs_vector_sort v nilfs_comp_bdesc in
      case get_bdesc_loop k (unat (nilfs_vector_get_size v)) 0 v s of
        None \<Rightarrow> (Inl EHang, s) | Some r \<Rightarrow> r)"

definition nilfs_bdesc_is_live :: "nilfs_bdesc \<Rightarrow> bool" where
  "nilfs_bdesc_is_live bd \<longleftrightarrow> bd_oblocknr bd = bd_blocknr bd"

function toss_bdesc_run :: "bdescv \<Rightarrow> nat \<Rightarrow> nat" where
  "toss_bdesc_run v jx =
     (if jx < unat (nilfs_vector_get_size v) \<and> \<not> nilfs_bdesc_is_live (slot v jx)
      then toss_bdesc_run v (jx + 1) else jx)"
  by pat_completeness auto

termination toss_bdesc_run
  by (relation "measure (\<lambda>(v, jx). unat (nilfs_vector_get_size v) - jx)") auto

declare toss_bdesc_run.simps [simp del]

lemma toss_bdesc_run_bound:
  "jx \<le> toss_bdesc_run v jx \<and> (jx \<le> unat (v_nelems v) \<longrightarrow> toss_bdesc_run v jx \<le> unat (v_nelems v))"
proof (induction v jx rule: toss_bdesc_run.induct)
  case (1 v jx)
  then show ?case by (subst (1 2) toss_bdesc_run.simps) (auto simp: nilfs_vector_get_size_def)
qed

function toss_bdescs_loop :: "nat \<Rightarrow> bdescv \<Rightarrow> bdescv" where
  "toss_bdescs_loop i v =
     (if \<not> i < unat (nilfs_vector_get_size v) then v
      else let jx = toss_bdesc_run v i in
           toss_bdescs_loop (i + 1) (if jx > i then delete_run v i (jx - i) else v))"
  by pat_completeness auto

termination toss_bdescs_loop
proof (relation "measure (\<lambda>(i, v). unat (v_nelems v) - i)", goal_cases)
  case (2 i v jx)
  have i: "i < unat (v_nelems v)" using 2(1) by (simp add: nilfs_vector_get_size_def)
  then have "jx \<le> unat (v_nelems v)" using toss_bdesc_run_bound [of i v] 2 by simp
  then have "unat (v_nelems (if jx > i then delete_run v i (jx - i) else v)) \<le> unat (v_nelems v)"
    using delete_run_size [of "jx - i" v i] by simp
  with i show ?case by simp
qed simp

declare toss_bdescs_loop.simps [simp del]

definition nilfs_toss_bdescs :: "bdescv \<Rightarrow> bdescv" where
  "nilfs_toss_bdescs v = toss_bdescs_loop 0 v"

section \<open>The live/dead decision\<close>

text \<open>
  What the decision is meant to be: a block of a file without checkpoint numbers (cpfile,
  sufile) is live while it is the current one; any other block is dead when it was
  superseded within its own checkpoint, and else live when it is current, when it lives
  on into the protected checkpoints, or when some snapshot needs it.
\<close>

definition vdesc_live_spec :: "nilfs_vdesc \<Rightarrow> u64 \<Rightarrow> u64 set \<Rightarrow> bool" where
  "vdesc_live_spec vd protect snaps \<longleftrightarrow>
     (if vd_cno vd = 0 then p_end (vd_period vd) = NILFS_CNO_MAX
      else p_end (vd_period vd) \<noteq> vd_cno vd
           \<and> (p_end (vd_period vd) = NILFS_CNO_MAX \<or> protect < p_end (vd_period vd)
              \<or> (\<exists>c \<in> snaps. p_start (vd_period vd) \<le> c \<and> c < p_end (vd_period vd))))"

lemma ss_search_ok:
  assumes "sorted_wrt (<) ss" "0 \<le> low" "high < int (length ss)"
  shows "case ss_search ss p low high of
      Some h \<Rightarrow> h \<in> set ss \<and> p_start p \<le> h \<and> h < p_end p
    | None \<Rightarrow> \<forall>x. low \<le> x \<and> x \<le> high \<longrightarrow> \<not> (p_start p \<le> ss ! nat x \<and> ss ! nat x < p_end p)"
  using assms
proof (induction ss p low high rule: ss_search.induct)
  case (1 ss p low high)
  show ?case
  proof (cases "low \<le> high")
    case False
    then show ?thesis by (auto simp: ss_search.simps [of ss p low high])
  next
    case True
    define m where "m = (low + high) div 2"
    have m: "low \<le> m" "m \<le> high" using True by (simp_all add: m_def)
    have mono: "ss ! nat x < ss ! nat y" if "0 \<le> x" "x < y" "y \<le> high" for x y
    proof -
      have "nat x < nat y" "nat y < length ss" using that "1.prems"(3) by auto
      with "1.prems"(1) show ?thesis by (rule sorted_wrt_nth_less)
    qed
    consider (lo) "ss ! nat m < p_start p" | (hi) "\<not> ss ! nat m < p_start p" "ss ! nat m \<ge> p_end p"
      | (hit) "\<not> ss ! nat m < p_start p" "\<not> ss ! nat m \<ge> p_end p" by blast
    then show ?thesis
    proof cases
      case lo
      have e: "ss_search ss p low high = ss_search ss p (m + 1) high"
        using True lo by (simp add: ss_search.simps [of ss p low high] Let_def m_def)
      have IH: "case ss_search ss p (m + 1) high of
          Some h \<Rightarrow> h \<in> set ss \<and> p_start p \<le> h \<and> h < p_end p
        | None \<Rightarrow> \<forall>x. m + 1 \<le> x \<and> x \<le> high \<longrightarrow> \<not> (p_start p \<le> ss ! nat x \<and> ss ! nat x < p_end p)"
        by (rule "1.IH"(1) [OF _ m_def]) (use True lo "1.prems" m in auto)
      have below: "\<not> p_start p \<le> ss ! nat x" if "low \<le> x" "x \<le> m" for x
        using mono [of x m] that lo m "1.prems"(2) by (cases "x = m") auto
      show ?thesis
      proof (cases "ss_search ss p (m + 1) high")
        case None
        have "\<not> (p_start p \<le> ss ! nat x \<and> ss ! nat x < p_end p)" if "low \<le> x" "x \<le> high" for x
          using IH None below [of x] that by (cases "x \<le> m") auto
        then show ?thesis using None e by simp
      next
        case (Some h)
        then show ?thesis using IH e by simp
      qed
    next
      case hi
      have e: "ss_search ss p low high = ss_search ss p low (m - 1)"
        using True hi by (simp add: ss_search.simps [of ss p low high] Let_def m_def)
      have IH: "case ss_search ss p low (m - 1) of
          Some h \<Rightarrow> h \<in> set ss \<and> p_start p \<le> h \<and> h < p_end p
        | None \<Rightarrow> \<forall>x. low \<le> x \<and> x \<le> m - 1 \<longrightarrow> \<not> (p_start p \<le> ss ! nat x \<and> ss ! nat x < p_end p)"
        by (rule "1.IH"(2) [OF _ m_def]) (use True hi "1.prems" m in auto)
      have above: "\<not> ss ! nat x < p_end p" if "m \<le> x" "x \<le> high" for x
        using mono [of m x] that hi m "1.prems"(2) by (cases "x = m") (auto simp: not_less)
      show ?thesis
      proof (cases "ss_search ss p low (m - 1)")
        case None
        have "\<not> (p_start p \<le> ss ! nat x \<and> ss ! nat x < p_end p)" if "low \<le> x" "x \<le> high" for x
          using IH None above [of x] that by (cases "m \<le> x") auto
        then show ?thesis using None e by simp
      next
        case (Some h)
        then show ?thesis using IH e by simp
      qed
    next
      case hit
      then have e: "ss_search ss p low high = Some (ss ! nat m)"
        using True by (simp add: ss_search.simps [of ss p low high] Let_def m_def)
      have "nat m < length ss" using m "1.prems" by linarith
      then show ?thesis using hit e by (auto simp: not_less not_le)
    qed
  qed
qed

lemma vdesc_is_live_ok:
  assumes ss: "sorted_wrt (<) ss" and st: "vd_cno vd \<noteq> 0 \<longrightarrow> p_start (vd_period vd) \<noteq> 0"
    and lh: "last_hit = 0 \<or> last_hit \<in> set ss"
    and r: "nilfs_vdesc_is_live vd protect ss last_hit = (live, last_hit')"
  shows "live = vdesc_live_spec vd protect (set ss) \<and> (last_hit' = 0 \<or> last_hit' \<in> set ss)"
proof -
  let ?p = "vd_period vd" and ?n = "length ss"
  define hitset where "hitset = (\<exists>c \<in> set ss. p_start ?p \<le> c \<and> c < p_end ?p)"
  have mono: "ss ! i \<le> ss ! j" if "i \<le> j" "j < ?n" for i j
    using sorted_wrt_nth_less [OF ss, of i j] that by (cases "i = j") (auto simp: less_imp_le)
  have out: "\<not> hitset" if "?n = 0 \<or> p_start ?p > ss ! (?n - 1) \<or> p_end ?p \<le> ss ! 0"
  proof
    assume hitset
    then obtain i where i: "i < ?n" "p_start ?p \<le> ss ! i" "ss ! i < p_end ?p"
      by (auto simp: hitset_def in_set_conv_nth)
    then have m1: "ss ! i \<le> ss ! (?n - 1)" "ss ! 0 \<le> ss ! i" by (auto intro: mono)
    have "p_start ?p \<le> ss ! (?n - 1)" "ss ! 0 < p_end ?p"
      using order_trans [OF i(2) m1(1)] le_less_trans [OF m1(2) i(3)] .
    then have "\<not> p_start ?p > ss ! (?n - 1)" "\<not> p_end ?p \<le> ss ! 0"
      using i(2,3) by (auto simp: not_less not_le)
    then show False using that i(1) by auto
  qed
  have srch: "case ss_search ss ?p 0 (int ?n - 1) of
      Some h \<Rightarrow> h \<in> set ss \<and> hitset | None \<Rightarrow> \<not> hitset"
  proof (cases "ss_search ss ?p 0 (int ?n - 1)")
    case None
    then have "\<forall>x. 0 \<le> x \<and> x \<le> int ?n - 1 \<longrightarrow> \<not> (p_start ?p \<le> ss ! nat x \<and> ss ! nat x < p_end ?p)"
      using ss_search_ok [OF ss, of 0 "int ?n - 1" ?p] by simp
    then have "\<not> (p_start ?p \<le> ss ! i \<and> ss ! i < p_end ?p)" if "i < ?n" for i
      using that by (metis nat_int of_nat_0_le_iff of_nat_less_iff zle_diff1_eq)
    then show ?thesis using None by (auto simp: hitset_def in_set_conv_nth)
  next
    case (Some h)
    then show ?thesis using ss_search_ok [OF ss, of 0 "int ?n - 1" ?p] by (auto simp: hitset_def)
  qed
  have last: "hitset" if "vd_cno vd \<noteq> 0" "last_hit \<ge> p_start ?p \<and> last_hit < p_end ?p"
    using that lh st by (auto simp: hitset_def)
  show ?thesis
    using r out srch last lh unfolding vdesc_live_spec_def hitset_def [symmetric]
    by (auto simp: nilfs_vdesc_is_live_def Let_def split: if_splits option.splits)
qed

section \<open>Snapshots\<close>

lemma store_snapshots_sorted:
  assumes "store_snapshots nsss prev ss cis = Inr (prev', ss')" "sorted_wrt (<) ss"
    and "\<forall>c \<in> set ss. 0 < c \<and> c \<le> prev"
  shows "sorted_wrt (<) ss' \<and> (\<forall>c \<in> set ss'. 0 < c \<and> c \<le> prev')"
  using assms
proof (induction nsss prev ss cis rule: store_snapshots.induct)
  case (2 nsss prev ss ci cis)
  then have a: "\<not> length ss \<ge> nsss" "\<not> prev \<ge> ci_cno ci"
    and b: "store_snapshots nsss (ci_cno ci) (ss @ [ci_cno ci]) cis = Inr (prev', ss')"
    by (auto split: if_splits)
  have "prev < ci_cno ci" using a(2) by simp
  then have "0 < ci_cno ci" by (metis word_gt_0 word_not_simps(1))
  moreover have lt: "\<forall>c \<in> set ss. c < ci_cno ci"
    using 2(4) \<open>prev < ci_cno ci\<close> by (meson le_less_trans)
  moreover have "sorted_wrt (<) (ss @ [ci_cno ci])" using 2(3) lt by (simp add: sorted_wrt_append)
  moreover have "\<forall>c \<in> set (ss @ [ci_cno ci]). 0 < c \<and> c \<le> ci_cno ci"
    using 2(4) lt \<open>0 < ci_cno ci\<close> by (simp add: less_imp_le)
  ultimately show ?case using 2(1) [OF a b] by blast
qed auto

lemma get_snapshot_loop_sorted:
  assumes "get_snapshot_loop k nsss cno prev ss s = (Inr ss', s')" "sorted_wrt (<) ss"
    and "\<forall>c \<in> set ss. 0 < c \<and> c \<le> prev"
  shows "sorted_wrt (<) ss' \<and> (\<forall>c \<in> set ss'. 0 < c)"
  using assms
proof (induction k nsss cno prev ss s rule: get_snapshot_loop.induct)
  case (1 k nsss cno prev ss s)
  show ?case
  proof (cases "length ss < nsss")
    case False
    then show ?thesis using "1.prems" by (simp add: get_snapshot_loop.simps [of k nsss])
  next
    case True
    obtain r s1 where q: "nilfs_get_cpinfo k cno NILFS_SNAPSHOT NILFS_GC_NCPINFO s = (r, s1)" by fastforce
    obtain cis where r: "r = Inr cis"
      using "1.prems"(1) True q by (cases r) (auto simp: get_snapshot_loop.simps [of k nsss])
    show ?thesis
    proof (cases cis)
      case Nil
      then show ?thesis using "1.prems" True q r by (simp add: get_snapshot_loop.simps [of k nsss])
    next
      case (Cons ci cs)
      obtain p2 s2 where st: "store_snapshots nsss prev ss (ci # cs) = Inr (p2, s2)"
        using "1.prems"(1) True q r Cons
        by (auto simp: get_snapshot_loop.simps [of k nsss] simp del: store_snapshots.simps split: sum.splits)
      note so = store_snapshots_sorted [OF st "1.prems"(2,3)]
      show ?thesis
      proof (cases "ci_next (last (ci # cs)) = 0")
        case True
        then show ?thesis
          using "1.prems"(1) \<open>length ss < nsss\<close> q r Cons st so
          by (auto simp: get_snapshot_loop.simps [of k nsss] Let_def simp del: store_snapshots.simps last.simps)
      next
        case False
        then have "get_snapshot_loop k nsss (ci_next (last (ci # cs))) p2 s2 s1 = (Inr ss', s')"
          using "1.prems"(1) True q r Cons st
          by (simp add: get_snapshot_loop.simps [of k nsss cno] Let_def del: store_snapshots.simps last.simps)
        then show ?thesis
          using "1.IH" [OF _ q [symmetric] r Cons st refl _ False] True so by simp
      qed
    qed
  qed
qed

lemma get_snapshot_sorted:
  assumes "nilfs_get_snapshot k s = (Inr ss, s')"
  shows "sorted_wrt (<) ss \<and> (\<forall>c \<in> set ss. 0 < c)"
  using assms get_snapshot_loop_sorted [of k _ 0 0 "[]"]
  by (auto simp: nilfs_get_snapshot_def bindE_Inr split: if_splits prod.splits bool.splits)

section \<open>Compaction of vectors\<close>

lemma slot_vlist: "i < length (vlist v) \<Longrightarrow> slot v i = vlist v ! i"
  by (simp add: slot_def vlist_def)

lemma get_element_ok:
  assumes "vector_inv v" "i < length (vlist v)" "length (vlist v) \<le> 2 ^ 32"
  shows "nilfs_vector_get_element v (of_nat i) = Some i"
proof -
  have "unat (of_nat i :: u32) = i" using assms by (intro unat_of_nat_u32) simp
  then show ?thesis using assms by (simp add: nilfs_vector_get_element_def word_less_nat_alt)
qed

lemma size_ok: "vector_inv v \<Longrightarrow> unat (nilfs_vector_get_size v) = length (vlist v)"
  by (rule vec.size_ok)

text \<open>Cutting out the run \<open>[i, jx)\<close>, through the vector's interface.\<close>

lemma delete_run_ok:
  assumes "vector_inv v" "i < jx" "jx \<le> length (vlist v)" "length (vlist v) \<le> 2 ^ 32"
  shows "vector_inv (delete_run v i (jx - i)) \<and> vlist (delete_run v i (jx - i)) = take i (vlist v) @ drop jx (vlist v)"
proof -
  let ?xs = "vlist v"
  have split: "?xs = take i ?xs @ take (jx - i) (drop i ?xs) @ drop jx ?xs"
    using assms by (metis append_take_drop_id drop_drop le_add_diff_inverse2 less_imp_le)
  have l: "length (take i ?xs) = i" "length (take (jx - i) (drop i ?xs)) = jx - i" using assms by auto
  have ne: "take (jx - i) (drop i ?xs) \<noteq> []" using l(2) assms(2) by auto
  obtain v' where "nilfs_vector_delete_elements v (of_nat i) (of_nat (jx - i)) = Inr v'" "vector_inv v'"
    "vlist v' = take i ?xs @ drop jx ?xs"
    using vec.delete_run [OF assms(1) split ne] l assms by auto
  then show ?thesis by (simp add: delete_run_def)
qed

text \<open>
  The loop structure all three compactions share: a maximal run of rejected elements at
  the current index is cut out, then the index moves on.
\<close>

lemma filter_step:
  assumes "i < jx" "jx \<le> length xs" "\<forall>x \<in> set (take (jx - i) (drop i xs)). \<not> P x" "jx < length xs \<longrightarrow> P (xs ! jx)"
    and "ys = take i xs @ drop jx xs"
  shows "take (i + 1) ys @ filter P (drop (i + 1) ys) = take i xs @ filter P (drop i xs)"
proof -
  have d: "drop i xs = take (jx - i) (drop i xs) @ drop jx xs"
    using assms(1) by (metis append_take_drop_id drop_drop le_add_diff_inverse2 less_imp_le)
  have f: "filter P (drop i xs) = filter P (drop jx xs)"
    using assms(3) by (subst d) (simp add: filter_empty_conv)
  have l: "length (take i xs) = i" using assms by simp
  show ?thesis
  proof (cases "jx < length xs")
    case True
    then have "drop jx xs = xs ! jx # drop (Suc jx) xs" by (simp add: Cons_nth_drop_Suc)
    then show ?thesis using assms(4) True l by (simp add: assms(5) f)
  next
    case False
    then show ?thesis using l assms(2) by (simp add: assms(5) f)
  qed
qed

lemma filter_step_keep:
  assumes "i < length xs" "P (xs ! i)"
  shows "take (i + 1) xs @ filter P (drop (i + 1) xs) = take i xs @ filter P (drop i xs)"
  using assms by (simp add: take_Suc_conv_app_nth Cons_nth_drop_Suc [symmetric])

subsection \<open>nilfs_toss_bdescs\<close>

lemma toss_bdesc_run_ok:
  assumes "vector_inv v" "jx \<le> length (vlist v)"
  shows "(\<forall>x \<in> set (take (toss_bdesc_run v jx - jx) (drop jx (vlist v))). \<not> nilfs_bdesc_is_live x)
    \<and> (toss_bdesc_run v jx < length (vlist v) \<longrightarrow> nilfs_bdesc_is_live (vlist v ! toss_bdesc_run v jx))
    \<and> jx \<le> toss_bdesc_run v jx \<and> toss_bdesc_run v jx \<le> length (vlist v)"
  using assms
proof (induction v jx rule: toss_bdesc_run.induct)
  case (1 v jx)
  show ?case
  proof (cases "jx < length (vlist v) \<and> \<not> nilfs_bdesc_is_live (vlist v ! jx)")
    case True
    then have c: "jx < unat (nilfs_vector_get_size v) \<and> \<not> nilfs_bdesc_is_live (slot v jx)"
      using 1 by (simp add: size_ok slot_vlist)
    then have e: "toss_bdesc_run v jx = toss_bdesc_run v (jx + 1)" by (simp add: toss_bdesc_run.simps [of v jx])
    note IH = "1.IH" [OF c "1.prems"(1)]
    have "take (toss_bdesc_run v (jx + 1) - jx) (drop jx (vlist v))
        = vlist v ! jx # take (toss_bdesc_run v (jx + 1) - (jx + 1)) (drop (jx + 1) (vlist v))"
      using True IH by (simp add: Cons_nth_drop_Suc [symmetric] take_Cons' Suc_le_eq)
    then show ?thesis using IH True by (simp add: e)
  next
    case False
    then have "\<not> (jx < unat (nilfs_vector_get_size v) \<and> \<not> nilfs_bdesc_is_live (slot v jx))"
      using slot_vlist [of jx v] "1.prems"(1) by (auto simp: size_ok)
    then have "toss_bdesc_run v jx = jx" by (subst toss_bdesc_run.simps) (rule if_not_P)
    then show ?thesis using False "1.prems" by auto
  qed
qed

lemma toss_bdescs_loop_ok:
  assumes "vector_inv v" "length (vlist v) \<le> 2 ^ 32"
  shows "vector_inv (toss_bdescs_loop i v)
    \<and> vlist (toss_bdescs_loop i v) = take i (vlist v) @ filter nilfs_bdesc_is_live (drop i (vlist v))"
  using assms
proof (induction i v rule: toss_bdescs_loop.induct)
  case (1 i v)
  show ?case
  proof (cases "i < length (vlist v)")
    case False
    then show ?thesis using "1.prems" by (simp add: toss_bdescs_loop.simps [of i v] size_ok)
  next
    case True
    let ?j = "toss_bdesc_run v i" and ?xs = "vlist v"
    define w where "w = (if ?j > i then delete_run v i (?j - i) else v)"
    have e: "toss_bdescs_loop i v = toss_bdescs_loop (i + 1) w"
      using True "1.prems" by (simp add: toss_bdescs_loop.simps [of i v] size_ok Let_def w_def)
    note r = toss_bdesc_run_ok [OF "1.prems"(1), of i]
    have w: "vector_inv w" "vlist w = (if ?j > i then take i ?xs @ drop ?j ?xs else ?xs)"
      using delete_run_ok [OF "1.prems"(1), of i ?j] r True "1.prems" by (auto simp: w_def)
    then have "vector_inv (toss_bdescs_loop (i + 1) w)
        \<and> vlist (toss_bdescs_loop (i + 1) w) = take (i + 1) (vlist w) @ filter nilfs_bdesc_is_live (drop (i + 1) (vlist w))"
      using "1.IH" [OF _ refl] True "1.prems" r by (auto simp: size_ok w_def)
    moreover have "take (i + 1) (vlist w) @ filter nilfs_bdesc_is_live (drop (i + 1) (vlist w))
        = take i ?xs @ filter nilfs_bdesc_is_live (drop i ?xs)"
    proof (cases "?j > i")
      case True
      then show ?thesis using filter_step [of i ?j ?xs nilfs_bdesc_is_live "vlist w"] r w(2) \<open>i < length ?xs\<close> by auto
    next
      case False
      then have "?j = i" using r True by auto
      then show ?thesis using filter_step_keep [of i ?xs] r True w(2) by auto
    qed
    ultimately show ?thesis by (simp add: e)
  qed
qed

subsection \<open>nilfs_toss_vdescs\<close>

text \<open>The conditions under which the loops run: well-formed vectors, ascending snapshots.\<close>

definition toss_pre :: "u64 list \<Rightarrow> vdescv \<Rightarrow> u64 \<times> periodv \<times> vblocknrv \<Rightarrow> bool" where
  "toss_pre ss v = (\<lambda>(last_hit, pv, bv).
     vector_inv v \<and> length (vlist v) \<le> 2 ^ 32 \<and> vector_inv pv \<and> vector_inv bv
     \<and> sorted_wrt (<) ss \<and> (last_hit = 0 \<or> last_hit \<in> set ss)
     \<and> (\<forall>vd \<in> set (vlist v). vd_cno vd \<noteq> 0 \<longrightarrow> p_start (vd_period vd) \<noteq> 0))"

definition dead_periods :: "nilfs_vdesc list \<Rightarrow> nilfs_period list" where
  "dead_periods vds = map vd_period (filter (\<lambda>vd. vd_cno vd \<noteq> 0) vds)"

lemma dead_periods_simps [simp]:
  "dead_periods [] = []"
  "dead_periods (vd # vds) = (if vd_cno vd \<noteq> 0 then [vd_period vd] else []) @ dead_periods vds"
  "dead_periods (xs @ ys) = dead_periods xs @ dead_periods ys"
  by (simp_all add: dead_periods_def)

definition toss_run_post :: "u64 \<Rightarrow> u64 list \<Rightarrow> vdescv \<Rightarrow> nat \<Rightarrow> periodv \<Rightarrow> vblocknrv
    \<Rightarrow> nat \<Rightarrow> u64 \<times> periodv \<times> vblocknrv \<Rightarrow> bool" where
  "toss_run_post protcno ss v jx pv bv jx' x \<longleftrightarrow>
     (let run = take (jx' - jx) (drop jx (vlist v)) in
      toss_pre ss v x \<and> jx \<le> jx' \<and> jx' \<le> length (vlist v)
      \<and> (\<forall>vd \<in> set run. \<not> vdesc_live_spec vd protcno (set ss))
      \<and> (jx' < length (vlist v) \<longrightarrow> vdesc_live_spec (vlist v ! jx') protcno (set ss))
      \<and> vlist (snd (snd x)) = vlist bv @ map vd_vblocknr run
      \<and> vlist (fst (snd x)) = vlist pv @ dead_periods run)"

lemma toss_run_ok:
  assumes "toss_run k j protcno ss v jx (last_hit, pv, bv) s = (Inr (jx', x), s')"
    and "toss_pre ss v (last_hit, pv, bv)" "jx \<le> length (vlist v)"
  shows "toss_run_post protcno ss v jx pv bv jx' x"
  using assms
proof (induction k j protcno ss v jx "(last_hit, pv, bv)" s arbitrary: last_hit pv bv rule: toss_run.induct)
  case (1 k j protcno ss v jx last_hit pv bv s)
  have vi: "vector_inv v" "length (vlist v) \<le> 2 ^ 32" using "1.prems"(2) by (auto simp: toss_pre_def)
  show ?case
  proof (cases "jx < length (vlist v)")
    case False
    then have "jx' = jx" "x = (last_hit, pv, bv)"
      using "1.prems"(1) vi by (auto simp: toss_run.simps [of k j protcno ss v jx] size_ok)
    then show ?thesis using False "1.prems" by (simp add: toss_run_post_def)
  next
    case True
    let ?vd = "vlist v ! jx"
    have ge: "nilfs_vector_get_element v (of_nat jx) = Some jx" by (rule get_element_ok [OF vi(1) True vi(2)])
    have sl: "slot v jx = ?vd" using True by (rule slot_vlist)
    obtain live lh1 where lv: "nilfs_vdesc_is_live ?vd protcno ss last_hit = (live, lh1)" by fastforce
    have vd: "?vd \<in> set (vlist v)" using True by simp
    have lo: "live = vdesc_live_spec ?vd protcno (set ss)" "lh1 = 0 \<or> lh1 \<in> set ss"
      using vdesc_is_live_ok [OF _ _ _ lv] "1.prems"(2) vd by (auto simp: toss_pre_def)
    have sz: "jx < unat (nilfs_vector_get_size v)" using True vi by (simp add: size_ok)
    show ?thesis
    proof (cases live)
      case True
      then have "jx' = jx" "x = (lh1, pv, bv)"
        using "1.prems"(1) sz ge sl lv by (auto simp: toss_run.simps [of k j protcno ss v jx])
      then show ?thesis using True lo "1.prems" by (auto simp: toss_pre_def toss_run_post_def)
    next
      case False
      obtain rb s1 where pb: "vector_push (lib_alloc k) (j_u64 j) bv (vd_vblocknr ?vd) s = (rb, s1)" by fastforce
      obtain bv1 where rb: "rb = Inr bv1"
        using "1.prems"(1) sz ge sl lv False pb
        by (cases rb) (auto simp: toss_run.simps [of k j protcno ss v jx])
      have bv1: "vector_inv bv1" "vlist bv1 = vlist bv @ [vd_vblocknr ?vd]"
        using vec.push_ok [of bv "lib_alloc k" "j_u64 j"] pb rb "1.prems"(2) by (auto simp: toss_pre_def)
      have run: "take (jx' - jx) (drop jx (vlist v)) = ?vd # take (jx' - (jx + 1)) (drop (jx + 1) (vlist v))"
        if "jx + 1 \<le> jx'"
        using True that by (simp add: Cons_nth_drop_Suc [symmetric] take_Cons')
      show ?thesis
      proof (cases "vd_cno ?vd = 0")
        case c: True
        have rec: "toss_run k j protcno ss v (jx + 1) (lh1, pv, bv1) s1 = (Inr (jx', x), s')"
          using "1.prems"(1) sz ge sl lv False pb rb c by (simp add: toss_run.simps [of k j protcno ss v jx])
        have pre: "toss_pre ss v (lh1, pv, bv1)" using "1.prems"(2) bv1 lo(2) by (auto simp: toss_pre_def)
        have "toss_run_post protcno ss v (jx + 1) pv bv1 jx' x"
          using "1.hyps"(2) [OF _ ge refl _ refl _ pb [symmetric, folded sl] rb _ rec pre] lv sl False c True sz by simp
        then show ?thesis using False c lo run bv1 by (auto simp: toss_run_post_def Let_def)
      next
        case c: False
        obtain rp s2 where pp: "vector_push (lib_alloc k) (j_period j) pv (vd_period ?vd) s1 = (rp, s2)" by fastforce
        obtain pv1 where rp: "rp = Inr pv1"
          using "1.prems"(1) sz ge sl lv False pb rb c pp
          by (cases rp) (auto simp: toss_run.simps [of k j protcno ss v jx])
        have pv1: "vector_inv pv1" "vlist pv1 = vlist pv @ [vd_period ?vd]"
          using vec.push_ok [of pv "lib_alloc k" "j_period j"] pp rp "1.prems"(2) by (auto simp: toss_pre_def)
        have rec: "toss_run k j protcno ss v (jx + 1) (lh1, pv1, bv1) s2 = (Inr (jx', x), s')"
          using "1.prems"(1) sz ge sl lv False pb rb c pp rp by (simp add: toss_run.simps [of k j protcno ss v jx])
        have pre: "toss_pre ss v (lh1, pv1, bv1)" using "1.prems"(2) bv1 pv1 lo(2) by (auto simp: toss_pre_def)
        have "toss_run_post protcno ss v (jx + 1) pv1 bv1 jx' x"
          using "1.hyps"(1) [OF _ ge refl _ refl _ pb [symmetric, folded sl] rb _ pp [symmetric, folded sl] rp rec pre]
            lv sl False c True sz by simp
        then show ?thesis using False c lo run bv1 pv1 by (auto simp: toss_run_post_def Let_def)
      qed
    qed
  qed
qed


lemma dead_periods_filter:
  "dead_periods (filter P vds) = map vd_period (filter (\<lambda>vd. P vd \<and> vd_cno vd \<noteq> 0) vds)"
  by (simp add: dead_periods_def)

text \<open>The whole loop is a partition of the descriptors by the live/dead decision.\<close>

lemma filter_step_neg:
  assumes "i \<le> jx" "jx \<le> length xs" "i < length xs" "\<forall>x \<in> set (take (jx - i) (drop i xs)). \<not> P x"
    and "jx < length xs \<longrightarrow> P (xs ! jx)" "ys = (if i < jx then take i xs @ drop jx xs else xs)"
  shows "filter (\<lambda>x. \<not> P x) (drop i xs) = take (jx - i) (drop i xs) @ filter (\<lambda>x. \<not> P x) (drop (i + 1) ys)"
proof -
  have d: "drop i xs = take (jx - i) (drop i xs) @ drop jx xs"
    using assms(1) by (metis append_take_drop_id drop_drop le_add_diff_inverse2)
  have f: "filter (\<lambda>x. \<not> P x) (drop i xs) = take (jx - i) (drop i xs) @ filter (\<lambda>x. \<not> P x) (drop jx xs)"
    using assms(4) by (subst d) (simp add: filter_id_conv)
  have "filter (\<lambda>x. \<not> P x) (drop jx xs) = filter (\<lambda>x. \<not> P x) (drop (i + 1) ys)"
  proof (cases "jx < length xs")
    case True
    then have "drop jx xs = xs ! jx # drop (Suc jx) xs" by (simp add: Cons_nth_drop_Suc)
    then show ?thesis using assms True by auto
  next
    case False
    then show ?thesis using assms by auto
  qed
  with f show ?thesis by simp
qed

lemma toss_vdescs_loop_ok:
  assumes "toss_vdescs_loop k j protcno ss i v (last_hit, pv, bv) s = (Inr (v', pv', bv'), s')"
    and "toss_pre ss v (last_hit, pv, bv)"
  shows "vector_inv v' \<and> vector_inv pv' \<and> vector_inv bv'
    \<and> vlist v' = take i (vlist v) @ filter (\<lambda>vd. vdesc_live_spec vd protcno (set ss)) (drop i (vlist v))
    \<and> vlist bv' = vlist bv @ map vd_vblocknr (filter (\<lambda>vd. \<not> vdesc_live_spec vd protcno (set ss)) (drop i (vlist v)))
    \<and> vlist pv' = vlist pv @ dead_periods (filter (\<lambda>vd. \<not> vdesc_live_spec vd protcno (set ss)) (drop i (vlist v)))"
  using assms
proof (induction k j protcno ss i v "(last_hit, pv, bv)" s arbitrary: last_hit pv bv rule: toss_vdescs_loop.induct)
  case (1 k j protcno ss i v last_hit pv bv s)
  let ?L = "\<lambda>vd. vdesc_live_spec vd protcno (set ss)" and ?xs = "vlist v"
  have vi: "vector_inv v" "length ?xs \<le> 2 ^ 32" "vector_inv pv" "vector_inv bv"
    using "1.prems"(2) by (auto simp: toss_pre_def)
  show ?case
  proof (cases "i < length ?xs")
    case False
    then show ?thesis
      using "1.prems"(1) vi by (auto simp: toss_vdescs_loop.simps [of k j protcno ss i v] size_ok)
  next
    case True
    then have sz: "i < unat (nilfs_vector_get_size v)" using vi by (simp add: size_ok)
    obtain r s1 where tr: "toss_run k j protcno ss v i (last_hit, pv, bv) s = (r, s1)" by fastforce
    obtain jx lh pv1 bv1 where r: "r = Inr (jx, lh, pv1, bv1)"
      using "1.prems"(1) sz tr by (cases r) (auto simp: toss_vdescs_loop.simps [of k j protcno ss i v])
    define w where "w = (if jx > i then delete_run v i (jx - i) else v)"
    have rec: "toss_vdescs_loop k j protcno ss (i + 1) w (lh, pv1, bv1) s1 = (Inr (v', pv', bv'), s')"
      using "1.prems"(1) sz tr r by (simp add: toss_vdescs_loop.simps [of k j protcno ss i v] w_def)
    have "toss_run_post protcno ss v i pv bv jx (lh, pv1, bv1)"
      using toss_run_ok [OF tr [unfolded r] "1.prems"(2)] True by simp
    then have post: "toss_pre ss v (lh, pv1, bv1)" "i \<le> jx" "jx \<le> length ?xs"
      "\<forall>vd \<in> set (take (jx - i) (drop i ?xs)). \<not> ?L vd" "jx < length ?xs \<longrightarrow> ?L (?xs ! jx)"
      "vlist bv1 = vlist bv @ map vd_vblocknr (take (jx - i) (drop i ?xs))"
      "vlist pv1 = vlist pv @ dead_periods (take (jx - i) (drop i ?xs))"
      by (simp_all add: toss_run_post_def Let_def)
    have w: "vector_inv w" "vlist w = (if i < jx then take i ?xs @ drop jx ?xs else ?xs)"
      using delete_run_ok [OF vi(1), of i jx] post(3) vi by (auto simp: w_def)
    have pre: "toss_pre ss w (lh, pv1, bv1)"
      using post(1) w by (auto simp: toss_pre_def dest: in_set_takeD in_set_dropD)
    have "vlist v' = take (i + 1) (vlist w) @ filter ?L (drop (i + 1) (vlist w))
        \<and> vector_inv v' \<and> vector_inv pv' \<and> vector_inv bv'
        \<and> vlist bv' = vlist bv1 @ map vd_vblocknr (filter (\<lambda>vd. \<not> ?L vd) (drop (i + 1) (vlist w)))
        \<and> vlist pv' = vlist pv1 @ dead_periods (filter (\<lambda>vd. \<not> ?L vd) (drop (i + 1) (vlist w)))"
      using "1.hyps" [OF _ tr [symmetric] r refl refl refl] rec pre sz by (simp add: w_def)
    moreover have "take (i + 1) (vlist w) @ filter ?L (drop (i + 1) (vlist w)) = take i ?xs @ filter ?L (drop i ?xs)"
    proof (cases "i < jx")
      case True
      then show ?thesis using filter_step [of i jx ?xs ?L "vlist w"] post w(2) by simp
    next
      case False
      then show ?thesis using filter_step_keep [of i ?xs ?L] post w(2) True by simp
    qed
    moreover note filter_step_neg [OF post(2,3) True post(4,5) w(2)]
    ultimately show ?thesis using post(6,7) by simp
  qed
qed

lemma toss_vdescs_ok:
  assumes "nilfs_toss_vdescs k j v pv bv protcno s = (Inr (v', pv', bv'), s')"
    and "vector_inv v" "length (vlist v) \<le> 2 ^ 32" "vector_inv pv" "vector_inv bv"
    and "\<forall>vd \<in> set (vlist v). vd_cno vd \<noteq> 0 \<longrightarrow> p_start (vd_period vd) \<noteq> 0"
  shows "\<exists>ss s1. nilfs_get_snapshot k s = (Inr ss, s1) \<and> sorted_wrt (<) ss
    \<and> vector_inv v' \<and> vector_inv pv' \<and> vector_inv bv'
    \<and> vlist v' = filter (\<lambda>vd. vdesc_live_spec vd protcno (set ss)) (vlist v)
    \<and> vlist bv' = vlist bv @ map vd_vblocknr (filter (\<lambda>vd. \<not> vdesc_live_spec vd protcno (set ss)) (vlist v))
    \<and> vlist pv' = vlist pv @ dead_periods (filter (\<lambda>vd. \<not> vdesc_live_spec vd protcno (set ss)) (vlist v))"
proof -
  obtain ss s1 where g: "nilfs_get_snapshot k s = (Inr ss, s1)"
    and l: "toss_vdescs_loop k j protcno ss 0 v (0, pv, bv) s1 = (Inr (v', pv', bv'), s')"
    using assms(1) by (auto simp: nilfs_toss_vdescs_def bindE_Inr)
  have so: "sorted_wrt (<) ss" using get_snapshot_sorted [OF g] by simp
  then have "toss_pre ss v (0, pv, bv)" using assms by (simp add: toss_pre_def)
  from toss_vdescs_loop_ok [OF l this] g so show ?thesis by auto
qed

subsection \<open>nilfs_unify_period\<close>

definition covers :: "nilfs_period \<Rightarrow> u64 set" where
  "covers p = {c. p_start p \<le> c \<and> c < p_end p}"

definition cover :: "nilfs_period list \<Rightarrow> u64 set" where
  "cover ps = (\<Union>p \<in> set ps. covers p)"

definition sep :: "nilfs_period \<Rightarrow> nilfs_period \<Rightarrow> bool" where
  "sep a b \<longleftrightarrow> p_end a < p_start b"

lemma cover_simps [simp]: "cover [] = {}" "cover (p # ps) = covers p \<union> cover ps" "cover (xs @ ys) = cover xs \<union> cover ys"
  by (auto simp: cover_def)

lemma covers_join:
  assumes "p_start b \<le> p_start t" "p_start t \<le> p_end b"
  shows "covers (if p_end b < p_end t then b\<lparr>p_end := p_end t\<rparr> else b) = covers b \<union> covers t"
  using assms by (auto simp: covers_def)

lemma set_slot_inv [simp]: "vector_inv (set_slot v i x) = vector_inv v" "v_nelems (set_slot v i x) = v_nelems v"
  by (simp_all add: set_slot_def vector_inv_def)

lemma vlist_set_slot: "vlist (set_slot v i x) = (vlist v)[i := x]"
  by (simp add: vlist_def set_slot_def take_update_swap)

lemma unify_run_ok:
  assumes "unify_run v i jx = (v', jx')" "vector_inv v" "i < jx" "jx \<le> length (vlist v)"
    and "\<forall>t \<in> set (drop jx (vlist v)). p_start (vlist v ! i) \<le> p_start t"
  shows "vector_inv v' \<and> jx \<le> jx' \<and> jx' \<le> length (vlist v)
    \<and> (\<exists>b. vlist v' = (vlist v)[i := b] \<and> p_start b = p_start (vlist v ! i)
        \<and> covers b = covers (vlist v ! i) \<union> cover (take (jx' - jx) (drop jx (vlist v)))
        \<and> (jx' < length (vlist v) \<longrightarrow> sep b (vlist v ! jx')))"
  using assms
proof (induction v i jx rule: unify_run.induct)
  case (1 v i jx)
  let ?xs = "vlist v"
  have sz: "unat (nilfs_vector_get_size v) = length ?xs" using "1.prems" by (simp add: size_ok)
  show ?case
  proof (cases "jx < length ?xs")
    case False
    then have "v' = v" "jx' = jx" using "1.prems"(1) sz by (auto simp: unify_run.simps [of v i jx])
    then show ?thesis using False "1.prems" by (auto intro: exI [of _ "?xs ! i"])
  next
    case True
    have sl: "slot v i = ?xs ! i" "slot v jx = ?xs ! jx" using True "1.prems"(3) by (simp_all add: slot_vlist)
    show ?thesis
    proof (cases "p_end (?xs ! i) < p_start (?xs ! jx)")
      case t: True
      then have "v' = v" "jx' = jx" using "1.prems"(1) sz True sl by (auto simp: unify_run.simps [of v i jx])
      then show ?thesis using True t "1.prems" by (auto simp: sep_def intro!: exI [of _ "?xs ! i"])
    next
      case t: False
      define b1 where "b1 = (if p_end (?xs ! i) < p_end (?xs ! jx) then (?xs ! i)\<lparr>p_end := p_end (?xs ! jx)\<rparr> else ?xs ! i)"
      define v1 where "v1 = (if p_end (?xs ! i) < p_end (?xs ! jx)
        then set_slot v i ((?xs ! i)\<lparr>p_end := p_end (?xs ! jx)\<rparr>) else v)"
      have rec: "unify_run v1 i (jx + 1) = (v', jx')"
        using "1.prems"(1) sz True sl t by (simp add: unify_run.simps [of v i jx] Let_def v1_def)
      have v1: "vector_inv v1" "vlist v1 = ?xs[i := b1]"
        using "1.prems" by (simp_all add: v1_def b1_def vlist_set_slot)
      have st: "p_start b1 = p_start (?xs ! i)" by (simp add: b1_def)
      have i: "i < length ?xs" using True "1.prems"(3) by simp
      have nth: "vlist v1 ! i = b1" "drop (jx + 1) (vlist v1) = drop (jx + 1) ?xs" "length (vlist v1) = length ?xs"
        using v1(2) i "1.prems"(3) by auto
      have inn: "?xs ! jx \<in> set (drop jx ?xs)" using True by (simp add: in_set_conv_nth) (metis add_0_right nth_drop Cons_nth_drop_Suc length_drop zero_less_diff nth_Cons_0)
      have sub: "set (drop (jx + 1) ?xs) \<subseteq> set (drop jx ?xs)" by (simp add: set_drop_subset_set_drop)
      have IH: "vector_inv v' \<and> jx + 1 \<le> jx' \<and> jx' \<le> length ?xs
        \<and> (\<exists>b. vlist v' = (vlist v1)[i := b] \<and> p_start b = p_start b1
            \<and> covers b = covers b1 \<union> cover (take (jx' - (jx + 1)) (drop (jx + 1) ?xs))
            \<and> (jx' < length ?xs \<longrightarrow> sep b (vlist v1 ! jx')))"
      proof -
        have p1: "i < jx + 1" "jx + 1 \<le> length (vlist v1)" using "1.prems"(3) True nth(3) by simp_all
        have p2: "\<forall>t \<in> set (drop (jx + 1) (vlist v1)). p_start (vlist v1 ! i) \<le> p_start t"
          unfolding nth st using "1.prems"(5) sub by blast
        have c: "\<not> \<not> jx < unat (nilfs_vector_get_size v)" using True sz by simp
        show ?thesis
          using "1.IH" [OF c refl refl, unfolded sl, OF t, folded v1_def, OF rec v1(1) p1 p2]
          by (simp only: nth)
      qed
      then obtain b where b: "vlist v' = ?xs[i := b]" "p_start b = p_start (?xs ! i)"
        "covers b = covers b1 \<union> cover (take (jx' - (jx + 1)) (drop (jx + 1) ?xs))"
        "jx' < length ?xs \<longrightarrow> sep b (?xs ! jx')"
        using v1(2) st "1.prems"(3) by auto
      have "covers b1 = covers (?xs ! i) \<union> covers (?xs ! jx)"
        unfolding b1_def using t "1.prems"(5) inn by (intro covers_join) auto
      moreover have "take (jx' - jx) (drop jx ?xs) = ?xs ! jx # take (jx' - (jx + 1)) (drop (jx + 1) ?xs)"
        using IH True by (simp add: Cons_nth_drop_Suc [symmetric] take_Cons' Suc_le_eq)
      ultimately show ?thesis using IH b by auto
    qed
  qed
qed


lemma unify_loop_ok:
  assumes "vector_inv v" "length (vlist v) \<le> 2 ^ 32" "sorted_wrt (\<lambda>a b. p_start a \<le> p_start b) (vlist v)"
    and "sorted_wrt sep (take i (vlist v))" "\<forall>a \<in> set (take i (vlist v)). \<forall>b \<in> set (drop i (vlist v)). sep a b"
  shows "vector_inv (unify_loop i v) \<and> sorted_wrt sep (vlist (unify_loop i v))
    \<and> cover (vlist (unify_loop i v)) = cover (vlist v)"
  using assms
proof (induction i v rule: unify_loop.induct)
  case (1 i v)
  let ?xs = "vlist v"
  have sz: "unat (nilfs_vector_get_size v) = length ?xs" using "1.prems" by (simp add: size_ok)
  show ?case
  proof (cases "i < length ?xs")
    case False
    then show ?thesis using "1.prems" sz by (simp add: unify_loop.simps [of i v])
  next
    case True
    obtain v1 jx where u: "unify_run v i (i + 1) = (v1, jx)" by fastforce
    have le: "\<forall>t \<in> set (drop (i + 1) ?xs). p_start (?xs ! i) \<le> p_start t"
      using "1.prems"(3) True by (metis Cons_nth_drop_Suc Suc_eq_plus1 append_take_drop_id sorted_wrt.simps(2) sorted_wrt_append)
    obtain b where r: "vector_inv v1" "i + 1 \<le> jx" "jx \<le> length ?xs" "vlist v1 = ?xs[i := b]"
      "p_start b = p_start (?xs ! i)" "covers b = covers (?xs ! i) \<union> cover (take (jx - (i + 1)) (drop (i + 1) ?xs))"
      "jx < length ?xs \<longrightarrow> sep b (?xs ! jx)"
      using unify_run_ok [OF u "1.prems"(1)] le True by auto
    define w where "w = (if jx > i + 1 then delete_run v1 (i + 1) (jx - i - 1) else v1)"
    have e: "unify_loop i v = unify_loop (i + 1) w" using True sz u by (simp add: unify_loop.simps [of i v] w_def)
    have l1: "length (vlist v1) = length ?xs" using r(4) by simp
    have upd: "?xs[i := b] = take i ?xs @ b # drop (i + 1) ?xs" using True by (simp add: upd_conv_take_nth_drop)
    have w: "vector_inv w" "vlist w = take i ?xs @ b # drop jx ?xs"
    proof -
      have "vector_inv w \<and> vlist w = take (i + 1) (vlist v1) @ drop jx (vlist v1)"
        using delete_run_ok [OF r(1), of "i + 1" jx] r(1-3) l1 "1.prems"(2) by (auto simp: w_def)
      moreover have "drop jx (vlist v1) = drop jx ?xs" using r(2,4) by (simp add: drop_update_cancel)
      moreover have "take (i + 1) (vlist v1) = take i ?xs @ [b]" using r(4) True upd by simp
      ultimately show "vector_inv w" "vlist w = take i ?xs @ b # drop jx ?xs" by auto
    qed
    have split: "?xs = take i ?xs @ ?xs ! i # take (jx - (i + 1)) (drop (i + 1) ?xs) @ drop jx ?xs"
      using True r(2) by (metis Cons_nth_drop_Suc Suc_eq_plus1 append_take_drop_id drop_drop le_add_diff_inverse2)
    have srt: "sorted_wrt (\<lambda>a b. p_start a \<le> p_start b) (take i ?xs @ ?xs ! i # take (jx - (i + 1)) (drop (i + 1) ?xs) @ drop jx ?xs)"
      using "1.prems"(3) split by simp
    have pre: "\<forall>a \<in> set (take i ?xs). sep a b \<and> (\<forall>c \<in> set (drop jx ?xs). sep a c)"
    proof -
      have "?xs ! i \<in> set (drop i ?xs)" "set (drop jx ?xs) \<subseteq> set (drop i ?xs)"
        using True r(2) set_drop_subset_set_drop [of i jx ?xs] by (simp_all add: Cons_nth_drop_Suc [symmetric])
      then show ?thesis using "1.prems"(5) r(5) by (auto simp: sep_def)
    qed
    have post: "\<forall>c \<in> set (drop jx ?xs). sep b c"
    proof (cases "jx < length ?xs")
      case True
      then have "drop jx ?xs = ?xs ! jx # drop (Suc jx) ?xs" by (simp add: Cons_nth_drop_Suc)
      moreover have "\<forall>c \<in> set (drop (Suc jx) ?xs). p_start (?xs ! jx) \<le> p_start c"
        using srt calculation by (simp add: sorted_wrt_append)
      ultimately show ?thesis using r(7) True by (auto simp: sep_def intro: less_le_trans)
    qed simp
    have "sorted_wrt (\<lambda>a b. p_start a \<le> p_start b) (vlist w)"
      using srt r(5) by (auto simp: w(2) sorted_wrt_append)
    moreover have "sorted_wrt sep (take (i + 1) (vlist w))"
      using "1.prems"(4) pre True by (auto simp: w(2) sorted_wrt_append min_def)
    moreover have "\<forall>a \<in> set (take (i + 1) (vlist w)). \<forall>c \<in> set (drop (i + 1) (vlist w)). sep a c"
      using pre post True by (auto simp: w(2) min_def)
    moreover have "length (vlist w) \<le> 2 ^ 32" using "1.prems"(2) r(2,3) True by (simp add: w(2))
    ultimately have "vector_inv (unify_loop (i + 1) w) \<and> sorted_wrt sep (vlist (unify_loop (i + 1) w))
        \<and> cover (vlist (unify_loop (i + 1) w)) = cover (vlist w)"
      using "1.IH" [OF _ u [symmetric] refl] True sz w(1) by (simp add: w_def)
    moreover have "cover (vlist w) = cover ?xs"
      using arg_cong [OF split, of cover] r(6) by (auto simp: w(2))
    ultimately show ?thesis by (simp add: e)
  qed
qed

lemma cmp_order_period: "cmp_order nilfs_comp_period (\<lambda>a b. p_start a \<le> p_start b)"
  by (auto simp: cmp_order_def nilfs_comp_period_def transp_def split: if_splits)

lemma cover_qsort [simp]: "cover (qsort cmp xs) = cover xs"
  by (simp add: cover_def)

lemma unify_period_ok:
  assumes "vector_inv v" "length (vlist v) \<le> 2 ^ 32"
  shows "vector_inv (nilfs_unify_period v) \<and> sorted_wrt sep (vlist (nilfs_unify_period v))
    \<and> cover (vlist (nilfs_unify_period v)) = cover (vlist v)"
proof -
  let ?w = "nilfs_vector_sort v nilfs_comp_period"
  have w: "vector_inv ?w" "vlist ?w = qsort nilfs_comp_period (vlist v)" using sort_ok [OF assms(1)] by auto
  then show ?thesis
    using unify_loop_ok [OF w(1), of 0] assms(2) sorted_wrt_qsort [OF cmp_order_period]
    by (simp add: nilfs_unify_period_def)
qed

section \<open>Selection of segments\<close>

text \<open>
  Deselecting keeps the array a permutation, the segments before the index in place and
  the order of the rest.
\<close>

lemma deselect_ok:
  assumes "nilfs_deselect_segment xs n i = Some (ys, n')" "n \<le> length xs"
  shows "n' = n - 1 \<and> mset ys = mset xs \<and> length ys = length xs \<and> take i ys = take i xs
    \<and> take n' ys = take i xs @ drop (i + 1) (take n xs) \<and> drop n ys = drop n xs \<and> ys ! n' = xs ! i"
proof -
  have i: "i < n" and n': "n' = n - 1" using deselect_count [OF assms(1)] by auto
  show ?thesis
  proof (cases "i < n - 1")
    case False
    then have "ys = xs" "i = n - 1" using assms(1) i by (auto simp: nilfs_deselect_segment_def split: if_splits)
    then show ?thesis using n' i assms(2) by (simp add: drop_take)
  next
    case True
    let ?m = "take (n - 1 - i) (drop (i + 1) xs)"
    have lm: "length ?m = n - 1 - i" using assms(2) True by simp
    have mm: "memmove i (i + 1) (n - 1 - i) xs = take i xs @ ?m @ drop (n - 1) xs"
      using True lm by (simp add: memmove_def put_at_def)
    have dn: "drop (n - 1) xs = xs ! (n - 1) # drop n xs"
      using Cons_nth_drop_Suc [of "n - 1" xs] i assms(2) by simp
    have "ys = (take i xs @ ?m @ drop (n - 1) xs)[n - 1 := xs ! i]"
      using assms(1) True i mm by (auto simp: nilfs_deselect_segment_def Let_def split: if_splits)
    also have "\<dots> = take i xs @ ?m @ xs ! i # drop n xs"
      using lm i assms(2) True dn by (simp add: list_update_append)
    finally have ys: "ys = take i xs @ ?m @ xs ! i # drop n xs" .
    have xs: "xs = take i xs @ xs ! i # ?m @ drop n xs"
    proof -
      have "drop i xs = xs ! i # drop (i + 1) xs" using i assms(2) by (simp add: Cons_nth_drop_Suc)
      moreover have "drop (i + 1) xs = ?m @ drop n xs"
        using True by (metis (no_types) add.commute append_take_drop_id diff_diff_left drop_drop i le_add_diff_inverse2 Suc_eq_plus1 Suc_leI)
      ultimately show ?thesis by (metis append_take_drop_id)
    qed
    have m1: "mset ys = mset xs" by (subst ys, subst (4) xs) simp
    have m2: "length ys = length xs" by (rule mset_eq_length [OF m1])
    have "?m = drop (i + 1) (take n xs)" using True by (simp add: drop_take)
    then have m3: "take n' ys = take i xs @ drop (i + 1) (take n xs)" using n' lm i assms(2) by (simp add: ys)
    have m4: "drop n ys = drop n xs" "ys ! n' = xs ! i" using n' lm i assms(2) by (auto simp: ys nth_append)
    have m5: "take i ys = take i xs" using i assms(2) by (simp add: ys)
    show ?thesis using n' m1 m2 m3 m4 m5 by blast
  qed
qed

subsection \<open>Collected descriptors\<close>

text \<open>Filling a new element: appending to the list, with the fields the source sets.\<close>

lemma fill_new_element:
  assumes "nilfs_vector_get_new_element alloc junk v s = (Inr (i, u), s')" "vector_inv v"
  shows "vector_inv (set_slot u i x) \<and> vlist (set_slot u i x) = vlist v @ [x]"
proof -
  have "vector_push alloc junk v x s = (Inr (set_slot u i x), s')" using assms(1) by (simp add: vector_push_def)
  from vec.push_ok [OF assms(2) this] show ?thesis .
qed

definition vdesc_key :: "nilfs_vdesc \<Rightarrow> u64 \<times> u64 \<times> u64 \<times> u64 \<times> u32" where
  "vdesc_key vd = (vd_ino vd, vd_cno vd, vd_blocknr vd, vd_vblocknr vd, vd_flags vd)"

definition bdesc_key :: "nilfs_bdesc \<Rightarrow> u64 \<times> u64 \<times> u64 \<times> u32" where
  "bdesc_key bd = (bd_ino bd, bd_oblocknr bd, bd_offset bd, bd_level bd)"

definition block_vkey :: "u64 \<Rightarrow> u64 \<Rightarrow> nilfs_block \<Rightarrow> u64 \<times> u64 \<times> u64 \<times> u64 \<times> u32" where
  "block_vkey ino cno b = (ino, cno, bk_blocknr b, le64_at (fl_mem (bk_file b)) (bk_binfo b),
     if nilfs_block_is_data b then 0 else 1)"

definition block_bkey :: "u64 \<Rightarrow> nilfs_block \<Rightarrow> u64 \<times> u64 \<times> u64 \<times> u32" where
  "block_bkey ino b = (ino, bk_blocknr b, le64_at (fl_mem (bk_file b)) (bk_binfo b),
     if nilfs_block_is_data b then 0 else ucast (fl_mem (bk_file b) ! (bk_binfo b + 8)))"

lemma vdesc_key_fill: "vdesc_key (fill_vdesc ino cno b vd) = block_vkey ino cno b"
  by (simp add: fill_vdesc_def Let_def vdesc_key_def block_vkey_def)

lemma bdesc_key_fill: "bdesc_key (fill_bdesc ino b bd) = block_bkey ino b"
  by (simp add: fill_bdesc_def Let_def bdesc_key_def block_bkey_def)

lemma acc_vdesc_ok:
  assumes "acc_vdesc k j ino cno b vv s = (Inr vv', s')" "vector_inv vv"
  shows "vector_inv vv' \<and> (\<exists>vd. vlist vv' = vlist vv @ [vd] \<and> vdesc_key vd = block_vkey ino cno b)"
  using assms by (auto simp: acc_vdesc_def bindE_Inr vdesc_key_fill dest!: fill_new_element)

lemma acc_bdesc_ok:
  assumes "acc_bdesc k j ino b bv s = (Inr bv', s')" "vector_inv bv"
  shows "vector_inv bv' \<and> (\<exists>bd. vlist bv' = vlist bv @ [bd] \<and> bdesc_key bd = block_bkey ino b)"
  using assms by (auto simp: acc_bdesc_def bindE_Inr bdesc_key_fill dest!: fill_new_element)

text \<open>A loop whose body appends one element with a known key.\<close>

lemma foldE_append:
  assumes "foldE f bs v s = (Inr v', s')" "vector_inv v"
    and step: "\<And>b v s v' s'. f b v s = (Inr v', s') \<Longrightarrow> vector_inv v \<Longrightarrow>
      vector_inv v' \<and> (\<exists>x. vlist v' = vlist v @ [x] \<and> key x = g b)"
  shows "vector_inv v' \<and> (\<exists>xs. vlist v' = vlist v @ xs \<and> map key xs = map g bs)"
  using assms(1,2)
proof (induction bs arbitrary: v s)
  case (Cons b bs)
  from Cons.prems(1) obtain u t where u: "f b v s = (Inr u, t)" "foldE f bs u t = (Inr v', s')"
    by (auto elim: bindE_InrE)
  obtain x where x: "vector_inv u" "vlist u = vlist v @ [x]" "key x = g b" using step [OF u(1) Cons.prems(2)] by auto
  obtain xs where "vector_inv v'" "vlist v' = vlist u @ xs" "map key xs = map g bs" using Cons.IH [OF u(2) x(1)] by auto
  then show ?case using x by (intro conjI exI [of _ "x # xs"]) auto
qed simp

lemma acc_blocks_file_ok:
  assumes "nilfs_acc_blocks_file k j f (vv, bv) s = (Inr (vv', bv'), s')" "vector_inv vv" "vector_inv bv"
  shows "vector_inv vv' \<and> vector_inv bv' \<and> (\<exists>vs bs. vlist vv' = vlist vv @ vs \<and> vlist bv' = vlist bv @ bs
    \<and> (if nilfs_file_use_real_blocknr f
       then vs = [] \<and> map bdesc_key bs = map (block_bkey (fi_ino (fl_mem f) (fl_finfo f))) (nilfs_block_for_each f)
       else bs = [] \<and> map vdesc_key vs = map (block_vkey (fi_ino (fl_mem f) (fl_finfo f)) (fi_cno (fl_mem f) (fl_finfo f)))
              (nilfs_block_for_each f)))"
proof (cases "nilfs_file_use_real_blocknr f")
  case True
  let ?ino = "fi_ino (fl_mem f) (fl_finfo f)"
  have f: "foldE (acc_bdesc k j ?ino) (nilfs_block_for_each f) bv s = (Inr bv', s')" "vv' = vv"
    using True assms(1) by (auto simp: nilfs_acc_blocks_file_def bindE_Inr)
  have "vector_inv bv' \<and> (\<exists>xs. vlist bv' = vlist bv @ xs \<and> map bdesc_key xs = map (block_bkey ?ino) (nilfs_block_for_each f))"
    by (rule foldE_append [OF f(1) assms(3)]) (rule acc_bdesc_ok)
  then show ?thesis using f(2) True assms(2) by auto
next
  case False
  let ?ino = "fi_ino (fl_mem f) (fl_finfo f)" and ?cno = "fi_cno (fl_mem f) (fl_finfo f)"
  have f: "foldE (acc_vdesc k j ?ino ?cno) (nilfs_block_for_each f) vv s = (Inr vv', s')" "bv' = bv"
    using False assms(1) by (auto simp: nilfs_acc_blocks_file_def bindE_Inr Let_def)
  have "vector_inv vv' \<and> (\<exists>xs. vlist vv' = vlist vv @ xs \<and> map vdesc_key xs = map (block_vkey ?ino ?cno) (nilfs_block_for_each f))"
    by (rule foldE_append [OF f(1) assms(2)]) (rule acc_vdesc_ok)
  then show ?thesis using f(2) False assms(3) by auto
qed

definition vecs_inv :: "vdescv \<times> bdescv \<Rightarrow> bool" where
  "vecs_inv x \<longleftrightarrow> vector_inv (fst x) \<and> vector_inv (snd x)"

lemma acc_blocks_segment_inv:
  assumes "nilfs_acc_blocks_segment k j sg n x s = (Inr y, s')" "vecs_inv x"
  shows "vecs_inv y"
proof -
  have acf: "vecs_inv b'" if "vecs_inv b" "nilfs_acc_blocks_file k j f b s = (Inr b', s')" for f b b' s s'
    using that acc_blocks_file_ok [of k j f "fst b" "snd b" s "fst b'" "snd b'" s'] by (simp add: vecs_inv_def)
  have pseg: "vecs_inv b'" if v: "vecs_inv b" and ps: "nilfs_acc_blocks_psegment k j p b s = (Inr b', s')" for p b b' s s'
  proof -
    obtain s1 where "foldE (nilfs_acc_blocks_file k j) (fst (nilfs_file_for_each (j_flag j) p)) b s = (Inr b', s1)"
      using ps by (auto simp: nilfs_acc_blocks_psegment_def bindE_Inr split: prod.splits if_splits)
    from foldE_invariant [OF this, of vecs_inv] v acf show ?thesis by blast
  qed
  obtain s1 where "foldE (nilfs_acc_blocks_psegment k j) (fst (nilfs_psegment_for_each sg n)) x s = (Inr y, s1)"
    using assms(1) by (auto simp: nilfs_acc_blocks_segment_def bindE_Inr split: prod.splits if_splits)
  from foldE_invariant [OF this, of vecs_inv] assms(2) pseg show ?thesis by blast
qed

subsection \<open>Selected segments\<close>

text \<open>
  The kernel's answers about segments, stable while the collection runs: \<open>si_of\<close> the
  usage of a segment, \<open>seq_of\<close> the sequence number found in it.
\<close>

definition stable_segments :: "'w kernel \<Rightarrow> (u64 \<Rightarrow> nilfs_suinfo) \<Rightarrow> (u64 \<Rightarrow> u64) \<Rightarrow> bool" where
  "stable_segments k si_of seq_of \<longleftrightarrow>
     (\<forall>x s sis s'. nilfs_get_suinfo k x 1 s = (Inr sis, s') \<longrightarrow> sis = [si_of x])
     \<and> (\<forall>x s sg s'. nilfs_get_segment k x s = (Inr sg, s') \<longrightarrow> sg_seqnum sg = seq_of x)"

definition selectable :: "(u64 \<Rightarrow> nilfs_suinfo) \<Rightarrow> (u64 \<Rightarrow> u64) \<Rightarrow> u64 \<Rightarrow> u64 \<Rightarrow> bool" where
  "selectable si_of seq_of protseq x \<longleftrightarrow> nilfs_suinfo_reclaimable (si_of x)
     \<and> (nilfs_suinfo_empty (si_of x) \<or> \<not> cnt64_ge (seq_of x) protseq)"

lemma acc_blocks_loop_ok:
  assumes "acc_blocks_loop k j protseq i n si (xs, vs) s = (Inr (n', ys, vs'), s')"
    and "stable_segments k si_of seq_of" "n \<le> length xs" "i \<le> n" "vecs_inv vs"
  shows "vecs_inv vs' \<and> mset ys = mset xs \<and> n' \<le> n
    \<and> take n' ys = take i xs @ filter (selectable si_of seq_of protseq) (drop i (take n xs))"
  using assms
proof (induction k j protseq i n si "(xs, vs)" s arbitrary: xs vs rule: acc_blocks_loop.induct)
  case (1 k j protseq i n si xs vs s)
  let ?P = "selectable si_of seq_of protseq"
  show ?case
  proof (cases "i < n")
    case False
    then have "acc_blocks_loop k j protseq i n si (xs, vs) s = (Inr (n, xs, vs), s)"
      by (simp add: acc_blocks_loop.simps [of k j protseq i n])
    then show ?thesis using False "1.prems" by simp
  next
    case True
    note step = "1.prems"(1) [unfolded acc_blocks_loop.simps [of k j protseq i n] Let_def, simplified True, simplified]
    have iz: "drop i (take n xs) = xs ! i # drop (i + 1) (take n xs)" "take (i + 1) xs = take i xs @ [xs ! i]"
      using True "1.prems"(3) by (simp_all add: Cons_nth_drop_Suc [symmetric] take_Suc_conv_app_nth drop_take take_Cons')
    obtain s1 where su: "nilfs_get_suinfo k (xs ! i) 1 s = (Inr [si_of (xs ! i)], s1)"
      using step "1.prems"(2) by (auto simp: stable_segments_def split: prod.splits sum.splits)
    let ?si = "si_of (xs ! i)"
    have sic: "?si = (case [?si] of [] \<Rightarrow> si | x # _ \<Rightarrow> x)" by simp
    have desel: ?thesis
      if np: "\<not> ?P (xs ! i)" and d: "nilfs_deselect_segment xs n i = Some (zs, m)"
        and rec: "acc_blocks_loop k j protseq i m ?si (zs, vs) s2 = (Inr (n', ys, vs'), s')"
        and IH: "m \<le> length zs \<Longrightarrow> i \<le> m \<Longrightarrow> vecs_inv vs' \<and> mset ys = mset zs \<and> n' \<le> m
            \<and> take n' ys = take i zs @ filter ?P (drop i (take m zs))" for zs m s2
    proof -
      note dk = deselect_ok [OF d "1.prems"(3)]
      then have "m \<le> length zs" "i \<le> m" using True "1.prems"(3) by auto
      moreover have "take m zs = take i xs @ drop (i + 1) (take n xs)" using dk by blast
      then have "drop i (take m zs) = drop (i + 1) (take n xs)" using True "1.prems"(3) by (simp only:) simp
      ultimately show ?thesis using IH dk np iz by auto
    qed
    have keep: ?thesis
      if p: "?P (xs ! i)" and IH: "vecs_inv vs' \<and> mset ys = mset xs \<and> n' \<le> n
          \<and> take n' ys = take (i + 1) xs @ filter ?P (drop (i + 1) (take n xs))"
      using IH p iz by simp
    show ?thesis
    proof (cases "nilfs_suinfo_reclaimable ?si")
      case False
      obtain zs m where d: "nilfs_deselect_segment xs n i = Some (zs, m)"
        using step su False by (auto split: option.splits)
      have rec: "acc_blocks_loop k j protseq i m ?si (zs, vs) s1 = (Inr (n', ys, vs'), s')"
        using step su False d by simp
      have np: "\<not> ?P (xs ! i)" using False by (simp add: selectable_def)
      show ?thesis
      proof (rule desel [OF np d rec])
        assume "m \<le> length zs" "i \<le> m"
        then show "vecs_inv vs' \<and> mset ys = mset zs \<and> n' \<le> m \<and> take n' ys = take i zs @ filter ?P (drop i (take m zs))"
          using "1.hyps"(1) [OF _ su [symmetric] refl sic _ d refl _ "1.prems"(2) _ _ "1.prems"(5)] True False rec by simp
      qed
    next
      case rc: True
      show ?thesis
      proof (cases "nilfs_suinfo_empty ?si")
        case True
        have rec: "acc_blocks_loop k j protseq (i + 1) n ?si (xs, vs) s1 = (Inr (n', ys, vs'), s')"
          using step su rc True by simp
        have "?P (xs ! i)" using rc True by (simp add: selectable_def)
        then show ?thesis
          using keep "1.hyps"(2) [OF _ su [symmetric] refl sic _ _ _ "1.prems"(2,3) _ "1.prems"(5)] rec rc True \<open>i < n\<close> by simp
      next
        case ne: False
        obtain sg s2 where gs: "nilfs_get_segment k (xs ! i) s1 = (Inr sg, s2)"
          using step su rc ne by (auto split: prod.splits sum.splits)
        have sq: "sg_seqnum sg = seq_of (xs ! i)" using gs "1.prems"(2) unfolding stable_segments_def by blast
        show ?thesis
        proof (cases "cnt64_ge (sg_seqnum sg) protseq")
          case pr: True
          obtain zs m where d: "nilfs_deselect_segment xs n i = Some (zs, m)"
            using step su rc ne gs pr by (auto split: option.splits)
          obtain s3 where pt: "nilfs_put_segment k sg s2 = (Inr (), s3)"
            using step su rc ne gs pr d by (auto split: prod.splits sum.splits)
          have rec: "acc_blocks_loop k j protseq i m ?si (zs, vs) s3 = (Inr (n', ys, vs'), s')"
            using step su rc ne gs pr d pt by simp
          have np: "\<not> ?P (xs ! i)" using pr ne sq by (simp add: selectable_def)
          show ?thesis
          proof (rule desel [OF np d rec])
            assume "m \<le> length zs" "i \<le> m"
            then show "vecs_inv vs' \<and> mset ys = mset zs \<and> n' \<le> m \<and> take n' ys = take i zs @ filter ?P (drop i (take m zs))"
              using "1.hyps"(3) [OF _ su [symmetric] refl sic _ _ gs [symmetric] refl _ d refl pt [symmetric] refl _ "1.prems"(2) _ _ "1.prems"(5)]
                True rc ne pr rec by simp
          qed
        next
          case pr: False
          obtain r s3 where ac: "nilfs_acc_blocks_segment k j sg (sui_nblocks ?si) vs s2 = (r, s3)" by fastforce
          obtain s4 where pt: "nilfs_put_segment k sg s3 = (Inr (), s4)"
            using step su rc ne gs pr ac by (auto split: prod.splits sum.splits)
          obtain vs2 where r: "r = Inr vs2" using step su rc ne gs pr ac pt by (cases r) auto
          have rec: "acc_blocks_loop k j protseq (i + 1) n ?si (xs, vs2) s4 = (Inr (n', ys, vs'), s')"
            using step su rc ne gs pr ac pt r by simp
          have vi: "vecs_inv vs2" using acc_blocks_segment_inv [OF ac [unfolded r] "1.prems"(5)] .
          have "?P (xs ! i)" using rc pr sq by (simp add: selectable_def)
          then show ?thesis
            using keep "1.hyps"(4) [OF _ su [symmetric] refl sic _ _ gs [symmetric] refl _ ac [symmetric] pt [symmetric] refl r _ "1.prems"(2,3) _ vi]
              rec rc ne pr \<open>i < n\<close> by simp
        qed
      qed
    qed
  qed
qed

section \<open>Properties\<close>

text \<open>C2. The live/dead decision of the collector, with its short cuts and its binary search, is the
  intended one: a block is kept exactly when it is current, lives on into the protected
  checkpoints, or is needed by some snapshot. The remembered last hit stays a snapshot number.\<close>

theorem vdesc_is_live_correct:
  assumes "sorted_wrt (<) ss" "vd_cno vd \<noteq> 0 \<longrightarrow> p_start (vd_period vd) \<noteq> 0"
    and "last_hit = 0 \<or> last_hit \<in> set ss"
  shows "fst (nilfs_vdesc_is_live vd protect ss last_hit) = vdesc_live_spec vd protect (set ss)
    \<and> (let h = snd (nilfs_vdesc_is_live vd protect ss last_hit) in h = 0 \<or> h \<in> set ss)"
  using vdesc_is_live_ok [OF assms] by (metis prod.collapse)

definition demo_vdesc :: nilfs_vdesc where
  "demo_vdesc = \<lparr>vd_ino = 12, vd_cno = 9, vd_vblocknr = 77, vd_period = \<lparr>p_start = 4, p_end = 8\<rparr>,
     vd_blocknr = 9, vd_offset = 3, vd_flags = 0\<rparr>"

theorem vdesc_is_live_correct_witness:
  "fst (nilfs_vdesc_is_live demo_vdesc 100 [2, 5, 30] 2) \<and> vdesc_live_spec demo_vdesc 100 {2, 5, 30}
    \<and> \<not> fst (nilfs_vdesc_is_live demo_vdesc 100 [2, 30] 2)"
proof -
  have "vdesc_live_spec demo_vdesc 100 {2, 5, 30}" "\<not> vdesc_live_spec demo_vdesc 100 {2, 30}"
    by (simp_all add: vdesc_live_spec_def demo_vdesc_def NILFS_CNO_MAX_def)
  then show ?thesis
    using vdesc_is_live_correct [of "[2, 5, 30]" demo_vdesc 2 100] vdesc_is_live_correct [of "[2, 30]" demo_vdesc 2 100]
    by (simp add: demo_vdesc_def)
qed

text \<open>C3. Tossing the dead virtual blocks partitions the collected descriptors by the live/dead
  decision over the snapshots the kernel reports: the live ones stay in order, the virtual block
  number of every dead one and nothing else is queued for freeing, and the period of every dead
  one is queued for deletion unless it belongs to the cpfile or sufile.\<close>

theorem toss_vdescs_partition:
  assumes "nilfs_toss_vdescs k j v pv bv protcno s = (Inr (v', pv', bv'), s')"
    and "vector_inv v" "length (vlist v) \<le> 2 ^ 32" "vector_inv pv" "vector_inv bv"
    and "\<forall>vd \<in> set (vlist v). vd_cno vd \<noteq> 0 \<longrightarrow> p_start (vd_period vd) \<noteq> 0"
  shows "\<exists>ss s1. nilfs_get_snapshot k s = (Inr ss, s1) \<and> sorted_wrt (<) ss
    \<and> vector_inv v' \<and> vector_inv pv' \<and> vector_inv bv'
    \<and> vlist v' = filter (\<lambda>vd. vdesc_live_spec vd protcno (set ss)) (vlist v)
    \<and> vlist bv' = vlist bv @ map vd_vblocknr (filter (\<lambda>vd. \<not> vdesc_live_spec vd protcno (set ss)) (vlist v))
    \<and> vlist pv' = vlist pv @ map vd_period
        (filter (\<lambda>vd. vd_cno vd \<noteq> 0) (filter (\<lambda>vd. \<not> vdesc_live_spec vd protcno (set ss)) (vlist v)))"
  using toss_vdescs_ok [OF assms] by (simp add: dead_periods_def)

text \<open>C12. The periods handed to the kernel for deletion cover exactly the checkpoints of the queued
  periods, in ascending order and without touching or overlapping each other.\<close>

theorem unify_period_cover:
  assumes "vector_inv v" "length (vlist v) \<le> 2 ^ 32"
  shows "cover (vlist (nilfs_unify_period v)) = cover (vlist v)
    \<and> sorted_wrt (\<lambda>a b. p_end a < p_start b) (vlist (nilfs_unify_period v))
    \<and> vector_inv (nilfs_unify_period v)"
  using unify_period_ok [OF assms] by (simp add: sep_def [abs_def])

text \<open>C13. Tossing the dead blocks of the DAT file keeps exactly the descriptors whose block is still
  where the log said, in order.\<close>

theorem toss_bdescs_filter:
  assumes "vector_inv v" "length (vlist v) \<le> 2 ^ 32"
  shows "vector_inv (nilfs_toss_bdescs v)
    \<and> vlist (nilfs_toss_bdescs v) = filter (\<lambda>bd. bd_oblocknr bd = bd_blocknr bd) (vlist v)"
  using toss_bdescs_loop_ok [OF assms, of 0]
  by (simp add: nilfs_toss_bdescs_def nilfs_bdesc_is_live_def [abs_def])


text \<open>Collecting a file of a log adds one descriptor per block, in block order and nothing else:
  for the DAT file to the disk block descriptors, else to the virtual block descriptors, with
  the numbers found in the log.\<close>

theorem acc_blocks_file_descriptors:
  assumes "nilfs_acc_blocks_file k j f (vv, bv) s = (Inr (vv', bv'), s')" "vector_inv vv" "vector_inv bv"
  shows "vector_inv vv' \<and> vector_inv bv' \<and> (\<exists>vs bs. vlist vv' = vlist vv @ vs \<and> vlist bv' = vlist bv @ bs
    \<and> (if nilfs_file_use_real_blocknr f
       then vs = [] \<and> map bdesc_key bs = map (block_bkey (fi_ino (fl_mem f) (fl_finfo f))) (nilfs_block_for_each f)
       else bs = [] \<and> map vdesc_key vs = map (block_vkey (fi_ino (fl_mem f) (fl_finfo f)) (fi_cno (fl_mem f) (fl_finfo f)))
              (nilfs_block_for_each f)))"
  using assms by (rule acc_blocks_file_ok)

subsection \<open>Examples\<close>

definition demo_junk :: gc_junk where
  "demo_junk = \<lparr>j_vdesc = demo_vdesc, j_bdesc = \<lparr>bd_ino = 0, bd_oblocknr = 0, bd_blocknr = 0, bd_offset = 0, bd_level = 0\<rparr>,
     j_period = \<lparr>p_start = 0, p_end = 0\<rparr>, j_u64 = 0,
     j_sup = \<lparr>sup_segnum = 0, sup_flags = 0, sup_sui = \<lparr>sui_lastmod = 0, sui_nblocks = 0, sui_flags = 0\<rparr>\<rparr>,
     j_suinfo = \<lparr>sui_lastmod = 0, sui_nblocks = 0, sui_flags = 0\<rparr>,
     j_vinfo = \<lparr>vi_vblocknr = 0, vi_start = 0, vi_end = 0, vi_blocknr = 0\<rparr>, j_flag = False\<rparr>"

text \<open>A file system with a single snapshot, number 5.\<close>

definition demo_ss_kernel :: "'w kernel" where
  "demo_ss_kernel = null_kernel
     \<lparr>k_get_cpstat := (\<lambda>fd w. (Inr \<lparr>cs_cno = 9, cs_ncps = 8, cs_nsss = 1\<rparr>, w)),
      k_get_cpinfo := (\<lambda>fd a w. (Inr [\<lparr>ci_flags = 1, ci_cno = 5, ci_create = 0, ci_nblk_inc = 0,
          ci_inodes_count = 0, ci_blocks_count = 0, ci_next = 0\<rparr>], w))\<rparr>"

lemma demo_ss_calls: "k_get_cpstat demo_ss_kernel fd w = (Inr \<lparr>cs_cno = 9, cs_ncps = 8, cs_nsss = 1\<rparr>, w)"
  "k_get_cpinfo demo_ss_kernel fd a w = (Inr [\<lparr>ci_flags = 1, ci_cno = 5, ci_create = 0, ci_nblk_inc = 0,
          ci_inodes_count = 0, ci_blocks_count = 0, ci_next = 0\<rparr>], w)"
  "k_malloc demo_ss_kernel n w = (Some 0, w)"
  by (simp_all add: demo_ss_kernel_def null_kernel_def)

lemma demo_ss_snapshot: "nilfs_get_snapshot demo_ss_kernel (demo_lib ()) = (Inr [5], demo_lib ())"
  by (simp add: nilfs_get_snapshot_def demo_lib_def nilfs_get_cpstat_def with_iocfd_def liftK_def bindE_def
      lib_alloc_def demo_ss_calls get_snapshot_loop.simps nilfs_get_cpinfo_def Let_def)

lemma vector_of_get:
  "length xs \<le> 256 \<Longrightarrow> i < length xs \<Longrightarrow> nilfs_vector_get_element (vector_of jk xs) (of_nat i) = Some i"
  "length xs \<le> 256 \<Longrightarrow> i < length xs \<Longrightarrow> slot (vector_of jk xs) i = xs ! i"
  by (simp_all add: vector_of_def nilfs_vector_get_element_def slot_def nth_append word_less_nat_alt word_le_nat_alt)

theorem toss_vdescs_partition_witness:
  "\<exists>v' pv' bv' s'. nilfs_toss_vdescs demo_ss_kernel demo_junk (vector_of demo_vdesc [demo_vdesc, demo_vdesc\<lparr>vd_period := \<lparr>p_start = 6, p_end = 7\<rparr>\<rparr>])
       (vector_of \<lparr>p_start = 0, p_end = 0\<rparr> []) (vector_of 0 []) 100 (demo_lib ()) = (Inr (v', pv', bv'), s')
     \<and> vlist v' = [demo_vdesc] \<and> vlist bv' = [77] \<and> vlist pv' = [\<lparr>p_start = 6, p_end = 7\<rparr>]"
proof -
  let ?d = "demo_vdesc\<lparr>vd_period := \<lparr>p_start = 6, p_end = 7\<rparr>\<rparr>"
  let ?v = "vector_of demo_vdesc [demo_vdesc, ?d]"
  let ?p = "vector_of \<lparr>p_start = 0, p_end = 0\<rparr> [] :: periodv"
  let ?b = "vector_of 0 [] :: vblocknrv"
  have u: "unat (v_nelems ?v) = 2" by (simp add: vector_of_def)
  have e0: "nilfs_vector_get_element ?v 0 = Some 0" "slot ?v 0 = demo_vdesc"
    using vector_of_get [of "[demo_vdesc, ?d]" 0] by simp_all
  have e1: "nilfs_vector_get_element ?v 1 = Some 1" "slot ?v 1 = ?d"
    using vector_of_get [of "[demo_vdesc, ?d]" 1] by simp_all
  have vds: "vd_cno demo_vdesc \<noteq> 0" "vd_vblocknr demo_vdesc = 77" by (simp_all add: demo_vdesc_def)
  have l0: "nilfs_vdesc_is_live demo_vdesc 100 [5] 0 = (True, 5)"
    by (simp add: nilfs_vdesc_is_live_def demo_vdesc_def Let_def NILFS_CNO_MAX_def ss_search.simps word_less_nat_alt word_le_nat_alt)
  have l1: "nilfs_vdesc_is_live ?d 100 [5] 5 = (False, 5)"
    by (simp add: nilfs_vdesc_is_live_def demo_vdesc_def Let_def NILFS_CNO_MAX_def word_less_nat_alt word_le_nat_alt)
  have d: "unat (v_nelems (delete_run ?v 1 1)) \<le> 2" using delete_run_size [of 1 ?v 1] u by simp
  have r0: "toss_run demo_ss_kernel demo_junk 100 [5] ?v 0 (0, ?p, ?b) (demo_lib ()) = (Inr (0, 5, ?p, ?b), demo_lib ())"
    using e0 l0 u by (simp add: toss_run.simps [of _ _ _ _ _ 0] nilfs_vector_get_size_def)
  have pb: "vector_push (lib_alloc demo_ss_kernel) (j_u64 demo_junk) ?b 77 (demo_lib ()) = (Inr (vector_of 0 [77]), demo_lib ())"
    using vector_of_push [of "[]" "lib_alloc demo_ss_kernel" "0 :: u64" 77 "demo_lib ()"] by (simp add: demo_junk_def)
  have pp: "vector_push (lib_alloc demo_ss_kernel) (j_period demo_junk) ?p \<lparr>p_start = 6, p_end = 7\<rparr> (demo_lib ())
      = (Inr (vector_of \<lparr>p_start = 0, p_end = 0\<rparr> [\<lparr>p_start = 6, p_end = 7\<rparr>]), demo_lib ())"
    using vector_of_push [of "[]" "lib_alloc demo_ss_kernel" "\<lparr>p_start = 0, p_end = 0\<rparr>" "\<lparr>p_start = 6, p_end = 7\<rparr>" "demo_lib ()"]
    by (simp add: demo_junk_def)
  define p b where "p = vector_of \<lparr>p_start = 0, p_end = 0\<rparr> [\<lparr>p_start = 6, p_end = 7\<rparr>]" and "b = vector_of 0 [77 :: u64]"
  have r1: "toss_run demo_ss_kernel demo_junk 100 [5] ?v 1 (5, ?p, ?b) (demo_lib ()) = (Inr (2, 5, p, b), demo_lib ())"
    using e1 l1 u vds pb pp unfolding p_def b_def
    by (simp add: toss_run.simps [of _ _ _ _ _ "Suc 0"] toss_run.simps [of _ _ _ _ _ "Suc (Suc 0)"] nilfs_vector_get_size_def
       Let_def numeral_2_eq_2)
  have g: "nilfs_toss_vdescs demo_ss_kernel demo_junk ?v ?p ?b 100 (demo_lib ()) = (Inr (delete_run ?v 1 1, p, b), demo_lib ())"
    using r0 r1 u d
    by (simp add: nilfs_toss_vdescs_def demo_ss_snapshot toss_vdescs_loop.simps [of _ _ _ _ 0] toss_vdescs_loop.simps [of _ _ _ _ "Suc 0"]
        toss_vdescs_loop.simps [of _ _ _ _ "Suc (Suc 0)"] nilfs_vector_get_size_def numeral_2_eq_2)
  show ?thesis
    using toss_vdescs_partition [OF g] g demo_ss_snapshot
    by (simp add: vector_of_inv vector_of_list vdesc_live_spec_def demo_vdesc_def NILFS_CNO_MAX_def)
qed


theorem unify_period_cover_witness:
  "let v = vector_of \<lparr>p_start = 0, p_end = 0\<rparr> [\<lparr>p_start = 7, p_end = 9\<rparr>, \<lparr>p_start = 2, p_end = 5\<rparr>, \<lparr>p_start = 4, p_end = 6\<rparr>]
   in cover (vlist (nilfs_unify_period v)) = {7 ..< 9} \<union> {2 ..< 6}"
proof -
  let ?ps = "[\<lparr>p_start = 7, p_end = 9\<rparr>, \<lparr>p_start = 2, p_end = 5\<rparr>, \<lparr>p_start = 4, p_end = 6\<rparr>] :: nilfs_period list"
  have "cover ?ps = {7 ..< 9} \<union> {2 ..< 6}"
    by (auto simp: cover_def covers_def word_le_nat_alt word_less_nat_alt)
  then show ?thesis
    using unify_period_cover [of "vector_of \<lparr>p_start = 0, p_end = 0\<rparr> ?ps"] by (simp add: vector_of_inv vector_of_list Let_def)
qed

theorem toss_bdescs_filter_witness:
  "vlist (nilfs_toss_bdescs (vector_of (j_bdesc demo_junk)
     [\<lparr>bd_ino = 3, bd_oblocknr = 8, bd_blocknr = 8, bd_offset = 0, bd_level = 0\<rparr>,
      \<lparr>bd_ino = 3, bd_oblocknr = 9, bd_blocknr = 20, bd_offset = 1, bd_level = 0\<rparr>]))
   = [\<lparr>bd_ino = 3, bd_oblocknr = 8, bd_blocknr = 8, bd_offset = 0, bd_level = 0\<rparr>]"
  using toss_bdescs_filter [of "vector_of (j_bdesc demo_junk)
     [\<lparr>bd_ino = 3, bd_oblocknr = 8, bd_blocknr = 8, bd_offset = 0, bd_level = 0\<rparr>,
      \<lparr>bd_ino = 3, bd_oblocknr = 9, bd_blocknr = 20, bd_offset = 1, bd_level = 0\<rparr>]"]
  by (simp add: vector_of_inv vector_of_list)

text \<open>A file system whose segment 3 is dirty and unwritten and whose other segments are clean.\<close>

definition demo_su_kernel :: "'w kernel" where
  "demo_su_kernel = null_kernel
     \<lparr>k_get_suinfo := (\<lambda>fd a w. (Inr [\<lparr>sui_lastmod = 0, sui_nblocks = 0, sui_flags = (if v_index a = 3 then 2 else 0)\<rparr>], w))\<rparr>"

lemma demo_su_calls:
  "k_get_suinfo demo_su_kernel fd a w = (Inr [\<lparr>sui_lastmod = 0, sui_nblocks = 0, sui_flags = (if v_index a = 3 then 2 else 0)\<rparr>], w)"
  "k_pread demo_su_kernel fd n off w = (Inl EIO, w)" "k_mmap demo_su_kernel n fd off w = (Inl ENODEV, w)"
  by (simp_all add: demo_su_kernel_def null_kernel_def)

lemma demo_su_stable: "stable_segments demo_su_kernel
    (\<lambda>x. \<lparr>sui_lastmod = 0, sui_nblocks = 0, sui_flags = (if x = 3 then 2 else 0)\<rparr>) (\<lambda>x. 0)"
proof -
  have "nilfs_get_segment demo_su_kernel x s \<noteq> (Inr sg, s')" for x sg and s s' :: "'a lib"
    by (auto simp: nilfs_get_segment_def read_segment_def liftK_def demo_su_calls bindE_Inr Let_def
        split: option.splits if_splits prod.splits sum.splits)
  moreover have "nilfs_get_suinfo demo_su_kernel x 1 s = (Inr sis, s') \<Longrightarrow>
      sis = [\<lparr>sui_lastmod = 0, sui_nblocks = 0, sui_flags = (if x = 3 then 2 else 0)\<rparr>]" for x sis and s s' :: "'a lib"
    by (auto simp: nilfs_get_suinfo_def with_iocfd_def liftK_def demo_su_calls argv_def split: if_splits)
  ultimately show ?thesis by (simp add: stable_segments_def)
qed


lemma vector_of_new:
  assumes "length xs < 256"
  shows "\<exists>v. nilfs_vector_get_new_element alloc junk (vector_of junk xs) w = (Inr (length xs, v), w)"
  using assms
  by (simp add: nilfs_vector_get_new_element_def vector_of_def word_le_nat_alt)

theorem acc_blocks_file_descriptors_witness:
  "\<exists>vv' bv' s' vd. nilfs_acc_blocks_file null_kernel demo_junk demo_file
      (vector_of (j_vdesc demo_junk) [], vector_of (j_bdesc demo_junk) []) (demo_lib ()) = (Inr (vv', bv'), s')
    \<and> vlist bv' = [] \<and> vlist vv' = [vd] \<and> vd_blocknr vd = 9"
proof -
  let ?vs = "(vector_of (j_vdesc demo_junk) [], vector_of (j_bdesc demo_junk) [])"
  obtain v where n: "nilfs_vector_get_new_element (lib_alloc null_kernel) (j_vdesc demo_junk) (vector_of (j_vdesc demo_junk) [])
      (demo_lib ()) = (Inr (0, v), demo_lib ())"
    using vector_of_new [of "[]"] by force
  have f: "\<not> nilfs_file_use_real_blocknr demo_file" by (simp add: demo_file_eq nilfs_file_use_real_blocknr_def)
  obtain vv bv where a: "nilfs_acc_blocks_file null_kernel demo_junk demo_file ?vs (demo_lib ()) = (Inr (vv, bv), demo_lib ())"
    by (simp add: nilfs_acc_blocks_file_def Let_def f demo_blocks acc_vdesc_def n bindE_def)
  show ?thesis
    using acc_blocks_file_descriptors [OF a] a f
    by (auto simp: vector_of_inv vector_of_list demo_blocks vdesc_key_def block_vkey_def demo_block_eq Let_def)
qed

end
