(* ===== verification/Gc_Reclaim.thy ===== *)
theory Gc_Reclaim
  imports Gc
begin

text \<open>
  The reclaim runs of \<open>src/lib/gc.c\<close>: \<open>nilfs_xreclaim_segment\<close>, its dry run
  \<open>nilfs_assess_segment\<close> and the callers the cleaner uses. A run blocks signals, takes the
  cleaner lock, collects blocks, consults the kernel and the snapshots, and either reports, defers or
  cleans; every failure leaves through the unlock and restore steps. The lemmas show that a dry
  run makes no call that changes the file system and that the plan a run hands to the kernel is
  sound.
\<close>

section \<open>Reclaiming segments\<close>

text \<open>
  The result of a reclaim run: its return value, the segment array, which deselection
  permutes, and the statistics, when the caller asked for them. After a failure while
  the blocks are collected the order of the array is that of the caller.
\<close>

type_synonym reclaim_res = "(errno + unit) \<times> u64 list \<times> nilfs_reclaim_stat option"
type_synonym 'w reclaim = "'w lib \<Rightarrow> reclaim_res \<times> 'w lib"

definition orRet :: "('w lib, 'a) act \<Rightarrow> u64 list \<times> nilfs_reclaim_stat option \<Rightarrow> ('a \<Rightarrow> 'w reclaim) \<Rightarrow> 'w reclaim" where
  "orRet m x f s = (case m s of (Inl e, s) \<Rightarrow> ((Inl e, x), s) | (Inr y, s) \<Rightarrow> f y s)"

definition doRet :: "errno + unit \<Rightarrow> u64 list \<times> nilfs_reclaim_stat option \<Rightarrow> 'w reclaim" where
  "doRet r x s = ((r, x), s)"

text \<open>The updates that postpone segments, one per selected segment.\<close>

definition suinfo_lastmod :: "gc_junk \<Rightarrow> u64 \<Rightarrow> u64 \<Rightarrow> nilfs_suinfo_update \<Rightarrow> nilfs_suinfo_update" where
  "suinfo_lastmod j now segnum su =
     (nilfs_suinfo_update_set NILFS_SUINFO_UPDATE_LASTMOD (su\<lparr>sup_segnum := segnum, sup_flags := 0\<rparr>))
       \<lparr>sup_sui := (sup_sui su)\<lparr>sui_lastmod := now\<rparr>\<rparr>"

definition add_lastmod :: "'w kernel \<Rightarrow> gc_junk \<Rightarrow> u64 \<Rightarrow> u64 \<Rightarrow> nilfs_suinfo_update nilfs_vector
    \<Rightarrow> ('w lib, nilfs_suinfo_update nilfs_vector) act" where
  "add_lastmod k j now segnum supv =
     bindE (nilfs_vector_get_new_element (lib_alloc k) (j_sup j) supv) (\<lambda>(i, supv).
       retE (set_slot supv i (suinfo_lastmod j now segnum (slot supv i))))"

text \<open>The call that frees the segments.\<close>

definition reclaim_clean :: "'w kernel \<Rightarrow> nat \<Rightarrow> vdescv \<times> periodv \<times> vblocknrv \<times> bdescv
    \<Rightarrow> u64 list \<times> nilfs_reclaim_stat option \<Rightarrow> 'w reclaim" where
  "reclaim_clean k n = (\<lambda>(vv, pv, bnv, bv) (segnums, stat).
     orRet (nilfs_clean_segments k (vlist vv) (vlist pv) (vlist bnv) (vlist bv) (take n segnums))
       (segnums, stat) (\<lambda>_. doRet (Inr ()) (segnums, stat)))"

text \<open>
  The tail of \<open>nilfs_xreclaim_segment\<close> after the statistics: interruption, the
  postponement of segments with too little to reclaim, the clean call. When an update
  descriptor cannot be allocated the return value is the 0 of \<open>gettimeofday\<close>.
\<close>

definition reclaim_finish :: "'w kernel \<Rightarrow> gc_junk \<Rightarrow> nilfs_reclaim_params \<Rightarrow> nat \<Rightarrow> u32
    \<Rightarrow> nilfs_suinfo_update nilfs_vector \<Rightarrow> vdescv \<times> periodv \<times> vblocknrv \<times> bdescv
    \<Rightarrow> u64 list \<times> nilfs_reclaim_stat option \<Rightarrow> 'w reclaim" where
  "reclaim_finish k j params n reclaimable_blocks supv vecs = (\<lambda>(segnums, stat).
     orRet (liftK (k_sigpending k)) (segnums, stat) (\<lambda>pending s.
       if pending then doRet (Inr ()) (segnums, stat) s
       else if rp_flags params AND NILFS_RECLAIM_PARAM_MIN_RECLAIMABLE_BLKS \<noteq> 0
               \<and> nilfs_opt_test (l_nilfs s) NILFS_OPT_SET_SUINFO
               \<and> ucast reclaimable_blocks < rp_min_reclaimable_blks params * of_nat n
       then let stat' = map_option (\<lambda>t. t\<lparr>deferred_segs := of_nat n, cleaned_segs := 0\<rparr>) stat in
            orRet (liftK (k_gettimeofday k)) (segnums, stat') (\<lambda>now s.
              case foldE (add_lastmod k j now) (take n segnums) supv s of
                (Inl _, s) \<Rightarrow> doRet (Inr ()) (segnums, stat') s
              | (Inr supv, s) \<Rightarrow>
                  (case nilfs_set_suinfo k (vlist supv) (of_nat n) s of
                     (Inr _, s) \<Rightarrow> doRet (Inr ()) (segnums, stat') s
                   | (Inl e, s) \<Rightarrow>
                       if e \<noteq> ENOTTY then doRet (Inl e) (segnums, stat') s
                       else let stat = map_option (\<lambda>t. t\<lparr>deferred_segs := 0, cleaned_segs := of_nat n\<rparr>) stat'
                            in reclaim_clean k n vecs (segnums, stat) (snd (nilfs_opt_clear NILFS_OPT_SET_SUINFO s)))) s
       else reclaim_clean k n vecs (segnums, stat) s))"

text \<open>The part of \<open>nilfs_xreclaim_segment\<close> that runs under the cleaner lock.\<close>

definition reclaim_locked :: "'w kernel \<Rightarrow> gc_junk \<Rightarrow> nat \<Rightarrow> bool \<Rightarrow> nilfs_reclaim_params
    \<Rightarrow> vdescv \<times> bdescv \<times> periodv \<times> vblocknrv \<times> nilfs_suinfo_update nilfs_vector
    \<Rightarrow> u64 list \<times> nilfs_reclaim_stat option \<Rightarrow> 'w reclaim" where
  "reclaim_locked k j nsegs dryrun params = (\<lambda>(vv, bv, pv, bnv, supv) (segnums, stat).
     orRet (nilfs_acc_blocks k j segnums nsegs (rp_protseq params) (vv, bv)) (segnums, stat)
       (\<lambda>(n, segnums, vv, bv).
        let stat = map_option (\<lambda>t. t\<lparr>cleaned_segs := of_nat n, protected_segs := of_nat (nsegs - n),
                                    deferred_segs := 0\<rparr>) stat in
        if n = 0 then doRet (Inr ()) (segnums, stat)
        else orRet (nilfs_get_vdesc k j vv) (segnums, stat) (\<lambda>vv.
          let nblocks = nilfs_vector_get_size vv;
              protcno = (if rp_flags params AND NILFS_RECLAIM_PARAM_PROTCNO \<noteq> 0
                         then rp_protcno params else NILFS_CNO_MAX) in
          orRet (nilfs_toss_vdescs k j vv pv bnv protcno) (segnums, stat) (\<lambda>(vv, pv, bnv).
            let stat = map_option (\<lambda>t. t\<lparr>live_vblks := nilfs_vector_get_size vv,
                          defunct_vblks := nblocks - nilfs_vector_get_size vv,
                          freed_vblks := nilfs_vector_get_size bnv\<rparr>) stat;
                vv = nilfs_vector_sort vv nilfs_comp_vdesc_blocknr;
                pv = nilfs_unify_period pv in
            orRet (nilfs_get_bdesc k bv) (segnums, stat) (\<lambda>bv s.
              let nblocks = nilfs_vector_get_size bv;
                  bv = nilfs_toss_bdescs bv in
              case nilfs_get_blocks_per_segment (l_nilfs s) of
                None \<Rightarrow> doRet (Inl EAbort) (segnums, stat) s
              | Some bps \<Rightarrow>
                  let reclaimable_blocks = ucast (ucast bps * of_nat n
                        - (nilfs_vector_get_size vv + nilfs_vector_get_size bv) :: u64) :: u32;
                      stat = map_option (\<lambda>t. t\<lparr>live_pblks := nilfs_vector_get_size bv,
                          defunct_pblks := nblocks - nilfs_vector_get_size bv,
                          live_blks := live_vblks t + nilfs_vector_get_size bv,
                          defunct_blks := ucast reclaimable_blocks\<rparr>) stat
                  in if dryrun then doRet (Inr ()) (segnums, stat) s
                     else reclaim_finish k j params n reclaimable_blocks supv (vv, pv, bnv, bv)
                            (segnums, stat) s)))))"

definition reclaim_vectors :: "'w kernel \<Rightarrow> gc_junk
    \<Rightarrow> ('w lib, vdescv \<times> bdescv \<times> periodv \<times> vblocknrv \<times> nilfs_suinfo_update nilfs_vector) act" where
  "reclaim_vectors k j s =
     (case nilfs_vector_create (lib_alloc k) (j_vdesc j) sizeof_vdesc s of (r1, s) \<Rightarrow>
      case nilfs_vector_create (lib_alloc k) (j_bdesc j) sizeof_bdesc s of (r2, s) \<Rightarrow>
      case nilfs_vector_create (lib_alloc k) (j_period j) sizeof_period s of (r3, s) \<Rightarrow>
      case nilfs_vector_create (lib_alloc k) (j_u64 j) sizeof_u64 s of (r4, s) \<Rightarrow>
      case nilfs_vector_create (lib_alloc k) (j_sup j) sizeof_suinfo_update s of (r5, s) \<Rightarrow>
      case (r1, r2, r3, r4, r5) of
        (Inr v1, Inr v2, Inr v3, Inr v4, Inr v5) \<Rightarrow> (Inr (v1, v2, v3, v4, v5), s)
      | _ \<Rightarrow> (Inl ENOMEM, s))"

definition nilfs_xreclaim_segment :: "'w kernel \<Rightarrow> gc_junk \<Rightarrow> u64 list \<Rightarrow> nat \<Rightarrow> bool
    \<Rightarrow> nilfs_reclaim_params \<Rightarrow> nilfs_reclaim_stat option \<Rightarrow> 'w reclaim" where
  "nilfs_xreclaim_segment k j segnums nsegs dryrun params stat =
     (if rp_flags params AND NILFS_RECLAIM_PARAM_PROTSEQ = 0
         \<or> rp_flags params AND push_bit NR_NILFS_RECLAIM_PARAMS (- 1) \<noteq> 0
      then doRet (Inl EINVAL) (segnums, stat)
      else if nsegs = 0 then doRet (Inr ()) (segnums, stat)
      else orRet (reclaim_vectors k j) (segnums, stat) (\<lambda>vecs.
           orRet (liftK (k_sigblock k)) (segnums, stat) (\<lambda>_ s.
             case nilfs_lock k 0 s of
               (Inl e, s) \<Rightarrow> ((Inl e, segnums, stat), s\<lparr>l_env := k_sigrestore k (l_env s)\<rparr>)
             | (Inr _, s) \<Rightarrow>
                 (case reclaim_locked k j nsegs dryrun params vecs (segnums, stat) s of ((r, x), s) \<Rightarrow>
                    (case nilfs_unlock k 0 s of
                       (Inl _, s) \<Rightarrow> ((Inl EExit, x), s)
                     | (Inr _, s) \<Rightarrow> ((r, x), s\<lparr>l_env := k_sigrestore k (l_env s)\<rparr>))))))"

definition nilfs_assess_segment :: "'w kernel \<Rightarrow> gc_junk \<Rightarrow> u64 list \<Rightarrow> nat \<Rightarrow> nilfs_reclaim_params
    \<Rightarrow> nilfs_reclaim_stat option \<Rightarrow> 'w reclaim" where
  "nilfs_assess_segment k j segnums nsegs params stat =
     nilfs_xreclaim_segment k j segnums nsegs True params stat"

definition nilfs_reclaim_segment :: "'w kernel \<Rightarrow> gc_junk \<Rightarrow> u64 list \<Rightarrow> nat \<Rightarrow> u64 \<Rightarrow> u64
    \<Rightarrow> 'w lib \<Rightarrow> ((errno + u64) \<times> u64 list) \<times> 'w lib" where
  "nilfs_reclaim_segment k j segnums nsegs protseq protcno s =
     (case nilfs_xreclaim_segment k j segnums nsegs False
             \<lparr>rp_flags = NILFS_RECLAIM_PARAM_PROTSEQ OR NILFS_RECLAIM_PARAM_PROTCNO,
              rp_min_reclaimable_blks = 0, rp_protseq = protseq, rp_protcno = protcno\<rparr> (Some zero_stat) s of
        ((Inl e, segnums, _), s) \<Rightarrow> ((Inl e, segnums), s)
      | ((Inr _, segnums, stat), s) \<Rightarrow> ((Inr (cleaned_segs (the stat)), segnums), s))"

text \<open>
  \<open>assess_segment_if_dirty\<close>: a clean segment is skipped (\<open>False\<close>), a dirty one is
  assessed by a dry run. A kernel that answers with no entry is reported as an error whose
  \<open>errno\<close> is the one before.
\<close>

definition assess_segment_if_dirty :: "'w kernel \<Rightarrow> gc_junk \<Rightarrow> nilfs_sustat \<Rightarrow> u64 \<Rightarrow> u64
    \<Rightarrow> nilfs_reclaim_stat \<Rightarrow> ('w lib, bool \<times> nilfs_reclaim_stat) act" where
  "assess_segment_if_dirty k j sustat segnum protcno stat s =
     (case nilfs_get_suinfo k segnum 1 s of
        (Inl e, s) \<Rightarrow> (Inl e, s)
      | (Inr [si], s) \<Rightarrow>
          if nilfs_suinfo_clean si then (Inr (False, stat), s)
          else (case nilfs_assess_segment k j [segnum] 1
                  \<lparr>rp_flags = NILFS_RECLAIM_PARAM_PROTSEQ OR NILFS_RECLAIM_PARAM_PROTCNO,
                   rp_min_reclaimable_blks = 0, rp_protseq = ss_prot_seq sustat, rp_protcno = protcno\<rparr>
                  (Some zero_stat) s of
                  ((Inl e, _), s) \<Rightarrow> (Inl e, s)
                | ((Inr _, _, stat'), s) \<Rightarrow> (Inr (True, the stat'), s))
      | (Inr _, s) \<Rightarrow> (Inl (EOther 0), s))"

definition nilfs_segment_is_protected :: "'w kernel \<Rightarrow> u64 \<Rightarrow> u64 \<Rightarrow> ('w lib, bool) act" where
  "nilfs_segment_is_protected k segnum protseq =
     bindE (nilfs_get_segment_seqnum k segnum) (\<lambda>seqnum. retE (cnt64_ge seqnum protseq))"

section \<open>A dry run cleans nothing\<close>

definition with_effects where
  "with_effects k c u = k\<lparr>k_clean_segments := c, k_set_suinfo := u\<rparr>"

lemma with_effects_calls [simp]:
  "k_malloc (with_effects k c u) = k_malloc k" "k_get_suinfo (with_effects k c u) = k_get_suinfo k"
  "k_get_cpinfo (with_effects k c u) = k_get_cpinfo k" "k_get_cpstat (with_effects k c u) = k_get_cpstat k"
  "k_get_vinfo (with_effects k c u) = k_get_vinfo k" "k_get_bdescs (with_effects k c u) = k_get_bdescs k"
  "k_pread (with_effects k c u) = k_pread k" "k_mmap (with_effects k c u) = k_mmap k"
  "k_munmap (with_effects k c u) = k_munmap k" "k_junk (with_effects k c u) = k_junk k"
  "k_pagesize (with_effects k c u) = k_pagesize k" "k_sem_wait (with_effects k c u) = k_sem_wait k"
  "k_sem_post (with_effects k c u) = k_sem_post k" "k_sem_trywait (with_effects k c u) = k_sem_trywait k"
  "k_sigblock (with_effects k c u) = k_sigblock k" "k_sigrestore (with_effects k c u) = k_sigrestore k"
  by (simp_all add: with_effects_def)

lemma with_effects_read [simp]: "read_segment (with_effects k c u) = read_segment k"
  unfolding read_segment_def [abs_def] with_effects_calls ..

lemma with_effects_api [simp]:
  "lib_alloc (with_effects k c u) = lib_alloc k"
  "nilfs_get_suinfo (with_effects k c u) = nilfs_get_suinfo k"
  "nilfs_get_cpinfo (with_effects k c u) = nilfs_get_cpinfo k"
  "nilfs_get_cpstat (with_effects k c u) = nilfs_get_cpstat k"
  "nilfs_get_vinfo (with_effects k c u) = nilfs_get_vinfo k"
  "nilfs_get_bdescs (with_effects k c u) = nilfs_get_bdescs k"
  "nilfs_get_segment (with_effects k c u) = nilfs_get_segment k"
  "nilfs_put_segment (with_effects k c u) = nilfs_put_segment k"
  "nilfs_lock (with_effects k c u) = nilfs_lock k"
  "nilfs_unlock (with_effects k c u) = nilfs_unlock k"
  unfolding lib_alloc_def [abs_def] nilfs_get_suinfo_def [abs_def] nilfs_get_cpinfo_def [abs_def]
    nilfs_get_cpstat_def [abs_def] nilfs_get_vinfo_def [abs_def] nilfs_get_bdescs_def [abs_def]
    nilfs_get_segment_def [abs_def] nilfs_put_segment_def [abs_def] nilfs_lock_def [abs_def]
    nilfs_unlock_def [abs_def] with_effects_calls with_effects_read by (rule refl)+

lemma with_effects_acc [simp]:
  "acc_bdesc (with_effects k c u) = acc_bdesc k" "acc_vdesc (with_effects k c u) = acc_vdesc k"
  "nilfs_acc_blocks_file (with_effects k c u) = nilfs_acc_blocks_file k"
  "nilfs_acc_blocks_psegment (with_effects k c u) = nilfs_acc_blocks_psegment k"
  "nilfs_acc_blocks_segment (with_effects k c u) = nilfs_acc_blocks_segment k"
proof -
  show 1: "acc_bdesc (with_effects k c u) = acc_bdesc k" "acc_vdesc (with_effects k c u) = acc_vdesc k"
    unfolding acc_bdesc_def [abs_def] acc_vdesc_def [abs_def] with_effects_api by (rule refl)+
  show 2: "nilfs_acc_blocks_file (with_effects k c u) = nilfs_acc_blocks_file k"
    unfolding nilfs_acc_blocks_file_def [abs_def] 1 ..
  show 3: "nilfs_acc_blocks_psegment (with_effects k c u) = nilfs_acc_blocks_psegment k"
    unfolding nilfs_acc_blocks_psegment_def [abs_def] 2 ..
  show "nilfs_acc_blocks_segment (with_effects k c u) = nilfs_acc_blocks_segment k"
    unfolding nilfs_acc_blocks_segment_def [abs_def] 3 ..
qed

lemma with_effects_acc_loop:
  "acc_blocks_loop (with_effects k c u) j protseq i n si (xs, vs) s = acc_blocks_loop k j protseq i n si (xs, vs) s"
proof (induction "n - i" arbitrary: i n si xs vs s rule: less_induct)
  case less
  have d: "m - i < n - i" if "i < n" "nilfs_deselect_segment ys n i = Some (zs, m)" for ys zs m
    using deselect_count [OF that(2)] that(1) by simp
  have IH: "m - i' < n - i \<Longrightarrow> acc_blocks_loop (with_effects k c u) j protseq i' m si' (ys, vs') s'
      = acc_blocks_loop k j protseq i' m si' (ys, vs') s'" for m i' si' ys vs' s'
    using less by simp
  show ?case
  proof (cases "i < n")
    case True
    then have nx: "n - Suc i < n - i" by simp
    show ?thesis
      by (subst (1 2) acc_blocks_loop.simps)
        (use True in \<open>simp add: Let_def IH nx d split: prod.split sum.split option.split\<close>)
  qed (simp add: acc_blocks_loop.simps)
qed


lemma with_effects_acc_blocks [simp]: "nilfs_acc_blocks (with_effects k c u) = nilfs_acc_blocks k"
  by (intro ext) (simp add: nilfs_acc_blocks_def with_effects_acc_loop)

text \<open>Loops that may not end: each run of one is a run of the other.\<close>

lemma get_vdesc_loop_run:
  assumes "get_vdesc_loop k j i v s = Some r" "nilfs_get_vinfo k' = nilfs_get_vinfo k"
  shows "get_vdesc_loop k' j i v s = Some r"
  using assms
proof (induction arbitrary: k' rule: get_vdesc_loop.raw_induct [rotated, consumes 1])
  case (1 f k j i v s r)
  show ?case
    using 1(2,3) by (subst get_vdesc_loop.simps)
      (auto simp: Let_def split: if_splits prod.splits sum.splits option.splits dest: 1(1))
qed

lemma get_bdesc_loop_run:
  assumes "get_bdesc_loop k n i v s = Some r" "nilfs_get_bdescs k' = nilfs_get_bdescs k"
  shows "get_bdesc_loop k' n i v s = Some r"
  using assms
proof (induction arbitrary: k' rule: get_bdesc_loop.raw_induct [rotated, consumes 1])
  case (1 f k n i v s r)
  show ?case
    using 1(2,3) by (subst get_bdesc_loop.simps)
      (auto simp: Let_def split: if_splits prod.splits sum.splits dest: 1(1))
qed

lemma option_eqI: "(\<And>r. x = Some r \<Longrightarrow> y = Some r) \<Longrightarrow> (\<And>r. y = Some r \<Longrightarrow> x = Some r) \<Longrightarrow> x = y"
  by (cases x; cases y) auto

lemma with_effects_get [simp]:
  "nilfs_get_vdesc (with_effects k c u) = nilfs_get_vdesc k"
  "nilfs_get_bdesc (with_effects k c u) = nilfs_get_bdesc k"
proof -
  have "get_vdesc_loop (with_effects k c u) j i v s = get_vdesc_loop k j i v s" for j i v s
    by (rule option_eqI) (erule get_vdesc_loop_run; simp)+
  then show "nilfs_get_vdesc (with_effects k c u) = nilfs_get_vdesc k"
    by (intro ext) (simp add: nilfs_get_vdesc_def)
  have "get_bdesc_loop (with_effects k c u) n i v s = get_bdesc_loop k n i v s" for n i v s
    by (rule option_eqI) (erule get_bdesc_loop_run; simp)+
  then show "nilfs_get_bdesc (with_effects k c u) = nilfs_get_bdesc k"
    by (intro ext) (simp add: nilfs_get_bdesc_def)
qed

lemma with_effects_snapshot [simp]: "nilfs_get_snapshot (with_effects k c u) = nilfs_get_snapshot k"
proof -
  have "get_snapshot_loop (with_effects k c u) nsss cno prev ss s = get_snapshot_loop k nsss cno prev ss s" for nsss cno prev ss s
  proof (induction "nsss - length ss" arbitrary: cno prev ss s rule: less_induct)
    case less
    have d: "nsss - length ss' < nsss - length ss" if "length ss < nsss" "store_snapshots nsss prev ss (ci # cis) = Inr (prev', ss')" for ci cis prev' ss'
      using store_snapshots_length [OF that(2)] that(1) by auto
    show ?case
    proof (cases "length ss < nsss")
      case True
      then show ?thesis
        by (subst (1 2) get_snapshot_loop.simps) (simp add: Let_def less d del: store_snapshots.simps last.simps split: prod.split sum.split list.split)
    qed (simp add: get_snapshot_loop.simps)
  qed
  then have eq: "get_snapshot_loop (with_effects k c u) = get_snapshot_loop k" by (intro ext)
  show ?thesis unfolding nilfs_get_snapshot_def [abs_def] with_effects_api eq ..
qed

lemma with_effects_toss_run [simp]:
  "toss_run (with_effects k c u) j protcno ss v i x s = toss_run k j protcno ss v i x s"
proof (induction "unat (v_nelems v) - i" arbitrary: i x s rule: less_induct)
  case less
  obtain h pv bv where x: "x = (h, pv, bv)" by (cases x)
  show ?case unfolding x
    by (subst (1 2) toss_run.simps) (auto simp: Let_def less nilfs_vector_get_size_def split: prod.split sum.split option.split)
qed

lemma with_effects_toss [simp]: "nilfs_toss_vdescs (with_effects k c u) = nilfs_toss_vdescs k"
proof -
  have "toss_vdescs_loop (with_effects k c u) j protcno ss i v x s = toss_vdescs_loop k j protcno ss i v x s" for j protcno ss i v x s
  proof (induction k j protcno ss i v x s rule: toss_vdescs_loop.induct)
    case (1 k j protcno ss i v last_hit pv bv s)
    then show ?case
      by (subst (1 2) toss_vdescs_loop.simps) (auto split: prod.split sum.split)
  qed
  then have "toss_vdescs_loop (with_effects k c u) = toss_vdescs_loop k" by (intro ext)
  then show ?thesis unfolding nilfs_toss_vdescs_def [abs_def] with_effects_snapshot by simp
qed


lemma with_effects_vectors [simp]: "reclaim_vectors (with_effects k c u) = reclaim_vectors k"
  unfolding reclaim_vectors_def [abs_def] with_effects_api ..

lemma with_effects_locked:
  "reclaim_locked (with_effects k c u) j nsegs True params vecs x = reclaim_locked k j nsegs True params vecs x"
  unfolding reclaim_locked_def with_effects_api with_effects_acc_blocks with_effects_get with_effects_toss if_True
  by (rule refl)

text \<open>C11. Assessing segments changes nothing: a dry run makes neither the call that frees segments nor
  the one that changes their usage information, whatever those calls would do.\<close>

theorem dry_run_has_no_effects:
  "nilfs_xreclaim_segment (k\<lparr>k_clean_segments := c, k_set_suinfo := u\<rparr>) j segnums nsegs True params stat
     = nilfs_xreclaim_segment k j segnums nsegs True params stat"
  unfolding with_effects_def [symmetric]
  unfolding nilfs_xreclaim_segment_def [abs_def] with_effects_locked with_effects_api with_effects_calls with_effects_vectors
  by (rule refl)

section \<open>What is handed to the kernel\<close>

text \<open>
  What the run relies on of the kernel: the checkpoint numbers a block's life time starts with
  are real ones (the first is 1), and the disk block query answers no more entries than asked and
  fills in nothing but the current block number.
\<close>

definition vinfo_laws :: "'w kernel \<Rightarrow> bool" where
  "vinfo_laws k \<longleftrightarrow> (\<forall>fd a vs w rs w'. k_get_vinfo k fd a vs w = (Inr rs, w') \<longrightarrow> (\<forall>r \<in> set rs. vi_start r \<noteq> 0))"

definition bdescs_laws :: "'w kernel \<Rightarrow> bool" where
  "bdescs_laws k \<longleftrightarrow> (\<forall>fd a bs w rs w'. k_get_bdescs k fd a bs w = (Inr rs, w') \<longrightarrow>
     length rs \<le> length bs \<and> map bdesc_key rs = map bdesc_key (take (length rs) bs))"

lemma get_vinfo_start:
  assumes "vinfo_laws k" "nilfs_get_vinfo k vs n s = (Inr rs, s')" "r \<in> set rs"
  shows "vi_start r \<noteq> 0"
  using assms by (auto simp: vinfo_laws_def nilfs_get_vinfo_def with_iocfd_def liftK_def split: if_splits prod.splits) blast

lemma get_bdescs_keys:
  assumes "bdescs_laws k" "nilfs_get_bdescs k bs n s = (Inr rs, s')"
  shows "length rs \<le> length bs" "map bdesc_key rs = map bdesc_key (take (length rs) bs)"
proof -
  obtain w where "k_get_bdescs k (n_iocfd (l_nilfs s)) (argv n sizeof_bdesc 0 0) bs (l_env s) = (Inr rs, w)"
    using assms(2) by (auto simp: nilfs_get_bdescs_def with_iocfd_def liftK_def split: if_splits prod.splits)
  then show "length rs \<le> length bs" "map bdesc_key rs = map bdesc_key (take (length rs) bs)"
    using assms(1) unfolding bdescs_laws_def by blast+
qed

lemma store_periods_ok:
  assumes "store_periods v i rs = Some v'" "vector_inv v" "length (vlist v) < 2 ^ 32" "i \<le> length (vlist v)"
    and "\<forall>r \<in> set rs. vi_start r \<noteq> 0" "\<forall>vd \<in> set (take i (vlist v)). p_start (vd_period vd) \<noteq> 0"
  shows "vector_inv v' \<and> map vdesc_key (vlist v') = map vdesc_key (vlist v) \<and> i + length rs \<le> length (vlist v')
    \<and> (\<forall>vd \<in> set (take (i + length rs) (vlist v')). p_start (vd_period vd) \<noteq> 0)"
  using assms
proof (induction v i rs rule: store_periods.induct)
  case (2 v i r rs)
  obtain e where e: "nilfs_vector_get_element v (of_nat i) = Some e"
    using 2(2) by (auto split: option.splits)
  have i: "i < length (vlist v)"
  proof (rule ccontr)
    assume "\<not> i < length (vlist v)"
    then have "i = length (vlist v)" using 2(5) by simp
    moreover have "unat (of_nat (length (vlist v)) :: u32) = length (vlist v)" using 2(4) by (rule unat_of_nat_u32)
    ultimately have "unat (of_nat i :: u32) = unat (v_nelems v)" using 2(3) by (simp del: unat_of_nat_u32)
    then show False using e 2(3) by (auto simp: nilfs_vector_get_element_def word_less_nat_alt split: if_splits)
  qed
  then have ei: "e = i" using get_element_ok [OF 2(3) i] 2(4) e by simp
  let ?v = "set_slot v i ((slot v i)\<lparr>vd_period := \<lparr>p_start = vi_start r, p_end = vi_end r\<rparr>\<rparr>)"
  have st: "store_periods ?v (i + 1) rs = Some v'" "vd_vblocknr (slot v i) = vi_vblocknr r"
    using 2(2) e ei by (auto split: if_splits)
  have inv: "vector_inv ?v" using 2(3) by simp
  have l: "vlist ?v = (vlist v)[i := (vlist v ! i)\<lparr>vd_period := \<lparr>p_start = vi_start r, p_end = vi_end r\<rparr>\<rparr>]"
    by (simp add: vlist_set_slot slot_vlist [OF i])
  have keys: "map vdesc_key (vlist ?v) = map vdesc_key (vlist v)"
    by (simp add: l map_update vdesc_key_def) (metis (no_types, lifting) list_update_id map_update vdesc_key_def)
  have len: "length (vlist ?v) = length (vlist v)" by (simp only: l length_list_update)
  have tk: "\<forall>vd \<in> set (take (i + 1) (vlist ?v)). p_start (vd_period vd) \<noteq> 0"
    using 2(6,7) i by (auto simp: l take_Suc_conv_app_nth)
  have "vector_inv v' \<and> map vdesc_key (vlist v') = map vdesc_key (vlist ?v) \<and> i + 1 + length rs \<le> length (vlist v')
    \<and> (\<forall>vd \<in> set (take (i + 1 + length rs) (vlist v')). p_start (vd_period vd) \<noteq> 0)"
    using 2(1) [OF e, unfolded ei, OF _ st(1) inv] st(2) len 2(4,6) i tk by (simp del: length_vlist)
  then show ?case using keys by (simp del: length_vlist)
qed auto


lemma get_vdesc_loop_ok:
  assumes "get_vdesc_loop k j i v s = Some (Inr v', s')" "vinfo_laws k" "vector_inv v" "length (vlist v) < 2 ^ 32"
    and "i \<le> length (vlist v)" "\<forall>vd \<in> set (take i (vlist v)). p_start (vd_period vd) \<noteq> 0"
  shows "vector_inv v' \<and> map vdesc_key (vlist v') = map vdesc_key (vlist v) \<and> (\<forall>vd \<in> set (vlist v'). p_start (vd_period vd) \<noteq> 0)"
proof -
  have "\<forall>v' s'. y = (Inr v', s') \<longrightarrow> vinfo_laws k \<longrightarrow> vector_inv v \<longrightarrow> length (vlist v) < 2 ^ 32 \<longrightarrow> i \<le> length (vlist v) \<longrightarrow>
      (\<forall>vd \<in> set (take i (vlist v)). p_start (vd_period vd) \<noteq> 0) \<longrightarrow>
      vector_inv v' \<and> map vdesc_key (vlist v') = map vdesc_key (vlist v) \<and> (\<forall>vd \<in> set (vlist v'). p_start (vd_period vd) \<noteq> 0)"
    if "get_vdesc_loop k j i v s = Some y" for y
    using that
  proof (induction rule: get_vdesc_loop.raw_induct [rotated, consumes 1])
    case (1 f k j i v s y)
    show ?case
    proof (intro allI impI)
      fix v' s' assume y: "y = (Inr v', s')" and kl: "vinfo_laws k" and inv: "vector_inv v"
        and len: "length (vlist v) < 2 ^ 32" and i: "i \<le> length (vlist v)"
        and st: "\<forall>vd \<in> set (take i (vlist v)). p_start (vd_period vd) \<noteq> 0"
      show "vector_inv v' \<and> map vdesc_key (vlist v') = map vdesc_key (vlist v) \<and> (\<forall>vd \<in> set (vlist v'). p_start (vd_period vd) \<noteq> 0)"
      proof (cases "i < length (vlist v)")
        case False
        then have "y = (Inr v, s)" using 1(2) inv by (simp add: Let_def nilfs_vector_get_size_def)
        then show ?thesis using False i inv st y by simp
      next
        case True
        then obtain vi n rs s1 v1 where g: "nilfs_get_vinfo k vi n s = (Inr rs, s1)"
          and p: "store_periods v i rs = Some v1" and r: "f k j (i + length rs) v1 s1 = Some y"
          using 1(2) y inv by (auto simp: Let_def nilfs_vector_get_size_def split: prod.splits sum.splits option.splits)
        note sp = store_periods_ok [OF p inv len i _ st]
        have ge: "\<forall>r \<in> set rs. vi_start r \<noteq> 0" using get_vinfo_start [OF kl g] by blast
        have "length (vlist v1) = length (vlist v)" using sp [OF ge] by (metis length_map)
        then show ?thesis using 1(1) [OF r] y kl sp [OF ge] len by (simp del: length_vlist)
      qed
    qed
  qed
  then show ?thesis using assms by blast
qed

lemma get_vdesc_ok:
  assumes "nilfs_get_vdesc k j v s = (Inr v', s')" "vinfo_laws k" "vector_inv v" "length (vlist v) < 2 ^ 32"
  shows "vector_inv v' \<and> mset (map vdesc_key (vlist v')) = mset (map vdesc_key (vlist v))
    \<and> (\<forall>vd \<in> set (vlist v'). p_start (vd_period vd) \<noteq> 0)"
proof -
  let ?v = "nilfs_vector_sort v nilfs_comp_vdesc_vblocknr"
  have l: "get_vdesc_loop k j 0 ?v s = Some (Inr v', s')"
    using assms(1) by (auto simp: nilfs_get_vdesc_def split: option.splits)
  have so: "vector_inv ?v" "vlist ?v = qsort nilfs_comp_vdesc_vblocknr (vlist v)"
    using sort_ok [OF assms(3)] by auto
  then have ml: "length (vlist ?v) < 2 ^ 32" using assms(4) by (simp only: length_qsort)
  show ?thesis using get_vdesc_loop_ok [OF l assms(2) so(1) ml] so(2) by (simp add: mset_map)
qed


text \<open>The disk block query overwrites the descriptors in place.\<close>

lemma put_at_take_map:
  assumes "length rs \<le> length (take m (drop i xs))" "map f rs = map f (take (length rs) (take m (drop i xs)))"
  shows "map f (put_at i rs xs) = map f xs" "length (put_at i rs xs) = length xs"
proof -
  let ?n = "length rs"
  show "length (put_at i rs xs) = length xs" using assms(1) by (auto simp: put_at_def)
  have "map f (put_at i rs xs) = map f (take i xs) @ map f (take ?n (drop i xs)) @ map f (drop ?n (drop i xs))"
    using assms by (simp add: put_at_def add.commute)
  also have "\<dots> = map f (take i xs @ take ?n (drop i xs) @ drop ?n (drop i xs))" by simp
  also have "\<dots> = map f xs" by (simp only: append_take_drop_id)
  finally show "map f (put_at i rs xs) = map f xs" .
qed

lemma get_bdesc_loop_ok:
  assumes "get_bdesc_loop k n i v s = Some (Inr v', s')" "bdescs_laws k" "vector_inv v"
  shows "vector_inv v' \<and> map bdesc_key (vlist v') = map bdesc_key (vlist v)"
proof -
  have "\<forall>v' s'. y = (Inr v', s') \<longrightarrow> bdescs_laws k \<longrightarrow> vector_inv v \<longrightarrow>
      vector_inv v' \<and> map bdesc_key (vlist v') = map bdesc_key (vlist v)"
    if "get_bdesc_loop k n i v s = Some y" for y
    using that
  proof (induction rule: get_bdesc_loop.raw_induct [rotated, consumes 1])
    case (1 f k n i v s y)
    show ?case
    proof (intro allI impI)
      fix v' s' assume y: "y = (Inr v', s')" and kl: "bdescs_laws k" and inv: "vector_inv v"
      show "vector_inv v' \<and> map bdesc_key (vlist v') = map bdesc_key (vlist v)"
      proof (cases "i < n")
        case False
        then show ?thesis using 1(2) y inv by simp
      next
        case True
        then obtain m rs s1 where g: "nilfs_get_bdescs k (take m (drop i (v_data v))) (of_nat m) s = (Inr rs, s1)"
          and r: "f k n (i + length rs) (v\<lparr>v_data := put_at i rs (v_data v)\<rparr>) s1 = Some y"
          using 1(2) y by (auto simp: Let_def split: prod.splits sum.splits)
        note pk = put_at_take_map [OF get_bdescs_keys [OF kl g]]
        then have "vector_inv (v\<lparr>v_data := put_at i rs (v_data v)\<rparr>)" using inv by (simp add: vector_inv_def)
        moreover have "map bdesc_key (vlist (v\<lparr>v_data := put_at i rs (v_data v)\<rparr>)) = map bdesc_key (vlist v)"
          using pk(1) by (simp add: vlist_def flip: take_map)
        ultimately show ?thesis using 1(1) [OF r] y kl by simp
      qed
    qed
  qed
  then show ?thesis using assms by blast
qed

lemma get_bdesc_ok:
  assumes "nilfs_get_bdesc k v s = (Inr v', s')" "bdescs_laws k" "vector_inv v"
  shows "vector_inv v' \<and> mset (map bdesc_key (vlist v')) = mset (map bdesc_key (vlist v))"
proof -
  let ?v = "nilfs_vector_sort v nilfs_comp_bdesc"
  have l: "get_bdesc_loop k (unat (nilfs_vector_get_size ?v)) 0 ?v s = Some (Inr v', s')"
    using assms(1) by (auto simp: nilfs_get_bdesc_def Let_def split: option.splits)
  have so: "vector_inv ?v" "vlist ?v = qsort nilfs_comp_bdesc (vlist v)" using sort_ok [OF assms(3)] by auto
  show ?thesis using get_bdesc_loop_ok [OF l assms(2) so(1)] so(2) by (simp add: mset_map)
qed


text \<open>
  The plan of a run: of the virtual blocks \<open>vds\<close>, with the life times the kernel reports, and
  the disk blocks \<open>bds\<close>, it keeps the live ones (by disk address), frees the addresses of
  the dead ones and deletes the checkpoints their life times cover.
\<close>

definition plan_ok :: "u64 \<Rightarrow> u64 list \<Rightarrow> nilfs_vdesc list \<Rightarrow> nilfs_bdesc list
    \<Rightarrow> nilfs_vdesc list \<Rightarrow> nilfs_period list \<Rightarrow> u64 list \<Rightarrow> nilfs_bdesc list \<Rightarrow> bool" where
  "plan_ok protcno ss vds bds vs ps ns bs \<longleftrightarrow>
     (let live = (\<lambda>vd. vdesc_live_spec vd protcno (set ss)); dead = filter (\<lambda>vd. \<not> live vd) vds in
      mset vs = mset (filter live vds) \<and> sorted_wrt (\<lambda>a b. vd_blocknr a \<le> vd_blocknr b) vs
      \<and> ns = map vd_vblocknr dead
      \<and> cover ps = cover (map vd_period (filter (\<lambda>vd. vd_cno vd \<noteq> 0) dead))
      \<and> sorted_wrt (\<lambda>a b. p_end a < p_start b) ps
      \<and> bs = filter (\<lambda>bd. bd_oblocknr bd = bd_blocknr bd) bds)"

lemma orRet_InrE:
  assumes "orRet m x f s = ((Inr y, z), s')"
  obtains r s1 where "m s = (Inr r, s1)" "f r s1 = ((Inr y, z), s')"
  using assms by (auto simp: orRet_def split: prod.splits sum.splits)

lemma cmp_order_blocknr: "cmp_order nilfs_comp_vdesc_blocknr (\<lambda>a b. vd_blocknr a \<le> vd_blocknr b)"
  by (auto simp: cmp_order_def nilfs_comp_vdesc_blocknr_def transp_def split: if_splits)

lemma reclaim_finish_clean:
  assumes "reclaim_finish k j params n rb supv (vv, pv, bnv, bv) (segnums, stat) s = ((Inr (), segnums', stat'), s')"
    and "rp_flags params AND NILFS_RECLAIM_PARAM_MIN_RECLAIMABLE_BLKS = 0"
  shows "segnums' = segnums \<and> stat' = stat \<and> ((\<exists>w w'. k_sigpending k w = (Inr True, w'))
     \<or> (\<exists>s1. nilfs_clean_segments k (vlist vv) (vlist pv) (vlist bnv) (vlist bv) (take n segnums) s1 = (Inr (), s')))"
proof -
  obtain p s1 where p: "liftK (k_sigpending k) s = (Inr p, s1)"
    and r: "(if p then doRet (Inr ()) (segnums, stat) s1
       else reclaim_clean k n (vv, pv, bnv, bv) (segnums, stat) s1) = ((Inr (), segnums', stat'), s')"
    using assms(1) unfolding reclaim_finish_def case_prod_conv assms(2)
    by (elim orRet_InrE) (simp cong: if_cong)
  show ?thesis
  proof (cases p)
    case True
    then show ?thesis using p r by (auto simp: doRet_def liftK_def split: prod.splits)
  next
    case False
    then show ?thesis using r by (auto simp: reclaim_clean_def doRet_def elim!: orRet_InrE)
  qed
qed


text \<open>
  The kernel has cleaned the first \<open>n\<close> segments of the array by a sound plan for the blocks
  collected from them and the snapshots reported.
\<close>

definition cleaned_by_plan :: "'w kernel \<Rightarrow> gc_junk \<Rightarrow> u64 \<Rightarrow> u64 list \<Rightarrow> nat \<Rightarrow> u64 \<Rightarrow> nat \<Rightarrow> u64 list \<Rightarrow> bool" where
  "cleaned_by_plan k j protseq segnums nsegs protcno n segnums' \<longleftrightarrow>
     (\<exists>vv0 bv0 s0 vv bv s1 ss s2 s3 vds bds vs ps ns bs s4 s5.
        vlist vv0 = [] \<and> vlist bv0 = []
        \<and> nilfs_acc_blocks k j segnums nsegs protseq (vv0, bv0) s0 = (Inr (n, segnums', vv, bv), s1)
        \<and> mset (map vdesc_key vds) = mset (map vdesc_key (vlist vv))
        \<and> mset (map bdesc_key bds) = mset (map bdesc_key (vlist bv))
        \<and> nilfs_get_snapshot k s2 = (Inr ss, s3)
        \<and> plan_ok protcno ss vds bds vs ps ns bs
        \<and> nilfs_clean_segments k vs ps ns bs (take n segnums') s4 = (Inr (), s5))"

definition run_ok :: "'w kernel \<Rightarrow> gc_junk \<Rightarrow> u64 \<Rightarrow> u64 list \<Rightarrow> nat \<Rightarrow> u64 \<Rightarrow> (u64 \<Rightarrow> nilfs_suinfo) \<Rightarrow> (u64 \<Rightarrow> u64)
    \<Rightarrow> u64 list \<Rightarrow> nilfs_reclaim_stat \<Rightarrow> bool" where
  "run_ok k j protseq segnums nsegs protcno si_of seq_of segnums' stat' \<longleftrightarrow>
     (\<exists>n. take n segnums' = filter (selectable si_of seq_of protseq) (take nsegs segnums)
        \<and> mset segnums' = mset segnums \<and> cleaned_segs stat' = of_nat n
        \<and> (n = 0 \<or> (\<exists>w w'. k_sigpending k w = (Inr True, w'))
           \<or> cleaned_by_plan k j protseq segnums nsegs protcno n segnums'))"

lemma reclaim_locked_steps:
  assumes run: "reclaim_locked k j nsegs False params (vv, bv, pv, bnv, supv) (segnums, Some stat) s = ((Inr (), segnums', stat'), s')"
    and acc: "nilfs_acc_blocks k j segnums nsegs (rp_protseq params) (vv, bv) s = (Inr (n, xs, vv1, bv1), s1)" and n: "n \<noteq> 0"
    and pc: "protcno = (if rp_flags params AND NILFS_RECLAIM_PARAM_PROTCNO \<noteq> 0 then rp_protcno params else NILFS_CNO_MAX)"
  shows "\<exists>vv2 s2 vv3 pv3 bnv3 s3 bv2 s4 t2 rb. nilfs_get_vdesc k j vv1 s1 = (Inr vv2, s2)
      \<and> nilfs_toss_vdescs k j vv2 pv bnv protcno s2 = (Inr (vv3, pv3, bnv3), s3)
      \<and> nilfs_get_bdesc k bv1 s3 = (Inr bv2, s4) \<and> cleaned_segs t2 = of_nat n
      \<and> reclaim_finish k j params n rb supv (nilfs_vector_sort vv3 nilfs_comp_vdesc_blocknr, nilfs_unify_period pv3,
         bnv3, nilfs_toss_bdescs bv2) (xs, Some t2) s4 = ((Inr (), segnums', stat'), s')"
proof -
  obtain vv2 s2 where gv: "nilfs_get_vdesc k j vv1 s1 = (Inr vv2, s2)"
    using run n unfolding reclaim_locked_def orRet_def case_prod_conv acc
    by (auto simp: Let_def split: prod.splits sum.splits)
  obtain vv3 pv3 bnv3 s3 where tv: "nilfs_toss_vdescs k j vv2 pv bnv protcno s2 = (Inr (vv3, pv3, bnv3), s3)"
    using run n unfolding reclaim_locked_def orRet_def case_prod_conv acc pc [symmetric]
    by (simp add: Let_def gv split: prod.splits sum.splits)
  obtain bv2 s4 where gb: "nilfs_get_bdesc k bv1 s3 = (Inr bv2, s4)"
    using run n unfolding reclaim_locked_def orRet_def case_prod_conv acc pc [symmetric]
    by (simp add: Let_def gv tv split: prod.splits sum.splits)
  obtain bps where bps: "nilfs_get_blocks_per_segment (l_nilfs s4) = Some bps"
    using run n unfolding reclaim_locked_def orRet_def case_prod_conv acc pc [symmetric]
    by (simp add: Let_def gv tv gb doRet_def split: option.splits)
  have "\<exists>t2. cleaned_segs t2 = of_nat n \<and> (\<exists>rb. reclaim_finish k j params n rb supv
       (nilfs_vector_sort vv3 nilfs_comp_vdesc_blocknr, nilfs_unify_period pv3, bnv3, nilfs_toss_bdescs bv2)
       (xs, Some t2) s4 = ((Inr (), segnums', stat'), s'))"
    using run n unfolding reclaim_locked_def orRet_def case_prod_conv acc pc [symmetric]
    by (simp add: Let_def gv tv gb bps) (rule exI, rule conjI [rotated], rule exI, assumption, simp)
  with gv tv gb show ?thesis by blast
qed

lemma plan_from_steps:
  assumes gv: "nilfs_get_vdesc k j vv s1 = (Inr vv2, s2)"
      and tv: "nilfs_toss_vdescs k j vv2 pv bnv protcno s2 = (Inr (vv3, pv3, bnv3), s3)"
      and gb: "nilfs_get_bdesc k bv s3 = (Inr bv2, s4)"
    and kl: "vinfo_laws k" "bdescs_laws k"
    and inv: "vector_inv vv" "vector_inv bv" "vector_inv pv" "vector_inv bnv" "vlist pv = []" "vlist bnv = []"
    and few: "length (vlist vv) < 2 ^ 32" "length (vlist bv) < 2 ^ 32"
  shows "\<exists>ss s5. nilfs_get_snapshot k s2 = (Inr ss, s5)
    \<and> plan_ok protcno ss (vlist vv2) (vlist bv2) (vlist (nilfs_vector_sort vv3 nilfs_comp_vdesc_blocknr))
         (vlist (nilfs_unify_period pv3)) (vlist bnv3) (vlist (nilfs_toss_bdescs bv2))
    \<and> mset (map vdesc_key (vlist vv2)) = mset (map vdesc_key (vlist vv))
    \<and> mset (map bdesc_key (vlist bv2)) = mset (map bdesc_key (vlist bv))"
proof -
  note g = get_vdesc_ok [OF gv kl(1) inv(1) few(1)] and b = get_bdesc_ok [OF gb kl(2) inv(2)]
  have "length (vlist vv2) = length (vlist vv)" using g by (metis length_map size_mset)
  then have l2: "length (vlist vv2) \<le> 2 ^ 32" using few(1) by linarith
  have "length (vlist bv2) = length (vlist bv)" using b by (metis length_map size_mset)
  then have lb: "length (vlist bv2) \<le> 2 ^ 32" using few(2) by linarith
  obtain ss s5 where ss: "nilfs_get_snapshot k s2 = (Inr ss, s5)" and i3: "vector_inv vv3" "vector_inv pv3"
    and vl: "vlist vv3 = filter (\<lambda>vd. vdesc_live_spec vd protcno (set ss)) (vlist vv2)"
    and bl: "vlist bnv3 = map vd_vblocknr (filter (\<lambda>vd. \<not> vdesc_live_spec vd protcno (set ss)) (vlist vv2))"
    and pl: "vlist pv3 = map vd_period
        (filter (\<lambda>vd. vd_cno vd \<noteq> 0) (filter (\<lambda>vd. \<not> vdesc_live_spec vd protcno (set ss)) (vlist vv2)))"
    using toss_vdescs_ok [OF tv _ l2 inv(3,4)] g inv(5,6) by (auto simp: dead_periods_def)
  have "length (vlist pv3) \<le> length (vlist vv2)"
    unfolding pl length_map by (meson length_filter_le order_trans)
  then have lp: "length (vlist pv3) \<le> 2 ^ 32" using l2 by linarith
  note u = unify_period_ok [OF i3(2) lp]
  note s = sort_ok [OF i3(1), of nilfs_comp_vdesc_blocknr]
  have t: "vlist (nilfs_toss_bdescs bv2) = filter (\<lambda>bd. bd_oblocknr bd = bd_blocknr bd) (vlist bv2)"
    using toss_bdescs_loop_ok [of bv2 0] b lb by (simp add: nilfs_toss_bdescs_def nilfs_bdesc_is_live_def [abs_def])
  have "plan_ok protcno ss (vlist vv2) (vlist bv2) (vlist (nilfs_vector_sort vv3 nilfs_comp_vdesc_blocknr))
         (vlist (nilfs_unify_period pv3)) (vlist bnv3) (vlist (nilfs_toss_bdescs bv2))"
    unfolding plan_ok_def Let_def
    using u s t bl pl vl sorted_wrt_qsort [OF cmp_order_blocknr] by (simp add: sep_def [abs_def])
  then show ?thesis using ss g b by blast
qed

definition few_blocks :: "'w kernel \<Rightarrow> gc_junk \<Rightarrow> u64 list \<Rightarrow> nat \<Rightarrow> u64 \<Rightarrow> bool" where
  "few_blocks k j segnums nsegs protseq \<longleftrightarrow>
     (\<forall>vv bv s n xs vv' bv' s'. vlist vv = [] \<and> vlist bv = []
        \<and> nilfs_acc_blocks k j segnums nsegs protseq (vv, bv) s = (Inr (n, xs, vv', bv'), s') \<longrightarrow>
        length (vlist vv') < 2 ^ 32 \<and> length (vlist bv') < 2 ^ 32)"

lemma reclaim_locked_ok:
  assumes run: "reclaim_locked k j nsegs False params (vv, bv, pv, bnv, supv) (segnums, Some stat) s = ((Inr (), segnums', stat'), s')"
    and fl: "rp_flags params AND NILFS_RECLAIM_PARAM_MIN_RECLAIMABLE_BLKS = 0"
    and kl: "vinfo_laws k" "bdescs_laws k" "stable_segments k si_of seq_of" "nsegs \<le> length segnums"
      "few_blocks k j segnums nsegs (rp_protseq params)"
    and inv: "vector_inv vv" "vector_inv bv" "vector_inv pv" "vector_inv bnv"
      "vlist vv = []" "vlist bv = []" "vlist pv = []" "vlist bnv = []"
    and pc: "protcno = (if rp_flags params AND NILFS_RECLAIM_PARAM_PROTCNO \<noteq> 0 then rp_protcno params else NILFS_CNO_MAX)"
  shows "\<exists>t. stat' = Some t \<and> run_ok k j (rp_protseq params) segnums nsegs protcno si_of seq_of segnums' t"
proof -
  let ?P = "selectable si_of seq_of (rp_protseq params)"
  obtain n xs vv1 bv1 s1 where acc: "nilfs_acc_blocks k j segnums nsegs (rp_protseq params) (vv, bv) s = (Inr (n, xs, vv1, bv1), s1)"
    using run unfolding reclaim_locked_def case_prod_conv by (elim orRet_InrE) auto
  have sel: "take n xs = filter ?P (take nsegs segnums)" "mset xs = mset segnums" "vector_inv vv1" "vector_inv bv1"
    using acc_blocks_loop_ok [OF acc [unfolded nilfs_acc_blocks_def] kl(3,4)] inv by (auto simp: vecs_inv_def)
  have few: "length (vlist vv1) < 2 ^ 32" "length (vlist bv1) < 2 ^ 32"
    using kl(5) inv(5,6) acc unfolding few_blocks_def by blast+
  show ?thesis
  proof (cases "n = 0")
    case True
    then have x: "segnums' = xs" "\<exists>t. stat' = Some t \<and> cleaned_segs t = of_nat 0"
      using run acc unfolding reclaim_locked_def case_prod_conv by (simp_all add: orRet_def Let_def doRet_def) auto
    show ?thesis
      using x(2) sel(1,2) unfolding run_ok_def x(1) True by blast
  next
    case n: False
    obtain vv2 s2 vv3 pv3 bnv3 s3 bv2 s4 t2 rb where
      gv: "nilfs_get_vdesc k j vv1 s1 = (Inr vv2, s2)"
      and tv: "nilfs_toss_vdescs k j vv2 pv bnv protcno s2 = (Inr (vv3, pv3, bnv3), s3)"
      and gb: "nilfs_get_bdesc k bv1 s3 = (Inr bv2, s4)" and t2: "cleaned_segs t2 = of_nat n"
      and fin: "reclaim_finish k j params n rb supv (nilfs_vector_sort vv3 nilfs_comp_vdesc_blocknr, nilfs_unify_period pv3,
         bnv3, nilfs_toss_bdescs bv2) (xs, Some t2) s4 = ((Inr (), segnums', stat'), s')"
      using reclaim_locked_steps [OF run acc n pc] by blast
    note plan = plan_from_steps [OF gv tv gb kl(1,2) sel(3,4) inv(3,4,7,8) few]
    note rf = reclaim_finish_clean [OF fin fl]
    then have x: "segnums' = xs" "stat' = Some t2" by auto
    have "(\<exists>w w'. k_sigpending k w = (Inr True, w')) \<or> cleaned_by_plan k j (rp_protseq params) segnums nsegs protcno n segnums'"
    proof (cases "\<exists>w w'. k_sigpending k w = (Inr True, w')")
      case False
      then obtain s5 where "nilfs_clean_segments k (vlist (nilfs_vector_sort vv3 nilfs_comp_vdesc_blocknr))
          (vlist (nilfs_unify_period pv3)) (vlist bnv3) (vlist (nilfs_toss_bdescs bv2)) (take n segnums') s5 = (Inr (), s')"
        using rf x by auto
      then show ?thesis using plan acc inv(5,6) x(1) unfolding cleaned_by_plan_def by metis
    qed simp
    then show ?thesis
      using t2 sel(1,2) x unfolding run_ok_def by blast
  qed
qed

lemma reclaim_vectors_ok:
  assumes "reclaim_vectors k j s = (Inr (vv, bv, pv, bnv, supv), s')"
  shows "vector_inv vv" "vector_inv bv" "vector_inv pv" "vector_inv bnv"
      "vlist vv = []" "vlist bv = []" "vlist pv = []" "vlist bnv = []"
  using assms
  by (auto simp: reclaim_vectors_def sizeof_vdesc_def sizeof_bdesc_def sizeof_period_def sizeof_u64_def
      split: prod.splits sum.splits dest!: create_ok)


section \<open>The counts a run reports\<close>

definition counts_le :: "nat \<Rightarrow> nilfs_reclaim_stat option \<Rightarrow> bool" where
  "counts_le n st \<longleftrightarrow> (\<exists>t. st = Some t \<and> unat (cleaned_segs t) \<le> n \<and> unat (deferred_segs t) \<le> n)"

definition reports :: "nat \<Rightarrow> 'w reclaim \<Rightarrow> bool" where
  "reports n m \<longleftrightarrow> (\<forall>s r x st s'. m s = ((r, x, st), s') \<longrightarrow> counts_le n st)"

lemma reports_ret: "counts_le n st \<Longrightarrow> reports n (doRet r (x, st))"
  by (simp add: reports_def doRet_def)

lemma reports_or:
  "counts_le n st \<Longrightarrow> (\<And>y s s'. m s = (Inr y, s') \<Longrightarrow> reports n (f y)) \<Longrightarrow> reports n (orRet m (x, st) f)"
  unfolding reports_def orRet_def by (fastforce split: prod.splits sum.splits)

lemma reports_opt: "reports n A \<Longrightarrow> (\<And>b. reports n (B b)) \<Longrightarrow> reports n (\<lambda>s. case g s of None \<Rightarrow> A s | Some b \<Rightarrow> B b s)"
  by (auto simp: reports_def split: option.splits)

lemma reports_if: "(c \<Longrightarrow> reports n A) \<Longrightarrow> (\<not> c \<Longrightarrow> reports n B) \<Longrightarrow> reports n (\<lambda>s. if c then A s else B s)"
  by (cases c) simp_all

lemma reports_cond: "reports n A \<Longrightarrow> reports n B \<Longrightarrow> reports n (if c then A else B)"
  by simp

lemma acc_blocks_count:
  assumes "nilfs_acc_blocks k j xs n protseq vs s = (Inr (n', ys, vs'), s')"
  shows "n' \<le> n"
proof -
  have "acc_blocks_loop k j protseq i n si (xs, vs) s = (Inr (n', ys, vs'), s') \<Longrightarrow> n' \<le> n" for i si
  proof (induction "n - i" arbitrary: i n si xs vs s rule: less_induct)
    case less
    have d: "m - i < n - i \<and> m \<le> n" if "i < n" "nilfs_deselect_segment zs n i = Some (ws, m)" for zs ws m
      using deselect_count [OF that(2)] that(1) by simp
    show ?case
    proof (cases "i < n")
      case True
      have up: "acc_blocks_loop k j protseq (Suc i) n si' (xs, vs'') s'' = (Inr (n', ys, vs'), s') \<Longrightarrow> n' \<le> n" for si' vs'' s''
        using less(1) [of n "Suc i"] True by simp
      have down: "nilfs_deselect_segment xs n i = Some (ws, m) \<Longrightarrow> acc_blocks_loop k j protseq i m si' (ws, vs'') s'' = (Inr (n', ys, vs'), s') \<Longrightarrow> n' \<le> n"
        for ws m si' vs'' s''
        using less(1) [of m i] d [OF True, of xs ws m] by fastforce
      show ?thesis
        using less(2) True
        by (subst (asm) acc_blocks_loop.simps) (auto simp: Let_def split: prod.splits sum.splits if_splits option.splits dest: up down)
    qed (use less(2) in \<open>simp add: acc_blocks_loop.simps\<close>)
  qed
  then show ?thesis using assms by (simp add: nilfs_acc_blocks_def)
qed

lemma counts_le_upd:
  "counts_le n st \<Longrightarrow> (\<And>t. cleaned_segs (f t) = cleaned_segs t \<and> deferred_segs (f t) = deferred_segs t) \<Longrightarrow> counts_le n (map_option f st)"
  by (auto simp: counts_le_def)

lemma counts_le_set: "m \<le> n \<Longrightarrow> n < 2 ^ 64 \<Longrightarrow> counts_le n st \<Longrightarrow> counts_le n (map_option (\<lambda>t. t\<lparr>cleaned_segs := of_nat m, deferred_segs := 0\<rparr>) st)"
  by (auto simp: counts_le_def unat_of_nat take_bit_eq_mod)

lemma finish_reports:
  assumes "m \<le> n" "n < 2 ^ 64" "counts_le n st"
  shows "reports n (reclaim_finish k j params m rb supv vecs (x, st))"
proof -
  have z: "counts_le n (map_option (\<lambda>t. t\<lparr>deferred_segs := of_nat m, cleaned_segs := 0\<rparr>) st)"
    "counts_le n (map_option (\<lambda>t. t\<lparr>deferred_segs := 0, cleaned_segs := of_nat m\<rparr>) (map_option (\<lambda>t. t\<lparr>deferred_segs := of_nat m, cleaned_segs := 0\<rparr>) st))"
    using assms by (auto simp: counts_le_def unat_of_nat take_bit_eq_mod)
  have clean: "reports n (reclaim_clean k m vecs (x, st))" if "counts_le n st" for st
    using that by (cases vecs) (auto simp: reclaim_clean_def intro!: reports_or reports_ret)
  show ?thesis
    unfolding reclaim_finish_def prod.case
    by (rule reports_or [OF assms(3)])
       (auto simp: reports_def Let_def orRet_def doRet_def z assms(3) dest: clean [OF assms(3), unfolded reports_def, rule_format]
         clean [OF z(2), unfolded reports_def, rule_format] split: prod.splits sum.splits if_splits)
qed

lemma locked_reports:
  assumes "n < 2 ^ 64" "counts_le n st"
  shows "reports n (reclaim_locked k j n dry params vecs (x, st))"
proof -
  obtain vv bv pv bnv supv where v: "vecs = (vv, bv, pv, bnv, supv)" by (rule prod_cases5)
  show ?thesis
    unfolding reclaim_locked_def v prod.case
  proof (rule reports_or [OF assms(2)])
    fix y :: "nat \<times> u64 list \<times> vdescv \<times> bdescv" and s s'
    assume a: "nilfs_acc_blocks k j x n (rp_protseq params) (vv, bv) s = (Inr y, s')"
    obtain m xs vv' bv' where y: "y = (m, xs, vv', bv')" by (rule prod_cases4)
    have m: "m \<le> n" using acc_blocks_count a y by blast
    let ?st = "map_option (\<lambda>t. t\<lparr>cleaned_segs := of_nat m, protected_segs := of_nat (n - m), deferred_segs := 0\<rparr>) st"
    have st: "counts_le n ?st" using assms m by (auto simp: counts_le_def unat_of_nat take_bit_eq_mod)
    show "reports n (case y of (m, segnums, vv, bv) \<Rightarrow>
        let stat = map_option (\<lambda>t. t\<lparr>cleaned_segs := of_nat m, protected_segs := of_nat (n - m), deferred_segs := 0\<rparr>) st in
        if m = 0 then doRet (Inr ()) (segnums, stat)
        else orRet (nilfs_get_vdesc k j vv) (segnums, stat) (\<lambda>vv.
          let nblocks = nilfs_vector_get_size vv;
              protcno = (if rp_flags params AND NILFS_RECLAIM_PARAM_PROTCNO \<noteq> 0 then rp_protcno params else NILFS_CNO_MAX) in
          orRet (nilfs_toss_vdescs k j vv pv bnv protcno) (segnums, stat) (\<lambda>(vv, pv, bnv).
            let stat = map_option (\<lambda>t. t\<lparr>live_vblks := nilfs_vector_get_size vv,
                          defunct_vblks := nblocks - nilfs_vector_get_size vv, freed_vblks := nilfs_vector_get_size bnv\<rparr>) stat;
                vv = nilfs_vector_sort vv nilfs_comp_vdesc_blocknr; pv = nilfs_unify_period pv in
            orRet (nilfs_get_bdesc k bv) (segnums, stat) (\<lambda>bv s.
              let nblocks = nilfs_vector_get_size bv; bv = nilfs_toss_bdescs bv in
              case nilfs_get_blocks_per_segment (l_nilfs s) of
                None \<Rightarrow> doRet (Inl EAbort) (segnums, stat) s
              | Some bps \<Rightarrow>
                  let reclaimable_blocks = ucast (ucast bps * of_nat m - (nilfs_vector_get_size vv + nilfs_vector_get_size bv) :: u64) :: u32;
                      stat = map_option (\<lambda>t. t\<lparr>live_pblks := nilfs_vector_get_size bv,
                          defunct_pblks := nblocks - nilfs_vector_get_size bv,
                          live_blks := live_vblks t + nilfs_vector_get_size bv, defunct_blks := ucast reclaimable_blocks\<rparr>) stat
                  in if dry then doRet (Inr ()) (segnums, stat) s
                     else reclaim_finish k j params m reclaimable_blocks supv (vv, pv, bnv, bv) (segnums, stat) s))))"
    proof (cases "m = 0")
      case False
      have s2: "counts_le n (map_option (\<lambda>t. t\<lparr>live_vblks := a, defunct_vblks := b, freed_vblks := c\<rparr>) ?st)" for a b c
        by (rule counts_le_upd [OF st]) simp
      have s3: "counts_le n (map_option (\<lambda>t. t\<lparr>live_pblks := d, defunct_pblks := e, live_blks := live_vblks t + f, defunct_blks := g\<rparr>)
          (map_option (\<lambda>t. t\<lparr>live_vblks := a, defunct_vblks := b, freed_vblks := c\<rparr>) ?st))" for a b c d e f g
        by (rule counts_le_upd [OF s2]) simp
      have fin: "reports n (\<lambda>s. case nilfs_get_blocks_per_segment (l_nilfs s) of
          None \<Rightarrow> doRet (Inl EAbort) (xs, map_option (\<lambda>t. t\<lparr>live_vblks := a, defunct_vblks := b, freed_vblks := c\<rparr>) ?st) s
        | Some bps \<Rightarrow> if dry then doRet (Inr ()) (xs, map_option (\<lambda>t. t\<lparr>live_pblks := d, defunct_pblks := e, live_blks := live_vblks t + f,
              defunct_blks := g bps\<rparr>) (map_option (\<lambda>t. t\<lparr>live_vblks := a, defunct_vblks := b, freed_vblks := c\<rparr>) ?st)) s
            else reclaim_finish k j params m (h bps) supv vecs (xs, map_option (\<lambda>t. t\<lparr>live_pblks := d, defunct_pblks := e,
              live_blks := live_vblks t + f, defunct_blks := g bps\<rparr>) (map_option (\<lambda>t. t\<lparr>live_vblks := a, defunct_vblks := b, freed_vblks := c\<rparr>) ?st)) s)"
        for a b c d e f g h vecs
        by (intro reports_opt reports_if reports_ret s2 s3 finish_reports m assms(1))
      show ?thesis
        unfolding y prod.case Let_def if_not_P [OF False]
        by (intro reports_or st) (auto split: prod.splits intro!: reports_or s2 fin)
    next
      case True
      show ?thesis
        unfolding y prod.case Let_def if_P [OF True] by (rule reports_ret [OF st])
    qed
  qed
qed

lemma xreclaim_counts:
  assumes "nilfs_xreclaim_segment k j segs n dry params (Some zero_stat) s = ((r, segs', stat'), s')" "n < 2 ^ 64"
  shows "counts_le n stat'"
proof -
  have z: "counts_le n (Some zero_stat)" by (simp add: counts_le_def zero_stat_def)
  have inner: "reports n (\<lambda>s. case nilfs_lock k 0 s of
      (Inl e, s) \<Rightarrow> ((Inl e, segs, Some zero_stat), s\<lparr>l_env := k_sigrestore k (l_env s)\<rparr>)
    | (Inr _, s) \<Rightarrow> (case reclaim_locked k j n dry params vecs (segs, Some zero_stat) s of ((r, x), s) \<Rightarrow>
         (case nilfs_unlock k 0 s of (Inl _, s) \<Rightarrow> ((Inl EExit, x), s) | (Inr _, s) \<Rightarrow> ((r, x), s\<lparr>l_env := k_sigrestore k (l_env s)\<rparr>))))" for vecs
    using locked_reports [OF assms(2) z, unfolded reports_def, rule_format] z
    unfolding reports_def by (fastforce split: prod.splits sum.splits)
  have "reports n (nilfs_xreclaim_segment k j segs n dry params (Some zero_stat))"
    unfolding nilfs_xreclaim_segment_def by (intro reports_cond reports_or reports_ret z inner)
  then show ?thesis using assms(1) unfolding reports_def by blast
qed

section \<open>Examples\<close>

text \<open>A file system with one dirty, unwritten segment, number 3, no snapshot and no pending signal.\<close>

definition demo_gc_kernel :: "'w kernel" where
  "demo_gc_kernel = demo_su_kernel
     \<lparr>k_get_cpstat := (\<lambda>fd w. (Inr \<lparr>cs_cno = 9, cs_ncps = 8, cs_nsss = 0\<rparr>, w)),
      k_sigblock := (\<lambda>w. (Inr (), w)), k_sem_wait := (\<lambda>x w. (Inr (), w)), k_sem_post := (\<lambda>x w. (Inr (), w)),
      k_sigpending := (\<lambda>w. (Inr False, w)), k_clean_segments := (\<lambda>fd a vs ps ns bs ss w. (Inr (), w))\<rparr>"

definition demo_params :: nilfs_reclaim_params where
  "demo_params = \<lparr>rp_flags = 3, rp_min_reclaimable_blks = 0, rp_protseq = 10, rp_protcno = 100\<rparr>"

lemma demo_gc_calls:
  "k_get_suinfo demo_gc_kernel fd a w = (Inr [\<lparr>sui_lastmod = 0, sui_nblocks = 0, sui_flags = (if v_index a = 3 then 2 else 0)\<rparr>], w)"
  "k_pread demo_gc_kernel fd n off w = (Inl EIO, w)" "k_mmap demo_gc_kernel n fd off w = (Inl ENODEV, w)"
  "k_get_cpstat demo_gc_kernel fd w = (Inr \<lparr>cs_cno = 9, cs_ncps = 8, cs_nsss = 0\<rparr>, w)"
  "k_sigblock demo_gc_kernel w = (Inr (), w)" "k_sem_wait demo_gc_kernel x w = (Inr (), w)"
  "k_sem_post demo_gc_kernel x w = (Inr (), w)" "k_sigpending demo_gc_kernel w = (Inr False, w)"
  "k_clean_segments demo_gc_kernel fd as vs ps ns bs ss w = (Inr (), w)" "k_sigrestore demo_gc_kernel w = w"
  "k_malloc demo_gc_kernel m w = (Some 0, w)" "k_get_vinfo demo_gc_kernel fd a vi w = (Inl EIO, w)"
  "k_get_bdescs demo_gc_kernel fd a bd w = (Inl EIO, w)"
  by (simp_all add: demo_gc_kernel_def demo_su_kernel_def null_kernel_def)

abbreviation demo_si :: "u64 \<Rightarrow> nilfs_suinfo" where
  "demo_si x \<equiv> \<lparr>sui_lastmod = 0, sui_nblocks = 0, sui_flags = (if x = 3 then 2 else 0)\<rparr>"

lemma demo_gc_stable: "stable_segments demo_gc_kernel demo_si (\<lambda>x. 0)"
proof -
  have "nilfs_get_segment demo_gc_kernel x s \<noteq> (Inr sg, s')" for x sg and s s' :: "'a lib"
    by (auto simp: nilfs_get_segment_def read_segment_def liftK_def demo_gc_calls bindE_Inr Let_def
        split: option.splits if_splits prod.splits sum.splits)
  moreover have "nilfs_get_suinfo demo_gc_kernel x 1 s = (Inr sis, s') \<Longrightarrow> sis = [demo_si x]" for x sis and s s' :: "'a lib"
    by (auto simp: nilfs_get_suinfo_def with_iocfd_def liftK_def demo_gc_calls argv_def split: if_splits)
  ultimately show ?thesis by (simp add: stable_segments_def)
qed

lemma demo_gc_acc:
  assumes "nilfs_acc_blocks demo_gc_kernel j [3] (Suc 0) protseq vs s = (Inr (n, xs, vs'), s')"
  shows "vs' = vs"
proof -
  have r: "nilfs_suinfo_reclaimable \<lparr>sui_lastmod = 0, sui_nblocks = 0, sui_flags = 2\<rparr>"
    by (simp_all add: nilfs_suinfo_reclaimable_def suinfo_flag_defs)
  have "nilfs_get_suinfo demo_gc_kernel 3 1 s = (if n_iocfd (l_nilfs s) < 0 then Inl EBADF else Inr [demo_si 3], s)"
    by (simp add: nilfs_get_suinfo_def with_iocfd_def liftK_def demo_gc_calls argv_def)
  then show ?thesis
    using assms r by (simp add: nilfs_acc_blocks_def acc_blocks_loop.simps nilfs_suinfo_empty_def split: if_splits)
qed

lemma demo_gc_laws: "vinfo_laws demo_gc_kernel" "bdescs_laws demo_gc_kernel" "few_blocks demo_gc_kernel j [3] (Suc 0) protseq"
  by (auto simp: vinfo_laws_def bdescs_laws_def demo_gc_calls few_blocks_def dest!: demo_gc_acc)

text \<open>With nothing collected, the later phases have nothing to do.\<close>

lemma get_vdesc_empty: "v_nelems v = 0 \<Longrightarrow> nilfs_get_vdesc k j v s = (Inr (nilfs_vector_sort v nilfs_comp_vdesc_vblocknr), s)"
  by (simp add: nilfs_get_vdesc_def get_vdesc_loop.simps [of _ _ 0] nilfs_vector_get_size_def nilfs_vector_sort_def)

lemma get_bdesc_empty: "v_nelems v = 0 \<Longrightarrow> nilfs_get_bdesc k v s = (Inr (nilfs_vector_sort v nilfs_comp_bdesc), s)"
  by (simp add: nilfs_get_bdesc_def get_bdesc_loop.simps [of _ 0 0] nilfs_vector_get_size_def nilfs_vector_sort_def)

lemma sort_nelems: "v_nelems (nilfs_vector_sort v cmp) = v_nelems v"
  by (simp add: nilfs_vector_sort_def)

lemma demo_gc_locked:
  assumes "v_nelems vv = 0" "v_nelems bv = 0" "rp_min_reclaimable_blks params = 0"
  shows "\<exists>t. cleaned_segs t = 1 \<and> deferred_segs t = 0 \<and> reclaim_locked demo_gc_kernel demo_junk (Suc 0) dry params (vv, bv, pv, bnv, supv) ([3], Some zero_stat) (demo_lib ())
    = ((Inr (), [3], Some t), demo_lib ())"
proof -
  have r: "nilfs_suinfo_reclaimable \<lparr>sui_lastmod = 0, sui_nblocks = 0, sui_flags = 2\<rparr>"
    by (simp_all add: nilfs_suinfo_reclaimable_def suinfo_flag_defs)
  have su: "nilfs_get_suinfo demo_gc_kernel 3 1 (demo_lib ()) = (Inr [demo_si 3], demo_lib ())"
    by (simp add: nilfs_get_suinfo_def with_iocfd_def liftK_def demo_gc_calls argv_def demo_lib_def)
  have acc: "nilfs_acc_blocks demo_gc_kernel demo_junk [3] (Suc 0) protseq vs (demo_lib ()) = (Inr (Suc 0, [3], vs), demo_lib ())" for vs protseq
    using r su by (cases vs) (simp add: nilfs_acc_blocks_def acc_blocks_loop.simps nilfs_suinfo_empty_def)
  have sn: "nilfs_get_snapshot demo_gc_kernel (demo_lib ()) = (Inr [], demo_lib ())"
    by (simp add: nilfs_get_snapshot_def nilfs_get_cpstat_def with_iocfd_def liftK_def demo_gc_calls demo_lib_def)
  have tv: "nilfs_toss_vdescs demo_gc_kernel demo_junk (nilfs_vector_sort vv cmp) pv bnv protcno (demo_lib ())
      = (Inr (nilfs_vector_sort vv cmp, pv, bnv), demo_lib ())" for cmp protcno
    using assms by (simp add: nilfs_toss_vdescs_def sn toss_vdescs_loop.simps nilfs_vector_get_size_def sort_nelems)
  have bps: "\<exists>b. nilfs_get_blocks_per_segment (l_nilfs (demo_lib ())) = Some b"
    by (simp add: nilfs_get_blocks_per_segment_def demo_lib_def)
  have fin: "reclaim_finish demo_gc_kernel demo_junk params n rb supv vecs (xs, st) (demo_lib ()) = ((Inr (), xs, st), demo_lib ())"
    for n rb vecs xs st
    using assms(3) by (cases vecs) (simp add: reclaim_finish_def orRet_def liftK_def demo_gc_calls reclaim_clean_def
       nilfs_clean_segments_def with_iocfd_def doRet_def demo_lib_def)
  show ?thesis
    using bps by (auto simp: reclaim_locked_def orRet_def acc get_vdesc_empty get_bdesc_empty assms tv Let_def fin doRet_def)
qed

lemma demo_gc_run:
  assumes "rp_flags params \<in> {3, 7}" "rp_min_reclaimable_blks params = 0"
  shows "\<exists>t. cleaned_segs t = 1 \<and> deferred_segs t = 0 \<and>
    nilfs_xreclaim_segment demo_gc_kernel demo_junk [3] (Suc 0) dry params (Some zero_stat) (demo_lib ()) = ((Inr (), [3], Some t), demo_lib ())"
proof -
  have al: "lib_alloc demo_gc_kernel m s = (True, s)" for m and s :: "unit lib"
    by (simp add: lib_alloc_def demo_gc_calls)
  have rv: "\<exists>vv bv pv bnv supv. reclaim_vectors demo_gc_kernel demo_junk (demo_lib ()) = (Inr (vv, bv, pv, bnv, supv), demo_lib ())
      \<and> v_nelems vv = 0 \<and> v_nelems bv = 0"
    by (simp add: reclaim_vectors_def nilfs_vector_create_def al sizeof_vdesc_def sizeof_bdesc_def sizeof_period_def
        sizeof_u64_def sizeof_suinfo_update_def)
  obtain vv bv pv bnv supv where rv: "reclaim_vectors demo_gc_kernel demo_junk (demo_lib ()) = (Inr (vv, bv, pv, bnv, supv), demo_lib ())"
    and e: "v_nelems vv = 0" "v_nelems bv = 0" using rv by blast
  have lk: "nilfs_lock demo_gc_kernel 0 (demo_lib ()) = (Inr (), demo_lib ())"
    "nilfs_unlock demo_gc_kernel 0 (demo_lib ()) = (Inr (), demo_lib ())"
    "liftK (k_sigblock demo_gc_kernel) (demo_lib ()) = (Inr (), demo_lib ())"
    "(demo_lib ())\<lparr>l_env := k_sigrestore demo_gc_kernel (l_env (demo_lib ()))\<rparr> = demo_lib ()"
    by (simp_all add: nilfs_lock_def nilfs_unlock_def liftK_def demo_gc_calls demo_lib_def)
  have fl: "rp_flags params AND NILFS_RECLAIM_PARAM_PROTSEQ \<noteq> 0" "rp_flags params AND push_bit NR_NILFS_RECLAIM_PARAMS (- 1) = 0"
    using assms(1) by (auto simp: NILFS_RECLAIM_PARAM_PROTSEQ_def NR_NILFS_RECLAIM_PARAMS_def mask_eq_exp_minus_1)
  obtain t where "cleaned_segs t = 1" "deferred_segs t = 0"
    "reclaim_locked demo_gc_kernel demo_junk (Suc 0) dry params (vv, bv, pv, bnv, supv) ([3], Some zero_stat) (demo_lib ()) = ((Inr (), [3], Some t), demo_lib ())"
    using demo_gc_locked [OF e assms(2)] by blast
  then show ?thesis
    using fl by (intro exI [of _ t]) (auto simp: nilfs_xreclaim_segment_def orRet_def rv lk)
qed


end
