(* ===== verification/C_Stdlib.thy ===== *)
theory C_Stdlib
  imports Nilfs_Prelude
begin

text \<open>
  The part of the C library the parsers use, on strings without the closing NUL: a
  \<open>char *\<close> into a string is the suffix it points to, the NUL is the empty list. Character
  classes are those of the C locale. \<open>strtoull\<close> returns the value and the suffix behind
  the number; without a number the suffix is the whole argument.
\<close>

definition code :: "char \<Rightarrow> nat" where
  "code c = of_char c"

definition isspace :: "char \<Rightarrow> bool" where
  "isspace c \<longleftrightarrow> code c = 32 \<or> 9 \<le> code c \<and> code c \<le> 13"

definition isdigit :: "char \<Rightarrow> bool" where
  "isdigit c \<longleftrightarrow> 48 \<le> code c \<and> code c \<le> 57"

definition toupper :: "char \<Rightarrow> char" where
  "toupper c = (if 97 \<le> code c \<and> code c \<le> 122 then char_of (code c - 32) else c)"

definition tolower :: "char \<Rightarrow> char" where
  "tolower c = (if 65 \<le> code c \<and> code c \<le> 90 then char_of (code c + 32) else c)"

text \<open>\<open>strcasecmp(a, b) == 0\<close> and \<open>strncasecmp(a, b, n) == 0\<close>.\<close>

definition strcaseeq :: "string \<Rightarrow> string \<Rightarrow> bool" where
  "strcaseeq a b \<longleftrightarrow> map tolower a = map tolower b"

definition strncaseeq :: "string \<Rightarrow> string \<Rightarrow> nat \<Rightarrow> bool" where
  "strncaseeq a b n \<longleftrightarrow> strcaseeq (take n a) (take n b)"

fun strstr :: "string \<Rightarrow> string \<Rightarrow> string option" where
  "strstr s pat =
     (if take (length pat) s = pat then Some s
      else case s of [] \<Rightarrow> None | _ # s' \<Rightarrow> strstr s' pat)"

declare strstr.simps [simp del]

text \<open>The value of a digit, up to base 36.\<close>

definition digit_val :: "char \<Rightarrow> nat option" where
  "digit_val c =
     (if isdigit c then Some (code c - 48)
      else if 97 \<le> code c \<and> code c \<le> 122 then Some (code c - 87)
      else if 65 \<le> code c \<and> code c \<le> 90 then Some (code c - 55)
      else None)"

definition is_digit_of :: "nat \<Rightarrow> char \<Rightarrow> bool" where
  "is_digit_of base c \<longleftrightarrow> (case digit_val c of None \<Rightarrow> False | Some d \<Rightarrow> d < base)"

definition digits_val :: "nat \<Rightarrow> string \<Rightarrow> nat" where
  "digits_val base ds = foldl (\<lambda>n c. n * base + the (digit_val c)) 0 ds"

text \<open>
  \<open>strtoull\<close>, also \<open>strtoul\<close> on a 64-bit system: leading space, an optional sign, an
  optional prefix for bases 16 and 0, the longest run of digits. A value that does not
  fit is \<open>ULLONG_MAX\<close>; a negative number is negated in 64 bits.
\<close>

definition strto_base :: "nat \<Rightarrow> string \<Rightarrow> nat \<times> string" where
  "strto_base base s =
     (let hex = (case s of z # x # h # _ \<Rightarrow> z = CHR ''0'' \<and> tolower x = CHR ''x'' \<and> is_digit_of 16 h | _ \<Rightarrow> False) in
      if (base = 0 \<or> base = 16) \<and> hex then (16, drop 2 s)
      else if base = 0 then (if s \<noteq> [] \<and> hd s = CHR ''0'' then 8 else 10, s)
      else (base, s))"

definition strtoull :: "string \<Rightarrow> nat \<Rightarrow> u64 \<times> string" where
  "strtoull arg base =
     (let s = dropWhile isspace arg;
          neg = (s \<noteq> [] \<and> hd s = CHR ''-'');
          s = (if s \<noteq> [] \<and> (hd s = CHR ''-'' \<or> hd s = CHR ''+'') then tl s else s);
          (b, s) = strto_base base s;
          ds = takeWhile (is_digit_of b) s
      in if ds = [] then (0, arg)
         else let n = digits_val b ds in
              (if n \<ge> 2 ^ 64 then - 1 else if neg then - of_nat n else of_nat n,
               dropWhile (is_digit_of b) s))"

text \<open>The digits \<open>printf\<close> writes for \<open>%d\<close>, \<open>%u\<close> and \<open>%llu\<close>.\<close>

fun show_dec :: "nat \<Rightarrow> string" where
  "show_dec n = (if n < 10 then [char_of (48 + n)] else show_dec (n div 10) @ [char_of (48 + n mod 10)])"

declare show_dec.simps [simp del]

section \<open>Decimal numbers\<close>

lemma code_char_of [simp]: "n < 256 \<Longrightarrow> code (char_of n) = n"
  by (simp add: code_def)

lemma digit_char:
  assumes "n < 10"
  shows "isdigit (char_of (48 + n))" "digit_val (char_of (48 + n)) = Some n" "\<not> isspace (char_of (48 + n))"
    "is_digit_of 10 (char_of (48 + n))" "char_of (48 + n) \<noteq> CHR ''-''" "char_of (48 + n) \<noteq> CHR ''+''"
    "char_of (48 + n) \<noteq> CHR ''.''"
proof -
  have c: "code (char_of (48 + n)) = 48 + n" using assms by simp
  show "isdigit (char_of (48 + n))" "digit_val (char_of (48 + n)) = Some n" "\<not> isspace (char_of (48 + n))"
    using assms c by (simp_all add: isdigit_def digit_val_def isspace_def)
  then show "is_digit_of 10 (char_of (48 + n))" using assms by (simp add: is_digit_of_def)
  have "code (CHR ''-'') = 45" "code (CHR ''+'') = 43" "code (CHR ''.'') = 46" by (simp_all add: code_def)
  then show "char_of (48 + n) \<noteq> CHR ''-''" "char_of (48 + n) \<noteq> CHR ''+''" "char_of (48 + n) \<noteq> CHR ''.''"
    using c by force+
qed

lemma show_dec_digits: "c \<in> set (show_dec n) \<Longrightarrow> \<exists>d < (10 :: nat). c = char_of (48 + d)"
proof (induction n rule: show_dec.induct)
  case (1 n)
  show ?case
  proof (cases "n < 10")
    case True
    then show ?thesis using 1(2) by (auto simp: show_dec.simps [of n])
  next
    case False
    have "n mod 10 < 10" by simp
    then show ?thesis using 1 False by (auto simp: show_dec.simps [of n] simp del: mod_less_divisor)
  qed
qed

lemma show_dec_nonempty [simp]: "show_dec n \<noteq> []"
  by (simp add: show_dec.simps [of n])

lemma digits_val_snoc: "digits_val base (ds @ [c]) = digits_val base ds * base + the (digit_val c)"
  by (simp add: digits_val_def)

lemma digits_val_show [simp]: "digits_val 10 (show_dec n) = n"
proof (induction n rule: show_dec.induct)
  case (1 n)
  show ?case
  proof (cases "n < 10")
    case True
    then show ?thesis by (simp add: show_dec.simps [of n] digits_val_def digit_char)
  next
    case False
    then show ?thesis using 1 by (simp add: show_dec.simps [of n] digits_val_snoc digit_char)
  qed
qed

text \<open>A printed number is read back, up to the first character that is no digit.\<close>

lemma strtoull_show:
  assumes "n < 2 ^ 64" "rest = [] \<or> \<not> is_digit_of 10 (hd rest)"
  shows "strtoull (show_dec n @ rest) 10 = (of_nat n, rest)"
proof -
  obtain c cs where s: "show_dec n = c # cs" using show_dec_nonempty by (meson neq_Nil_conv)
  obtain d :: nat where d: "d < 10" "c = char_of (48 + d)" using show_dec_digits [of c n] s by auto
  have dw: "dropWhile isspace (show_dec n @ rest) = show_dec n @ rest" using s d digit_char [OF d(1)] by simp
  have hd: "hd (show_dec n @ rest) \<noteq> CHR ''-''" "hd (show_dec n @ rest) \<noteq> CHR ''+''"
    using s d digit_char [OF d(1)] by auto
  have all: "\<forall>x \<in> set (show_dec n). is_digit_of 10 x" using show_dec_digits digit_char(4) by blast
  then have "takeWhile (is_digit_of 10) (show_dec n @ rest) = show_dec n"
    "dropWhile (is_digit_of 10) (show_dec n @ rest) = rest"
    using assms(2) by (cases rest; simp add: takeWhile_append2 dropWhile_append2)+
  then show ?thesis
    unfolding strtoull_def dw Let_def using hd assms(1) by (simp add: strto_base_def)
qed

end
