(* ===== verification/Cno_Parser.thy ===== *)
theory Cno_Parser
  imports C_Stdlib Nilfs_Api
begin

text \<open>
  Checkpoint numbers, ranges of them and protection periods on command lines
  (\<open>src/lib/parser.c\<close>). \<open>nilfs_parse_cno\<close> leaves \<open>*endptr\<close> alone when the number is
  negative; its callers read it only behind a test that then fails, so \<open>None\<close> stands for it.
\<close>

definition nilfs_parse_cno :: "string \<Rightarrow> nat \<Rightarrow> u64 \<times> string option" where
  "nilfs_parse_cno arg base =
     (let arg = dropWhile isspace arg in
      if arg \<noteq> [] \<and> hd arg = CHR ''-'' then (NILFS_CNO_MAX, None)
      else case strtoull arg base of (n, endptr) \<Rightarrow> (n, Some endptr))"

text \<open>\<open>None\<close> is a parse error; an empty argument fails an assertion of the source.\<close>

definition nilfs_parse_cno_range :: "string \<Rightarrow> nat \<Rightarrow> (u64 \<times> u64) option" where
  "nilfs_parse_cno_range arg base =
     (case strstr arg ''..'' of
        Some delim \<Rightarrow>
          if delim = arg
          then if drop 2 arg \<noteq> []
               then case nilfs_parse_cno (drop 2 arg) base of (cno, endptr) \<Rightarrow>
                    if cno < NILFS_CNO_MAX \<and> endptr = Some [] then Some (NILFS_CNO_MIN, cno) else None
               else None
          else case nilfs_parse_cno arg base of (cno, endptr) \<Rightarrow>
               if cno < NILFS_CNO_MAX \<and> endptr = Some delim
               then if drop 2 delim = [] then Some (cno, NILFS_CNO_MAX)
                    else case nilfs_parse_cno (drop 2 delim) base of (cno2, endptr) \<Rightarrow>
                         if cno2 < NILFS_CNO_MAX \<and> endptr = Some [] then Some (cno, cno2) else None
               else None
      | None \<Rightarrow>
          case nilfs_parse_cno arg base of (cno, endptr) \<Rightarrow>
          if cno < NILFS_CNO_MAX \<and> endptr = Some [] then Some (cno, cno) else None)"

definition ULONG_MAX :: u64 where "ULONG_MAX = - 1"

definition period_unit :: "char \<Rightarrow> u64 option" where
  "period_unit c =
     (if c = CHR ''s'' then Some 1 else if c = CHR ''m'' then Some 60 else if c = CHR ''h'' then Some 3600
      else if c = CHR ''d'' then Some 86400 else if c = CHR ''w'' then Some 604800
      else if c = CHR ''M'' then Some 2678400 else if c = CHR ''Y'' then Some 31536000 else None)"

definition nilfs_parse_protection_period :: "string \<Rightarrow> errno + u64" where
  "nilfs_parse_protection_period arg =
     (let (val, endptr) = strtoull arg 10;
          range = (\<lambda>val. if val \<ge> ULONG_MAX then Inl ERANGE else Inr val) in
      if endptr = arg then Inl EINVAL
      else if length endptr = 1 \<and> val < ULONG_MAX
           then case period_unit (hd endptr) of None \<Rightarrow> Inl (EOther 0) | Some u \<Rightarrow> range (val * u)
           else range val)"

section \<open>Ranges\<close>

lemma dec_no_space: "dropWhile isspace (show_dec n @ rest) = show_dec n @ rest"
proof -
  obtain c cs where s: "show_dec n = c # cs" using show_dec_nonempty by (meson neq_Nil_conv)
  obtain d :: nat where d: "d < 10" "c = char_of (48 + d)" using show_dec_digits [of c n] s by auto
  show ?thesis using s d digit_char [OF d(1)] by simp
qed

lemma dec_hd: "c \<in> {CHR ''-'', CHR ''.''} \<Longrightarrow> hd (show_dec n @ rest) \<noteq> c"
proof -
  obtain e cs where s: "show_dec n = e # cs" using show_dec_nonempty by (meson neq_Nil_conv)
  obtain d :: nat where d: "d < 10" "e = char_of (48 + d)" using show_dec_digits [of e n] s by auto
  show "c \<in> {CHR ''-'', CHR ''.''} \<Longrightarrow> hd (show_dec n @ rest) \<noteq> c" using s d digit_char [OF d(1)] by auto
qed

lemma parse_cno_show:
  assumes "n < 2 ^ 64" "rest = [] \<or> \<not> is_digit_of 10 (hd rest)"
  shows "nilfs_parse_cno (show_dec n @ rest) 10 = (of_nat n, Some rest)"
  using assms strtoull_show [OF assms] dec_no_space [of n rest] dec_hd [of "CHR ''-''" n rest]
  by (simp add: nilfs_parse_cno_def Let_def)

lemma strstr_skip:
  assumes "CHR ''.'' \<notin> set xs"
  shows "strstr (xs @ ys) ''..'' = (if strstr ys ''..'' = None then None else strstr ys ''..'')"
  using assms
proof (induction xs)
  case (Cons x xs)
  then show ?case by (subst strstr.simps) auto
qed simp

lemma strstr_none: "strstr [] ''..'' = None"
  by (simp add: strstr.simps)

lemma strstr_dots [simp]: "strstr (CHR ''.'' # CHR ''.'' # xs) ''..'' = Some (CHR ''.'' # CHR ''.'' # xs)"
  by (simp add: strstr.simps)

lemma no_dot_dec: "CHR ''.'' \<notin> set (show_dec n)"
  using show_dec_digits [of "CHR ''.''" n] digit_char(7) by metis

lemma strstr_dec: "strstr (show_dec n @ ''..'' @ rest) ''..'' = Some (''..'' @ rest)" "strstr (show_dec n) ''..'' = None"
  using strstr_skip [OF no_dot_dec, of n "''..'' @ rest"] strstr_skip [OF no_dot_dec, of n "[]"]
  by (simp_all add: strstr_none)

lemma dot_no_digit: "\<not> is_digit_of 10 (CHR ''.'')"
  by (simp add: is_digit_of_def digit_val_def isdigit_def code_def)

lemma lt_cno_max: "unat c < 2 ^ 64 - 1 \<longleftrightarrow> c < NILFS_CNO_MAX"
  by (simp add: word_less_nat_alt NILFS_CNO_MAX_def unsigned_minus_1_eq_mask mask_eq_exp_minus_1)

text \<open>C30. Every range a user can write is read as it is meant: a single number, an open range on either
  side and a closed range, for all numbers below the largest one.\<close>

theorem cno_range_roundtrip:
  assumes "a < NILFS_CNO_MAX" "b < NILFS_CNO_MAX"
  defines "A \<equiv> show_dec (unat a)" and "B \<equiv> show_dec (unat b)"
  shows "nilfs_parse_cno_range A 10 = Some (a, a)
    \<and> nilfs_parse_cno_range (''..'' @ B) 10 = Some (NILFS_CNO_MIN, b)
    \<and> nilfs_parse_cno_range (A @ ''..'') 10 = Some (a, NILFS_CNO_MAX)
    \<and> nilfs_parse_cno_range (A @ ''..'' @ B) 10 = Some (a, b)"
proof -
  have ua: "unat a < 2 ^ 64" "unat b < 2 ^ 64" using unat_lt_u64 by blast+
  have pa: "nilfs_parse_cno (A @ rest) 10 = (a, Some rest)" if "rest = [] \<or> \<not> is_digit_of 10 (hd rest)" for rest
    using parse_cno_show [OF ua(1) that] by (simp add: A_def)
  have pb: "nilfs_parse_cno B 10 = (b, Some [])"
    using parse_cno_show [OF ua(2), of "[]"] by (simp add: B_def)
  have ne: "B \<noteq> []" "A @ ''..'' @ xs \<noteq> ''..'' @ xs" for xs by (simp_all add: B_def A_def)
  have s: "strstr (A @ ''..'' @ xs) ''..'' = Some (''..'' @ xs)" "strstr A ''..'' = None" for xs
    using strstr_dec by (simp_all add: A_def)
  show ?thesis
    using pa [of "[]"] pa [of "''..''"] pa [of "''..'' @ B"] pb ne s(1) [of "[]"] s(1) [of B] s(2) assms(1,2) dot_no_digit
    by (simp add: nilfs_parse_cno_range_def)
qed

theorem cno_range_roundtrip_witness:
  "nilfs_parse_cno_range ''3..17'' 10 = Some (3, 17) \<and> nilfs_parse_cno_range ''3..'' 10 = Some (3, NILFS_CNO_MAX)"
proof -
  have "show_dec (unat (3 :: u64)) = ''3''" "show_dec (unat (17 :: u64)) = ''17''" by code_simp+
  moreover have "(3 :: u64) < NILFS_CNO_MAX" "(17 :: u64) < NILFS_CNO_MAX" by code_simp+
  ultimately show ?thesis using cno_range_roundtrip [of 3 17] by simp
qed

section \<open>Protection periods\<close>

lemma unit_no_digit: "period_unit c = Some u \<Longrightarrow> \<not> is_digit_of 10 c"
  by (auto simp: period_unit_def is_digit_of_def digit_val_def isdigit_def code_def split: if_splits)

text \<open>A number of seconds, or a number with one of the units s, m, h, d, w, M and Y, is read as that
  many seconds, provided the product is below the largest 64-bit number.\<close>

theorem protection_period_units:
  assumes "period_unit c = Some u" "n * unat u < 2 ^ 64 - 1"
  shows "nilfs_parse_protection_period (show_dec n @ [c]) = Inr (of_nat n * u)
    \<and> unat (of_nat n * u :: u64) = n * unat u \<and> nilfs_parse_protection_period (show_dec n) = Inr (of_nat n)"
proof -
  have u: "1 \<le> unat u" using assms(1) by (auto simp: period_unit_def split: if_splits)
  have le: "n \<le> n * unat u" using u by (cases "unat u") auto
  have n: "n < 2 ^ 64 - 1" using order.strict_trans1 [OF le assms(2)] .
  then have n64: "n < 2 ^ 64" by simp
  have w: "unat (of_nat n * u) = n * unat u" using assms(2) n64 by (simp add: unat_word_ariths)
  have lt: "of_nat n < ULONG_MAX" "of_nat n * u < ULONG_MAX"
    using n n64 w assms(2) by (simp_all add: ULONG_MAX_def word_less_nat_alt unsigned_minus_1_eq_mask mask_eq_exp_minus_1)
  have c: "\<not> is_digit_of 10 c" by (rule unit_no_digit [OF assms(1)])
  show ?thesis
    using strtoull_show [OF n64, of "[c]"] strtoull_show [OF n64, of "[]"] c lt w assms(1) show_dec_nonempty [of n, symmetric]
    by (simp add: nilfs_parse_protection_period_def not_le)
qed

theorem protection_period_units_witness:
  "nilfs_parse_protection_period ''36h'' = Inr (36 * 3600) \<and> nilfs_parse_protection_period ''36'' = Inr 36"
proof -
  have "show_dec 36 = ''36''" by code_simp
  moreover have "period_unit (CHR ''h'') = Some 3600" by (simp add: period_unit_def)
  ultimately show ?thesis using protection_period_units [of "CHR ''h''" 3600 36] by simp
qed

text \<open>What the code does beyond its description: a number followed by two or more characters is
  accepted as a number of seconds, whatever they are, and the product with the unit is taken
  modulo $2^{64}$, so that a period that does not fit is accepted as a short one.\<close>

theorem protection_period_laxity:
  assumes "n < 2 ^ 64 - 1" "\<not> is_digit_of 10 c" "period_unit e = Some u" "of_nat n * u \<noteq> ULONG_MAX"
  shows "nilfs_parse_protection_period (show_dec n @ c # d # rest) = Inr (of_nat n)
    \<and> nilfs_parse_protection_period (show_dec n @ [e]) = Inr (of_nat n * u)"
proof
  have n64: "n < 2 ^ 64" using assms(1) by simp
  have lt: "of_nat n < ULONG_MAX"
    using assms n64 by (simp add: ULONG_MAX_def word_less_nat_alt unsigned_minus_1_eq_mask mask_eq_exp_minus_1)
  have "of_nat n * u < ULONG_MAX" using assms(4) by (simp add: ULONG_MAX_def word_order.not_eq_extremum)
  then show "nilfs_parse_protection_period (show_dec n @ [e]) = Inr (of_nat n * u)"
    using strtoull_show [OF n64, of "[e]"] unit_no_digit [OF assms(3)] assms lt
    by (simp add: nilfs_parse_protection_period_def not_le)
  show "nilfs_parse_protection_period (show_dec n @ c # d # rest) = Inr (of_nat n)"
    using strtoull_show [OF n64, of "c # d # rest"] assms lt
    by (simp add: nilfs_parse_protection_period_def not_le)
qed

theorem protection_period_laxity_witness:
  "nilfs_parse_protection_period ''10days'' = Inr 10
    \<and> nilfs_parse_protection_period (show_dec 307445734561825861 @ ''m'') = Inr 44"
proof -
  have "show_dec 10 = ''10''" by code_simp
  moreover have "\<not> is_digit_of 10 (CHR ''d'')" by code_simp
  moreover have "period_unit (CHR ''m'') = Some 60" by (simp add: period_unit_def)
  ultimately show ?thesis
    using protection_period_laxity [of 10 "CHR ''d''" "CHR ''m''" 60 "CHR ''a''" "''ys''"]
      protection_period_laxity [of 307445734561825861 "CHR ''d''" "CHR ''m''" 60 "CHR ''a''" "''ys''"]
    by (simp add: ULONG_MAX_def)
qed

end
