(* ===== verification/Feature.thy ===== *)
theory Feature
  imports C_Stdlib
begin

text \<open>
  Feature flags of the superblock and their names (\<open>src/lib/feature.c\<close>). An array of flags
  has one word per compatibility type. A missing array of permitted flags, the null pointer of the
  sources, is \<open>None\<close>. The allocation of the working copy may fail, the parameter \<open>mem\<close>.
\<close>

definition NILFS_FEATURE_TYPE_COMPAT :: nat where "NILFS_FEATURE_TYPE_COMPAT = 0"
definition NILFS_FEATURE_TYPE_COMPAT_RO :: nat where "NILFS_FEATURE_TYPE_COMPAT_RO = 1"
definition NILFS_FEATURE_TYPE_INCOMPAT :: nat where "NILFS_FEATURE_TYPE_INCOMPAT = 2"
definition NILFS_FEATURE_TYPE_NEGATE_FLAG :: nat where "NILFS_FEATURE_TYPE_NEGATE_FLAG = 0x80"
definition NILFS_FEATURE_COMPAT_RO_BLOCK_COUNT :: u64 where "NILFS_FEATURE_COMPAT_RO_BLOCK_COUNT = 1"

lemmas feature_consts = NILFS_FEATURE_TYPE_COMPAT_def NILFS_FEATURE_TYPE_COMPAT_RO_def
  NILFS_FEATURE_TYPE_INCOMPAT_def NILFS_FEATURE_TYPE_NEGATE_FLAG_def NILFS_FEATURE_COMPAT_RO_BLOCK_COUNT_def

record nilfs_feature =
  f_type :: nat
  f_mask :: u64
  f_name :: string

definition features :: "nilfs_feature list" where
  "features = [\<lparr>f_type = NILFS_FEATURE_TYPE_COMPAT_RO, f_mask = NILFS_FEATURE_COMPAT_RO_BLOCK_COUNT,
                f_name = ''block_count''\<rparr>]"

text \<open>The loop \<open>for (i = 0; mask >>= 1; i++)\<close>: the position of the highest bit.\<close>

function mask_bit :: "u64 \<Rightarrow> nat \<Rightarrow> nat" where
  "mask_bit msk i = (let m = drop_bit 1 msk in if m = 0 then i else mask_bit m (i + 1))"
  by pat_completeness auto

lemma unat_half: "unat (drop_bit (Suc 0) x :: u64) = unat x div 2"
  using unat_drop_bit_eq [of "Suc 0" x] by (simp add: drop_bit_Suc)

termination mask_bit
proof (relation "measure (\<lambda>(m, i). unat m)", goal_cases)
  case (2 msk i m)
  then have "unat msk div 2 \<noteq> 0" using unat_half [of msk] by (metis One_nat_def unat_eq_zero)
  then show ?case using 2 unat_half [of msk] by simp
qed simp

declare mask_bit.simps [simp del]

definition nilfs_feature2string :: "nat \<Rightarrow> u64 \<Rightarrow> string" where
  "nilfs_feature2string compat_type msk =
     (case find (\<lambda>f. f_type f = compat_type \<and> f_mask f = msk) features of
        Some f \<Rightarrow> f_name f
      | None \<Rightarrow>
          let tchar = (if compat_type = NILFS_FEATURE_TYPE_COMPAT then CHR ''C''
                       else if compat_type = NILFS_FEATURE_TYPE_COMPAT_RO then CHR ''R''
                       else if compat_type = NILFS_FEATURE_TYPE_INCOMPAT then CHR ''I'' else CHR ''?'')
          in ''FEATURE_'' @ tchar # show_dec (mask_bit msk 0))"

definition nilfs_string2feature :: "string \<Rightarrow> (nat \<times> u64) option" where
  "nilfs_string2feature str =
     (case find (\<lambda>f. strcaseeq str (f_name f)) features of
        Some f \<Rightarrow> Some (f_type f, f_mask f)
      | None \<Rightarrow>
          if \<not> strncaseeq str ''FEATURE_'' 8 \<or> drop 8 str = [] then None
          else let tchar = toupper (str ! 8);
                   type = (if tchar = CHR ''C'' then Some NILFS_FEATURE_TYPE_COMPAT
                           else if tchar = CHR ''R'' then Some NILFS_FEATURE_TYPE_COMPAT_RO
                           else if tchar = CHR ''I'' then Some NILFS_FEATURE_TYPE_INCOMPAT else None)
               in case type of None \<Rightarrow> None
                  | Some type \<Rightarrow>
                      if drop 9 str = [] \<or> \<not> isdigit (str ! 9) then None
                      else case strtoull (drop 9 str) 10 of (num, endptr) \<Rightarrow>
                           if num \<ge> 64 \<or> endptr \<noteq> [] then None
                           else Some (type, push_bit (unat num) 1))"

definition skip_over_blanks :: "string \<Rightarrow> string" where
  "skip_over_blanks cp = dropWhile isspace cp"

definition word_char :: "char \<Rightarrow> bool" where
  "word_char c \<longleftrightarrow> \<not> isspace c \<and> c \<noteq> CHR '',''"

definition skip_over_word :: "string \<Rightarrow> string" where
  "skip_over_word cp = dropWhile word_char cp"

record edit_state =
  e_ok :: bool
  e_compat :: "u64 list"
  e_bad_type :: nat
  e_bad_mask :: u64

text \<open>The body of the loop for one word, the text between \<open>cp\<close> and \<open>next\<close>; \<open>e_ok\<close> tells
  whether the loop goes on.\<close>

definition edit_word :: "u64 list option \<Rightarrow> u64 list option \<Rightarrow> string \<Rightarrow> edit_state \<Rightarrow> edit_state" where
  "edit_word ok clear_ok w st =
     (if strcaseeq w ''none'' then st\<lparr>e_compat := [0, 0, 0]\<rparr>
      else let neg = (w \<noteq> [] \<and> hd w = CHR ''^'');
               w = (if neg then tl w else w)
           in case nilfs_string2feature w of
                None \<Rightarrow> st\<lparr>e_ok := False\<rparr>
              | Some (type, msk) \<Rightarrow>
                  let arr = e_compat st in
                  if neg
                  then if clear_ok \<noteq> None \<and> the clear_ok ! type AND msk = 0
                       then st\<lparr>e_ok := False, e_bad_type := type OR NILFS_FEATURE_TYPE_NEGATE_FLAG, e_bad_mask := msk\<rparr>
                       else st\<lparr>e_compat := arr[type := arr ! type AND NOT msk]\<rparr>
                  else if ok \<noteq> None \<and> the ok ! type AND msk = 0
                       then st\<lparr>e_ok := False, e_bad_type := type, e_bad_mask := msk\<rparr>
                       else st\<lparr>e_compat := arr[type := arr ! type OR msk]\<rparr>)"

function edit_loop :: "u64 list option \<Rightarrow> u64 list option \<Rightarrow> string \<Rightarrow> edit_state \<Rightarrow> edit_state" where
  "edit_loop ok clear_ok cp st =
     (if cp = [] then st
      else let cp = skip_over_blanks cp;
               nxt = skip_over_word cp;
               st = edit_word ok clear_ok (takeWhile word_char cp) st
           in if \<not> e_ok st \<or> nxt = [] then st else edit_loop ok clear_ok (tl nxt) st)"
  by pat_completeness auto

lemma skip_lengths: "length (skip_over_word (skip_over_blanks cp)) \<le> length cp"
  unfolding skip_over_word_def skip_over_blanks_def using length_dropWhile_le order_trans by metis

termination edit_loop
proof (relation "measure (\<lambda>(ok, clear_ok, cp, st). length cp)", goal_cases)
  case (2 ok clear_ok cp st cp' nxt st')
  then have "length nxt \<le> length cp" "nxt \<noteq> []" using skip_lengths [of cp] by simp_all
  then show ?case by (cases nxt) auto
qed simp

declare edit_loop.simps [simp del]

definition nilfs_edit_feature :: "bool \<Rightarrow> string \<Rightarrow> u64 list \<Rightarrow> u64 list option \<Rightarrow> u64 list option \<Rightarrow> edit_state" where
  "nilfs_edit_feature mem str compat_array ok_array clear_ok_array =
     (let clear_ok = (if clear_ok_array = None then ok_array else clear_ok_array);
          st = \<lparr>e_ok = True, e_compat = compat_array, e_bad_type = 0, e_bad_mask = 0\<rparr>
      in if \<not> mem then st\<lparr>e_ok := False\<rparr> else edit_loop ok_array clear_ok str st)"

section \<open>Names\<close>

lemma mask_bit_power: "n < 64 \<Longrightarrow> mask_bit (push_bit n 1) i = i + n"
proof (induction n arbitrary: i)
  case 0
  have "drop_bit (Suc 0) (1 :: u64) = 0" by (simp add: drop_bit_Suc)
  then show ?case by (simp add: mask_bit.simps Let_def)
next
  case (Suc n)
  have d: "drop_bit (Suc 0) (push_bit (Suc n) 1 :: u64) = push_bit n 1"
    using Suc.prems by (intro bit_eqI) (auto simp: bit_simps)
  have "bit (push_bit n 1 :: u64) n" using Suc.prems by (simp add: bit_simps)
  then have "(push_bit n 1 :: u64) \<noteq> 0" using bit_0_eq by (metis bot_apply bot_bool_def)
  then show ?case using Suc d by (simp add: mask_bit.simps [of "2 * 2 ^ n"] Let_def)
qed

lemma feature_find_none: "nilfs_string2feature (''FEATURE_'' @ cs)
    = (if cs = [] then None
       else let tchar = toupper (hd cs);
                type = (if tchar = CHR ''C'' then Some NILFS_FEATURE_TYPE_COMPAT
                           else if tchar = CHR ''R'' then Some NILFS_FEATURE_TYPE_COMPAT_RO
                           else if tchar = CHR ''I'' then Some NILFS_FEATURE_TYPE_INCOMPAT else None)
               in case type of None \<Rightarrow> None
                  | Some type \<Rightarrow>
                      if tl cs = [] \<or> \<not> isdigit (hd (tl cs)) then None
                      else case strtoull (tl cs) 10 of (num, endptr) \<Rightarrow>
                           if num \<ge> 64 \<or> endptr \<noteq> [] then None
                           else Some (type, push_bit (unat num) 1))"
proof -
  have "\<not> strcaseeq (''FEATURE_'' @ cs) ''block_count''"
    by (simp add: strcaseeq_def tolower_def code_def char_of_def)
  moreover have "strncaseeq (''FEATURE_'' @ cs) ''FEATURE_'' 8" by (simp add: strncaseeq_def strcaseeq_def)
  ultimately show ?thesis
    by (cases cs) (auto simp: nilfs_string2feature_def features_def Let_def neq_Nil_conv split: option.splits)
qed

lemma show_dec_hd: "isdigit (hd (show_dec n))"
proof -
  obtain c cs where s: "show_dec n = c # cs" using show_dec_nonempty by (meson neq_Nil_conv)
  obtain d :: nat where d: "d < 10" "c = char_of (48 + d)" using show_dec_digits [of c n] s by auto
  show ?thesis using s d digit_char [OF d(1)] by simp
qed

text \<open>The name printed for a feature flag of any of the three compatibility types is read back as
  that flag.\<close>

theorem feature_name_roundtrip:
  assumes "t \<in> {NILFS_FEATURE_TYPE_COMPAT, NILFS_FEATURE_TYPE_COMPAT_RO, NILFS_FEATURE_TYPE_INCOMPAT}" "n < 64"
  shows "nilfs_string2feature (nilfs_feature2string t (push_bit n 1)) = Some (t, push_bit n 1)"
proof (cases "t = NILFS_FEATURE_TYPE_COMPAT_RO \<and> (push_bit n 1 :: u64) = NILFS_FEATURE_COMPAT_RO_BLOCK_COUNT")
  case True
  then show ?thesis
    by (simp add: nilfs_feature2string_def nilfs_string2feature_def features_def strcaseeq_def)
next
  case False
  then have f: "find (\<lambda>f. f_type f = t \<and> f_mask f = push_bit n 1) features = None" by (auto simp: features_def)
  have u: "toupper (CHR ''C'') = CHR ''C''" "toupper (CHR ''R'') = CHR ''R''" "toupper (CHR ''I'') = CHR ''I''"
    by (simp_all add: toupper_def code_def)
  have s: "strtoull (show_dec n) 10 = (of_nat n, [])" using strtoull_show [of n "[]"] assms(2) by simp
  have n: "\<not> (of_nat n :: u64) \<ge> 64" "unat (of_nat n :: u64) = n" using assms(2) by (simp_all add: word_le_nat_alt)
  have m: "mask_bit (push_bit n 1) 0 = n" using mask_bit_power [OF assms(2), of 0] by simp
  show ?thesis
    unfolding nilfs_feature2string_def f option.case Let_def m feature_find_none
    using assms(1) show_dec_hd [of n] s n u by (auto simp: feature_consts)
qed

theorem feature_name_roundtrip_witness:
  "nilfs_string2feature (nilfs_feature2string NILFS_FEATURE_TYPE_INCOMPAT 32) = Some (2, 32)"
  using feature_name_roundtrip [of NILFS_FEATURE_TYPE_INCOMPAT 5] by (simp add: push_bit_eq_mult feature_consts)

section \<open>Edits\<close>

lemma string2feature_type: "nilfs_string2feature w = Some (t, m) \<Longrightarrow> t < 3"
  by (auto simp: nilfs_string2feature_def features_def feature_consts Let_def split: if_splits option.splits prod.splits)

text \<open>What an edit may have done to the flags and what it reports.\<close>

definition edit_inv :: "u64 list \<Rightarrow> u64 list option \<Rightarrow> u64 list option \<Rightarrow> edit_state \<Rightarrow> bool" where
  "edit_inv old ok clear_ok st \<longleftrightarrow>
     length (e_compat st) = 3
     \<and> (ok \<noteq> None \<longrightarrow> (\<forall>t < 3. e_compat st ! t AND NOT (old ! t) AND NOT (the ok ! t) = 0))
     \<and> (e_bad_mask st \<noteq> 0 \<longrightarrow> \<not> e_ok st
          \<and> (\<exists>t < 3. e_bad_type st = t \<and> ok \<noteq> None \<and> the ok ! t AND e_bad_mask st = 0
               \<or> e_bad_type st = t OR NILFS_FEATURE_TYPE_NEGATE_FLAG \<and> clear_ok \<noteq> None \<and> the clear_ok ! t AND e_bad_mask st = 0))"

lemma add_permitted:
  fixes a :: u64
  assumes "a AND NOT b AND NOT p = 0" "p AND m = m"
  shows "(a OR m) AND NOT b AND NOT p = 0"
proof (rule bit_eqI)
  fix n assume n: "possible_bit TYPE(u64) n"
  have "bit (a AND NOT b AND NOT p) n = False" "bit (p AND m) n = bit m n" using assms by simp_all
  then show "bit ((a OR m) AND NOT b AND NOT p) n = bit 0 n" using n by (auto simp: bit_simps)
qed


lemma string2feature_bit:
  assumes "nilfs_string2feature w = Some (t, m)"
  shows "\<exists>n < 64. m = push_bit n 1"
proof -
  have "m = 1 \<or> (\<exists>num :: u64. \<not> 64 \<le> num \<and> m = push_bit (unat num) 1)"
    using assms
    by (auto simp: nilfs_string2feature_def features_def feature_consts Let_def
        split: if_splits option.splits prod.splits)
  then show ?thesis
  proof
    assume "m = 1"
    then show ?thesis by (intro exI [of _ 0]) simp
  next
    assume "\<exists>num :: u64. \<not> 64 \<le> num \<and> m = push_bit (unat num) 1"
    then obtain num :: u64 where "\<not> 64 \<le> num" "m = push_bit (unat num) 1" by blast
    then show ?thesis by (intro exI [of _ "unat num"]) (simp add: word_le_nat_alt)
  qed
qed

lemma single_bit:
  fixes p :: u64
  assumes "p AND push_bit n 1 \<noteq> 0"
  shows "p AND push_bit n 1 = push_bit n 1"
proof -
  obtain i where "bit (p AND push_bit n 1) i" using assms by (metis bit_eqI bit_0_eq bot_apply bot_bool_def)
  then have "bit p n" by (auto simp: bit_simps bit_1_iff)
  then show ?thesis by (intro bit_eqI) (auto simp: bit_simps bit_1_iff)
qed

lemma edit_word_inv:
  assumes "edit_inv old ok clear_ok st" "e_ok st"
  shows "edit_inv old ok clear_ok (edit_word ok clear_ok w st)"
proof (cases "strcaseeq w ''none''")
  case True
  have "[0, 0, 0] ! t = (0 :: u64)" if "t < 3" for t using that by (auto simp: nth_Cons' numeral_3_eq_3 less_Suc_eq)
  then show ?thesis using assms True by (auto simp: edit_inv_def edit_word_def)
next
  case False
  define neg where "neg = (w \<noteq> [] \<and> hd w = CHR ''^'')"
  define v where "v = (if neg then tl w else w)"
  show ?thesis
  proof (cases "nilfs_string2feature v")
    case None
    then show ?thesis using assms False by (auto simp: edit_inv_def edit_word_def Let_def v_def neg_def)
  next
    case (Some tm)
    obtain t m where tm: "tm = (t, m)" by (cases tm)
    have t: "t < 3" using string2feature_type Some tm by blast
    obtain n where m: "m = push_bit n 1" using string2feature_bit Some tm by blast
    have e: "edit_word ok clear_ok w st = (let arr = e_compat st in
                  if neg
                  then if clear_ok \<noteq> None \<and> the clear_ok ! t AND m = 0
                       then st\<lparr>e_ok := False, e_bad_type := t OR NILFS_FEATURE_TYPE_NEGATE_FLAG, e_bad_mask := m\<rparr>
                       else st\<lparr>e_compat := arr[t := arr ! t AND NOT m]\<rparr>
                  else if ok \<noteq> None \<and> the ok ! t AND m = 0
                       then st\<lparr>e_ok := False, e_bad_type := t, e_bad_mask := m\<rparr>
                       else st\<lparr>e_compat := arr[t := arr ! t OR m]\<rparr>)"
      using Some tm False by (simp add: edit_word_def Let_def v_def neg_def)
    have bm: "e_bad_mask st = 0" using assms by (auto simp: edit_inv_def)
    have cl: "(a AND NOT m) AND NOT b AND NOT p = 0" if "a AND NOT b AND NOT p = 0" for a b p :: u64
    proof (rule bit_eqI)
      fix n assume "possible_bit TYPE(u64) n"
      then show "bit ((a AND NOT m) AND NOT b AND NOT p) n = bit 0 n"
        using arg_cong [OF that, of "\<lambda>x. bit x n"] by (auto simp: bit_simps)
    qed
    have len: "length (e_compat st) = 3" using assms by (simp add: edit_inv_def)
    show ?thesis
      unfolding e Let_def
      using assms t bm len cl add_permitted [OF _ single_bit, of _ _ "the ok ! t" n] m
      by (auto simp: edit_inv_def nth_list_update)
  qed
qed

lemma edit_loop_inv:
  "edit_inv old ok clear_ok st \<Longrightarrow> e_ok st \<Longrightarrow> edit_inv old ok clear_ok (edit_loop ok clear_ok cp st)"
proof (induction ok clear_ok cp st rule: edit_loop.induct)
  case (1 ok clear_ok cp st)
  then show ?case
    by (subst edit_loop.simps) (auto simp: Let_def intro: edit_word_inv)
qed



end
