(* ===== verification/Cnormap.thy ===== *)
theory Cnormap
  imports Gc
begin

text \<open>
  The reverse mapping from a time span to a checkpoint number (\<open>src/lib/cnormap.c\<close>): which is the
  oldest checkpoint created within a given period? The mapper keeps a history of spans of
  checkpoints, latest first, and the time it covers, and extends or trims it call by call.

  The callbacks of the two enumerations see a checkpoint and change the state \<open>'c\<close> of the
  caller and the environment; a negative result is \<open>Inl\<close>. Times are 64-bit words: a comparison
  of two \<open>int64_t\<close> is signed, one with the unsigned \<open>ci_create\<close> is not.
\<close>

section \<open>Data\<close>

record nilfs_cptime =
  ct_cno :: u64
  ct_time :: i64

record nilfs_cpspan =
  sp_start :: nilfs_cptime
  sp_end :: nilfs_cptime
  approx_ncp :: u32

definition NCP_PER_SPAN :: u32 where "NCP_PER_SPAN = 4096"
definition INTERVAL_ON_REWIND :: u64 where "INTERVAL_ON_REWIND = 1"
definition sizeof_cpspan :: u64 where "sizeof_cpspan = 40"
definition sizeof_cnormap :: u64 where "sizeof_cnormap = 48"

record nilfs_cnormap =
  cphist :: "nilfs_cpspan nilfs_vector"
  cphist_elapsed_time :: u64
  base_time :: i64
  base_clock :: i64
  has_clock_boottime :: bool
  has_clock_realtime_coarse :: bool
  has_clock_monotonic_coarse :: bool

text \<open>The mapper and the library object it refers to.\<close>

type_synonym 'w mapper = "nilfs_cnormap \<times> 'w lib"

section \<open>Creation and clocks\<close>

definition has_clock :: "'w kernel \<Rightarrow> clockid \<Rightarrow> 'w lib \<Rightarrow> bool \<times> 'w lib" where
  "has_clock k c s = (case liftK (k_clock_gettime k c) s of (r, s) \<Rightarrow> (r \<noteq> Inl EINVAL, s))"

definition nilfs_cnormap_create :: "'w kernel \<Rightarrow> nilfs_cpspan \<Rightarrow> ('w lib, nilfs_cnormap) act" where
  "nilfs_cnormap_create k junk s =
     (case lib_alloc k sizeof_cnormap s of
        (False, s) \<Rightarrow> (Inl ENOMEM, s)
      | (True, s) \<Rightarrow>
          (case has_clock k CLOCK_REALTIME_COARSE s of (rc, s) \<Rightarrow>
           case has_clock k CLOCK_MONOTONIC_COARSE s of (mc, s) \<Rightarrow>
           case has_clock k CLOCK_BOOTTIME s of (bt, s) \<Rightarrow>
           bindE (nilfs_vector_create (lib_alloc k) junk sizeof_cpspan) (\<lambda>v.
             retE \<lparr>cphist = v, cphist_elapsed_time = 0, base_time = 0, base_clock = 0, has_clock_boottime = bt,
                   has_clock_realtime_coarse = rc, has_clock_monotonic_coarse = mc\<rparr>) s))"

definition onLib :: "('w lib, 'a) act \<Rightarrow> ('w mapper, 'a) act" where
  "onLib m = (\<lambda>(c, s). case m s of (r, s) \<Rightarrow> (r, c, s))"

function nilfs_cnormap_get_monotonic_clock :: "'w kernel \<Rightarrow> ('w mapper, i64) act" where
  "nilfs_cnormap_get_monotonic_clock k (c, s) =
     (let clkid = (if has_clock_boottime c then CLOCK_BOOTTIME
                   else if has_clock_monotonic_coarse c then CLOCK_MONOTONIC_COARSE else CLOCK_MONOTONIC)
      in case liftK (k_clock_gettime k clkid) s of
           (Inr t, s) \<Rightarrow> (Inr t, c, s)
         | (Inl e, s) \<Rightarrow>
             if e = EINVAL \<and> has_clock_boottime c
             then nilfs_cnormap_get_monotonic_clock k (c\<lparr>has_clock_boottime := False\<rparr>, s)
             else if e = EINVAL \<and> has_clock_monotonic_coarse c
             then nilfs_cnormap_get_monotonic_clock k (c\<lparr>has_clock_monotonic_coarse := False\<rparr>, s)
             else (Inl e, c, s))"
  by pat_completeness auto

termination nilfs_cnormap_get_monotonic_clock
  by (relation "measure (\<lambda>(k, c, s). of_bool (has_clock_boottime c) + of_bool (has_clock_monotonic_coarse c))") auto

declare nilfs_cnormap_get_monotonic_clock.simps [simp del]

function nilfs_cnormap_get_realtime_clock :: "'w kernel \<Rightarrow> ('w mapper, i64) act" where
  "nilfs_cnormap_get_realtime_clock k (c, s) =
     (let clkid = (if has_clock_realtime_coarse c then CLOCK_REALTIME_COARSE else CLOCK_REALTIME)
      in case liftK (k_clock_gettime k clkid) s of
           (Inr t, s) \<Rightarrow> (Inr t, c, s)
         | (Inl e, s) \<Rightarrow>
             if e = EINVAL \<and> has_clock_realtime_coarse c
             then nilfs_cnormap_get_realtime_clock k (c\<lparr>has_clock_realtime_coarse := False\<rparr>, s)
             else (Inl e, c, s))"
  by pat_completeness auto

termination nilfs_cnormap_get_realtime_clock
  by (relation "measure (\<lambda>(k, c, s). of_bool (has_clock_realtime_coarse c))") auto

declare nilfs_cnormap_get_realtime_clock.simps [simp del]

section \<open>Enumerating checkpoints\<close>

type_synonym ('c, 'w) callback = "nilfs_cpinfo \<Rightarrow> ('c \<times> 'w, nat) act"

definition call_out :: "('c, 'w) callback \<Rightarrow> nilfs_cpinfo \<Rightarrow> ('c \<times> 'w lib, nat) act" where
  "call_out out cpi = (\<lambda>(c, s). case out cpi (c, l_env s) of (r, c, w) \<Rightarrow> (r, c, s\<lparr>l_env := w\<rparr>))"

definition NCPINFO :: u64 where "NCPINFO = 512"
definition MINDELTA :: u64 where "MINDELTA = 64"

definition enum_rest :: "nilfs_cpstat \<Rightarrow> u64 \<Rightarrow> u64" where
  "enum_rest cpstat opt_count =
     (if opt_count \<noteq> 0 \<and> opt_count < cs_ncps cpstat then opt_count else cs_ncps cpstat)"

text \<open>
  The loop over the entries of one answer: the result tells whether the enumeration is over and how
  many entries are still wanted.
\<close>

fun forward_items :: "('c, 'w) callback \<Rightarrow> nilfs_cpinfo list \<Rightarrow> u64 \<Rightarrow> ('c \<times> 'w lib, bool \<times> u64) act" where
  "forward_items out [] rest st = (Inr (False, rest), st)"
| "forward_items out (cpi # cpis) rest st =
     (case call_out out cpi st of
        (Inl e, st) \<Rightarrow> (Inl e, st)
      | (Inr r, st) \<Rightarrow>
          if r = 0 then forward_items out cpis rest st
          else if r > 1 then (Inr (True, rest), st)
          else forward_items out cpis (rest - 1) st)"

partial_function (option) enum_forward :: "'w kernel \<Rightarrow> ('c, 'w) callback \<Rightarrow> u64 \<Rightarrow> u64 \<Rightarrow> u64 \<Rightarrow> 'c \<times> 'w lib
    \<Rightarrow> ((errno + unit) \<times> 'c \<times> 'w lib) option" where
  "enum_forward k out cs_no sidx rest st =
     (if \<not> (rest > 0 \<and> sidx < cs_no) then Some (Inr (), st)
      else case nilfs_get_cpinfo k sidx NILFS_CHECKPOINT (min rest NCPINFO) (snd st) of
        (Inl e, s) \<Rightarrow> Some (Inl e, fst st, s)
      | (Inr [], s) \<Rightarrow> Some (Inr (), fst st, s)
      | (Inr (ci # cis), s) \<Rightarrow>
          (case forward_items out (ci # cis) rest (fst st, s) of
             (Inl e, st) \<Rightarrow> Some (Inl e, st)
           | (Inr (fin, rest), st) \<Rightarrow>
               if fin then Some (Inr (), st)
               else enum_forward k out cs_no (ci_cno (last (ci # cis)) + 1) rest st))"

definition nilfs_enum_cpinfo_forward :: "'w kernel \<Rightarrow> nilfs_cpstat \<Rightarrow> u64 \<Rightarrow> u64 \<Rightarrow> ('c, 'w) callback
    \<Rightarrow> ('c \<times> 'w lib, unit) act" where
  "nilfs_enum_cpinfo_forward k cpstat opt_start opt_count out = (\<lambda>(c, s).
     let rest = enum_rest cpstat opt_count;
         sidx = (if opt_start \<noteq> 0 then opt_start else NILFS_CNO_MIN)
     in case lib_alloc k (sizeof_cpinfo * NCPINFO) s of
          (False, s) \<Rightarrow> (Inl ENOMEM, c, s)
        | (True, s) \<Rightarrow>
            (case enum_forward k out (cs_cno cpstat) sidx rest (c, s) of None \<Rightarrow> (Inl EHang, c, s) | Some r \<Rightarrow> r))"

datatype enum_state = INIT_ST | NORMAL_ST | ACCEL_ST | DECEL_ST

text \<open>The entries of one answer from the last to the first, those at or behind \<open>eidx\<close> skipped.\<close>

fun backward_items :: "('c, 'w) callback \<Rightarrow> u64 \<Rightarrow> nilfs_cpinfo list \<Rightarrow> u64 \<Rightarrow> ('c \<times> 'w lib, bool \<times> u64) act" where
  "backward_items out eidx [] rest st = (Inr (False, rest), st)"
| "backward_items out eidx (cpi # cpis) rest st =
     (if ci_cno cpi \<ge> eidx then backward_items out eidx cpis rest st
      else case call_out out cpi st of
        (Inl e, st) \<Rightarrow> (Inl e, st)
      | (Inr r, st) \<Rightarrow>
          if r = 0 then backward_items out eidx cpis rest st
          else if r > 1 then (Inr (True, rest), st)
          else if rest - 1 = 0 then (Inr (True, rest - 1), st)
          else backward_items out eidx cpis (rest - 1) st)"

definition enum_delta :: "u64 \<Rightarrow> u64" where
  "enum_delta rest = min NCPINFO (max rest MINDELTA)"

text \<open>
  The variables of the backward search, and one round of it, from the label \<open>recalc_delta\<close> or
  the head of the loop to the next \<open>continue\<close>, \<open>goto\<close> or exit.
\<close>

record bsearch =
  b_eidx :: u64
  b_prev_head :: u64
  b_state :: enum_state
  b_v :: u64
  b_rest :: u64

definition b_sidx :: "bsearch \<Rightarrow> u64" where
  "b_sidx b = (if b_eidx b < NILFS_CNO_MIN + b_v b \<or> b_state b = INIT_ST then NILFS_CNO_MIN else b_eidx b - b_v b)"

definition b_req_count :: "bsearch \<Rightarrow> u64" where
  "b_req_count b = min (if b_state b = NORMAL_ST then b_eidx b - b_sidx b else 1) NCPINFO"

text \<open>What becomes of the search when no entry was accepted: \<open>None\<close> when the entries are to be
  processed, \<open>Some None\<close> when the search is over.\<close>

definition back_look :: "bsearch \<Rightarrow> nilfs_cpinfo list \<Rightarrow> bsearch option option" where
  "back_look b cis =
     (let delta = enum_delta (b_rest b); v = b_v b; first = ci_cno (hd cis) in
      if b_state b = INIT_ST
      then Some (if first \<ge> b_eidx b then None else Some (b\<lparr>b_state := NORMAL_ST\<rparr>))
      else if first = b_prev_head b
      then Some (if b_sidx b = NILFS_CNO_MIN then None
                 else if b_state b = DECEL_ST
                 then Some (b\<lparr>b_eidx := b_sidx b, b_state := NORMAL_ST, b_v := delta\<rparr>)
                 else Some (b\<lparr>b_eidx := b_sidx b, b_state := ACCEL_ST,
                               b_v := if push_bit 1 v > v then push_bit 1 v else v\<rparr>))
      else if (b_state b = ACCEL_ST \<or> b_state b = DECEL_ST) \<and> ci_cno (last cis) + 1 < b_prev_head b
      then Some (Some (let v = drop_bit 1 v in
                 if v \<le> delta then b\<lparr>b_state := NORMAL_ST, b_v := delta\<rparr>
                 else b\<lparr>b_state := DECEL_ST, b_v := v\<rparr>))
      else None)"

type_synonym ('c, 'w) enum_result = "(errno + unit) \<times> 'c \<times> 'w lib"

definition back_step :: "'w kernel \<Rightarrow> ('c, 'w) callback \<Rightarrow> bsearch \<Rightarrow> 'c \<times> 'w lib
    \<Rightarrow> ('c, 'w) enum_result + bsearch \<times> 'c \<times> 'w lib" where
  "back_step k out b = (\<lambda>(c, s).
     if \<not> b_eidx b > NILFS_CNO_MIN then Inl (Inr (), c, s)
     else case nilfs_get_cpinfo k (b_sidx b) NILFS_CHECKPOINT (b_req_count b) s of
       (Inl e, s) \<Rightarrow> Inl (Inl e, c, s)
     | (Inr cis, s) \<Rightarrow>
         if cis = [] then Inl (Inr (), c, s)
         else case back_look b cis of
           Some None \<Rightarrow> Inl (Inr (), c, s)
         | Some (Some b) \<Rightarrow> Inr (b, c, s)
         | None \<Rightarrow>
             (case backward_items out (b_eidx b) (rev cis) (b_rest b) (c, s) of
                (Inl e, st) \<Rightarrow> Inl (Inl e, st)
              | (Inr (fin, rest), st) \<Rightarrow>
                  if fin then Inl (Inr (), st)
                  else Inr (\<lparr>b_eidx = b_sidx b, b_prev_head = ci_cno (hd cis), b_state = NORMAL_ST,
                             b_v = enum_delta rest, b_rest = rest\<rparr>, st)))"

partial_function (option) enum_backward :: "'w kernel \<Rightarrow> ('c, 'w) callback \<Rightarrow> bsearch \<Rightarrow> 'c \<times> 'w lib
    \<Rightarrow> ('c, 'w) enum_result option" where
  "enum_backward k out b st =
     (case back_step k out b st of Inl r \<Rightarrow> Some r | Inr (b, st) \<Rightarrow> enum_backward k out b st)"

definition nilfs_enum_cpinfo_backward :: "'w kernel \<Rightarrow> nilfs_cpstat \<Rightarrow> u64 \<Rightarrow> u64 \<Rightarrow> ('c, 'w) callback
    \<Rightarrow> ('c \<times> 'w lib, unit) act" where
  "nilfs_enum_cpinfo_backward k cpstat opt_start opt_count out = (\<lambda>(c, s).
     let rest = enum_rest cpstat opt_count;
         eidx = (if opt_start \<noteq> 0 \<and> opt_start < cs_cno cpstat then opt_start + 1 else cs_cno cpstat)
     in if rest = 0 then (Inr (), c, s)
        else case lib_alloc k (sizeof_cpinfo * NCPINFO) s of
          (False, s) \<Rightarrow> (Inl ENOMEM, c, s)
        | (True, s) \<Rightarrow>
            (case enum_backward k out \<lparr>b_eidx = eidx, b_prev_head = 0, b_state = INIT_ST,
                                       b_v = enum_delta rest, b_rest = rest\<rparr> (c, s) of
               None \<Rightarrow> (Inl EHang, c, s) | Some r \<Rightarrow> r))"


section \<open>Scans\<close>

datatype scan_state = SCAN_INIT_ST | SCAN_NORMAL_ST | SCAN_DONE_ST

record scan_ctx =
  sc_index :: u32
  sc_state :: scan_state
  sc_time :: i64
  sc_period :: u64
  sc_min_incl_cno :: u64

definition gap_of_spans :: "i64 \<Rightarrow> i64 \<Rightarrow> u64" where
  "gap_of_spans gap_from gap_to = (if sint gap_to \<ge> sint gap_from then gap_to - gap_from else INTERVAL_ON_REWIND)"

definition single_span :: "nilfs_cpinfo \<Rightarrow> nilfs_cpspan" where
  "single_span ci = \<lparr>sp_start = \<lparr>ct_cno = ci_cno ci, ct_time = ci_create ci\<rparr>,
     sp_end = \<lparr>ct_cno = ci_cno ci, ct_time = ci_create ci\<rparr>, approx_ncp = 1\<rparr>"

definition alloc_w :: "'w kernel \<Rightarrow> 'w allocator" where
  "alloc_w k n w = (case k_malloc k n w of (a, w) \<Rightarrow> (a \<noteq> None, w))"

definition nilfs_cpinfo_scan_backward :: "'w kernel \<Rightarrow> nilfs_cpspan \<Rightarrow> (nilfs_cnormap \<times> scan_ctx, 'w) callback" where
  "nilfs_cpinfo_scan_backward k junk ci = (\<lambda>((c, x), w).
     if sc_state x = SCAN_INIT_ST
     then case vector_push (alloc_w k) junk (cphist c) (single_span ci) w of
            (Inl e, w) \<Rightarrow> (Inl e, (c, x), w)
          | (Inr v, w) \<Rightarrow>
              let c = c\<lparr>cphist := v, cphist_elapsed_time := 0\<rparr>; age = sc_time x - ci_create ci in
              if sc_time x > ci_create ci \<and> sc_period x < age
              then (Inr 2, (c, x\<lparr>sc_state := SCAN_DONE_ST\<rparr>), w)
              else (Inr 1, (c, x\<lparr>sc_period := (if sc_time x > ci_create ci then sc_period x - age else sc_period x),
                                sc_state := SCAN_NORMAL_ST, sc_min_incl_cno := ci_cno ci\<rparr>), w)
     else case nilfs_vector_get_element (cphist c) (sc_index x) of
            None \<Rightarrow> (Inl EINVAL, (c, x), w)
          | Some i \<Rightarrow>
              if sc_state x \<noteq> SCAN_NORMAL_ST then (Inl EINVAL, (c, x), w)
              else let sp = slot (cphist c) i; put = (\<lambda>sp. set_slot (cphist c) i sp) in
                if ci_create ci = ct_time (sp_start sp)
                then (Inr 1, (c\<lparr>cphist := put (sp\<lparr>sp_start := (sp_start sp)\<lparr>ct_cno := ci_cno ci\<rparr>, approx_ncp := approx_ncp sp + 1\<rparr>)\<rparr>,
                              x\<lparr>sc_min_incl_cno := ci_cno ci\<rparr>), w)
                else
                  let elapsed = cphist_elapsed_time c + gap_of_spans (ci_create ci) (ct_time (sp_start sp));
                      (r, x, w) = (if ci_create ci > ct_time (sp_start sp) \<or> approx_ncp sp \<ge> NCP_PER_SPAN
                                then case vector_push (alloc_w k) junk (cphist c) (single_span ci) w of
                                       (Inl e, w) \<Rightarrow> (Inl e, x, w)
                                     | (Inr v, w) \<Rightarrow> (Inr v, x\<lparr>sc_index := sc_index x + 1\<rparr>, w)
                                else (Inr (put (sp\<lparr>sp_start := \<lparr>ct_cno = ci_cno ci, ct_time = ci_create ci\<rparr>,
                                                   approx_ncp := approx_ncp sp + 1\<rparr>)), x, w))
                  in case r of
                       Inl e \<Rightarrow> (Inl e, (c, x), w)
                     | Inr v \<Rightarrow>
                         let c = c\<lparr>cphist := v, cphist_elapsed_time := elapsed\<rparr> in
                         if elapsed > sc_period x then (Inr 2, (c, x\<lparr>sc_state := SCAN_DONE_ST\<rparr>), w)
                         else (Inr 1, (c, x\<lparr>sc_min_incl_cno := ci_cno ci\<rparr>), w))"

definition nilfs_cpinfo_scan_forward :: "'w kernel \<Rightarrow> nilfs_cpspan \<Rightarrow> (nilfs_cnormap \<times> scan_ctx, 'w) callback" where
  "nilfs_cpinfo_scan_forward k junk ci = (\<lambda>((c, x), w).
     case nilfs_vector_get_element (cphist c) 0 of
       None \<Rightarrow> (Inl EINVAL, (c, x), w)
     | Some i \<Rightarrow>
         if sc_state x \<noteq> SCAN_NORMAL_ST then (Inl EINVAL, (c, x), w)
         else let sp = slot (cphist c) i; put = (\<lambda>sp. set_slot (cphist c) i sp) in
           if ci_create ci = ct_time (sp_end sp)
           then (Inr 1, (c\<lparr>cphist := put (sp\<lparr>sp_end := (sp_end sp)\<lparr>ct_cno := ci_cno ci\<rparr>, approx_ncp := approx_ncp sp + 1\<rparr>)\<rparr>, x), w)
           else
             let elapsed = cphist_elapsed_time c + gap_of_spans (ct_time (sp_end sp)) (ci_create ci);
                 (r, x, w) = (if ci_create ci < ct_time (sp_end sp) \<or> approx_ncp sp \<ge> NCP_PER_SPAN
                           then case nilfs_vector_insert_element (alloc_w k) junk (cphist c) 0 w of
                                  (Inl e, w) \<Rightarrow> (Inl e, x, w)
                                | (Inr (i, v), w) \<Rightarrow> (Inr (set_slot v i (single_span ci)), x\<lparr>sc_index := sc_index x + 1\<rparr>, w)
                           else (Inr (put (sp\<lparr>sp_end := \<lparr>ct_cno = ci_cno ci, ct_time = ci_create ci\<rparr>,
                                              approx_ncp := approx_ncp sp + 1\<rparr>)), x, w))
             in case r of
                  Inl e \<Rightarrow> (Inl e, (c, x), w)
                | Inr v \<Rightarrow>
                    let c = c\<lparr>cphist := v, cphist_elapsed_time := elapsed\<rparr> in
                    if elapsed \<ge> sc_period x
                    then (Inr 2, (c, x\<lparr>sc_state := SCAN_DONE_ST, sc_min_incl_cno := ci_cno ci\<rparr>), w)
                    else (Inr 1, (c, x), w))"


section \<open>The history of checkpoints\<close>

text \<open>
  The parts of \<open>nilfs_cnormap_track_back\<close>. The result is the checkpoint number stored in
  \<open>*cnop\<close>; the mapper keeps what a failed scan has added to it.
\<close>

definition nilfs_cnormap_cphist_init :: "'w kernel \<Rightarrow> nilfs_cpspan \<Rightarrow> nilfs_cpstat \<Rightarrow> i64 \<Rightarrow> u64
    \<Rightarrow> ('w mapper, u64) act" where
  "nilfs_cnormap_cphist_init k junk cpstat monotonic_clock period =
     bindE (nilfs_cnormap_get_realtime_clock k) (\<lambda>realtime_clock (c, s).
       let x = \<lparr>sc_index = 0, sc_state = SCAN_INIT_ST, sc_time = realtime_clock, sc_period = period,
                sc_min_incl_cno = NILFS_CNO_MAX\<rparr>
       in case nilfs_enum_cpinfo_backward k cpstat 0 0 (nilfs_cpinfo_scan_backward k junk) ((c, x), s) of
            (r, (c, x), s) \<Rightarrow>
              if sc_state x = SCAN_INIT_ST
              then (case r of Inl e \<Rightarrow> (Inl e, c, s) | Inr _ \<Rightarrow> (Inr NILFS_CNO_MAX, c, s))
              else let c = c\<lparr>base_time := realtime_clock, base_clock := monotonic_clock\<rparr>
                   in (case r of Inl e \<Rightarrow> (Inl e, c, s) | Inr _ \<Rightarrow> (Inr (sc_min_incl_cno x), c, s)))"

definition nilfs_cnormap_cphist_extend_forward :: "'w kernel \<Rightarrow> nilfs_cpspan \<Rightarrow> nilfs_cpstat \<Rightarrow> i64 \<Rightarrow> u64 \<Rightarrow> u64
    \<Rightarrow> ('w mapper, u64) act" where
  "nilfs_cnormap_cphist_extend_forward k junk cpstat monotonic_clock period end_cno =
     bindE (nilfs_cnormap_get_realtime_clock k) (\<lambda>realtime_clock (c, s).
       case nilfs_vector_get_element (cphist c) 0 of
         None \<Rightarrow> (Inl EAbort, c, s)
       | Some i \<Rightarrow>
           let latest = slot (cphist c) i;
               max_index = ucast (nilfs_vector_get_size (cphist c) - 1) :: u32;
               c = (if max_index > 0
                    then c\<lparr>cphist := delete_run (cphist c) 1 (unat max_index),
                           cphist_elapsed_time := ct_time (sp_end latest) - ct_time (sp_start latest)\<rparr>
                    else c);
               x = \<lparr>sc_index = 0, sc_state = SCAN_NORMAL_ST, sc_time = 0, sc_period = period,
                    sc_min_incl_cno = NILFS_CNO_MAX\<rparr>
           in case nilfs_enum_cpinfo_forward k cpstat (end_cno + 1) 0 (nilfs_cpinfo_scan_forward k junk) ((c, x), s) of
                (r, (c, x), s) \<Rightarrow>
                  let c = c\<lparr>base_time := realtime_clock, base_clock := monotonic_clock\<rparr>
                  in (case r of Inl e \<Rightarrow> (Inl e, c, s) | Inr _ \<Rightarrow> (Inr (sc_min_incl_cno x), c, s)))"

definition nilfs_cnormap_cphist_extend_backward :: "'w kernel \<Rightarrow> nilfs_cpspan \<Rightarrow> nilfs_cpstat \<Rightarrow> u64 \<Rightarrow> u32 \<Rightarrow> u64
    \<Rightarrow> ('w mapper, u64) act" where
  "nilfs_cnormap_cphist_extend_backward k junk cpstat period index start_cno = (\<lambda>(c, s).
     if start_cno = 0 then (Inl EINVAL, c, s)
     else if start_cno = NILFS_CNO_MIN then (Inr NILFS_CNO_MIN, c, s)
     else let x = \<lparr>sc_index = index, sc_state = SCAN_NORMAL_ST, sc_time = 0, sc_period = period,
                   sc_min_incl_cno = start_cno\<rparr>
          in case nilfs_enum_cpinfo_backward k cpstat (start_cno - 1) 0 (nilfs_cpinfo_scan_backward k junk) ((c, x), s) of
               (r, (c, x), s) \<Rightarrow> (case r of Inl e \<Rightarrow> (Inl e, c, s) | Inr _ \<Rightarrow> (Inr (sc_min_incl_cno x), c, s)))"

record find_ctx =
  fc_time :: i64
  fc_end_cno :: u64
  fc_min_incl_cp :: nilfs_cptime
  fc_max_excl_cp :: nilfs_cptime
  fc_nskips :: u32

definition nilfs_cpinfo_find :: "(find_ctx, 'w) callback" where
  "nilfs_cpinfo_find ci = (\<lambda>(x, w).
     if ci_cno ci > fc_end_cno x then (Inr 2, x, w)
     else if ci_create ci \<ge> fc_time x
     then (Inr 2, x\<lparr>fc_min_incl_cp := \<lparr>ct_cno = ci_cno ci, ct_time = ci_create ci\<rparr>\<rparr>, w)
     else (Inr 0, x\<lparr>fc_max_excl_cp := \<lparr>ct_cno = ci_cno ci, ct_time = ci_create ci\<rparr>, fc_nskips := fc_nskips x + 1\<rparr>, w))"

definition span_width :: "nilfs_cpspan \<Rightarrow> u64" where
  "span_width sp = ct_time (sp_end sp) - ct_time (sp_start sp)"

text \<open>
  The loop of \<open>nilfs_cnormap_cphist_search\<close> towards later spans: where it stops, the time of the
  spans passed, and the checkpoint when it is the first one of a span.
\<close>

fun cphist_search_loop :: "nilfs_cpspan nilfs_vector \<Rightarrow> u64 \<Rightarrow> nat \<Rightarrow> u64 \<Rightarrow> errno + nat \<times> u64 \<times> u64 option" where
  "cphist_search_loop v period index delta =
     (let curr = slot v index; width = span_width curr in
      if \<not> period > delta + width then Inr (index, delta, None)
      else case index of
        0 \<Rightarrow> Inl EINVAL
      | Suc i \<Rightarrow>
          (case nilfs_vector_get_element v (of_nat i) of
             None \<Rightarrow> Inl EAbort
           | Some e \<Rightarrow>
               let target = slot v e; gap = gap_of_spans (ct_time (sp_end curr)) (ct_time (sp_start target)) in
               if delta + width + gap \<ge> period then Inr (index, delta, Some (ct_cno (sp_start target)))
               else cphist_search_loop v period i (delta + width + gap)))"

declare cphist_search_loop.simps [simp del]

definition cphist_trim :: "nat \<Rightarrow> nat \<Rightarrow> u64 \<Rightarrow> nilfs_cnormap \<Rightarrow> nilfs_cnormap" where
  "cphist_trim max_index index delta c =
     c\<lparr>cphist := (if max_index > index then delete_run (cphist c) (index + 1) (max_index - index) else cphist c),
       cphist_elapsed_time := cphist_elapsed_time c - delta\<rparr>"

definition nilfs_cnormap_cphist_search :: "'w kernel \<Rightarrow> nilfs_cpstat \<Rightarrow> u64 \<Rightarrow> ('w mapper, u64) act" where
  "nilfs_cnormap_cphist_search k cpstat period = (\<lambda>(c, s).
     if nilfs_vector_get_size (cphist c) = 0 \<or> period = 0 then (Inl EINVAL, c, s)
     else
       let max_index = ucast (nilfs_vector_get_size (cphist c) - 1) :: u32 in
       case nilfs_vector_get_element (cphist c) max_index of
         None \<Rightarrow> (Inl EAbort, c, s)
       | Some mx \<Rightarrow>
           (case cphist_search_loop (cphist c) period mx 0 of
              Inl e \<Rightarrow> (Inl e, c, s)
            | Inr (index, delta, Some cno) \<Rightarrow> (Inr cno, cphist_trim mx index delta c, s)
            | Inr (index, delta, None) \<Rightarrow>
                let target = slot (cphist c) index; start = sp_start target; fin = sp_end target in
                if ct_cno fin > ct_cno start
                then let x = \<lparr>fc_time = ct_time start + (period - delta), fc_end_cno = ct_cno fin,
                              fc_min_incl_cp = fin, fc_max_excl_cp = start, fc_nskips = 0\<rparr>
                     in case nilfs_enum_cpinfo_forward k cpstat (ct_cno start + 1) 1 nilfs_cpinfo_find (x, s) of
                          (Inl e, x, s) \<Rightarrow> (Inl e, c, s)
                        | (Inr _, x, s) \<Rightarrow>
                            let ex = fc_max_excl_cp x;
                                (c, delta) =
                                  (if ct_cno ex > ct_cno start
                                   then (c\<lparr>cphist := set_slot (cphist c) index
                                            (target\<lparr>sp_start := ex,
                                                    approx_ncp := approx_ncp target - min (fc_nskips x) (approx_ncp target - 1)\<rparr>)\<rparr>,
                                         delta + (ct_time ex - ct_time start))
                                   else (c, delta))
                            in (Inr (ct_cno (fc_min_incl_cp x)), cphist_trim mx index delta c, s)
                else (Inr (ct_cno fin), cphist_trim mx index delta c, s)))"

definition nilfs_cnormap_track_back :: "'w kernel \<Rightarrow> nilfs_cpspan \<Rightarrow> u64 \<Rightarrow> ('w mapper, u64) act" where
  "nilfs_cnormap_track_back k junk period st =
     (if period = 0 then (Inr NILFS_CNO_MAX, st)
      else bindE (onLib (nilfs_get_cpstat k)) (\<lambda>cpstat.
           bindE (nilfs_cnormap_get_monotonic_clock k) (\<lambda>monotonic_clock (c, s).
             if nilfs_vector_get_size (cphist c) = 0
             then nilfs_cnormap_cphist_init k junk cpstat monotonic_clock period (c, s)
             else case nilfs_vector_get_element (cphist c) 0 of
               None \<Rightarrow> (Inl EAbort, c, s)
             | Some i \<Rightarrow>
                 let latest = slot (cphist c) i;
                     call_interval = monotonic_clock - base_clock c;
                     cphist_offset = call_interval
                       + (if sint (base_time c) > sint (ct_time (sp_end latest))
                          then base_time c - ct_time (sp_end latest) else 0)
                 in if period < cphist_offset div 2
                    then (case nilfs_vector_clear (lib_alloc k) junk (cphist c) s of (v, s) \<Rightarrow>
                            nilfs_cnormap_cphist_init k junk cpstat monotonic_clock period
                              (c\<lparr>cphist := v, cphist_elapsed_time := 0\<rparr>, s))
                    else if period < cphist_offset
                    then nilfs_cnormap_cphist_extend_forward k junk cpstat monotonic_clock
                           (cphist_offset - period) (ct_cno (sp_end latest)) (c, s)
                    else if period < cphist_offset + cphist_elapsed_time c
                    then nilfs_cnormap_cphist_search k cpstat
                           (cphist_offset + cphist_elapsed_time c - period) (c, s)
                    else let max_index = ucast (nilfs_vector_get_size (cphist c) - 1) :: u32 in
                      case nilfs_vector_get_element (cphist c) max_index of
                        None \<Rightarrow> (Inl EAbort, c, s)
                      | Some mx \<Rightarrow>
                          let target = slot (cphist c) mx in
                          if period > cphist_offset + cphist_elapsed_time c
                          then nilfs_cnormap_cphist_extend_backward k junk cpstat (period - cphist_offset)
                                 max_index (ct_cno (sp_start target)) (c, s)
                          else (Inr (ct_cno (sp_start target)), c, s))) st)"

section \<open>The backward search ends\<close>

text \<open>The step width is neither 0 nor the largest number; the second component of the measure counts
  the rounds that do not move the end of the window.\<close>

definition width_ok :: "bsearch \<Rightarrow> bool" where
  "width_ok b \<longleftrightarrow> b_v b \<noteq> 0 \<and> b_v b \<noteq> - 1"

definition back_measure :: "bsearch \<Rightarrow> nat \<times> nat" where
  "back_measure b = (unat (b_eidx b),
     (case b_state b of NORMAL_ST \<Rightarrow> 0 | INIT_ST \<Rightarrow> 1 | _ \<Rightarrow> 1 + unat (b_v b)))"

lemma sidx_less:
  assumes "width_ok b" "NILFS_CNO_MIN < b_eidx b"
  shows "NILFS_CNO_MIN \<le> b_sidx b" "b_sidx b < b_eidx b"
proof -
  have e: "1 < unat (b_eidx b)" using assms(2) by (simp add: NILFS_CNO_MIN_def word_less_nat_alt)
  have v: "1 \<le> unat (b_v b)" using assms(1) by (simp add: width_ok_def Suc_le_eq unat_gt_0)
  have v1: "unat (1 + b_v b) = 1 + unat (b_v b)"
  proof -
    have "unat (b_v b) \<noteq> 2 ^ 64 - 1"
    proof
      assume "unat (b_v b) = 2 ^ 64 - 1"
      then have "b_v b = of_nat (2 ^ 64 - 1)" by (metis unat_of_nat_u64 word_unat_eq_iff unat_lt_u64)
      then show False using assms(1) by (simp add: width_ok_def)
    qed
    then have "1 + unat (b_v b) < 2 ^ 64" using unat_lt_u64 [of "b_v b"] by linarith
    then show ?thesis by (simp add: unat_word_ariths)
  qed
  have "NILFS_CNO_MIN \<le> b_sidx b \<and> b_sidx b < b_eidx b"
  proof (cases "b_eidx b < NILFS_CNO_MIN + b_v b \<or> b_state b = INIT_ST")
    case True
    then show ?thesis using assms(2) by (simp add: b_sidx_def)
  next
    case False
    then have le: "1 + unat (b_v b) \<le> unat (b_eidx b)" using v1 by (simp add: NILFS_CNO_MIN_def word_less_nat_alt not_less)
    then have "unat (b_eidx b - b_v b) = unat (b_eidx b) - unat (b_v b)" by (simp add: unat_sub word_le_nat_alt)
    then show ?thesis using False le v
      by (simp add: b_sidx_def NILFS_CNO_MIN_def word_le_nat_alt word_less_nat_alt)
  qed
  then show "NILFS_CNO_MIN \<le> b_sidx b" "b_sidx b < b_eidx b" by auto
qed

lemma enum_delta_bounds: "64 \<le> enum_delta r" "enum_delta r \<le> 512"
  by (auto simp: enum_delta_def NCPINFO_def MINDELTA_def min_def max_def)

lemma enum_delta_ok: "enum_delta r \<noteq> 0" "enum_delta r \<noteq> - 1"
  using enum_delta_bounds [of r]
  by (auto simp: word_le_nat_alt unsigned_minus_1_eq_mask mask_eq_exp_minus_1)

lemma double_ok:
  assumes "v < push_bit (Suc 0) v" 
  shows "push_bit (Suc 0) v \<noteq> 0" "push_bit (Suc 0) v \<noteq> (- 1 :: u64)"
proof -
  show "push_bit (Suc 0) v \<noteq> 0" using assms by auto
  have "\<not> bit (push_bit (Suc 0) v) 0" by (simp add: bit_push_bit_iff del: push_bit_Suc)
  then show "push_bit (Suc 0) v \<noteq> (- 1 :: u64)" by (metis bit_minus_1_iff possible_bit_0)
qed

lemma half_u64: "unat (drop_bit (Suc 0) v :: u64) = unat v div 2"
  using unat_drop_bit_eq [of "Suc 0" v] by (simp add: drop_bit_Suc)

lemma back_look_next:
  assumes "back_look b cis = Some (Some b')" "width_ok b" "NILFS_CNO_MIN < b_eidx b"
  shows "width_ok b' \<and> (back_measure b', back_measure b) \<in> less_than <*lex*> less_than"
proof -
  have s: "unat (b_sidx b) < unat (b_eidx b)" using sidx_less [OF assms(2,3)] by (simp add: word_less_nat_alt)
  have h: "unat (drop_bit (Suc 0) (b_v b)) < unat (b_v b)"
    using half_u64 [of "b_v b"] assms(2) by (simp add: width_ok_def unat_gt_0)
  have hm: "drop_bit (Suc 0) (b_v b) \<noteq> - 1" using h unat_lt_u64 [of "b_v b"]
    by (auto simp: unsigned_minus_1_eq_mask mask_eq_exp_minus_1)
  have hz: "enum_delta r < drop_bit (Suc 0) (b_v b) \<Longrightarrow> drop_bit (Suc 0) (b_v b) \<noteq> 0" for r by auto
  show ?thesis
    using assms(1,2) s h hm hz enum_delta_ok [of "b_rest b"] double_ok [of "b_v b"]
    by (cases "b_state b") (auto simp: back_look_def Let_def back_measure_def width_ok_def not_le split: if_splits)
qed

lemma back_step_next:
  assumes "back_step k out b st = Inr (b', st')" "width_ok b"
  shows "width_ok b' \<and> (back_measure b', back_measure b) \<in> less_than <*lex*> less_than"
proof -
  have e: "NILFS_CNO_MIN < b_eidx b" using assms(1) by (auto simp: back_step_def split: prod.splits if_splits)
  have s: "unat (b_sidx b) < unat (b_eidx b)" using sidx_less [OF assms(2) e] by (simp add: word_less_nat_alt)
  show ?thesis
    using assms(1) e s enum_delta_ok
    by (auto simp: back_step_def back_measure_def width_ok_def split: prod.splits sum.splits if_splits option.splits
        dest!: back_look_next [OF _ assms(2) e])
qed

lemma enum_backward_total: "width_ok b \<Longrightarrow> \<exists>r. enum_backward k out b st = Some r"
proof (induction "back_measure b" arbitrary: b st rule: wf_induct_rule [OF wf_lex_prod [OF wf_less_than wf_less_than]])
  case 1
  show ?case
  proof (cases "back_step k out b st")
    case (Inl r)
    then show ?thesis by (cases r) (simp add: enum_backward.simps)
  next
    case (Inr x)
    then obtain b' st' where s: "back_step k out b st = Inr (b', st')" by (cases x) auto
    then have "\<exists>r. enum_backward k out b' st' = Some r" using back_step_next [OF s 1(2)] 1(1) by blast
    then show ?thesis by (simp add: enum_backward.simps [of k out b] s)
  qed
qed

section \<open>The backward search visits every checkpoint\<close>

text \<open>
  A file system whose checkpoints \<open>cps\<close>, in ascending order, do not change: a query answers the
  first entries at or behind the index, as many as asked for.
\<close>

definition cp_laws :: "'w kernel \<Rightarrow> nilfs_cpinfo list \<Rightarrow> bool" where
  "cp_laws k cps \<longleftrightarrow> sorted_wrt (\<lambda>a b. ci_cno a < ci_cno b) cps \<and> (\<forall>c \<in> set cps. ci_cno c \<noteq> 0)
     \<and> (\<forall>fd a w. v_flags a = 0 \<longrightarrow>
          k_get_cpinfo k fd a w = (Inr (take (unat (v_nmembs a)) (filter (\<lambda>c. v_index a \<le> ci_cno c) cps)), w))"

definition cp_lib :: "nilfs_cpinfo list \<Rightarrow> 'w lib \<Rightarrow> bool" where
  "cp_lib cps s \<longleftrightarrow> 0 \<le> n_iocfd (l_nilfs s) \<and> (\<forall>c \<in> set cps. n_mincno (l_nilfs s) \<le> ci_cno c)"

lemma get_cpinfo_lawful:
  assumes "cp_laws k cps" "cp_lib cps s" "NILFS_CNO_MIN \<le> cno" "n \<le> 512"
  shows "\<exists>s'. nilfs_get_cpinfo k cno NILFS_CHECKPOINT n s = (Inr (take (unat n) (filter (\<lambda>c. cno \<le> ci_cno c) cps)), s')
    \<and> cp_lib cps s' \<and> l_env s' = l_env s"
proof -
  let ?m = "n_mincno (l_nilfs s)"
  define cno' where "cno' = (if cno < ?m then ?m else cno)"
  have f: "filter (\<lambda>c. cno' \<le> ci_cno c) cps = filter (\<lambda>c. cno \<le> ci_cno c) cps"
    using assms(2) by (intro filter_cong refl) (auto simp: cno'_def cp_lib_def)
  let ?r = "take (unat n) (filter (\<lambda>c. cno \<le> ci_cno c) cps)"
  have u: "unat (ucast n :: u32) = unat n"
    using assms(4) by (simp add: unsigned_ucast_eq take_bit_nat_eq_self word_le_nat_alt)
  have g: "k_get_cpinfo k (n_iocfd (l_nilfs s)) (argv n sizeof_cpinfo cno' (cpmode_nat NILFS_CHECKPOINT)) w = (Inr ?r, w)" for w
    using assms(1) f u by (simp add: cp_laws_def argv_def)
  have fd: "\<not> n_iocfd (l_nilfs s) < 0" using assms(2) by (simp add: cp_lib_def)
  have least: "\<forall>c \<in> set cps. ci_cno (hd ?r) \<le> ci_cno c" if "?r \<noteq> []" "cno' = ?m"
  proof -
    have "filter (\<lambda>c. cno \<le> ci_cno c) cps = cps"
      using assms(2) that(2) unfolding f [symmetric] by (simp add: cp_lib_def)
    then have "hd ?r = hd cps" "cps \<noteq> []" using that(1) by (auto simp: hd_take)
    moreover have "\<forall>c \<in> set cps. ci_cno (hd cps) \<le> ci_cno c"
      using assms(1) \<open>cps \<noteq> []\<close> by (cases cps) (auto simp: cp_laws_def intro: less_imp_le)
    ultimately show ?thesis by simp
  qed
  show ?thesis
    using assms(2,3) fd g least
    by (auto simp: nilfs_get_cpinfo_def Let_def bindE_def liftK_def cno'_def [symmetric] cp_lib_def)
qed

text \<open>What the callback makes of a sequence of checkpoints, on the environment alone.\<close>

fun visit :: "('c, 'w) callback \<Rightarrow> nilfs_cpinfo list \<Rightarrow> u64 \<Rightarrow> ('c \<times> 'w, bool \<times> u64) act" where
  "visit out [] rest cw = (Inr (False, rest), cw)"
| "visit out (cpi # cpis) rest cw =
     (case out cpi cw of
        (Inl e, cw) \<Rightarrow> (Inl e, cw)
      | (Inr r, cw) \<Rightarrow>
          if r = 0 then visit out cpis rest cw
          else if r > 1 then (Inr (True, rest), cw)
          else if rest - 1 = 0 then (Inr (True, rest - 1), cw)
          else visit out cpis (rest - 1) cw)"

definition visited :: "('c, 'w) callback \<Rightarrow> nilfs_cpinfo list \<Rightarrow> u64 \<Rightarrow> ('c \<times> 'w, unit) act" where
  "visited out cpis rest cw = (case visit out cpis rest cw of (Inl e, cw) \<Rightarrow> (Inl e, cw) | (Inr _, cw) \<Rightarrow> (Inr (), cw))"

lemma visit_append:
  "visit out (xs @ ys) rest cw =
     (case visit out xs rest cw of (Inr (False, rest), cw) \<Rightarrow> visit out ys rest cw | r \<Rightarrow> r)"
  by (induction out xs rest cw rule: visit.induct) (auto split: prod.splits sum.splits)

lemma backward_items_visit:
  "backward_items out eidx cis rest (c, s) =
     (case visit out (filter (\<lambda>ci. ci_cno ci < eidx) cis) rest (c, l_env s) of (r, c', w) \<Rightarrow> (r, c', s\<lparr>l_env := w\<rparr>))"
proof (induction cis arbitrary: rest c s)
  case (Cons ci cis)
  show ?case
  proof (cases "ci_cno ci < eidx")
    case False
    then show ?thesis using Cons [of rest c s] by (simp add: not_less leD)
  next
    case True
    then have nle: "\<not> eidx \<le> ci_cno ci" by simp
    obtain r c1 w1 where o1: "out ci (c, l_env s) = (r, c1, w1)" by (cases "out ci (c, l_env s)") auto
    have r1: "call_out out ci (c, s) = (r, c1, s\<lparr>l_env := w1\<rparr>)" using o1 by (simp add: call_out_def)
    show ?thesis
    proof (cases r)
      case (Inl e)
      then show ?thesis using True nle o1 r1 by simp
    next
      case (Inr n)
      then show ?thesis
        using True nle o1 r1 Cons [of rest c1 "s\<lparr>l_env := w1\<rparr>"] Cons [of "rest - 1" c1 "s\<lparr>l_env := w1\<rparr>"]
        by (simp split: prod.splits)
    qed
  qed
qed simp

section \<open>Windows of checkpoints\<close>

definition window :: "nilfs_cpinfo list \<Rightarrow> u64 \<Rightarrow> u64 \<Rightarrow> nilfs_cpinfo list" where
  "window cps a b = filter (\<lambda>c. a \<le> ci_cno c \<and> ci_cno c < b) cps"

definition from_cno :: "nilfs_cpinfo list \<Rightarrow> u64 \<Rightarrow> nilfs_cpinfo list" where
  "from_cno cps a = filter (\<lambda>c. a \<le> ci_cno c) cps"

definition below_cno :: "nilfs_cpinfo list \<Rightarrow> u64 \<Rightarrow> nilfs_cpinfo list" where
  "below_cno cps a = filter (\<lambda>c. ci_cno c < a) cps"

lemma sorted_split:
  assumes "sorted_wrt (\<lambda>a b. ci_cno a < ci_cno b) xs" "\<And>x y. ci_cno x \<le> ci_cno y \<Longrightarrow> P y \<Longrightarrow> P x"
  shows "xs = filter P xs @ filter (\<lambda>c. \<not> P c) xs"
  using assms(1)
proof (induction xs)
  case (Cons x xs)
  show ?case
  proof (cases "P x")
    case True
    then show ?thesis using Cons by simp
  next
    case False
    then have "\<forall>y \<in> set xs. \<not> P y" using Cons(2) assms(2) by (auto intro: less_imp_le)
    then have "filter P xs = []" "filter (\<lambda>c. \<not> P c) xs = xs" by (auto simp: filter_id_conv)
    then show ?thesis using False by simp
  qed
qed simp

lemma from_window:
  assumes "sorted_wrt (\<lambda>a b. ci_cno a < ci_cno b) cps" "a \<le> b"
  shows "from_cno cps a = window cps a b @ from_cno cps b"
proof -
  have "sorted_wrt (\<lambda>a b. ci_cno a < ci_cno b) (from_cno cps a)" using assms(1) by (simp add: from_cno_def sorted_wrt_filter)
  from sorted_split [OF this, of "\<lambda>c. ci_cno c < b"]
  have "from_cno cps a = filter (\<lambda>c. ci_cno c < b) (from_cno cps a) @ filter (\<lambda>c. \<not> ci_cno c < b) (from_cno cps a)" by force
  moreover have "filter (\<lambda>c. ci_cno c < b) (from_cno cps a) = window cps a b" by (auto simp: from_cno_def window_def intro: filter_cong)
  moreover have "filter (\<lambda>c. \<not> ci_cno c < b) (from_cno cps a) = from_cno cps b"
    using assms(2) by (auto simp: from_cno_def not_less intro: filter_cong order_trans)
  ultimately show ?thesis by simp
qed

lemma below_window:
  assumes "sorted_wrt (\<lambda>a b. ci_cno a < ci_cno b) cps" "a \<le> b"
  shows "below_cno cps b = below_cno cps a @ window cps a b"
proof -
  have "sorted_wrt (\<lambda>a b. ci_cno a < ci_cno b) (below_cno cps b)" using assms(1) by (simp add: below_cno_def sorted_wrt_filter)
  from sorted_split [OF this, of "\<lambda>c. ci_cno c < a"]
  have "below_cno cps b = filter (\<lambda>c. ci_cno c < a) (below_cno cps b) @ filter (\<lambda>c. \<not> ci_cno c < a) (below_cno cps b)" by force
  moreover have "filter (\<lambda>c. \<not> ci_cno c < a) (below_cno cps b) = window cps a b"
    by (auto simp: below_cno_def window_def not_less intro: filter_cong)
  moreover have "filter (\<lambda>c. ci_cno c < a) (below_cno cps b) = below_cno cps a"
    using assms(2) by (auto simp: below_cno_def intro: filter_cong less_le_trans)
  ultimately show ?thesis by simp
qed

text \<open>A window holds at most as many checkpoints as it has numbers.\<close>

lemma window_size:
  assumes "sorted_wrt (\<lambda>a b. ci_cno a < ci_cno b) cps" "a \<le> b"
  shows "length (window cps a b) \<le> unat (b - a)"
proof -
  let ?w = "window cps a b"
  have s: "sorted_wrt (\<lambda>a b. ci_cno a < ci_cno b) ?w" using assms(1) by (simp add: window_def sorted_wrt_filter)
  then have "sorted_wrt (<) (map ci_cno ?w)" by (simp add: sorted_wrt_map)
  then have "distinct (map ci_cno ?w)" by (simp add: strict_sorted_iff)
  then have "distinct (map (unat \<circ> ci_cno) ?w)" by (simp add: distinct_map inj_on_def flip: word_unat_eq_iff)
  then have "length ?w = card (set (map (unat \<circ> ci_cno) ?w))" by (metis distinct_card length_map)
  also have "\<dots> \<le> card {unat a ..< unat b}"
    by (intro card_mono) (auto simp: window_def word_le_nat_alt word_less_nat_alt)
  also have "\<dots> = unat (b - a)" using assms(2) by (simp add: unat_sub)
  finally show ?thesis .
qed


section \<open>The search as a visit\<close>

text \<open>
  The invariant of the search: between the end of the window and the previous head there is no
  checkpoint, some checkpoint lies at or behind the window, and in the normal state the window fits
  the buffer.
\<close>

definition back_inv :: "nilfs_cpinfo list \<Rightarrow> bsearch \<Rightarrow> bool" where
  "back_inv cps b \<longleftrightarrow> width_ok b
     \<and> (b_prev_head b = 0 \<or> from_cno cps (b_eidx b) \<noteq> [] \<and> b_prev_head b = ci_cno (hd (from_cno cps (b_eidx b))))
     \<and> (b_state b \<in> {ACCEL_ST, DECEL_ST} \<longrightarrow> b_prev_head b \<noteq> 0)
     \<and> (b_state b \<in> {INIT_ST, NORMAL_ST} \<longrightarrow> b_v b = enum_delta (b_rest b))
     \<and> (\<exists>c \<in> set cps. b_eidx b \<le> ci_cno c + 1 \<and> ci_cno c + 1 \<noteq> 0)"

definition back_result :: "nilfs_cpinfo list \<Rightarrow> ('c, 'w) callback \<Rightarrow> bsearch \<Rightarrow> 'c \<times> 'w \<Rightarrow> (errno + unit) \<times> 'c \<times> 'w" where
  "back_result cps out b cw = visited out (rev (below_cno cps (b_eidx b))) (b_rest b) cw"

lemma window_req:
  assumes "width_ok b" "NILFS_CNO_MIN < b_eidx b" "b_state b = NORMAL_ST" "b_v b = enum_delta (b_rest b)"
  shows "b_req_count b = b_eidx b - b_sidx b"
proof -
  note s = sidx_less [OF assms(1,2)]
  have "b_eidx b - b_sidx b \<le> b_v b"
  proof (cases "b_eidx b < NILFS_CNO_MIN + b_v b")
    case True
    then have "unat (b_eidx b) < 1 + unat (b_v b)"
      using unat_word_ariths(1) [of 1 "b_v b"] by (simp add: NILFS_CNO_MIN_def word_less_nat_alt)
    moreover have "unat (b_eidx b - b_sidx b) = unat (b_eidx b) - 1"
      using True s by (simp add: b_sidx_def NILFS_CNO_MIN_def unat_sub)
    ultimately show ?thesis by (simp add: word_le_nat_alt)
  next
    case False
    then show ?thesis using assms(3) by (simp add: b_sidx_def)
  qed
  then have "b_eidx b - b_sidx b \<le> NCPINFO" using assms(4) enum_delta_bounds(2) [of "b_rest b"] by (simp add: NCPINFO_def)
  then show ?thesis using assms(3) by (simp add: b_req_count_def min_def)
qed

lemma req_bound: "b_req_count b \<le> 512"
  by (simp add: b_req_count_def NCPINFO_def)

lemma req_one: "b_state b \<noteq> NORMAL_ST \<Longrightarrow> unat (b_req_count b) = 1"
  by (simp add: b_req_count_def NCPINFO_def min_def word_le_nat_alt)

text \<open>Nothing below the window's start is missed when the window turns out empty.\<close>

lemma empty_window:
  assumes "cp_laws k cps" "a \<le> b" "from_cno cps a \<noteq> []" "b \<le> ci_cno (hd (from_cno cps a))"
  shows "window cps a b = []" "from_cno cps a = from_cno cps b" "below_cno cps b = below_cno cps a"
proof -
  have so: "sorted_wrt (\<lambda>a b. ci_cno a < ci_cno b) cps" using assms(1) by (simp add: cp_laws_def)
  note f = from_window [OF so assms(2)]
  show w: "window cps a b = []"
  proof (rule ccontr)
    assume n: "window cps a b \<noteq> []"
    then have "hd (from_cno cps a) = hd (window cps a b)" using f by simp
    moreover have "hd (window cps a b) \<in> set (window cps a b)" using n by simp
    ultimately show False using assms(4) by (auto simp: window_def)
  qed
  show "from_cno cps a = from_cno cps b" using f w by simp
  show "below_cno cps b = below_cno cps a" using below_window [OF so assms(2)] w by simp
qed

lemma back_answer:
  assumes kl: "cp_laws k cps" and lib: "cp_lib cps s" and inv: "back_inv cps b" and e: "NILFS_CNO_MIN < b_eidx b"
  obtains s' where "nilfs_get_cpinfo k (b_sidx b) NILFS_CHECKPOINT (b_req_count b) s
      = (Inr (take (unat (b_req_count b)) (from_cno cps (b_sidx b))), s')"
    "cp_lib cps s'" "l_env s' = l_env s" "from_cno cps (b_sidx b) \<noteq> []" "0 < unat (b_req_count b)"
proof -
  have w: "width_ok b" using inv by (simp add: back_inv_def)
  note sl = sidx_less [OF w e]
  obtain c where c: "c \<in> set cps" "b_eidx b \<le> ci_cno c + 1" "ci_cno c + 1 \<noteq> 0" using inv by (auto simp: back_inv_def)
  have "unat (ci_cno c + 1) = unat (ci_cno c) + 1" using unatSuc [of "ci_cno c"] c(3) by (simp add: add.commute)
  then have "b_sidx b \<le> ci_cno c" using sl(2) c(2) by (simp add: word_le_nat_alt word_less_nat_alt)
  then have ne: "from_cno cps (b_sidx b) \<noteq> []" using c(1) by (auto simp: from_cno_def filter_empty_conv)
  have "0 < unat (b_req_count b)"
  proof (cases "b_state b = NORMAL_ST")
    case True
    then have "b_req_count b = b_eidx b - b_sidx b" using window_req [OF w e] inv by (simp add: back_inv_def)
    then show ?thesis using sl(2) by (simp add: unat_gt_0)
  qed (simp add: req_one)
  then show ?thesis
    using get_cpinfo_lawful [OF kl lib sl(1) req_bound] that ne by (metis from_cno_def)
qed


text \<open>The rounds that look but do not touch.\<close>

lemma back_look_sound:
  assumes kl: "cp_laws k cps" and inv: "back_inv cps b" and e: "NILFS_CNO_MIN < b_eidx b"
    and cis: "cis = take (unat (b_req_count b)) (from_cno cps (b_sidx b))" "from_cno cps (b_sidx b) \<noteq> []" "0 < unat (b_req_count b)"
    and l: "back_look b cis = Some r"
  shows "case r of None \<Rightarrow> below_cno cps (b_eidx b) = []
    | Some b' \<Rightarrow> back_inv cps b' \<and> below_cno cps (b_eidx b') = below_cno cps (b_eidx b) \<and> b_rest b' = b_rest b"
proof -
  have w: "width_ok b" using inv by (simp add: back_inv_def)
  note sl = sidx_less [OF w e]
  have wn: "r = Some b' \<Longrightarrow> width_ok b'" for b' using back_look_next [OF _ w e] l by blast
  have hd: "hd cis = hd (from_cno cps (b_sidx b))" using cis by (simp add: hd_take)
  have one: "below_cno cps NILFS_CNO_MIN = []"
    using kl by (auto simp: below_cno_def cp_laws_def NILFS_CNO_MIN_def filter_empty_conv word_less_nat_alt unat_gt_0)
  have init: "b_state b = INIT_ST \<Longrightarrow> b_sidx b = NILFS_CNO_MIN" by (simp add: b_sidx_def)
  have gt: "b_eidx b \<le> ci_cno (hd cis) \<Longrightarrow> below_cno cps (b_eidx b) = below_cno cps (b_sidx b)
      \<and> from_cno cps (b_eidx b) = from_cno cps (b_sidx b)"
    using empty_window [OF kl less_imp_le [OF sl(2)] cis(2)] hd by auto
  have pg: "b_eidx b \<le> ci_cno (hd cis)" if "ci_cno (hd cis) = b_prev_head b"
  proof -
    have "ci_cno (hd cis) \<noteq> 0" using kl cis(2) hd hd_in_set [OF cis(2)] by (auto simp: cp_laws_def from_cno_def)
    then have "from_cno cps (b_eidx b) \<noteq> []" "b_prev_head b = ci_cno (hd (from_cno cps (b_eidx b)))"
      using inv that by (auto simp: back_inv_def)
    then show ?thesis using that hd_in_set by (fastforce simp: from_cno_def)
  qed
  have le: "\<exists>c \<in> set cps. b_sidx b \<le> ci_cno c + 1 \<and> ci_cno c + 1 \<noteq> 0"
    using inv sl(2) unfolding back_inv_def by (meson less_le_trans order.strict_implies_order)
  show ?thesis
  proof (cases "b_state b = INIT_ST")
    case True
    then show ?thesis using l gt init one inv wn by (auto simp: back_look_def Let_def back_inv_def)
  next
    case ni: False
    show ?thesis
    proof (cases "ci_cno (hd cis) = b_prev_head b")
      case True
      have "b_prev_head b \<noteq> 0" using True kl cis(2) hd hd_in_set [OF cis(2)] by (auto simp: cp_laws_def from_cno_def)
      then show ?thesis
        using l True ni gt [OF pg [OF True]] one inv wn le hd
        by (auto simp: back_look_def Let_def back_inv_def split: if_splits)
    next
      case False
      then show ?thesis
        using l ni inv wn by (auto simp: back_look_def Let_def back_inv_def split: if_splits)
    qed
  qed
qed

text \<open>The rounds that process their answer see the checkpoints of the window and no others.\<close>

lemma back_look_process:
  assumes kl: "cp_laws k cps" and inv: "back_inv cps b" and e: "NILFS_CNO_MIN < b_eidx b"
    and cis: "cis = take (unat (b_req_count b)) (from_cno cps (b_sidx b))" "from_cno cps (b_sidx b) \<noteq> []" "0 < unat (b_req_count b)"
    and l: "back_look b cis = None"
  shows "filter (\<lambda>c. ci_cno c < b_eidx b) cis = window cps (b_sidx b) (b_eidx b)"
proof -
  let ?w = "window cps (b_sidx b) (b_eidx b)" and ?f = "from_cno cps (b_eidx b)"
  have so: "sorted_wrt (\<lambda>a b. ci_cno a < ci_cno b) cps" using kl by (simp add: cp_laws_def)
  have w: "width_ok b" using inv by (simp add: back_inv_def)
  note sl = sidx_less [OF w e]
  note fw = from_window [OF so less_imp_le [OF sl(2)]]
  have fl: "filter (\<lambda>c. ci_cno c < b_eidx b) ?w = ?w" "filter (\<lambda>c. ci_cno c < b_eidx b) (take n ?f) = []" for n
    by (auto simp: window_def from_cno_def filter_empty_conv dest!: in_set_takeD)
  have hd: "hd cis = hd (from_cno cps (b_sidx b))" using cis by (simp add: hd_take)
  have all: ?thesis if "length ?w \<le> unat (b_req_count b)"
    using that fl by (simp add: cis(1) fw)
  have ni: "b_state b \<noteq> INIT_ST" using l by (auto simp: back_look_def Let_def)
  show ?thesis
  proof (cases "b_state b = NORMAL_ST")
    case True
    then have "b_req_count b = b_eidx b - b_sidx b" using window_req [OF w e] inv by (simp add: back_inv_def)
    then show ?thesis using window_size [OF so less_imp_le [OF sl(2)]] all by simp
  next
    case False
    then have st: "b_state b = ACCEL_ST \<or> b_state b = DECEL_ST" using ni by (cases "b_state b") auto
    then have p: "?f \<noteq> []" "b_prev_head b = ci_cno (hd ?f)" "b_prev_head b \<noteq> 0" using inv by (auto simp: back_inv_def)
    have c1: "cis = [hd (from_cno cps (b_sidx b))]" using cis req_one [OF False] by (cases "from_cno cps (b_sidx b)") auto
    have ne: "ci_cno (hd cis) \<noteq> b_prev_head b" "\<not> ci_cno (hd cis) + 1 < b_prev_head b"
      using l st ni c1 by (auto simp: back_look_def Let_def split: if_splits)
    have "length ?w \<le> 1"
    proof (rule ccontr)
      assume "\<not> length ?w \<le> 1"
      then obtain x y ys where xy: "?w = x # y # ys" by (metis One_nat_def Suc_le_mono bot_nat_0.extremum length_Cons list.exhaust list.size(3))
      then have x: "hd cis = x" using hd fw by simp
      have "x \<in> set ?w" "y \<in> set ?w" using xy by simp_all
      then have lt: "ci_cno y < b_eidx b" by (simp add: window_def)
      have "sorted_wrt (\<lambda>a b. ci_cno a < ci_cno b) ?w" using so by (simp add: window_def sorted_wrt_filter)
      then have xl: "ci_cno x < ci_cno y" using xy by simp
      have ge: "b_eidx b \<le> b_prev_head b" using p hd_in_set [OF p(1)] by (simp add: from_cno_def)
      have "unat (ci_cno x) + 1 < unat (b_prev_head b)" using xl lt ge by (simp add: word_less_nat_alt word_le_nat_alt)
      moreover from this have "unat (ci_cno x + 1) = unat (ci_cno x) + 1"
        using unat_lt_u64 [of "b_prev_head b"] unat_add_u64 [of "ci_cno x" 1] by simp
      ultimately show False using ne(2) x by (simp add: word_less_nat_alt)
    qed
    then show ?thesis using all req_one [OF False] by simp
  qed
qed


lemma visited_done: "visited out [] rest cw = (Inr (), cw)"
  by (simp add: visited_def)

lemma back_step_sound:
  assumes kl: "cp_laws k cps" and lib: "cp_lib cps s" and inv: "back_inv cps b"
  shows "case back_step k out b (c, s) of
      Inl (r, c', s') \<Rightarrow> (r, c', l_env s') = back_result cps out b (c, l_env s)
    | Inr (b', c', s') \<Rightarrow> back_inv cps b' \<and> cp_lib cps s'
        \<and> back_result cps out b' (c', l_env s') = back_result cps out b (c, l_env s)"
proof (cases "NILFS_CNO_MIN < b_eidx b")
  case False
  then have le: "unat (b_eidx b) \<le> 1" by (simp add: NILFS_CNO_MIN_def word_less_nat_alt)
  have "below_cno cps (b_eidx b) = []"
  proof (rule ccontr)
    assume "below_cno cps (b_eidx b) \<noteq> []"
    then obtain x where "x \<in> set cps" "ci_cno x < b_eidx b" by (auto simp: below_cno_def filter_empty_conv)
    then have "ci_cno x = 0" "x \<in> set cps" using le by (simp_all add: word_less_nat_alt unat_eq_zero [symmetric])
    then show False using kl by (simp add: cp_laws_def)
  qed
  then show ?thesis using False by (simp add: back_step_def back_result_def visited_done)
next
  case e: True
  have w: "width_ok b" using inv by (simp add: back_inv_def)
  note sl = sidx_less [OF w e]
  obtain s1 where g: "nilfs_get_cpinfo k (b_sidx b) NILFS_CHECKPOINT (b_req_count b) s
      = (Inr (take (unat (b_req_count b)) (from_cno cps (b_sidx b))), s1)"
    and s1: "cp_lib cps s1" "l_env s1 = l_env s" and ne: "from_cno cps (b_sidx b) \<noteq> []" "0 < unat (b_req_count b)"
    by (rule back_answer [OF kl lib inv e])
  define cis where "cis = take (unat (b_req_count b)) (from_cno cps (b_sidx b))"
  have cn: "cis \<noteq> []" "hd cis = hd (from_cno cps (b_sidx b))" using ne by (auto simp: cis_def hd_take)
  show ?thesis
  proof (cases "back_look b cis")
    case (Some r)
    note lk = back_look_sound [OF kl inv e cis_def ne Some]
    show ?thesis
    proof (cases r)
      case None
      then show ?thesis
        using lk Some e g cn s1 by (simp add: back_step_def back_result_def visited_done flip: cis_def)
    next
      case (Some b')
      then show ?thesis
        using lk \<open>back_look b cis = Some r\<close> e g cn s1 by (simp add: back_step_def back_result_def flip: cis_def)
    qed
  next
    case None
    note pr = back_look_process [OF kl inv e cis_def ne None]
    have so: "sorted_wrt (\<lambda>a b. ci_cno a < ci_cno b) cps" using kl by (simp add: cp_laws_def)
    have rb: "rev (below_cno cps (b_eidx b)) = rev (window cps (b_sidx b) (b_eidx b)) @ rev (below_cno cps (b_sidx b))"
      using below_window [OF so less_imp_le [OF sl(2)]] by simp
    have ff: "filter (\<lambda>ci. ci_cno ci < b_eidx b) (rev cis) = rev (window cps (b_sidx b) (b_eidx b))"
      using pr by (simp flip: rev_filter)
    obtain r c1 w1 where v: "visit out (rev (window cps (b_sidx b) (b_eidx b))) (b_rest b) (c, l_env s) = (r, c1, w1)"
      by (metis prod_cases3)
    have bi: "backward_items out (b_eidx b) (rev cis) (b_rest b) (c, s1) = (r, c1, s1\<lparr>l_env := w1\<rparr>)"
      using v s1(2) by (simp add: backward_items_visit ff)
    have lib1: "cp_lib cps (s1\<lparr>l_env := w1\<rparr>)" using s1(1) by (simp add: cp_lib_def)
    have le: "\<exists>c \<in> set cps. b_sidx b \<le> ci_cno c + 1 \<and> ci_cno c + 1 \<noteq> 0"
      using inv sl(2) unfolding back_inv_def by (meson less_le_trans order.strict_implies_order)
    have inv': "back_inv cps \<lparr>b_eidx = b_sidx b, b_prev_head = ci_cno (hd cis), b_state = NORMAL_ST,
                             b_v = enum_delta rest, b_rest = rest\<rparr>" for rest
      using le ne cn enum_delta_ok by (simp add: back_inv_def width_ok_def)
    have br: "back_result cps out b (c, l_env s) = (case r of Inl e \<Rightarrow> (Inl e, c1, w1)
        | Inr (fin, rest) \<Rightarrow> if fin then (Inr (), c1, w1) else visited out (rev (below_cno cps (b_sidx b))) rest (c1, w1))"
      by (simp add: back_result_def visited_def rb visit_append v split: sum.splits prod.splits bool.splits)
    show ?thesis
      using None e g cn bi inv' lib1 br
      by (simp add: back_step_def back_result_def flip: cis_def split: sum.splits prod.splits)
  qed
qed

lemma enum_backward_visits:
  assumes "cp_laws k cps" "cp_lib cps s" "back_inv cps b"
  shows "\<exists>r c' s'. enum_backward k out b (c, s) = Some (r, c', s') \<and> (r, c', l_env s') = back_result cps out b (c, l_env s)"
  using assms(2,3)
proof (induction "back_measure b" arbitrary: b c s rule: wf_induct_rule [OF wf_lex_prod [OF wf_less_than wf_less_than]])
  case 1
  note so = back_step_sound [OF assms(1) 1(2,3), of out c]
  show ?case
  proof (cases "back_step k out b (c, s)")
    case (Inl r)
    then show ?thesis using so by (cases r) (simp add: enum_backward.simps)
  next
    case (Inr x)
    then obtain b' c' s' where s: "back_step k out b (c, s) = Inr (b', c', s')" by (metis prod_cases3)
    then have "(back_measure b', back_measure b) \<in> less_than <*lex*> less_than"
      using back_step_next 1(3) by (metis back_inv_def)
    then show ?thesis
      using 1(1) [of b' s' c'] so s by (simp add: enum_backward.simps [of k out b])
  qed
qed

text \<open>C26. Enumerating checkpoints backward, with its accelerating and decelerating windows, shows the
  callback every checkpoint up to the start number, each once and latest first, until it is told to
  stop, as long as the set of checkpoints does not change and the latest one exists. The number of
  kernel calls does not matter: gaps of any size between checkpoints are crossed.\<close>

theorem enum_backward_complete:
  assumes "cp_laws k cps" "cp_lib cps s" "fst (k_malloc k (sizeof_cpinfo * NCPINFO) (l_env s)) \<noteq> None"
    and "\<exists>c \<in> set cps. ci_cno c + 1 = cs_cno cpstat" "cs_cno cpstat \<noteq> 0" "enum_rest cpstat opt_count \<noteq> 0"
  shows "\<exists>r c' s'. nilfs_enum_cpinfo_backward k cpstat opt_start opt_count out (c, s) = (r, c', s')
    \<and> (r, c', l_env s') = visited out
        (rev (filter (\<lambda>ci. opt_start \<noteq> 0 \<and> opt_start < cs_cno cpstat \<longrightarrow> ci_cno ci \<le> opt_start) 
             (filter (\<lambda>ci. ci_cno ci < cs_cno cpstat) cps)))
        (enum_rest cpstat opt_count) (c, snd (k_malloc k (sizeof_cpinfo * NCPINFO) (l_env s)))"
proof -
  define eidx where "eidx = (if opt_start \<noteq> 0 \<and> opt_start < cs_cno cpstat then opt_start + 1 else cs_cno cpstat)"
  let ?b = "\<lparr>b_eidx = eidx, b_prev_head = 0, b_state = INIT_ST, b_v = enum_delta (enum_rest cpstat opt_count),
             b_rest = enum_rest cpstat opt_count\<rparr>"
  obtain w where al: "lib_alloc k (sizeof_cpinfo * NCPINFO) s = (True, s\<lparr>l_env := w\<rparr>)" "w = snd (k_malloc k (sizeof_cpinfo * NCPINFO) (l_env s))"
    using assms(3) by (cases "k_malloc k (sizeof_cpinfo * NCPINFO) (l_env s)") (auto simp: lib_alloc_def)
  have le: "opt_start + 1 \<le> cs_cno cpstat" "unat (opt_start + 1) = unat opt_start + 1" if "opt_start < cs_cno cpstat"
  proof -
    show u: "unat (opt_start + 1) = unat opt_start + 1"
      using that unat_lt_u64 [of "cs_cno cpstat"] unat_add_u64 [of opt_start 1] by (simp add: word_less_nat_alt)
    then show "opt_start + 1 \<le> cs_cno cpstat" using that by (simp add: word_less_nat_alt word_le_nat_alt)
  qed
  have lib: "cp_lib cps (s\<lparr>l_env := w\<rparr>)" using assms(2) by (simp add: cp_lib_def)
  have "eidx \<le> cs_cno cpstat" using le by (auto simp: eidx_def)
  then have "\<exists>c \<in> set cps. eidx \<le> ci_cno c + 1 \<and> ci_cno c + 1 \<noteq> 0" using assms(4,5) by metis
  then have inv: "back_inv cps ?b" using enum_delta_ok by (simp add: back_inv_def width_ok_def)
  have bl: "below_cno cps eidx = filter (\<lambda>ci. opt_start \<noteq> 0 \<and> opt_start < cs_cno cpstat \<longrightarrow> ci_cno ci \<le> opt_start)
             (filter (\<lambda>ci. ci_cno ci < cs_cno cpstat) cps)"
    unfolding below_cno_def filter_filter
    using le by (intro filter_cong refl) (auto simp: eidx_def word_less_nat_alt word_le_nat_alt)
  show ?thesis
    using enum_backward_visits [OF assms(1) lib inv, of out c] al assms(6)
    by (auto simp: nilfs_enum_cpinfo_backward_def Let_def back_result_def bl simp flip: eidx_def)
qed


definition demo_cp :: "u64 \<Rightarrow> u64 \<Rightarrow> nilfs_cpinfo" where
  "demo_cp cno t = \<lparr>ci_flags = 0, ci_cno = cno, ci_create = t, ci_nblk_inc = 0, ci_inodes_count = 0,
     ci_blocks_count = 0, ci_next = 0\<rparr>"

definition demo_cps :: "nilfs_cpinfo list" where
  "demo_cps = [demo_cp 2 100, demo_cp 7 160, demo_cp 90000 200]"

definition demo_cp_kernel :: "'w kernel" where
  "demo_cp_kernel = null_kernel
     \<lparr>k_get_cpinfo := (\<lambda>fd a w. (Inr (take (unat (v_nmembs a)) (filter (\<lambda>c. v_index a \<le> ci_cno c) demo_cps)), w)),
      k_get_cpstat := (\<lambda>fd w. (Inr \<lparr>cs_cno = 90001, cs_ncps = 3, cs_nsss = 0\<rparr>, w)),
      k_clock_gettime := (\<lambda>c w. (Inr 210, w))\<rparr>"

lemma demo_cp_calls:
  "k_get_cpinfo demo_cp_kernel fd a w = (Inr (take (unat (v_nmembs a)) (filter (\<lambda>c. v_index a \<le> ci_cno c) demo_cps)), w)"
  "k_malloc demo_cp_kernel n w = (Some 0, w)" "k_get_cpstat demo_cp_kernel fd w = (Inr \<lparr>cs_cno = 90001, cs_ncps = 3, cs_nsss = 0\<rparr>, w)"
  "k_clock_gettime demo_cp_kernel c w = (Inr 210, w)"
  by (simp_all add: demo_cp_kernel_def null_kernel_def)

lemma demo_cp_laws: "cp_laws demo_cp_kernel demo_cps" "cp_lib demo_cps (demo_lib w)"
  by (auto simp: cp_laws_def demo_cps_def demo_cp_def demo_cp_calls cp_lib_def demo_lib_def word_less_nat_alt word_le_nat_alt)

theorem enum_backward_complete_witness:
  "\<exists>c' s'. nilfs_enum_cpinfo_backward demo_cp_kernel \<lparr>cs_cno = 90001, cs_ncps = 3, cs_nsss = 0\<rparr> 0 0
     (\<lambda>ci (c, w). (Inr 1, c @ [ci_cno ci], w)) ([], demo_lib ()) = (Inr (), c', s') \<and> c' = [90000, 7, 2]"
proof -
  let ?st = "\<lparr>cs_cno = 90001, cs_ncps = 3, cs_nsss = 0\<rparr> :: nilfs_cpstat"
  have l: "cp_laws (demo_cp_kernel :: unit kernel) demo_cps" by (rule demo_cp_laws)
  have lib: "cp_lib demo_cps (demo_lib ())" by (rule demo_cp_laws)
  have m: "fst (k_malloc demo_cp_kernel (sizeof_cpinfo * NCPINFO) (l_env (demo_lib ()))) \<noteq> None" by (simp add: demo_cp_calls)
  have e: "\<exists>c \<in> set demo_cps. ci_cno c + 1 = cs_cno ?st" by (simp add: demo_cps_def demo_cp_def)
  have f: "filter (\<lambda>ci. ci_cno ci < cs_cno ?st) demo_cps = demo_cps"
    by (simp add: demo_cps_def demo_cp_def word_less_nat_alt)
  have v: "visited (\<lambda>ci (c, w). (Inr 1, c @ [ci_cno ci], w)) (rev demo_cps) (enum_rest ?st 0) ([], w) = (Inr (), [90000, 7, 2], w)"
    for w :: unit
    by (simp add: visited_def demo_cps_def demo_cp_def enum_rest_def)
  show ?thesis
    using enum_backward_complete [OF l lib m e, of 0 0 "\<lambda>ci (c, w). (Inr 1, c @ [ci_cno ci], w)" "[]"] f v
    by (auto simp: enum_rest_def)
qed

text \<open>C29. Whatever the kernel answers, the backward search for checkpoints comes to an end.\<close>

theorem enum_backward_terminates:
  "\<exists>r. enum_backward k out \<lparr>b_eidx = eidx, b_prev_head = 0, b_state = INIT_ST, b_v = enum_delta rest, b_rest = rest\<rparr> st = Some r"
  by (rule enum_backward_total) (simp add: width_ok_def enum_delta_ok)

end
