(* ===== verification/Cnormap_Hist.thy ===== *)
theory Cnormap_Hist
  imports Cnormap
begin

text \<open>
  The invariant of the checkpoint history of \<open>src/lib/cnormap.c\<close>: the elapsed time kept in the mapper
  is the time its spans cover, through scans in both directions, searches and failures.
\<close>

section \<open>The time a history covers\<close>

text \<open>
  The time between the first and the last checkpoint of a history, latest span first: the widths of
  the spans and the gaps between them. The mapper maintains this sum incrementally.
\<close>

fun hist_time :: "nilfs_cpspan list \<Rightarrow> u64" where
  "hist_time [] = 0"
| "hist_time [sp] = span_width sp"
| "hist_time (sp # sq # sps) = span_width sp + gap_of_spans (ct_time (sp_end sq)) (ct_time (sp_start sp)) + hist_time (sq # sps)"

definition sane_time :: "u64 \<Rightarrow> bool" where
  "sane_time t \<longleftrightarrow> unat t < 2 ^ 63"

definition sane_span :: "nilfs_cpspan \<Rightarrow> bool" where
  "sane_span sp \<longleftrightarrow> sane_time (ct_time (sp_start sp)) \<and> sane_time (ct_time (sp_end sp))"

definition map_ok :: "nilfs_cnormap \<Rightarrow> bool" where
  "map_ok c \<longleftrightarrow> vector_inv (cphist c) \<and> (\<forall>sp \<in> set (vlist (cphist c)). sane_span sp)
     \<and> cphist_elapsed_time c = hist_time (vlist (cphist c))"

definition sane_times :: "'w kernel \<Rightarrow> bool" where
  "sane_times k \<longleftrightarrow> (\<forall>fd a w cis w'. k_get_cpinfo k fd a w = (Inr cis, w') \<longrightarrow> (\<forall>ci \<in> set cis. sane_time (ci_create ci)))"

lemma gap_sane:
  assumes "sane_time a" "sane_time b" "a \<le> b"
  shows "gap_of_spans a b = b - a"
proof -
  have "sint x = int (unat x)" if "sane_time x" for x
  proof -
    have "int (unat x) < int (2 ^ 63)" using that unfolding sane_time_def by (simp only: of_nat_less_iff)
    then have "uint x < 2 ^ 63" unfolding uint_nat by simp
    moreover have "- (2 ^ 63) \<le> uint x" by (rule order_trans [of _ 0]) simp_all
    ultimately have "signed_take_bit 63 (uint x) = uint x" by (intro signed_take_bit_int_eq_self)
    moreover have "sint x = signed_take_bit 63 (uint x)" by (simp add: sint_uint)
    ultimately show ?thesis unfolding uint_nat [symmetric] by (rule trans [rotated])
  qed
  then show ?thesis using assms by (simp add: gap_of_spans_def word_le_def)
qed

lemma hist_time_snoc: "xs \<noteq> [] \<Longrightarrow>
    hist_time (xs @ [sp]) = hist_time xs + gap_of_spans (ct_time (sp_end sp)) (ct_time (sp_start (last xs))) + span_width sp"
  by (induction xs rule: hist_time.induct) (auto simp: algebra_simps)

lemma hist_time_cons: "xs \<noteq> [] \<Longrightarrow>
    hist_time (sp # xs) = span_width sp + gap_of_spans (ct_time (sp_end (hd xs))) (ct_time (sp_start sp)) + hist_time xs"
  by (cases xs) auto

text \<open>Moving an end point of the last or the first span.\<close>

lemma hist_time_move_last:
  assumes "ct_time (sp_end sp') = ct_time (sp_end sp)"
  shows "hist_time (xs @ [sp']) = hist_time (xs @ [sp]) + (ct_time (sp_start sp) - ct_time (sp_start sp'))"
  using assms by (cases "xs = []") (simp_all add: hist_time_snoc span_width_def)

lemma hist_time_move_first:
  assumes "ct_time (sp_start sp') = ct_time (sp_start sp)"
  shows "hist_time (sp' # xs) = hist_time (sp # xs) + (ct_time (sp_end sp') - ct_time (sp_end sp))"
  using assms by (cases xs) (simp_all add: span_width_def)


text \<open>What a callback keeps on every sane checkpoint, an enumeration keeps.\<close>

lemma get_cpinfo_sane:
  assumes "sane_times k" "nilfs_get_cpinfo k cno mode n s = (Inr cis, s')"
  shows "\<forall>ci \<in> set cis. sane_time (ci_create ci)"
proof -
  obtain fd a w w' where "k_get_cpinfo k fd a w = (Inr cis, w')"
    using assms(2) by (auto simp: nilfs_get_cpinfo_def Let_def bindE_def liftK_def split: if_splits prod.splits sum.splits)
  then show ?thesis using assms(1) unfolding sane_times_def by blast
qed

definition keeps :: "('c \<Rightarrow> bool) \<Rightarrow> ('c, 'w) callback \<Rightarrow> bool" where
  "keeps P out \<longleftrightarrow> (\<forall>ci c w r c' w'. sane_time (ci_create ci) \<longrightarrow> P c \<longrightarrow> out ci (c, w) = (r, c', w') \<longrightarrow> P c')"

lemma call_out_keeps:
  assumes "keeps P out" "sane_time (ci_create ci)" "P (fst st)" "call_out out ci st = (r, st')"
  shows "P (fst st')"
proof -
  obtain c s where st: "st = (c, s)" by (rule prod.exhaust)
  obtain q c1 w1 where o1: "out ci (c, l_env s) = (q, c1, w1)" by (metis prod_cases3)
  have "P c1" using assms(1,2,3) o1 st unfolding keeps_def by (metis fst_conv)
  then show ?thesis using assms(4) st o1 by (auto simp: call_out_def)
qed

lemma forward_items_keeps:
  assumes "keeps P out" "\<forall>ci \<in> set cis. sane_time (ci_create ci)" "P (fst st)" "forward_items out cis rest st = (r, st')"
  shows "P (fst st')"
  using assms
proof (induction out cis rest st rule: forward_items.induct)
  case (2 out ci cis rest st)
  obtain q st1 where c: "call_out out ci st = (q, st1)" by (rule prod.exhaust)
  have "P (fst st1)" using call_out_keeps [OF 2(3) _ 2(5) c] 2(4) by simp
  then show ?case using 2 c by (cases q) (auto split: if_splits)
qed simp

lemma backward_items_keeps:
  assumes "keeps P out" "\<forall>ci \<in> set cis. sane_time (ci_create ci)" "P (fst st)" "backward_items out eidx cis rest st = (r, st')"
  shows "P (fst st')"
  using assms
proof (induction out eidx cis rest st rule: backward_items.induct)
  case (2 out eidx ci cis rest st)
  obtain q st1 where c: "call_out out ci st = (q, st1)" by (rule prod.exhaust)
  have "P (fst st1)" using call_out_keeps [OF 2(4) _ 2(6) c] 2(5) by simp
  then show ?case using 2 c by (cases q) (auto split: if_splits)
qed simp

lemma enum_forward_keeps:
  assumes "enum_forward k out cno sidx rest st = Some r" "keeps P out" "sane_times k" "P (fst st)"
  shows "P (fst (snd r))"
  using assms
proof (induction rule: enum_forward.raw_induct [rotated, consumes 1])
  case (1 f k out cno sidx rest st r)
  show ?case
  proof (cases "rest > 0 \<and> sidx < cno")
    case False
    then show ?thesis using 1 by auto
  next
    case True
    obtain q s1 where g: "nilfs_get_cpinfo k sidx NILFS_CHECKPOINT (min rest NCPINFO) (snd st) = (q, s1)" by fastforce
    show ?thesis
    proof (cases q)
      case (Inl e)
      then show ?thesis using 1(2) True g 1(5) by auto
    next
      case (Inr cis)
      note sane = get_cpinfo_sane [OF 1(4) g [unfolded Inr]]
      show ?thesis
      proof (cases cis)
        case Nil
        then show ?thesis using 1(2) True g 1(5) Inr by auto
      next
        case (Cons ci cis')
        obtain q2 st2 where fi: "forward_items out cis rest (fst st, s1) = (q2, st2)" by (rule prod.exhaust)
        have "P (fst st2)" using forward_items_keeps [OF 1(3) sane _ fi] 1(5) by simp
        moreover have "r = (map_sum id (\<lambda>_. ()) q2, st2) \<or> (\<exists>cno' sidx' rest'. f k out cno' sidx' rest' st2 = Some r)"
          using 1(2) True g Inr Cons fi by (cases q2) (auto simp del: forward_items.simps split: if_splits)
        ultimately show ?thesis
        proof (elim disjE exE)
          fix cno' sidx' rest' assume "P (fst st2)" "f k out cno' sidx' rest' st2 = Some r"
          then show ?thesis using 1(1) [OF _ 1(3,4)] by blast
        qed simp
      qed
    qed
  qed
qed

lemma enum_backward_keeps:
  assumes "enum_backward k out b st = Some r" "keeps P out" "sane_times k" "P (fst st)"
  shows "P (fst (snd r))"
  using assms
proof (induction rule: enum_backward.raw_induct [rotated, consumes 1])
  case (1 f k out b st r)
  obtain c s where st: "st = (c, s)" by fastforce
  have step: "case back_step k out b st of Inl r \<Rightarrow> P (fst (snd r)) | Inr (b', st') \<Rightarrow> P (fst st')"
  proof (cases "nilfs_get_cpinfo k (b_sidx b) NILFS_CHECKPOINT (b_req_count b) s")
    case (Pair q s1)
    show ?thesis
    proof (cases q)
      case (Inl e)
      then show ?thesis using Pair 1(5) st by (simp add: back_step_def)
    next
      case (Inr cis)
      have sane: "\<forall>ci \<in> set (rev cis). sane_time (ci_create ci)" using get_cpinfo_sane [OF 1(4) Pair [unfolded Inr]] by simp
      obtain q2 st2 where fi: "backward_items out (b_eidx b) (rev cis) (b_rest b) (c, s1) = (q2, st2)" by (rule prod.exhaust)
      have "P (fst st2)" using backward_items_keeps [OF 1(3) sane _ fi] 1(5) st by simp
      then show ?thesis
        using Pair Inr 1(5) st fi by (auto simp: back_step_def split: option.splits sum.splits prod.splits)
    qed
  qed
  show ?case
  proof (cases "back_step k out b st")
    case (Inl x)
    then show ?thesis using 1(2) step by simp
  next
    case (Inr x)
    obtain b' st' where x: "x = (b', st')" by (rule prod.exhaust)
    have "f k out b' st' = Some r" using 1(2) Inr x by simp
    from 1(1) [OF this 1(3,4)] show ?thesis using step Inr x by simp
  qed
qed

lemma nilfs_enum_keeps:
  assumes "keeps P out" "sane_times k" "P c"
  shows "nilfs_enum_cpinfo_forward k cpstat a n out (c, s) = (r, c', s') \<Longrightarrow> P c'"
    and "nilfs_enum_cpinfo_backward k cpstat a n out (c, s) = (r, c', s') \<Longrightarrow> P c'"
  using assms enum_forward_keeps [of k out _ _ _ "(c, _)" "(r, c', s')" P] enum_backward_keeps [of k out _ "(c, _)" "(r, c', s')" P]
  by (auto simp: nilfs_enum_cpinfo_forward_def nilfs_enum_cpinfo_backward_def Let_def split: prod.splits bool.splits option.splits if_splits)

text \<open>
  The state of a backward scan: before the first checkpoint the history is empty, later the
  current span is the last one. Histories of $2^{32}$ and more spans, whose indices do not fit,
  are left aside.
\<close>

definition few_spans :: "nilfs_cnormap \<Rightarrow> bool" where
  "few_spans c \<longleftrightarrow> length (vlist (cphist c)) < 2 ^ 32"

definition back_scan_inv :: "nilfs_cnormap \<times> scan_ctx \<Rightarrow> bool" where
  "back_scan_inv = (\<lambda>(c, x). vector_inv (cphist c) \<and> (few_spans c \<longrightarrow>
     (if sc_state x = SCAN_INIT_ST then vlist (cphist c) = [] \<and> cphist_elapsed_time c = 0 \<and> sc_index x = 0
      else map_ok c \<and> vlist (cphist c) \<noteq> []
        \<and> (sc_state x = SCAN_NORMAL_ST \<longrightarrow> unat (sc_index x) = length (vlist (cphist c)) - 1))))"

lemma sane_single: "sane_time (ci_create ci) \<Longrightarrow> sane_span (single_span ci)"
  by (simp add: sane_span_def single_span_def)

lemma width_single: "span_width (single_span ci) = 0"
  by (simp add: span_width_def single_span_def)

lemma element_last:
  assumes "vector_inv v" "vlist v \<noteq> []" "length (vlist v) < 2 ^ 32" "unat i = length (vlist v) - 1"
  shows "nilfs_vector_get_element v i = Some (length (vlist v) - 1)" "slot v (length (vlist v) - 1) = last (vlist v)"
    "set_slot v (length (vlist v) - 1) sp = set_slot v (length (vlist v) - 1) sp"
    "vlist (set_slot v (length (vlist v) - 1) sp) = butlast (vlist v) @ [sp]"
proof -
  have "unat (ucast i :: u64) < unat (v_nelems v)" using assms by (simp add: length_0_conv [symmetric] del: length_0_conv)
  then show "nilfs_vector_get_element v i = Some (length (vlist v) - 1)"
    using assms(4) by (simp add: nilfs_vector_get_element_def word_less_nat_alt del: length_vlist)
  show "slot v (length (vlist v) - 1) = last (vlist v)"
    using assms(2) slot_vlist [of "length (vlist v) - 1" v] by (simp add: last_conv_nth del: length_vlist)
  show "vlist (set_slot v (length (vlist v) - 1) sp) = butlast (vlist v) @ [sp]"
    using assms(2) unfolding vlist_set_slot
    by (metis append_butlast_last_id length_butlast list_update_length)
qed simp

lemma push_steps:
  assumes "vector_push alloc junk v x w = (Inr v', w')" "vector_inv v"
  shows "vector_inv v'" "vlist v' = vlist v @ [x]"
  using vector_push_ok [OF assms(2,1)] by auto

lemma scan_backward_grows:
  assumes "nilfs_cpinfo_scan_backward k junk ci ((c, x), w) = (r, (c', x'), w')" "vector_inv (cphist c)"
  shows "vector_inv (cphist c') \<and> length (vlist (cphist c)) \<le> length (vlist (cphist c'))"
proof -
  have sl: "length (vlist (set_slot v i sp)) = length (vlist v)" for v :: "nilfs_cpspan nilfs_vector" and i sp
    by (simp add: vlist_set_slot del: length_vlist)
  show ?thesis
    using assms
    by (auto simp: nilfs_cpinfo_scan_backward_def Let_def sl simp del: length_vlist dest!: vector_push_ok [OF assms(2)]
        split: if_splits prod.splits sum.splits option.splits)
qed

lemma scan_backward_keeps: "keeps back_scan_inv (nilfs_cpinfo_scan_backward k junk)"
  unfolding keeps_def
proof (intro allI impI)
  fix ci cx and w :: 'a and r cx' w'
  assume t: "sane_time (ci_create ci)" and inv: "back_scan_inv cx"
    and st: "nilfs_cpinfo_scan_backward k junk ci (cx, w) = (r, cx', w')"
  obtain c x where cx: "cx = (c, x)" by (rule prod.exhaust)
  have vi: "vector_inv (cphist c)" using inv cx by (simp add: back_scan_inv_def)
  show "back_scan_inv cx'"
  proof (cases "sc_state x = SCAN_INIT_ST")
    case True
    show ?thesis
    proof (cases "vector_push (alloc_w k) junk (cphist c) (single_span ci) w")
      case (Pair q w1)
      show ?thesis
      proof (cases q)
        case (Inl e)
        then show ?thesis using st Pair True inv cx by (simp add: nilfs_cpinfo_scan_backward_def)
      next
        case (Inr v)
        note ps = push_steps [OF Pair [unfolded Inr] vi]
        have e: "few_spans (c\<lparr>cphist := v, cphist_elapsed_time := 0\<rparr>) \<Longrightarrow> vlist (cphist c) = [] \<and> sc_index x = 0"
          using inv cx True ps(2) by (simp add: back_scan_inv_def few_spans_def del: length_vlist)
        have mo: "few_spans (c\<lparr>cphist := v, cphist_elapsed_time := 0\<rparr>) \<Longrightarrow> map_ok (c\<lparr>cphist := v, cphist_elapsed_time := 0\<rparr>)"
          using e ps t by (simp add: map_ok_def sane_single width_single)
        obtain y where y: "cx' = (c\<lparr>cphist := v, cphist_elapsed_time := 0\<rparr>, y)" "sc_state y \<noteq> SCAN_INIT_ST" "sc_index y = sc_index x"
          using st Pair Inr True cx by (auto simp: nilfs_cpinfo_scan_backward_def Let_def split: if_splits)
        show ?thesis
          using mo e ps y by (auto simp: back_scan_inv_def)
      qed
    qed
  next
    case ni: False
    let ?v = "cphist c" and ?n = "length (vlist (cphist c)) - 1"
    have keep: "back_scan_inv (c, y)" if "y = x" for y using that inv cx by simp
    show ?thesis
    proof (cases "few_spans c \<and> sc_state x = SCAN_NORMAL_ST")
      case False
      show ?thesis
      proof (cases "few_spans c")
        case fs: True
        then have "sc_state x = SCAN_DONE_ST" using False ni by (cases "sc_state x") auto
        then have "cx' = cx" using st cx by (auto simp: nilfs_cpinfo_scan_backward_def split: option.splits)
        then show ?thesis using inv by simp
      next
        case nf: False
        obtain c' x' where cx': "cx' = (c', x')" by (rule prod.exhaust)
        note g = scan_backward_grows [OF st [unfolded cx cx'] vi]
        then have "\<not> few_spans c'" using nf unfolding few_spans_def by linarith
        then show ?thesis using g cx' by (simp add: back_scan_inv_def)
      qed
    next
      case True
      then have nm: "sc_state x = SCAN_NORMAL_ST" and fs: "few_spans c" by auto
      have mo: "map_ok c" "vlist ?v \<noteq> []" "unat (sc_index x) = ?n"
        using inv cx ni True by (auto simp: back_scan_inv_def)
      note el = element_last [OF vi mo(2) fs [unfolded few_spans_def] mo(3)]
      define sp where "sp = last (vlist ?v)"
      have ssp: "sane_span sp" using mo(1,2) by (simp add: map_ok_def sp_def)
      have et: "cphist_elapsed_time c = hist_time (butlast (vlist ?v) @ [sp])"
        using mo(1,2) by (simp add: map_ok_def sp_def)
      let ?put = "\<lambda>sp'. set_slot ?v ?n sp'"
      have put: "vector_inv (?put sp')" "vlist (?put sp') = butlast (vlist ?v) @ [sp']" for sp' using vi el(4) by auto
      have sb: "\<forall>s \<in> set (butlast (vlist ?v)). sane_span s" using mo(1) in_set_butlastD by (fastforce simp: map_ok_def)
      have lb: "length (butlast (vlist ?v) @ [sp']) = length (vlist ?v)" for sp' using mo(2) by (simp del: length_vlist)
      have step: "back_scan_inv (c\<lparr>cphist := ?put sp', cphist_elapsed_time := e\<rparr>, y)"
        if "sane_span sp'" "e = hist_time (butlast (vlist ?v) @ [sp'])" "sc_state y \<noteq> SCAN_INIT_ST" "sc_index y = sc_index x" for sp' e y
        using that put sb lb mo by (auto simp: back_scan_inv_def map_ok_def few_spans_def simp del: length_vlist)
      show ?thesis
      proof (cases "ci_create ci = ct_time (sp_start sp)")
        case eq: True
        let ?sp = "sp\<lparr>sp_start := (sp_start sp)\<lparr>ct_cno := ci_cno ci\<rparr>, approx_ncp := approx_ncp sp + 1\<rparr>"
        have "cx' = (c\<lparr>cphist := ?put ?sp, cphist_elapsed_time := cphist_elapsed_time c\<rparr>, x\<lparr>sc_min_incl_cno := ci_cno ci\<rparr>)"
          using st cx nm el eq by (auto simp: nilfs_cpinfo_scan_backward_def Let_def simp flip: sp_def simp del: length_vlist)
        moreover have "hist_time (butlast (vlist ?v) @ [?sp]) = hist_time (butlast (vlist ?v) @ [sp])"
          by (simp add: hist_time_move_last [of ?sp sp])
        ultimately show ?thesis
          using step [of ?sp "cphist_elapsed_time c" "x\<lparr>sc_min_incl_cno := ci_cno ci\<rparr>"] et [symmetric] ssp nm
          by (simp add: sane_span_def)
      next
        case ne: False
        define e where "e = cphist_elapsed_time c + gap_of_spans (ci_create ci) (ct_time (sp_start sp))"
        show ?thesis
        proof (cases "ci_create ci > ct_time (sp_start sp) \<or> approx_ncp sp \<ge> NCP_PER_SPAN")
          case np: True
          show ?thesis
          proof (cases "vector_push (alloc_w k) junk ?v (single_span ci) w")
            case (Pair q w1)
            show ?thesis
            proof (cases q)
              case (Inl er)
              then have "cx' = cx" using st cx nm el ne np Pair
                by (auto simp: nilfs_cpinfo_scan_backward_def Let_def simp flip: sp_def simp del: length_vlist)
              then show ?thesis using inv by simp
            next
              case (Inr v)
              note ps = push_steps [OF Pair [unfolded Inr] vi]
              obtain y where y: "cx' = (c\<lparr>cphist := v, cphist_elapsed_time := e\<rparr>, y)" "sc_state y \<noteq> SCAN_INIT_ST" "sc_index y = sc_index x + 1"
                using st cx nm el ne np Pair Inr
                by (auto simp: nilfs_cpinfo_scan_backward_def Let_def e_def simp flip: sp_def simp del: length_vlist split: if_splits)
              have "e = hist_time (vlist v)"
                using et mo(1,2) ps(2) by (simp add: e_def hist_time_snoc map_ok_def sp_def single_span_def span_width_def)
              moreover have "unat (sc_index x + 1) = length (vlist v) - 1" if "length (vlist v) < 2 ^ 32"
              proof -
                have "unat (sc_index x) + 1 < 2 ^ 32" using that mo(2,3) ps(2) by (cases "vlist ?v") (simp_all del: length_vlist)
                then have "unat (sc_index x + 1) = unat (sc_index x) + 1" by (simp add: unat_word_ariths)
                then show ?thesis using mo(2,3) ps(2) by (cases "vlist ?v") (simp_all del: length_vlist)
              qed
              ultimately show ?thesis
                using y ps mo(1) t by (auto simp: back_scan_inv_def map_ok_def few_spans_def sane_single simp del: length_vlist)
            qed
          qed
        next
          case ex: False
          then have lt: "ci_create ci \<le> ct_time (sp_start sp)" by (simp only: de_Morgan_disj not_less)
          let ?sp = "sp\<lparr>sp_start := \<lparr>ct_cno = ci_cno ci, ct_time = ci_create ci\<rparr>, approx_ncp := approx_ncp sp + 1\<rparr>"
          have "gap_of_spans (ci_create ci) (ct_time (sp_start sp)) = ct_time (sp_start sp) - ci_create ci"
            using gap_sane [OF t _ lt] ssp by (simp add: sane_span_def)
          then have "e = hist_time (butlast (vlist ?v) @ [?sp])"
            using et by (simp add: e_def hist_time_move_last [of ?sp sp])
          moreover obtain y where "cx' = (c\<lparr>cphist := ?put ?sp, cphist_elapsed_time := e\<rparr>, y)" "sc_state y \<noteq> SCAN_INIT_ST" "sc_index y = sc_index x"
            using st cx nm el ne ex
            by (auto simp: nilfs_cpinfo_scan_backward_def Let_def e_def simp flip: sp_def simp del: length_vlist split: if_splits)
          ultimately show ?thesis using step [of ?sp e y] ssp t by (simp add: sane_span_def)
        qed
      qed
    qed
  qed
qed

definition fwd_scan_inv :: "nilfs_cnormap \<times> scan_ctx \<Rightarrow> bool" where
  "fwd_scan_inv = (\<lambda>(c, x). map_ok c \<and> vlist (cphist c) \<noteq> [])"

lemma element_first:
  assumes "vector_inv v" "vlist v \<noteq> []"
  shows "nilfs_vector_get_element v 0 = Some 0" "slot v 0 = hd (vlist v)" "vlist (set_slot v 0 sp) = sp # tl (vlist v)"
proof -
  have "0 < v_nelems v" using assms length_vlist [OF assms(1)] by (simp add: unat_gt_0 [symmetric] word_less_nat_alt del: length_vlist) (metis length_greater_0_conv)
  then show "nilfs_vector_get_element v 0 = Some 0" by (simp add: nilfs_vector_get_element_def)
  show "slot v 0 = hd (vlist v)" using assms(2) slot_vlist [of 0 v] by (simp add: hd_conv_nth del: length_vlist)
  show "vlist (set_slot v 0 sp) = sp # tl (vlist v)" using assms(2) by (cases "vlist v") (simp_all add: vlist_set_slot)
qed

lemma insert_first:
  assumes "nilfs_vector_insert_element alloc junk v 0 w = (Inr (i, v'), w')" "vector_inv v"
  shows "vector_inv (set_slot v' i sp)" "vlist (set_slot v' i sp) = sp # vlist v"
proof -
  note io = insert_elements_ok [OF assms(2) assms(1) [unfolded nilfs_vector_insert_element_def]]
  then show "vector_inv (set_slot v' i sp)" by simp
  have "length (vlist v') = length (vlist v) + 1" "drop 1 (vlist v') = vlist v" using io by auto
  then show "vlist (set_slot v' i sp) = sp # vlist v" using io by (cases "vlist v'") (simp_all add: vlist_set_slot)
qed

lemma scan_forward_keeps: "keeps fwd_scan_inv (nilfs_cpinfo_scan_forward k junk)"
  unfolding keeps_def
proof (intro allI impI)
  fix ci cx and w :: 'a and r cx' w'
  assume t: "sane_time (ci_create ci)" and inv: "fwd_scan_inv cx"
    and st: "nilfs_cpinfo_scan_forward k junk ci (cx, w) = (r, cx', w')"
  obtain c x where cx: "cx = (c, x)" by (rule prod.exhaust)
  let ?v = "cphist c"
  have mo: "map_ok c" "vlist ?v \<noteq> []" and vi: "vector_inv ?v" using inv cx by (auto simp: fwd_scan_inv_def map_ok_def)
  note el = element_first [OF vi mo(2)]
  define sp where "sp = hd (vlist ?v)"
  have ssp: "sane_span sp" using mo by (simp add: map_ok_def sp_def)
  have et: "cphist_elapsed_time c = hist_time (sp # tl (vlist ?v))" using mo by (simp add: map_ok_def sp_def)
  have sb: "\<forall>s \<in> set (tl (vlist ?v)). sane_span s" using mo by (auto simp: map_ok_def dest: list.set_sel(2))
  have step: "fwd_scan_inv (c\<lparr>cphist := set_slot ?v 0 sp', cphist_elapsed_time := e\<rparr>, y)"
    if "sane_span sp'" "e = hist_time (sp' # tl (vlist ?v))" for sp' e y
    using that vi el(3) sb by (simp add: fwd_scan_inv_def map_ok_def)
  show "fwd_scan_inv cx'"
  proof (cases "sc_state x = SCAN_NORMAL_ST")
    case False
    then show ?thesis using st cx inv el(1) by (simp add: nilfs_cpinfo_scan_forward_def)
  next
    case nm: True
    show ?thesis
    proof (cases "ci_create ci = ct_time (sp_end sp)")
      case eq: True
      let ?sp = "sp\<lparr>sp_end := (sp_end sp)\<lparr>ct_cno := ci_cno ci\<rparr>, approx_ncp := approx_ncp sp + 1\<rparr>"
      have "cx' = (c\<lparr>cphist := set_slot ?v 0 ?sp, cphist_elapsed_time := cphist_elapsed_time c\<rparr>, x)"
        using st cx nm el eq by (simp add: nilfs_cpinfo_scan_forward_def Let_def flip: sp_def)
      moreover have "hist_time (?sp # tl (vlist ?v)) = hist_time (sp # tl (vlist ?v))"
        by (simp add: hist_time_move_first [of ?sp sp])
      ultimately show ?thesis
        using step [of ?sp "cphist_elapsed_time c" x] et [symmetric] ssp by (simp add: sane_span_def)
    next
      case ne: False
      define e where "e = cphist_elapsed_time c + gap_of_spans (ct_time (sp_end sp)) (ci_create ci)"
      show ?thesis
      proof (cases "ci_create ci < ct_time (sp_end sp) \<or> approx_ncp sp \<ge> NCP_PER_SPAN")
        case np: True
        show ?thesis
        proof (cases "nilfs_vector_insert_element (alloc_w k) junk ?v 0 w")
          case (Pair q w1)
          show ?thesis
          proof (cases q)
            case (Inl er)
            then show ?thesis using st cx nm el ne np Pair inv
              by (simp add: nilfs_cpinfo_scan_forward_def Let_def flip: sp_def)
          next
            case (Inr iv)
            obtain i v where iv: "iv = (i, v)" by (rule prod.exhaust)
            note ps = insert_first [OF Pair [unfolded Inr iv] vi, of "single_span ci"]
            obtain y where y: "cx' = (c\<lparr>cphist := set_slot v i (single_span ci), cphist_elapsed_time := e\<rparr>, y)"
              using st cx nm el ne np Pair Inr iv
              by (auto simp: nilfs_cpinfo_scan_forward_def Let_def e_def simp flip: sp_def split: if_splits)
            have "e = hist_time (single_span ci # vlist ?v)"
              using et mo(2) by (simp add: e_def hist_time_cons width_single sp_def) (simp add: single_span_def)
            then show ?thesis using y ps mo(1) t by (simp add: fwd_scan_inv_def map_ok_def sane_single)
          qed
        qed
      next
        case ex: False
        then have le: "ct_time (sp_end sp) \<le> ci_create ci" by (simp only: de_Morgan_disj not_less)
        let ?sp = "sp\<lparr>sp_end := \<lparr>ct_cno = ci_cno ci, ct_time = ci_create ci\<rparr>, approx_ncp := approx_ncp sp + 1\<rparr>"
        have "gap_of_spans (ct_time (sp_end sp)) (ci_create ci) = ci_create ci - ct_time (sp_end sp)"
          using gap_sane [OF _ t le] ssp by (simp add: sane_span_def)
        then have "e = hist_time (?sp # tl (vlist ?v))" using et by (simp add: e_def hist_time_move_first [of ?sp sp])
        moreover obtain y where "cx' = (c\<lparr>cphist := set_slot ?v 0 ?sp, cphist_elapsed_time := e\<rparr>, y)"
          using st cx nm el ne ex
          by (auto simp: nilfs_cpinfo_scan_forward_def Let_def e_def simp flip: sp_def split: if_splits)
        ultimately show ?thesis using step [of ?sp e y] ssp t by (simp add: sane_span_def)
      qed
    qed
  qed
qed

text \<open>Cutting off old spans.\<close>

lemma hist_time_take: "i < length xs \<Longrightarrow> i > 0 \<Longrightarrow> hist_time (take (Suc i) xs)
    = hist_time (take i xs) + gap_of_spans (ct_time (sp_end (xs ! i))) (ct_time (sp_start (xs ! (i - 1)))) + span_width (xs ! i)"
  using hist_time_snoc [of "take i xs" "xs ! i"]
  by (cases "xs = []") (simp_all add: take_Suc_conv_app_nth last_conv_nth min_def)

lemma element_nth:
  assumes "vector_inv v" "i < length (vlist v)" "length (vlist v) < 2 ^ 32"
  shows "nilfs_vector_get_element v (of_nat i) = Some i" "slot v i = vlist v ! i"
proof -
  have "unat (ucast (of_nat i :: u32) :: u64) = i" "unat (of_nat i :: u32) = i"
    using assms(2,3) by (simp_all add: unsigned_of_nat take_bit_nat_eq_self del: length_vlist)
  moreover have "i < unat (v_nelems v)" using assms(1,2) by simp
  ultimately show "nilfs_vector_get_element v (of_nat i) = Some i"
    by (simp add: nilfs_vector_get_element_def word_less_nat_alt)
  show "slot v i = vlist v ! i" using assms(2) by (simp add: slot_vlist)
qed

lemma search_loop_cut:
  assumes "cphist_search_loop v period i delta = Inr (j, delta', q)" "i < length (vlist v)" "vector_inv v" "length (vlist v) < 2 ^ 32"
    "delta = hist_time (vlist v) - hist_time (take (Suc i) (vlist v))"
  shows "j \<le> i \<and> delta' = hist_time (vlist v) - hist_time (take (Suc j) (vlist v))"
  using assms
proof (induction v period i delta rule: cphist_search_loop.induct)
  case (1 v period i delta)
  note sl = element_nth(2) [OF 1(4) _ 1(5)]
  note eq = 1(2) [unfolded cphist_search_loop.simps [of v period i delta] Let_def]
  show ?case
  proof (cases "period > delta + span_width (slot v i)")
    case False
    then show ?thesis using eq 1(6) by auto
  next
    case True
    show ?thesis
    proof (cases i)
      case 0
      then show ?thesis using eq True by simp
    next
      case (Suc h)
      have h: "h < length (vlist v)" using 1(3) Suc by simp
      note el = element_nth [OF 1(4) h 1(5)]
      let ?d = "delta + span_width (slot v i) + gap_of_spans (ct_time (sp_end (slot v i))) (ct_time (sp_start (slot v h)))"
      have d: "?d = hist_time (vlist v) - hist_time (take (Suc h) (vlist v))"
        using 1(6) hist_time_take [of i "vlist v"] 1(3) Suc sl [OF 1(3)] el(2) by (simp add: algebra_simps)
      show ?thesis
      proof (cases "?d \<ge> period")
        case stop: True
        then show ?thesis using eq True Suc el(1) 1(6) by auto
      next
        case False
        then have "cphist_search_loop v period h ?d = Inr (j, delta', q)" using eq True Suc el(1) by simp
        from 1(1) [OF refl refl _ Suc el(1) refl refl _ this h 1(4,5) d] show ?thesis using True False Suc by simp
      qed
    qed
  qed
qed

lemma realtime_clock_frame:
  "nilfs_cnormap_get_realtime_clock k (c, s) = (r, c', s') \<Longrightarrow>
     cphist c' = cphist c \<and> cphist_elapsed_time c' = cphist_elapsed_time c"
proof (induction k "(c, s)" arbitrary: c s rule: nilfs_cnormap_get_realtime_clock.induct)
  case (1 k c s)
  obtain q s1 where c: "liftK (k_clock_gettime k (if has_clock_realtime_coarse c then CLOCK_REALTIME_COARSE else CLOCK_REALTIME)) s = (q, s1)"
    by (rule prod.exhaust)
  show ?case
  proof (cases q)
    case (Inl e)
    show ?thesis
    proof (cases "e = EINVAL \<and> has_clock_realtime_coarse c")
      case True
      then show ?thesis
        using 1(1) [OF refl c [symmetric] Inl True] 1(2) c Inl by (simp add: nilfs_cnormap_get_realtime_clock.simps [of k c s])
    qed (use 1(2) c Inl in \<open>auto simp: nilfs_cnormap_get_realtime_clock.simps [of k c s] Let_def\<close>)
  qed (use 1(2) c in \<open>auto simp: nilfs_cnormap_get_realtime_clock.simps [of k c s] Let_def\<close>)
qed

lemma monotonic_clock_frame:
  "nilfs_cnormap_get_monotonic_clock k (c, s) = (r, c', s') \<Longrightarrow>
     cphist c' = cphist c \<and> cphist_elapsed_time c' = cphist_elapsed_time c"
proof (induction k "(c, s)" arbitrary: c s rule: nilfs_cnormap_get_monotonic_clock.induct)
  case (1 k c s)
  let ?clk = "if has_clock_boottime c then CLOCK_BOOTTIME
              else if has_clock_monotonic_coarse c then CLOCK_MONOTONIC_COARSE else CLOCK_MONOTONIC"
  obtain q s1 where c: "liftK (k_clock_gettime k ?clk) s = (q, s1)" by (rule prod.exhaust)
  note body = 1(3) [unfolded nilfs_cnormap_get_monotonic_clock.simps [of k c s] Let_def c]
  show ?case
  proof (cases q)
    case (Inl e)
    consider "e = EINVAL \<and> has_clock_boottime c"
      | "\<not> (e = EINVAL \<and> has_clock_boottime c)" "e = EINVAL \<and> has_clock_monotonic_coarse c"
      | "\<not> (e = EINVAL \<and> has_clock_boottime c)" "\<not> (e = EINVAL \<and> has_clock_monotonic_coarse c)" by blast
    then show ?thesis
    proof cases
      case a: 1
      then show ?thesis using 1(1) [OF refl c [symmetric] Inl a] body Inl by simp
    next
      case a: 2
      then show ?thesis using 1(2) [OF refl c [symmetric] Inl a] body Inl by auto
    next
      case 3
      then show ?thesis using body Inl by auto
    qed
  qed (use body in auto)
qed

lemma map_ok_frame: "cphist c' = cphist c \<and> cphist_elapsed_time c' = cphist_elapsed_time c \<Longrightarrow> map_ok c' = map_ok c"
  by (simp add: map_ok_def)

lemma few_frame: "cphist c' = cphist c \<Longrightarrow> few_spans c' = few_spans c"
  by (simp add: few_spans_def)

section \<open>Every call keeps the elapsed time\<close>

lemma find_keeps: "keeps (\<lambda>x. sane_time (ct_time (fc_max_excl_cp x))) nilfs_cpinfo_find"
  by (auto simp: keeps_def nilfs_cpinfo_find_def split: if_splits)

lemma trim_ok:
  assumes "vector_inv (cphist c)" "few_spans c" "i \<le> mx" "mx = length (vlist (cphist c)) - 1" "vlist (cphist c) \<noteq> []"
  shows "vector_inv (cphist (cphist_trim mx i d c)) \<and> vlist (cphist (cphist_trim mx i d c)) = take (Suc i) (vlist (cphist c))"
proof (cases "mx > i")
  case True
  have "Suc mx = length (vlist (cphist c))" using assms(4,5) by (cases "vlist (cphist c)") auto
  then show ?thesis
    using True assms delete_run_ok [OF assms(1), of "Suc i" "Suc mx"] by (simp add: cphist_trim_def few_spans_def del: length_vlist)
next
  case False
  then have "Suc i = length (vlist (cphist c))" using assms(3,4,5) by (cases "vlist (cphist c)") auto
  then show ?thesis using False assms(1) by (simp add: cphist_trim_def)
qed

lemma search_keeps:
  assumes ok: "map_ok c" and few: "few_spans c" and sane: "sane_times k"
    and run: "nilfs_cnormap_cphist_search k cpstat period (c, s) = (r, c', s')"
  shows "map_ok c'"
proof -
  let ?v = "cphist c" let ?xs = "vlist (cphist c)"
  have vi: "vector_inv ?v" and el: "cphist_elapsed_time c = hist_time ?xs" and sp: "\<forall>sp \<in> set ?xs. sane_span sp"
    using ok by (auto simp: map_ok_def)
  show ?thesis
  proof (cases "nilfs_vector_get_size ?v = 0 \<or> period = 0")
    case True
    then show ?thesis using run ok by (simp add: nilfs_cnormap_cphist_search_def)
  next
    case False
    define mx where "mx = length ?xs - 1"
    have ne: "?xs \<noteq> []" using False size_ok [OF vi] by (metis length_0_conv unat_eq_zero)
    have "nilfs_vector_get_size ?v = of_nat (length ?xs)" using size_ok [OF vi] by (metis of_nat_unat ucast_id)
    then have "nilfs_vector_get_size ?v - 1 = of_nat mx" using ne by (cases ?xs) (simp_all add: mx_def del: length_vlist)
    moreover have ml: "mx < length ?xs" using ne by (cases ?xs) (simp_all add: mx_def del: length_vlist)
    ultimately have "(ucast (nilfs_vector_get_size ?v - 1) :: u32) = of_nat mx"
      using few by (simp add: unsigned_of_nat take_bit_nat_eq_self few_spans_def del: length_vlist)
    then have g: "nilfs_vector_get_element ?v (ucast (nilfs_vector_get_size ?v - 1)) = Some mx"
      using element_nth(1) [OF vi ml] few by (simp add: few_spans_def)
    have F: "(nilfs_vector_get_size ?v = 0 \<or> period = 0) = False" using False by simp
    note body = run [unfolded nilfs_cnormap_cphist_search_def Let_def prod.case F if_False g option.case(2)]
    show ?thesis
    proof (cases "cphist_search_loop ?v period mx 0")
      case (Inl e)
      then show ?thesis using body ok by simp
    next
      case (Inr t)
      obtain i d q where t: "t = (i, d, q)" by (rule prod_cases3)
      have "i \<le> mx \<and> d = hist_time ?xs - hist_time (take (Suc i) ?xs)"
        using search_loop_cut [OF Inr [unfolded t] ml vi] few ml by (simp add: few_spans_def mx_def)
      then have i: "i \<le> mx" and d: "d = hist_time ?xs - hist_time (take (Suc i) ?xs)" by auto
      have il: "i < length ?xs" using i ml by simp
      have sl: "slot ?v i = ?xs ! i" using il by (rule slot_vlist)
      have tr: "map_ok (cphist_trim mx i d c)"
        using trim_ok [OF vi few i mx_def ne, of d] sp el d
        by (auto simp: map_ok_def cphist_trim_def dest: in_set_takeD)
      let ?st = "sp_start (slot ?v i)" and ?en = "sp_end (slot ?v i)"
      show ?thesis
      proof (cases "q = None \<and> ct_cno ?en > ct_cno ?st")
        case False
        then show ?thesis using body Inr t tr by (cases q) auto
      next
        case True
        let ?x = "\<lparr>fc_time = ct_time ?st + (period - d), fc_end_cno = ct_cno ?en, fc_min_incl_cp = ?en, fc_max_excl_cp = ?st, fc_nskips = 0\<rparr>"
        obtain q2 x s2 where en: "nilfs_enum_cpinfo_forward k cpstat (ct_cno ?st + 1) 1 nilfs_cpinfo_find (?x, s) = (q2, x, s2)"
          by (rule prod_cases3)
        have "sane_time (ct_time (fc_max_excl_cp ?x))" using sp il sl by (simp add: sane_span_def)
        from nilfs_enum_keeps(1) [OF find_keeps sane this en] have sx: "sane_time (ct_time (fc_max_excl_cp x))" .
        show ?thesis
        proof (cases "q2 \<noteq> Inl (projl q2) \<and> ct_cno (fc_max_excl_cp x) > ct_cno ?st")
          case False
          then show ?thesis using body Inr t True en tr ok by (cases q2) auto
        next
          case mv: True
          let ?sp = "(slot ?v i)\<lparr>sp_start := fc_max_excl_cp x,
            approx_ncp := approx_ncp (slot ?v i) - min (fc_nskips x) (approx_ncp (slot ?v i) - 1)\<rparr>"
          let ?d = "d + (ct_time (fc_max_excl_cp x) - ct_time ?st)" and ?c = "c\<lparr>cphist := set_slot ?v i ?sp\<rparr>"
          have c': "c' = cphist_trim mx i ?d ?c" using body Inr t True en mv by (cases q2) auto
          have xs: "vlist (cphist ?c) = ?xs[i := ?sp]" by (simp add: vlist_set_slot)
          then have ll: "length (vlist (cphist ?c)) = length ?xs" by (simp del: length_vlist)
          have tk: "take (Suc i) (?xs[i := ?sp]) = take i ?xs @ [?sp]" "take (Suc i) ?xs = take i ?xs @ [?xs ! i]"
            using il by (simp_all add: take_Suc_conv_app_nth)
          have "hist_time (take i ?xs @ [?sp]) = hist_time (take i ?xs @ [?xs ! i]) + (ct_time ?st - ct_time (fc_max_excl_cp x))"
            using hist_time_move_last [of ?sp "?xs ! i"] sl by simp
          moreover have "sane_span ?sp" using sp sx il sl by (simp add: sane_span_def)
          moreover have "vlist (cphist c') = take i ?xs @ [?sp] \<and> vector_inv (cphist c')"
          proof -
            have "vector_inv (cphist ?c)" "few_spans ?c" using vi few ll by (simp, simp only: few_spans_def)
            moreover have "mx = length (vlist (cphist ?c)) - 1" "vlist (cphist ?c) \<noteq> []"
              using ll ne mx_def by (simp only:, metis length_0_conv)
            ultimately show ?thesis using trim_ok [of ?c i mx ?d] i unfolding c' xs tk(1) by blast
          qed
          moreover have "cphist_elapsed_time c' = hist_time ?xs - ?d" using c' el by (simp add: cphist_trim_def)
          moreover have "hist_time ?xs - ?d = hist_time (take i ?xs @ [?xs ! i]) + (ct_time ?st - ct_time (fc_max_excl_cp x))"
            unfolding d tk(2) by (simp add: algebra_simps)
          moreover have "\<forall>s \<in> set (take i ?xs). sane_span s" using sp by (meson in_set_takeD)
          ultimately show ?thesis unfolding map_ok_def by simp
        qed
      qed
    qed
  qed
qed

lemma init_keeps:
  assumes v: "vector_inv (cphist c)" "vlist (cphist c) = []" "cphist_elapsed_time c = 0" and sane: "sane_times k"
    and run: "nilfs_cnormap_cphist_init k junk cpstat clock period (c, s) = (r, c', s')" and few: "few_spans c'"
  shows "map_ok c'"
proof -
  obtain q c1 s1 where cl: "nilfs_cnormap_get_realtime_clock k (c, s) = (q, c1, s1)" by (rule prod_cases3)
  note fr = realtime_clock_frame [OF cl]
  have ok: "map_ok c1" using fr v by (simp add: map_ok_def)
  show ?thesis
  proof (cases q)
    case (Inl e)
    then show ?thesis using run cl ok by (simp add: nilfs_cnormap_cphist_init_def)
  next
    case (Inr t)
    let ?x = "\<lparr>sc_index = 0, sc_state = SCAN_INIT_ST, sc_time = t, sc_period = period, sc_min_incl_cno = NILFS_CNO_MAX\<rparr>"
    obtain q2 c2 x2 s2 where en: "nilfs_enum_cpinfo_backward k cpstat 0 0 (nilfs_cpinfo_scan_backward k junk) ((c1, ?x), s1) = (q2, (c2, x2), s2)"
      by (metis prod.exhaust)
    have "back_scan_inv (c1, ?x)" using fr v by (simp add: back_scan_inv_def)
    from nilfs_enum_keeps(2) [OF scan_backward_keeps sane this en] have inv: "back_scan_inv (c2, x2)" .
    have c': "c' = (if sc_state x2 = SCAN_INIT_ST then c2 else c2\<lparr>base_time := t, base_clock := clock\<rparr>)"
      using run cl Inr en by (auto simp: nilfs_cnormap_cphist_init_def split: sum.splits if_splits)
    then have "few_spans c2" using few by (simp add: few_spans_def split: if_splits)
    then have "map_ok c2" using inv by (auto simp: back_scan_inv_def map_ok_def split: if_splits)
    then show ?thesis using c' by (simp add: map_ok_def)
  qed
qed

lemma extend_backward_keeps:
  assumes ok: "map_ok c" "few_spans c" "vlist (cphist c) \<noteq> []" and i: "unat i = length (vlist (cphist c)) - 1" and sane: "sane_times k"
    and run: "nilfs_cnormap_cphist_extend_backward k junk cpstat period i start (c, s) = (r, c', s')" and few: "few_spans c'"
  shows "map_ok c'"
proof (cases "start = 0 \<or> start = NILFS_CNO_MIN")
  case True
  then show ?thesis using run ok by (auto simp: nilfs_cnormap_cphist_extend_backward_def split: if_splits)
next
  case False
  let ?x = "\<lparr>sc_index = i, sc_state = SCAN_NORMAL_ST, sc_time = 0, sc_period = period, sc_min_incl_cno = start\<rparr>"
  obtain q2 c2 x2 s2 where en: "nilfs_enum_cpinfo_backward k cpstat (start - 1) 0 (nilfs_cpinfo_scan_backward k junk) ((c, ?x), s) = (q2, (c2, x2), s2)"
    by (metis prod.exhaust)
  have "back_scan_inv (c, ?x)" using ok i by (simp add: back_scan_inv_def map_ok_def)
  from nilfs_enum_keeps(2) [OF scan_backward_keeps sane this en] have inv: "back_scan_inv (c2, x2)" .
  have "c' = c2" using run False en by (auto simp: nilfs_cnormap_cphist_extend_backward_def split: sum.splits)
  then show ?thesis using inv few by (auto simp: back_scan_inv_def map_ok_def split: if_splits)
qed

lemma latest_only:
  assumes ok: "map_ok c" "few_spans c" "vlist (cphist c) \<noteq> []"
  shows "let mx = (ucast (nilfs_vector_get_size (cphist c) - 1) :: u32); l = slot (cphist c) 0 in
     (mx > 0 \<longrightarrow> map_ok (c\<lparr>cphist := delete_run (cphist c) 1 (unat mx), cphist_elapsed_time := span_width l\<rparr>)
       \<and> vlist (delete_run (cphist c) 1 (unat mx)) \<noteq> []) \<and> unat mx = length (vlist (cphist c)) - 1
     \<and> nilfs_vector_get_element (cphist c) mx = Some (length (vlist (cphist c)) - 1)"
proof -
  let ?xs = "vlist (cphist c)" and ?mx = "ucast (nilfs_vector_get_size (cphist c) - 1) :: u32"
  have vi: "vector_inv (cphist c)" using ok(1) by (simp add: map_ok_def)
  have "nilfs_vector_get_size (cphist c) = of_nat (length ?xs)" using size_ok [OF vi] by (metis of_nat_unat ucast_id)
  then have "nilfs_vector_get_size (cphist c) - 1 = of_nat (length ?xs - 1)" using ok(3) by (cases ?xs) (simp_all del: length_vlist)
  moreover have lt: "length ?xs < 2 ^ 32" using ok(2) unfolding few_spans_def .
  ultimately have mx: "?mx = of_nat (length ?xs - 1)"
    by (simp add: unsigned_of_nat take_bit_nat_eq_self del: length_vlist)
  then have un: "unat ?mx = length ?xs - 1" using lt by (simp add: unsigned_of_nat take_bit_nat_eq_self del: length_vlist)
  have ml: "length ?xs - 1 < length ?xs" using ok(3) by (cases ?xs) (simp_all del: length_vlist)
  have get: "nilfs_vector_get_element (cphist c) ?mx = Some (length ?xs - 1)" unfolding mx by (rule element_nth(1) [OF vi ml lt])
  have "map_ok (c\<lparr>cphist := delete_run (cphist c) 1 (unat ?mx), cphist_elapsed_time := span_width (slot (cphist c) 0)\<rparr>)
       \<and> vlist (delete_run (cphist c) 1 (unat ?mx)) \<noteq> []" if "?mx > 0"
  proof -
    have l: "length ?xs > 1" using un that by (simp add: word_less_nat_alt del: length_vlist)
    have dr: "vector_inv (delete_run (cphist c) 1 (unat ?mx)) \<and> vlist (delete_run (cphist c) 1 (unat ?mx)) = take 1 ?xs"
      using delete_run_ok [OF vi l order_refl] lt unfolding un by (simp del: length_vlist)
    obtain a where a: "take 1 ?xs = [a]" "a \<in> set ?xs" "slot (cphist c) 0 = a"
      using l slot_vlist [of 0 "cphist c"] by (cases ?xs) (simp_all del: length_vlist)
    then show ?thesis using dr ok(1) by (simp add: map_ok_def)
  qed
  then show ?thesis using un get by (simp add: Let_def)
qed

lemma extend_forward_keeps:
  assumes ok: "map_ok c" "few_spans c" "vlist (cphist c) \<noteq> []" and sane: "sane_times k"
    and run: "nilfs_cnormap_cphist_extend_forward k junk cpstat clock period cno (c, s) = (r, c', s')"
  shows "map_ok c'"
proof -
  obtain q c1 s1 where cl: "nilfs_cnormap_get_realtime_clock k (c, s) = (q, c1, s1)" by (rule prod_cases3)
  note fr = realtime_clock_frame [OF cl]
  have ok1: "map_ok c1" "few_spans c1" "vlist (cphist c1) \<noteq> []" using map_ok_frame [OF fr] few_frame [OF conjunct1 [OF fr]] ok conjunct1 [OF fr] by simp_all
  show ?thesis
  proof (cases q)
    case (Inl e)
    then show ?thesis using run cl ok1 by (simp add: nilfs_cnormap_cphist_extend_forward_def)
  next
    case (Inr t)
    define mx where "mx = (ucast (nilfs_vector_get_size (cphist c1) - 1) :: u32)"
    define c2 where "c2 = (if mx > 0 then c1\<lparr>cphist := delete_run (cphist c1) 1 (unat mx),
      cphist_elapsed_time := span_width (slot (cphist c1) 0)\<rparr> else c1)"
    let ?x = "\<lparr>sc_index = 0, sc_state = SCAN_NORMAL_ST, sc_time = 0, sc_period = period, sc_min_incl_cno = NILFS_CNO_MAX\<rparr>"
    have g: "nilfs_vector_get_element (cphist c1) 0 = Some 0" by (rule element_first(1)) (use ok1 in \<open>simp_all add: map_ok_def\<close>)
    have "fwd_scan_inv (c2, ?x)"
      using latest_only [OF ok1, unfolded Let_def] ok1 unfolding mx_def [symmetric]
      by (cases "mx > 0") (auto simp: fwd_scan_inv_def c2_def simp del: length_vlist)
    moreover obtain q3 c3 x3 s3 where en: "nilfs_enum_cpinfo_forward k cpstat (cno + 1) 0 (nilfs_cpinfo_scan_forward k junk) ((c2, ?x), s1) = (q3, (c3, x3), s3)"
      by (metis prod.exhaust)
    ultimately have "fwd_scan_inv (c3, x3)" by (rule nilfs_enum_keeps(1) [OF scan_forward_keeps sane])
    moreover have "c' = c3\<lparr>base_time := t, base_clock := clock\<rparr>"
      using run cl Inr en g
      unfolding c2_def mx_def span_width_def
      by (auto simp: nilfs_cnormap_cphist_extend_forward_def Let_def split: sum.splits if_splits prod.splits)
    ultimately show ?thesis by (simp add: fwd_scan_inv_def map_ok_def)
  qed
qed

text \<open>C25. The mapper's record of elapsed time is right: before and after every call of
  \<open>nilfs_cnormap_track_back\<close>, successful or not, the elapsed time stored in the mapper is the sum
  of the widths of the recorded spans and of the gaps between them, whether the call started a new
  history, extended it in either direction, trimmed it, or cut a span in two. The kernel reports
  creation times in the range of \<open>int64_t\<close>, and the history has fewer than $2^{32}$ spans.\<close>

theorem track_back_keeps_history:
  assumes "map_ok c" "few_spans c" "few_spans c'" "sane_times k"
    and run: "nilfs_cnormap_track_back k junk period (c, s) = (r, c', s')"
  shows "map_ok c'"
proof (cases "period = 0")
  case True
  then show ?thesis using assms by (simp add: nilfs_cnormap_track_back_def)
next
  case False
  obtain q c0 s0 where st: "onLib (nilfs_get_cpstat k) (c, s) = (q, c0, s0)" by (rule prod_cases3)
  then have c0: "c0 = c" by (auto simp: onLib_def split: prod.splits)
  obtain q1 c1 s1 where cl: "nilfs_cnormap_get_monotonic_clock k (c, s0) = (q1, c1, s1)" by (rule prod_cases3)
  note fr = monotonic_clock_frame [OF cl]
  have ok: "map_ok c1" "few_spans c1" using map_ok_frame [OF fr] few_frame [OF conjunct1 [OF fr]] assms(1,2) by simp_all
  show ?thesis
  proof (cases "\<exists>a b. q = Inr a \<and> q1 = Inr b")
    case False
    then show ?thesis using run \<open>period \<noteq> 0\<close> st cl c0 ok assms(1)
      by (cases q; cases q1) (simp_all add: nilfs_cnormap_track_back_def)
  next
    case True
    then obtain cpstat clock where q: "q = Inr cpstat" "q1 = Inr clock" by blast
    note body = run [unfolded nilfs_cnormap_track_back_def bindE_step [where m = "onLib (nilfs_get_cpstat k)", OF st [unfolded q c0]]
      bindE_step [where m = "nilfs_cnormap_get_monotonic_clock k", OF cl [unfolded q]] if_not_P [OF \<open>period \<noteq> 0\<close>]]
    show ?thesis
    proof (cases "vlist (cphist c1) = []")
      case True
      moreover have "vector_inv (cphist c1)" "cphist_elapsed_time c1 = 0" using ok(1) True by (auto simp: map_ok_def)
      moreover have "nilfs_vector_get_size (cphist c1) = 0" using True size_ok [OF calculation(2)] by (simp add: unat_eq_zero)
      then have "nilfs_cnormap_cphist_init k junk cpstat clock period (c1, s1) = (r, c', s')" using body by simp
      ultimately show ?thesis using init_keeps assms(3,4) by blast
    next
      case ne: False
      have vi: "vector_inv (cphist c1)" using ok(1) by (simp add: map_ok_def)
      have sz: "nilfs_vector_get_size (cphist c1) \<noteq> 0" using ne size_ok [OF vi] by auto
      note g = element_first(1) [OF vi ne] and mx = latest_only [OF ok ne, unfolded Let_def]
      define off where "off = clock - base_clock c1 + (if sint (base_time c1) > sint (ct_time (sp_end (slot (cphist c1) 0)))
        then base_time c1 - ct_time (sp_end (slot (cphist c1) 0)) else 0)"
      note cases = body [unfolded Let_def prod.case if_not_P [OF sz] g option.case, folded off_def]
      obtain v s2 where cv: "nilfs_vector_clear (lib_alloc k) junk (cphist c1) s1 = (v, s2)" by (rule prod.exhaust)
      have "vector_inv v \<and> vlist v = []" using clear_ok [OF vi, of "lib_alloc k" junk s1] cv by simp
      then have ini: "map_ok c'" if "nilfs_cnormap_cphist_init k junk cpstat clock period (c1\<lparr>cphist := v, cphist_elapsed_time := 0\<rparr>, s2) = (r, c', s')"
        using init_keeps [OF _ _ _ assms(4) that assms(3)] by simp
      consider "period < off div 2" | "\<not> period < off div 2" "period < off"
        | "\<not> period < off div 2" "\<not> period < off" "period < off + cphist_elapsed_time c1"
        | "\<not> period < off div 2" "\<not> period < off" "\<not> period < off + cphist_elapsed_time c1" by blast
      then show ?thesis
      proof cases
        case 1
        then show ?thesis using cases cv ini by simp
      next
        case 2
        then show ?thesis using cases extend_forward_keeps [OF ok ne assms(4)] by auto
      next
        case 3
        then show ?thesis using cases search_keeps [OF ok assms(4)] by auto
      next
        case 4
        then show ?thesis using cases mx ok(1) extend_backward_keeps [OF ok ne _ assms(4) _ assms(3)] by (auto split: if_splits)
      qed
    qed
  qed
qed


definition demo_mapper :: nilfs_cnormap where
  "demo_mapper = \<lparr>cphist = \<lparr>v_data = single_span (demo_cp 90000 200) # replicate 255 (single_span (demo_cp 7 160)),
       v_elemsize = sizeof_cpspan, v_nelems = 2, v_maxelems = 256\<rparr>,
     cphist_elapsed_time = 40, base_time = 210, base_clock = 210, has_clock_boottime = True,
     has_clock_realtime_coarse = True, has_clock_monotonic_coarse = True\<rparr>"

lemma demo_spans: "vlist (cphist demo_mapper) = [single_span (demo_cp 90000 200), single_span (demo_cp 7 160)]"
  by (simp add: demo_mapper_def vlist_def take_Cons')

lemma demo_map_ok: "map_ok demo_mapper" "few_spans demo_mapper"
proof -
  have "vector_inv (cphist demo_mapper)"
    by (simp add: demo_mapper_def vector_inv_def vector_consts sizeof_cpspan_def word_le_nat_alt)
  then show "map_ok demo_mapper"
    unfolding map_ok_def demo_spans
    by (simp add: sane_span_def sane_time_def single_span_def demo_cp_def span_width_def gap_of_spans_def) (simp add: demo_mapper_def)
  show "few_spans demo_mapper" unfolding few_spans_def demo_spans by simp
qed

theorem track_back_keeps_history_witness:
  "\<exists>c' s'. nilfs_cnormap_track_back demo_cp_kernel (single_span (demo_cp 0 0)) 20 (demo_mapper, demo_lib ()) = (Inr 90000, c', s') \<and> map_ok c'"
proof -
  let ?j = "single_span (demo_cp 0 0)"
  have "sane_times (demo_cp_kernel :: unit kernel)"
    by (auto simp: sane_times_def demo_cp_calls demo_cps_def demo_cp_def sane_time_def dest!: in_set_takeD)
  moreover have run: "nilfs_cnormap_track_back demo_cp_kernel ?j 20 (demo_mapper, demo_lib ()) = (Inr 90000, demo_mapper, demo_lib ())"
  proof -
    have sl: "slot (cphist demo_mapper) 0 = single_span (demo_cp 90000 200)" "slot (cphist demo_mapper) 1 = single_span (demo_cp 7 160)"
      by (simp_all add: demo_mapper_def slot_def)
    have g: "nilfs_vector_get_size (cphist demo_mapper) = 2" "nilfs_vector_get_element (cphist demo_mapper) 0 = Some 0"
      "nilfs_vector_get_element (cphist demo_mapper) 1 = Some 1"
      by (simp_all add: demo_mapper_def nilfs_vector_get_size_def nilfs_vector_get_element_def word_less_nat_alt)
    have lp: "cphist_search_loop (cphist demo_mapper) 30 1 0 = Inr (1, 0, Some 90000)"
      using sl g by (simp add: cphist_search_loop.simps [of _ _ "Suc 0"] single_span_def demo_cp_def span_width_def gap_of_spans_def
          word_less_nat_alt word_le_nat_alt)
    have f: "has_clock_boottime demo_mapper" "base_clock demo_mapper = 210" "base_time demo_mapper = 210" "cphist_elapsed_time demo_mapper = 40"
      by (simp_all add: demo_mapper_def)
    have "nilfs_get_cpstat demo_cp_kernel (demo_lib ()) = (Inr \<lparr>cs_cno = 90001, cs_ncps = 3, cs_nsss = 0\<rparr>, demo_lib ())"
      by (simp add: nilfs_get_cpstat_def with_iocfd_def demo_lib_def demo_cp_calls liftK_def)
    then show ?thesis
      using sl g lp f
      by (simp add: nilfs_cnormap_track_back_def onLib_def bindE_def nilfs_cnormap_get_monotonic_clock.simps liftK_def demo_cp_calls
          nilfs_cnormap_cphist_search_def single_span_def demo_cp_def word_less_nat_alt cphist_trim_def)
  qed
  ultimately show ?thesis using track_back_keeps_history [OF demo_map_ok demo_map_ok(2) _ run] by blast
qed

end
