(* ===== verification/C_Double.thy ===== *)
theory C_Double
  imports Complex_Main C_Stdlib
begin

text \<open>
  Double precision numbers as the rationals they are. \<open>round_double\<close> is the nearest number of 53
  significant bits, ties to even; the result of an operation on doubles is its exact result rounded.
  The decimal notation of \<open>strtod\<close> is read exactly and then rounded by its caller; values outside
  the range of normal numbers are \<open>ERANGE\<close>.
\<close>

fun bit_len :: "nat \<Rightarrow> nat" where
  "bit_len n = (if n = 0 then 0 else Suc (bit_len (n div 2)))"

declare bit_len.simps [simp del]

definition pow2 :: "int \<Rightarrow> rat" where
  "pow2 e = (if e \<ge> 0 then 2 ^ nat e else 1 / 2 ^ nat (- e))"

definition pow10 :: "int \<Rightarrow> rat" where
  "pow10 e = (if e \<ge> 0 then 10 ^ nat e else 1 / 10 ^ nat (- e))"

definition round_even :: "rat \<Rightarrow> int" where
  "round_even x = (let f = \<lfloor>x\<rfloor>; r = x - of_int f in
     if r < 1 / 2 then f else if r > 1 / 2 then f + 1 else if even f then f else f + 1)"

definition round_double :: "rat \<Rightarrow> rat" where
  "round_double x =
     (if x = 0 then 0
      else let (p, q) = quotient_of (abs x);
               l = int (bit_len (nat p)) - int (bit_len (nat q));
               e = (if pow2 l \<le> abs x then l else l - 1) - 52
           in of_int (round_even (x / pow2 e)) * pow2 e)"

definition strtod :: "string \<Rightarrow> rat \<times> string" where
  "strtod arg =
     (let s = dropWhile isspace arg;
          neg = (s \<noteq> [] \<and> hd s = CHR ''-'');
          s = (if s \<noteq> [] \<and> (hd s = CHR ''-'' \<or> hd s = CHR ''+'') then tl s else s);
          ip = takeWhile isdigit s; s = dropWhile isdigit s;
          point = (s \<noteq> [] \<and> hd s = CHR ''.'');
          fp = (if point then takeWhile isdigit (tl s) else []);
          s = (if point then dropWhile isdigit (tl s) else s);
          es = (if s \<noteq> [] \<and> tolower (hd s) = CHR ''e'' then tl s else []);
          en = (es \<noteq> [] \<and> hd es = CHR ''-'');
          es = (if es \<noteq> [] \<and> (hd es = CHR ''-'' \<or> hd es = CHR ''+'') then tl es else es);
          ed = takeWhile isdigit es;
          ex = (if en then - int (digits_val 10 ed) else int (digits_val 10 ed));
          val = of_nat (digits_val 10 (ip @ fp)) * pow10 (ex - int (length fp))
      in if ip @ fp = [] then (0, arg)
         else (if neg then - val else val, if ed = [] then s else dropWhile isdigit es))"

definition double_erange :: "rat \<Rightarrow> bool" where
  "double_erange x \<longleftrightarrow> x \<noteq> 0 \<and> (abs (round_double x) \<ge> pow2 1024 \<or> abs x < pow2 (- 1022))"

definition truncate_rat :: "rat \<Rightarrow> int" where
  "truncate_rat x = (if x \<ge> 0 then \<lfloor>x\<rfloor> else \<lceil>x\<rceil>)"

section \<open>Integers are exact\<close>

lemma bit_len_bounds: "0 < n \<Longrightarrow> 2 ^ (bit_len n - 1) \<le> n \<and> n < 2 ^ bit_len n \<and> 0 < bit_len n"
proof (induction n rule: bit_len.induct)
  case (1 n)
  have b: "bit_len n = Suc (bit_len (n div 2))" using 1(2) by (simp add: bit_len.simps [of n])
  show ?case
  proof (cases "n div 2 = 0")
    case True
    then have "n = 1" using 1(2) by linarith
    then show ?thesis using b by (simp add: bit_len.simps [of 0])
  next
    case False
    then have ih: "2 ^ (bit_len (n div 2) - 1) \<le> n div 2" "n div 2 < 2 ^ bit_len (n div 2)" "0 < bit_len (n div 2)" using 1 by auto
    obtain m where m: "bit_len (n div 2) = Suc m" using ih(3) by (cases "bit_len (n div 2)") auto
    show ?thesis using ih b m by simp linarith
  qed
qed

lemma round_even_int [simp]: "round_even (of_int m) = m"
  by (simp add: round_even_def)

lemma round_double_int:
  assumes "abs n < 2 ^ 53"
  shows "round_double (of_int n) = of_int n"
proof (cases "n = 0")
  case False
  define a L where "a = nat (abs n)" and "L = bit_len a"
  have a: "0 < a" "a < 2 ^ 53" "int a = abs n" using False assms by (auto simp: a_def nat_less_iff)
  note bl = bit_len_bounds [OF a(1), folded L_def]
  have "(2 :: nat) ^ (L - 1) < 2 ^ 53" using bl a(2) by linarith
  then have L: "L - 1 < 53" by (rule power_less_imp_less_exp [rotated]) simp
  have q: "quotient_of (abs (of_int n)) = (abs n, 1)" by (simp add: of_int_abs [symmetric] del: of_int_abs)
  have one: "bit_len (nat 1) = 1" by (simp add: bit_len.simps [of "Suc 0"] bit_len.simps [of 0])
  have lL: "int (bit_len (nat (abs n))) - int (bit_len (nat 1)) = int (L - 1)"
    using bl one by (simp add: L_def a_def)
  have "(2 :: rat) ^ (L - 1) \<le> of_nat a" using bl by (metis of_nat_le_iff of_nat_numeral of_nat_power)
  also have "(of_nat a :: rat) = abs (of_int n)" using a(3) by (metis of_int_abs of_int_of_nat_eq)
  finally have p: "pow2 (int (L - 1)) \<le> abs (of_int n)" by (simp add: pow2_def)
  define e where "e = int (L - 1) - 52"
  have e: "e \<le> 0" using L by (simp add: e_def)
  have "of_int n / pow2 e = of_int (n * 2 ^ nat (- e))" using e by (cases "e = 0") (simp_all add: pow2_def)
  moreover have "pow2 e * 2 ^ nat (- e) = 1" using e by (cases "e = 0") (simp_all add: pow2_def)
  ultimately have "of_int (round_even (of_int n / pow2 e)) * pow2 e = of_int n"
    by (simp del: of_int_mult add: of_int_mult [symmetric]) (simp add: mult.assoc mult.commute [of _ "pow2 e"])
  moreover have "(of_int n :: rat) \<noteq> 0" using False by simp
  ultimately show ?thesis
    unfolding round_double_def q prod.case Let_def lL if_P [OF p] if_not_P [OF \<open>of_int n \<noteq> 0\<close>] e_def by blast
qed (simp add: round_double_def)

end
