(* ===== verification/Cldconfig.thy ===== *)
theory Cldconfig
  imports C_Double Nilfs_Api
begin

text \<open>
  The configuration file of the cleaner daemon (\<open>src/sbin/cldconfig.c\<close>): tokens, numbers, sizes
  and times, the keyword table and the reader. A handler changes the configuration and fails with
  \<open>EOther 0\<close> where the source returns -1; \<open>EAbort\<close> stands for a failed assertion and for undefined behaviour.
  The text of the opened file is an argument.
\<close>

section \<open>Data\<close>

type_synonym i32 = "32 word"

record timespec =
  tv_sec :: i64
  tv_nsec :: i64

datatype nilfs_size_unit = NILFS_SIZE_UNIT_NONE | NILFS_SIZE_UNIT_PERCENT
  | NILFS_SIZE_UNIT_KB | NILFS_SIZE_UNIT_KIB | NILFS_SIZE_UNIT_MB | NILFS_SIZE_UNIT_MIB
  | NILFS_SIZE_UNIT_GB | NILFS_SIZE_UNIT_GIB | NILFS_SIZE_UNIT_TB | NILFS_SIZE_UNIT_TIB
  | NILFS_SIZE_UNIT_PB | NILFS_SIZE_UNIT_PIB | NILFS_SIZE_UNIT_EB | NILFS_SIZE_UNIT_EIB

record nilfs_param =
  p_num :: u64
  p_unit :: nilfs_size_unit

datatype nilfs_selection_policy = NILFS_SELECTION_POLICY_TIMESTAMP | NILFS_SELECTION_POLICY_GREEDY
  | NILFS_SELECTION_POLICY_COST_BENEFIT | NILFS_SELECTION_POLICY_SEGREGATION

record nilfs_cldconfig =
  cf_selection_policy :: nilfs_selection_policy
  cf_protection_period :: timespec
  cf_policy_name :: string
  cf_log_file :: string
  cf_min_clean_segments :: u64
  cf_max_clean_segments :: u64
  cf_clean_check_interval :: timespec
  cf_nsegments_per_clean :: i32
  cf_mc_nsegments_per_clean :: i32
  cf_cleaning_interval :: timespec
  cf_mc_cleaning_interval :: timespec
  cf_retry_interval :: timespec
  cf_use_mmap :: bool
  cf_use_set_suinfo :: bool
  cf_log_priority :: nat
  cf_min_reclaimable_blocks :: u64
  cf_mc_min_reclaimable_blocks :: u64

definition NILFS_CLDCONFIG_NSEGMENTS_PER_CLEAN_MAX :: u64 where "NILFS_CLDCONFIG_NSEGMENTS_PER_CLEAN_MAX = 32"

section \<open>Numbers and times\<close>

text \<open>Whether \<open>strtoul\<close> sets \<open>errno\<close> to \<open>ERANGE\<close>.\<close>

definition strtoul_erange :: "string \<Rightarrow> nat \<Rightarrow> bool" where
  "strtoul_erange arg base =
     (let s = dropWhile isspace arg;
          s = (if s \<noteq> [] \<and> (hd s = CHR ''-'' \<or> hd s = CHR ''+'') then tl s else s);
          (b, s) = strto_base base s
      in digits_val b (takeWhile (is_digit_of b) s) \<ge> 2 ^ 64)"

definition nilfs_cldconfig_get_ulong_argument :: "string list \<Rightarrow> errno + u64" where
  "nilfs_cldconfig_get_ulong_argument tokens =
     (let (num, endptr) = strtoull (tokens ! 1) 10 in
      if endptr \<noteq> [] then Inl (EOther 0)
      else if num = - 1 \<and> strtoul_erange (tokens ! 1) 10 then Inl (EOther 0)
      else Inr num)"

definition nilfs_cldconfig_get_time_argument :: "string list \<Rightarrow> errno + timespec" where
  "nilfs_cldconfig_get_time_argument tokens =
     (let arg = tokens ! 1; (num, endptr) = strtoull arg 10 in
      if endptr = arg then Inl (EOther 0)
      else if endptr \<noteq> [] \<and> hd endptr = CHR ''.''
      then let (val, endptr) = strtod arg in
           if endptr = arg \<or> endptr \<noteq> [] then Inl (EOther 0)
           else if double_erange val then Inl (EOther 0)
           else let fnum = round_double val;
                    diff = round_double (fnum - round_double (of_nat (unat num)));
                    nsec = truncate_rat (round_double (diff * 1000000000))
                in if - (2 ^ 63) \<le> nsec \<and> nsec < 2 ^ 63 then Inr \<lparr>tv_sec = num, tv_nsec = of_int nsec\<rparr>
                   else Inl EAbort
      else if endptr \<noteq> [] then Inl (EOther 0)
      else if num = - 1 then Inl (EOther 0)
      else Inr \<lparr>tv_sec = num, tv_nsec = 0\<rparr>)"

section \<open>Sizes\<close>

definition iec_unit :: "nilfs_size_unit \<Rightarrow> nilfs_size_unit" where
  "iec_unit u = (case u of NILFS_SIZE_UNIT_KB \<Rightarrow> NILFS_SIZE_UNIT_KIB | NILFS_SIZE_UNIT_MB \<Rightarrow> NILFS_SIZE_UNIT_MIB
     | NILFS_SIZE_UNIT_GB \<Rightarrow> NILFS_SIZE_UNIT_GIB | NILFS_SIZE_UNIT_TB \<Rightarrow> NILFS_SIZE_UNIT_TIB
     | NILFS_SIZE_UNIT_PB \<Rightarrow> NILFS_SIZE_UNIT_PIB | NILFS_SIZE_UNIT_EB \<Rightarrow> NILFS_SIZE_UNIT_EIB | u \<Rightarrow> u)"

definition si_letter :: "char \<Rightarrow> nilfs_size_unit option" where
  "si_letter c =
     (if c = CHR ''K'' then Some NILFS_SIZE_UNIT_KB else if c = CHR ''M'' then Some NILFS_SIZE_UNIT_MB
      else if c = CHR ''G'' then Some NILFS_SIZE_UNIT_GB else if c = CHR ''T'' then Some NILFS_SIZE_UNIT_TB
      else if c = CHR ''P'' then Some NILFS_SIZE_UNIT_PB else if c = CHR ''E'' then Some NILFS_SIZE_UNIT_EB else None)"

definition nilfs_parse_size_suffix :: "string \<Rightarrow> nilfs_size_unit option" where
  "nilfs_parse_size_suffix suffix =
     (let (ret, cp) =
        (case suffix of
           [] \<Rightarrow> (None, [])
         | c # cp \<Rightarrow>
             if c = CHR ''k''
             then (case cp of b # cp' \<Rightarrow> if b = CHR ''B'' then (Some NILFS_SIZE_UNIT_KB, cp') else (None, cp) | [] \<Rightarrow> (None, []))
             else case si_letter c of
               None \<Rightarrow> (None, suffix)
             | Some u \<Rightarrow>
                 (case cp of
                    [] \<Rightarrow> (Some (iec_unit u), [])
                  | b # cp' \<Rightarrow>
                      if b = CHR ''B'' then (Some u, cp')
                      else if b = CHR ''i'' \<and> cp' \<noteq> [] \<and> hd cp' = CHR ''B'' then (Some (iec_unit u), tl cp')
                      else (None, cp)))
      in if ret \<noteq> None \<and> cp \<noteq> [] then None else ret)"

definition nilfs_cldconfig_get_size_argument :: "string list \<Rightarrow> errno + nilfs_param" where
  "nilfs_cldconfig_get_size_argument tokens =
     (let arg = tokens ! 1; (num, endptr) = strtoull arg 10 in
      if endptr = arg then Inl (EOther 0)
      else if num = - 1 \<and> strtoul_erange arg 10 then Inl (EOther 0)
      else case (if endptr = [] then Some NILFS_SIZE_UNIT_NONE
                 else if endptr = ''%'' then (if num > 100 then None else Some NILFS_SIZE_UNIT_PERCENT)
                 else nilfs_parse_size_suffix endptr) of
        None \<Rightarrow> Inl (EOther 0)
      | Some u \<Rightarrow> Inr \<lparr>p_num = num, p_unit = u\<rparr>)"

definition nilfs_convert_units_to_bytes :: "nilfs_param \<Rightarrow> u64 option" where
  "nilfs_convert_units_to_bytes param =
     (let bytes = p_num param in case p_unit param of
        NILFS_SIZE_UNIT_KB \<Rightarrow> Some (bytes * 1000) | NILFS_SIZE_UNIT_KIB \<Rightarrow> Some (push_bit 10 bytes)
      | NILFS_SIZE_UNIT_MB \<Rightarrow> Some (bytes * 1000000) | NILFS_SIZE_UNIT_MIB \<Rightarrow> Some (push_bit 20 bytes)
      | NILFS_SIZE_UNIT_GB \<Rightarrow> Some (bytes * 1000000000) | NILFS_SIZE_UNIT_GIB \<Rightarrow> Some (push_bit 30 bytes)
      | NILFS_SIZE_UNIT_TB \<Rightarrow> Some (bytes * 1000000000000) | NILFS_SIZE_UNIT_TIB \<Rightarrow> Some (push_bit 40 bytes)
      | NILFS_SIZE_UNIT_PB \<Rightarrow> Some (bytes * 1000000000000000) | NILFS_SIZE_UNIT_PIB \<Rightarrow> Some (push_bit 50 bytes)
      | NILFS_SIZE_UNIT_EB \<Rightarrow> Some (bytes * 1000000000000000000) | NILFS_SIZE_UNIT_EIB \<Rightarrow> Some (push_bit 60 bytes)
      | _ \<Rightarrow> None)"

text \<open>A division by a segment size of zero is undefined.\<close>

definition div_c :: "u64 \<Rightarrow> u64 \<Rightarrow> errno + u64" where
  "div_c a b = (if b = 0 then Inl EAbort else Inr (a div b))"

definition nilfs_convert_size_to_nsegments :: "nilfs \<Rightarrow> nilfs_param \<Rightarrow> errno + u64" where
  "nilfs_convert_size_to_nsegments n param =
     (if p_unit param = NILFS_SIZE_UNIT_NONE then Inr (p_num param)
      else if p_unit param = NILFS_SIZE_UNIT_PERCENT
      then (case nilfs_get_nsegments n of None \<Rightarrow> Inl EAbort | Some ns \<Rightarrow> Inr ((ns * p_num param + 99) div 100))
      else case (nilfs_convert_units_to_bytes param, nilfs_get_block_size n, nilfs_get_blocks_per_segment n) of
        (Some bytes, Some bs, Some bps) \<Rightarrow> let segment_size = bs * ucast bps in div_c (bytes + segment_size - 1) segment_size
      | _ \<Rightarrow> Inl EAbort)"

definition nilfs_convert_size_to_blocks_per_segment :: "nilfs \<Rightarrow> nilfs_param \<Rightarrow> errno + u64" where
  "nilfs_convert_size_to_blocks_per_segment n param =
     (if p_unit param = NILFS_SIZE_UNIT_NONE then Inr (p_num param)
      else if p_unit param = NILFS_SIZE_UNIT_PERCENT
      then (case nilfs_get_blocks_per_segment n of None \<Rightarrow> Inl EAbort | Some bps \<Rightarrow> Inr ((ucast bps * p_num param + 99) div 100))
      else case (nilfs_convert_units_to_bytes param, nilfs_get_block_size n, nilfs_get_blocks_per_segment n) of
        (Some bytes, Some bs, Some bps) \<Rightarrow>
          let segment_size = bs * ucast bps in
          if segment_size = 0 then Inl EAbort
          else div_c (bytes mod segment_size + bs - 1) bs
      | _ \<Rightarrow> Inl EAbort)"

section \<open>Handlers\<close>

type_synonym handler = "nilfs \<Rightarrow> string list \<Rightarrow> (nilfs_cldconfig, unit) act"

definition put_time :: "(timespec \<Rightarrow> nilfs_cldconfig \<Rightarrow> nilfs_cldconfig) \<Rightarrow> handler" where
  "put_time put n tokens cf =
     (case nilfs_cldconfig_get_time_argument tokens of Inl e \<Rightarrow> (Inl e, cf) | Inr ts \<Rightarrow> (Inr (), put ts cf))"

text \<open>Sizes and counts that cannot be read are passed over; undefined behaviour is not.\<close>

definition put_size :: "(nilfs \<Rightarrow> nilfs_param \<Rightarrow> errno + u64) \<Rightarrow> (u64 \<Rightarrow> nilfs_cldconfig \<Rightarrow> nilfs_cldconfig) \<Rightarrow> handler" where
  "put_size conv put n tokens cf =
     (case nilfs_cldconfig_get_size_argument tokens of
        Inl e \<Rightarrow> (Inr (), cf)
      | Inr param \<Rightarrow> (case conv n param of Inl e \<Rightarrow> (Inl e, cf) | Inr v \<Rightarrow> (Inr (), put v cf)))"

definition put_nsegments :: "(i32 \<Rightarrow> nilfs_cldconfig \<Rightarrow> nilfs_cldconfig) \<Rightarrow> handler" where
  "put_nsegments put n tokens cf =
     (case nilfs_cldconfig_get_ulong_argument tokens of
        Inl e \<Rightarrow> (Inr (), cf)
      | Inr num \<Rightarrow>
          (Inr (), put (ucast (if num > NILFS_CLDCONFIG_NSEGMENTS_PER_CLEAN_MAX
                               then NILFS_CLDCONFIG_NSEGMENTS_PER_CLEAN_MAX else num)) cf))"

definition nilfs_cldconfig_handle_protection_period :: handler where
  "nilfs_cldconfig_handle_protection_period = put_time (\<lambda>ts cf. cf\<lparr>cf_protection_period := ts\<rparr>)"
definition nilfs_cldconfig_handle_min_clean_segments :: handler where
  "nilfs_cldconfig_handle_min_clean_segments =
     put_size nilfs_convert_size_to_nsegments (\<lambda>v cf. cf\<lparr>cf_min_clean_segments := v\<rparr>)"
definition nilfs_cldconfig_handle_max_clean_segments :: handler where
  "nilfs_cldconfig_handle_max_clean_segments =
     put_size nilfs_convert_size_to_nsegments (\<lambda>v cf. cf\<lparr>cf_max_clean_segments := v\<rparr>)"
definition nilfs_cldconfig_handle_clean_check_interval :: handler where
  "nilfs_cldconfig_handle_clean_check_interval = put_time (\<lambda>ts cf. cf\<lparr>cf_clean_check_interval := ts\<rparr>)"

definition nilfs_cldconfig_polhandle_table :: "(string \<times> nilfs_selection_policy) list" where
  "nilfs_cldconfig_polhandle_table =
     [(''timestamp'', NILFS_SELECTION_POLICY_TIMESTAMP), (''greedy'', NILFS_SELECTION_POLICY_GREEDY),
      (''cost-benefit'', NILFS_SELECTION_POLICY_COST_BENEFIT), (''segregation'', NILFS_SELECTION_POLICY_SEGREGATION)]"

definition nilfs_cldconfig_handle_selection_policy :: handler where
  "nilfs_cldconfig_handle_selection_policy n tokens cf =
     (case map_of nilfs_cldconfig_polhandle_table (tokens ! 1) of
        None \<Rightarrow> (Inr (), cf)
      | Some pol \<Rightarrow> (Inr (), cf\<lparr>cf_selection_policy := pol, cf_policy_name := tokens ! 1\<rparr>))"

definition nilfs_cldconfig_handle_nsegments_per_clean :: handler where
  "nilfs_cldconfig_handle_nsegments_per_clean = put_nsegments (\<lambda>v cf. cf\<lparr>cf_nsegments_per_clean := v\<rparr>)"
definition nilfs_cldconfig_handle_mc_nsegments_per_clean :: handler where
  "nilfs_cldconfig_handle_mc_nsegments_per_clean = put_nsegments (\<lambda>v cf. cf\<lparr>cf_mc_nsegments_per_clean := v\<rparr>)"
definition nilfs_cldconfig_handle_min_reclaimable_blocks :: handler where
  "nilfs_cldconfig_handle_min_reclaimable_blocks =
     put_size nilfs_convert_size_to_blocks_per_segment (\<lambda>v cf. cf\<lparr>cf_min_reclaimable_blocks := v\<rparr>)"
definition nilfs_cldconfig_handle_mc_min_reclaimable_blocks :: handler where
  "nilfs_cldconfig_handle_mc_min_reclaimable_blocks =
     put_size nilfs_convert_size_to_blocks_per_segment (\<lambda>v cf. cf\<lparr>cf_mc_min_reclaimable_blocks := v\<rparr>)"
definition nilfs_cldconfig_handle_cleaning_interval :: handler where
  "nilfs_cldconfig_handle_cleaning_interval = put_time (\<lambda>ts cf. cf\<lparr>cf_cleaning_interval := ts\<rparr>)"
definition nilfs_cldconfig_handle_mc_cleaning_interval :: handler where
  "nilfs_cldconfig_handle_mc_cleaning_interval = put_time (\<lambda>ts cf. cf\<lparr>cf_mc_cleaning_interval := ts\<rparr>)"
definition nilfs_cldconfig_handle_retry_interval :: handler where
  "nilfs_cldconfig_handle_retry_interval = put_time (\<lambda>ts cf. cf\<lparr>cf_retry_interval := ts\<rparr>)"
definition nilfs_cldconfig_handle_use_mmap :: handler where
  "nilfs_cldconfig_handle_use_mmap n tokens cf = (Inr (), cf\<lparr>cf_use_mmap := True\<rparr>)"
definition nilfs_cldconfig_handle_use_set_suinfo :: handler where
  "nilfs_cldconfig_handle_use_set_suinfo n tokens cf = (Inr (), cf\<lparr>cf_use_set_suinfo := True\<rparr>)"

definition nilfs_cldconfig_log_priority_table :: "(string \<times> nat) list" where
  "nilfs_cldconfig_log_priority_table =
     [(''emerg'', 0), (''alert'', 1), (''crit'', 2), (''err'', 3), (''warning'', 4), (''notice'', 5), (''info'', 6), (''debug'', 7)]"

definition nilfs_cldconfig_handle_log_priority :: handler where
  "nilfs_cldconfig_handle_log_priority n tokens cf =
     (case map_of nilfs_cldconfig_log_priority_table (tokens ! 1) of
        None \<Rightarrow> (Inr (), cf) | Some p \<Rightarrow> (Inr (), cf\<lparr>cf_log_priority := p\<rparr>))"

section \<open>Keywords\<close>

record nilfs_cldconfig_keyword =
  ck_text :: string
  ck_minargs :: nat
  ck_maxargs :: nat
  ck_handler :: handler

definition kw :: "string \<Rightarrow> nat \<Rightarrow> nat \<Rightarrow> handler \<Rightarrow> nilfs_cldconfig_keyword" where
  "kw t lo hi h = \<lparr>ck_text = t, ck_minargs = lo, ck_maxargs = hi, ck_handler = h\<rparr>"

definition nilfs_cldconfig_keyword_table :: "nilfs_cldconfig_keyword list" where
  "nilfs_cldconfig_keyword_table =
     [kw ''protection_period'' 2 2 nilfs_cldconfig_handle_protection_period,
      kw ''min_clean_segments'' 2 2 nilfs_cldconfig_handle_min_clean_segments,
      kw ''max_clean_segments'' 2 2 nilfs_cldconfig_handle_max_clean_segments,
      kw ''clean_check_interval'' 2 2 nilfs_cldconfig_handle_clean_check_interval,
      kw ''selection_policy'' 2 3 nilfs_cldconfig_handle_selection_policy,
      kw ''nsegments_per_clean'' 2 2 nilfs_cldconfig_handle_nsegments_per_clean,
      kw ''mc_nsegments_per_clean'' 2 2 nilfs_cldconfig_handle_mc_nsegments_per_clean,
      kw ''cleaning_interval'' 2 2 nilfs_cldconfig_handle_cleaning_interval,
      kw ''mc_cleaning_interval'' 2 2 nilfs_cldconfig_handle_mc_cleaning_interval,
      kw ''retry_interval'' 2 2 nilfs_cldconfig_handle_retry_interval,
      kw ''use_mmap'' 1 1 nilfs_cldconfig_handle_use_mmap,
      kw ''log_priority'' 2 2 nilfs_cldconfig_handle_log_priority,
      kw ''min_reclaimable_blocks'' 2 2 nilfs_cldconfig_handle_min_reclaimable_blocks,
      kw ''mc_min_reclaimable_blocks'' 2 2 nilfs_cldconfig_handle_mc_min_reclaimable_blocks,
      kw ''use_set_suinfo'' 1 1 nilfs_cldconfig_handle_use_set_suinfo]"

text \<open>Too few arguments are refused, too many only reported.\<close>

definition check_tokens :: "string list \<Rightarrow> nat \<Rightarrow> nat \<Rightarrow> bool" where
  "check_tokens tokens ntoksmin ntoksmax \<longleftrightarrow> length tokens \<ge> ntoksmin"

definition nilfs_cldconfig_handle_keyword :: handler where
  "nilfs_cldconfig_handle_keyword n tokens cf =
     (if tokens = [] then (Inr (), cf)
      else case find (\<lambda>w. ck_text w = tokens ! 0) nilfs_cldconfig_keyword_table of
        None \<Rightarrow> (Inr (), cf)
      | Some w \<Rightarrow>
          if \<not> check_tokens tokens (ck_minargs w) (ck_maxargs w) then (Inr (), cf)
          else ck_handler w n tokens cf)"

definition nilfs_cldconfig_set_default :: "nilfs \<Rightarrow> errno + nilfs_cldconfig" where
  "nilfs_cldconfig_set_default n =
     (case (nilfs_convert_size_to_nsegments n \<lparr>p_num = 10, p_unit = NILFS_SIZE_UNIT_PERCENT\<rparr>,
            nilfs_convert_size_to_nsegments n \<lparr>p_num = 20, p_unit = NILFS_SIZE_UNIT_PERCENT\<rparr>,
            nilfs_convert_size_to_blocks_per_segment n \<lparr>p_num = 10, p_unit = NILFS_SIZE_UNIT_PERCENT\<rparr>,
            nilfs_convert_size_to_blocks_per_segment n \<lparr>p_num = 1, p_unit = NILFS_SIZE_UNIT_PERCENT\<rparr>) of
        (Inr lo, Inr hi, Inr minb, Inr mcb) \<Rightarrow>
          Inr \<lparr>cf_selection_policy = NILFS_SELECTION_POLICY_TIMESTAMP,
               cf_protection_period = \<lparr>tv_sec = 3600, tv_nsec = 0\<rparr>, cf_policy_name = ''timestamp'',
               cf_log_file = ''/var/log/nilfs/'', cf_min_clean_segments = lo, cf_max_clean_segments = hi,
               cf_clean_check_interval = \<lparr>tv_sec = 10, tv_nsec = 0\<rparr>, cf_nsegments_per_clean = 2,
               cf_mc_nsegments_per_clean = 4, cf_cleaning_interval = \<lparr>tv_sec = 5, tv_nsec = 0\<rparr>,
               cf_mc_cleaning_interval = \<lparr>tv_sec = 1, tv_nsec = 0\<rparr>, cf_retry_interval = \<lparr>tv_sec = 60, tv_nsec = 0\<rparr>,
               cf_use_mmap = True, cf_use_set_suinfo = False, cf_log_priority = 6,
               cf_min_reclaimable_blocks = minb, cf_mc_min_reclaimable_blocks = mcb\<rparr>
      | _ \<Rightarrow> Inl EAbort)"

section \<open>Reading the file\<close>

definition newline :: char where "newline = CHR 0x0A"
definition nul :: char where "nul = CHR 0x00"

definition iseol :: "char \<Rightarrow> bool" where
  "iseol c \<longleftrightarrow> c = newline \<or> c = nul \<or> c = CHR ''#''"

definition token_char :: "char \<Rightarrow> bool" where
  "token_char c \<longleftrightarrow> \<not> isspace c \<and> \<not> iseol c"

text \<open>A line is the C string before its terminating null character.\<close>

fun tokenize :: "string \<Rightarrow> nat \<Rightarrow> string list" where
  "tokenize line 0 = []"
| "tokenize line (Suc ntoks) =
     (case dropWhile isspace line of
        [] \<Rightarrow> []
      | c # p \<Rightarrow>
          if iseol c then []
          else (c # takeWhile token_char p)
               # tokenize (case dropWhile token_char p of d # q \<Rightarrow> if isspace d then q else [] | [] \<Rightarrow> []) ntoks)"

definition LINE_MAX :: nat where "LINE_MAX = 2048"
definition NTOKENS_MAX :: nat where "NTOKENS_MAX = 16"

text \<open>\<open>fgets\<close>: up to a newline, at most \<open>LINE_MAX - 1\<close> characters.\<close>

definition fgets :: "string \<Rightarrow> string \<times> string" where
  "fgets s =
     (let l = take (LINE_MAX - 1) s; a = takeWhile (\<lambda>c. c \<noteq> newline) l
      in if length a < length l then (a @ [newline], drop (length a + 1) s) else (l, drop (length l) s))"

definition skip_line :: "string \<Rightarrow> string" where
  "skip_line s = drop 1 (dropWhile (\<lambda>c. c \<noteq> newline) s)"

lemma fgets_shorter: "s \<noteq> [] \<Longrightarrow> length (snd (fgets s)) < length s"
  by (auto simp: fgets_def Let_def LINE_MAX_def)

lemma skip_line_shorter: "length (skip_line s) \<le> length s"
  using length_dropWhile_le [of "\<lambda>c. c \<noteq> newline" s] by (simp add: skip_line_def)

function read_loop :: "nilfs \<Rightarrow> string \<Rightarrow> (nilfs_cldconfig, unit) act" where
  "read_loop n s cf =
     (if s = [] then (Inr (), cf)
      else let (chunk, rest) = fgets s; line = takeWhile (\<lambda>c. c \<noteq> nul) chunk in
        if line = [] then (Inl EAbort, cf)
        else let rest = (if last line \<noteq> newline then skip_line rest else rest);
                 tokens = tokenize line NTOKENS_MAX in
          if tokens = [] then read_loop n rest cf
          else case nilfs_cldconfig_handle_keyword n tokens cf of
            (Inl e, cf) \<Rightarrow> (Inl e, cf)
          | (Inr _, cf) \<Rightarrow> read_loop n rest cf)"
  by pat_completeness auto

lemma rest_shorter:
  assumes "s \<noteq> []" "(chunk, rest) = fgets s"
  shows "length rest < length s" "length (skip_line rest) < length s"
  using fgets_shorter [OF assms(1)] skip_line_shorter [of rest] assms(2) [symmetric] by auto

termination read_loop
  by (relation "measure (\<lambda>(n, s, cf). length s)") (auto intro: rest_shorter)

declare read_loop.simps [simp del]

text \<open>The file cannot be opened: \<open>None\<close>.\<close>

definition nilfs_cldconfig_do_read :: "nilfs \<Rightarrow> string option \<Rightarrow> (nilfs_cldconfig, unit) act" where
  "nilfs_cldconfig_do_read n conf cf =
     (case conf of None \<Rightarrow> (Inl (EOther 0), cf) | Some s \<Rightarrow> read_loop n s cf)"

definition nilfs_cldconfig_read :: "'w kernel \<Rightarrow> nilfs \<Rightarrow> string \<Rightarrow> string option \<Rightarrow> nilfs_cldconfig \<Rightarrow> 'w
    \<Rightarrow> (errno + unit) \<times> nilfs_cldconfig \<times> 'w" where
  "nilfs_cldconfig_read k n path conf cf w =
     (case k_stat k path w of (r, w) \<Rightarrow>
        if \<not> (case r of Inr st \<Rightarrow> st_kind st = Regular | Inl _ \<Rightarrow> False) then (Inl EINVAL, cf, w)
        else case nilfs_cldconfig_set_default n of
          Inl e \<Rightarrow> (Inl e, cf, w)
        | Inr cf \<Rightarrow>
            (case nilfs_cldconfig_do_read n conf cf of
               (Inl EAbort, cf) \<Rightarrow> (Inl EAbort, cf, w)
             | (_, cf) \<Rightarrow> (Inr (), cf, w)))"

section \<open>What every configuration keeps\<close>

lemma find_member: "find p xs = Some x \<Longrightarrow> x \<in> set xs \<and> p x"
  by (auto simp: find_Some_iff)

text \<open>One line; an empty one is handled like a keyword without effect.\<close>

lemma read_loop_end [simp]: "read_loop n [] cf = (Inr (), cf)"
  by (simp add: read_loop.simps)

lemma read_loop_line:
  assumes "s \<noteq> []" "fgets s = (chunk, rest)" "line = takeWhile (\<lambda>c. c \<noteq> nul) chunk" "line \<noteq> []"
  shows "read_loop n s cf = (case nilfs_cldconfig_handle_keyword n (tokenize line NTOKENS_MAX) cf of
     (Inl e, cf) \<Rightarrow> (Inl e, cf)
   | (Inr _, cf) \<Rightarrow> read_loop n (if last line \<noteq> newline then skip_line rest else rest) cf)"
  using assms by (subst read_loop.simps) (simp add: Let_def nilfs_cldconfig_handle_keyword_def)

text \<open>
  A property of configurations that every handler of the table keeps is kept by reading any file.
\<close>

definition handler_keeps :: "(nilfs_cldconfig \<Rightarrow> bool) \<Rightarrow> handler \<Rightarrow> bool" where
  "handler_keeps P h \<longleftrightarrow> (\<forall>n tokens cf r cf'. P cf \<longrightarrow> h n tokens cf = (r, cf') \<longrightarrow> P cf')"

locale config_property =
  fixes P :: "nilfs_cldconfig \<Rightarrow> bool"
  assumes handlers: "w \<in> set nilfs_cldconfig_keyword_table \<Longrightarrow> handler_keeps P (ck_handler w)"
begin

lemma keyword_keeps: "P cf \<Longrightarrow> nilfs_cldconfig_handle_keyword n tokens cf = (r, cf') \<Longrightarrow> P cf'"
  using handlers by (auto simp: nilfs_cldconfig_handle_keyword_def handler_keeps_def dest!: find_member split: if_splits option.splits)

lemma read_loop_keeps: "P cf \<Longrightarrow> read_loop n s cf = (r, cf') \<Longrightarrow> P cf'"
proof (induction "length s" arbitrary: s cf r cf' rule: less_induct)
  case less
  obtain chunk rest where f: "fgets s = (chunk, rest)" by (rule prod.exhaust)
  define line where "line = takeWhile (\<lambda>c. c \<noteq> nul) chunk"
  show ?case
  proof (cases "s = [] \<or> line = []")
    case True
    then show ?thesis using less(2,3) f by (cases "s = []") (auto simp: line_def read_loop.simps [of n s cf])
  next
    case False
    then have ne: "s \<noteq> []" "line \<noteq> []" by auto
    obtain q cf1 where h: "nilfs_cldconfig_handle_keyword n (tokenize line NTOKENS_MAX) cf = (q, cf1)" by (rule prod.exhaust)
    have p: "P cf1" using keyword_keeps [OF less(2) h] .
    have sh: "length (if last line \<noteq> newline then skip_line rest else rest) < length s"
      using rest_shorter [OF ne(1) f [symmetric]] by simp
    show ?thesis
      using less(1) [OF sh p] less(3) p read_loop_line [OF ne(1) f line_def ne(2), of n cf] h by (cases q) auto
  qed
qed

lemma read_keeps:
  assumes "\<And>cf0. nilfs_cldconfig_set_default n = Inr cf0 \<Longrightarrow> P cf0" "nilfs_cldconfig_read k n path conf cf w = (Inr (), cf', w')"
  shows "P cf'"
proof -
  obtain cf0 q cf1 where d: "nilfs_cldconfig_set_default n = Inr cf0" "nilfs_cldconfig_do_read n conf cf0 = (q, cf1)" "cf' = cf1"
    using assms(2) by (auto simp: nilfs_cldconfig_read_def split: prod.splits sum.splits if_splits errno.splits)
  then show ?thesis using assms(1) read_loop_keeps by (auto simp: nilfs_cldconfig_do_read_def split: option.splits)
qed

end

definition config_wf :: "nilfs_cldconfig \<Rightarrow> bool" where
  "config_wf cf \<longleftrightarrow> unat (cf_nsegments_per_clean cf) \<le> 32 \<and> unat (cf_mc_nsegments_per_clean cf) \<le> 32
     \<and> (cf_policy_name cf, cf_selection_policy cf) \<in> set nilfs_cldconfig_polhandle_table \<and> cf_log_priority cf \<le> 7"

lemma clamp_le: "unat (ucast (if num > NILFS_CLDCONFIG_NSEGMENTS_PER_CLEAN_MAX
    then NILFS_CLDCONFIG_NSEGMENTS_PER_CLEAN_MAX else num) :: i32) \<le> 32"
proof -
  let ?m = "if num > NILFS_CLDCONFIG_NSEGMENTS_PER_CLEAN_MAX then NILFS_CLDCONFIG_NSEGMENTS_PER_CLEAN_MAX else num"
  have "unat ?m \<le> 32" by (simp add: NILFS_CLDCONFIG_NSEGMENTS_PER_CLEAN_MAX_def word_less_nat_alt)
  moreover have "unat (ucast ?m :: i32) \<le> unat ?m" by (simp add: unsigned_ucast_eq unsigned_take_bit_eq take_bit_nat_less_eq_self)
  ultimately show ?thesis by linarith
qed

lemmas handler_defs = nilfs_cldconfig_handle_protection_period_def nilfs_cldconfig_handle_min_clean_segments_def
  nilfs_cldconfig_handle_max_clean_segments_def nilfs_cldconfig_handle_clean_check_interval_def
  nilfs_cldconfig_handle_selection_policy_def nilfs_cldconfig_handle_nsegments_per_clean_def
  nilfs_cldconfig_handle_mc_nsegments_per_clean_def nilfs_cldconfig_handle_cleaning_interval_def
  nilfs_cldconfig_handle_mc_cleaning_interval_def nilfs_cldconfig_handle_retry_interval_def
  nilfs_cldconfig_handle_use_mmap_def nilfs_cldconfig_handle_log_priority_def
  nilfs_cldconfig_handle_min_reclaimable_blocks_def nilfs_cldconfig_handle_mc_min_reclaimable_blocks_def
  nilfs_cldconfig_handle_use_set_suinfo_def

lemma put_keeps:
  "(\<And>ts cf. P cf \<Longrightarrow> P (put ts cf)) \<Longrightarrow> handler_keeps P (put_time put)"
  "(\<And>v cf. P cf \<Longrightarrow> P (putv v cf)) \<Longrightarrow> handler_keeps P (put_size conv putv)"
  "(\<And>v cf. unat v \<le> 32 \<Longrightarrow> P cf \<Longrightarrow> P (puti v cf)) \<Longrightarrow> handler_keeps P (put_nsegments puti)"
  using clamp_le by (auto simp: handler_keeps_def put_time_def put_size_def put_nsegments_def split: sum.splits split del: if_split)

lemma policy_keeps: "handler_keeps config_wf nilfs_cldconfig_handle_selection_policy"
  by (auto simp: handler_keeps_def nilfs_cldconfig_handle_selection_policy_def config_wf_def dest: map_of_SomeD split: option.splits)

lemma log_keeps: "handler_keeps config_wf nilfs_cldconfig_handle_log_priority"
proof -
  have "p \<le> 7" if "map_of nilfs_cldconfig_log_priority_table s = Some p" for s p
    using map_of_SomeD [OF that] by (auto simp: nilfs_cldconfig_log_priority_table_def)
  then show ?thesis
    by (auto simp: handler_keeps_def nilfs_cldconfig_handle_log_priority_def config_wf_def split: option.splits)
qed

lemma flag_keeps: "handler_keeps config_wf nilfs_cldconfig_handle_use_mmap" "handler_keeps config_wf nilfs_cldconfig_handle_use_set_suinfo"
  by (simp_all add: handler_keeps_def nilfs_cldconfig_handle_use_mmap_def nilfs_cldconfig_handle_use_set_suinfo_def config_wf_def)

lemma handler_wf: "w \<in> set nilfs_cldconfig_keyword_table \<Longrightarrow> handler_keeps config_wf (ck_handler w)"
proof -
  have "\<forall>w \<in> set nilfs_cldconfig_keyword_table. handler_keeps config_wf (ck_handler w)"
    unfolding nilfs_cldconfig_keyword_table_def kw_def list.set ball_simps nilfs_cldconfig_keyword.select_convs
    by (intro conjI policy_keeps log_keeps flag_keeps TrueI; unfold handler_defs; rule put_keeps; simp add: config_wf_def)
  then show "w \<in> set nilfs_cldconfig_keyword_table \<Longrightarrow> handler_keeps config_wf (ck_handler w)" by blast
qed

interpretation conf: config_property config_wf
  by unfold_locales (rule handler_wf)

text \<open>C32. Whatever the configuration file contains, the configuration read from it has at most 32
  segments per cleaning cycle, a policy name that belongs to its policy number in the table of
  policies, and one of the eight log priorities.\<close>

theorem config_read_wf:
  assumes "nilfs_cldconfig_read k n path conf cf w = (Inr (), cf', w')"
  shows "config_wf cf'"
proof (rule conf.read_keeps [OF _ assms])
  fix cf0 assume "nilfs_cldconfig_set_default n = Inr cf0"
  then show "config_wf cf0"
    by (auto simp: nilfs_cldconfig_set_default_def config_wf_def nilfs_cldconfig_polhandle_table_def split: sum.splits)
qed

section \<open>Files as sequences of commands\<close>

text \<open>A file written as one command per line, words separated by spaces.\<close>

fun line_text :: "string list \<Rightarrow> string" where
  "line_text [] = []"
| "line_text [w] = w"
| "line_text (w # ws) = w @ CHR '' '' # line_text ws"

definition config_text :: "string list list \<Rightarrow> string" where
  "config_text cmds = concat (map (\<lambda>ws. line_text ws @ [newline]) cmds)"

definition word_ok :: "string \<Rightarrow> bool" where
  "word_ok w \<longleftrightarrow> w \<noteq> [] \<and> (\<forall>c \<in> set w. token_char c)"

definition line_ok :: "string list \<Rightarrow> bool" where
  "line_ok ws \<longleftrightarrow> length ws \<le> NTOKENS_MAX \<and> (\<forall>w \<in> set ws. word_ok w) \<and> length (line_text ws) < LINE_MAX - 1"

fun commands :: "nilfs \<Rightarrow> string list list \<Rightarrow> (nilfs_cldconfig, unit) act" where
  "commands n [] cf = (Inr (), cf)"
| "commands n (c # cs) cf =
     (case nilfs_cldconfig_handle_keyword n c cf of (Inl e, cf) \<Rightarrow> (Inl e, cf) | (Inr _, cf) \<Rightarrow> commands n cs cf)"

lemma space_facts [simp]: "isspace (CHR '' '')" "isspace newline" "\<not> token_char (CHR '' '')" "\<not> token_char newline"
  "iseol newline" "newline \<noteq> nul" "CHR '' '' \<noteq> newline" "CHR '' '' \<noteq> nul"
  by (simp_all add: isspace_def token_char_def newline_def nul_def iseol_def code_def)

lemma tokenize_word:
  assumes "word_ok w" "isspace d"
  shows "tokenize (w @ d # p) (Suc n) = w # tokenize p n"
proof -
  obtain c cs where w: "w = c # cs" using assms(1) by (cases w) (auto simp: word_ok_def)
  have c: "\<not> isspace c" "\<not> iseol c" "\<forall>x \<in> set cs. token_char x" using assms(1) w by (auto simp: word_ok_def token_char_def)
  have "takeWhile token_char (cs @ d # p) = cs" "dropWhile token_char (cs @ d # p) = d # p"
    using c(3) assms(2) by (simp_all add: takeWhile_append2 dropWhile_append2 token_char_def)
  then show ?thesis using w c assms(2) by simp
qed

lemma tokenize_line:
  "\<forall>w \<in> set ws. word_ok w \<Longrightarrow> length ws \<le> n \<Longrightarrow> tokenize (line_text ws @ [newline]) n = ws"
proof (induction ws arbitrary: n rule: line_text.induct)
  case 1
  show ?case by (cases n) simp_all
next
  case (2 w)
  then obtain m where n: "n = Suc m" by (cases n) auto
  have "tokenize [] m = []" by (cases m) simp_all
  then show ?case using 2 n tokenize_word [of w newline "[]" m] by simp
next
  case (3 w v vs)
  then obtain m where n: "n = Suc m" by (cases n) auto
  then show ?case using 3 tokenize_word [of w "CHR '' ''" "line_text (v # vs) @ [newline]" m] by simp
qed

lemma line_chars: "\<forall>w \<in> set ws. word_ok w \<Longrightarrow> c \<in> set (line_text ws) \<Longrightarrow> token_char c \<or> c = CHR '' ''"
  by (induction ws rule: line_text.induct) (auto simp: word_ok_def)

lemma read_loop_text: "\<forall>ws \<in> set cmds. line_ok ws \<Longrightarrow> read_loop n (config_text cmds) cf = commands n cmds cf"
proof (induction cmds arbitrary: cf)
  case (Cons ws cmds)
  let ?l = "line_text ws" and ?s = "config_text (ws # cmds)"
  have s: "?s = ?l @ newline # config_text cmds" by (simp add: config_text_def)
  have ok: "line_ok ws" using Cons by simp
  have ch: "c \<noteq> newline \<and> c \<noteq> nul" if "c \<in> set ?l" for c
    using line_chars [of ws c] ok that by (auto simp: line_ok_def token_char_def iseol_def)
  have nn: "takeWhile (\<lambda>c. c \<noteq> newline) (?l @ newline # xs) = ?l" for xs using ch by (simp add: takeWhile_append2)
  obtain m where m: "LINE_MAX - 1 - length ?l = Suc m" using ok unfolding line_ok_def by (metis less_imp_Suc_add diff_add_inverse add_Suc_right)
  then have t: "take (LINE_MAX - 1) ?s = ?l @ newline # take m (config_text cmds)" using ok s by (simp add: line_ok_def)
  have f: "fgets ?s = (?l @ [newline], config_text cmds)"
    unfolding fgets_def Let_def t nn using s by simp
  have tw: "takeWhile (\<lambda>c. c \<noteq> nul) (?l @ [newline]) = ?l @ [newline]" using ch by (simp add: takeWhile_append2)
  have tk: "tokenize (?l @ [newline]) NTOKENS_MAX = ws" using tokenize_line ok by (simp add: line_ok_def)
  have "?s \<noteq> []" "?l @ [newline] \<noteq> []" using s by auto
  note step = read_loop_line [OF this(1) f tw [symmetric] this(2), of n cf]
  show ?case using step tk Cons by (simp split: prod.splits sum.splits)
qed (simp add: config_text_def)

text \<open>C33. A configuration file that consists of lines of words, each line short enough and of at most
  16 words, is carried out as the sequence of its commands on the default configuration, in order:
  splitting into lines and words loses, merges and invents nothing.\<close>

theorem config_file_commands:
  assumes "k_stat k path w = (Inr st, w')" "st_kind st = Regular" "nilfs_cldconfig_set_default n = Inr cf0"
    "\<forall>ws \<in> set cmds. line_ok ws" "commands n cmds cf0 = (r, cf1)" "r \<noteq> Inl EAbort"
  shows "nilfs_cldconfig_read k n path (Some (config_text cmds)) cf w = (Inr (), cf1, w')"
  using assms read_loop_text [of cmds n cf0]
  by (cases r) (auto simp: nilfs_cldconfig_read_def nilfs_cldconfig_do_read_def split: errno.splits)

lemma commands_append: "commands n (xs @ ys) cf =
    (case commands n xs cf of (Inl e, cf) \<Rightarrow> (Inl e, cf) | (Inr _, cf) \<Rightarrow> commands n ys cf)"
  by (induction xs arbitrary: cf) (auto split: prod.splits sum.splits)

definition time_keywords :: "string list" where
  "time_keywords = [''protection_period'', ''clean_check_interval'', ''cleaning_interval'', ''mc_cleaning_interval'', ''retry_interval'']"

lemma time_handler:
  "\<forall>key \<in> set time_keywords. \<exists>put. find (\<lambda>w. ck_text w = key) nilfs_cldconfig_keyword_table = Some (kw key 2 2 (put_time put))"
  unfolding time_keywords_def list.set ball_simps
proof (intro conjI TrueI, goal_cases)
  case 1
  show ?case by (rule exI [of _ "\<lambda>ts cf. cf\<lparr>cf_protection_period := ts\<rparr>"]) (simp add: nilfs_cldconfig_keyword_table_def kw_def handler_defs)
next
  case 2
  show ?case by (rule exI [of _ "\<lambda>ts cf. cf\<lparr>cf_clean_check_interval := ts\<rparr>"]) (simp add: nilfs_cldconfig_keyword_table_def kw_def handler_defs)
next
  case 3
  show ?case by (rule exI [of _ "\<lambda>ts cf. cf\<lparr>cf_cleaning_interval := ts\<rparr>"]) (simp add: nilfs_cldconfig_keyword_table_def kw_def handler_defs)
next
  case 4
  show ?case by (rule exI [of _ "\<lambda>ts cf. cf\<lparr>cf_mc_cleaning_interval := ts\<rparr>"]) (simp add: nilfs_cldconfig_keyword_table_def kw_def handler_defs)
next
  case 5
  show ?case by (rule exI [of _ "\<lambda>ts cf. cf\<lparr>cf_retry_interval := ts\<rparr>"]) (simp add: nilfs_cldconfig_keyword_table_def kw_def handler_defs)
qed

lemma bad_time_fails:
  assumes "key \<in> set time_keywords" "nilfs_cldconfig_get_time_argument (key # arg # args) = Inl e"
  shows "nilfs_cldconfig_handle_keyword n (key # arg # args) cf = (Inl e, cf)"
  using bspec [OF time_handler assms(1)] assms(2)
  by (auto simp: nilfs_cldconfig_handle_keyword_def check_tokens_def kw_def put_time_def)

text \<open>C34. A time that cannot be read ends the reading of the file: the commands before it have their
  effect, those behind it none, and the daemon goes on with that configuration as if the file were
  fine. (Numbers and sizes that cannot be read are passed over instead.)\<close>

theorem bad_time_stops_reading:
  assumes "k_stat k path w = (Inr st, w')" "st_kind st = Regular" "nilfs_cldconfig_set_default n = Inr cf0"
    "\<forall>ws \<in> set (pre @ (key # arg # args) # post). line_ok ws" "commands n pre cf0 = (Inr (), cf1)"
    "key \<in> set time_keywords" "nilfs_cldconfig_get_time_argument (key # arg # args) = Inl (EOther 0)"
  shows "nilfs_cldconfig_read k n path (Some (config_text (pre @ (key # arg # args) # post))) cf w = (Inr (), cf1, w')"
  using assms read_loop_text [OF assms(4), of n cf0] bad_time_fails [OF assms(6,7)]
  by (simp add: nilfs_cldconfig_read_def nilfs_cldconfig_do_read_def commands_append)

section \<open>Sizes with a unit\<close>

text \<open>The suffixes of the manual page and the number of bytes each stands for.\<close>

definition size_suffixes :: "(string \<times> nat) list" where
  "size_suffixes = [(''kB'', 1000), (''KB'', 1000), (''MB'', 1000 ^ 2), (''GB'', 1000 ^ 3), (''TB'', 1000 ^ 4), (''PB'', 1000 ^ 5),
     (''EB'', 1000 ^ 6), (''K'', 2 ^ 10), (''M'', 2 ^ 20), (''G'', 2 ^ 30), (''T'', 2 ^ 40), (''P'', 2 ^ 50), (''E'', 2 ^ 60),
     (''KiB'', 2 ^ 10), (''MiB'', 2 ^ 20), (''GiB'', 2 ^ 30), (''TiB'', 2 ^ 40), (''PiB'', 2 ^ 50), (''EiB'', 2 ^ 60)]"

definition unit_bytes :: "nilfs_size_unit \<Rightarrow> nat" where
  "unit_bytes u = (case u of NILFS_SIZE_UNIT_KB \<Rightarrow> 1000 | NILFS_SIZE_UNIT_KIB \<Rightarrow> 2 ^ 10
     | NILFS_SIZE_UNIT_MB \<Rightarrow> 1000 ^ 2 | NILFS_SIZE_UNIT_MIB \<Rightarrow> 2 ^ 20 | NILFS_SIZE_UNIT_GB \<Rightarrow> 1000 ^ 3 | NILFS_SIZE_UNIT_GIB \<Rightarrow> 2 ^ 30
     | NILFS_SIZE_UNIT_TB \<Rightarrow> 1000 ^ 4 | NILFS_SIZE_UNIT_TIB \<Rightarrow> 2 ^ 40 | NILFS_SIZE_UNIT_PB \<Rightarrow> 1000 ^ 5 | NILFS_SIZE_UNIT_PIB \<Rightarrow> 2 ^ 50
     | NILFS_SIZE_UNIT_EB \<Rightarrow> 1000 ^ 6 | NILFS_SIZE_UNIT_EIB \<Rightarrow> 2 ^ 60 | _ \<Rightarrow> 0)"

lemma convert_bytes: "u \<noteq> NILFS_SIZE_UNIT_NONE \<Longrightarrow> u \<noteq> NILFS_SIZE_UNIT_PERCENT \<Longrightarrow>
    nilfs_convert_units_to_bytes \<lparr>p_num = x, p_unit = u\<rparr> = Some (x * of_nat (unit_bytes u))"
  by (cases u) (simp_all add: nilfs_convert_units_to_bytes_def unit_bytes_def push_bit_eq_mult)

definition suffix_ok :: "string \<times> nat \<Rightarrow> bool" where
  "suffix_ok = (\<lambda>(suf, m). suf \<noteq> [] \<and> suf \<noteq> ''%'' \<and> \<not> is_digit_of 10 (hd suf) \<and> (case nilfs_parse_size_suffix suf of None \<Rightarrow> False
     | Some u \<Rightarrow> u \<noteq> NILFS_SIZE_UNIT_NONE \<and> u \<noteq> NILFS_SIZE_UNIT_PERCENT \<and> unit_bytes u = m))"

lemma suffixes_ok: "list_all suffix_ok size_suffixes"
  unfolding size_suffixes_def list.pred_inject
  by (intro conjI TrueI; simp add: suffix_ok_def nilfs_parse_size_suffix_def si_letter_def iec_unit_def unit_bytes_def is_digit_of_def
      digit_val_def isdigit_def code_def)

lemma suffix_bytes:
  assumes "(suf, m) \<in> set size_suffixes"
  shows "\<exists>u. nilfs_parse_size_suffix suf = Some u \<and> u \<noteq> NILFS_SIZE_UNIT_NONE \<and> u \<noteq> NILFS_SIZE_UNIT_PERCENT \<and> suf \<noteq> [] \<and> suf \<noteq> ''%''
     \<and> \<not> is_digit_of 10 (hd suf) \<and> nilfs_convert_units_to_bytes \<lparr>p_num = x, p_unit = u\<rparr> = Some (x * of_nat m)"
proof -
  have "suffix_ok (suf, m)" using suffixes_ok assms by (simp add: list_all_iff)
  then show ?thesis by (auto simp: suffix_ok_def convert_bytes split: option.splits)
qed

lemma digit_run_end:
  assumes "num < 2 ^ 64" "suf \<noteq> []" "\<not> is_digit_of 10 (hd suf)"
  shows "strtoull (show_dec num @ suf) 10 = (of_nat num, suf)" "\<not> strtoul_erange (show_dec num @ suf) 10"
proof -
  show "strtoull (show_dec num @ suf) 10 = (of_nat num, suf)" using strtoull_show assms by blast
  obtain c cs where s: "show_dec num = c # cs" using show_dec_nonempty by (meson neq_Nil_conv)
  obtain d :: nat where d: "d < 10" "c = char_of (48 + d)" using show_dec_digits [of c num] s by auto
  have dw: "dropWhile isspace (show_dec num @ suf) = show_dec num @ suf" using s d digit_char [OF d(1)] by simp
  have hd: "hd (show_dec num @ suf) \<noteq> CHR ''-''" "hd (show_dec num @ suf) \<noteq> CHR ''+''" using s d digit_char [OF d(1)] by auto
  have "\<forall>x \<in> set (show_dec num). is_digit_of 10 x" using show_dec_digits digit_char(4) by blast
  then have "takeWhile (is_digit_of 10) (show_dec num @ suf) = show_dec num"
    using assms(2,3) by (cases suf) (simp_all add: takeWhile_append2)
  then show "\<not> strtoul_erange (show_dec num @ suf) 10"
    unfolding strtoul_erange_def dw Let_def using hd assms(1) by (simp add: strto_base_def)
qed

text \<open>Division that rounds up, in 64 bits.\<close>

lemma unat_ceiling:
  assumes "0 < g" "b + g \<le> 2 ^ 64" "g < 2 ^ 64"
  shows "unat ((of_nat b + of_nat g - 1 :: u64) div of_nat g) = (b + g - 1) div g"
proof -
  have w: "(of_nat b + of_nat g - 1 :: u64) = of_nat (b + g - 1)" using assms(1) by (simp add: of_nat_diff)
  have "b + g - 1 < 2 ^ 64" using assms by linarith
  then have "unat (of_nat (b + g - 1) :: u64) = b + g - 1" "unat (of_nat g :: u64) = g"
    using assms(3) by (simp_all add: unsigned_of_nat take_bit_nat_eq_self del: of_nat_diff)
  then show ?thesis unfolding w unat_div by (simp only:)
qed

lemma ceiling_least:
  assumes "0 < (g :: nat)"
  shows "(b + g - 1) div g \<le> v \<longleftrightarrow> b \<le> v * g"
proof -
  have "(b + g - 1) div g \<le> v \<longleftrightarrow> b + g - 1 < (v + 1) * g" using assms by (metis div_less_iff_less_mult less_Suc_eq_le Suc_eq_plus1)
  also have "\<dots> \<longleftrightarrow> b \<le> v * g" using assms by (simp add: algebra_simps) linarith
  finally show ?thesis .
qed

definition segment_bytes :: "nilfs \<Rightarrow> nat option" where
  "segment_bytes n = (case (nilfs_get_block_size n, nilfs_get_blocks_per_segment n) of
     (Some bs, Some bps) \<Rightarrow> Some (unat bs * unat bps) | _ \<Rightarrow> None)"

lemma min_clean_keyword: "nilfs_cldconfig_handle_keyword n [''min_clean_segments'', arg] cf =
    nilfs_cldconfig_handle_min_clean_segments n [''min_clean_segments'', arg] cf"
  by (simp add: nilfs_cldconfig_handle_keyword_def nilfs_cldconfig_keyword_table_def kw_def check_tokens_def)

text \<open>C35. A number with one of the documented suffixes after \<open>min_clean_segments\<close> sets that limit to the
  least number of segments that hold as many bytes: neither the reading of the digits and the suffix
  nor the conversion loses anything, as long as the number of bytes fits 64 bits.\<close>

theorem config_size_in_segments:
  assumes suf: "(suf, m) \<in> set size_suffixes" and seg: "segment_bytes n = Some g" "0 < g" and fit: "num * m + g < 2 ^ 64"
  shows "\<exists>v. nilfs_cldconfig_handle_keyword n [''min_clean_segments'', show_dec num @ suf] cf = (Inr (), cf\<lparr>cf_min_clean_segments := v\<rparr>)
     \<and> (\<forall>x. unat v \<le> x \<longleftrightarrow> num * m \<le> x * g)"
proof -
  have m: "m \<ge> 1" using suf by (auto simp: size_suffixes_def)
  then have "num \<le> num * m" by simp
  then have num: "num < 2 ^ 64" and g: "g < 2 ^ 64" using fit by linarith+
  obtain u where u: "nilfs_parse_size_suffix suf = Some u" "u \<noteq> NILFS_SIZE_UNIT_NONE" "u \<noteq> NILFS_SIZE_UNIT_PERCENT" "suf \<noteq> []" "suf \<noteq> ''%''"
    "\<not> is_digit_of 10 (hd suf)" "nilfs_convert_units_to_bytes \<lparr>p_num = of_nat num, p_unit = u\<rparr> = Some (of_nat num * of_nat m)"
    using suffix_bytes [OF suf, of "of_nat num"] by blast
  note dr = digit_run_end [OF num u(4,6)]
  have arg: "nilfs_cldconfig_get_size_argument [''min_clean_segments'', show_dec num @ suf] = Inr \<lparr>p_num = of_nat num, p_unit = u\<rparr>"
    using dr u by (simp add: nilfs_cldconfig_get_size_argument_def)
  obtain bs bps where b: "nilfs_get_block_size n = Some bs" "nilfs_get_blocks_per_segment n = Some bps" "g = unat bs * unat bps"
    using seg by (auto simp: segment_bytes_def split: option.splits)
  have sz: "bs * ucast bps = of_nat g" unfolding b(3) by simp
  have nz: "(of_nat g :: u64) \<noteq> 0" 
  proof
    assume "(of_nat g :: u64) = 0"
    then have "unat (of_nat g :: u64) = 0" by simp
    then show False using seg(2) g by (simp add: unsigned_of_nat take_bit_nat_eq_self)
  qed
  let ?v = "(of_nat (num * m) + of_nat g - 1 :: u64) div of_nat g"
  have "nilfs_convert_size_to_nsegments n \<lparr>p_num = of_nat num, p_unit = u\<rparr> = Inr ?v"
    using u b(1,2) nz by (simp add: nilfs_convert_size_to_nsegments_def sz div_c_def Let_def)
  moreover have "unat ?v \<le> x \<longleftrightarrow> num * m \<le> x * g" for x
    using unat_ceiling [OF seg(2) _ g, of "num * m"] ceiling_least [OF seg(2), of "num * m" x] fit by simp
  ultimately show ?thesis
    unfolding min_clean_keyword nilfs_cldconfig_handle_min_clean_segments_def put_size_def arg by auto
qed

section \<open>Examples\<close>

definition demo_conf_kernel :: "unit kernel" where
  "demo_conf_kernel = null_kernel\<lparr>k_stat := (\<lambda>p w. (Inr \<lparr>st_kind = Regular, st_size = 0, st_dev = 0, st_ino = 0, st_rdev = 0\<rparr>, w))\<rparr>"

definition demo_nilfs :: nilfs where
  "demo_nilfs = l_nilfs (demo_lib ())"

lemma demo_nilfs_facts:
  "nilfs_get_nsegments demo_nilfs = Some 4" "nilfs_get_blocks_per_segment demo_nilfs = Some 16" "nilfs_get_block_size demo_nilfs = Some 1024"
  by (simp_all add: demo_nilfs_def demo_lib_def nilfs_get_nsegments_def nilfs_get_blocks_per_segment_def nilfs_get_block_size_def demo_layout_fields)

definition demo_conf :: nilfs_cldconfig where
  "demo_conf = (case nilfs_cldconfig_set_default demo_nilfs of Inr cf \<Rightarrow> cf)"

lemma demo_default: "nilfs_cldconfig_set_default demo_nilfs = Inr demo_conf"
  by (simp add: demo_conf_def nilfs_cldconfig_set_default_def nilfs_convert_size_to_nsegments_def
      nilfs_convert_size_to_blocks_per_segment_def demo_nilfs_facts)

definition demo_cmds :: "string list list" where
  "demo_cmds = [[''selection_policy'', ''greedy''], [''nsegments_per_clean'', ''99'']]"

lemma demo_words:
  "line_ok [''selection_policy'', ''greedy'']" "line_ok [''nsegments_per_clean'', ''99'']"
  "line_ok [''retry_interval'', ''soon'']" "line_ok [''use_set_suinfo'']"
  by (simp_all add: line_ok_def word_ok_def token_char_def isspace_def iseol_def newline_def nul_def code_def NTOKENS_MAX_def LINE_MAX_def)

lemma demo_run: "commands demo_nilfs demo_cmds demo_conf =
    (Inr (), demo_conf\<lparr>cf_selection_policy := NILFS_SELECTION_POLICY_GREEDY, cf_policy_name := ''greedy'', cf_nsegments_per_clean := 32\<rparr>)"
proof -
  have p: "nilfs_cldconfig_handle_keyword demo_nilfs [''selection_policy'', ''greedy''] cf
      = (Inr (), cf\<lparr>cf_selection_policy := NILFS_SELECTION_POLICY_GREEDY, cf_policy_name := ''greedy''\<rparr>)" for cf
    by (simp add: nilfs_cldconfig_handle_keyword_def nilfs_cldconfig_keyword_table_def kw_def check_tokens_def
        nilfs_cldconfig_handle_selection_policy_def nilfs_cldconfig_polhandle_table_def)
  have s: "strtoull ''99'' 10 = (99, [])"
    by (simp add: strtoull_def strto_base_def isspace_def is_digit_of_def digit_val_def isdigit_def code_def digits_val_def)
  have n: "nilfs_cldconfig_handle_keyword demo_nilfs [''nsegments_per_clean'', ''99''] cf = (Inr (), cf\<lparr>cf_nsegments_per_clean := 32\<rparr>)" for cf
    by (simp add: nilfs_cldconfig_handle_keyword_def nilfs_cldconfig_keyword_table_def kw_def check_tokens_def
        nilfs_cldconfig_handle_nsegments_per_clean_def put_nsegments_def nilfs_cldconfig_get_ulong_argument_def s
        NILFS_CLDCONFIG_NSEGMENTS_PER_CLEAN_MAX_def word_less_nat_alt)
  show ?thesis by (simp add: demo_cmds_def p n)
qed

lemma demo_stat: "k_stat demo_conf_kernel p w = (Inr \<lparr>st_kind = Regular, st_size = 0, st_dev = 0, st_ino = 0, st_rdev = 0\<rparr>, w)"
  by (simp add: demo_conf_kernel_def)

theorem config_file_commands_witness:
  "\<exists>cf. nilfs_cldconfig_read demo_conf_kernel demo_nilfs ''nilfs_cleanerd.conf'' (Some (config_text demo_cmds)) demo_conf () = (Inr (), cf, ())
     \<and> cf_policy_name cf = ''greedy'' \<and> cf_nsegments_per_clean cf = 32"
  using config_file_commands [where cf = demo_conf and path = "''nilfs_cleanerd.conf''" and w = "()", OF demo_stat _ demo_default _ demo_run]
  by (simp add: demo_cmds_def demo_words)

theorem config_read_wf_witness:
  "\<exists>cf. nilfs_cldconfig_read demo_conf_kernel demo_nilfs [] (Some (config_text demo_cmds)) demo_conf () = (Inr (), cf, ()) \<and> config_wf cf"
proof -
  have "read_loop demo_nilfs (config_text demo_cmds) demo_conf = commands demo_nilfs demo_cmds demo_conf"
    by (rule read_loop_text) (simp add: demo_cmds_def demo_words)
  then obtain cf where "nilfs_cldconfig_read demo_conf_kernel demo_nilfs [] (Some (config_text demo_cmds)) demo_conf () = (Inr (), cf, ())"
    by (simp add: nilfs_cldconfig_read_def nilfs_cldconfig_do_read_def demo_stat demo_default demo_run)
  then show ?thesis using config_read_wf [of demo_conf_kernel] by blast
qed

theorem bad_time_stops_reading_witness:
  "\<exists>cf. nilfs_cldconfig_read demo_conf_kernel demo_nilfs []
      (Some (config_text (demo_cmds @ [''retry_interval'', ''soon''] # [[''use_set_suinfo'']]))) demo_conf () = (Inr (), cf, ())
     \<and> cf_policy_name cf = ''greedy'' \<and> \<not> cf_use_set_suinfo cf"
proof -
  have "nilfs_cldconfig_get_time_argument [''retry_interval'', ''soon''] = Inl (EOther 0)"
    by (simp add: nilfs_cldconfig_get_time_argument_def strtoull_def strto_base_def isspace_def is_digit_of_def digit_val_def isdigit_def code_def)
  moreover have "\<not> cf_use_set_suinfo demo_conf"
    by (simp add: demo_conf_def nilfs_cldconfig_set_default_def nilfs_convert_size_to_nsegments_def
        nilfs_convert_size_to_blocks_per_segment_def demo_nilfs_facts)
  ultimately show ?thesis
    using bad_time_stops_reading [where cf = demo_conf and path = "[]" and w = "()" and key = "''retry_interval''" and arg = "''soon''"
        and args = "[]" and post = "[[''use_set_suinfo'']]", OF demo_stat _ demo_default _ demo_run]
    by (simp add: demo_cmds_def demo_words time_keywords_def)
qed

theorem config_size_in_segments_witness:
  "\<exists>v. nilfs_cldconfig_handle_keyword demo_nilfs [''min_clean_segments'', show_dec 33 @ ''KiB''] demo_conf
     = (Inr (), demo_conf\<lparr>cf_min_clean_segments := v\<rparr>) \<and> (\<forall>x. unat v \<le> x \<longleftrightarrow> 33 * 2 ^ 10 \<le> x * 16384)"
proof -
  have "segment_bytes demo_nilfs = Some 16384" by (simp add: segment_bytes_def demo_nilfs_facts)
  moreover have "(''KiB'', 2 ^ 10) \<in> set size_suffixes" by (simp add: size_suffixes_def)
  ultimately show ?thesis using config_size_in_segments [of "''KiB''" "2 ^ 10" demo_nilfs 16384 33 demo_conf] by simp
qed

end
