(* ===== verification/Cleaning_Policy.thy ===== *)
theory Cleaning_Policy
  imports Gc_Reclaim Cnormap C_Double Cldconfig "HOL-Library.Sublist"
begin

text \<open>
  The pluggable cleaning policies (\<open>src/sbin/policies\<close>): each rates a segment or rejects it,
  and one of them also selects. Scores are double precision numbers, modelled as rationals. The
  number of blocks per segment, the divisor of the utilisation, is taken to be positive, as in every
  formatted file system. \<open>EAbort\<close> stands for a failed assertion or the use of a missing object.

  A policy works on the library object and the checkpoint mapper of the daemon.
\<close>

section \<open>Interface\<close>

record hc_candidate_meta =
  is_hot :: bool
  hm_live_blocks :: u32
  hm_lastmod :: i64

record nilfs_segment_candidate =
  cd_segnum :: u64
  cd_score :: rat
  cd_metadata :: "hc_candidate_meta option"
  cd_util :: rat

record hc_policy_data =
  hc_blocks_per_segment :: u32
  hot_threshold :: i64

text \<open>Uninitialised memory of the library and of the mapper.\<close>

record pol_junk =
  pj_gc :: gc_junk
  pj_span :: nilfs_cpspan

type_synonym 'w evaluation = "'w kernel \<Rightarrow> pol_junk \<Rightarrow> hc_policy_data option \<Rightarrow> nilfs_sustat \<Rightarrow> nilfs_suinfo \<Rightarrow> u64
    \<Rightarrow> i64 \<Rightarrow> i64 \<Rightarrow> ('w mapper, nilfs_segment_candidate option) act"

record 'w nilfs_cleaning_policy =
  pol_name :: string
  pol_init :: "('w kernel \<Rightarrow> ('w mapper, hc_policy_data) act) option"
  pol_evaluate :: "'w evaluation"
  pol_compare :: "nilfs_segment_candidate \<Rightarrow> nilfs_segment_candidate \<Rightarrow> int"
  pol_select :: "('w kernel \<Rightarrow> pol_junk \<Rightarrow> hc_policy_data option \<Rightarrow> nilfs_sustat \<Rightarrow> i64 \<Rightarrow> i64
    \<Rightarrow> ('w mapper, u64 list) act) option"

definition blocks_per_segment :: "('w mapper, u32) act" where
  "blocks_per_segment = (\<lambda>(c, s).
     case nilfs_get_blocks_per_segment (l_nilfs s) of None \<Rightarrow> (Inl EAbort, c, s) | Some n \<Rightarrow> (Inr n, c, s))"

text \<open>
  The number of live blocks of a dirty segment; \<open>None\<close> for a clean segment and after an
  error. Tracking back by no time cannot fail.
\<close>

definition nilfs_get_live_blk :: "'w kernel \<Rightarrow> pol_junk \<Rightarrow> nilfs_sustat \<Rightarrow> u64 \<Rightarrow> ('w mapper, i64 option) act" where
  "nilfs_get_live_blk k j sustat segnum =
     bindE (nilfs_cnormap_track_back k (pj_span j) 0) (\<lambda>protcno (c, s).
       case assess_segment_if_dirty k (pj_gc j) sustat segnum protcno zero_stat s of
         (Inl e, s) \<Rightarrow> (Inr None, c, s)
       | (Inr (dirty, stat), s) \<Rightarrow> (Inr (if dirty then Some (live_blks stat) else None), c, s))"

text \<open>The evaluation common to three policies: segments with a live block cnt that is not negative.\<close>

definition with_live_blk :: "'w kernel \<Rightarrow> pol_junk \<Rightarrow> nilfs_sustat \<Rightarrow> u64
    \<Rightarrow> (i64 \<Rightarrow> u32 \<Rightarrow> nilfs_segment_candidate option) \<Rightarrow> ('w mapper, nilfs_segment_candidate option) act" where
  "with_live_blk k j sustat segnum rate =
     bindE (nilfs_get_live_blk k j sustat segnum) (\<lambda>live.
       case live of
         None \<Rightarrow> retE None
       | Some live_blocks \<Rightarrow>
           if sint live_blocks < 0 then retE None
           else bindE blocks_per_segment (\<lambda>bps. retE (rate live_blocks bps)))"

definition double_of :: "i64 \<Rightarrow> rat" where
  "double_of x = round_double (of_int (sint x))"

definition utilisation :: "i64 \<Rightarrow> u32 \<Rightarrow> rat" where
  "utilisation live bps = round_double (double_of live / round_double (of_nat (unat bps)))"

section \<open>Timestamp policy\<close>

definition timestamp_compare :: "nilfs_segment_candidate \<Rightarrow> nilfs_segment_candidate \<Rightarrow> int" where
  "timestamp_compare c1 c2 =
     (if cd_score c1 < cd_score c2 then - 1 else if cd_score c1 > cd_score c2 then 1
      else if cd_segnum c1 < cd_segnum c2 then - 1 else 1)"

definition timestamp_rate :: "nilfs_sustat \<Rightarrow> nilfs_suinfo \<Rightarrow> u64 \<Rightarrow> i64 \<Rightarrow> i64 \<Rightarrow> i64 \<Rightarrow> u32 \<Rightarrow> nilfs_segment_candidate option" where
  "timestamp_rate sustat si segnum now prottime live_blocks bps =
     (let lastmod = sui_lastmod si; thr = ss_nongc_ctime sustat;
          imp = (if sint lastmod \<le> sint now then lastmod else thr - 1) in
      if sint imp \<ge> sint thr then None
      else if sint lastmod \<ge> sint prottime \<and> sint lastmod \<le> sint now then None
      else Some \<lparr>cd_segnum = segnum, cd_score = double_of (- imp), cd_metadata = None, cd_util = utilisation live_blocks bps\<rparr>)"

definition timestamp_evaluate :: "'w evaluation" where
  "timestamp_evaluate k j data sustat si segnum now prottime =
     with_live_blk k j sustat segnum (timestamp_rate sustat si segnum now prottime)"

definition nilfs_policy_timestamp :: "'w nilfs_cleaning_policy" where
  "nilfs_policy_timestamp = \<lparr>pol_name = ''timestamp'', pol_init = None, pol_evaluate = timestamp_evaluate,
     pol_compare = timestamp_compare, pol_select = None\<rparr>"

section \<open>Greedy policy\<close>

definition greedy_compare :: "nilfs_segment_candidate \<Rightarrow> nilfs_segment_candidate \<Rightarrow> int" where
  "greedy_compare c1 c2 =
     (if cd_score c1 > cd_score c2 then - 1 else if cd_score c1 < cd_score c2 then 1
      else if cd_segnum c1 < cd_segnum c2 then - 1 else 1)"

text \<open>Comparisons of the unsigned \<open>sui_lastmod\<close> with a signed time are unsigned.\<close>

definition recently_modified :: "nilfs_suinfo \<Rightarrow> i64 \<Rightarrow> i64 \<Rightarrow> bool" where
  "recently_modified si now prottime \<longleftrightarrow> sui_lastmod si \<ge> prottime \<and> sui_lastmod si \<le> now"

definition greedy_rate :: "nilfs_suinfo \<Rightarrow> u64 \<Rightarrow> i64 \<Rightarrow> i64 \<Rightarrow> i64 \<Rightarrow> u32 \<Rightarrow> nilfs_segment_candidate option" where
  "greedy_rate si segnum now prottime live_blocks bps =
     (if recently_modified si now prottime then None
      else Some \<lparr>cd_segnum = segnum, cd_score = double_of (ucast bps - live_blocks), cd_metadata = None,
                 cd_util = utilisation live_blocks bps\<rparr>)"

definition greedy_evaluate :: "'w evaluation" where
  "greedy_evaluate k j data sustat si segnum now prottime =
     with_live_blk k j sustat segnum (greedy_rate si segnum now prottime)"

definition nilfs_policy_greedy :: "'w nilfs_cleaning_policy" where
  "nilfs_policy_greedy = \<lparr>pol_name = ''greedy'', pol_init = None, pol_evaluate = greedy_evaluate,
     pol_compare = greedy_compare, pol_select = None\<rparr>"

section \<open>Cost-benefit policy\<close>

definition cb_compare :: "nilfs_segment_candidate \<Rightarrow> nilfs_segment_candidate \<Rightarrow> int" where
  "cb_compare c1 c2 =
     (if cd_score c1 > cd_score c2 then - 1 else if cd_score c1 < cd_score c2 then 1
      else if cd_segnum c1 < cd_segnum c2 then - 1 else 1)"

definition cb_score :: "rat \<Rightarrow> i64 \<Rightarrow> rat" where
  "cb_score u age = round_double (round_double (round_double (1 - u) * double_of age) / round_double (1 + u))"

definition cb_rate :: "nilfs_suinfo \<Rightarrow> u64 \<Rightarrow> i64 \<Rightarrow> i64 \<Rightarrow> i64 \<Rightarrow> u32 \<Rightarrow> nilfs_segment_candidate option" where
  "cb_rate si segnum now prottime live_blocks bps =
     (let u = utilisation live_blocks bps;
          age = (if sui_lastmod si \<le> 0 then 0 else now - sui_lastmod si) in
      if recently_modified si now prottime then None
      else let age = (if sint age < 0 then 0 else age) in
           Some \<lparr>cd_segnum = segnum, cd_score = cb_score u age, cd_metadata = None, cd_util = u\<rparr>)"

definition cb_evaluate :: "'w evaluation" where
  "cb_evaluate k j data sustat si segnum now prottime =
     with_live_blk k j sustat segnum (cb_rate si segnum now prottime)"

definition nilfs_policy_cost_benefit :: "'w nilfs_cleaning_policy" where
  "nilfs_policy_cost_benefit = \<lparr>pol_name = ''cost-benefit'', pol_init = None, pol_evaluate = cb_evaluate,
     pol_compare = cb_compare, pol_select = None\<rparr>"

section \<open>Segregation policy\<close>

definition HC_HOT_THRESHOLD_SEC :: i64 where "HC_HOT_THRESHOLD_SEC = 24 * 60 * 60"

definition hc_compare :: "nilfs_segment_candidate \<Rightarrow> nilfs_segment_candidate \<Rightarrow> int" where
  "hc_compare c1 c2 =
     (if cd_score c1 > cd_score c2 then - 1 else if cd_score c1 < cd_score c2 then 1
      else if cd_segnum c1 < cd_segnum c2 then - 1 else 1)"

definition hc_init :: "'w kernel \<Rightarrow> ('w mapper, hc_policy_data) act" where
  "hc_init k = (\<lambda>(c, s).
     case lib_alloc k 16 s of
       (False, s) \<Rightarrow> (Inl ENOMEM, c, s)
     | (True, s) \<Rightarrow> bindE blocks_per_segment (\<lambda>bps.
         retE \<lparr>hc_blocks_per_segment = bps, hot_threshold = HC_HOT_THRESHOLD_SEC\<rparr>) (c, s))"

definition hc_evaluate :: "'w evaluation" where
  "hc_evaluate k j data sustat si segnum now prottime =
     bindE (nilfs_cnormap_track_back k (pj_span j) 0) (\<lambda>protcno (c, s).
       case assess_segment_if_dirty k (pj_gc j) sustat segnum protcno zero_stat s of
         (Inl e, s) \<Rightarrow> (Inr None, c, s)
       | (Inr (dirty, stat), s) \<Rightarrow>
           if \<not> dirty \<or> recently_modified si now prottime \<or> \<not> nilfs_suinfo_reclaimable si then (Inr None, c, s)
           else let age = now - sui_lastmod si; age = (if sint age < 0 then 0 else age) in
             case lib_alloc k 16 s of
               (False, s) \<Rightarrow> (Inr None, c, s)
             | (True, s) \<Rightarrow>
                 (case data of
                    None \<Rightarrow> (Inl EAbort, c, s)
                  | Some d \<Rightarrow>
                      (Inr (Some \<lparr>cd_segnum = segnum, cd_score = 0,
                                  cd_metadata = Some \<lparr>is_hot = (sint age < sint (hot_threshold d)),
                                                      hm_live_blocks = ucast (live_blks stat), hm_lastmod = sui_lastmod si\<rparr>,
                                  cd_util = 0\<rparr>), c, s)))"

definition meta_of :: "nilfs_segment_candidate \<Rightarrow> hc_candidate_meta" where
  "meta_of c = (case cd_metadata c of Some m \<Rightarrow> m | None \<Rightarrow> \<lparr>is_hot = False, hm_live_blocks = 0, hm_lastmod = 0\<rparr>)"

definition age_compare_descending :: "nilfs_segment_candidate \<Rightarrow> nilfs_segment_candidate \<Rightarrow> int" where
  "age_compare_descending c1 c2 =
     (if sint (hm_lastmod (meta_of c1)) < sint (hm_lastmod (meta_of c2)) then - 1
      else if sint (hm_lastmod (meta_of c1)) > sint (hm_lastmod (meta_of c2)) then 1
      else if cd_segnum c1 < cd_segnum c2 then - 1 else if cd_segnum c1 > cd_segnum c2 then 1 else 0)"

text \<open>
  The scan over all segments, with the number of them left, the information of the last segment (it stays when
  the kernel answers with no entry) and the capacity of the array.
\<close>

fun cluster_scan :: "'w kernel \<Rightarrow> pol_junk \<Rightarrow> hc_policy_data option \<Rightarrow> nilfs_sustat \<Rightarrow> i64 \<Rightarrow> i64 \<Rightarrow> nat \<Rightarrow> u64
    \<Rightarrow> nilfs_suinfo \<Rightarrow> u64 \<Rightarrow> nilfs_segment_candidate list \<Rightarrow> ('w mapper, nilfs_segment_candidate list) act" where
  "cluster_scan k j data sustat now prottime 0 segnum si capacity cands st = (Inr cands, st)"
| "cluster_scan k j data sustat now prottime (Suc n) segnum si capacity cands st =
     (case onLib (nilfs_get_suinfo k segnum 1) st of
        (Inl e, st) \<Rightarrow> cluster_scan k j data sustat now prottime n (segnum + 1) si capacity cands st
      | (Inr sis, st) \<Rightarrow>
          let si = (if sis = [] then si else hd sis) in
          (case hc_evaluate k j data sustat si segnum now prottime st of
             (Inl e, st) \<Rightarrow> (Inl e, st)
           | (Inr None, st) \<Rightarrow> cluster_scan k j data sustat now prottime n (segnum + 1) si capacity cands st
           | (Inr (Some cand), st) \<Rightarrow>
               if length cands < unat capacity
               then cluster_scan k j data sustat now prottime n (segnum + 1) si capacity (cands @ [cand]) st
               else (case lib_alloc k (capacity * 2 * 32) (snd st) of
                       (False, s) \<Rightarrow> (Inl ENOMEM, fst st, s)
                     | (True, s) \<Rightarrow> cluster_scan k j data sustat now prottime n (segnum + 1) si (capacity * 2) (cands @ [cand]) (fst st, s))))"

definition age_window :: int where "age_window = 4"

text \<open>The selection from the sorted candidates: \<open>cnt\<close> segments are taken, \<open>accum\<close> live blocks in them.\<close>

fun cluster_pick :: "i64 \<Rightarrow> u32 \<Rightarrow> nilfs_segment_candidate list \<Rightarrow> nat \<Rightarrow> u64 \<Rightarrow> u64 list" where
  "cluster_pick seed_ts bps [] cnt accum = []"
| "cluster_pick seed_ts bps (cand # cands) cnt accum =
     (if cnt \<ge> unat NILFS_CLDCONFIG_NSEGMENTS_PER_CLEAN_MAX then []
      else if abs (sint (seed_ts - hm_lastmod (meta_of cand))) > age_window then cluster_pick seed_ts bps cands cnt accum
      else let accum = accum + ucast (hm_live_blocks (meta_of cand)) in
           cd_segnum cand # (if accum \<ge> ucast bps then [] else cluster_pick seed_ts bps cands (cnt + 1) accum))"

definition strict_cluster_select :: "'w kernel \<Rightarrow> pol_junk \<Rightarrow> hc_policy_data option \<Rightarrow> nilfs_sustat \<Rightarrow> i64 \<Rightarrow> i64
    \<Rightarrow> ('w mapper, u64 list) act" where
  "strict_cluster_select k j data sustat now prottime = (\<lambda>(c, s).
     case nilfs_get_nsegments (l_nilfs s) of
       None \<Rightarrow> (Inl EAbort, c, s)
     | Some nsegs \<Rightarrow>
         if nsegs = 0 then (Inr [], c, s)
         else case lib_alloc k (100 * 32) s of
           (False, s) \<Rightarrow> (Inl ENOMEM, c, s)
         | (True, s) \<Rightarrow>
             bindE (cluster_scan k j data sustat now prottime (unat nsegs) 0 (j_suinfo (pj_gc j)) 100 []) (\<lambda>cands.
               if cands = [] then retE []
               else let sorted = qsort age_compare_descending cands in
                    bindE blocks_per_segment (\<lambda>bps.
                      retE (cluster_pick (hm_lastmod (meta_of (hd sorted))) bps sorted 0 0))) (c, s))"

definition nilfs_policy_hot_cold :: "'w nilfs_cleaning_policy" where
  "nilfs_policy_hot_cold = \<lparr>pol_name = ''segregation'', pol_init = Some hc_init, pol_evaluate = hc_evaluate,
     pol_compare = hc_compare, pol_select = Some strict_cluster_select\<rparr>"

section \<open>The registry\<close>

definition MAX_POLICIES :: nat where "MAX_POLICIES = 16"

definition nilfs_register_policy :: "'w nilfs_cleaning_policy \<Rightarrow> 'w nilfs_cleaning_policy list \<Rightarrow> (errno + unit) \<times> 'w nilfs_cleaning_policy list" where
  "nilfs_register_policy p reg = (if length reg \<ge> MAX_POLICIES then (Inl (EOther 0), reg) else (Inr (), reg @ [p]))"

definition nilfs_get_policy :: "'w nilfs_cleaning_policy list \<Rightarrow> string \<Rightarrow> 'w nilfs_cleaning_policy option" where
  "nilfs_get_policy reg name = find (\<lambda>p. pol_name p = name) reg"

text \<open>The policies the daemon registers at its start, in \<open>main\<close> of \<open>cleanerd.c\<close>.\<close>

definition builtin_policies :: "'w nilfs_cleaning_policy list" where
  "builtin_policies = snd (nilfs_register_policy nilfs_policy_hot_cold
     (snd (nilfs_register_policy nilfs_policy_cost_benefit
       (snd (nilfs_register_policy nilfs_policy_greedy (snd (nilfs_register_policy nilfs_policy_timestamp [])))))))"

section \<open>The segregation policy fills its array safely\<close>

lemma hc_evaluate_segnum:
  assumes "hc_evaluate k j data sustat si segnum now prottime st = (Inr (Some cand), st')"
  shows "cd_segnum cand = segnum" "cd_metadata cand \<noteq> None" "hm_lastmod (meta_of cand) = sui_lastmod si"
    "nilfs_suinfo_reclaimable si" "\<not> recently_modified si now prottime"
  using assms
  by (auto simp: hc_evaluate_def bindE_def Let_def meta_of_def split: prod.splits sum.splits if_splits bool.splits option.splits)

text \<open>The candidates come in the order of their numbers.\<close>

lemma cluster_scan_numbers:
  assumes "cluster_scan k j data sustat now prottime n segnum si capacity cands st = (Inr cands', st')"
    "unat segnum + n < 2 ^ 64" "sorted_wrt (<) (map (\<lambda>c. unat (cd_segnum c)) cands)" "\<forall>c \<in> set cands. unat (cd_segnum c) < unat segnum"
  shows "sorted_wrt (<) (map (\<lambda>c. unat (cd_segnum c)) cands') \<and> (\<forall>c \<in> set cands'. unat (cd_segnum c) < unat segnum + n)"
  using assms
proof (induction k j data sustat now prottime n segnum si capacity cands st rule: cluster_scan.induct)
  case (2 k j data sustat now prottime n segnum si capacity cands st)
  have u: "unat (segnum + 1) = unat segnum + 1" using "2.prems"(2) by (simp add: unat_word_ariths)
  have old: "\<forall>c \<in> set cands. unat (cd_segnum c) < unat (segnum + 1)" using "2.prems"(4) u by auto
  obtain q st1 where g: "onLib (nilfs_get_suinfo k segnum 1) st = (q, st1)" by (rule prod.exhaust)
  show ?case
  proof (cases q)
    case (Inl e)
    then show ?thesis using 2(1) [OF g [symmetric] Inl] "2.prems"(1-3) g u old by simp
  next
    case (Inr sis)
    define si' where "si' = (if sis = [] then si else hd sis)"
    obtain r st2 where ev: "hc_evaluate k j data sustat si' segnum now prottime st1 = (r, st2)" by (rule prod.exhaust)
    show ?thesis
    proof (cases r)
      case (Inl e)
      then show ?thesis using "2.prems"(1) g Inr ev by (simp add: si'_def Let_def)
    next
      case rr: (Inr oc)
      show ?thesis
      proof (cases oc)
        case None
        then show ?thesis using 2(2) [OF g [symmetric] Inr si'_def ev [symmetric] rr None] "2.prems"(1-3) g Inr ev rr u old
          by (simp add: si'_def Let_def)
      next
        case (Some cand)
        have cs: "cd_segnum cand = segnum" using hc_evaluate_segnum(1) ev rr Some by blast
        have srt: "sorted_wrt (<) (map (\<lambda>c. unat (cd_segnum c)) (cands @ [cand]))" using "2.prems"(3,4) cs by (simp add: sorted_wrt_append)
        have bnd: "\<forall>c \<in> set (cands @ [cand]). unat (cd_segnum c) < unat (segnum + 1)" using old cs u by auto
        show ?thesis
        proof (cases "length cands < unat capacity")
          case True
          then show ?thesis using 2(3) [OF g [symmetric] Inr si'_def ev [symmetric] rr Some True _ _ srt bnd] "2.prems"(1,2) g Inr ev rr Some u
            by (simp add: si'_def Let_def)
        next
          case False
          obtain a s where al: "lib_alloc k (capacity * 2 * 32) (snd st2) = (a, s)" by (rule prod.exhaust)
          show ?thesis
          proof (cases a)
            case True
            then show ?thesis using 2(4) [OF g [symmetric] Inr si'_def ev [symmetric] rr Some False al [symmetric] eqTrueI [OF True] _ _ srt bnd] "2.prems"(1,2) g Inr ev rr Some False al u
              by (simp add: si'_def Let_def)
          next
            case False
            then show ?thesis using "2.prems"(1) g Inr ev rr Some \<open>\<not> length cands < unat capacity\<close> al by (simp add: si'_def Let_def)
          qed
        qed
      qed
    qed
  qed
qed simp

lemma cluster_pick_bound: "length (cluster_pick ts bps cands cnt accum) \<le> 32 - cnt"
  by (induction ts bps cands cnt accum rule: cluster_pick.induct) (auto simp: Let_def NILFS_CLDCONFIG_NSEGMENTS_PER_CLEAN_MAX_def)

lemma cluster_pick_subseq:
  "\<exists>picks. subseq picks cands \<and> cluster_pick ts bps cands cnt accum = map cd_segnum picks
     \<and> (\<forall>c \<in> set picks. abs (sint (ts - hm_lastmod (meta_of c))) \<le> age_window)"
proof (induction ts bps cands cnt accum rule: cluster_pick.induct)
  case (2 ts bps cand cands cnt accum)
  show ?case
  proof (cases "cnt \<ge> unat NILFS_CLDCONFIG_NSEGMENTS_PER_CLEAN_MAX")
    case False
    show ?thesis
    proof (cases "abs (sint (ts - hm_lastmod (meta_of cand))) > age_window")
      case True
      then show ?thesis using 2(1) False by (auto intro: list_emb_Cons)
    next
      case near: False
      let ?acc = "accum + ucast (hm_live_blocks (meta_of cand))"
      show ?thesis
      proof (cases "?acc \<ge> ucast bps")
        case True
        then show ?thesis using False near by (intro exI [of _ "[cand]"]) (simp add: Let_def)
      next
        case more: False
        then obtain picks where "subseq picks cands" "cluster_pick ts bps cands (cnt + 1) ?acc = map cd_segnum picks"
          "\<forall>c \<in> set picks. abs (sint (ts - hm_lastmod (meta_of c))) \<le> age_window"
          using 2(2) [OF False near refl] by auto
        then show ?thesis using False near more by (intro exI [of _ "cand # picks"]) (simp add: Let_def)
      qed
    qed
  qed (auto intro!: exI [of _ "[]"])
qed simp

lemma strict_cluster_length: "strict_cluster_select k j data sustat now prottime st = (Inr segs, st') \<Longrightarrow> length segs \<le> 32"
proof -
  have "length (cluster_pick ts bps cands 0 0) \<le> 32" for ts bps cands using cluster_pick_bound [of ts bps cands 0 0] by simp
  moreover assume "strict_cluster_select k j data sustat now prottime st = (Inr segs, st')"
  ultimately show ?thesis
    by (cases st) (auto simp: strict_cluster_select_def Let_def elim!: bindE_InrE split: option.splits prod.splits bool.splits if_splits)
qed

text \<open>C36. The segregation policy stores at most 32 segment numbers, the size of the array it is given;
  all of them belong to the file system, and none occurs twice.\<close>

theorem cluster_select_safe:
  assumes run: "strict_cluster_select k j data sustat now prottime (c, s) = (Inr segs, st')"
    and n: "nilfs_get_nsegments (l_nilfs s) = Some nsegs"
  shows "length segs \<le> 32 \<and> distinct segs \<and> (\<forall>x \<in> set segs. x < nsegs)"
proof (cases "nsegs = 0")
  case True
  then show ?thesis using run n by (simp add: strict_cluster_select_def)
next
  case False
  obtain s1 cands st2 where sc: "cluster_scan k j data sustat now prottime (unat nsegs) 0 (j_suinfo (pj_gc j)) 100 [] (c, s1) = (Inr cands, st2)"
    and rest: "segs = [] \<or> (\<exists>ts bps. segs = cluster_pick ts bps (qsort age_compare_descending cands) 0 0)"
    using run n False
    by (auto simp: strict_cluster_select_def Let_def elim!: bindE_InrE split: prod.splits bool.splits if_splits) metis
  have ord: "sorted_wrt (<) (map (\<lambda>c. unat (cd_segnum c)) cands)" "\<forall>x \<in> set cands. unat (cd_segnum x) < unat nsegs"
    using cluster_scan_numbers [OF sc] unat_lt_u64 [of nsegs] by auto
  let ?q = "qsort age_compare_descending cands"
  have "distinct (map (\<lambda>c. unat (cd_segnum c)) cands)" using ord(1) by (simp add: strict_sorted_iff)
  then have "distinct (map cd_segnum cands)" by (simp add: distinct_map inj_on_def)
  moreover have "mset (map cd_segnum ?q) = mset (map cd_segnum cands)" by simp
  ultimately have dq: "distinct (map cd_segnum ?q)" by (metis mset_eq_imp_distinct_iff)
  show ?thesis
    using rest
  proof (elim disjE exE)
    fix ts bps assume s: "segs = cluster_pick ts bps ?q 0 0"
    obtain picks where p: "subseq picks ?q" "segs = map cd_segnum picks" using cluster_pick_subseq s by blast
    have "subseq segs (map cd_segnum ?q)" unfolding p(2) by (rule subseq_map [OF p(1)])
    then have "distinct segs" "set segs \<subseteq> set (map cd_segnum ?q)"
      using dq subseqs_distinctD [of segs "map cd_segnum ?q"] by (simp, blast elim: list_emb_set)
    then show ?thesis using ord(2) cluster_pick_bound [of ts bps ?q 0 0] s by (auto simp: word_less_nat_alt)
  qed simp
qed

section \<open>Examples\<close>

definition demo_pol_junk :: pol_junk where
  "demo_pol_junk = \<lparr>pj_gc = demo_junk, pj_span = single_span (demo_cp 0 0)\<rparr>"

definition demo_cnormap :: nilfs_cnormap where
  "demo_cnormap = \<lparr>cphist = \<lparr>v_data = [], v_elemsize = sizeof_cpspan, v_nelems = 0, v_maxelems = 0\<rparr>, cphist_elapsed_time = 0,
     base_time = 0, base_clock = 0, has_clock_boottime = True, has_clock_realtime_coarse = True, has_clock_monotonic_coarse = True\<rparr>"

definition demo_sustat :: nilfs_sustat where
  "demo_sustat = \<lparr>ss_nsegs = 4, ss_ncleansegs = 3, ss_ndirtysegs = 1, ss_ctime = 5, ss_nongc_ctime = 5, ss_prot_seq = 10\<rparr>"

lemma demo_suinfo: "nilfs_get_suinfo demo_gc_kernel x 1 (demo_lib ()) = (Inr [demo_si x], demo_lib ())"
  by (simp add: nilfs_get_suinfo_def with_iocfd_def liftK_def demo_gc_calls argv_def demo_lib_def)

lemma demo_assess:
  "\<exists>t. assess_segment_if_dirty demo_gc_kernel demo_junk demo_sustat x protcno zero_stat (demo_lib ()) = (Inr (x = 3, t), demo_lib ())"
proof (cases "x = 3")
  case True
  have "\<not> nilfs_suinfo_clean (demo_si 3)" by (simp add: nilfs_suinfo_clean_def suinfo_flag_defs)
  moreover obtain t where "nilfs_xreclaim_segment demo_gc_kernel demo_junk [3] (Suc 0) True
      \<lparr>rp_flags = NILFS_RECLAIM_PARAM_PROTSEQ OR NILFS_RECLAIM_PARAM_PROTCNO, rp_min_reclaimable_blks = 0, rp_protseq = ss_prot_seq demo_sustat,
       rp_protcno = protcno\<rparr> (Some zero_stat) (demo_lib ()) = ((Inr (), [3], Some t), demo_lib ())"
    using demo_gc_run [of "\<lparr>rp_flags = NILFS_RECLAIM_PARAM_PROTSEQ OR NILFS_RECLAIM_PARAM_PROTCNO, rp_min_reclaimable_blks = 0,
      rp_protseq = ss_prot_seq demo_sustat, rp_protcno = protcno\<rparr>" True] by (auto simp: NILFS_RECLAIM_PARAM_PROTSEQ_def NILFS_RECLAIM_PARAM_PROTCNO_def)
  ultimately show ?thesis using True by (simp add: assess_segment_if_dirty_def demo_suinfo nilfs_assess_segment_def)
next
  case False
  then show ?thesis by (simp add: assess_segment_if_dirty_def demo_suinfo nilfs_suinfo_clean_def suinfo_flag_defs)
qed

lemma demo_select:
  "strict_cluster_select demo_gc_kernel demo_pol_junk (Some \<lparr>hc_blocks_per_segment = 16, hot_threshold = HC_HOT_THRESHOLD_SEC\<rparr>)
      demo_sustat 1000 1000 (demo_cnormap, demo_lib ()) = (Inr [3], demo_cnormap, demo_lib ())"
proof -
  let ?data = "Some \<lparr>hc_blocks_per_segment = 16, hot_threshold = HC_HOT_THRESHOLD_SEC\<rparr>"
  let ?scan = "cluster_scan demo_gc_kernel demo_pol_junk ?data demo_sustat 1000 1000"
  have al: "lib_alloc demo_gc_kernel m s = (True, s)" for m and s :: "unit lib"
    by (simp add: lib_alloc_def demo_gc_calls)
  have fl: "nilfs_suinfo_reclaimable (demo_si 3)" "\<not> recently_modified (demo_si 3) 1000 1000"
    by (simp_all add: nilfs_suinfo_reclaimable_def suinfo_flag_defs recently_modified_def)
  have clean: "hc_evaluate demo_gc_kernel demo_pol_junk ?data demo_sustat (demo_si x) x 1000 1000 (demo_cnormap, demo_lib ())
      = (Inr None, demo_cnormap, demo_lib ())" if "x \<noteq> 3" for x
    using that demo_assess [of x NILFS_CNO_MAX] by (auto simp: hc_evaluate_def demo_pol_junk_def nilfs_cnormap_track_back_def bindE_def)
  obtain cand where dirty: "hc_evaluate demo_gc_kernel demo_pol_junk ?data demo_sustat (demo_si 3) 3 1000 1000 (demo_cnormap, demo_lib ())
      = (Inr (Some cand), demo_cnormap, demo_lib ())" "cd_segnum cand = 3"
    using demo_assess [of 3 NILFS_CNO_MAX] fl
    by (auto simp: hc_evaluate_def demo_pol_junk_def nilfs_cnormap_track_back_def bindE_def al Let_def)
  have step: "?scan (Suc n) x si 100 [] (demo_cnormap, demo_lib ()) = ?scan n (x + 1) (demo_si x) 100 [] (demo_cnormap, demo_lib ())" if "x \<noteq> 3" for n x si
    using clean [OF that] that by (simp add: onLib_def demo_suinfo)
  have four: "(4 :: nat) = Suc (Suc (Suc (Suc 0)))" by simp
  have "?scan (Suc 0) 3 si 100 [] (demo_cnormap, demo_lib ()) = (Inr [cand], demo_cnormap, demo_lib ())" for si
    using dirty by (simp add: onLib_def demo_suinfo)
  then have sc: "?scan 4 0 si 100 [] (demo_cnormap, demo_lib ()) = (Inr [cand], demo_cnormap, demo_lib ())" for si
    unfolding four using step [of 0] step [of 1] step [of 2] by (simp del: cluster_scan.simps)
  have n: "nilfs_get_nsegments (l_nilfs (demo_lib ())) = Some 4" "nilfs_get_blocks_per_segment (l_nilfs (demo_lib ())) = Some 16"
    using demo_nilfs_facts by (simp_all add: demo_nilfs_def)
  have q: "qsort age_compare_descending [cand] = [cand]" by (simp add: qsort.simps)
  show ?thesis
    using dirty(2) by (simp add: strict_cluster_select_def n al bindE_def sc q blocks_per_segment_def Let_def age_window_def
      NILFS_CLDCONFIG_NSEGMENTS_PER_CLEAN_MAX_def)
qed

theorem cluster_select_safe_witness:
  "\<exists>segs st'. strict_cluster_select demo_gc_kernel demo_pol_junk (Some \<lparr>hc_blocks_per_segment = 16, hot_threshold = HC_HOT_THRESHOLD_SEC\<rparr>)
      demo_sustat 1000 1000 (demo_cnormap, demo_lib ()) = (Inr segs, st') \<and> segs = [3] \<and> length segs \<le> 32 \<and> distinct segs \<and> (\<forall>x \<in> set segs. x < 4)"
proof -
  have "nilfs_get_nsegments (l_nilfs (demo_lib ())) = Some 4" using demo_nilfs_facts by (simp add: demo_nilfs_def)
  from cluster_select_safe [OF demo_select this] show ?thesis using demo_select by blast
qed

end
