(* ===== verification/Cleanerd.thy ===== *)
theory Cleanerd
  imports Cleaning_Policy
begin

text \<open>
  The cleaner daemon (\<open>src/sbin/cleanerd.c\<close>): its state, the transitions between idle, running, suspended
  and manual mode, the requests of clients, the watermarks and the waiting times, the choice of segments
  by the configured policy, the call of the collector and the main loop.

  The clocks, the message queues, the signals and the configuration file are the fields of
  \<open>daemon_env\<close>, functions over the same state as the kernel's calls. A message is the sequence of its
  bytes, with the layout of \<open>src/include/cleaner_msg.h\<close> on a little-endian machine.
\<close>

section \<open>State and environment\<close>

datatype cleaner_rsp = NILFS_CLEANER_RSP_ACK | NILFS_CLEANER_RSP_NACK
datatype cleaner_status = NILFS_CLEANER_STATUS_IDLE | NILFS_CLEANER_STATUS_RUNNING | NILFS_CLEANER_STATUS_SUSPENDED

record nilfs_cleaner_response =
  rsp_result :: cleaner_rsp
  rsp_status :: cleaner_status
  rsp_err :: "errno option"
  rsp_jobid :: u32

definition zero_response :: nilfs_cleaner_response where
  "zero_response = \<lparr>rsp_result = NILFS_CLEANER_RSP_ACK, rsp_status = NILFS_CLEANER_STATUS_IDLE, rsp_err = None, rsp_jobid = 0\<rparr>"

record 'w daemon_env =
  d_clock :: "clockid \<Rightarrow> ('w, timespec) act"
  d_ppoll :: "timespec \<Rightarrow> ('w, bool) act"
  d_mq_receive :: "('w, bytes) act"
  d_mq_open :: "bytes \<Rightarrow> ('w, nat) act"
  d_mq_close :: "nat \<Rightarrow> 'w \<Rightarrow> 'w"
  d_mq_send :: "nat \<Rightarrow> nilfs_cleaner_response \<Rightarrow> ('w, unit) act"
  d_sigprocmask :: "('w, unit) act"
  d_signals :: "'w \<Rightarrow> (bool \<times> bool) \<times> 'w"
  d_conf_text :: "string \<Rightarrow> 'w \<Rightarrow> string option \<times> 'w"
  d_fopen :: "string \<Rightarrow> 'w \<Rightarrow> bool \<times> 'w"
  d_statvfs :: "('w, unit) act"

text \<open>
  \<open>running\<close> is -1 when suspended, 0 when idle, 1 in automatic and 2 in manual mode. \<open>opt_period\<close> is the
  protection period of the command line, the largest number when there is none.
\<close>

record 'w nilfs_cleanerd =
  c_lib :: "'w lib"
  c_cnormap :: nilfs_cnormap
  c_config :: nilfs_cldconfig
  conffile :: string
  opt_period :: u64
  c_policy :: "'w nilfs_cleaning_policy"
  c_policy_data :: "hc_policy_data option"
  running :: int
  fallback :: bool
  retry_cleaning :: bool
  no_timeout :: bool
  c_shutdown :: bool
  ncleansegs :: int
  cleaning_interval :: timespec
  c_target :: timespec
  c_timeout :: timespec
  min_reclaimable_blocks :: u64
  prev_nongc_ctime :: u64
  c_sendq :: "nat option"
  client_uuid :: bytes
  c_jobid :: u64
  mm_prev_state :: int
  mm_nrestpasses :: int
  mm_nrestsegs :: int
  mm_ncleansegs :: int
  mm_protection_period :: timespec
  mm_cleaning_interval :: timespec
  mm_min_reclaimable_blocks :: u64

type_synonym ('w, 'a) dact = "('w nilfs_cleanerd, 'a) act"

definition inLib :: "('w lib, 'a) act \<Rightarrow> ('w, 'a) dact" where
  "inLib m d = (case m (c_lib d) of (r, s) \<Rightarrow> (r, d\<lparr>c_lib := s\<rparr>))"

definition inMap :: "('w mapper, 'a) act \<Rightarrow> ('w, 'a) dact" where
  "inMap m d = (case m (c_cnormap d, c_lib d) of (r, c, s) \<Rightarrow> (r, d\<lparr>c_cnormap := c, c_lib := s\<rparr>))"

definition inEnv :: "('w, 'a) act \<Rightarrow> ('w, 'a) dact" where
  "inEnv m = inLib (liftK m)"

section \<open>Times\<close>

definition timespecadd :: "timespec \<Rightarrow> timespec \<Rightarrow> timespec" where
  "timespecadd a b =
     (let sec = tv_sec a + tv_sec b; nsec = tv_nsec a + tv_nsec b in
      if sint nsec \<ge> 1000000000 then \<lparr>tv_sec = sec + 1, tv_nsec = nsec - 1000000000\<rparr> else \<lparr>tv_sec = sec, tv_nsec = nsec\<rparr>)"

definition timespecsub :: "timespec \<Rightarrow> timespec \<Rightarrow> timespec" where
  "timespecsub a b =
     (let sec = tv_sec a - tv_sec b; nsec = tv_nsec a - tv_nsec b in
      if sint nsec < 0 then \<lparr>tv_sec = sec - 1, tv_nsec = nsec + 1000000000\<rparr> else \<lparr>tv_sec = sec, tv_nsec = nsec\<rparr>)"

definition timespec_less :: "timespec \<Rightarrow> timespec \<Rightarrow> bool" where
  "timespec_less a b \<longleftrightarrow>
     (if tv_sec a = tv_sec b then sint (tv_nsec a) < sint (tv_nsec b) else sint (tv_sec a) < sint (tv_sec b))"

section \<open>Configuration\<close>

text \<open>Failing to set the option for mapped segments is ignored.\<close>

definition nilfs_cleanerd_config :: "'w kernel \<Rightarrow> 'w daemon_env \<Rightarrow> string option \<Rightarrow> ('w, unit) dact" where
  "nilfs_cleanerd_config k e conf d =
     (let path = (case conf of Some p \<Rightarrow> p | None \<Rightarrow> conffile d);
          (text, w) = d_conf_text e path (l_env (c_lib d)) in
      case nilfs_cldconfig_read k (l_nilfs (c_lib d)) path text (c_config d) w of
        (Inl er, cf, w) \<Rightarrow> (Inl er, d\<lparr>c_config := cf, c_lib := (c_lib d)\<lparr>l_env := w\<rparr>\<rparr>)
      | (Inr _, cf, w) \<Rightarrow>
          let s = (c_lib d)\<lparr>l_env := w\<rparr>;
              s = snd (if cf_use_mmap cf then nilfs_opt_set k NILFS_OPT_MMAP s else nilfs_opt_clear NILFS_OPT_MMAP s);
              s = snd (if cf_use_set_suinfo cf then nilfs_opt_set k NILFS_OPT_SET_SUINFO s else nilfs_opt_clear NILFS_OPT_SET_SUINFO s);
              cf = (if opt_period d \<noteq> - 1 then cf\<lparr>cf_protection_period := \<lparr>tv_sec = opt_period d, tv_nsec = 0\<rparr>\<rparr> else cf)
          in (Inr (), d\<lparr>c_config := cf, c_lib := s\<rparr>))"

definition nilfs_cleanerd_reconfig :: "'w kernel \<Rightarrow> 'w daemon_env \<Rightarrow> string option \<Rightarrow> ('w, unit) dact" where
  "nilfs_cleanerd_reconfig k e conf =
     bindE (nilfs_cleanerd_config k e conf) (\<lambda>_ d.
       (Inr (), d\<lparr>ncleansegs := sint (cf_nsegments_per_clean (c_config d)), cleaning_interval := cf_cleaning_interval (c_config d),
                  min_reclaimable_blocks := cf_min_reclaimable_blocks (c_config d)\<rparr>))"

definition nilfs_cleanerd_handle_signals :: "'w kernel \<Rightarrow> 'w daemon_env \<Rightarrow> 'w nilfs_cleanerd \<Rightarrow> 'w nilfs_cleanerd" where
  "nilfs_cleanerd_handle_signals k e d =
     (case d_signals e (l_env (c_lib d)) of ((reload, dump), w) \<Rightarrow>
        let d = d\<lparr>c_lib := (c_lib d)\<lparr>l_env := w\<rparr>\<rparr> in
        if reload then snd (nilfs_cleanerd_reconfig k e None d) else d)"

section \<open>Current parameters\<close>

definition nilfs_cleanerd_automatic_suspend :: "'w nilfs_cleanerd \<Rightarrow> bool" where
  "nilfs_cleanerd_automatic_suspend d \<longleftrightarrow> cf_min_clean_segments (c_config d) > 0"

definition nilfs_cleanerd_ncleansegs :: "'w nilfs_cleanerd \<Rightarrow> int" where
  "nilfs_cleanerd_ncleansegs d = (if running d = 2 then mm_ncleansegs d else ncleansegs d)"

definition nilfs_cleanerd_cleaning_interval :: "'w nilfs_cleanerd \<Rightarrow> timespec" where
  "nilfs_cleanerd_cleaning_interval d = (if running d = 2 then mm_cleaning_interval d else cleaning_interval d)"

definition nilfs_cleanerd_protection_period :: "'w nilfs_cleanerd \<Rightarrow> timespec" where
  "nilfs_cleanerd_protection_period d = (if running d = 2 then mm_protection_period d else cf_protection_period (c_config d))"

definition nilfs_cleanerd_min_reclaimable_blocks :: "'w nilfs_cleanerd \<Rightarrow> u64" where
  "nilfs_cleanerd_min_reclaimable_blocks d = (if running d = 2 then mm_min_reclaimable_blocks d else min_reclaimable_blocks d)"

definition nilfs_cleanerd_reduce_ncleansegs_for_retry :: "'w nilfs_cleanerd \<Rightarrow> 'w nilfs_cleanerd" where
  "nilfs_cleanerd_reduce_ncleansegs_for_retry d =
     (if running d = 2
      then if ncleansegs d > 1 then d\<lparr>ncleansegs := ncleansegs d div 2\<rparr> else d
      else if mm_ncleansegs d > 1 then d\<lparr>mm_ncleansegs := mm_ncleansegs d div 2\<rparr> else d)"

section \<open>Transitions\<close>

definition nilfs_cleanerd_clean_check_pause :: "'w nilfs_cleanerd \<Rightarrow> 'w nilfs_cleanerd" where
  "nilfs_cleanerd_clean_check_pause d = d\<lparr>running := 0, c_timeout := cf_clean_check_interval (c_config d)\<rparr>"
definition nilfs_cleanerd_clean_check_resume :: "'w nilfs_cleanerd \<Rightarrow> 'w nilfs_cleanerd" where
  "nilfs_cleanerd_clean_check_resume d = d\<lparr>running := 1\<rparr>"
definition nilfs_cleanerd_manual_suspend :: "'w nilfs_cleanerd \<Rightarrow> 'w nilfs_cleanerd" where
  "nilfs_cleanerd_manual_suspend d =
     d\<lparr>mm_prev_state := running d, running := - 1, c_timeout := cf_clean_check_interval (c_config d)\<rparr>"
definition nilfs_cleanerd_manual_resume :: "'w nilfs_cleanerd \<Rightarrow> 'w nilfs_cleanerd" where
  "nilfs_cleanerd_manual_resume d = (let d = d\<lparr>mm_prev_state := 0\<rparr> in d\<lparr>running := mm_prev_state d\<rparr>)"
definition nilfs_cleanerd_manual_run :: "'w nilfs_cleanerd \<Rightarrow> 'w nilfs_cleanerd" where
  "nilfs_cleanerd_manual_run d = d\<lparr>running := 2\<rparr>"
definition nilfs_cleanerd_manual_end :: "'w nilfs_cleanerd \<Rightarrow> 'w nilfs_cleanerd" where
  "nilfs_cleanerd_manual_end d = d\<lparr>running := 0, c_timeout := cf_clean_check_interval (c_config d)\<rparr>"
definition nilfs_cleanerd_manual_stop :: "'w nilfs_cleanerd \<Rightarrow> 'w nilfs_cleanerd" where
  "nilfs_cleanerd_manual_stop d = d\<lparr>running := 0, c_timeout := cf_clean_check_interval (c_config d)\<rparr>"

definition nilfs_cleanerd_init_interval :: "'w daemon_env \<Rightarrow> ('w, unit) dact" where
  "nilfs_cleanerd_init_interval e =
     bindE (inEnv (d_clock e CLOCK_MONOTONIC)) (\<lambda>t d.
       (Inr (), d\<lparr>c_target := timespecadd t (cf_cleaning_interval (c_config d))\<rparr>))"

definition NILFS_CLEANERD_NULLTIME :: i64 where "NILFS_CLEANERD_NULLTIME = 0x7fffffffffffffff"

definition at_least_check_interval :: "timespec \<Rightarrow> 'w nilfs_cleanerd \<Rightarrow> 'w nilfs_cleanerd" where
  "at_least_check_interval pt d =
     d\<lparr>c_timeout := (if timespec_less pt (cf_clean_check_interval (c_config d)) then cf_clean_check_interval (c_config d) else pt)\<rparr>"

definition nilfs_cleanerd_recalc_interval :: "'w daemon_env \<Rightarrow> nat \<Rightarrow> nat \<Rightarrow> i64 \<Rightarrow> i64 \<Rightarrow> ('w, unit) dact" where
  "nilfs_cleanerd_recalc_interval e nchosen ndone prottime oldest d =
     (if nchosen = 0 \<or> (\<not> fallback d \<and> ndone = 0 \<and> \<not> retry_cleaning d)
      then if running d = 2 then (Inr (), nilfs_cleanerd_manual_end d)
           else if oldest = NILFS_CLEANERD_NULLTIME
           then let d = d\<lparr>running := 0\<rparr> in (Inr (), at_least_check_interval (nilfs_cleanerd_protection_period d) d)
           else bindE (inEnv (d_clock e CLOCK_REALTIME)) (\<lambda>curr d.
                  let tgt = (if sint oldest < sint (tv_sec curr) then oldest else tv_sec curr) in
                  (Inr (), at_least_check_interval
                     \<lparr>tv_sec = (if sint tgt > sint prottime then tgt - prottime + 1 else 1), tv_nsec = 0\<rparr> d)) d
      else bindE (inEnv (d_clock e CLOCK_MONOTONIC)) (\<lambda>curr d.
             if fallback d
             then let target = timespecadd curr (cf_retry_interval (c_config d)) in
                  (Inr (), d\<lparr>c_target := target, c_timeout := timespecsub target curr\<rparr>)
             else let interval = nilfs_cleanerd_cleaning_interval d in
               if \<not> timespec_less curr (c_target d) \<or> no_timeout d
               then (Inr (), d\<lparr>c_timeout := \<lparr>tv_sec = 0, tv_nsec = 0\<rparr>, c_target := timespecadd curr interval\<rparr>)
               else (Inr (), d\<lparr>c_timeout := timespecsub (c_target d) curr, c_target := timespecadd (c_target d) interval\<rparr>)) d)"

section \<open>Requests of clients\<close>

definition req_cmd :: "bytes \<Rightarrow> int" where "req_cmd m = sint (le32_at m 0)"
definition req_argsize :: "bytes \<Rightarrow> u32" where "req_argsize m = le32_at m 4"
definition req_uuid :: "bytes \<Rightarrow> bytes" where "req_uuid m = take 16 (drop 8 m)"
definition sizeof_request :: nat where "sizeof_request = 24"
definition sizeof_args :: nat where "sizeof_args = 48"

definition arg_valid :: "bytes \<Rightarrow> nat \<Rightarrow> bool" where "arg_valid m flag \<longleftrightarrow> le16_at m 24 AND push_bit flag 1 \<noteq> 0"
definition arg_npasses :: "bytes \<Rightarrow> u16" where "arg_npasses m = le16_at m 26"
definition arg_nsegments_per_clean :: "bytes \<Rightarrow> u16" where "arg_nsegments_per_clean m = le16_at m 30"
definition arg_min_reclaimable_blocks_unit :: "bytes \<Rightarrow> u8" where "arg_min_reclaimable_blocks_unit m = m ! 33"
definition arg_cleaning_interval :: "bytes \<Rightarrow> u16" where "arg_cleaning_interval m = le16_at m 34"
definition arg_cleaning_interval_nsec :: "bytes \<Rightarrow> u32" where "arg_cleaning_interval_nsec m = le32_at m 36"
definition arg_protection_period :: "bytes \<Rightarrow> u64" where "arg_protection_period m = le64_at m 40"
definition arg_min_reclaimable_blocks :: "bytes \<Rightarrow> u32" where "arg_min_reclaimable_blocks m = le32_at m 68"

definition nilfs_cleanerd_respond :: "'w daemon_env \<Rightarrow> bytes \<Rightarrow> nilfs_cleaner_response \<Rightarrow> ('w, unit) dact" where
  "nilfs_cleanerd_respond e req res d =
     (let send = (\<lambda>q. inEnv (d_mq_send e q res)) in
      case c_sendq d of
        Some q \<Rightarrow>
          if client_uuid d = req_uuid req then send q d
          else let d = d\<lparr>c_lib := (c_lib d)\<lparr>l_env := d_mq_close e q (l_env (c_lib d))\<rparr>, c_sendq := None\<rparr> in
            bindE (inEnv (d_mq_open e (req_uuid req))) (\<lambda>q d. send q (d\<lparr>c_sendq := Some q, client_uuid := req_uuid req\<rparr>)) d
      | None \<Rightarrow> bindE (inEnv (d_mq_open e (req_uuid req))) (\<lambda>q d. send q (d\<lparr>c_sendq := Some q, client_uuid := req_uuid req\<rparr>)) d)"

definition nack :: "errno \<Rightarrow> nilfs_cleaner_response" where
  "nack er = zero_response\<lparr>rsp_result := NILFS_CLEANER_RSP_NACK, rsp_err := Some er\<rparr>"

definition nilfs_cleanerd_nak :: "'w daemon_env \<Rightarrow> bytes \<Rightarrow> errno \<Rightarrow> ('w, unit) dact" where
  "nilfs_cleanerd_nak e req er = nilfs_cleanerd_respond e req (nack er)"

definition nilfs_cleanerd_cmd_getstat :: "'w daemon_env \<Rightarrow> bytes \<Rightarrow> nat \<Rightarrow> ('w, unit) dact" where
  "nilfs_cleanerd_cmd_getstat e req argsize d =
     nilfs_cleanerd_respond e req (zero_response\<lparr>rsp_status :=
       (if running d = 0 then NILFS_CLEANER_STATUS_IDLE else if running d > 0 then NILFS_CLEANER_STATUS_RUNNING
        else NILFS_CLEANER_STATUS_SUSPENDED)\<rparr>) d"

text \<open>
  A request to run: each argument is checked and stored in turn, so that a request refused for a later
  argument has already stored the earlier ones.
\<close>

definition run_nsegments :: "bytes \<Rightarrow> 'w nilfs_cleanerd \<Rightarrow> bool \<times> 'w nilfs_cleanerd" where
  "run_nsegments req d =
     (if arg_valid req 1
      then if arg_nsegments_per_clean req = 0 \<or> arg_nsegments_per_clean req > 32 then (False, d)
           else (True, d\<lparr>mm_ncleansegs := int (unat (arg_nsegments_per_clean req))\<rparr>)
      else (True, d\<lparr>mm_ncleansegs := ncleansegs d\<rparr>))"

definition run_min_blocks :: "bytes \<Rightarrow> u32 \<Rightarrow> 'w nilfs_cleanerd \<Rightarrow> bool \<times> 'w nilfs_cleanerd" where
  "run_min_blocks req bps d =
     (let blocks = arg_min_reclaimable_blocks req in
      if \<not> arg_valid req 8 then (True, d\<lparr>mm_min_reclaimable_blocks := min_reclaimable_blocks d\<rparr>)
      else if arg_min_reclaimable_blocks_unit req = 0
      then if blocks > bps then (False, d) else (True, d\<lparr>mm_min_reclaimable_blocks := ucast blocks\<rparr>)
      else if arg_min_reclaimable_blocks_unit req = 1
      then if blocks > 100 then (False, d) else (True, d\<lparr>mm_min_reclaimable_blocks := ucast ((blocks * bps + 99) div 100)\<rparr>)
      else (False, d))"

definition run_npasses :: "bytes \<Rightarrow> 'w nilfs_cleanerd \<Rightarrow> bool \<times> 'w nilfs_cleanerd" where
  "run_npasses req d =
     (if arg_valid req 6
      then if arg_npasses req = 0 then (False, d)
           else (True, d\<lparr>mm_nrestpasses := int (unat (arg_npasses req)), mm_nrestsegs := 0\<rparr>)
      else (True, d\<lparr>mm_nrestpasses := 1, mm_nrestsegs := 0\<rparr>))"

definition run_times :: "bytes \<Rightarrow> 'w nilfs_cleanerd \<Rightarrow> 'w nilfs_cleanerd" where
  "run_times req d =
     d\<lparr>mm_cleaning_interval :=
         (if arg_valid req 2 then \<lparr>tv_sec = ucast (arg_cleaning_interval req), tv_nsec = ucast (arg_cleaning_interval_nsec req)\<rparr>
          else cleaning_interval d)\<rparr>"

definition run_protection :: "bytes \<Rightarrow> 'w nilfs_cleanerd \<Rightarrow> 'w nilfs_cleanerd" where
  "run_protection req d =
     d\<lparr>mm_protection_period :=
         (if arg_valid req 0 then \<lparr>tv_sec = arg_protection_period req, tv_nsec = 0\<rparr> else cf_protection_period (c_config d))\<rparr>"

definition nilfs_cleanerd_cmd_run :: "'w daemon_env \<Rightarrow> bytes \<Rightarrow> nat \<Rightarrow> ('w, unit) dact" where
  "nilfs_cleanerd_cmd_run e req argsize d =
     (let inval = nilfs_cleanerd_respond e req (nack EINVAL) in
      if argsize < sizeof_args then inval d
      else case run_nsegments req (run_protection req d) of
        (False, d) \<Rightarrow> inval d
      | (True, d) \<Rightarrow>
          (case (nilfs_get_blocks_per_segment (l_nilfs (c_lib d)), arg_valid req 8) of
             (None, True) \<Rightarrow> (Inl EAbort, d)
           | (obps, _) \<Rightarrow>
               (case run_min_blocks req (case obps of Some bps \<Rightarrow> bps | None \<Rightarrow> 0) (run_times req d) of
                  (False, d) \<Rightarrow> inval d
                | (True, d) \<Rightarrow>
                    (case run_npasses req d of
                       (False, d) \<Rightarrow> inval d
                     | (True, d) \<Rightarrow>
                         let d = (nilfs_cleanerd_manual_run d)\<lparr>c_jobid := c_jobid d + 1\<rparr> in
                         nilfs_cleanerd_respond e req (zero_response\<lparr>rsp_jobid := ucast (c_jobid d)\<rparr>) d))))"

definition nilfs_cleanerd_cmd_suspend :: "'w daemon_env \<Rightarrow> bytes \<Rightarrow> nat \<Rightarrow> ('w, unit) dact" where
  "nilfs_cleanerd_cmd_suspend e req argsize d =
     nilfs_cleanerd_respond e req zero_response (if running d \<noteq> - 1 then nilfs_cleanerd_manual_suspend d else d)"

definition nilfs_cleanerd_cmd_resume :: "'w daemon_env \<Rightarrow> bytes \<Rightarrow> nat \<Rightarrow> ('w, unit) dact" where
  "nilfs_cleanerd_cmd_resume e req argsize d =
     nilfs_cleanerd_respond e req zero_response (if running d = - 1 then nilfs_cleanerd_manual_resume d else d)"

definition nilfs_cleanerd_cmd_tune :: "'w daemon_env \<Rightarrow> bytes \<Rightarrow> nat \<Rightarrow> ('w, unit) dact" where
  "nilfs_cleanerd_cmd_tune e req argsize = nilfs_cleanerd_nak e req EOPNOTSUPP"

text \<open>The path name in a request, up to its terminating null character.\<close>

definition req_path :: "bytes \<Rightarrow> string" where
  "req_path req = map (\<lambda>b. char_of (unat b)) (takeWhile (\<lambda>b. b \<noteq> 0) (drop sizeof_request req))"

definition nilfs_cleanerd_cmd_reload :: "'w kernel \<Rightarrow> 'w daemon_env \<Rightarrow> bytes \<Rightarrow> nat \<Rightarrow> ('w, unit) dact" where
  "nilfs_cleanerd_cmd_reload k e req argsize d =
     (let reload = (\<lambda>conf. case nilfs_cleanerd_reconfig k e conf d of
           (Inl er, d) \<Rightarrow> nilfs_cleanerd_respond e req (nack er) d
         | (Inr _, d) \<Rightarrow> nilfs_cleanerd_respond e req zero_response d) in
      if argsize = 0 \<or> (argsize = 1 \<and> req ! sizeof_request = 0) then reload None
      else if length (req_path req) < argsize then reload (Some (req_path req))
      else nilfs_cleanerd_respond e req (nack EINVAL) d)"

definition nilfs_cleanerd_cmd_wait :: "'w daemon_env \<Rightarrow> bytes \<Rightarrow> nat \<Rightarrow> ('w, unit) dact" where
  "nilfs_cleanerd_cmd_wait e req argsize = nilfs_cleanerd_nak e req EOPNOTSUPP"

definition nilfs_cleanerd_cmd_stop :: "'w daemon_env \<Rightarrow> bytes \<Rightarrow> nat \<Rightarrow> ('w, unit) dact" where
  "nilfs_cleanerd_cmd_stop e req argsize d =
     nilfs_cleanerd_respond e req zero_response
       (if running d = 2 \<or> running d = - 1 then nilfs_cleanerd_manual_stop d else d)"

definition nilfs_cleanerd_cmd_shutdown :: "'w daemon_env \<Rightarrow> bytes \<Rightarrow> nat \<Rightarrow> ('w, unit) dact" where
  "nilfs_cleanerd_cmd_shutdown e req argsize d = nilfs_cleanerd_respond e req zero_response (d\<lparr>c_shutdown := True\<rparr>)"

definition nilfs_cleanerd_handle_message :: "'w kernel \<Rightarrow> 'w daemon_env \<Rightarrow> bytes \<Rightarrow> ('w, unit) dact" where
  "nilfs_cleanerd_handle_message k e req d =
     (if length req < sizeof_request \<or> length req < sizeof_request + unat (req_argsize req) then (Inl (EOther 0), d)
      else let argsize = length req - sizeof_request; cmd = req_cmd req in
        if cmd = 0 then nilfs_cleanerd_cmd_getstat e req argsize d
        else if cmd = 1 then nilfs_cleanerd_cmd_run e req argsize d
        else if cmd = 2 then nilfs_cleanerd_cmd_suspend e req argsize d
        else if cmd = 3 then nilfs_cleanerd_cmd_resume e req argsize d
        else if cmd = 4 then nilfs_cleanerd_cmd_tune e req argsize d
        else if cmd = 5 then nilfs_cleanerd_cmd_reload k e req argsize d
        else if cmd = 6 then nilfs_cleanerd_cmd_wait e req argsize d
        else if cmd = 7 then nilfs_cleanerd_cmd_stop e req argsize d
        else if cmd = 8 then nilfs_cleanerd_cmd_shutdown e req argsize d
        else nilfs_cleanerd_nak e req EINVAL d)"

text \<open>
  Waiting: an interrupted wait and an empty queue are no errors, and what became of the message is
  ignored, except for undefined behaviour.
\<close>

definition nilfs_cleanerd_wait :: "'w kernel \<Rightarrow> 'w daemon_env \<Rightarrow> ('w, unit) dact" where
  "nilfs_cleanerd_wait k e d =
     (case inEnv (d_ppoll e (c_timeout d)) d of
        (Inl er, d) \<Rightarrow> (if er = EINTR then Inr () else Inl er, d)
      | (Inr False, d) \<Rightarrow> (Inr (), d)
      | (Inr True, d) \<Rightarrow>
          (case inEnv (d_mq_receive e) d of
             (Inl er, d) \<Rightarrow> (if er = EINTR \<or> er = EAGAIN then Inr () else Inl er, d)
           | (Inr req, d) \<Rightarrow>
               (case nilfs_cleanerd_handle_message k e req d of
                  (Inl er, d) \<Rightarrow> (if er = EAbort then Inl EAbort else Inr (), d)
                | (Inr _, d) \<Rightarrow> (Inr (), d))))"

section \<open>Watermarks and manual mode\<close>

definition NILFS_MIN_NRSVSEGS :: u64 where "NILFS_MIN_NRSVSEGS = 8"

definition nilfs_get_reserved_segments :: "nilfs \<Rightarrow> u64 \<Rightarrow> u64 option" where
  "nilfs_get_reserved_segments n nsegs =
     map_option (\<lambda>ratio. max ((nsegs * ucast ratio + 99) div 100) NILFS_MIN_NRSVSEGS) (nilfs_get_reserved_segments_ratio n)"

text \<open>The result tells whether to sleep at once.\<close>

definition nilfs_cleanerd_handle_clean_check :: "nilfs_sustat \<Rightarrow> ('w, bool) dact" where
  "nilfs_cleanerd_handle_clean_check sustat d =
     (case nilfs_get_reserved_segments (l_nilfs (c_lib d)) (ss_nsegs sustat) of
        None \<Rightarrow> (Inl EAbort, d)
      | Some r_segments \<Rightarrow>
          let cf = c_config d; low = cf_min_clean_segments cf + r_segments;
              tune = (\<lambda>d. if ss_ncleansegs sustat < low
                then (Inr False, d\<lparr>ncleansegs := sint (cf_mc_nsegments_per_clean cf), cleaning_interval := cf_mc_cleaning_interval cf,
                        min_reclaimable_blocks := cf_mc_min_reclaimable_blocks cf\<rparr>)
                else (Inr False, d\<lparr>ncleansegs := sint (cf_nsegments_per_clean cf), cleaning_interval := cf_cleaning_interval cf,
                        min_reclaimable_blocks := cf_min_reclaimable_blocks cf\<rparr>))
          in if running d = 1
             then if ss_ncleansegs sustat > cf_max_clean_segments cf + r_segments
                  then (Inr True, nilfs_cleanerd_clean_check_pause d) else tune d
             else if running d = 0
             then if ss_ncleansegs sustat < low then tune (nilfs_cleanerd_clean_check_resume d) else (Inr True, d)
             else tune d)"

text \<open>
  The loop ends when all segments are counted or seen; a kernel that answers with no entries keeps it
  going for ever, so the number of rounds is bounded by an argument.
\<close>

definition NILFS_CLEANERD_NSUINFO :: u64 where "NILFS_CLEANERD_NSUINFO = 512"

fun count_inuse :: "'w kernel \<Rightarrow> u64 \<Rightarrow> nat \<Rightarrow> u64 \<Rightarrow> u64 \<Rightarrow> nat \<Rightarrow> ('w lib, nat) act" where
  "count_inuse k nsegs 0 segnum rest nfound s = (Inl EHang, s)"
| "count_inuse k nsegs (Suc n) segnum rest nfound s =
     (if \<not> (rest > 0 \<and> segnum < nsegs) then (Inr nfound, s)
      else case nilfs_get_suinfo k segnum (min rest NILFS_CLEANERD_NSUINFO) s of
        (Inl e, s) \<Rightarrow> (Inl e, s)
      | (Inr sis, s) \<Rightarrow>
          let m = length (filter nilfs_suinfo_reclaimable sis) in
          count_inuse k nsegs n (segnum + of_nat (length sis)) (rest - of_nat m) (nfound + m) s)"

definition nilfs_cleanerd_count_inuse_segments :: "'w kernel \<Rightarrow> nilfs_sustat \<Rightarrow> ('w, nat) dact" where
  "nilfs_cleanerd_count_inuse_segments k sustat =
     inLib (count_inuse k (ss_nsegs sustat) (unat (ss_nsegs sustat) + 1) 0 (ss_nsegs sustat) 0)"

definition nilfs_cleanerd_handle_manual_mode :: "'w kernel \<Rightarrow> nilfs_sustat \<Rightarrow> ('w, unit) dact" where
  "nilfs_cleanerd_handle_manual_mode k sustat d =
     (let finish = (\<lambda>d. if mm_nrestpasses d = 0 \<and> mm_nrestsegs d = 0 then nilfs_cleanerd_manual_end d else d) in
      if mm_nrestsegs d = 0 \<and> mm_nrestpasses d > 0
      then case nilfs_cleanerd_count_inuse_segments k sustat d of
             (Inl e, d) \<Rightarrow> if e = EHang then (Inl EHang, d) else (Inr (), finish (d\<lparr>mm_nrestpasses := 0\<rparr>))
           | (Inr ret, d) \<Rightarrow> (Inr (), finish (d\<lparr>mm_nrestpasses := mm_nrestpasses d - 1, mm_nrestsegs := int ret\<rparr>))
      else (Inr (), finish d))"

definition idle_check :: "nilfs_sustat \<Rightarrow> ('w, bool) dact" where
  "idle_check sustat d =
     (if running d = 0
      then if ss_nongc_ctime sustat \<noteq> prev_nongc_ctime d
           then (Inr False, d\<lparr>running := 1, prev_nongc_ctime := ss_nongc_ctime sustat\<rparr>)
           else (Inr True, d)
      else (Inr False, d))"

definition nilfs_cleanerd_check_state :: "'w kernel \<Rightarrow> nilfs_sustat \<Rightarrow> ('w, bool) dact" where
  "nilfs_cleanerd_check_state k sustat d =
     (if running d < 0 then (Inr True, d)
      else bindE (if running d = 2 then nilfs_cleanerd_handle_manual_mode k sustat else retE ()) (\<lambda>_ d.
             if running d < 2 \<and> nilfs_cleanerd_automatic_suspend d
             then bindE (nilfs_cleanerd_handle_clean_check sustat) (\<lambda>sleep.
                    if sleep then retE True else idle_check sustat) d
             else idle_check sustat d) d)"

definition nilfs_cleanerd_progress :: "u64 \<Rightarrow> 'w nilfs_cleanerd \<Rightarrow> 'w nilfs_cleanerd" where
  "nilfs_cleanerd_progress nsegs d =
     (if running d = 2 then d\<lparr>mm_nrestsegs := max (mm_nrestsegs d - sint (ucast nsegs :: i32)) 0\<rparr> else d)"

section \<open>Choosing segments\<close>

text \<open>
  A loop over the usage information of all segments in portions of 512. It ends when the kernel has no
  more to tell; the bound on the number of portions is never reached by a kernel that tells no more than it
  is asked for.
\<close>

fun suinfo_scan :: "'w kernel \<Rightarrow> u64 \<Rightarrow> (u64 \<Rightarrow> nilfs_suinfo \<Rightarrow> 'b \<Rightarrow> ('w, 'b) dact) \<Rightarrow> nat \<Rightarrow> u64 \<Rightarrow> 'b \<Rightarrow> ('w, 'b) dact" where
  "suinfo_scan k nsegs f 0 segnum b d = (Inl EHang, d)"
| "suinfo_scan k nsegs f (Suc n) segnum b d =
     (if \<not> segnum < nsegs then (Inr b, d)
      else case inLib (nilfs_get_suinfo k segnum (min (nsegs - segnum) NILFS_CLEANERD_NSUINFO)) d of
        (Inl e, d) \<Rightarrow> (Inl e, d)
      | (Inr sis, d) \<Rightarrow>
          (case foldE (\<lambda>(i, si). f (segnum + of_nat i) si) (enumerate 0 sis) b d of
             (Inl e, d) \<Rightarrow> (Inl e, d)
           | (Inr b, d) \<Rightarrow>
               if sis = [] then (Inr b, d) else suinfo_scan k nsegs f n (segnum + of_nat (length sis)) b d))"

declare suinfo_scan.simps [simp del]

definition track_oldest :: "nilfs_suinfo \<Rightarrow> i64 \<Rightarrow> i64" where
  "track_oldest si oldest = (if sui_lastmod si < oldest then sui_lastmod si else oldest)"

definition sizeof_candidate :: u64 where "sizeof_candidate = 32"

definition junk_candidate :: nilfs_segment_candidate where
  "junk_candidate = \<lparr>cd_segnum = 0, cd_score = 0, cd_metadata = None, cd_util = 0\<rparr>"

text \<open>One segment of the generic selection: a new element is taken for it and given back if the policy rejects it.\<close>

definition rate_segment :: "'w kernel \<Rightarrow> pol_junk \<Rightarrow> nilfs_sustat \<Rightarrow> i64 \<Rightarrow> i64 \<Rightarrow> u64 \<Rightarrow> nilfs_suinfo
    \<Rightarrow> i64 \<times> nilfs_segment_candidate nilfs_vector \<Rightarrow> ('w, i64 \<times> nilfs_segment_candidate nilfs_vector) dact" where
  "rate_segment k j sustat now prottime segnum si = (\<lambda>(oldest, v) d.
     if \<not> nilfs_suinfo_reclaimable si then (Inr (oldest, v), d)
     else case nilfs_vector_get_new_element (lib_alloc k) junk_candidate v (c_lib d) of
       (Inl e, s) \<Rightarrow> (Inl e, d\<lparr>c_lib := s\<rparr>)
     | (Inr (i, v), s) \<Rightarrow>
         bindE (inMap (pol_evaluate (c_policy d) k j (c_policy_data d) sustat si segnum now prottime)) (\<lambda>cand.
           retE (track_oldest si oldest,
                 case cand of
                   Some cand \<Rightarrow> set_slot v i cand
                 | None \<Rightarrow> (case nilfs_vector_delete_element v (ucast (nilfs_vector_get_size v) - 1) of Inr v \<Rightarrow> v | Inl _ \<Rightarrow> v)))
           (d\<lparr>c_lib := s\<rparr>))"

text \<open>
  The result has the chosen segments, the lower limit of the protected period and the oldest
  modification time. Failing before the vector is made, the source destroys a vector it never created: undefined.
\<close>

definition nilfs_cleanerd_select_segments :: "'w kernel \<Rightarrow> 'w daemon_env \<Rightarrow> pol_junk \<Rightarrow> nilfs_sustat
    \<Rightarrow> ('w, u64 list \<times> i64 \<times> i64) dact" where
  "nilfs_cleanerd_select_segments k e j sustat d =
     (case inEnv (d_clock e CLOCK_REALTIME) d of
        (Inl er, d) \<Rightarrow> (Inl EAbort, d)
      | (Inr ts, d) \<Rightarrow>
          let now = tv_sec ts; prottime = tv_sec (timespecsub ts (nilfs_cleanerd_protection_period d));
              nsegs = ss_nsegs sustat; rounds = unat nsegs + 1 in
          (case suinfo_scan k nsegs (\<lambda>segnum si oldest. retE (if nilfs_suinfo_reclaimable si then track_oldest si oldest else oldest))
                  rounds 0 NILFS_CLEANERD_NULLTIME d of
             (Inl er, d) \<Rightarrow> (Inl (if er = EHang then EHang else EAbort), d)
           | (Inr oldest, d) \<Rightarrow>
               (case pol_select (c_policy d) of
                  Some select \<Rightarrow>
                    bindE (inMap (select k j (c_policy_data d) sustat now prottime)) (\<lambda>segs. retE (segs, prottime, oldest)) d
                | None \<Rightarrow>
                    bindE (inLib (nilfs_vector_create (lib_alloc k) junk_candidate sizeof_candidate)) (\<lambda>v.
                    bindE (suinfo_scan k nsegs (rate_segment k j sustat now prottime) rounds 0 (oldest, v)) (\<lambda>(oldest, v).
                      let v = nilfs_vector_sort v (pol_compare (c_policy d)) in
                      retE (map cd_segnum (take (min (unat (nilfs_vector_get_size v)) 2) (v_data v)), prottime, oldest))) d)))"

section \<open>Cleaning\<close>

fun still_reclaimable :: "'w kernel \<Rightarrow> u64 \<Rightarrow> u64 list \<Rightarrow> 'w lib \<Rightarrow> bool \<times> 'w lib" where
  "still_reclaimable k protseq [] s = (False, s)"
| "still_reclaimable k protseq (seg # segs) s =
     (case nilfs_get_suinfo k seg 1 s of (r, s) \<Rightarrow>
        let si = (case r of Inr [si] \<Rightarrow> Some si | _ \<Rightarrow> None) in
        if (case si of Some si \<Rightarrow> \<not> nilfs_suinfo_reclaimable si | None \<Rightarrow> False) then still_reclaimable k protseq segs s
        else if (case si of Some si \<Rightarrow> nilfs_suinfo_empty si | None \<Rightarrow> False) then (True, s)
        else case nilfs_segment_is_protected k seg protseq s of
          (Inr True, s) \<Rightarrow> (True, s)
        | (_, s) \<Rightarrow> still_reclaimable k protseq segs s)"

definition nilfs_segments_still_reclaimable :: "'w kernel \<Rightarrow> u64 list \<Rightarrow> nat \<Rightarrow> u64 \<Rightarrow> 'w lib \<Rightarrow> bool \<times> 'w lib" where
  "nilfs_segments_still_reclaimable k segnumv nsegs protseq = still_reclaimable k protseq (take nsegs segnumv)"

definition nilfs_shrink_protected_region :: "'w kernel \<Rightarrow> 'w lib \<Rightarrow> bool \<times> 'w lib" where
  "nilfs_shrink_protected_region k s =
     (case nilfs_sync k s of (_, s) \<Rightarrow>
      case nilfs_freeze k s of
        (Inl _, s) \<Rightarrow> (False, s)
      | (Inr _, s) \<Rightarrow> (case nilfs_thaw k s of (Inl _, s) \<Rightarrow> (False, s) | (Inr _, s) \<Rightarrow> (True, s)))"

text \<open>What is recorded of a finished run of the collector.\<close>

definition note_cleaned :: "nilfs_reclaim_stat \<Rightarrow> 'w nilfs_cleanerd \<Rightarrow> 'w nilfs_cleanerd" where
  "note_cleaned stat d =
     (if cleaned_segs stat > 0
      then (nilfs_cleanerd_progress (cleaned_segs stat) d)\<lparr>fallback := False, retry_cleaning := False\<rparr> else d)"

definition note_deferred :: "nilfs_reclaim_stat \<Rightarrow> 'w nilfs_cleanerd \<Rightarrow> 'w nilfs_cleanerd" where
  "note_deferred stat d =
     (if deferred_segs stat > 0
      then (nilfs_cleanerd_progress (deferred_segs stat) d)
             \<lparr>fallback := False, retry_cleaning := False, no_timeout := (if cleaned_segs stat = 0 then True else no_timeout d)\<rparr>
      else d)"

definition retry_protected :: "'w kernel \<Rightarrow> u64 list \<Rightarrow> nat \<Rightarrow> u64 \<Rightarrow> 'w nilfs_cleanerd \<Rightarrow> 'w nilfs_cleanerd" where
  "retry_protected k segnums nsegs protseq d =
     (if retry_cleaning d then d\<lparr>retry_cleaning := False\<rparr>
      else case nilfs_segments_still_reclaimable k segnums nsegs protseq (c_lib d) of
        (False, s) \<Rightarrow> d\<lparr>c_lib := s, retry_cleaning := False\<rparr>
      | (True, s) \<Rightarrow> (case nilfs_shrink_protected_region k s of (ok, s) \<Rightarrow> d\<lparr>c_lib := s, retry_cleaning := ok\<rparr>))"

definition nilfs_cleanerd_clean_segments :: "'w kernel \<Rightarrow> pol_junk \<Rightarrow> u64 list \<Rightarrow> nat \<Rightarrow> u64 \<Rightarrow> ('w, nat) dact" where
  "nilfs_cleanerd_clean_segments k j segnums nsegs protseq d =
     bindE (inMap (nilfs_cnormap_track_back k (pj_span j) (tv_sec (nilfs_cleanerd_protection_period d)))) (\<lambda>protcno d.
       let params = \<lparr>rp_flags = NILFS_RECLAIM_PARAM_PROTSEQ OR NILFS_RECLAIM_PARAM_PROTCNO OR NILFS_RECLAIM_PARAM_MIN_RECLAIMABLE_BLKS,
                     rp_min_reclaimable_blks = nilfs_cleanerd_min_reclaimable_blocks d, rp_protseq = protseq, rp_protcno = protcno\<rparr>
       in case nilfs_xreclaim_segment k (pj_gc j) segnums nsegs False params (Some zero_stat) (c_lib d) of
            ((Inl e, segnums, stat), s) \<Rightarrow>
              let d = d\<lparr>c_lib := s\<rparr> in
              if e = ENOMEM then (Inr 0, (nilfs_cleanerd_reduce_ncleansegs_for_retry d)\<lparr>fallback := True\<rparr>) else (Inl e, d)
          | ((Inr _, segnums, stat), s) \<Rightarrow>
              let stat = the stat; d = note_deferred stat (note_cleaned stat (d\<lparr>c_lib := s\<rparr>));
                  ndone = unat (cleaned_segs stat + deferred_segs stat)
              in (Inr ndone, if ndone = 0 then retry_protected k segnums nsegs protseq d else d)) d"

text \<open>The log of segment utilisations: only its effects on the library are modelled, not the text written.\<close>

fun log_segments :: "'w kernel \<Rightarrow> gc_junk \<Rightarrow> nilfs_sustat \<Rightarrow> u64 \<Rightarrow> nat \<Rightarrow> u64 \<Rightarrow> 'w lib \<Rightarrow> 'w lib" where
  "log_segments k j sustat protcno 0 segnum s = s"
| "log_segments k j sustat protcno (Suc n) segnum s =
     log_segments k j sustat protcno n (segnum + 1) (snd (assess_segment_if_dirty k j sustat segnum protcno zero_stat s))"

definition nilfs_workload_logger :: "'w kernel \<Rightarrow> 'w daemon_env \<Rightarrow> pol_junk \<Rightarrow> ('w, unit) dact" where
  "nilfs_workload_logger k e j d =
     (let openlog = (\<lambda>name d. case d_fopen e (cf_log_file (c_config d) @ name) (l_env (c_lib d)) of
            (ok, w) \<Rightarrow> (ok, d\<lparr>c_lib := (c_lib d)\<lparr>l_env := w\<rparr>\<rparr>)) in
      case openlog ''data.log'' d of
        (False, d) \<Rightarrow> (Inr (), d)
      | (True, d) \<Rightarrow>
          (case openlog ''write_cost.log'' d of
             (False, d) \<Rightarrow> (Inr (), d)
           | (True, d) \<Rightarrow>
               (case (nilfs_get_nsegments (l_nilfs (c_lib d)), nilfs_get_blocks_per_segment (l_nilfs (c_lib d))) of
                  (Some ns, Some bps) \<Rightarrow>
                    (case inMap (nilfs_cnormap_track_back k (pj_span j) 0) d of
                       (Inl _, d) \<Rightarrow> (Inr (), d)
                     | (Inr protcno, d) \<Rightarrow>
                         (case inLib (nilfs_get_sustat k) d of
                            (Inl _, d) \<Rightarrow> (Inr (), d)
                          | (Inr sustat, d) \<Rightarrow>
                              (case inEnv (d_statvfs e) d of
                                 (Inl _, d) \<Rightarrow> (Inr (), d)
                               | (Inr _, d) \<Rightarrow>
                                   (Inr (), d\<lparr>c_lib := log_segments k (pj_gc j) sustat protcno (unat ns) 0 (c_lib d)\<rparr>))))
                | _ \<Rightarrow> (Inl EAbort, d))))"

section \<open>The main loop\<close>

text \<open>One round of the loop: \<open>Inl\<close> ends the daemon.\<close>

definition clean_once :: "'w kernel \<Rightarrow> 'w daemon_env \<Rightarrow> pol_junk \<Rightarrow> nilfs_sustat \<Rightarrow> ('w, unit) dact" where
  "clean_once k e j sustat =
     bindE (nilfs_cleanerd_select_segments k e j sustat) (\<lambda>(segnums, prottime, oldest).
     bindE (nilfs_workload_logger k e j) (\<lambda>_.
     bindE (if length segnums > 0
            then nilfs_cleanerd_clean_segments k j segnums (length segnums) (ss_prot_seq sustat)
            else (\<lambda>d. (Inr 0, d\<lparr>retry_cleaning := False\<rparr>))) (\<lambda>ndone.
       nilfs_cleanerd_recalc_interval e (length segnums) ndone prottime oldest)))"

definition loop_round :: "'w kernel \<Rightarrow> 'w daemon_env \<Rightarrow> pol_junk \<Rightarrow> ('w, unit) dact" where
  "loop_round k e j d =
     bindE (inEnv (d_sigprocmask e)) (\<lambda>_ d.
     bindE (inLib (nilfs_get_sustat k)) (\<lambda>sustat.
     bindE (nilfs_cleanerd_check_state k sustat) (\<lambda>sleep.
     bindE (if sleep then retE () else clean_once k e j sustat) (\<lambda>_.
     bindE (inEnv (d_sigprocmask e)) (\<lambda>_.
       nilfs_cleanerd_wait k e)))) (nilfs_cleanerd_handle_signals k e d)) (d\<lparr>no_timeout := False\<rparr>)"

text \<open>The state in which the loop starts, once the signal handlers are installed.\<close>

definition loop_init :: "'w daemon_env \<Rightarrow> ('w, unit) dact" where
  "loop_init e d =
     bindE (inEnv (d_sigprocmask e)) (\<lambda>_ d.
     bindE (nilfs_cleanerd_init_interval e) (\<lambda>_ d.
       let d = d\<lparr>ncleansegs := sint (cf_nsegments_per_clean (c_config d)), cleaning_interval := cf_cleaning_interval (c_config d),
                 min_reclaimable_blocks := cf_min_reclaimable_blocks (c_config d)\<rparr>
       in (Inr (), if nilfs_cleanerd_automatic_suspend d then nilfs_cleanerd_clean_check_pause d else d))
       (d\<lparr>running := 1, fallback := False, retry_cleaning := False\<rparr>)) d"

text \<open>\<open>nilfs_cleanerd_clean_loop\<close> runs for ever; the first \<open>n\<close> rounds of it are \<open>clean_loop_rounds n\<close>.\<close>

fun clean_loop_rounds :: "'w kernel \<Rightarrow> 'w daemon_env \<Rightarrow> pol_junk \<Rightarrow> nat \<Rightarrow> ('w, unit) dact" where
  "clean_loop_rounds k e j 0 d = (Inr (), d)"
| "clean_loop_rounds k e j (Suc n) d =
     (if c_shutdown d then (Inr (), d) else bindE (loop_round k e j) (\<lambda>_. clean_loop_rounds k e j n) d)"

text \<open>The states between two rounds of the loop.\<close>

inductive daemon_reach :: "'w kernel \<Rightarrow> 'w daemon_env \<Rightarrow> pol_junk \<Rightarrow> 'w nilfs_cleanerd \<Rightarrow> bool"
  for k e j where
  start: "config_wf (c_config d) \<Longrightarrow> loop_init e d = (Inr (), d') \<Longrightarrow> mm_ncleansegs d = 0 \<Longrightarrow> mm_nrestpasses d = 0
    \<Longrightarrow> mm_nrestsegs d = 0 \<Longrightarrow> daemon_reach k e j d'"
| round: "daemon_reach k e j d \<Longrightarrow> \<not> c_shutdown d \<Longrightarrow> loop_round k e j d = (Inr (), d') \<Longrightarrow> daemon_reach k e j d'"

inductive_cases daemon_reach_cases: "daemon_reach k e j d"

end
