(* ===== verification/Cleanerd_Inv.thy ===== *)
theory Cleanerd_Inv
  imports Cleanerd
begin

text \<open>
  What holds of the cleaner daemon: the invariant of its reachable states, that it collects nothing while
  suspended, its watermarks as an abstract controller with two thresholds, and the progress of a manual
  job. The proofs rest on one interface, \<open>daemon_property\<close>: a property of the daemon that does not depend on
  the library object, the mapper, the queue of the last client, the times and the flags of a round is kept by
  everything that only changes these.
\<close>

section \<open>What every operation keeps\<close>

definition dkeeps :: "('s \<Rightarrow> bool) \<Rightarrow> ('s, 'a) act \<Rightarrow> bool" where
  "dkeeps P m \<longleftrightarrow> (\<forall>d. P d \<longrightarrow> P (snd (m d)))"

lemma dkeepsD: "dkeeps P m \<Longrightarrow> P d \<Longrightarrow> m d = (r, d') \<Longrightarrow> P d'"
  unfolding dkeeps_def by (metis snd_conv)

lemma dkeeps_snd: "dkeeps P m \<Longrightarrow> P d \<Longrightarrow> P (snd (m d))"
  unfolding dkeeps_def by blast

lemma dkeeps_ret: "dkeeps P (retE x)" "dkeeps P (failE er)"
  by (simp_all add: dkeeps_def)

lemma dkeeps_bind: "dkeeps P m \<Longrightarrow> (\<And>x. dkeeps P (f x)) \<Longrightarrow> dkeeps P (bindE m f)"
  unfolding dkeeps_def bindE_def by (auto split: prod.splits sum.splits)

lemma dkeeps_fold: "(\<And>x b. dkeeps P (f x b)) \<Longrightarrow> dkeeps P (foldE f xs b)"
  by (induction xs arbitrary: b) (auto intro!: dkeeps_ret dkeeps_bind)

text \<open>The selection after the clock was read and the oldest segment found.\<close>

lemma select_eq:
  assumes "inEnv (d_clock e CLOCK_REALTIME) d = (Inr ts, d1)"
    and "suinfo_scan k (ss_nsegs sustat) (\<lambda>segnum si oldest. retE (if nilfs_suinfo_reclaimable si then track_oldest si oldest else oldest))
      (unat (ss_nsegs sustat) + 1) 0 NILFS_CLEANERD_NULLTIME d1 = (Inr oldest, d2)"
    and "now = tv_sec ts" "pt = tv_sec (timespecsub ts (nilfs_cleanerd_protection_period d1))"
  shows "nilfs_cleanerd_select_segments k e j sustat d =
    (case pol_select (c_policy d2) of
       Some select \<Rightarrow> bindE (inMap (select k j (c_policy_data d2) sustat now pt)) (\<lambda>segs. retE (segs, pt, oldest)) d2
     | None \<Rightarrow> bindE (inLib (nilfs_vector_create (lib_alloc k) junk_candidate sizeof_candidate)) (\<lambda>v.
         bindE (suinfo_scan k (ss_nsegs sustat) (rate_segment k j sustat now pt) (unat (ss_nsegs sustat) + 1) 0 (oldest, v)) (\<lambda>(oldest, v).
           retE (map cd_segnum (take (min (unat (nilfs_vector_get_size (nilfs_vector_sort v (pol_compare (c_policy d2))))) 2)
                   (v_data (nilfs_vector_sort v (pol_compare (c_policy d2))))), pt, oldest))) d2)"
  unfolding nilfs_cleanerd_select_segments_def Let_def assms prod.case sum.case ..

text \<open>
  A property of the daemon that depends neither on the library object and the mapper nor on the times, the
  flags and the queue of the last client.
\<close>

locale daemon_property =
  fixes P :: "'w nilfs_cleanerd \<Rightarrow> bool"
  assumes frame: "P (d\<lparr>c_lib := s\<rparr>) = P d" "P (d\<lparr>c_cnormap := c\<rparr>) = P d" "P (d\<lparr>c_sendq := q\<rparr>) = P d" "P (d\<lparr>client_uuid := u\<rparr>) = P d"
    "P (d\<lparr>c_timeout := t\<rparr>) = P d" "P (d\<lparr>c_target := t\<rparr>) = P d" "P (d\<lparr>fallback := b\<rparr>) = P d" "P (d\<lparr>retry_cleaning := b\<rparr>) = P d"
    "P (d\<lparr>no_timeout := b\<rparr>) = P d"
begin

lemma lifted_keeps: "dkeeps P (inLib m)" "dkeeps P (inMap m')" "dkeeps P (inEnv m'')"
  by (auto simp: dkeeps_def inLib_def inMap_def inEnv_def frame split: prod.splits)

lemma respond_keeps: "dkeeps P (nilfs_cleanerd_respond e req res)"
proof -
  have "dkeeps P (\<lambda>d. inEnv (d_mq_send e q res) (d\<lparr>c_sendq := s, client_uuid := u\<rparr>))" for q s u
    unfolding dkeeps_def by (auto intro!: lifted_keeps(3) [unfolded dkeeps_def, rule_format] simp: frame)
  then have op: "dkeeps P (bindE (inEnv (d_mq_open e u)) (\<lambda>q d. inEnv (d_mq_send e q res) (d\<lparr>c_sendq := Some q, client_uuid := u\<rparr>)))" for u
    by (intro dkeeps_bind lifted_keeps)
  show ?thesis
    using op lifted_keeps(3) unfolding dkeeps_def nilfs_cleanerd_respond_def Let_def
    by (auto simp: frame split: option.splits)
qed

lemma logger_keeps: "dkeeps P (nilfs_workload_logger k e j)"
  by (auto simp: dkeeps_def nilfs_workload_logger_def Let_def inEnv_def inLib_def inMap_def frame
      split: prod.splits bool.splits option.splits sum.splits)

lemma scan_keeps: "(\<And>s si b. dkeeps P (f s si b)) \<Longrightarrow> dkeeps P (suinfo_scan k nsegs f n segnum b)"
proof (induction n arbitrary: segnum b)
  case (Suc n)
  have fold: "dkeeps P (foldE (\<lambda>(i, si). f (segnum + of_nat i) si) xs b)" for segnum xs b
    by (rule dkeeps_fold) (use Suc(2) in \<open>auto split: prod.splits\<close>)
  show ?case
    unfolding dkeeps_def
  proof (intro allI impI)
    fix d :: "'w nilfs_cleanerd" assume d: "P d"
    let ?g = "inLib (nilfs_get_suinfo k segnum (min (nsegs - segnum) NILFS_CLEANERD_NSUINFO))"
    obtain q d1 where g: "?g d = (q, d1)" by (rule prod.exhaust)
    have d1: "P d1" by (rule dkeepsD [OF lifted_keeps(1) d g])
    show "P (snd (suinfo_scan k nsegs f (Suc n) segnum b d))"
    proof (cases q)
      case (Inl er)
      then show ?thesis using d d1 g by (simp add: suinfo_scan.simps)
    next
      case (Inr sis)
      obtain q2 d2 where h: "foldE (\<lambda>(i, si). f (segnum + of_nat i) si) (enumerate 0 sis) b d1 = (q2, d2)" by (rule prod.exhaust)
      have d2: "P d2" by (rule dkeepsD [OF fold d1 h])
      then show ?thesis using Suc(1) [OF Suc(2)] d g Inr h unfolding dkeeps_def
        by (cases q2) (simp_all add: suinfo_scan.simps)
    qed
  qed
qed (simp add: dkeeps_def suinfo_scan.simps)

lemma rate_keeps: "dkeeps P (rate_segment k j sustat now prottime segnum si b)"
  by (auto simp: dkeeps_def rate_segment_def bindE_def inMap_def frame split: prod.splits sum.splits)

lemma select_keeps: "dkeeps P (nilfs_cleanerd_select_segments k e j sustat)"
  unfolding dkeeps_def
proof (intro allI impI)
  fix d :: "'w nilfs_cleanerd" assume d: "P d"
  obtain q d1 where g: "inEnv (d_clock e CLOCK_REALTIME) d = (q, d1)" by (rule prod.exhaust)
  have d1: "P d1" by (rule dkeepsD [OF lifted_keeps(3) d g])
  let ?scan = "suinfo_scan k (ss_nsegs sustat) (\<lambda>segnum si oldest. retE (if nilfs_suinfo_reclaimable si then track_oldest si oldest else oldest))
    (unat (ss_nsegs sustat) + 1) 0 NILFS_CLEANERD_NULLTIME"
  obtain q2 d2 where h: "?scan d1 = (q2, d2)" by (rule prod.exhaust)
  have d2: "P d2" by (rule dkeepsD [OF scan_keeps d1 h]) (rule dkeeps_ret)
  show "P (snd (nilfs_cleanerd_select_segments k e j sustat d))"
  proof (cases q)
    case (Inl er)
    then show ?thesis using d1 g by (simp add: nilfs_cleanerd_select_segments_def)
  next
    case (Inr ts)
    show ?thesis
    proof (cases q2)
      case (Inl er)
      then show ?thesis using d2 g h Inr by (simp add: nilfs_cleanerd_select_segments_def Let_def)
    next
      case r2: (Inr oldest)
      note eq = select_eq [OF g [unfolded Inr] h [unfolded r2] refl refl]
      show ?thesis
        unfolding eq
        by (cases "pol_select (c_policy d2)"; simp only: option.case; rule dkeeps_snd [where P = P, OF _ d2];
            intro dkeeps_bind lifted_keeps scan_keeps rate_keeps; auto simp: dkeeps_def split: prod.splits)
    qed
  qed
qed

end

section \<open>The invariant of the daemon\<close>

definition daemon_inv :: "'w nilfs_cleanerd \<Rightarrow> bool" where
  "daemon_inv d \<longleftrightarrow> running d \<in> {- 1, 0, 1, 2} \<and> 0 \<le> ncleansegs d \<and> ncleansegs d \<le> 32 \<and> 0 \<le> mm_ncleansegs d \<and> mm_ncleansegs d \<le> 32
     \<and> 0 \<le> mm_nrestpasses d \<and> 0 \<le> mm_nrestsegs d \<and> config_wf (c_config d)"

interpretation dinv: daemon_property daemon_inv
  by unfold_locales (simp_all add: daemon_inv_def)

lemma inv_frame:
  "daemon_inv (d\<lparr>mm_protection_period := t\<rparr>) = daemon_inv d" "daemon_inv (d\<lparr>mm_cleaning_interval := t\<rparr>) = daemon_inv d"
  "daemon_inv (d\<lparr>mm_min_reclaimable_blocks := n\<rparr>) = daemon_inv d" "daemon_inv (d\<lparr>min_reclaimable_blocks := n\<rparr>) = daemon_inv d"
  "daemon_inv (d\<lparr>cleaning_interval := t\<rparr>) = daemon_inv d" "daemon_inv (d\<lparr>c_jobid := n\<rparr>) = daemon_inv d"
  "daemon_inv (d\<lparr>c_shutdown := b\<rparr>) = daemon_inv d" "daemon_inv (d\<lparr>mm_prev_state := x\<rparr>) = daemon_inv d"
  "daemon_inv (d\<lparr>prev_nongc_ctime := n\<rparr>) = daemon_inv d"
  by (simp_all add: daemon_inv_def)

lemma inv_set:
  "daemon_inv d \<Longrightarrow> 0 \<le> x \<Longrightarrow> x \<le> 32 \<Longrightarrow> daemon_inv (d\<lparr>mm_ncleansegs := x\<rparr>)"
  "daemon_inv d \<Longrightarrow> 0 \<le> x \<Longrightarrow> x \<le> 32 \<Longrightarrow> daemon_inv (d\<lparr>ncleansegs := x\<rparr>)"
  "daemon_inv d \<Longrightarrow> x \<in> {- 1, 0, 1, 2} \<Longrightarrow> daemon_inv (d\<lparr>running := x\<rparr>)"
  "daemon_inv d \<Longrightarrow> 0 \<le> x \<Longrightarrow> daemon_inv (d\<lparr>mm_nrestpasses := x\<rparr>)"
  "daemon_inv d \<Longrightarrow> 0 \<le> x \<Longrightarrow> daemon_inv (d\<lparr>mm_nrestsegs := x\<rparr>)"
  by (simp_all add: daemon_inv_def)

lemma inv_speed: "daemon_inv d \<Longrightarrow> 0 \<le> ncleansegs d \<and> ncleansegs d \<le> 32" "daemon_inv d \<Longrightarrow> 0 \<le> mm_ncleansegs d \<and> mm_ncleansegs d \<le> 32"
  by (simp_all add: daemon_inv_def)

lemma sint_small: "unat (x :: i32) \<le> 32 \<Longrightarrow> 0 \<le> sint x \<and> sint x \<le> 32"
proof -
  assume "unat x \<le> 32"
  then have "int (unat x) \<le> 32" by linarith
  then have "uint x \<le> 32" by simp
  moreover have "0 \<le> uint x" by simp
  moreover have "- (2 ^ 31) \<le> uint x" by (rule order_trans [of _ 0]) simp_all
  moreover have "uint x < 2 ^ 31" using \<open>uint x \<le> 32\<close> by simp
  ultimately have "signed_take_bit 31 (uint x) = uint x" by (intro signed_take_bit_int_eq_self)
  moreover have "sint x = signed_take_bit 31 (uint x)" by (simp add: sint_uint)
  ultimately show ?thesis using \<open>uint x \<le> 32\<close> by simp
qed

lemma wf_speed: "config_wf cf \<Longrightarrow> 0 \<le> sint (cf_nsegments_per_clean cf) \<and> sint (cf_nsegments_per_clean cf) \<le> 32
    \<and> 0 \<le> sint (cf_mc_nsegments_per_clean cf) \<and> sint (cf_mc_nsegments_per_clean cf) \<le> 32"
  using sint_small by (auto simp: config_wf_def)

lemma default_wf: "nilfs_cldconfig_set_default n = Inr cf \<Longrightarrow> config_wf cf"
  by (auto simp: nilfs_cldconfig_set_default_def config_wf_def nilfs_cldconfig_polhandle_table_def split: sum.splits)

lemma config_read_any:
  assumes "config_wf cf" "nilfs_cldconfig_read k n path conf cf w = (r, cf', w')"
  shows "config_wf cf'"
proof -
  have "config_wf cf2" if "nilfs_cldconfig_set_default n = Inr cf0" "nilfs_cldconfig_do_read n conf cf0 = (q, cf2)" for cf0 q cf2
    using conf.read_loop_keeps default_wf [OF that(1)] that(2) by (auto simp: nilfs_cldconfig_do_read_def split: option.splits)
  then show ?thesis
    using assms by (auto simp: nilfs_cldconfig_read_def split: prod.splits sum.splits if_splits errno.splits)
qed

lemma reconfig_keeps: "dkeeps daemon_inv (nilfs_cleanerd_config k e conf)" "dkeeps daemon_inv (nilfs_cleanerd_reconfig k e conf)"
proof -
  have pp: "config_wf (cf\<lparr>cf_protection_period := t\<rparr>) = config_wf cf" for cf t by (simp add: config_wf_def)
  show c: "dkeeps daemon_inv (nilfs_cleanerd_config k e conf)"
    unfolding dkeeps_def
  proof (intro allI impI)
    fix d :: "'a nilfs_cleanerd" assume d: "daemon_inv d"
    let ?path = "case conf of Some p \<Rightarrow> p | None \<Rightarrow> conffile d"
    obtain tx w where t: "d_conf_text e ?path (l_env (c_lib d)) = (tx, w)" by (rule prod.exhaust)
    obtain r cf w' where rd: "nilfs_cldconfig_read k (l_nilfs (c_lib d)) ?path tx (c_config d) w = (r, cf, w')" by (rule prod_cases3)
    have "config_wf cf" using config_read_any [OF _ rd] d by (simp add: daemon_inv_def)
    then show "daemon_inv (snd (nilfs_cleanerd_config k e conf d))"
      using d by (cases r) (simp_all add: nilfs_cleanerd_config_def t rd Let_def daemon_inv_def pp)
  qed
  show "dkeeps daemon_inv (nilfs_cleanerd_reconfig k e conf)"
    unfolding nilfs_cleanerd_reconfig_def
    by (intro dkeeps_bind c) (auto simp: dkeeps_def daemon_inv_def dest!: wf_speed)
qed

lemma signals_keep: "daemon_inv d \<Longrightarrow> daemon_inv (nilfs_cleanerd_handle_signals k e d)"
  using reconfig_keeps(2) [of k e None] dinv.frame(1)
  by (auto simp: nilfs_cleanerd_handle_signals_def dkeeps_def Let_def split: prod.splits)

lemmas transition_defs = nilfs_cleanerd_clean_check_pause_def nilfs_cleanerd_clean_check_resume_def nilfs_cleanerd_manual_suspend_def
  nilfs_cleanerd_manual_resume_def nilfs_cleanerd_manual_run_def nilfs_cleanerd_manual_end_def nilfs_cleanerd_manual_stop_def

lemma respond_inv: "daemon_inv d \<Longrightarrow> daemon_inv (snd (nilfs_cleanerd_respond e req res d))"
  by (rule dkeeps_snd [OF dinv.respond_keeps])

lemma run_keeps: "dkeeps daemon_inv (nilfs_cleanerd_cmd_run e req argsize)"
proof -
  have u: "int (unat x) \<le> 32" if "\<not> x > (32 :: u16)" for x
  proof -
    have "unat x \<le> 32" using that by (simp add: word_less_nat_alt)
    then show ?thesis by linarith
  qed
  have a: "daemon_inv d \<Longrightarrow> daemon_inv (snd (run_nsegments req (run_protection req d)))" for d :: "'a nilfs_cleanerd"
    using u inv_speed(1) [of d] by (simp add: run_nsegments_def run_protection_def inv_set inv_frame)
  have b: "daemon_inv d \<Longrightarrow> daemon_inv (snd (run_min_blocks req bps (run_times req d)))" for d :: "'a nilfs_cleanerd" and bps
    by (simp add: run_min_blocks_def run_times_def Let_def inv_frame)
  have c: "daemon_inv d \<Longrightarrow> daemon_inv (snd (run_npasses req d))" for d :: "'a nilfs_cleanerd"
    by (simp add: run_npasses_def inv_set)
  have f: "daemon_inv d \<Longrightarrow> daemon_inv ((nilfs_cleanerd_manual_run d)\<lparr>c_jobid := x\<rparr>)" for d :: "'a nilfs_cleanerd" and x
    by (simp add: daemon_inv_def nilfs_cleanerd_manual_run_def)
  show ?thesis
    unfolding dkeeps_def
  proof (intro allI impI)
    fix d :: "'a nilfs_cleanerd" assume d: "daemon_inv d"
    obtain b1 d1 where e1: "run_nsegments req (run_protection req d) = (b1, d1)" by (rule prod.exhaust)
    define ob where "ob = nilfs_get_blocks_per_segment (l_nilfs (c_lib d1))"
    obtain b2 d2 where e2: "run_min_blocks req (case ob of Some bps \<Rightarrow> bps | None \<Rightarrow> 0) (run_times req d1) = (b2, d2)" by (rule prod.exhaust)
    obtain b3 d3 where e3: "run_npasses req d2 = (b3, d3)" by (rule prod.exhaust)
    note i1 = a [OF d, unfolded e1 snd_conv]
    note i2 = b [OF i1, of "case ob of Some bps \<Rightarrow> bps | None \<Rightarrow> 0", unfolded e2 snd_conv]
    note i3 = c [OF i2, unfolded e3 snd_conv]
    let ?inval = "nilfs_cleanerd_respond e req (nack EINVAL)"
      and ?ok = "\<lambda>d. nilfs_cleanerd_respond e req (zero_response\<lparr>rsp_jobid := ucast (c_jobid d)\<rparr>) d"
    let ?last = "\<lambda>d. let d = (nilfs_cleanerd_manual_run d)\<lparr>c_jobid := c_jobid d + 1\<rparr> in ?ok d"
    have l: "daemon_inv (snd (?last d3))" unfolding Let_def by (rule respond_inv [OF f [OF i3]])
    have s3: "daemon_inv (snd (case run_npasses req d2 of (False, d) \<Rightarrow> ?inval d | (True, d) \<Rightarrow> ?last d))"
      unfolding e3 prod.case using l respond_inv [OF i3] by (cases b3) (simp_all only: bool.case)
    have s2: "daemon_inv (snd (case run_min_blocks req (case ob of Some bps \<Rightarrow> bps | None \<Rightarrow> 0) (run_times req d1) of
        (False, d) \<Rightarrow> ?inval d | (True, d) \<Rightarrow> (case run_npasses req d of (False, d) \<Rightarrow> ?inval d | (True, d) \<Rightarrow> ?last d)))"
      unfolding e2 prod.case using s3 respond_inv [OF i2] by (cases b2) (simp_all only: bool.case)
    have "daemon_inv (snd (case (ob, arg_valid req 8) of (None, True) \<Rightarrow> (Inl EAbort, d1) | (obps, _) \<Rightarrow>
        (case run_min_blocks req (case obps of Some bps \<Rightarrow> bps | None \<Rightarrow> 0) (run_times req d1) of
        (False, d) \<Rightarrow> ?inval d | (True, d) \<Rightarrow> (case run_npasses req d of (False, d) \<Rightarrow> ?inval d | (True, d) \<Rightarrow> ?last d))))"
      using s2 i1 by (cases ob; cases "arg_valid req 8") (simp_all only: option.case bool.case prod.case snd_conv)
    then show "daemon_inv (snd (nilfs_cleanerd_cmd_run e req argsize d))"
      unfolding nilfs_cleanerd_cmd_run_def e1 prod.case Let_def ob_def
      using respond_inv [OF d] respond_inv [OF i1] by (cases b1) (simp_all only: bool.case split: if_split, simp_all)
  qed
qed

lemma message_keeps: "dkeeps daemon_inv (nilfs_cleanerd_handle_message k e req)"
proof -
  have s: "daemon_inv d \<Longrightarrow> daemon_inv (nilfs_cleanerd_manual_suspend d)" "daemon_inv d \<Longrightarrow> daemon_inv (nilfs_cleanerd_manual_resume d)"
    "daemon_inv d \<Longrightarrow> daemon_inv (nilfs_cleanerd_manual_stop d)" "daemon_inv d \<Longrightarrow> daemon_inv (d\<lparr>c_shutdown := True\<rparr>)"
    for d :: "'a nilfs_cleanerd"
    by (simp_all add: daemon_inv_def transition_defs)
  have reload: "dkeeps daemon_inv (nilfs_cleanerd_cmd_reload k e req n)" for n
    unfolding dkeeps_def nilfs_cleanerd_cmd_reload_def Let_def
    by (auto intro!: respond_inv split: prod.splits sum.splits dest: dkeepsD [OF reconfig_keeps(2)])
  show ?thesis
    using run_keeps [of e req] reload
    unfolding dkeeps_def nilfs_cleanerd_handle_message_def Let_def nilfs_cleanerd_cmd_getstat_def nilfs_cleanerd_cmd_suspend_def
      nilfs_cleanerd_cmd_resume_def nilfs_cleanerd_cmd_tune_def nilfs_cleanerd_cmd_wait_def nilfs_cleanerd_cmd_stop_def
      nilfs_cleanerd_cmd_shutdown_def nilfs_cleanerd_nak_def
    by (auto intro!: respond_inv s)
qed

lemma wait_keeps: "dkeeps daemon_inv (nilfs_cleanerd_wait k e)"
  unfolding dkeeps_def
proof (intro allI impI)
  fix d :: "'a nilfs_cleanerd" assume d: "daemon_inv d"
  obtain q1 d1 where e1: "inEnv (d_ppoll e (c_timeout d)) d = (q1, d1)" by (rule prod.exhaust)
  obtain q2 d2 where e2: "inEnv (d_mq_receive e) d1 = (q2, d2)" by (rule prod.exhaust)
  note i1 = dkeepsD [OF dinv.lifted_keeps(3) d e1]
  note i2 = dkeepsD [OF dinv.lifted_keeps(3) i1 e2]
  obtain q3 d3 where e3: "nilfs_cleanerd_handle_message k e (projr q2) d2 = (q3, d3)" by (rule prod.exhaust)
  note i3 = dkeepsD [OF message_keeps i2 e3]
  show "daemon_inv (snd (nilfs_cleanerd_wait k e d))"
    using i1 i2 i3 e1 e2 e3 by (auto simp: nilfs_cleanerd_wait_def split: sum.splits bool.splits)
qed

lemma check_state_keeps: "dkeeps daemon_inv (nilfs_cleanerd_check_state k sustat)"
proof -
  have c: "dkeeps daemon_inv (nilfs_cleanerd_handle_clean_check sustat :: ('a, bool) dact)"
    by (auto simp: dkeeps_def nilfs_cleanerd_handle_clean_check_def Let_def daemon_inv_def transition_defs dest: wf_speed split: option.splits)
  have n: "dkeeps daemon_inv (nilfs_cleanerd_count_inuse_segments k sustat)"
    unfolding nilfs_cleanerd_count_inuse_segments_def by (rule dinv.lifted_keeps)
  have m: "dkeeps daemon_inv (nilfs_cleanerd_handle_manual_mode k sustat)"
    unfolding dkeeps_def
  proof (intro allI impI)
    fix d :: "'a nilfs_cleanerd" assume d: "daemon_inv d"
    obtain q d1 where g: "nilfs_cleanerd_count_inuse_segments k sustat d = (q, d1)" by (rule prod.exhaust)
    have d1: "daemon_inv d1" by (rule dkeepsD [OF n d g])
    have "mm_nrestpasses d1 = mm_nrestpasses d"
      using g by (auto simp: nilfs_cleanerd_count_inuse_segments_def inLib_def split: prod.splits)
    then show "daemon_inv (snd (nilfs_cleanerd_handle_manual_mode k sustat d))"
      using d d1 g by (cases q) (auto simp: nilfs_cleanerd_handle_manual_mode_def Let_def daemon_inv_def transition_defs)
  qed
  have i: "dkeeps daemon_inv (idle_check sustat :: ('a, bool) dact)"
    by (auto simp: dkeeps_def idle_check_def daemon_inv_def)
  have b: "dkeeps daemon_inv (bindE (nilfs_cleanerd_handle_clean_check sustat :: ('a, bool) dact) (\<lambda>sleep. if sleep then retE True else idle_check sustat))"
    by (rule dkeeps_bind [OF c]) (use i dkeeps_ret(1) [of daemon_inv] in auto)
  have f: "dkeeps daemon_inv (\<lambda>d :: 'a nilfs_cleanerd. if running d < 2 \<and> nilfs_cleanerd_automatic_suspend d
      then bindE (nilfs_cleanerd_handle_clean_check sustat) (\<lambda>sleep. if sleep then retE True else idle_check sustat) d else idle_check sustat d)"
    using b i by (auto simp: dkeeps_def)
  have "dkeeps daemon_inv (if x then nilfs_cleanerd_handle_manual_mode k sustat else retE ())" for x using m dkeeps_ret(1) [of daemon_inv] by auto
  from dkeeps_bind [OF this f] show ?thesis
    unfolding dkeeps_def nilfs_cleanerd_check_state_def by auto
qed

lemma inv_more: "daemon_inv (d\<lparr>c_lib := s\<rparr>) = daemon_inv d" "daemon_inv (d\<lparr>fallback := b\<rparr>) = daemon_inv d"
  "daemon_inv (d\<lparr>retry_cleaning := b\<rparr>) = daemon_inv d" "daemon_inv (d\<lparr>no_timeout := b\<rparr>) = daemon_inv d"
  "daemon_inv (d\<lparr>c_target := t\<rparr>) = daemon_inv d" "daemon_inv (d\<lparr>c_timeout := t\<rparr>) = daemon_inv d"
  by (simp_all add: daemon_inv_def)

lemma progress_keeps: "daemon_inv d \<Longrightarrow> daemon_inv (nilfs_cleanerd_progress n d)"
  by (simp add: nilfs_cleanerd_progress_def inv_set)

lemma reduce_keeps: "daemon_inv d \<Longrightarrow> daemon_inv (nilfs_cleanerd_reduce_ncleansegs_for_retry d)"
  using inv_speed [of d] by (auto simp: nilfs_cleanerd_reduce_ncleansegs_for_retry_def intro!: inv_set)

lemma note_keeps: "daemon_inv d \<Longrightarrow> daemon_inv (note_cleaned stat d)" "daemon_inv d \<Longrightarrow> daemon_inv (note_deferred stat d)"
  by (simp_all add: note_cleaned_def note_deferred_def inv_more progress_keeps)

lemma retry_keeps: "daemon_inv d \<Longrightarrow> daemon_inv (retry_protected k segnums nsegs protseq d)"
  by (simp add: retry_protected_def inv_more split: prod.split bool.split)

lemma clean_segments_keeps: "dkeeps daemon_inv (nilfs_cleanerd_clean_segments k j segnums nsegs protseq)"
proof -
  have "dkeeps daemon_inv (\<lambda>d. nilfs_cleanerd_clean_segments k j segnums nsegs protseq d)"
    unfolding nilfs_cleanerd_clean_segments_def dkeeps_def
  proof (intro allI impI, rule dkeeps_snd [where P = daemon_inv], rule dkeeps_bind [OF dinv.lifted_keeps(2)])
    fix d :: "'a nilfs_cleanerd" and protcno
    show "dkeeps daemon_inv (\<lambda>d. let params = \<lparr>rp_flags = NILFS_RECLAIM_PARAM_PROTSEQ OR NILFS_RECLAIM_PARAM_PROTCNO OR NILFS_RECLAIM_PARAM_MIN_RECLAIMABLE_BLKS,
                     rp_min_reclaimable_blks = nilfs_cleanerd_min_reclaimable_blocks d, rp_protseq = protseq, rp_protcno = protcno\<rparr>
       in case nilfs_xreclaim_segment k (pj_gc j) segnums nsegs False params (Some zero_stat) (c_lib d) of
            ((Inl e, segnums, stat), s) \<Rightarrow>
              let d = d\<lparr>c_lib := s\<rparr> in
              if e = ENOMEM then (Inr 0, (nilfs_cleanerd_reduce_ncleansegs_for_retry d)\<lparr>fallback := True\<rparr>) else (Inl e, d)
          | ((Inr _, segnums, stat), s) \<Rightarrow>
              let stat = the stat; d = note_deferred stat (note_cleaned stat (d\<lparr>c_lib := s\<rparr>));
                  ndone = unat (cleaned_segs stat + deferred_segs stat)
              in (Inr ndone, if ndone = 0 then retry_protected k segnums nsegs protseq d else d))"
      unfolding dkeeps_def Let_def
      by (auto simp: inv_more intro!: reduce_keeps retry_keeps note_keeps split: prod.split sum.split)
  qed assumption
  then show ?thesis by simp
qed

lemma recalc_keeps: "dkeeps daemon_inv (nilfs_cleanerd_recalc_interval e nchosen ndone prottime oldest)"
proof -
  have real: "dkeeps daemon_inv (bindE (inEnv (d_clock e CLOCK_REALTIME)) (\<lambda>curr d.
      let tgt = (if sint oldest < sint (tv_sec curr) then oldest else tv_sec curr) in
      (Inr (), at_least_check_interval \<lparr>tv_sec = (if sint tgt > sint prottime then tgt - prottime + 1 else 1), tv_nsec = 0\<rparr> d)))"
    by (intro dkeeps_bind dinv.lifted_keeps) (simp add: dkeeps_def Let_def at_least_check_interval_def inv_more)
  have mono: "dkeeps daemon_inv (bindE (inEnv (d_clock e CLOCK_MONOTONIC)) (\<lambda>curr d.
      if fallback d
      then let target = timespecadd curr (cf_retry_interval (c_config d)) in
           (Inr (), d\<lparr>c_target := target, c_timeout := timespecsub target curr\<rparr>)
      else let interval = nilfs_cleanerd_cleaning_interval d in
        if \<not> timespec_less curr (c_target d) \<or> no_timeout d
        then (Inr (), d\<lparr>c_timeout := \<lparr>tv_sec = 0, tv_nsec = 0\<rparr>, c_target := timespecadd curr interval\<rparr>)
        else (Inr (), d\<lparr>c_timeout := timespecsub (c_target d) curr, c_target := timespecadd (c_target d) interval\<rparr>)))"
    by (intro dkeeps_bind dinv.lifted_keeps) (simp add: dkeeps_def Let_def inv_more)
  show ?thesis
    unfolding dkeeps_def nilfs_cleanerd_recalc_interval_def
    using dkeeps_snd [OF real] dkeeps_snd [OF mono]
    by (simp add: Let_def at_least_check_interval_def nilfs_cleanerd_manual_end_def inv_more inv_set)
qed

lemma clean_once_keeps: "dkeeps daemon_inv (clean_once k e j sustat)"
proof -
  have "dkeeps daemon_inv (\<lambda>d :: 'a nilfs_cleanerd. (Inr 0, d\<lparr>retry_cleaning := False\<rparr>))" by (simp add: dkeeps_def inv_more)
  then show ?thesis
    unfolding clean_once_def
    by (intro dkeeps_bind dinv.select_keeps; auto intro!: dkeeps_bind dinv.logger_keeps recalc_keeps clean_segments_keeps)
qed

lemma round_keeps: "dkeeps daemon_inv (loop_round k e j)"
proof -
  have inner: "dkeeps daemon_inv (bindE (inLib (nilfs_get_sustat k)) (\<lambda>sustat.
     bindE (nilfs_cleanerd_check_state k sustat) (\<lambda>sleep.
     bindE (if sleep then retE () else clean_once k e j sustat) (\<lambda>_.
     bindE (inEnv (d_sigprocmask e)) (\<lambda>_. nilfs_cleanerd_wait k e)))))"
    by (auto intro!: dkeeps_bind dinv.lifted_keeps check_state_keeps clean_once_keeps wait_keeps dkeeps_ret)
  have "dkeeps daemon_inv (\<lambda>d. bindE (inLib (nilfs_get_sustat k)) (\<lambda>sustat.
     bindE (nilfs_cleanerd_check_state k sustat) (\<lambda>sleep.
     bindE (if sleep then retE () else clean_once k e j sustat) (\<lambda>_.
     bindE (inEnv (d_sigprocmask e)) (\<lambda>_. nilfs_cleanerd_wait k e)))) (nilfs_cleanerd_handle_signals k e d))"
    using dkeeps_snd [OF inner] signals_keep unfolding dkeeps_def by blast
  from dkeeps_bind [OF dinv.lifted_keeps(3) [of "d_sigprocmask e"] this] show ?thesis
    unfolding loop_round_def dkeeps_def using inv_more(4) by blast
qed

lemma loop_init_inv:
  assumes "config_wf (c_config d)" "mm_ncleansegs d = 0" "mm_nrestpasses d = 0" "mm_nrestsegs d = 0" "loop_init e d = (Inr (), d')"
  shows "daemon_inv d'"
proof -
  obtain q1 d1 where e1: "inEnv (d_sigprocmask e) d = (q1, d1)" by (rule prod.exhaust)
  let ?d = "d1\<lparr>running := 1, fallback := False, retry_cleaning := False\<rparr>"
  obtain q2 d2 where e2: "inEnv (d_clock e CLOCK_MONOTONIC) ?d = (q2, d2)" by (rule prod.exhaust)
  let ?c = "c_config d2"
  let ?d3 = "d2\<lparr>c_target := timespecadd (projr q2) (cf_cleaning_interval ?c), ncleansegs := sint (cf_nsegments_per_clean ?c),
    cleaning_interval := cf_cleaning_interval ?c, min_reclaimable_blocks := cf_min_reclaimable_blocks ?c\<rparr>"
  have f1: "c_config d1 = c_config d" "mm_ncleansegs d1 = 0" "mm_nrestpasses d1 = 0" "mm_nrestsegs d1 = 0"
    using e1 assms by (auto simp: inEnv_def inLib_def split: prod.splits)
  have f2: "c_config d2 = c_config d" "mm_ncleansegs d2 = 0" "mm_nrestpasses d2 = 0" "mm_nrestsegs d2 = 0" "running d2 = 1"
    using e2 f1 by (auto simp: inEnv_def inLib_def split: prod.splits)
  have "daemon_inv ?d3" using f2 assms(1) wf_speed [OF assms(1)] by (simp add: daemon_inv_def)
  then have "daemon_inv (nilfs_cleanerd_clean_check_pause ?d3)" by (simp add: nilfs_cleanerd_clean_check_pause_def inv_more inv_set)
  with \<open>daemon_inv ?d3\<close> show ?thesis
    using assms(5) e1 e2 by (cases q1; cases q2) (auto simp: loop_init_def nilfs_cleanerd_init_interval_def bindE_def Let_def split: if_splits)
qed

text \<open>C37. In every state the daemon reaches between two rounds of its loop, after any signals, client requests
  and errors of the kernel: the mode is one of the four, both numbers of segments per round are between
  0 and 32, a manual job has no negative number of passes or segments left, and the configuration is
  well formed.\<close>

theorem daemon_invariant: "daemon_reach k e j d \<Longrightarrow> daemon_inv d"
proof (induction rule: daemon_reach.induct)
  case (start d d')
  then show ?case by (intro loop_init_inv)
next
  case (round d d')
  then show ?case using dkeepsD [OF round_keeps] by blast
qed

section \<open>A suspended daemon collects nothing\<close>

lemma with_effects_daemon [simp]:
  "nilfs_get_sustat (with_effects k c u) = nilfs_get_sustat k"
  "nilfs_opt_set (with_effects k c u) = nilfs_opt_set k"
  "nilfs_cldconfig_read (with_effects k c u) = nilfs_cldconfig_read k"
  unfolding nilfs_get_sustat_def [abs_def] nilfs_opt_set_def [abs_def] nilfs_opt_set_mmap_check_def [abs_def]
    nilfs_cldconfig_read_def [abs_def] with_effects_calls
  by (simp_all add: with_effects_def)

lemma with_effects_wait [simp]:
  "nilfs_cleanerd_handle_signals (with_effects k c u) = nilfs_cleanerd_handle_signals k"
  "nilfs_cleanerd_wait (with_effects k c u) = nilfs_cleanerd_wait k"
proof -
  have "nilfs_cleanerd_config (with_effects k c u) = nilfs_cleanerd_config k"
    unfolding nilfs_cleanerd_config_def [abs_def] with_effects_daemon ..
  then have r: "nilfs_cleanerd_reconfig (with_effects k c u) = nilfs_cleanerd_reconfig k"
    unfolding nilfs_cleanerd_reconfig_def [abs_def] by (simp only:)
  then show "nilfs_cleanerd_handle_signals (with_effects k c u) = nilfs_cleanerd_handle_signals k"
    unfolding nilfs_cleanerd_handle_signals_def [abs_def] by (simp only:)
  have "nilfs_cleanerd_handle_message (with_effects k c u) = nilfs_cleanerd_handle_message k"
    unfolding nilfs_cleanerd_handle_message_def [abs_def] nilfs_cleanerd_cmd_reload_def [abs_def] r ..
  then show "nilfs_cleanerd_wait (with_effects k c u) = nilfs_cleanerd_wait k"
    unfolding nilfs_cleanerd_wait_def [abs_def] by (simp only:)
qed

lemma lifted_running: "inLib m d = (q, d') \<Longrightarrow> running d' = running d" "inEnv m' d = (q', d') \<Longrightarrow> running d' = running d"
  by (auto simp: inEnv_def inLib_def split: prod.splits)

lemma signals_running: "running (nilfs_cleanerd_handle_signals k e d) = running d"
proof -
  have "running (snd (nilfs_cleanerd_config k e None d)) = running d" for d
    by (auto simp: nilfs_cleanerd_config_def Let_def split: prod.splits sum.splits)
  then have "running (snd (nilfs_cleanerd_reconfig k e None d)) = running d" for d
    unfolding nilfs_cleanerd_reconfig_def bindE_def by (auto split: prod.splits sum.splits) (metis snd_conv)+
  then show ?thesis by (simp add: nilfs_cleanerd_handle_signals_def Let_def split: prod.split)
qed

lemma suspended_round:
  assumes "running d = - 1"
  shows "loop_round k e j d = bindE (inEnv (d_sigprocmask e)) (\<lambda>_ d.
     bindE (inLib (nilfs_get_sustat k)) (\<lambda>_. bindE (inEnv (d_sigprocmask e)) (\<lambda>_. nilfs_cleanerd_wait k e))
       (nilfs_cleanerd_handle_signals k e d)) (d\<lparr>no_timeout := False\<rparr>)"
proof -
  have run: "bindE (inLib (nilfs_get_sustat k)) (\<lambda>sustat. bindE (nilfs_cleanerd_check_state k sustat) (\<lambda>sleep.
      bindE (if sleep then retE () else clean_once k e j sustat) (\<lambda>_.
      bindE (inEnv (d_sigprocmask e)) (\<lambda>_. nilfs_cleanerd_wait k e)))) d'
    = bindE (inLib (nilfs_get_sustat k)) (\<lambda>_. bindE (inEnv (d_sigprocmask e)) (\<lambda>_. nilfs_cleanerd_wait k e)) d'"
    if "running d' = - 1" for d'
    using that lifted_running(1) [of "nilfs_get_sustat k" d']
    by (auto simp: bindE_def [of "inLib (nilfs_get_sustat k)"] bindE_def [of "nilfs_cleanerd_check_state k x" for x]
        nilfs_cleanerd_check_state_def split: prod.split sum.split)
  obtain q d1 where 1: "inEnv (d_sigprocmask e) (d\<lparr>no_timeout := False\<rparr>) = (q, d1)" by (rule prod.exhaust)
  have "running (nilfs_cleanerd_handle_signals k e d1) = - 1" using lifted_running(2) [OF 1] assms by (simp add: signals_running)
  from run [OF this] show ?thesis
    unfolding loop_round_def bindE_def [of "inEnv (d_sigprocmask e)" _ "d\<lparr>no_timeout := False\<rparr>"] 1 prod.case by (simp only:)
qed

text \<open>C38. While the daemon is suspended, a round of its loop never asks the kernel to clean segments or to
  change their usage information: the round is the same whatever these two calls would do.\<close>

theorem suspended_no_gc:
  assumes "running d = - 1"
  shows "loop_round (with_effects k c u) e j d = loop_round k e j d"
  by (simp add: suspended_round [OF assms])

section \<open>The watermarks\<close>

text \<open>The daemon as a controller with two thresholds: off above the high one, on below the low one.\<close>

definition hysteresis :: "u64 \<Rightarrow> u64 \<Rightarrow> bool \<Rightarrow> u64 \<Rightarrow> bool" where
  "hysteresis low high on clean = (if on then \<not> clean > high else clean < low)"

text \<open>A sequence of checks, each followed by what a round does without changing the mode.\<close>

fun checks :: "'w kernel \<Rightarrow> nilfs_sustat list \<Rightarrow> ('w, bool list) dact" where
  "checks k [] d = (Inr [], d)"
| "checks k (st # sts) d = bindE (nilfs_cleanerd_check_state k st) (\<lambda>sleep. bindE (checks k sts) (\<lambda>rs. retE ((\<not> sleep) # rs))) d"

fun states :: "('s \<Rightarrow> 'x \<Rightarrow> 's) \<Rightarrow> 's \<Rightarrow> 'x list \<Rightarrow> 's list" where
  "states f s [] = []"
| "states f s (x # xs) = f s x # states f (f s x) xs"

lemma check_step:
  assumes "running d \<in> {0, 1}" "cf_min_clean_segments (c_config d) > 0"
    "nilfs_get_reserved_segments (l_nilfs (c_lib d)) (ss_nsegs st) = Some r"
    "on' = hysteresis (cf_min_clean_segments (c_config d) + r) (cf_max_clean_segments (c_config d) + r) (running d = 1) (ss_ncleansegs st)"
  shows "\<exists>d'. nilfs_cleanerd_check_state k st d = (Inr (\<not> on'), d') \<and> (running d' = (if on' then 1 else 0))
    \<and> c_config d' = c_config d \<and> c_lib d' = c_lib d"
  using assms
  by (auto simp: nilfs_cleanerd_check_state_def nilfs_cleanerd_automatic_suspend_def nilfs_cleanerd_handle_clean_check_def
      hysteresis_def bindE_def Let_def nilfs_cleanerd_clean_check_pause_def nilfs_cleanerd_clean_check_resume_def idle_check_def)

text \<open>C39. With automatic suspension, the checks of the number of clean segments are a controller with two
  thresholds: it starts cleaning when there are fewer than \<open>min_clean_segments\<close> clean segments beyond the
  reserved ones and goes on until there are more than \<open>max_clean_segments\<close> of them.\<close>

theorem watermark_refinement:
  assumes "running d \<in> {0, 1}" "cf_min_clean_segments (c_config d) > 0"
    "\<forall>st\<in>set sts. nilfs_get_reserved_segments (l_nilfs (c_lib d)) (ss_nsegs st) = Some r"
  shows "fst (checks k sts d) = Inr (states (hysteresis (cf_min_clean_segments (c_config d) + r) (cf_max_clean_segments (c_config d) + r))
    (running d = 1) (map ss_ncleansegs sts))"
  using assms
proof (induction sts arbitrary: d)
  case (Cons st sts)
  define on' where "on' = hysteresis (cf_min_clean_segments (c_config d) + r) (cf_max_clean_segments (c_config d) + r) (running d = 1) (ss_ncleansegs st)"
  have "nilfs_get_reserved_segments (l_nilfs (c_lib d)) (ss_nsegs st) = Some r" using Cons.prems by simp
  from check_step [OF Cons.prems(1,2) this on'_def] obtain d' where d': "nilfs_cleanerd_check_state k st d = (Inr (\<not> on'), d')"
      "running d' = (if on' then 1 else 0)" "c_config d' = c_config d" "c_lib d' = c_lib d" by blast
  have "fst (checks k sts d') = Inr (states (hysteresis (cf_min_clean_segments (c_config d) + r) (cf_max_clean_segments (c_config d) + r))
      on' (map ss_ncleansegs sts))"
    using Cons.IH [of d'] Cons.prems d' by (auto split: if_splits)
  then show ?case
    by (auto simp: bindE_def d'(1) on'_def [symmetric] split: prod.splits)
qed simp

section \<open>A manual job comes to an end\<close>

definition job_state :: "'w nilfs_cleanerd \<Rightarrow> int \<times> int \<times> int" where
  "job_state d = (running d, mm_nrestpasses d, mm_nrestsegs d)"

interpretation dpol: daemon_property "\<lambda>d. c_policy d = x" for x
  by unfold_locales simp_all

interpretation djob: daemon_property "\<lambda>d. job_state d = x" for x
  by unfold_locales (simp_all add: job_state_def)

text \<open>Progress of the job: the passes stay, and the segments left never grow.\<close>

definition job_le :: "bool \<Rightarrow> 'w nilfs_cleanerd \<Rightarrow> 'w nilfs_cleanerd \<Rightarrow> bool" where
  "job_le strict d d' \<longleftrightarrow> running d' = running d \<and> mm_nrestpasses d' = mm_nrestpasses d \<and> 0 \<le> mm_nrestsegs d' \<and> mm_nrestsegs d' \<le> mm_nrestsegs d
     \<and> (strict \<longrightarrow> running d = 2 \<longrightarrow> 0 < mm_nrestsegs d \<longrightarrow> mm_nrestsegs d' < mm_nrestsegs d)"

lemma job_le_trans: "job_le a d d' \<Longrightarrow> job_le b d' d'' \<Longrightarrow> job_le (a \<or> b) d d''"
  by (auto simp: job_le_def)

lemma sint_int: "unat n < 2 ^ 31 \<Longrightarrow> sint (ucast (n :: u64) :: i32) = int (unat n)"
proof -
  assume "unat n < 2 ^ 31"
  then have "int (unat n) < 2 ^ 31" by (metis of_nat_less_iff of_nat_numeral of_nat_power)
  then have u: "uint n < 2 ^ 31" by (simp only: uint_nat [symmetric])
  have "uint (ucast n :: i32) = take_bit 32 (uint n)" by (simp add: unsigned_ucast_eq)
  also have "\<dots> = uint n" using u by (simp add: take_bit_int_eq_self)
  finally have v: "uint (ucast n :: i32) = uint n" .
  have "signed_take_bit 31 (uint n) = uint n"
    using u by (intro signed_take_bit_int_eq_self) (rule order_trans [of _ 0], simp_all)
  moreover have "sint (ucast n :: i32) = signed_take_bit 31 (uint (ucast n :: i32))" by (simp add: sint_uint)
  ultimately show ?thesis using v by simp
qed

lemma progress_job: "0 \<le> mm_nrestsegs d \<Longrightarrow> unat n < 2 ^ 31 \<Longrightarrow> job_le (0 < n) d (nilfs_cleanerd_progress n d)"
proof -
  assume "0 \<le> mm_nrestsegs d" "unat n < 2 ^ 31"
  moreover have "0 < n \<Longrightarrow> 0 < uint n" by (simp add: word_less_def)
  moreover have "0 \<le> uint n" by simp
  ultimately show ?thesis by (auto simp: job_le_def nilfs_cleanerd_progress_def sint_int max_def)
qed

lemma note_job:
  assumes "0 \<le> mm_nrestsegs d" "unat (cleaned_segs stat) < 2 ^ 31" "unat (deferred_segs stat) < 2 ^ 31"
  shows "job_le (0 < unat (cleaned_segs stat + deferred_segs stat)) d (note_deferred stat (note_cleaned stat d))"
proof -
  have 1: "job_le (0 < cleaned_segs stat) d (note_cleaned stat d)"
    using progress_job [OF assms(1,2)] assms by (simp add: note_cleaned_def job_le_def)
  then have "0 \<le> mm_nrestsegs (note_cleaned stat d)" by (simp add: job_le_def)
  from progress_job [OF this assms(3)] this
  have 2: "job_le (0 < deferred_segs stat) (note_cleaned stat d) (note_deferred stat (note_cleaned stat d))"
    by (simp add: note_deferred_def job_le_def)
  have "0 < unat (cleaned_segs stat + deferred_segs stat) \<Longrightarrow> 0 < cleaned_segs stat \<or> 0 < deferred_segs stat"
    by (auto simp: word_neq_0_conv [symmetric])
  then show ?thesis using job_le_trans [OF 1 2] by (auto simp: job_le_def)
qed

lemma clean_segments_job:
  assumes "0 \<le> mm_nrestsegs d" "nilfs_cleanerd_clean_segments k j segnums nsegs protseq d = (Inr ndone, d')" "nsegs \<le> 32"
  shows "job_le (0 < ndone) d d'"
proof -
  obtain q d1 where e1: "inMap (nilfs_cnormap_track_back k (pj_span j) (tv_sec (nilfs_cleanerd_protection_period d))) d = (q, d1)" by (rule prod.exhaust)
  have j1: "job_state d1 = job_state d" by (rule dkeepsD [OF djob.lifted_keeps(2) refl e1])
  obtain protcno where q: "q = Inr protcno" using assms(2) e1 by (cases q) (auto simp: nilfs_cleanerd_clean_segments_def bindE_def)
  let ?params = "\<lparr>rp_flags = NILFS_RECLAIM_PARAM_PROTSEQ OR NILFS_RECLAIM_PARAM_PROTCNO OR NILFS_RECLAIM_PARAM_MIN_RECLAIMABLE_BLKS,
     rp_min_reclaimable_blks = nilfs_cleanerd_min_reclaimable_blocks d1, rp_protseq = protseq, rp_protcno = protcno\<rparr>"
  obtain r segs stat s where x: "nilfs_xreclaim_segment k (pj_gc j) segnums nsegs False ?params (Some zero_stat) (c_lib d1) = ((r, segs, stat), s)"
    by (metis prod.exhaust)
  let ?dn = "note_deferred (the stat) (note_cleaned (the stat) (d1\<lparr>c_lib := s\<rparr>))"
  have red: "job_state (nilfs_cleanerd_reduce_ncleansegs_for_retry d) = job_state d" for d :: "'a nilfs_cleanerd"
    by (simp add: job_state_def nilfs_cleanerd_reduce_ncleansegs_for_retry_def)
  have retry: "job_state (retry_protected k segs nsegs protseq d) = job_state d" for d
    by (simp add: job_state_def retry_protected_def split: prod.split bool.split)
  show ?thesis
  proof (cases r)
    case (Inl er)
    then have "ndone = 0 \<and> job_state d' = job_state d"
      using assms(2) j1 red [of "d1\<lparr>c_lib := s\<rparr>"]
      by (auto simp: nilfs_cleanerd_clean_segments_def bindE_def e1 q x Let_def job_state_def split: if_splits)
    then show ?thesis using assms(1) by (simp add: job_state_def job_le_def)
  next
    case (Inr u)
    have "counts_le nsegs stat" using xreclaim_counts [OF x] assms(3) by simp
    then have cnt: "unat (cleaned_segs (the stat)) < 2 ^ 31" "unat (deferred_segs (the stat)) < 2 ^ 31"
      using assms(3) by (auto simp: counts_le_def)
    have "ndone = unat (cleaned_segs (the stat) + deferred_segs (the stat)) \<and> job_state d' = job_state ?dn"
      using assms(2) retry by (auto simp: nilfs_cleanerd_clean_segments_def bindE_def e1 q x Let_def Inr)
    then show ?thesis
      using note_job [of "d1\<lparr>c_lib := s\<rparr>" "the stat"] cnt assms(1) j1 by (auto simp: job_state_def job_le_def)
  qed
qed

lemma recalc_job:
  assumes "nilfs_cleanerd_recalc_interval e nchosen ndone prottime oldest d = (Inr (), d')"
  shows "running d' = 0 \<or> job_state d' = job_state d \<and> fallback d' = fallback d \<and> retry_cleaning d' = retry_cleaning d
    \<and> (running d = 2 \<longrightarrow> fallback d \<or> retry_cleaning d \<or> 0 < ndone)"
  using assms
  by (auto simp: nilfs_cleanerd_recalc_interval_def Let_def bindE_def inEnv_def inLib_def nilfs_cleanerd_manual_end_def
      at_least_check_interval_def job_state_def split: if_splits prod.splits sum.splits)

text \<open>The built-in policies either have no selection of their own or choose at most 32 segments.\<close>

lemma select_length:
  assumes "nilfs_cleanerd_select_segments k e j sustat d = (Inr (segs, pt, old), d')" "pol_select (c_policy d) \<in> {None, Some strict_cluster_select}"
  shows "length segs \<le> 32"
proof -
  obtain q d1 where g: "inEnv (d_clock e CLOCK_REALTIME) d = (q, d1)" by (rule prod.exhaust)
  have p1: "c_policy d1 = c_policy d" using g by (auto simp: inEnv_def inLib_def split: prod.splits)
  let ?scan = "suinfo_scan k (ss_nsegs sustat) (\<lambda>segnum si oldest. retE (if nilfs_suinfo_reclaimable si then track_oldest si oldest else oldest))
    (unat (ss_nsegs sustat) + 1) 0 NILFS_CLEANERD_NULLTIME"
  obtain q2 d2 where h: "?scan d1 = (q2, d2)" by (rule prod.exhaust)
  have p2: "c_policy d2 = c_policy d1" by (rule dkeepsD [OF dpol.scan_keeps refl h]) (rule dkeeps_ret)
  obtain ts where q: "q = Inr ts" using assms(1) g by (cases q) (auto simp: nilfs_cleanerd_select_segments_def)
  obtain oldest where q2: "q2 = Inr oldest" using assms(1) g q h by (cases q2) (auto simp: nilfs_cleanerd_select_segments_def Let_def)
  note eq = select_eq [OF g [unfolded q] h [unfolded q2] refl refl]
  from assms(2) p1 p2 consider "pol_select (c_policy d2) = None" | "pol_select (c_policy d2) = Some strict_cluster_select" by auto
  then show ?thesis
  proof cases
    case 1
    show ?thesis using assms(1) unfolding eq 1 option.case by (auto elim!: bindE_InrE)
  next
    case 2
    show ?thesis
      using assms(1) unfolding eq 2 option.case
      by (auto elim!: bindE_InrE simp: inMap_def split: prod.splits dest: strict_cluster_length)
  qed
qed

lemma clean_once_job:
  assumes "0 \<le> mm_nrestsegs d" "clean_once k e j sustat d = (Inr (), d')" "pol_select (c_policy d) \<in> {None, Some strict_cluster_select}"
  shows "running d' = 0 \<or> job_le (\<not> fallback d' \<and> \<not> retry_cleaning d') d d'"
proof -
  obtain q1 d1 where e1: "nilfs_cleanerd_select_segments k e j sustat d = (q1, d1)" by (rule prod.exhaust)
  obtain segs pt old where q1: "q1 = Inr (segs, pt, old)" using assms(2) e1 by (cases q1) (auto simp: clean_once_def bindE_def)
  obtain q2 d2 where e2: "nilfs_workload_logger k e j d1 = (q2, d2)" by (rule prod.exhaust)
  have q2: "q2 = Inr ()" using assms(2) e2 by (cases q2) (auto simp: clean_once_def bindE_def e1 q1)
  have j2: "job_state d2 = job_state d"
    using dkeepsD [OF djob.select_keeps refl e1] dkeepsD [OF djob.logger_keeps refl e2] by simp
  let ?c = "if length segs > 0 then nilfs_cleanerd_clean_segments k j segs (length segs) (ss_prot_seq sustat)
            else (\<lambda>d. (Inr 0, d\<lparr>retry_cleaning := False\<rparr>))"
  obtain q3 d3 where e3: "?c d2 = (q3, d3)" by (rule prod.exhaust)
  obtain ndone where q3: "q3 = Inr ndone" using assms(2) e3 by (cases q3) (auto simp: clean_once_def bindE_def e1 q1 e2 q2)
  have r: "nilfs_cleanerd_recalc_interval e (length segs) ndone pt old d3 = (Inr (), d')"
    using assms(2) e3 by (simp add: clean_once_def bindE_def e1 q1 e2 q2 q3)
  have "job_le (0 < ndone) d2 d3"
  proof (cases "length segs > 0")
    case True
    then show ?thesis using clean_segments_job [of d2] select_length [OF e1 [unfolded q1] assms(3)] e3 q3 assms(1) j2 by (auto simp: job_state_def)
  next
    case False
    then show ?thesis using e3 q3 assms(1) j2 by (auto simp: job_state_def job_le_def)
  qed
  then show ?thesis using recalc_job [OF r] j2 by (auto simp: job_state_def job_le_def)
qed

lemma check_state_job:
  assumes "daemon_inv d" "running d = 2" "nilfs_cleanerd_check_state k sustat d = (Inr False, d1)" "running d1 = 2"
  shows "mm_nrestpasses d1 < mm_nrestpasses d \<or> 0 < mm_nrestsegs d \<and> job_state d1 = job_state d"
proof -
  obtain q d2 where e1: "nilfs_cleanerd_handle_manual_mode k sustat d = (q, d2)" by (rule prod.exhaust)
  have q: "q = Inr ()" using assms e1 by (cases q) (auto simp: nilfs_cleanerd_check_state_def bindE_def)
  let ?auto = "\<lambda>d :: 'a nilfs_cleanerd. running d \<noteq> 2"
  have idle: "dkeeps ?auto (idle_check sustat)"
    by (simp add: dkeeps_def idle_check_def)
  have "dkeeps ?auto (nilfs_cleanerd_handle_clean_check sustat)"
    by (auto simp: dkeeps_def nilfs_cleanerd_handle_clean_check_def Let_def transition_defs split: option.splits)
  then have chk: "dkeeps ?auto (bindE (nilfs_cleanerd_handle_clean_check sustat) (\<lambda>sleep. if sleep then retE True else idle_check sustat))"
    by (rule dkeeps_bind) (use idle dkeeps_ret(1) [of ?auto] in auto)
  have "running d2 = 2 \<and> d1 = d2"
  proof (cases "running d2 = 2")
    case True
    then show ?thesis using assms e1 q by (simp add: nilfs_cleanerd_check_state_def bindE_def idle_check_def)
  next
    case False
    then have "running d1 \<noteq> 2"
      using assms(2,3) e1 q dkeepsD [OF chk False] dkeepsD [OF idle False]
      by (auto simp: nilfs_cleanerd_check_state_def bindE_def [of "nilfs_cleanerd_handle_manual_mode k sustat"] split: if_splits)
    then show ?thesis using assms(4) by simp
  qed
  then show ?thesis
    using e1 q assms(1,2)
    by (auto simp: nilfs_cleanerd_handle_manual_mode_def Let_def nilfs_cleanerd_count_inuse_segments_def inLib_def
        nilfs_cleanerd_manual_end_def job_state_def daemon_inv_def split: if_splits prod.splits sum.splits)
qed

text \<open>C40. A round of a manual job ends the job, completes a pass, reduces the number of segments left in the
  current pass, or asks for a retry because memory or unprotected segments are short. So a job that is not
  retried ends.\<close>

theorem manual_job_progress:
  assumes "daemon_inv d" "running d = 2" "nilfs_cleanerd_check_state k sustat d = (Inr False, d1)" "clean_once k e j sustat d1 = (Inr (), d2)"
    and "pol_select (c_policy d1) \<in> {None, Some strict_cluster_select}"
  shows "running d2 \<noteq> 2 \<or> fallback d2 \<or> retry_cleaning d2 \<or> mm_nrestpasses d2 < mm_nrestpasses d
    \<or> mm_nrestpasses d2 = mm_nrestpasses d \<and> mm_nrestsegs d2 < mm_nrestsegs d"
proof (cases "running d1 = 2")
  case True
  have "0 \<le> mm_nrestsegs d1" using dkeepsD [OF check_state_keeps assms(1,3)] by (simp add: daemon_inv_def)
  then show ?thesis
    using clean_once_job [OF _ assms(4,5)] check_state_job [OF assms(1-3) True] True assms(2) by (auto simp: job_state_def job_le_def)
next
  case False
  have "0 \<le> mm_nrestsegs d1" using dkeepsD [OF check_state_keeps assms(1,3)] by (simp add: daemon_inv_def)
  then show ?thesis using clean_once_job [OF _ assms(4,5)] False by (auto simp: job_le_def)
qed

definition demo_denv :: "unit daemon_env" where
  "demo_denv = \<lparr>d_clock = (\<lambda>c. retE \<lparr>tv_sec = 1000, tv_nsec = 0\<rparr>), d_ppoll = (\<lambda>t. retE False), d_mq_receive = failE EAGAIN,
     d_mq_open = (\<lambda>u. failE EIO), d_mq_close = (\<lambda>q w. w), d_mq_send = (\<lambda>q r. failE EIO), d_sigprocmask = retE (),
     d_signals = (\<lambda>w. ((False, False), w)), d_conf_text = (\<lambda>p w. (None, w)), d_fopen = (\<lambda>p w. (False, w)), d_statvfs = failE EIO\<rparr>"

definition demo_time :: "u64 \<Rightarrow> timespec" where "demo_time n = \<lparr>tv_sec = n, tv_nsec = 0\<rparr>"

text \<open>A daemon that runs a manual job with one more pass and two segments left in this one.\<close>

definition demo_daemon :: "unit nilfs_cleanerd" where
  "demo_daemon = \<lparr>c_lib = demo_lib (), c_cnormap = demo_cnormap, c_config = demo_conf, conffile = ''/etc/nilfs_cleanerd.conf'',
     opt_period = - 1, c_policy = nilfs_policy_hot_cold, c_policy_data = Some \<lparr>hc_blocks_per_segment = 16, hot_threshold = HC_HOT_THRESHOLD_SEC\<rparr>,
     running = 2, fallback = False, retry_cleaning = False, no_timeout = False, c_shutdown = False, ncleansegs = 2,
     cleaning_interval = demo_time 5, c_target = demo_time 1005, c_timeout = demo_time 5, min_reclaimable_blocks = 0, prev_nongc_ctime = 0,
     c_sendq = None, client_uuid = [], c_jobid = 1, mm_prev_state = 0, mm_nrestpasses = 1, mm_nrestsegs = 2, mm_ncleansegs = 2,
     mm_protection_period = demo_time 0, mm_cleaning_interval = demo_time 1, mm_min_reclaimable_blocks = 0\<rparr>"

definition demo_fresh :: "unit nilfs_cleanerd" where
  "demo_fresh = demo_daemon\<lparr>mm_nrestpasses := 0, mm_nrestsegs := 0, mm_ncleansegs := 0\<rparr>"

lemma demo_denv_calls [simp]:
  "d_clock demo_denv c w = (Inr (demo_time 1000), w)" "d_ppoll demo_denv t w = (Inr False, w)" "d_sigprocmask demo_denv w = (Inr (), w)"
  "d_signals demo_denv w = ((False, False), w)" "d_fopen demo_denv p w = (False, w)"
  by (simp_all add: demo_denv_def demo_time_def)

theorem daemon_invariant_witness:
  "\<exists>d. daemon_reach demo_gc_kernel demo_denv demo_pol_junk d \<and> daemon_inv d"
proof -
  obtain d where "loop_init demo_denv demo_fresh = (Inr (), d)"
    by (simp add: loop_init_def bindE_def inEnv_def inLib_def liftK_def nilfs_cleanerd_init_interval_def Let_def)
  then have "daemon_reach demo_gc_kernel demo_denv demo_pol_junk d"
    by (rule daemon_reach.start [rotated]) (simp_all add: default_wf [OF demo_default] demo_fresh_def demo_daemon_def)
  with daemon_invariant show ?thesis by blast
qed

theorem suspended_no_gc_witness:
  "loop_round (with_effects demo_gc_kernel (\<lambda>fd a vs ps ns bs ss. failE EAbort) (\<lambda>fd a us. failE EAbort)) demo_denv demo_pol_junk (demo_daemon\<lparr>running := - 1\<rparr>)
   = loop_round demo_gc_kernel demo_denv demo_pol_junk (demo_daemon\<lparr>running := - 1\<rparr>)"
  by (rule suspended_no_gc) simp

theorem watermark_refinement_witness:
  "fst (checks demo_gc_kernel (map (\<lambda>n. demo_sustat\<lparr>ss_ncleansegs := n\<rparr>) [40, 20, 15, 20, 31, 40, 20])
     (demo_daemon\<lparr>running := 1, c_config := demo_conf\<lparr>cf_min_clean_segments := 10, cf_max_clean_segments := 30\<rparr>\<rparr>))
   = Inr [False, False, True, True, True, False, False]"
proof -
  let ?d = "demo_daemon\<lparr>running := 1, c_config := demo_conf\<lparr>cf_min_clean_segments := 10, cf_max_clean_segments := 30\<rparr>\<rparr>"
  let ?sts = "map (\<lambda>n. demo_sustat\<lparr>ss_ncleansegs := n\<rparr>) [40, 20, 15, 20, 31, 40, 20]"
  have "\<forall>st\<in>set ?sts. nilfs_get_reserved_segments (l_nilfs (c_lib ?d)) (ss_nsegs st) = Some 8"
    by (simp add: nilfs_get_reserved_segments_def nilfs_get_reserved_segments_ratio_def demo_daemon_def demo_lib_def demo_sustat_def
       NILFS_MIN_NRSVSEGS_def s_r_segments_percentage_def le32_at_def rd_def demo_layout_def le_nat_zeros)
  from watermark_refinement [OF _ _ this, of demo_gc_kernel] show ?thesis
    by (simp add: demo_daemon_def hysteresis_def)
qed

lemma demo_lifts:
  "inEnv (d_clock demo_denv c) d = (Inr (demo_time 1000), d)"
  by (simp add: inEnv_def inLib_def liftK_def)

lemma demo_scan:
  assumes "c_lib d = demo_lib ()"
  shows "\<exists>b. suinfo_scan demo_gc_kernel 4 (\<lambda>segnum si oldest. retE (if nilfs_suinfo_reclaimable si then track_oldest si oldest else oldest)) 5 0 b0 d = (Inr b, d)"
proof -
  have five: "(5 :: nat) = Suc (Suc (Suc (Suc (Suc 0))))" by simp
  have su: "inLib (nilfs_get_suinfo demo_gc_kernel x n) d = (Inr [demo_si x], d)" if "n \<noteq> 0" for x n
    using that assms by (simp add: inLib_def nilfs_get_suinfo_def with_iocfd_def liftK_def demo_gc_calls argv_def demo_lib_def)
  show ?thesis
    unfolding five by (simp add: suinfo_scan.simps su NILFS_CLEANERD_NSUINFO_def enumerate_eq_zip)
qed

lemma demo_job:
  "\<exists>d2. clean_once demo_gc_kernel demo_denv demo_pol_junk demo_sustat demo_daemon = (Inr (), d2) \<and> running d2 = 2 \<and> \<not> fallback d2
     \<and> \<not> retry_cleaning d2 \<and> mm_nrestpasses d2 = 1"
proof -
  let ?k = demo_gc_kernel and ?d = demo_daemon
  have lib: "c_lib ?d = demo_lib ()" "c_cnormap ?d = demo_cnormap" by (simp_all add: demo_daemon_def)
  obtain old where scan: "suinfo_scan ?k 4 (\<lambda>segnum si oldest. retE (if nilfs_suinfo_reclaimable si then track_oldest si oldest else oldest)) 5 0
      NILFS_CLEANERD_NULLTIME ?d = (Inr old, ?d)" using demo_scan [OF lib(1)] by blast
  have sel: "nilfs_cleanerd_select_segments ?k demo_denv demo_pol_junk demo_sustat ?d = (Inr ([3], 1000, old), ?d)"
    using demo_select scan
    by (simp add: nilfs_cleanerd_select_segments_def demo_lifts Let_def demo_sustat_def [THEN arg_cong, of ss_nsegs])
       (simp add: demo_daemon_def nilfs_policy_hot_cold_def bindE_def inMap_def nilfs_cleanerd_protection_period_def timespecsub_def demo_time_def)
  have log: "nilfs_workload_logger ?k demo_denv demo_pol_junk ?d = (Inr (), ?d)"
    by (simp add: nilfs_workload_logger_def)
  let ?params = "\<lparr>rp_flags = NILFS_RECLAIM_PARAM_PROTSEQ OR NILFS_RECLAIM_PARAM_PROTCNO OR NILFS_RECLAIM_PARAM_MIN_RECLAIMABLE_BLKS,
     rp_min_reclaimable_blks = 0, rp_protseq = ss_prot_seq demo_sustat, rp_protcno = NILFS_CNO_MAX\<rparr>"
  have "rp_flags ?params \<in> {3, 7}"
    by (simp add: NILFS_RECLAIM_PARAM_PROTSEQ_def NILFS_RECLAIM_PARAM_PROTCNO_def NILFS_RECLAIM_PARAM_MIN_RECLAIMABLE_BLKS_def)
  then obtain t where t: "cleaned_segs t = 1" "deferred_segs t = 0"
    "nilfs_xreclaim_segment ?k demo_junk [3] (Suc 0) False ?params (Some zero_stat) (demo_lib ()) = ((Inr (), [3], Some t), demo_lib ())"
    using demo_gc_run [of ?params False] by auto
  let ?d1 = "?d\<lparr>mm_nrestsegs := 1\<rparr>"
  have cl: "nilfs_cleanerd_clean_segments ?k demo_pol_junk [3] (Suc 0) (ss_prot_seq demo_sustat) ?d = (Inr 1, ?d1)"
    using t
    by (simp add: nilfs_cleanerd_clean_segments_def bindE_def inMap_def nilfs_cnormap_track_back_def demo_daemon_def
        nilfs_cleanerd_protection_period_def nilfs_cleanerd_min_reclaimable_blocks_def demo_time_def demo_pol_junk_def Let_def
        note_cleaned_def note_deferred_def nilfs_cleanerd_progress_def)
  have f: "running ?d1 = 2" "\<not> fallback ?d1" "\<not> retry_cleaning ?d1" "mm_nrestpasses ?d1 = 1"
    by (simp_all add: demo_daemon_def)
  then have "\<exists>d2. nilfs_cleanerd_recalc_interval demo_denv (Suc 0) 1 1000 old ?d1 = (Inr (), d2) \<and> running d2 = 2 \<and> \<not> fallback d2
    \<and> \<not> retry_cleaning d2 \<and> mm_nrestpasses d2 = 1"
    by (simp add: nilfs_cleanerd_recalc_interval_def bindE_def demo_lifts Let_def)
  then show ?thesis by (simp add: clean_once_def bindE_def sel log cl)
qed

theorem manual_job_progress_witness:
  "\<exists>d2. clean_once demo_gc_kernel demo_denv demo_pol_junk demo_sustat demo_daemon = (Inr (), d2) \<and> mm_nrestsegs d2 < mm_nrestsegs demo_daemon"
proof -
  have i: "daemon_inv demo_daemon" "running demo_daemon = 2" "mm_nrestpasses demo_daemon = 1"
    using default_wf [OF demo_default] by (simp_all add: daemon_inv_def demo_daemon_def)
  have "nilfs_cleanerd_check_state demo_gc_kernel demo_sustat demo_daemon = (Inr False, demo_daemon)"
    by (simp add: nilfs_cleanerd_check_state_def bindE_def nilfs_cleanerd_handle_manual_mode_def demo_daemon_def idle_check_def)
  moreover have "pol_select (c_policy demo_daemon) \<in> {None, Some strict_cluster_select}"
    by (simp add: demo_daemon_def nilfs_policy_hot_cold_def)
  ultimately show ?thesis using manual_job_progress [OF i(1,2)] demo_job i(3) by fastforce
qed

end
