(* ===== verification/Mount_Check.thy ===== *)
theory Mount_Check
  imports Nilfs_Env C_Stdlib
begin

text \<open>
  The test whether a device is mounted (\<open>src/lib/ismounted.c\<close>). The mount table that
  \<open>setmntent\<close> and \<open>getmntent\<close> read and the files of sysfs are the calls of the record
  \<open>mnt_env\<close>. The lemmas say when the test answers that the device is mounted: exactly
  when an entry of the table names the device, is the same block device or the same file,
  or is a loop device backed by it.
\<close>

record 'w mnt_env =
  mt_entries :: "('w, string list) act"
  mt_openat :: "int option \<Rightarrow> string \<Rightarrow> ('w, int) act"
  mt_read :: "int \<Rightarrow> u64 \<Rightarrow> ('w, string) act"

definition SYSFS_LOOP_DIR_PATH_BUFSZ :: nat where "SYSFS_LOOP_DIR_PATH_BUFSZ = 64"
definition PATH_MAX :: u64 where "PATH_MAX = 4096"

text \<open>\<open>major(dev)\<close> and \<open>minor(dev)\<close> of the C library.\<close>

definition dev_major :: "u64 \<Rightarrow> u32" where
  "dev_major dev = ucast ((drop_bit 8 dev AND 0xfff) OR (drop_bit 32 dev AND NOT 0xfff))"
definition dev_minor :: "u64 \<Rightarrow> u32" where
  "dev_minor dev = ucast ((dev AND 0xff) OR (drop_bit 12 dev AND NOT 0xff))"

definition loop_dir_path :: "u64 \<Rightarrow> string" where
  "loop_dir_path dev = ''/sys/dev/block/'' @ show_dec (unat (dev_major dev)) @ '':'' @ show_dec (unat (dev_minor dev))"

text \<open>The string left in the buffer; the empty one when there is no backing file.\<close>

definition loop_get_backing_file :: "'w kernel \<Rightarrow> 'w mnt_env \<Rightarrow> u64 \<Rightarrow> u64 \<Rightarrow> ('w, string) act" where
  "loop_get_backing_file k mt dev bufsz w =
     (if \<not> bufsz > 1 then (Inl EAbort, w)
      else let dir_path = loop_dir_path dev in
           if length dir_path \<ge> SYSFS_LOOP_DIR_PATH_BUFSZ then (Inl (EOther 36), w)
           else case mt_openat mt None dir_path w of
             (Inl e, w) \<Rightarrow> (Inl e, w)
           | (Inr dir_fd, w) \<Rightarrow>
               (case mt_openat mt (Some dir_fd) ''loop/backing_file'' w of
                  (Inl e, w) \<Rightarrow> (if e = ENOENT then Inr [] else Inl e, k_close k dir_fd w)
                | (Inr fd, w) \<Rightarrow>
                    (case mt_read mt fd (bufsz - 1) w of (r, w) \<Rightarrow>
                       (map_sum id (takeWhile (\<lambda>c. c \<noteq> CHR 0x00 \<and> c \<noteq> CHR 0x0A)) r,
                        k_close k dir_fd (k_close k fd w)))))"

text \<open>The identity of the argument: a block device's number, or a file's device and inode.\<close>

record mount_id =
  file_rdev :: u64
  file_dev :: u64
  file_ino :: u64

definition mount_id_of :: "errno + kstat \<Rightarrow> mount_id" where
  "mount_id_of r =
     (case r of
        Inl _ \<Rightarrow> \<lparr>file_rdev = 0, file_dev = 0, file_ino = 0\<rparr>
      | Inr st \<Rightarrow> if st_kind st = Block then \<lparr>file_rdev = st_rdev st, file_dev = 0, file_ino = 0\<rparr>
                  else \<lparr>file_rdev = 0, file_dev = st_dev st, file_ino = Nilfs_Env.st_ino st\<rparr>)"

text \<open>One round of the loop: whether it ends at the entry.\<close>

definition mount_entry :: "'w kernel \<Rightarrow> 'w mnt_env \<Rightarrow> u64 \<Rightarrow> string \<Rightarrow> mount_id \<Rightarrow> string \<Rightarrow> ('w, bool) act" where
  "mount_entry k mt bufsz device mid fsname w =
     (if fsname = [] \<or> hd fsname \<noteq> CHR ''/'' then (Inr False, w)
      else if device = fsname then (Inr True, w)
      else case k_stat k fsname w of
        (Inl _, w) \<Rightarrow> (Inr False, w)
      | (Inr st, w) \<Rightarrow>
          if st_kind st = Block
          then if file_rdev mid \<noteq> 0 \<and> file_rdev mid = st_rdev st then (Inr True, w)
               else bindE (loop_get_backing_file k mt (st_rdev st) bufsz) (\<lambda>path.
                      retE (path \<noteq> [] \<and> take (unat bufsz) path = take (unat bufsz) device)) w
          else (Inr (file_dev mid \<noteq> 0 \<and> file_dev mid = st_dev st \<and> file_ino mid = Nilfs_Env.st_ino st), w))"

fun mount_scan :: "'w kernel \<Rightarrow> 'w mnt_env \<Rightarrow> u64 \<Rightarrow> string \<Rightarrow> mount_id \<Rightarrow> string list \<Rightarrow> ('w, bool) act" where
  "mount_scan k mt bufsz device mid [] = retE False"
| "mount_scan k mt bufsz device mid (m # ms) =
     bindE (mount_entry k mt bufsz device mid m)
       (\<lambda>found. if found then retE True else mount_scan k mt bufsz device mid ms)"

definition mount_buf_size :: "int \<Rightarrow> u64" where
  "mount_buf_size pagesize =
     (if pagesize > 0 \<and> word_of_int pagesize < PATH_MAX + 1 then word_of_int pagesize else PATH_MAX + 1)"

definition check_mount :: "'w kernel \<Rightarrow> 'w mnt_env \<Rightarrow> string \<Rightarrow> ('w, bool) act" where
  "check_mount k mt device w =
     (let bufsz = mount_buf_size (k_pagesize k) in
      case k_malloc k bufsz w of
        (None, w) \<Rightarrow> (Inl ENOMEM, w)
      | (Some _, w) \<Rightarrow>
          bindE (mt_entries mt) (\<lambda>ms w.
            case k_stat k device w of (r, w) \<Rightarrow>
              mount_scan k mt bufsz device (mount_id_of r) ms w) w)"

section \<open>When a device counts as mounted\<close>

text \<open>
  A system whose tables do not change while they are read: the answers of \<open>stat\<close>, the
  directories of sysfs, the files \<open>loop/backing_file\<close> in them (only those of loop devices
  exist) and their contents as functions.
\<close>

definition mnt_laws :: "'w kernel \<Rightarrow> 'w mnt_env \<Rightarrow> (string \<Rightarrow> errno + kstat) \<Rightarrow> (string \<Rightarrow> int) \<Rightarrow> (int \<Rightarrow> int option)
    \<Rightarrow> (int \<Rightarrow> string) \<Rightarrow> string list \<Rightarrow> bool" where
  "mnt_laws k mt st dirs loops conts tab \<longleftrightarrow>
     (\<forall>w n. fst (k_malloc k n w) \<noteq> None)
     \<and> (\<forall>w s. fst (k_stat k s w) = st s)
     \<and> (\<forall>w. fst (mt_entries mt w) = Inr tab)
     \<and> (\<forall>w p. fst (mt_openat mt None p w) = Inr (dirs p))
     \<and> (\<forall>w d. fst (mt_openat mt (Some d) ''loop/backing_file'' w) = (case loops d of None \<Rightarrow> Inl ENOENT | Some fd \<Rightarrow> Inr fd))
     \<and> (\<forall>w fd n. fst (mt_read mt fd n w) = Inr (take (unat n) (conts fd)))"

text \<open>The first line of the backing file's name, as far as it fits the buffer.\<close>

definition backing :: "(string \<Rightarrow> int) \<Rightarrow> (int \<Rightarrow> int option) \<Rightarrow> (int \<Rightarrow> string) \<Rightarrow> nat \<Rightarrow> u64 \<Rightarrow> string" where
  "backing dirs loops conts n dev =
     (case loops (dirs (loop_dir_path dev)) of
        None \<Rightarrow> []
      | Some fd \<Rightarrow> takeWhile (\<lambda>c. c \<noteq> CHR 0x00 \<and> c \<noteq> CHR 0x0A) (take (n - 1) (conts fd)))"

lemma show_dec_length: "n < 10 ^ d \<Longrightarrow> 0 < d \<Longrightarrow> length (show_dec n) \<le> d"
proof (induction d arbitrary: n)
  case (Suc d)
  show ?case
  proof (cases "n < 10")
    case False
    then have "n div 10 < 10 ^ d" "0 < d" using Suc.prems by (auto simp: div_less_iff_less_mult intro: Nat.gr0I)
    then show ?thesis using Suc.IH [of "n div 10"] False by (simp add: show_dec.simps [of n])
  qed (simp add: show_dec.simps [of n])
qed simp

lemma loop_dir_path_fits: "length (loop_dir_path dev) < SYSFS_LOOP_DIR_PATH_BUFSZ"
proof -
  have "length (show_dec (unat (x :: u32))) \<le> 10" for x
    using unat_lt_u32 [of x] by (intro show_dec_length) auto
  from this [of "dev_major dev"] this [of "dev_minor dev"] show ?thesis
    by (simp add: loop_dir_path_def SYSFS_LOOP_DIR_PATH_BUFSZ_def)
qed

lemma mount_buf_size_pos: "1 < k_pagesize k \<Longrightarrow> k_pagesize k < 2 ^ 63 \<Longrightarrow> mount_buf_size (k_pagesize k) > 1"
  by (simp add: mount_buf_size_def PATH_MAX_def word_less_def uint_word_of_int)

lemma backing_file_is:
  assumes "mnt_laws k mt st dirs loops conts tab" "n > 1"
  shows "fst (loop_get_backing_file k mt dev n w) = Inr (backing dirs loops conts (unat n) dev)"
proof -
  have n1: "unat (n - 1) = unat n - 1" using assms(2) by (intro unat_minus_one) auto
  obtain w1 where d: "mt_openat mt None (loop_dir_path dev) w = (Inr (dirs (loop_dir_path dev)), w1)"
    using assms(1) unfolding mnt_laws_def by (metis prod.collapse)
  let ?d = "dirs (loop_dir_path dev)"
  obtain w2 where o: "mt_openat mt (Some ?d) ''loop/backing_file'' w1 = (case loops ?d of None \<Rightarrow> Inl ENOENT | Some fd \<Rightarrow> Inr fd, w2)"
    using assms(1) unfolding mnt_laws_def by (metis prod.collapse)
  show ?thesis
  proof (cases "loops ?d")
    case None
    then show ?thesis using assms(2) loop_dir_path_fits [of dev] d o by (simp add: loop_get_backing_file_def Let_def backing_def)
  next
    case (Some fd)
    obtain w3 where "mt_read mt fd (n - 1) w2 = (Inr (take (unat n - 1) (conts fd)), w3)"
      using assms(1) n1 unfolding mnt_laws_def by (metis prod.collapse)
    then show ?thesis using Some assms(2) loop_dir_path_fits [of dev] d o
      by (simp add: loop_get_backing_file_def Let_def backing_def)
  qed
qed

text \<open>The specification: what it means for an entry to be the device.\<close>

definition entry_is :: "(string \<Rightarrow> errno + kstat) \<Rightarrow> (u64 \<Rightarrow> string) \<Rightarrow> nat \<Rightarrow> string \<Rightarrow> string \<Rightarrow> bool" where
  "entry_is st bk n device fsname \<longleftrightarrow>
     fsname \<noteq> [] \<and> hd fsname = CHR ''/'' \<and>
     (device = fsname
      \<or> (\<exists>a b. st device = Inr a \<and> st fsname = Inr b \<and> st_kind a = Block \<and> st_kind b = Block
           \<and> st_rdev a = st_rdev b \<and> st_rdev a \<noteq> 0)
      \<or> (\<exists>a b. st device = Inr a \<and> st fsname = Inr b \<and> st_kind a \<noteq> Block \<and> st_kind b \<noteq> Block
           \<and> st_dev a = st_dev b \<and> Nilfs_Env.st_ino a = Nilfs_Env.st_ino b \<and> st_dev a \<noteq> 0)
      \<or> (\<exists>b. st fsname = Inr b \<and> st_kind b = Block \<and> bk (st_rdev b) \<noteq> []
           \<and> take n (bk (st_rdev b)) = take n device))"

lemma mount_entry_is:
  assumes "mnt_laws k mt st dirs loops conts tab" "n > 1"
  shows "fst (mount_entry k mt n device (mount_id_of (st device)) m w)
    = Inr (entry_is st (backing dirs loops conts (unat n)) (unat n) device m)"
proof -
  let ?n = n and ?bk = "backing dirs loops conts (unat n)"
  obtain w1 where s: "k_stat k m w = (st m, w1)" using assms unfolding mnt_laws_def by (metis prod.collapse)
  have back_ok: "\<exists>w2. loop_get_backing_file k mt d ?n w1 = (Inr (?bk d), w2)" for d
    using backing_file_is [OF assms, of d w1] by (metis prod.collapse)
  show ?thesis
  proof (cases "st m")
    case (Inl e)
    then show ?thesis using s by (auto simp: mount_entry_def entry_is_def)
  next
    case (Inr b)
    obtain w2 where "loop_get_backing_file k mt (st_rdev b) ?n w1 = (Inr (?bk (st_rdev b)), w2)"
      using back_ok by blast
    then show ?thesis using s Inr
      by (cases "st device") (auto simp: mount_entry_def entry_is_def mount_id_of_def)
  qed
qed

lemma mount_scan_is:
  assumes "mnt_laws k mt st dirs loops conts tab" "n > 1"
  shows "fst (mount_scan k mt n device (mount_id_of (st device)) ms w)
    = Inr (\<exists>m \<in> set ms. entry_is st (backing dirs loops conts (unat n)) (unat n) device m)"
proof (induction ms arbitrary: w)
  case (Cons m ms)
  obtain w1 where "mount_entry k mt n device (mount_id_of (st device)) m w
    = (Inr (entry_is st (backing dirs loops conts (unat n)) (unat n) device m), w1)"
    using mount_entry_is [OF assms, of device m w] by (metis prod.collapse)
  then show ?case using Cons [of w1] by simp
qed simp

section \<open>Properties\<close>


text \<open>A system with the file system image \<open>/img\<close> mounted through the loop device
  \<open>/dev/loop0\<close> beside a plain partition.\<close>

definition demo_stat :: "string \<Rightarrow> errno + kstat" where
  "demo_stat s =
     (if s = ''/dev/sda1'' then Inr \<lparr>st_kind = Block, st_size = 0, st_dev = 5, st_ino = 20, st_rdev = 2049\<rparr>
      else if s = ''/dev/loop0'' then Inr \<lparr>st_kind = Block, st_size = 0, st_dev = 5, st_ino = 21, st_rdev = 1792\<rparr>
      else if s = ''/img'' then Inr \<lparr>st_kind = Regular, st_size = 4096, st_dev = 2049, st_ino = 12, st_rdev = 0\<rparr>
      else Inl ENOENT)"

definition demo_mnt_kernel :: "unit kernel" where
  "demo_mnt_kernel = null_kernel\<lparr>k_stat := (\<lambda>s w. (demo_stat s, w))\<rparr>"

definition demo_mnt :: "unit mnt_env" where
  "demo_mnt =
     \<lparr>mt_entries = (\<lambda>w. (Inr [''proc'', ''/dev/sda1'', ''/dev/loop0''], w)),
      mt_openat = (\<lambda>d s w. case d of
          None \<Rightarrow> (if s = ''/sys/dev/block/7:0'' then Inr 7 else Inr 8, w)
        | Some d \<Rightarrow> (if d = 7 then Inr 9 else Inl ENOENT, w)),
      mt_read = (\<lambda>fd n w. (Inr (take (unat n) (''/img'' @ [CHR 0x0A])), w))\<rparr>"

definition demo_dirs :: "string \<Rightarrow> int" where
  "demo_dirs p = (if p = ''/sys/dev/block/7:0'' then 7 else 8)"

lemma demo_mnt_laws:
  "mnt_laws demo_mnt_kernel demo_mnt demo_stat demo_dirs (\<lambda>d. if d = 7 then Some 9 else None) (\<lambda>fd. ''/img'' @ [CHR 0x0A])
     [''proc'', ''/dev/sda1'', ''/dev/loop0'']"
  by (simp add: mnt_laws_def demo_mnt_kernel_def null_kernel_def demo_mnt_def demo_dirs_def)

lemma demo_loop_path: "loop_dir_path 1792 = ''/sys/dev/block/7:0''"
  by (simp add: loop_dir_path_def dev_major_def dev_minor_def show_dec.simps char_of_def bit_nat_def)


end
