(* ===== verification/Mkfs_Layout.thy ===== *)
theory Mkfs_Layout
  imports Superblock Feature
begin

text \<open>
  The first half of \<open>src/sbin/mkfs.c\<close>: the command line and the plan of the initial disk
  layout. The members of the C structures keep their names with a prefix and their width
  (\<open>unsigned long\<close> is 64 bits wide). \<open>getopt\<close> is the list of the options it returns
  with their arguments. The layout routines are fallible actions; \<open>perr\<close>, which prints a
  message and ends the program, is \<open>EExit\<close>, and so is every other call of \<open>exit\<close>.

  The lemmas show that the plan is sound: the files of the initial log lie one behind the
  other between its summary and its super root, the log ends inside the first segment, the
  summary's planned size fits its blocks, and the last segment ends before the secondary
  superblock.
\<close>

section \<open>Constants\<close>

definition NILFS_DISKHDR_SIZE :: u64 where "NILFS_DISKHDR_SIZE = 4096"
definition NILFS_DISK_ERASE_SIZE :: u64 where "NILFS_DISK_ERASE_SIZE = 1048576"
definition NILFS_DEF_BLOCKSIZE :: u64 where "NILFS_DEF_BLOCKSIZE = push_bit 12 1"
definition NILFS_DEF_BLKS_PER_SEG :: u64 where "NILFS_DEF_BLKS_PER_SEG = 2048"
definition NILFS_DEF_RESERVED_SEGMENTS :: u64 where "NILFS_DEF_RESERVED_SEGMENTS = 5"
definition NILFS_MAX_BMAP_ROOT_PTRS :: u32 where "NILFS_MAX_BMAP_ROOT_PTRS = 7 - 1"
definition NILFS_MIN_BLOCKSIZE :: u64 where "NILFS_MIN_BLOCKSIZE = 1024"
definition NILFS_MIN_NUSERSEGS :: u64 where "NILFS_MIN_NUSERSEGS = 8"
definition NILFS_MIN_NRSVSEGS_mkfs :: u64 where "NILFS_MIN_NRSVSEGS_mkfs = 8"
definition NILFS_SEG_MIN_BLOCKS_mkfs :: u64 where "NILFS_SEG_MIN_BLOCKS_mkfs = 16"
definition NILFS_ROOT_INO :: u64 where "NILFS_ROOT_INO = 2"
definition NILFS_CPFILE_INO :: u64 where "NILFS_CPFILE_INO = 4"
definition NILFS_SUFILE_INO :: u64 where "NILFS_SUFILE_INO = 5"
definition NILFS_IFILE_INO :: u64 where "NILFS_IFILE_INO = 6"
definition NILFS_ATIME_INO :: u64 where "NILFS_ATIME_INO = 7"
definition NILFS_USER_INO :: u64 where "NILFS_USER_INO = 11"
definition NILFS_MAX_INITIAL_INO :: u64 where "NILFS_MAX_INITIAL_INO = NILFS_USER_INO"
definition MAX_FILES :: nat where "MAX_FILES = 16"

definition group_desc_blocks_per_group :: u32 where "group_desc_blocks_per_group = 1"
definition bitmap_blocks_per_group :: u32 where "bitmap_blocks_per_group = 1"
definition nr_initial_segments :: u32 where "nr_initial_segments = 2"
definition nr_initial_inodes :: u32 where "nr_initial_inodes = 1"
definition first_cno :: u64 where "first_cno = 1"

definition sizeof_inode :: u32 where "sizeof_inode = 128"
definition sizeof_dat_entry :: u32 where "sizeof_dat_entry = 32"
definition sizeof_checkpoint :: u32 where "sizeof_checkpoint = 192"
definition sizeof_cpfile_header :: u32 where "sizeof_cpfile_header = 32"
definition sizeof_segment_usage :: u32 where "sizeof_segment_usage = 16"
definition sizeof_sufile_header :: u32 where "sizeof_sufile_header = 24"
definition sizeof_group_desc :: u32 where "sizeof_group_desc = 4"
definition sizeof_binfo_v :: u32 where "sizeof_binfo_v = 16"

definition NILFS_CPFILE_FIRST_CHECKPOINT_OFFSET :: u64 where
  "NILFS_CPFILE_FIRST_CHECKPOINT_OFFSET =
     ucast ((sizeof_cpfile_header + sizeof_checkpoint - 1) div sizeof_checkpoint)"
definition NILFS_SUFILE_FIRST_SEGMENT_USAGE_OFFSET :: u64 where
  "NILFS_SUFILE_FIRST_SEGMENT_USAGE_OFFSET =
     ucast ((sizeof_sufile_header + sizeof_segment_usage - 1) div sizeof_segment_usage)"

definition DIV_ROUND_UP :: "u64 \<Rightarrow> u64 \<Rightarrow> u64" where
  "DIV_ROUND_UP n m = (n + m - 1) div m"

lemmas mkfs_consts = NILFS_DISKHDR_SIZE_def NILFS_DISK_ERASE_SIZE_def NILFS_MAX_BMAP_ROOT_PTRS_def
  NILFS_MIN_NUSERSEGS_def NILFS_MIN_NRSVSEGS_mkfs_def NILFS_ROOT_INO_def NILFS_CPFILE_INO_def NILFS_SUFILE_INO_def
  NILFS_IFILE_INO_def NILFS_ATIME_INO_def NILFS_USER_INO_def NILFS_MAX_INITIAL_INO_def MAX_FILES_def
  group_desc_blocks_per_group_def bitmap_blocks_per_group_def nr_initial_segments_def nr_initial_inodes_def
  first_cno_def sizeof_inode_def sizeof_dat_entry_def sizeof_checkpoint_def sizeof_cpfile_header_def
  sizeof_segment_usage_def sizeof_sufile_header_def sizeof_group_desc_def sizeof_binfo_v_def
  NILFS_CPFILE_FIRST_CHECKPOINT_OFFSET_def NILFS_SUFILE_FIRST_SEGMENT_USAGE_OFFSET_def

section \<open>The environment of the program\<close>

text \<open>
  What mkfs calls beside the functions of \<open>kernel\<close>: the clock, libuuid, the terminal, the
  discard requests, \<open>fsync\<close> and \<open>lseek\<close>, the badblocks program and libblkid.
\<close>

datatype scan_result = ForkFailed | WaitFailed | NotExited | Exited nat

record 'w mkfs_env =
  me_time :: "'w \<Rightarrow> i64 \<times> 'w"
  me_uuid :: "'w \<Rightarrow> bytes \<times> 'w"
  me_getchar :: "'w \<Rightarrow> char option \<times> 'w"
  me_discard :: "int \<Rightarrow> u64 \<Rightarrow> u64 \<Rightarrow> 'w \<Rightarrow> bool \<times> 'w"
  me_discard_zeroes :: "int \<Rightarrow> 'w \<Rightarrow> bool \<times> 'w"
  me_fsync :: "int \<Rightarrow> ('w, unit) act"
  me_lseek :: "int \<Rightarrow> u64 \<Rightarrow> ('w, unit) act"
  me_badblocks :: "string list \<Rightarrow> 'w \<Rightarrow> scan_result \<times> 'w"
  me_new_probe :: "string \<Rightarrow> ('w, nat) act"
  me_probe_size :: "nat \<Rightarrow> 'w \<Rightarrow> int \<times> 'w"
  me_probe_partitions :: "nat \<Rightarrow> 'w \<Rightarrow> int \<times> 'w"
  me_fullprobe :: "nat \<Rightarrow> 'w \<Rightarrow> int \<times> 'w"
  me_probe_lookup :: "nat \<Rightarrow> string \<Rightarrow> 'w \<Rightarrow> bool \<times> 'w"
  me_free_probe :: "nat \<Rightarrow> 'w \<Rightarrow> 'w"

section \<open>Options\<close>

record mkfs_opts =
  o_quiet :: bool
  o_cflag :: nat
  o_nflag :: bool
  o_verbose :: nat
  o_discard :: bool
  o_force_overwrite :: bool
  o_blocksize :: u64
  o_blocks_per_segment :: u64
  o_r_segments_percentage :: u64
  o_creation_time :: i64
  o_volume_label :: bytes
  o_compat_array :: "u64 list"

definition default_opts :: mkfs_opts where
  "default_opts =
     \<lparr>o_quiet = False, o_cflag = 0, o_nflag = False, o_verbose = 0, o_discard = True, o_force_overwrite = False,
      o_blocksize = NILFS_DEF_BLOCKSIZE, o_blocks_per_segment = NILFS_DEF_BLKS_PER_SEG,
      o_r_segments_percentage = NILFS_DEF_RESERVED_SEGMENTS, o_creation_time = 0,
      o_volume_label = replicate 80 0, o_compat_array = [0, NILFS_FEATURE_COMPAT_RO_BLOCK_COUNT, 0]\<rparr>"

text \<open>\<open>atol\<close>: the leading decimal number, clamped to the range of \<open>long\<close>.\<close>

definition atol :: "string \<Rightarrow> i64" where
  "atol arg =
     (let s = dropWhile isspace arg;
          neg = (s \<noteq> [] \<and> hd s = CHR ''-'');
          s = (if s \<noteq> [] \<and> (hd s = CHR ''-'' \<or> hd s = CHR ''+'') then tl s else s);
          n = digits_val 10 (takeWhile (is_digit_of 10) s)
      in if neg then (if n \<ge> 2 ^ 63 then - (2 ^ 63) else - of_nat n)
         else if n \<ge> 2 ^ 63 then 2 ^ 63 - 1 else of_nat n)"

definition check_blocksize :: "int \<Rightarrow> i64 \<Rightarrow> ('s, unit) act" where
  "check_blocksize pagesize blocksize =
     (if sint blocksize > pagesize \<or> sint blocksize < sint NILFS_MIN_BLOCKSIZE
         \<or> (blocksize - 1) AND blocksize \<noteq> 0
      then failE EExit else retE ())"

definition check_blocks_per_segment :: "i64 \<Rightarrow> ('s, unit) act" where
  "check_blocks_per_segment blocks_per_segment =
     (if sint blocks_per_segment < sint NILFS_SEG_MIN_BLOCKS_mkfs then failE EExit
      else if (blocks_per_segment - 1) AND blocks_per_segment \<noteq> 0 then failE EExit
      else retE ())"

definition check_reserved_segments_percentage :: "i64 \<Rightarrow> ('s, unit) act" where
  "check_reserved_segments_percentage r_segments_percentage =
     (if sint r_segments_percentage < 1 then failE EExit
      else if sint r_segments_percentage > 99 then failE EExit
      else retE ())"

text \<open>\<open>check_ctime\<close> only warns about a time in the future; the clock is read.\<close>

definition check_ctime :: "'w mkfs_env \<Rightarrow> i64 \<Rightarrow> ('w, unit) act" where
  "check_ctime e ctime w = (case me_time e w of (_, w) \<Rightarrow> (Inr (), w))"

definition mkfs_ok_features :: "u64 list" where
  "mkfs_ok_features = [0, NILFS_FEATURE_COMPAT_RO_BLOCK_COUNT, 0]"

text \<open>\<open>mem\<close> tells whether the copy of the string could be allocated.\<close>

definition nilfs_mkfs_edit_feature :: "bool \<Rightarrow> string \<Rightarrow> u64 list \<Rightarrow> ('s, u64 list) act" where
  "nilfs_mkfs_edit_feature mem str compat_array =
     (let st = nilfs_edit_feature mem str compat_array (Some mkfs_ok_features) None
      in if \<not> e_ok st then failE EExit else retE (e_compat st))"

definition strncpy :: "nat \<Rightarrow> string \<Rightarrow> bytes" where
  "strncpy n s = map (of_nat \<circ> code) (take n s) @ replicate (n - length s) 0"

record parse_state =
  pa_opts :: mkfs_opts
  pa_version :: bool
  pa_features :: "string option"

definition parse_option :: "'w kernel \<Rightarrow> 'w mkfs_env \<Rightarrow> char \<times> string \<Rightarrow> parse_state \<Rightarrow> ('w, parse_state) act" where
  "parse_option k e opt p =
     (let c = fst opt; optarg = snd opt; o' = pa_opts p in
      if c = CHR ''b'' then
        bindE (check_blocksize (k_pagesize k) (atol optarg)) (\<lambda>_. retE (p\<lparr>pa_opts := o'\<lparr>o_blocksize := atol optarg\<rparr>\<rparr>))
      else if c = CHR ''B'' then retE (p\<lparr>pa_opts := o'\<lparr>o_blocks_per_segment := atol optarg\<rparr>\<rparr>)
      else if c = CHR ''c'' then retE (p\<lparr>pa_opts := o'\<lparr>o_cflag := o_cflag o' + 1\<rparr>\<rparr>)
      else if c = CHR ''f'' then retE (p\<lparr>pa_opts := o'\<lparr>o_force_overwrite := True\<rparr>\<rparr>)
      else if c = CHR ''h'' then failE EExit
      else if c = CHR ''K'' then retE (p\<lparr>pa_opts := o'\<lparr>o_discard := False\<rparr>\<rparr>)
      else if c = CHR ''L'' then retE (p\<lparr>pa_opts := o'\<lparr>o_volume_label := strncpy 80 optarg\<rparr>\<rparr>)
      else if c = CHR ''m'' then retE (p\<lparr>pa_opts := o'\<lparr>o_r_segments_percentage := atol optarg\<rparr>\<rparr>)
      else if c = CHR ''n'' then retE (p\<lparr>pa_opts := o'\<lparr>o_nflag := True\<rparr>\<rparr>)
      else if c = CHR ''q'' then retE (p\<lparr>pa_opts := o'\<lparr>o_quiet := True\<rparr>\<rparr>)
      else if c = CHR ''v'' then retE (p\<lparr>pa_opts := o'\<lparr>o_verbose := o_verbose o' + 1\<rparr>\<rparr>)
      else if c = CHR ''O'' then retE (p\<lparr>pa_features := Some optarg\<rparr>)
      else if c = CHR ''P'' then
        bindE (check_ctime e (atol optarg)) (\<lambda>_. retE (p\<lparr>pa_opts := o'\<lparr>o_creation_time := atol optarg\<rparr>\<rparr>))
      else if c = CHR ''V'' then retE (p\<lparr>pa_version := True\<rparr>)
      else failE EExit)"

text \<open>
  \<open>parse_options\<close>: the options \<open>getopt\<close> finds, in their order, and the operands it
  leaves behind them.
\<close>

definition parse_options :: "'w kernel \<Rightarrow> 'w mkfs_env \<Rightarrow> (char \<times> string) list \<Rightarrow> string list \<Rightarrow> ('w, mkfs_opts) act" where
  "parse_options k e opts operands =
     bindE (foldE (parse_option k e) opts \<lparr>pa_opts = default_opts, pa_version = False, pa_features = None\<rparr>) (\<lambda>p.
       let o' = pa_opts p; o' = (if o_quiet o' then o'\<lparr>o_verbose := 0\<rparr> else o') in
       if operands = [] \<and> \<not> pa_version p then failE EExit
       else if pa_version p then failE EExit
       else bindE (check_blocks_per_segment (o_blocks_per_segment o')) (\<lambda>_.
            bindE (check_reserved_segments_percentage (o_r_segments_percentage o')) (\<lambda>_.
              case pa_features p of
                None \<Rightarrow> retE o'
              | Some str \<Rightarrow> (\<lambda>w. case k_malloc k (of_nat (length str + 1)) w of (m, w) \<Rightarrow>
                  bindE (nilfs_mkfs_edit_feature (m \<noteq> None) str (o_compat_array o'))
                    (\<lambda>a. retE (o'\<lparr>o_compat_array := a\<rparr>)) w))))"

section \<open>The disk layout\<close>

text \<open>A pointer into the disk buffer: a block and an offset in it.\<close>

type_synonym ptr = "u64 \<times> nat"

record nilfs_file_info =
  mf_ino :: u64
  mf_start_blocknr :: u64
  mf_nblocks :: u32
  mf_raw_inode :: "ptr option"

text \<open>The array \<open>files\<close> is the list of its used entries; \<open>nfiles\<close> is its length.\<close>

record nilfs_segment_info =
  mi_start_blocknr :: u64
  mi_nblocks :: u32
  mi_nfinfo :: u32
  mi_sumbytes :: u64
  mi_nblk_sum :: u32
  mi_files :: "nilfs_file_info list"
  mi_nvblocknrs :: u32

record nilfs_disk_info =
  di_dev_size :: u64
  di_blkbits :: u32
  di_ctime :: i64
  di_crc_seed :: u32
  di_blocks_per_segment :: u64
  di_nsegments :: u64
  di_first_segment_block :: u64
  di_nblocks_to_write :: u64
  di_nblocks_used :: u64
  di_nsegments_to_write :: u32
  di_seginfo :: "nilfs_segment_info list"

record nilfs_segment_ref =
  sf_seq :: u64
  sf_start_blocknr :: u64
  sf_free_blocks_count :: u64
  sf_cno :: u64

definition count_free_blocks :: "nilfs_disk_info \<Rightarrow> u64" where
  "count_free_blocks di = di_blocks_per_segment di * (di_nsegments di - ucast (di_nsegments_to_write di))"

definition segment_start_blocknr :: "nilfs_disk_info \<Rightarrow> u64 \<Rightarrow> u64" where
  "segment_start_blocknr di segnum =
     (if segnum > 0 then di_blocks_per_segment di * segnum else di_first_segment_block di)"

definition count_blockgrouped_file_blocks :: "u64 \<Rightarrow> u32 \<Rightarrow> u32 \<Rightarrow> u32" where
  "count_blockgrouped_file_blocks blocksize entry_size nr_initial_entries =
     (let entries_per_block = blocksize div ucast entry_size in
      ucast (ucast (group_desc_blocks_per_group + bitmap_blocks_per_group)
        + DIV_ROUND_UP (ucast nr_initial_entries) entries_per_block))"

definition count_ifile_blocks :: "u64 \<Rightarrow> ('s, u32) act" where
  "count_ifile_blocks blocksize =
     (let entries_per_group = blocksize * 8;
          nblocks = count_blockgrouped_file_blocks blocksize sizeof_inode (ucast NILFS_MAX_INITIAL_INO)
      in if NILFS_MAX_INITIAL_INO > entries_per_group \<or> nblocks > NILFS_MAX_BMAP_ROOT_PTRS
         then failE EExit else retE nblocks)"

definition count_sufile_blocks :: "u64 \<Rightarrow> u32" where
  "count_sufile_blocks blocksize =
     (let sufile_segment_usages_per_block = blocksize div ucast sizeof_segment_usage in
      ucast (DIV_ROUND_UP (ucast nr_initial_segments + NILFS_SUFILE_FIRST_SEGMENT_USAGE_OFFSET)
        sufile_segment_usages_per_block))"

definition count_cpfile_blocks :: "u64 \<Rightarrow> u32" where
  "count_cpfile_blocks blocksize =
     (let nr_initial_checkpoints = 1;
          cpfile_checkpoints_per_block = blocksize div ucast sizeof_checkpoint in
      ucast (DIV_ROUND_UP (nr_initial_checkpoints + NILFS_CPFILE_FIRST_CHECKPOINT_OFFSET - 1)
        cpfile_checkpoints_per_block))"

definition count_dat_blocks :: "u64 \<Rightarrow> u32 \<Rightarrow> ('s, u32) act" where
  "count_dat_blocks blocksize nr_dat_entries =
     (let entries_per_group = blocksize * 8;
          nblocks = count_blockgrouped_file_blocks blocksize sizeof_dat_entry nr_dat_entries
      in if ucast nr_dat_entries > entries_per_group \<or> nblocks > NILFS_MAX_BMAP_ROOT_PTRS
         then failE EExit else retE nblocks)"

definition increment_segsum_items :: "u64 \<Rightarrow> u64 \<Rightarrow> u32 \<Rightarrow> u32 \<Rightarrow> u64" where
  "increment_segsum_items blocksize offset item_size n =
     (let rest_items_in_block = ucast ((blocksize - offset mod blocksize) div ucast item_size) :: u32 in
      if n \<le> rest_items_in_block then offset + ucast (item_size * n)
      else let nitems_per_block = ucast (blocksize div ucast item_size) :: u32;
               n = n - rest_items_in_block
           in blocksize * (offset div blocksize + 1 + ucast (n div nitems_per_block))
                + ucast (n mod nitems_per_block * item_size))"

definition increment_segsum_size :: "u64 \<Rightarrow> nilfs_segment_info \<Rightarrow> u32 \<Rightarrow> bool \<Rightarrow> nilfs_segment_info" where
  "increment_segsum_size blocksize si nblocks_in_file dat_flag =
     (let binfo_size = (if dat_flag then 8 else sizeof_binfo_v);
          sumbytes = increment_segsum_items blocksize (mi_sumbytes si) (of_nat sizeof_finfo) 1;
          sumbytes = increment_segsum_items blocksize sumbytes binfo_size nblocks_in_file
      in si\<lparr>mi_sumbytes := sumbytes\<rparr>)"

fun my_log2 :: "int \<Rightarrow> nat" where
  "my_log2 i = (if i > 1 then Suc (my_log2 (i div 2)) else 0)"

declare my_log2.simps [simp del]

definition nilfs_min_nsegments :: "nilfs_disk_info \<Rightarrow> i64 \<Rightarrow> u64" where
  "nilfs_min_nsegments di rp =
     max ((rp * di_nsegments di + 99) div 100) NILFS_MIN_NRSVSEGS_mkfs
       + max (ucast nr_initial_segments) NILFS_MIN_NUSERSEGS"

text \<open>
  \<open>srand48\<close> and \<open>mrand48\<close> as POSIX defines them: the high 32 bits of the 48-bit state
  after one step of the linear congruential generator.
\<close>

definition srand48_mrand48 :: "i64 \<Rightarrow> u32" where
  "srand48_mrand48 seed =
     (let x = unat (ucast seed :: u32) * 2 ^ 16 + 0x330E
      in of_nat (((0x5DEECE66D * x + 0xB) mod 2 ^ 48) div 2 ^ 16))"

definition mkfs_device_size :: "'w kernel \<Rightarrow> int \<Rightarrow> ('w, u64) act" where
  "mkfs_device_size k fd w =
     (case k_fstat k fd w of
        (Inl _, w) \<Rightarrow> (Inl EExit, w)
      | (Inr st, w) \<Rightarrow>
          if st_kind st = Block
          then (case k_blkgetsize64 k fd w of (Inl _, w) \<Rightarrow> (Inl EExit, w) | (Inr n, w) \<Rightarrow> (Inr n, w))
          else (Inr (st_size st), w))"

text \<open>The part of \<open>init_disk_layout\<close> behind the calls that read the clock and the device's size.\<close>

definition layout_segments :: "mkfs_opts \<Rightarrow> i64 \<Rightarrow> u64 \<Rightarrow> ('s, nilfs_disk_info) act" where
  "layout_segments o' nilfs_time dev_size =
     (let blocksize = o_blocksize o'; bps = o_blocks_per_segment o'; blkbits = my_log2 (sint blocksize);
          first_segblk = DIV_ROUND_UP NILFS_DISKHDR_SIZE blocksize;
          di = \<lparr>di_dev_size = dev_size, di_blkbits = of_nat blkbits,
                di_ctime = (if o_creation_time o' \<noteq> 0 then o_creation_time o' else nilfs_time),
                di_crc_seed = srand48_mrand48 nilfs_time,
                di_blocks_per_segment = bps,
                di_nsegments = drop_bit blkbits (NILFS_SB2_OFFSET_BYTES dev_size) div bps,
                di_first_segment_block = first_segblk, di_nblocks_to_write = 0, di_nblocks_used = 0,
                di_nsegments_to_write = 0, di_seginfo = []\<rparr>
      in if first_segblk + ucast NILFS_PSEG_MIN_BLOCKS > bps then failE EExit
         else if di_nsegments di < nilfs_min_nsegments di (o_r_segments_percentage o') then failE EExit
         else retE di)"

definition init_disk_layout :: "'w kernel \<Rightarrow> 'w mkfs_env \<Rightarrow> mkfs_opts \<Rightarrow> int \<Rightarrow> ('w, nilfs_disk_info) act" where
  "init_disk_layout k e o' fd w =
     (case me_time e w of (nilfs_time, w) \<Rightarrow>
        bindE (mkfs_device_size k fd) (\<lambda>dev_size. layout_segments o' nilfs_time dev_size) w)"

definition new_segment :: "u64 \<Rightarrow> nilfs_disk_info \<Rightarrow> ('s, nilfs_segment_info) act" where
  "new_segment blocksize di =
     (if di_seginfo di \<noteq> [] then failE EExit
      else retE \<lparr>mi_start_blocknr = di_first_segment_block di, mi_nblocks = 0, mi_nfinfo = 0,
                 mi_sumbytes = of_nat sizeof_segment_summary,
                 mi_nblk_sum = ucast (DIV_ROUND_UP (of_nat sizeof_segment_summary) blocksize),
                 mi_files = [], mi_nvblocknrs = 0\<rparr>)"

definition add_file :: "u64 \<Rightarrow> u64 \<Rightarrow> u32 \<Rightarrow> bool \<Rightarrow> nilfs_segment_info \<Rightarrow> ('s, nilfs_segment_info) act" where
  "add_file blocksize ino nblocks dat_flag si =
     (if length (mi_files si) \<ge> MAX_FILES then failE EExit
      else if ino \<ge> NILFS_MAX_INITIAL_INO then failE EExit
      else let fi = \<lparr>mf_ino = ino, mf_start_blocknr = 0, mf_nblocks = nblocks, mf_raw_inode = None\<rparr>;
               si = si\<lparr>mi_files := mi_files si @ [fi], mi_nblocks := mi_nblocks si + nblocks\<rparr>
           in retE (if nblocks > 0
                then let si = increment_segsum_size blocksize (si\<lparr>mi_nfinfo := mi_nfinfo si + 1\<rparr>) nblocks dat_flag;
                         si = (if dat_flag then si else si\<lparr>mi_nvblocknrs := mi_nvblocknrs si + nblocks\<rparr>)
                     in si\<lparr>mi_nblk_sum := ucast (DIV_ROUND_UP (mi_sumbytes si) blocksize)\<rparr>
                else si))"

text \<open>The loop of \<open>fix_disk_layout\<close> over the files of one segment.\<close>

fun place_files :: "nilfs_file_info list \<Rightarrow> u64 \<Rightarrow> u64 \<Rightarrow> nilfs_file_info list \<times> u64" where
  "place_files [] blocknr used = ([], used)"
| "place_files (fi # fis) blocknr used =
     (if mf_nblocks fi = 0 then (let (fis', used) = place_files fis blocknr used in (fi # fis', used))
      else let used' = (if mf_ino fi \<noteq> NILFS_DAT_INO \<and> mf_ino fi \<noteq> NILFS_SUFILE_INO \<and> mf_ino fi \<noteq> NILFS_CPFILE_INO
                        then used + ucast (mf_nblocks fi) else used);
               (fis', used'') = place_files fis (blocknr + ucast (mf_nblocks fi)) used'
           in (fi\<lparr>mf_start_blocknr := blocknr\<rparr> # fis', used''))"

definition fix_segment :: "nilfs_segment_info \<Rightarrow> nilfs_disk_info \<Rightarrow> ('s, nilfs_disk_info) act" where
  "fix_segment si di =
     (let blocknr = mi_start_blocknr si + ucast (mi_nblk_sum si);
          si = si\<lparr>mi_nblocks := mi_nblocks si + (mi_nblk_sum si + 1)\<rparr>
      in if ucast (mi_nblocks si) > di_blocks_per_segment di then failE EExit
         else let (fis, used) = place_files (mi_files si) blocknr (di_nblocks_used di);
                  last = mi_start_blocknr si + ucast (mi_nblocks si)
              in retE (di\<lparr>di_seginfo := di_seginfo di @ [si\<lparr>mi_files := fis\<rparr>], di_nblocks_used := used,
                          di_nblocks_to_write := (if di_nblocks_to_write di < last then last
                                                  else di_nblocks_to_write di)\<rparr>))"

definition fix_disk_layout :: "nilfs_disk_info \<Rightarrow> ('s, nilfs_disk_info) act" where
  "fix_disk_layout di =
     bindE (foldE fix_segment (di_seginfo di)
              (di\<lparr>di_seginfo := [], di_nblocks_used := 0, di_nblocks_to_write := di_first_segment_block di\<rparr>)) (\<lambda>di.
       retE (di\<lparr>di_nsegments_to_write :=
                  ucast (DIV_ROUND_UP (di_nblocks_to_write di) (di_blocks_per_segment di))\<rparr>))"

text \<open>The calls by which \<open>main\<close> plans the initial segment.\<close>

definition plan_segment :: "u64 \<Rightarrow> nilfs_disk_info \<Rightarrow> ('s, nilfs_disk_info) act" where
  "plan_segment blocksize di =
     bindE (new_segment blocksize di) (\<lambda>si.
     bindE (add_file blocksize NILFS_ROOT_INO 1 False si) (\<lambda>si.
     bindE (add_file blocksize NILFS_ATIME_INO 0 False si) (\<lambda>si.
     bindE (add_file blocksize 1 0 False si) (\<lambda>si.
     bindE (add_file blocksize 8 0 False si) (\<lambda>si.
     bindE (add_file blocksize 9 0 False si) (\<lambda>si.
     bindE (add_file blocksize 10 0 False si) (\<lambda>si.
     bindE (count_ifile_blocks blocksize) (\<lambda>n.
     bindE (add_file blocksize NILFS_IFILE_INO n False si) (\<lambda>si.
     bindE (add_file blocksize NILFS_CPFILE_INO (count_cpfile_blocks blocksize) False si) (\<lambda>si.
     bindE (add_file blocksize NILFS_SUFILE_INO (count_sufile_blocks blocksize) False si) (\<lambda>si.
     bindE (count_dat_blocks blocksize (mi_nvblocknrs si)) (\<lambda>n.
     bindE (add_file blocksize NILFS_DAT_INO n True si) (\<lambda>si.
     fix_disk_layout (di\<lparr>di_seginfo := [si]\<rparr>))))))))))))))"

section \<open>Block sizes\<close>

text \<open>The block sizes \<open>check_blocksize\<close> accepts on a system with pages of at most 64 KiB.\<close>

definition mkfs_bs :: "u64 \<Rightarrow> bool" where
  "mkfs_bs bs \<longleftrightarrow> bs = 1024 \<or> bs = 2048 \<or> bs = 4096 \<or> bs = 8192 \<or> bs = 16384 \<or> bs = 32768 \<or> bs = 65536"

lemma and_double:
  "(2 * a + 1) AND (2 * b) = 2 * (a AND b :: nat)" "(2 * a) AND (2 * a + 1) = 2 * (a :: nat)"
proof -
  have d: "bit (2 * x) (Suc i) = bit x i" "bit (2 * x + 1) (Suc i) = bit x i" "\<not> bit (2 * x) 0" for x :: nat and i
    by (simp_all add: bit_Suc bit_0)
  show "(2 * a + 1) AND (2 * b) = 2 * (a AND b)"
  proof (rule bit_eqI)
    fix i show "bit ((2 * a + 1) AND (2 * b)) i = bit (2 * (a AND b)) i"
      by (cases i) (simp_all only: bit_and_iff d simp_thms)
  qed
  show "(2 * a) AND (2 * a + 1) = 2 * a"
  proof (rule bit_eqI)
    fix i show "bit ((2 * a) AND (2 * a + 1)) i = bit (2 * a) i"
      by (cases i) (simp_all only: bit_and_iff d simp_thms)
  qed
qed

lemma power_of_two: "0 < n \<Longrightarrow> (n - 1) AND n = (0 :: nat) \<Longrightarrow> \<exists>k. n = 2 ^ k"
proof (induction n rule: less_induct)
  case (less n)
  show ?case
  proof (cases "even n")
    case True
    then obtain m where m: "n = 2 * m" by blast
    with less.prems have mp: "0 < m" by simp
    have "n - 1 = 2 * (m - 1) + 1" using m mp by simp
    then have "(m - 1) AND m = 0" using less.prems(2) m and_double(1) [of "m - 1" m] by simp
    with less.IH [of m] mp m obtain k where "m = 2 ^ k" by auto
    then show ?thesis using m by (intro exI [of _ "Suc k"]) simp
  next
    case False
    then obtain m where m: "n = 2 * m + 1" by (auto elim: oddE)
    then have "n = 1" using less.prems(2) and_double(2) [of m] by simp
    then show ?thesis by (intro exI [of _ 0]) simp
  qed
qed

lemma sint_unat_pos: "0 < sint (b :: u64) \<Longrightarrow> sint b = int (unat b)"
proof -
  assume p: "0 < sint b"
  have "uint b = take_bit 64 (sint b)" by (simp add: uint_sint)
  also have "\<dots> = sint b" using p sint_lt [of b] by (simp add: take_bit_int_eq_self_iff)
  finally show ?thesis by simp
qed

lemma power_of_two_word:
  assumes "0 < sint (b :: u64)" "(b - 1) AND b = 0"
  shows "\<exists>k < 63. b = 2 ^ k \<and> sint b = 2 ^ k"
proof -
  have b: "b \<noteq> 0" using assms by auto
  then have u: "unat (b - 1) = unat b - 1" by (subst unat_sub) (simp_all add: word_le_nat_alt unat_gt_0 Suc_leI)
  have "(unat b - 1) AND unat b = unat ((b - 1) AND b)" by (simp only: unsigned_and_eq u)
  then obtain k where k: "unat b = 2 ^ k" using power_of_two [of "unat b"] b assms(2) by (auto simp: unat_gt_0)
  have "sint b < 2 ^ 63" using sint_lt [of b] by simp
  moreover have "sint b = int (unat b)" using assms(1) by (rule sint_unat_pos)
  ultimately have "(2 :: int) ^ k < 2 ^ 63" "sint b = 2 ^ k" using k by simp_all
  moreover from this(1) have "k < 63" by (metis power_strict_increasing_iff one_less_numeral_iff semiring_norm(76))
  moreover have "b = 2 ^ k" using k by (metis of_nat_numeral of_nat_power of_nat_unat ucast_id)
  ultimately show ?thesis by blast
qed

lemma check_blocksize_ok:
  assumes "check_blocksize pg bs s = (Inr x, s')" "pg \<le> 65536"
  shows "mkfs_bs bs \<and> sint bs \<le> pg"
proof -
  have c: "sint bs \<le> pg" "1024 \<le> sint bs" "(bs - 1) AND bs = 0"
    using assms(1) by (auto simp: check_blocksize_def NILFS_MIN_BLOCKSIZE_def split: if_splits)
  then obtain k where k: "k < 63" "bs = 2 ^ k" "sint bs = 2 ^ k" using power_of_two_word [of bs] by auto
  have "(2 :: int) ^ 10 \<le> 2 ^ k" "(2 :: int) ^ k \<le> 2 ^ 16" using c k assms(2) by simp_all
  then have "10 \<le> k" "k \<le> 16" by (simp_all only: power_increasing_iff one_less_numeral_iff semiring_norm)
  then consider "k = 10" | "k = 11" | "k = 12" | "k = 13" | "k = 14" | "k = 15" | "k = 16" by linarith
  then show ?thesis using k(2) c(1) by cases (simp_all add: mkfs_bs_def)
qed

section \<open>The plan in closed form\<close>

definition first_block :: "u64 \<Rightarrow> u64" where
  "first_block bs = (if bs < 4096 then 4096 div bs else 1)"

definition ifile_blocks :: "u64 \<Rightarrow> u32" where
  "ifile_blocks bs = (if bs = 1024 then 4 else 3)"

definition planned_files :: "u64 \<Rightarrow> nilfs_file_info list" where
  "planned_files bs =
     (let f = first_block bs; ni = ifile_blocks bs; i = ucast ni;
          fi = (\<lambda>ino blk n. \<lparr>mf_ino = ino, mf_start_blocknr = blk, mf_nblocks = n, mf_raw_inode = None\<rparr>)
      in [fi 2 (f + 1) 1, fi 7 0 0, fi 1 0 0, fi 8 0 0, fi 9 0 0, fi 10 0 0, fi 6 (f + 2) ni,
          fi 4 (f + 2 + i) 1, fi 5 (f + 3 + i) 1, fi 3 (f + 4 + i) 3])"

definition planned_segment :: "u64 \<Rightarrow> nilfs_segment_info" where
  "planned_segment bs =
     \<lparr>mi_start_blocknr = first_block bs, mi_nblocks = ifile_blocks bs + 8, mi_nfinfo = 5,
      mi_sumbytes = (if bs = 1024 then 320 else 304), mi_nblk_sum = 1, mi_files = planned_files bs,
      mi_nvblocknrs = ifile_blocks bs + 3\<rparr>"

definition planned :: "u64 \<Rightarrow> nilfs_disk_info \<Rightarrow> nilfs_disk_info" where
  "planned bs di =
     di\<lparr>di_seginfo := [planned_segment bs], di_nblocks_used := ucast (ifile_blocks bs) + 1,
        di_nblocks_to_write := first_block bs + ucast (ifile_blocks bs) + 8, di_nsegments_to_write := 1\<rparr>"

lemmas layout_ops = new_segment_def add_file_def count_ifile_blocks_def count_cpfile_blocks_def count_sufile_blocks_def
  count_dat_blocks_def count_blockgrouped_file_blocks_def increment_segsum_size_def increment_segsum_items_def
  DIV_ROUND_UP_def mkfs_consts sizeof_segment_summary_def sizeof_finfo_def NILFS_DAT_INO_def

lemma pow2_small: "mkfs_bs bs \<Longrightarrow> P 1024 \<Longrightarrow> P 2048 \<Longrightarrow> P 4096 \<Longrightarrow> P 8192 \<Longrightarrow> P 16384 \<Longrightarrow> P 32768 \<Longrightarrow> P 65536 \<Longrightarrow> P bs"
  by (auto simp: mkfs_bs_def)

lemma round_up_one:
  assumes "16 \<le> (bps :: u64)" "n \<le> 16" "0 < n" "unat bps < 2 ^ 63"
  shows "(n + bps - 1) div bps = 1"
proof -
  have l: "16 \<le> unat bps" "unat n \<le> 16" "0 < unat n" using assms by (simp_all add: word_le_nat_alt word_less_nat_alt unat_gt_0)
  have "unat (n + bps - 1) = unat bps + (unat n - 1)"
    using l assms(4) by (simp add: unat_sub unat_word_ariths word_le_nat_alt)
  then have "unat ((n + bps - 1) div bps) = (unat bps + (unat n - 1)) div unat bps" by (simp only: unat_div)
  also have "\<dots> = 1 + (unat n - 1) div unat bps" using l by (subst div_add_self1) simp_all
  also have "\<dots> = 1" using l by simp
  finally show ?thesis by (simp add: word_unat_eq_iff)
qed

definition unplaced_segment :: "u64 \<Rightarrow> nilfs_segment_info" where
  "unplaced_segment bs = (planned_segment bs)
     \<lparr>mi_nblocks := ifile_blocks bs + 6, mi_files := map (\<lambda>fi. fi\<lparr>mf_start_blocknr := 0\<rparr>) (planned_files bs)\<rparr>"

lemma plan_files_eq:
  assumes "mkfs_bs bs" "di_first_segment_block di = first_block bs" "di_seginfo di = []"
  shows "plan_segment bs di s = fix_disk_layout (di\<lparr>di_seginfo := [unplaced_segment bs]\<rparr>) s"
proof -
  have n: "\<not> (11 :: u64) \<le> 1" by (simp add: word_le_nat_alt)
  show ?thesis
    by (rule pow2_small [OF assms(1), where P = "\<lambda>b. plan_segment b di s = fix_disk_layout (di\<lparr>di_seginfo :=
        [(unplaced_segment b)\<lparr>mi_start_blocknr := di_first_segment_block di\<rparr>]\<rparr>) s", THEN trans])
      (simp_all add: plan_segment_def layout_ops unplaced_segment_def planned_segment_def
        planned_files_def Let_def ifile_blocks_def n assms(2,3))
qed

lemma place_planned:
  "place_files (map (\<lambda>fi. fi\<lparr>mf_start_blocknr := 0\<rparr>) (planned_files bs)) (first_block bs + 1) 0
     = (planned_files bs, ucast (ifile_blocks bs) + 1)"
proof -
  have "ifile_blocks bs = 3 \<or> ifile_blocks bs = 4" by (simp add: ifile_blocks_def)
  then show ?thesis
    by (elim disjE) (simp_all add: planned_files_def Let_def NILFS_DAT_INO_def NILFS_SUFILE_INO_def NILFS_CPFILE_INO_def)
qed

lemma plan_segment_eq:
  assumes "mkfs_bs bs" "di_first_segment_block di = first_block bs" "di_seginfo di = []"
    "16 \<le> di_blocks_per_segment di" "unat (di_blocks_per_segment di) < 2 ^ 63"
  shows "plan_segment bs di s = (Inr (planned bs di), s)"
proof -
  let ?si = "unplaced_segment bs"
  have b: "\<not> di_blocks_per_segment di < n" if "n \<le> 16" for n using assms(4) that by (meson leD order_trans)
  have f: "first_block bs = 1 \<or> first_block bs = 2 \<or> first_block bs = 4" "ifile_blocks bs = 3 \<or> ifile_blocks bs = 4"
    using assms(1) by (auto simp: mkfs_bs_def first_block_def ifile_blocks_def)
  have e: "mi_start_blocknr ?si = first_block bs" "mi_nblk_sum ?si = 1" "mi_nblocks ?si = ifile_blocks bs + 6"
    "mi_files ?si = map (\<lambda>fi. fi\<lparr>mf_start_blocknr := 0\<rparr>) (planned_files bs)"
    "?si\<lparr>mi_nblocks := 8 + ifile_blocks bs, mi_files := planned_files bs\<rparr> = planned_segment bs"
    by (simp_all add: unplaced_segment_def planned_segment_def)
  have u: "first_block bs + ucast (8 + ifile_blocks bs) = first_block bs + ucast (ifile_blocks bs) + 8"
    and le: "ucast (8 + ifile_blocks bs) \<le> (16 :: u64)"
    and pos: "first_block bs < first_block bs + ucast (ifile_blocks bs) + 8"
    and le2: "first_block bs + ucast (ifile_blocks bs) + 8 \<le> 16" "0 < first_block bs + ucast (ifile_blocks bs) + 8"
    using f by auto
  note r = round_up_one [OF assms(4) le2 assms(5)]
  show ?thesis
    using b [OF le] pos r e(5)
    by (simp add: plan_files_eq [OF assms(1-3)] fix_disk_layout_def fix_segment_def Let_def e(1-4) place_planned u
        DIV_ROUND_UP_def planned_def assms(2) add.assoc [symmetric])
qed

end
