(* ===== verification/Mkfs.thy ===== *)
theory Mkfs
  imports Mkfs_Layout Mount_Check
begin

text \<open>
  The second half of \<open>src/sbin/mkfs.c\<close>: the disk buffer, the routines that format the
  blocks of the initial log, the superblock, and the writing of the device.

  The disk buffer maps block numbers to the blocks allocated so far; a pointer is a block
  and an offset in it, and a load or store outside an allocated block is \<open>EAbort\<close>. The
  members of \<open>struct nilfs_fs_info\<close> are fields of the state: \<open>mk_files\<close> are the
  pointers \<open>nilfs.files\<close>, indices into the file table of the current segment, so that an
  assignment through either is seen by the other. \<open>read\<close> and \<open>write\<close> act at the file
  position \<open>mk_pos\<close> that \<open>lseek\<close> sets. Messages on the terminal are not modelled.
\<close>

section \<open>State\<close>

record 'w mkfs =
  mk_w :: 'w
  mk_pos :: u64
  mk_buffer :: "u64 \<Rightarrow> bytes option"
  mk_buffer_size :: u64
  mk_di :: nilfs_disk_info
  mk_raw_sb :: "ptr option"
  mk_current :: nat
  mk_segref :: nilfs_segment_ref
  mk_segsum :: "ptr option"
  mk_checkpoint :: "ptr option"
  mk_super_root :: "ptr option"
  mk_files :: "nat option list"
  mk_next :: u64
  mk_seq :: u32
  mk_cno :: u64
  mk_vblocknr :: u64

definition liftW :: "('w, 'a) act \<Rightarrow> ('w mkfs, 'a) act" where
  "liftW m s = (case m (mk_w s) of (r, w) \<Rightarrow> (r, s\<lparr>mk_w := w\<rparr>))"

text \<open>A failed call that \<open>perr\<close> reports, and one whose result is not looked at.\<close>

definition orExit :: "('s, 'a) act \<Rightarrow> ('s, 'a) act" where
  "orExit m s = (case m s of
        (Inl x, s) \<Rightarrow> (Inl (if x = EAbort \<or> x = EHang then x else EExit), s)
      | (Inr x, s) \<Rightarrow> (Inr x, s))"

definition tryE :: "('s, 'a) act \<Rightarrow> ('s, errno + 'a) act" where
  "tryE m s = (case m s of (r, s) \<Rightarrow> (Inr r, s))"

definition padd :: "ptr \<Rightarrow> nat \<Rightarrow> ptr" where
  "padd p n = (fst p, snd p + n)"

definition poke :: "ptr \<Rightarrow> bytes \<Rightarrow> ('w mkfs, unit) act" where
  "poke p v s =
     (case mk_buffer s (fst p) of
        None \<Rightarrow> (Inl EAbort, s)
      | Some b \<Rightarrow> if snd p + length v \<le> length b
                  then (Inr (), s\<lparr>mk_buffer := (mk_buffer s)(fst p \<mapsto> put_at (snd p) v b)\<rparr>)
                  else (Inl EAbort, s))"

definition peek :: "ptr \<Rightarrow> nat \<Rightarrow> ('w mkfs, bytes) act" where
  "peek p n s =
     (case mk_buffer s (fst p) of
        None \<Rightarrow> (Inl EAbort, s)
      | Some b \<Rightarrow> if snd p + n \<le> length b then (Inr (take n (drop (snd p) b)), s) else (Inl EAbort, s))"

definition le16 :: "u16 \<Rightarrow> bytes" where "le16 x = to_le 2 (unat x)"
definition le32 :: "u32 \<Rightarrow> bytes" where "le32 x = to_le 4 (unat x)"
definition le64 :: "u64 \<Rightarrow> bytes" where "le64 x = to_le 8 (unat x)"

definition deref :: "'a option \<Rightarrow> ('s, 'a) act" where
  "deref p = (case p of None \<Rightarrow> failE EAbort | Some x \<Rightarrow> retE x)"

section \<open>The disk buffer\<close>

definition init_disk_buffer :: "'w kernel \<Rightarrow> u64 \<Rightarrow> ('w mkfs, unit) act" where
  "init_disk_buffer k max_blocks s =
     (case k_malloc k (max_blocks * 8) (mk_w s) of
        (None, w) \<Rightarrow> (Inl EExit, s\<lparr>mk_w := w\<rparr>)
      | (Some _, w) \<Rightarrow> (Inr (), s\<lparr>mk_w := w, mk_buffer := (\<lambda>_. None), mk_buffer_size := max_blocks\<rparr>))"

definition map_disk_buffer :: "'w kernel \<Rightarrow> u64 \<Rightarrow> u64 \<Rightarrow> bool \<Rightarrow> ('w mkfs, ptr) act" where
  "map_disk_buffer k blocksize blocknr clear_flag s =
     (if blocknr \<ge> mk_buffer_size s then (Inl EExit, s)
      else case mk_buffer s blocknr of
        Some _ \<Rightarrow> (Inr (blocknr, 0), s)
      | None \<Rightarrow>
          (case k_malloc k blocksize (mk_w s) of
             (None, w) \<Rightarrow> (Inl EExit, s\<lparr>mk_w := w\<rparr>)
           | (Some _, w) \<Rightarrow>
               (Inr (blocknr, 0),
                s\<lparr>mk_w := w, mk_buffer := (mk_buffer s)(blocknr \<mapsto>
                    (if clear_flag then replicate (unat blocksize) 0
                     else map (k_junk k) [0..<unat blocksize]))\<rparr>)))"

text \<open>The file position; a \<open>write\<close> that fails leaves it.\<close>

definition m_lseek :: "'w mkfs_env \<Rightarrow> int \<Rightarrow> u64 \<Rightarrow> ('w mkfs, unit) act" where
  "m_lseek e fd offset s =
     (case me_lseek e fd offset (mk_w s) of
        (Inl x, w) \<Rightarrow> (Inl x, s\<lparr>mk_w := w\<rparr>)
      | (Inr _, w) \<Rightarrow> (Inr (), s\<lparr>mk_w := w, mk_pos := offset\<rparr>))"

definition m_write :: "'w kernel \<Rightarrow> int \<Rightarrow> bytes \<Rightarrow> ('w mkfs, u64) act" where
  "m_write k fd bs s =
     (case k_pwrite k fd bs (mk_pos s) (mk_w s) of
        (Inl x, w) \<Rightarrow> (Inl x, s\<lparr>mk_w := w\<rparr>)
      | (Inr n, w) \<Rightarrow> (Inr n, s\<lparr>mk_w := w, mk_pos := mk_pos s + n\<rparr>))"

definition m_read :: "'w kernel \<Rightarrow> int \<Rightarrow> u64 \<Rightarrow> ('w mkfs, bytes) act" where
  "m_read k fd n s =
     (case k_pread k fd n (mk_pos s) (mk_w s) of
        (Inl x, w) \<Rightarrow> (Inl x, s\<lparr>mk_w := w\<rparr>)
      | (Inr bs, w) \<Rightarrow> (Inr bs, s\<lparr>mk_w := w, mk_pos := mk_pos s + of_nat (length bs)\<rparr>))"

definition read_disk_header :: "'w kernel \<Rightarrow> 'w mkfs_env \<Rightarrow> u64 \<Rightarrow> int \<Rightarrow> ('w mkfs, unit) act" where
  "read_disk_header k e blocksize fd =
     bindE (tryE (m_lseek e fd 0)) (\<lambda>_.
       foldE (\<lambda>i _.
         bindE (map_disk_buffer k blocksize (of_nat i) False) (\<lambda>p.
         bindE (orExit (m_read k fd blocksize)) (\<lambda>bs. poke p bs)))
         [0..<unat (DIV_ROUND_UP NILFS_SB_OFFSET_BYTES blocksize)] ())"

definition device_has_boot_sector :: "'w kernel \<Rightarrow> u64 \<Rightarrow> ('w mkfs, bool) act" where
  "device_has_boot_sector k blocksize =
     bindE (map_disk_buffer k blocksize 0 False) (\<lambda>p.
     bindE (peek (padd p 0x1fe) 4) (\<lambda>v. retE (le32_at v 0 = 0xaa55)))"

text \<open>
  The buffer of zeros: eight blocks, or half as much until the allocation succeeds. The
  loop compares the result of \<open>write\<close> with an unsigned size, so that the \<open>-1\<close> of a
  failure is not less than it.
\<close>

definition MAX_NBLOCKS_CLEAR_BUFFER :: u64 where "MAX_NBLOCKS_CLEAR_BUFFER = 8"

fun erase_buffer :: "'w kernel \<Rightarrow> u64 list \<Rightarrow> ('w mkfs, u64) act" where
  "erase_buffer k [] s = (Inl EExit, s)"
| "erase_buffer k (bufsz # sizes) s =
     (case k_malloc k bufsz (mk_w s) of
        (None, w) \<Rightarrow> erase_buffer k sizes (s\<lparr>mk_w := w\<rparr>)
      | (Some _, w) \<Rightarrow> (Inr bufsz, s\<lparr>mk_w := w\<rparr>))"

function erase_loop :: "'w kernel \<Rightarrow> int \<Rightarrow> u64 \<Rightarrow> u64 \<Rightarrow> ('w mkfs, unit) act" where
  "erase_loop k fd bufsz n s =
     (if n = 0 then (Inr (), s)
      else if bufsz = 0 then (Inl EHang, s)
      else let sz = (if n > bufsz then bufsz else n) in
           case tryE (m_write k fd (replicate (unat sz) 0)) s of
             (Inr (Inr written), s) \<Rightarrow> if written < sz then (Inl (EOther 0), s) else erase_loop k fd bufsz (n - sz) s
           | (Inr (Inl _), s) \<Rightarrow> if (- 1 :: u64) < sz then (Inl (EOther 0), s) else erase_loop k fd bufsz (n - sz) s
           | (Inl x, s) \<Rightarrow> (Inl x, s))"
  by pat_completeness auto

lemma erase_loop_decreases:
  "n \<noteq> 0 \<Longrightarrow> bufsz \<noteq> 0 \<Longrightarrow> unat (n - (if n > bufsz then bufsz else n)) < unat (n :: u64)"
proof -
  assume n: "n \<noteq> 0" "bufsz \<noteq> 0"
  then have "0 < unat n" "0 < unat bufsz" by (simp_all add: unat_gt_0)
  then show ?thesis using unat_sub_u64 [of bufsz n] by (auto simp: order_less_imp_le)
qed

termination erase_loop
  by (relation "measure (\<lambda>(k, fd, bufsz, n, s). unat n)") (use erase_loop_decreases in \<open>auto split: if_splits\<close>)

declare erase_loop.simps [simp del]

definition erase_disk_range :: "'w kernel \<Rightarrow> 'w mkfs_env \<Rightarrow> u64 \<Rightarrow> int \<Rightarrow> u64 \<Rightarrow> u64 \<Rightarrow> ('w mkfs, unit) act" where
  "erase_disk_range k e blocksize fd offset n =
     bindE (erase_buffer k (map (\<lambda>i. drop_bit i (blocksize * MAX_NBLOCKS_CLEAR_BUFFER)) [0..<4])) (\<lambda>bufsz.
     bindE (m_lseek e fd offset) (\<lambda>_. erase_loop k fd bufsz n))"

definition nilfs_mkfs_discard_range :: "'w mkfs_env \<Rightarrow> int \<Rightarrow> u64 \<Rightarrow> u64 \<Rightarrow> ('w mkfs, bool) act" where
  "nilfs_mkfs_discard_range e fd start len s =
     (case me_discard e fd start len (mk_w s) of (b, w) \<Rightarrow> (Inr b, s\<lparr>mk_w := w\<rparr>))"

definition nilfs_mkfs_discard_zeroes_data :: "'w mkfs_env \<Rightarrow> int \<Rightarrow> ('w mkfs, bool) act" where
  "nilfs_mkfs_discard_zeroes_data e fd s =
     (case me_discard_zeroes e fd (mk_w s) of (b, w) \<Rightarrow> (Inr b, s\<lparr>mk_w := w\<rparr>))"

definition erase_disk :: "'w kernel \<Rightarrow> 'w mkfs_env \<Rightarrow> mkfs_opts \<Rightarrow> int \<Rightarrow> ('w mkfs, unit) act" where
  "erase_disk k e o' fd =
     bindE (device_has_boot_sector k (o_blocksize o')) (\<lambda>boot s.
       let start = (if boot then NILFS_SB_OFFSET_BYTES else 0);
           last = di_dev_size (mk_di s) AND NOT (512 - 1);
           wipe = bindE (erase_disk_range k e (o_blocksize o') fd (last - NILFS_DISK_ERASE_SIZE) NILFS_DISK_ERASE_SIZE)
                    (\<lambda>_. erase_disk_range k e (o_blocksize o') fd start (NILFS_DISK_ERASE_SIZE - start))
       in if sint last < sint NILFS_DISK_ERASE_SIZE \<or> sint (last - NILFS_DISK_ERASE_SIZE) < sint start
          then (Inl EAbort, s)
          else if o_discard o'
          then bindE (nilfs_mkfs_discard_range e fd start (last - start)) (\<lambda>done.
                 if done then bindE (nilfs_mkfs_discard_zeroes_data e fd) (\<lambda>z. if z then retE () else wipe)
                 else wipe) s
          else wipe s)"

section \<open>Formatting blocks\<close>

definition cur_seg :: "'w mkfs \<Rightarrow> nilfs_segment_info" where
  "cur_seg s = di_seginfo (mk_di s) ! mk_current s"

text \<open>\<open>nilfs.files[ino]\<close>, and the inode it points to.\<close>

definition file_index :: "u64 \<Rightarrow> ('w mkfs, nat) act" where
  "file_index ino s = deref (mk_files s ! unat ino) s"

definition get_file :: "u64 \<Rightarrow> ('w mkfs, nilfs_file_info) act" where
  "get_file ino = bindE (file_index ino) (\<lambda>j s. (Inr (mi_files (cur_seg s) ! j), s))"

definition get_raw_inode :: "u64 \<Rightarrow> ('w mkfs, ptr) act" where
  "get_raw_inode ino = bindE (get_file ino) (\<lambda>fi. deref (mf_raw_inode fi))"

definition set_raw_inode :: "u64 \<Rightarrow> ptr \<Rightarrow> ('w mkfs, unit) act" where
  "set_raw_inode ino p =
     bindE (file_index ino) (\<lambda>j s.
       let di = mk_di s; c = mk_current s; si = di_seginfo di ! c;
           fis = (mi_files si)[j := (mi_files si ! j)\<lparr>mf_raw_inode := Some p\<rparr>]
       in (Inr (), s\<lparr>mk_di := di\<lparr>di_seginfo := (di_seginfo di)[c := si\<lparr>mi_files := fis\<rparr>]\<rparr>\<rparr>))"

definition init_nilfs :: "nilfs_disk_info \<Rightarrow> ('w mkfs, unit) act" where
  "init_nilfs di s =
     (Inr (), s\<lparr>mk_di := di, mk_current := 0,
        mk_segref := \<lparr>sf_seq = 0, sf_start_blocknr = 0, sf_free_blocks_count = 0, sf_cno = 0\<rparr>,
        mk_segsum := None, mk_checkpoint := None, mk_super_root := None,
        mk_files := replicate (unat NILFS_MAX_INITIAL_INO) None,
        mk_next := segment_start_blocknr di 1, mk_seq := 0, mk_cno := 1, mk_vblocknr := 1\<rparr>)"

text \<open>Block-grouped files: a block of group descriptors, a bitmap block, the entries.\<close>

definition prepare_blockgrouped_file :: "'w kernel \<Rightarrow> u64 \<Rightarrow> u64 \<Rightarrow> ('w mkfs, unit) act" where
  "prepare_blockgrouped_file k blocksize blocknr =
     (let group_descs_per_block = blocksize div ucast sizeof_group_desc in
      bindE (map_disk_buffer k blocksize blocknr True) (\<lambda>desc.
      bindE (foldE (\<lambda>i _. poke (padd desc (4 * i)) (le32 (ucast (blocksize * 8)))) [0..<unat group_descs_per_block] ()) (\<lambda>_.
      bindE (map_disk_buffer k blocksize (blocknr + 1) True) (\<lambda>_. retE ()))))"

definition alloc_blockgrouped_file_entry :: "'w kernel \<Rightarrow> u64 \<Rightarrow> u64 \<Rightarrow> u64 \<Rightarrow> ('w mkfs, unit) act" where
  "alloc_blockgrouped_file_entry k blocksize blocknr nr =
     bindE (map_disk_buffer k blocksize blocknr True) (\<lambda>desc.
     bindE (map_disk_buffer k blocksize (blocknr + 1) True) (\<lambda>bitmap.
     bindE (peek bitmap (unat blocksize)) (\<lambda>bits.
       if ext2fs_test_bit (unat nr) bits \<noteq> 0 then failE EExit
       else bindE (poke bitmap (snd (ext2fs_set_bit (unat nr) bits))) (\<lambda>_.
            bindE (peek desc 4) (\<lambda>d.
              if le32_at d 0 = 0 then failE EAbort
              else poke desc (le32 (le32_at d 0 - 1)))))))"

definition reserve_ifile_inode :: "'w kernel \<Rightarrow> u64 \<Rightarrow> u64 \<Rightarrow> ('w mkfs, unit) act" where
  "reserve_ifile_inode k blocksize ino =
     bindE (get_file NILFS_IFILE_INO) (\<lambda>fi.
       alloc_blockgrouped_file_entry k blocksize (mf_start_blocknr fi) ino)"

definition DT_DIR :: u32 where "DT_DIR = 4"
definition DT_REG :: u32 where "DT_REG = 8"

text \<open>Offsets of the members of \<open>struct nilfs_inode\<close>.\<close>

definition init_inode :: "'w kernel \<Rightarrow> u64 \<Rightarrow> u64 \<Rightarrow> u32 \<Rightarrow> u32 \<Rightarrow> u32 \<Rightarrow> ('w mkfs, unit) act" where
  "init_inode k blocksize ino type md sz =
     bindE (get_file ino) (\<lambda>fi.
     bindE (get_raw_inode ino) (\<lambda>raw s.
       let ctime = di_ctime (mk_di s) in
       bindE (poke (padd raw 48) (le16 (ucast (push_bit 12 type OR md)))) (\<lambda>_.
       bindE (poke (padd raw 52) (le32 0)) (\<lambda>_.
       bindE (poke (padd raw 8) (le64 (ucast sz))) (\<lambda>_.
       bindE (poke (padd raw 0) (le64 (ucast (mf_nblocks fi)))) (\<lambda>_.
       bindE (poke (padd raw 50) (le16 1)) (\<lambda>_.
       bindE (poke (padd raw 16) (le64 ctime)) (\<lambda>_.
       bindE (poke (padd raw 24) (le64 ctime)) (\<lambda>_.
         if ino \<ge> NILFS_USER_INO then reserve_ifile_inode k blocksize ino else retE ()))))))) s))"

definition inc_link_count :: "u64 \<Rightarrow> ('w mkfs, unit) act" where
  "inc_link_count ino =
     bindE (get_raw_inode ino) (\<lambda>raw.
     bindE (peek (padd raw 50) 2) (\<lambda>v. poke (padd raw 50) (le16 (le16_at v 0 + 1))))"

definition NILFS_MAX_REC_LEN :: u16 where "NILFS_MAX_REC_LEN = 0xffff"
definition NILFS_FT_DIR :: u8 where "NILFS_FT_DIR = 2"

definition NILFS_DIR_REC_LEN :: "u32 \<Rightarrow> u32" where
  "NILFS_DIR_REC_LEN name_len = (name_len + 12 + 7) AND NOT 7"

definition nilfs_rec_len_from_disk :: "u16 \<Rightarrow> u32" where
  "nilfs_rec_len_from_disk dlen = (if dlen = NILFS_MAX_REC_LEN then push_bit 16 1 else ucast dlen)"

definition nilfs_rec_len_to_disk :: "u32 \<Rightarrow> ('s, u16) act" where
  "nilfs_rec_len_to_disk len =
     (if len > push_bit 16 1 then failE EAbort
      else retE (if len = push_bit 16 1 then NILFS_MAX_REC_LEN else ucast len))"

text \<open>One directory entry, its name padded to eight bytes, and the step to the next one.\<close>

definition put_dir_entry :: "ptr \<Rightarrow> u32 \<Rightarrow> bytes \<Rightarrow> ('w mkfs, unit) act" where
  "put_dir_entry de rec_len name =
     bindE (poke (padd de 0) (le64 NILFS_ROOT_INO)) (\<lambda>_.
     bindE (poke (padd de 10) [of_nat (length name)]) (\<lambda>_.
     bindE (nilfs_rec_len_to_disk rec_len) (\<lambda>dlen.
     bindE (poke (padd de 8) (le16 dlen)) (\<lambda>_.
     bindE (poke (padd de 11) [NILFS_FT_DIR]) (\<lambda>_.
       poke (padd de 12) (name @ replicate (8 - length name) 0))))))"

definition next_dir_entry :: "ptr \<Rightarrow> ('w mkfs, ptr) act" where
  "next_dir_entry de =
     bindE (peek (padd de 8) 2) (\<lambda>v. retE (padd de (unat (nilfs_rec_len_from_disk (le16_at v 0)))))"

definition nilfs_mkfs_make_rootdir :: "'w kernel \<Rightarrow> u64 \<Rightarrow> ('w mkfs, unit) act" where
  "nilfs_mkfs_make_rootdir k blocksize =
     bindE (get_file NILFS_ROOT_INO) (\<lambda>fi.
     bindE (map_disk_buffer k blocksize (mf_start_blocknr fi) True) (\<lambda>de.
     bindE (init_inode k blocksize NILFS_ROOT_INO DT_DIR 0x1ed (ucast blocksize)) (\<lambda>_.
       let rec_len = NILFS_DIR_REC_LEN 1 in
       bindE (put_dir_entry de rec_len [46]) (\<lambda>_.
       bindE (next_dir_entry de) (\<lambda>de.
       bindE (put_dir_entry de (ucast (blocksize - ucast rec_len)) [46, 46]) (\<lambda>_.
         inc_link_count NILFS_ROOT_INO))))))"

definition nilfs_mkfs_make_reserved_files :: "'w kernel \<Rightarrow> u64 \<Rightarrow> ('w mkfs, unit) act" where
  "nilfs_mkfs_make_reserved_files k blocksize =
     bindE (init_inode k blocksize NILFS_ATIME_INO DT_REG 0 0) (\<lambda>_.
     bindE (init_inode k blocksize 1 DT_REG 0 0) (\<lambda>_.
     bindE (init_inode k blocksize 8 DT_REG 0 0) (\<lambda>_.
     bindE (init_inode k blocksize 9 DT_REG 0 0) (\<lambda>_.
       init_inode k blocksize 10 DT_REG 0 0))))"

section \<open>The metadata files\<close>

definition prepare_dat :: "'w kernel \<Rightarrow> u64 \<Rightarrow> ('w mkfs, unit) act" where
  "prepare_dat k blocksize =
     bindE (get_file NILFS_DAT_INO) (\<lambda>fi.
       let blocknr = mf_start_blocknr fi in
       bindE (prepare_blockgrouped_file k blocksize blocknr) (\<lambda>_.
       bindE (foldE (\<lambda>i _. bindE (map_disk_buffer k blocksize (blocknr + of_nat i) True) (\<lambda>_. retE ()))
                [2..<unat (mf_nblocks fi)] ()) (\<lambda>_.
       bindE (alloc_blockgrouped_file_entry k blocksize blocknr 0) (\<lambda>_.
         init_inode k blocksize NILFS_DAT_INO DT_REG 0 0))))"

definition NILFS_CNO_MAX_mkfs :: u64 where "NILFS_CNO_MAX_mkfs = - 1"

definition assign_vblocknr :: "'w kernel \<Rightarrow> u64 \<Rightarrow> u64 \<Rightarrow> ('w mkfs, u64) act" where
  "assign_vblocknr k blocksize blocknr =
     bindE (get_file NILFS_DAT_INO) (\<lambda>fi s.
       let entries_per_block = blocksize div ucast sizeof_dat_entry;
           vblocknr = mk_vblocknr s;
           entry_block = mf_start_blocknr fi + ucast (group_desc_blocks_per_group + bitmap_blocks_per_group)
             + vblocknr div entries_per_block
       in bindE (alloc_blockgrouped_file_entry k blocksize (mf_start_blocknr fi) vblocknr) (\<lambda>_.
            if entry_block \<ge> mf_start_blocknr fi + ucast (mf_nblocks fi) then failE EAbort
            else bindE (map_disk_buffer k blocksize entry_block True) (\<lambda>p s.
              let entry = padd p (32 * unat (vblocknr mod entries_per_block)) in
              bindE (poke (padd entry 0) (le64 blocknr)) (\<lambda>_.
              bindE (poke (padd entry 8) (le64 (mk_cno s))) (\<lambda>_.
              bindE (poke (padd entry 16) (le64 NILFS_CNO_MAX_mkfs)) (\<lambda>_.
                retE vblocknr))) s)) (s\<lparr>mk_vblocknr := vblocknr + 1\<rparr>))"

text \<open>\<open>nilfs_segment_usage_set_active\<close>, \<open>set_dirty\<close> and \<open>set_clean\<close>.\<close>

definition su_set_flag :: "nat \<Rightarrow> ptr \<Rightarrow> ('w mkfs, unit) act" where
  "su_set_flag flag su = bindE (peek (padd su 12) 4) (\<lambda>v. poke (padd su 12) (le32 (le32_at v 0 OR push_bit flag 1)))"

definition su_set_clean :: "ptr \<Rightarrow> ('w mkfs, unit) act" where
  "su_set_clean su =
     bindE (poke (padd su 0) (le64 0)) (\<lambda>_.
     bindE (poke (padd su 8) (le32 0)) (\<lambda>_. poke (padd su 12) (le32 0)))"

definition prepare_sufile_block :: "'w kernel \<Rightarrow> u64 \<Rightarrow> u64 \<Rightarrow> nat \<Rightarrow> u64 \<Rightarrow> ('w mkfs, u64) act" where
  "prepare_sufile_block k blocksize blocknr b segnum =
     (let entries_per_block = blocksize div ucast sizeof_segment_usage;
          i = (if b = 0 then NILFS_SUFILE_FIRST_SEGMENT_USAGE_OFFSET else 0)
      in bindE (map_disk_buffer k blocksize (blocknr + of_nat b) True) (\<lambda>p.
           foldE (\<lambda>i segnum.
             let su = padd p (16 * i) in
             bindE (if segnum < ucast nr_initial_segments
                    then bindE (su_set_flag 0 su) (\<lambda>_. su_set_flag 1 su)
                    else su_set_clean su) (\<lambda>_. retE (segnum + 1)))
             [unat i..<unat entries_per_block] segnum))"

definition prepare_sufile :: "'w kernel \<Rightarrow> u64 \<Rightarrow> ('w mkfs, unit) act" where
  "prepare_sufile k blocksize =
     bindE (get_file NILFS_SUFILE_INO) (\<lambda>fi s.
       let blocknr = mf_start_blocknr fi; nsegs = di_nsegments (mk_di s) in
       bindE (map_disk_buffer k blocksize blocknr True) (\<lambda>header.
       bindE (poke (padd header 0) (le64 (nsegs - ucast nr_initial_segments))) (\<lambda>_.
       bindE (poke (padd header 8) (le64 (ucast nr_initial_segments))) (\<lambda>_.
       bindE (poke (padd header 16) (le64 (nsegs - 1))) (\<lambda>_.
       bindE (foldE (prepare_sufile_block k blocksize blocknr) [0..<unat (mf_nblocks fi)] 0) (\<lambda>_.
         init_inode k blocksize NILFS_SUFILE_INO DT_REG 0 0))))) s)"

definition commit_sufile :: "'w kernel \<Rightarrow> u64 \<Rightarrow> ('w mkfs, unit) act" where
  "commit_sufile k blocksize =
     bindE (get_file NILFS_SUFILE_INO) (\<lambda>fi s.
       let entries_per_block = blocksize div ucast sizeof_segment_usage;
           segnum = ucast (mf_start_blocknr fi div di_blocks_per_segment (mk_di s)) :: u32;
           n = ucast segnum + NILFS_SUFILE_FIRST_SEGMENT_USAGE_OFFSET
       in bindE (map_disk_buffer k blocksize (mf_start_blocknr fi + n div entries_per_block) True) (\<lambda>p s.
            let su = padd p (16 * unat (n mod entries_per_block)) in
            bindE (poke (padd su 0) (le64 (di_ctime (mk_di s)))) (\<lambda>_.
              poke (padd su 8) (le32 (mi_nblocks (cur_seg s)))) s) s)"

definition cp_set_invalid :: "ptr \<Rightarrow> ('w mkfs, unit) act" where
  "cp_set_invalid cp = bindE (peek cp 4) (\<lambda>v. poke cp (le32 (le32_at v 0 OR push_bit NILFS_CPINFO_INVALID 1)))"

definition prepare_cpfile_block :: "'w kernel \<Rightarrow> u64 \<Rightarrow> u64 \<Rightarrow> nat \<Rightarrow> u64 \<Rightarrow> ('w mkfs, u64) act" where
  "prepare_cpfile_block k blocksize blocknr b cno =
     (let entries_per_block = blocksize div ucast sizeof_checkpoint;
          i = (if b = 0 then NILFS_CPFILE_FIRST_CHECKPOINT_OFFSET else 0)
      in bindE (map_disk_buffer k blocksize (blocknr + of_nat b) True) (\<lambda>p.
           foldE (\<lambda>i cno.
             let cp = padd p (192 * i) in
             bindE (poke (padd cp 24) (le64 cno)) (\<lambda>_.
             bindE (if cno = first_cno
                    then (\<lambda>s. bindE (poke (padd cp 32) (le64 (di_ctime (mk_di s)))) (\<lambda>_ s.
                                set_raw_inode NILFS_IFILE_INO (padd cp 64) (s\<lparr>mk_checkpoint := Some cp\<rparr>)) s)
                    else cp_set_invalid cp) (\<lambda>_. retE (cno + 1))))
             [unat i..<unat entries_per_block] cno))"

definition prepare_cpfile :: "'w kernel \<Rightarrow> u64 \<Rightarrow> ('w mkfs, unit) act" where
  "prepare_cpfile k blocksize =
     bindE (get_file NILFS_CPFILE_INO) (\<lambda>fi.
       let blocknr = mf_start_blocknr fi in
       bindE (map_disk_buffer k blocksize blocknr True) (\<lambda>header.
       bindE (poke (padd header 0) (le64 1)) (\<lambda>_.
       bindE (foldE (prepare_cpfile_block k blocksize blocknr) [0..<unat (mf_nblocks fi)] 1) (\<lambda>_.
         init_inode k blocksize NILFS_CPFILE_INO DT_REG 0 0))))"

definition commit_cpfile :: "('w mkfs, unit) act" where
  "commit_cpfile s =
     bindE (deref (mk_checkpoint s)) (\<lambda>cp.
     bindE (poke (padd cp 48) (le64 (ucast nr_initial_inodes))) (\<lambda>_.
     bindE (poke (padd cp 56) (le64 (di_nblocks_used (mk_di s)))) (\<lambda>_.
       poke (padd cp 40) (le64 (ucast (mi_nblocks (cur_seg s))))))) s"

text \<open>One block of the ifile's inodes; \<open>ino\<close> counts over all of them.\<close>

definition prepare_ifile_block :: "'w kernel \<Rightarrow> u64 \<Rightarrow> u64 \<Rightarrow> nat \<Rightarrow> u64 \<Rightarrow> ('w mkfs, u64) act" where
  "prepare_ifile_block k blocksize blocknr b ino =
     bindE (map_disk_buffer k blocksize (blocknr + of_nat b) True) (\<lambda>p.
       foldE (\<lambda>i ino s.
         if ino < NILFS_MAX_INITIAL_INO \<and> mk_files s ! unat ino \<noteq> None
            \<and> mf_raw_inode (mi_files (cur_seg s) ! the (mk_files s ! unat ino)) = None
         then bindE (set_raw_inode ino (padd p (128 * i))) (\<lambda>_. retE (ino + 1)) s
         else (Inr (ino + 1), s))
         [0..<unat (blocksize div ucast sizeof_inode)] ino)"

definition prepare_ifile :: "'w kernel \<Rightarrow> u64 \<Rightarrow> ('w mkfs, unit) act" where
  "prepare_ifile k blocksize =
     bindE (get_file NILFS_IFILE_INO) (\<lambda>fi.
       let blocknr = mf_start_blocknr fi in
       bindE (prepare_blockgrouped_file k blocksize blocknr) (\<lambda>_.
       bindE (foldE (prepare_ifile_block k blocksize blocknr) [2..<unat (mf_nblocks fi)] 0) (\<lambda>_.
       bindE (foldE (\<lambda>ino _. alloc_blockgrouped_file_entry k blocksize blocknr (of_nat ino))
                [0..<unat NILFS_USER_INO] ()) (\<lambda>_.
         init_inode k blocksize NILFS_IFILE_INO DT_REG 0 0))))"

section \<open>The initial log\<close>

definition NILFS_SR_BYTES :: u16 where "NILFS_SR_BYTES = 400"

text \<open>The table \<open>nilfs.files\<close>: later entries of the segment's list overwrite earlier ones.\<close>

definition index_files :: "nilfs_file_info list \<Rightarrow> nat option list" where
  "index_files fis =
     foldl (\<lambda>fs (j, fi). fs[unat (mf_ino fi) := Some j]) (replicate (unat NILFS_MAX_INITIAL_INO) None)
       (enumerate 0 fis)"

definition init_segsum :: "'w kernel \<Rightarrow> u64 \<Rightarrow> ('w mkfs, unit) act" where
  "init_segsum k blocksize s =
     (let si = cur_seg s in
      bindE (map_disk_buffer k blocksize (mi_start_blocknr si) True) (\<lambda>p s.
        bindE (poke (padd p 8) (le32 NILFS_SEGSUM_MAGIC)) (\<lambda>_.
        bindE (poke (padd p 12) (le16 (of_nat sizeof_segment_summary))) (\<lambda>_.
        bindE (poke (padd p 14) (le16 (1 OR 2 OR 4))) (\<lambda>_.
        bindE (poke (padd p 16) (le64 (ucast (mk_seq s)))) (\<lambda>_.
        bindE (poke (padd p 24) (le64 (di_ctime (mk_di s)))) (\<lambda>_.
        bindE (poke (padd p 32) (le64 (mk_next s))) (\<lambda>_.
        bindE (poke (padd p 40) (le32 (mi_nblocks si))) (\<lambda>_.
        bindE (poke (padd p 44) (le32 (mi_nfinfo si))) (\<lambda>_.
        bindE (poke (padd p 48) (le32 (ucast (mi_sumbytes si)))) (\<lambda>_.
          poke (padd p 56) (le64 (mk_cno s))))))))))) (s\<lparr>mk_segsum := Some p\<rparr>)) s)"

definition init_super_root :: "'w kernel \<Rightarrow> u64 \<Rightarrow> ('w mkfs, unit) act" where
  "init_super_root k blocksize s =
     (let si = cur_seg s; end_blocknr = mi_start_blocknr si + ucast (mi_nblocks si) - 1 in
      bindE (map_disk_buffer k blocksize end_blocknr True) (\<lambda>sr s.
        bindE (poke (padd sr 4) (le16 NILFS_SR_BYTES)) (\<lambda>_.
        bindE (poke (padd sr 8) (le64 (di_ctime (mk_di s)))) (\<lambda>_.
        bindE (poke (padd sr 6) (le16 0)) (\<lambda>_.
        bindE (set_raw_inode NILFS_CPFILE_INO (padd sr 144)) (\<lambda>_.
        bindE (set_raw_inode NILFS_SUFILE_INO (padd sr 272)) (\<lambda>_.
          set_raw_inode NILFS_DAT_INO (padd sr 16)))))) (s\<lparr>mk_super_root := Some sr\<rparr>)) s)"

definition prepare_segment :: "'w kernel \<Rightarrow> u64 \<Rightarrow> nat \<Rightarrow> ('w mkfs, unit) act" where
  "prepare_segment k blocksize i s =
     (let s = s\<lparr>mk_current := i\<rparr>; s = s\<lparr>mk_files := index_files (mi_files (cur_seg s))\<rparr> in
      bindE (init_segsum k blocksize) (\<lambda>_.
      bindE (init_super_root k blocksize) (\<lambda>_.
      bindE (prepare_dat k blocksize) (\<lambda>_.
      bindE (prepare_sufile k blocksize) (\<lambda>_.
      bindE (prepare_cpfile k blocksize) (\<lambda>_.
        prepare_ifile k blocksize))))) s)"

text \<open>An item of the segment summary, and the offset behind it.\<close>

definition map_segsum_info :: "'w kernel \<Rightarrow> u64 \<Rightarrow> u64 \<Rightarrow> u64 \<Rightarrow> u32 \<Rightarrow> ('w mkfs, ptr \<times> u64) act" where
  "map_segsum_info k blocksize start_blocknr offset item_size =
     (let block_offset = offset div blocksize; offset_in_block = offset mod blocksize;
          (block_offset, offset_in_block, offset) =
            (if ucast item_size > blocksize - offset_in_block
             then (block_offset + 1, 0, (block_offset + 1) * blocksize)
             else (block_offset, offset_in_block, offset))
      in bindE (map_disk_buffer k blocksize (start_blocknr + block_offset) True) (\<lambda>p.
           retE (padd p (unat offset_in_block), offset + ucast item_size)))"

definition i_bmap :: "ptr \<Rightarrow> nat \<Rightarrow> ptr" where
  "i_bmap raw i = padd raw (56 + 8 * i)"

definition update_blocknr :: "'w kernel \<Rightarrow> u64 \<Rightarrow> nat \<Rightarrow> u64 \<Rightarrow> ('w mkfs, u64) act" where
  "update_blocknr k blocksize j sum_offset s =
     (let start_blocknr = mi_start_blocknr (cur_seg s); fi = mi_files (cur_seg s) ! j in
      bindE (deref (mf_raw_inode fi)) (\<lambda>raw.
        if mf_nblocks fi = 0 then bindE (poke (i_bmap raw 0) (le64 0)) (\<lambda>_. retE sum_offset)
        else bindE (map_segsum_info k blocksize start_blocknr sum_offset (of_nat sizeof_finfo)) (\<lambda>(finfo, sum_offset).
             bindE (poke (padd finfo 0) (le64 (mf_ino fi))) (\<lambda>_.
             bindE (poke (padd finfo 16) (le32 (mf_nblocks fi))) (\<lambda>_.
             bindE (poke (padd finfo 20) (le32 (mf_nblocks fi))) (\<lambda>_.
             bindE (poke (padd finfo 8) (le64 1)) (\<lambda>_.
             bindE (poke (i_bmap raw 0) (le64 0)) (\<lambda>_.
               if mf_ino fi = NILFS_DAT_INO
               then foldE (\<lambda>i sum_offset.
                      bindE (map_segsum_info k blocksize start_blocknr sum_offset 8) (\<lambda>(pblkoff, sum_offset).
                      bindE (poke pblkoff (le64 (of_nat i))) (\<lambda>_.
                      bindE (poke (i_bmap raw (i + 1)) (le64 (mf_start_blocknr fi + of_nat i))) (\<lambda>_.
                        retE sum_offset)))) [0..<unat (mf_nblocks fi)] sum_offset
               else foldE (\<lambda>i sum_offset.
                      bindE (map_segsum_info k blocksize start_blocknr sum_offset sizeof_binfo_v) (\<lambda>(pbinfo_v, sum_offset).
                      bindE (assign_vblocknr k blocksize (mf_start_blocknr fi + of_nat i)) (\<lambda>vblocknr.
                      bindE (poke (padd pbinfo_v 0) (le64 vblocknr)) (\<lambda>_.
                      bindE (poke (padd pbinfo_v 8) (le64 (of_nat i))) (\<lambda>_.
                      bindE (poke (i_bmap raw (i + 1)) (le64 vblocknr)) (\<lambda>_.
                        retE sum_offset)))))) [0..<unat (mf_nblocks fi)] sum_offset))))))) s)"

text \<open>The sum over the blocks behind the first one.\<close>

definition datasum_block :: "'w kernel \<Rightarrow> u64 \<Rightarrow> u64 \<Rightarrow> u32 \<Rightarrow> ('w mkfs, u32) act" where
  "datasum_block k blocksize blocknr crc =
     bindE (map_disk_buffer k blocksize blocknr True) (\<lambda>p.
     bindE (peek p (unat blocksize)) (\<lambda>v. retE (crc32_le crc v)))"

definition fill_in_checksums :: "'w kernel \<Rightarrow> u64 \<Rightarrow> u32 \<Rightarrow> ('w mkfs, unit) act" where
  "fill_in_checksums k blocksize crc_seed s =
     (let si = cur_seg s in
      bindE (deref (mk_segsum s)) (\<lambda>segsum.
      bindE (peek (padd segsum 8) (unat (mi_sumbytes si - 8))) (\<lambda>v.
      bindE (poke (padd segsum 4) (le32 (crc32_le crc_seed v))) (\<lambda>_.
      bindE (deref (mk_super_root s)) (\<lambda>sr.
      bindE (peek (padd sr 4) (unat NILFS_SR_BYTES - 4)) (\<lambda>v.
      bindE (poke (padd sr 0) (le32 (crc32_le crc_seed v))) (\<lambda>_.
        if mi_nblocks si = 0 then failE EAbort
        else bindE (map_disk_buffer k blocksize (mi_start_blocknr si) True) (\<lambda>p.
             bindE (peek (padd p 4) (unat blocksize - 4)) (\<lambda>v.
             bindE (foldE (\<lambda>i. datasum_block k blocksize (mi_start_blocknr si + of_nat i))
                      [1..<unat (mi_nblocks si)] (crc32_le crc_seed v)) (\<lambda>crc.
               poke (padd segsum 0) (le32 crc)))))))))) s)"

definition commit_segment :: "'w kernel \<Rightarrow> u64 \<Rightarrow> ('w mkfs, unit) act" where
  "commit_segment k blocksize s =
     (if mk_segsum s = None then (Inl EAbort, s)
      else bindE (foldE (update_blocknr k blocksize) [0..<length (mi_files (cur_seg s))]
                    (of_nat sizeof_segment_summary)) (\<lambda>_.
           bindE commit_cpfile (\<lambda>_.
           bindE (commit_sufile k blocksize) (\<lambda>_.
           bindE (\<lambda>s. fill_in_checksums k blocksize (di_crc_seed (mk_di s)) s) (\<lambda>_ s.
             (Inr (), s\<lparr>mk_segref := \<lparr>sf_seq = ucast (mk_seq s), sf_start_blocknr = mi_start_blocknr (cur_seg s),
                          sf_free_blocks_count = count_free_blocks (mk_di s), sf_cno = mk_cno s\<rparr>\<rparr>))))) s)"

section \<open>The superblock\<close>

definition NILFS_SB_BYTES :: nat where "NILFS_SB_BYTES = 280"
definition NILFS_CURRENT_REV :: u32 where "NILFS_CURRENT_REV = 2"
definition NILFS_MINOR_REV :: u16 where "NILFS_MINOR_REV = 0"
definition NILFS_DFL_MAX_MNT_COUNT :: u16 where "NILFS_DFL_MAX_MNT_COUNT = 50"
definition NILFS_VALID_FS :: u16 where "NILFS_VALID_FS = 1"
definition NILFS_DEF_CHECK_INTERVAL :: u32 where "NILFS_DEF_CHECK_INTERVAL = 60 * 60 * 24 * 180"

text \<open>The assignments of \<open>prepare_super_block\<close>, in their order: offset and value.\<close>

definition super_block_fields :: "mkfs_opts \<Rightarrow> nilfs_disk_info \<Rightarrow> bytes \<Rightarrow> (nat \<times> bytes) list" where
  "super_block_fields o' di uuid =
     [(0, replicate 1024 0),
      (0, le32 NILFS_CURRENT_REV), (4, le16 NILFS_MINOR_REV), (6, le16 NILFS_SUPER_MAGIC),
      (8, le16 (of_nat NILFS_SB_BYTES)), (10, le16 0), (12, le32 (di_crc_seed di)), (16, le32 0),
      (20, le32 (di_blkbits di - 10)), (24, le64 (di_nsegments di)), (32, le64 (di_dev_size di)),
      (40, le64 (di_first_segment_block di)), (48, le32 (ucast (di_blocks_per_segment di))),
      (52, le32 (ucast (o_r_segments_percentage o'))),
      (88, le64 (di_ctime di)), (96, le64 0), (112, le16 0), (114, le16 NILFS_DFL_MAX_MNT_COUNT),
      (116, le16 NILFS_VALID_FS), (118, le16 1), (120, le64 (di_ctime di)),
      (128, le32 NILFS_DEF_CHECK_INTERVAL), (132, le32 0), (140, le32 (ucast NILFS_USER_INO)),
      (144, le16 (ucast sizeof_inode)), (146, le16 (ucast sizeof_dat_entry)),
      (148, le16 (ucast sizeof_checkpoint)), (150, le16 (ucast sizeof_segment_usage)),
      (256, le64 (o_compat_array o' ! NILFS_FEATURE_TYPE_COMPAT)),
      (264, le64 (o_compat_array o' ! NILFS_FEATURE_TYPE_COMPAT_RO)),
      (272, le64 (o_compat_array o' ! NILFS_FEATURE_TYPE_INCOMPAT)),
      (152, uuid), (168, o_volume_label o')]"

definition prepare_super_block :: "'w kernel \<Rightarrow> 'w mkfs_env \<Rightarrow> mkfs_opts \<Rightarrow> nilfs_disk_info \<Rightarrow> ('w mkfs, unit) act" where
  "prepare_super_block k e o' di =
     (let blocknr = NILFS_SB_OFFSET_BYTES div o_blocksize o'; offset = NILFS_SB_OFFSET_BYTES mod o_blocksize o' in
      if 1024 > unat (o_blocksize o') then failE EExit
      else bindE (map_disk_buffer k (o_blocksize o') blocknr True) (\<lambda>p s.
             let sb = padd p (unat offset) in
             case me_uuid e (mk_w s) of (uuid, w) \<Rightarrow>
               foldE (\<lambda>(off, v) _. poke (padd sb off) v) (super_block_fields o' di uuid) ()
                 (s\<lparr>mk_w := w, mk_raw_sb := Some sb\<rparr>)))"

definition commit_super_block :: "nilfs_disk_info \<Rightarrow> nilfs_segment_ref \<Rightarrow> ('w mkfs, unit) act" where
  "commit_super_block di segref s =
     bindE (deref (mk_raw_sb s)) (\<lambda>sb.
     bindE (poke (padd sb 56) (le64 (sf_cno segref))) (\<lambda>_.
     bindE (poke (padd sb 64) (le64 (sf_start_blocknr segref))) (\<lambda>_.
     bindE (poke (padd sb 72) (le64 (sf_seq segref))) (\<lambda>_.
     bindE (poke (padd sb 80) (le64 (sf_free_blocks_count segref))) (\<lambda>_.
     bindE (poke (padd sb 104) (le64 (di_ctime di))) (\<lambda>_.
     bindE (peek sb NILFS_SB_BYTES) (\<lambda>v.
       poke (padd sb 16) (le32 (crc32_le (di_crc_seed di) v))))))))) s"

section \<open>Writing the device\<close>

text \<open>A failed call ends the program through \<open>cannot_rw_device\<close>; the number of bytes written is
  not looked at.\<close>

definition write_blocks :: "'w kernel \<Rightarrow> 'w mkfs_env \<Rightarrow> u64 \<Rightarrow> int \<Rightarrow> nilfs_segment_info \<Rightarrow> ('w mkfs, unit) act" where
  "write_blocks k e blocksize fd si =
     bindE (tryE (m_lseek e fd (mi_start_blocknr si * blocksize))) (\<lambda>_.
       foldE (\<lambda>i _.
         bindE (map_disk_buffer k blocksize (mi_start_blocknr si + of_nat i) True) (\<lambda>p.
         bindE (peek p (unat blocksize)) (\<lambda>v.
         bindE (orExit (m_write k fd v)) (\<lambda>_. retE ())))) [0..<unat (mi_nblocks si)] ())"

definition write_super_block :: "'w kernel \<Rightarrow> 'w mkfs_env \<Rightarrow> int \<Rightarrow> u64 \<Rightarrow> ('w mkfs, unit) act" where
  "write_super_block k e fd offset =
     bindE (orExit (m_lseek e fd offset)) (\<lambda>_ s.
       bindE (deref (mk_raw_sb s)) (\<lambda>sb.
       bindE (peek sb NILFS_MAX_SB_SIZE) (\<lambda>v.
       bindE (orExit (m_write k fd v)) (\<lambda>_. retE ()))) s)"

definition write_disk :: "'w kernel \<Rightarrow> 'w mkfs_env \<Rightarrow> mkfs_opts \<Rightarrow> int \<Rightarrow> ('w mkfs, unit) act" where
  "write_disk k e o' fd =
     (if o_nflag o' then retE ()
      else bindE (orExit (erase_disk k e o' fd)) (\<lambda>_.
           bindE (\<lambda>s. foldE (\<lambda>si _. write_blocks k e (o_blocksize o') fd si) (di_seginfo (mk_di s)) () s) (\<lambda>_.
           bindE (orExit (liftW (me_fsync e fd))) (\<lambda>_.
           bindE (write_super_block k e fd NILFS_SB_OFFSET_BYTES) (\<lambda>_.
           bindE (\<lambda>s. write_super_block k e fd (NILFS_SB2_OFFSET_BYTES (di_dev_size (mk_di s))) s) (\<lambda>_.
             orExit (liftW (me_fsync e fd))))))))"

section \<open>Checks before the device is touched\<close>

definition badblocks_path :: string where "badblocks_path = ''/sbin/badblocks''"

definition disk_scan :: "'w kernel \<Rightarrow> 'w mkfs_env \<Rightarrow> mkfs_opts \<Rightarrow> string \<Rightarrow> ('w, unit) act" where
  "disk_scan k e o' device w =
     (case k_stat k badblocks_path w of
        (Inl _, w) \<Rightarrow> (Inr (), w)
      | (Inr _, w) \<Rightarrow>
          (let args = [badblocks_path, ''-b'', show_dec (unat (o_blocksize o'))]
                 @ (if o_quiet o' then [] else [''-s'']) @ (if o_cflag o' > 1 then [''-w''] else []) @ [device]
           in case me_badblocks e args w of
                (Exited 0, w) \<Rightarrow> (Inr (), w)
              | (_, w) \<Rightarrow> (Inl EExit, w)))"

text \<open>
  The dialogue: an answer that starts with \<open>y\<close> is accepted, an empty line, the end of the
  input or the single letter \<open>n\<close> ends the program, anything else asks again. It does not
  end on an input without end that never gives one of these.
\<close>

definition tty_newline :: char where "tty_newline = CHR 0x0A"

partial_function (option) clear_input :: "'w mkfs_env \<Rightarrow> char option \<Rightarrow> 'w \<Rightarrow> 'w option" where
  "clear_input e c_next w =
     (if c_next \<noteq> Some tty_newline \<and> c_next \<noteq> None
      then (let r = me_getchar e w in clear_input e (fst r) (snd r)) else Some w)"

partial_function (option) confirm_loop :: "'w mkfs_env \<Rightarrow> 'w \<Rightarrow> (bool \<times> 'w) option" where
  "confirm_loop e w =
     (let r = me_getchar e w; c = fst r; w = snd r in
      if c = None \<or> c = Some tty_newline then Some (False, w)
      else let r = me_getchar e w; c_next = fst r; w = snd r in
           if \<not> (c_next \<noteq> None \<and> c_next \<noteq> Some tty_newline) \<and> (c = Some CHR ''n'' \<or> c = Some CHR ''N'')
           then Some (False, w)
           else Option.bind (clear_input e c_next w) (\<lambda>w.
                  if c = Some CHR ''y'' \<or> c = Some CHR ''Y'' then Some (True, w) else confirm_loop e w))"

definition confirm_format :: "'w kernel \<Rightarrow> 'w mkfs_env \<Rightarrow> int \<Rightarrow> nat \<Rightarrow> ('w, unit) act" where
  "confirm_format k e fd pr w =
     (case confirm_loop e w of
        None \<Rightarrow> (Inl EHang, w)
      | Some (True, w) \<Rightarrow> (Inr (), me_free_probe e pr w)
      | Some (False, w) \<Rightarrow> (Inl EExit, k_close k fd (me_free_probe e pr w)))"

definition check_safety_of_device_overwrite :: "'w kernel \<Rightarrow> 'w mkfs_env \<Rightarrow> mkfs_opts \<Rightarrow> int \<Rightarrow> string \<Rightarrow> ('w, unit) act" where
  "check_safety_of_device_overwrite k e o' fd device w =
     (if device = [] then (Inr (), w)
      else if o_force_overwrite o' then (Inr (), w)
      else case me_new_probe e device w of
        (Inl _, w) \<Rightarrow> (Inr (), w)
      | (Inr pr, w) \<Rightarrow>
          (case me_probe_size e pr w of (sz, w) \<Rightarrow>
           if sz \<le> 0 then (Inr (), me_free_probe e pr w)
           else case me_probe_partitions e pr w of (ret, w) \<Rightarrow>
           if ret < 0 then (Inr (), me_free_probe e pr w)
           else case me_fullprobe e pr w of (ret, w) \<Rightarrow>
           if ret < 0 then (Inr (), me_free_probe e pr w)
           else if ret = 0
           then (case me_probe_lookup e pr ''TYPE'' w of (found, w) \<Rightarrow>
                 if found then confirm_format k e fd pr w
                 else case me_probe_lookup e pr ''PTTYPE'' w of (found, w) \<Rightarrow>
                 if found then confirm_format k e fd pr w
                 else (Inr (), me_free_probe e pr w))
           else (Inr (), me_free_probe e pr w)))"

section \<open>The program\<close>

text \<open>The state in which the formatting starts.\<close>

definition mkfs_start :: "'w \<Rightarrow> nilfs_disk_info \<Rightarrow> 'w mkfs" where
  "mkfs_start w di =
     \<lparr>mk_w = w, mk_pos = 0, mk_buffer = (\<lambda>_. None), mk_buffer_size = 0, mk_di = di, mk_raw_sb = None, mk_current = 0,
      mk_segref = \<lparr>sf_seq = 0, sf_start_blocknr = 0, sf_free_blocks_count = 0, sf_cno = 0\<rparr>,
      mk_segsum = None, mk_checkpoint = None, mk_super_root = None, mk_files = [],
      mk_next = 0, mk_seq = 0, mk_cno = 0, mk_vblocknr = 0\<rparr>"

definition make_filesystem :: "'w kernel \<Rightarrow> 'w mkfs_env \<Rightarrow> mkfs_opts \<Rightarrow> int \<Rightarrow> nilfs_disk_info \<Rightarrow> ('w mkfs, unit) act" where
  "make_filesystem k e o' fd di =
     bindE (init_disk_buffer k (di_nblocks_to_write di)) (\<lambda>_.
     bindE (read_disk_header k e (o_blocksize o') fd) (\<lambda>_.
     bindE (prepare_super_block k e o' di) (\<lambda>_.
     bindE (init_nilfs di) (\<lambda>_.
     bindE (prepare_segment k (o_blocksize o') 0) (\<lambda>_.
     bindE (nilfs_mkfs_make_rootdir k (o_blocksize o')) (\<lambda>_.
     bindE (nilfs_mkfs_make_reserved_files k (o_blocksize o')) (\<lambda>_.
     bindE (commit_segment k (o_blocksize o')) (\<lambda>_.
     bindE (\<lambda>s. commit_super_block (mk_di s) (mk_segref s) s) (\<lambda>_.
       write_disk k e o' fd)))))))))"

definition mkfs_main :: "'w kernel \<Rightarrow> 'w mnt_env \<Rightarrow> 'w mkfs_env \<Rightarrow> (char \<times> string) list \<Rightarrow> string list \<Rightarrow> ('w, unit) act" where
  "mkfs_main k mt e opts operands =
     bindE (parse_options k e opts operands) (\<lambda>o'.
       let device = hd operands in
       bindE (orExit (k_stat k device)) (\<lambda>st.
       if st_kind st \<noteq> Regular \<and> st_kind st \<noteq> Block then failE EExit
       else bindE (if o_cflag o' > 0 then disk_scan k e o' device else retE ()) (\<lambda>_.
            bindE (orExit (check_mount k mt device)) (\<lambda>mounted.
            if mounted then failE EExit
            else bindE (orExit (k_open k device)) (\<lambda>fd.
                 bindE (check_safety_of_device_overwrite k e o' fd device) (\<lambda>_.
                 bindE (init_disk_layout k e o' fd) (\<lambda>di.
                 bindE (plan_segment (o_blocksize o') di) (\<lambda>di w.
                   case make_filesystem k e o' fd di (mkfs_start w di) of
                     (Inl x, s) \<Rightarrow> (Inl x, mk_w s)
                   | (Inr _, s) \<Rightarrow> (Inr (), k_close k fd (mk_w s))))))))))"

end
