(* ===== verification/Mkfs_Format.thy ===== *)
theory Mkfs_Format
  imports Mkfs
begin

text \<open>
  What the formatting routines of mkfs leave in the disk buffer. The proofs do not follow
  the concrete state but a triple: the set of blocks known to be allocated, the content of
  the blocks (a block that is not allocated yet counts as zeros, which is what its first
  mapping makes of it), and the remaining members of the state. \<open>wpv\<close> is the total
  weakest precondition over such triples; the rules below reduce every routine to the
  stores it makes.
\<close>

section \<open>A weakest precondition for the formatter\<close>

definition content :: "u64 \<Rightarrow> 'w mkfs \<Rightarrow> u64 \<Rightarrow> bytes" where
  "content bs s b = (case mk_buffer s b of Some c \<Rightarrow> c | None \<Rightarrow> replicate (unat bs) 0)"

text \<open>The members other than the buffer and the environment.\<close>

definition ghost :: "'w mkfs \<Rightarrow> 'w mkfs" where
  "ghost s = s\<lparr>mk_buffer := (\<lambda>_. None), mk_w := undefined\<rparr>"

type_synonym blocks = "u64 \<Rightarrow> bytes"

definition store :: "ptr \<Rightarrow> bytes \<Rightarrow> blocks \<Rightarrow> blocks" where
  "store p v V = V(fst p := put_at (snd p) v (V (fst p)))"

locale formatter =
  fixes k :: "'w kernel" and bs :: u64 and dev :: "'w \<Rightarrow> bytes" and d :: bytes
  assumes malloc: "\<And>n w. \<exists>a w'. k_malloc k n w = (Some a, w') \<and> dev w' = dev w"
    and bs: "mkfs_bs bs"
begin

definition rep :: "u64 set \<Rightarrow> blocks \<Rightarrow> 'w mkfs \<Rightarrow> 'w mkfs \<Rightarrow> bool" where
  "rep M V G s \<longleftrightarrow> ghost s = G \<and> content bs s = V \<and> (\<forall>b. length (V b) = unat bs)
     \<and> M \<subseteq> dom (mk_buffer s) \<and> dev (mk_w s) = d"

definition wpv :: "('w mkfs, 'a) act \<Rightarrow> u64 set \<Rightarrow> blocks \<Rightarrow> 'w mkfs \<Rightarrow> ('a \<Rightarrow> u64 set \<Rightarrow> blocks \<Rightarrow> 'w mkfs \<Rightarrow> bool) \<Rightarrow> bool" where
  "wpv m M V G Q \<longleftrightarrow> (\<forall>s. rep M V G s \<longrightarrow>
     (\<exists>x s' M' V' G'. m s = (Inr x, s') \<and> M \<subseteq> M' \<and> rep M' V' G' s' \<and> Q x M' V' G'))"

lemma bs_ge: "1024 \<le> unat bs" "unat bs \<le> 65536" "unat bs mod 1024 = 0" "unat bs mod 4 = 0"
  using bs by (auto simp: mkfs_bs_def)

lemma wpvI:
  "(\<And>s. rep M V G s \<Longrightarrow> \<exists>x s' M' V' G'. m s = (Inr x, s') \<and> M \<subseteq> M' \<and> rep M' V' G' s' \<and> Q x M' V' G') \<Longrightarrow> wpv m M V G Q"
  by (simp add: wpv_def)

lemma wpv_ret: "Q x M V G \<Longrightarrow> wpv (retE x) M V G Q"
  unfolding wpv_def by auto

lemma wpvE:
  assumes "wpv m M V G Q" "rep M V G s"
  obtains x s' M' V' G' where "m s = (Inr x, s')" "M \<subseteq> M'" "rep M' V' G' s'" "Q x M' V' G'"
  using assms unfolding wpv_def by meson

lemma wpv_bind:
  assumes "wpv m M V G (\<lambda>x M V G. wpv (f x) M V G Q)"
  shows "wpv (bindE m f) M V G Q"
proof (rule wpvI)
  fix s assume r: "rep M V G s"
  obtain x s1 M1 V1 G1 where 1: "m s = (Inr x, s1)" "M \<subseteq> M1" "rep M1 V1 G1 s1" "wpv (f x) M1 V1 G1 Q"
    by (rule wpvE [OF assms r])
  obtain y s2 M2 V2 G2 where 2: "f x s1 = (Inr y, s2)" "M1 \<subseteq> M2" "rep M2 V2 G2 s2" "Q y M2 V2 G2"
    by (rule wpvE [OF 1(4,3)])
  have "bindE m f s = (Inr y, s2)" using 1(1) 2(1) by simp
  moreover have "M \<subseteq> M2" using 1(2) 2(2) by (rule order_trans)
  ultimately show "\<exists>x s' M' V' G'. bindE m f s = (Inr x, s') \<and> M \<subseteq> M' \<and> rep M' V' G' s' \<and> Q x M' V' G'"
    using 2(3,4) by blast
qed

lemma wpv_conseq:
  "wpv m M V G Q \<Longrightarrow> (\<And>x M' V' G'. M \<subseteq> M' \<Longrightarrow> Q x M' V' G' \<Longrightarrow> Q' x M' V' G') \<Longrightarrow> wpv m M V G Q'"
  unfolding wpv_def by meson

text \<open>Routines that look at members other than the buffer.\<close>

lemma wpv_cong: "(\<And>s. ghost s = G \<Longrightarrow> m s = m' s) \<Longrightarrow> wpv m' M V G Q \<Longrightarrow> wpv m M V G Q"
  unfolding wpv_def rep_def by metis

lemma ghost_fields:
  assumes "ghost s = G"
  shows "mk_pos s = mk_pos G" "mk_buffer_size s = mk_buffer_size G" "mk_di s = mk_di G" "mk_raw_sb s = mk_raw_sb G"
    "mk_current s = mk_current G" "mk_segref s = mk_segref G" "mk_segsum s = mk_segsum G"
    "mk_checkpoint s = mk_checkpoint G" "mk_super_root s = mk_super_root G" "mk_files s = mk_files G"
    "mk_next s = mk_next G" "mk_seq s = mk_seq G" "mk_cno s = mk_cno G" "mk_vblocknr s = mk_vblocknr G"
    "cur_seg s = cur_seg G"
  using assms by (auto simp: ghost_def cur_seg_def)

lemma wpv_update:
  assumes "\<And>s. ghost s = G \<Longrightarrow> \<exists>s'. m s = (Inr x, s') \<and> mk_buffer s' = mk_buffer s \<and> mk_w s' = mk_w s \<and> ghost s' = G'"
    and "Q x M V G'"
  shows "wpv m M V G Q"
proof (rule wpvI)
  fix s assume r: "rep M V G s"
  then obtain s' where s': "m s = (Inr x, s')" "mk_buffer s' = mk_buffer s" "mk_w s' = mk_w s" "ghost s' = G'"
    using assms(1) [of s] by (auto simp: rep_def)
  then have "content bs s' = content bs s" by (simp add: content_def fun_eq_iff)
  with r s' have "rep M V G' s'" by (simp add: rep_def)
  with s' assms(2) show "\<exists>x s' M' V' G'. m s = (Inr x, s') \<and> M \<subseteq> M' \<and> rep M' V' G' s' \<and> Q x M' V' G'" by blast
qed

lemma wpv_map:
  assumes "b < mk_buffer_size G" "Q (b, 0) (insert b M) V G"
  shows "wpv (map_disk_buffer k bs b True) M V G Q"
proof (rule wpvI)
  fix s assume r: "rep M V G s"
  then have sz: "b < mk_buffer_size s" using assms(1) ghost_fields(2) [of s G] by (simp add: rep_def)
  show "\<exists>x s' M' V' G'. map_disk_buffer k bs b True s = (Inr x, s') \<and> M \<subseteq> M' \<and> rep M' V' G' s' \<and> Q x M' V' G'"
  proof (cases "mk_buffer s b")
    case (Some c)
    then have "rep (insert b M) V G s" using r by (auto simp: rep_def)
    with Some sz assms(2) show ?thesis by (auto simp: map_disk_buffer_def)
  next
    case None
    obtain a w where w: "k_malloc k bs (mk_w s) = (Some a, w)" "dev w = dev (mk_w s)" using malloc by blast
    let ?s = "s\<lparr>mk_w := w, mk_buffer := (mk_buffer s)(b \<mapsto> replicate (unat bs) 0)\<rparr>"
    have "content bs ?s = content bs s" using None by (auto simp: content_def fun_eq_iff)
    moreover have "ghost ?s = ghost s" by (simp add: ghost_def)
    ultimately have "rep (insert b M) V G ?s" using r w by (auto simp: rep_def)
    moreover have "map_disk_buffer k bs b True s = (Inr (b, 0), ?s)"
      using None w sz by (simp add: map_disk_buffer_def)
    ultimately show ?thesis using assms(2) by blast
  qed
qed

lemma wpv_poke:
  assumes "fst p \<in> M" "snd p + length v \<le> unat bs" "Q () M (store p v V) G"
  shows "wpv (poke p v) M V G Q"
proof (rule wpvI)
  fix s assume r: "rep M V G s"
  then obtain c where c: "mk_buffer s (fst p) = Some c" using assms(1) by (auto simp: rep_def)
  then have vc: "V (fst p) = c" using r by (auto simp: rep_def content_def)
  moreover have "length (V (fst p)) = unat bs" using r by (simp add: rep_def)
  ultimately have lc: "length c = unat bs" by simp
  let ?s = "s\<lparr>mk_buffer := (mk_buffer s)(fst p \<mapsto> put_at (snd p) v c)\<rparr>"
  have "content bs ?s = store p v V" using r vc by (auto simp: content_def fun_eq_iff store_def rep_def)
  moreover have "ghost ?s = ghost s" by (simp add: ghost_def)
  ultimately have "rep M (store p v V) G ?s" using r vc lc assms(2) by (auto simp: rep_def store_def)
  moreover have "poke p v s = (Inr (), ?s)" using c lc assms(2) by (simp add: poke_def)
  ultimately show "\<exists>x s' M' V' G'. poke p v s = (Inr x, s') \<and> M \<subseteq> M' \<and> rep M' V' G' s' \<and> Q x M' V' G'"
    using assms(3) by blast
qed

lemma wpv_peek:
  assumes "fst p \<in> M" "snd p + n \<le> unat bs" "Q (take n (drop (snd p) (V (fst p)))) M V G"
  shows "wpv (peek p n) M V G Q"
proof (rule wpvI)
  fix s assume r: "rep M V G s"
  then obtain c where c: "mk_buffer s (fst p) = Some c" using assms(1) by (auto simp: rep_def)
  then have vc: "V (fst p) = c" using r by (auto simp: rep_def content_def)
  moreover have "length (V (fst p)) = unat bs" using r by (simp add: rep_def)
  ultimately have lc: "length c = unat bs" by simp
  have "peek p n s = (Inr (take n (drop (snd p) (V (fst p)))), s)" using c vc lc assms(2) by (simp add: peek_def)
  then show "\<exists>x s' M' V' G'. peek p n s = (Inr x, s') \<and> M \<subseteq> M' \<and> rep M' V' G' s' \<and> Q x M' V' G'"
    using assms(3) r by blast
qed

lemma wpv_bind_ret:
  assumes "wpv m M V G (\<lambda>x. Q (f x))"
  shows "wpv (bindE m (\<lambda>x. retE (f x))) M V G Q"
  by (rule wpv_bind, rule wpv_conseq [OF assms]) (rule wpv_ret)

lemma wpv_fold1:
  assumes "wpv (f a x) M V G Q"
  shows "wpv (foldE f [a] x) M V G Q"
  unfolding foldE.simps(2)
proof (rule wpv_bind, rule wpv_conseq [OF assms])
  fix y M' V' G' assume "Q y M' V' G'"
  then show "wpv (foldE f [] y) M' V' G' Q" unfolding foldE.simps(1) by (rule wpv_ret)
qed

lemma wpv_poke_bind:
  "fst p \<in> M \<Longrightarrow> snd p + length v \<le> unat bs \<Longrightarrow> wpv (f ()) M (store p v V) G Q \<Longrightarrow> wpv (bindE (poke p v) f) M V G Q"
  by (rule wpv_bind, rule wpv_poke)

lemma wpv_map_bind:
  "b < mk_buffer_size G \<Longrightarrow> wpv (f (b, 0)) (insert b M) V G Q \<Longrightarrow> wpv (bindE (map_disk_buffer k bs b True) f) M V G Q"
  by (rule wpv_bind, rule wpv_map)

lemma wpv_peek_bind:
  "fst p \<in> M \<Longrightarrow> snd p + n \<le> unat bs \<Longrightarrow> wpv (f (take n (drop (snd p) (V (fst p))))) M V G Q \<Longrightarrow> wpv (bindE (peek p n) f) M V G Q"
  by (rule wpv_bind, rule wpv_peek)

lemma wpv_fold:
  assumes "\<And>i x M' V' G'. m \<le> i \<Longrightarrow> i < n \<Longrightarrow> M \<subseteq> M' \<Longrightarrow> I i x M' V' G' \<Longrightarrow> wpv (f i x) M' V' G' (I (Suc i))"
    and "m \<le> n" "I m x M V G" "\<And>x M' V' G'. M \<subseteq> M' \<Longrightarrow> I n x M' V' G' \<Longrightarrow> Q x M' V' G'"
  shows "wpv (foldE f [m..<n] x) M V G Q"
proof -
  have "wpv (foldE f [n - j..<n] x) M' V' G' Q" if "j \<le> n - m" "I (n - j) x M' V' G'" "M \<subseteq> M'" for j x M' V' G'
    using that
  proof (induction j arbitrary: x M' V' G')
    case 0
    then have "Q x M' V' G'" using assms(4) by simp
    then have "wpv (retE x) M' V' G' Q" by (rule wpv_ret)
    moreover have "foldE f [n - 0..<n] x = retE x" by simp
    ultimately show ?case by (simp only:)
  next
    case (Suc j)
    have u: "[n - Suc j..<n] = (n - Suc j) # [n - j..<n]"
      using Suc.prems(1) by (subst upt_conv_Cons) (auto simp: Suc_diff_Suc)
    show ?case unfolding u foldE.simps
    proof (rule wpv_bind, rule wpv_conseq [OF assms(1)])
      show "m \<le> n - Suc j" "n - Suc j < n" using Suc.prems(1) by auto
      show "I (n - Suc j) x M' V' G'" "M \<subseteq> M'" using Suc.prems by auto
      fix x1 M1 V1 G1 assume "M' \<subseteq> M1" and "I (Suc (n - Suc j)) x1 M1 V1 G1"
      then show "wpv (foldE f [n - j..<n] x1) M1 V1 G1 Q"
        using Suc by (auto simp: Suc_diff_Suc)
    qed
  qed
  from this [of "n - m" x M V G] assms(2,3) show ?thesis by simp
qed

end

section \<open>Stores and what they leave\<close>

text \<open>The bytes \<open>v\<close> stand at an offset of a block.\<close>

definition has :: "blocks \<Rightarrow> u64 \<Rightarrow> nat \<Rightarrow> bytes \<Rightarrow> bool" where
  "has V b off v \<longleftrightarrow> take (length v) (drop off (V b)) = v"

text \<open>Nothing but the bytes of a footprint has changed.\<close>

definition keep :: "(u64 \<times> nat) set \<Rightarrow> blocks \<Rightarrow> blocks \<Rightarrow> bool" where
  "keep F V V' \<longleftrightarrow> (\<forall>b. length (V' b) = length (V b)) \<and> (\<forall>b i. (b, i) \<notin> F \<longrightarrow> V' b ! i = V b ! i)"

lemma keep_refl [simp]: "keep F V V"
  by (simp add: keep_def)

lemma keep_trans: "keep F V V' \<Longrightarrow> keep F' V' V'' \<Longrightarrow> keep (F \<union> F') V V''"
  by (simp add: keep_def)

lemma keep_mono: "keep F V V' \<Longrightarrow> F \<subseteq> F' \<Longrightarrow> keep F' V V'"
  by (auto simp: keep_def)

lemma keep_chain: "keep F V V' \<Longrightarrow> keep F' V' V'' \<Longrightarrow> F \<union> F' \<subseteq> H \<Longrightarrow> keep H V V''"
  by (blast intro: keep_mono keep_trans)

lemma keep_length: "keep F V V' \<Longrightarrow> length (V' b) = length (V b)"
  by (simp add: keep_def)

lemma keep_store:
  "off + length v \<le> length (V b) \<Longrightarrow> {b} \<times> {off..<off + length v} \<subseteq> F \<Longrightarrow> keep F V (store (b, off) v V)"
  unfolding keep_def store_def
  by (auto simp: nth_put_at subset_iff)

lemma has_store: "off + length v \<le> length (V b) \<Longrightarrow> has (store (b, off) v V) b off v"
  by (simp add: has_def store_def take_drop_put_at_same)

lemma has_keep:
  assumes "has V b off v" "keep F V V'" "\<And>i. off \<le> i \<Longrightarrow> i < off + length v \<Longrightarrow> (b, i) \<notin> F"
    "off + length v \<le> length (V b)"
  shows "has V' b off v"
proof -
  have l: "length (V' b) = length (V b)" using assms(2) by (simp add: keep_def)
  have "V' b ! (off + i) = V b ! (off + i)" if "i < length v" for i
    using assms(2) assms(3) [of "off + i"] that by (simp add: keep_def)
  then have "take (length v) (drop off (V' b)) = take (length v) (drop off (V b))"
    using assms(4) l by (intro nth_equalityI) simp_all
  then show ?thesis using assms(1) by (simp add: has_def)
qed

lemma keep_block: "keep F V V' \<Longrightarrow> (\<And>i. (b, i) \<notin> F) \<Longrightarrow> V' b = V b"
  by (intro nth_equalityI) (auto simp: keep_def)

lemma has_rd: "has V b off v \<Longrightarrow> n = length v \<Longrightarrow> rd n (V b) off = le_nat v"
  by (simp add: has_def rd_def)

lemma length_le [simp]: "length (le16 x) = 2" "length (le32 y) = 4" "length (le64 z) = 8"
  by (simp_all add: le16_def le32_def le64_def)

lemma unat_lt_u16: "unat (x :: u16) < 2 ^ 16"
  using unsigned_less [of x, where ?'a = nat] by simp

lemma le_nat_le [simp]: "le_nat (le16 x) = unat x" "le_nat (le32 y) = unat y" "le_nat (le64 z) = unat z"
  using unat_lt_u16 [of x] unat_lt_u32 [of y] unat_lt_u64 [of z]
  by (simp_all add: le16_def le32_def le64_def)

lemma has_le64: "has V b off (le64 x) \<Longrightarrow> le64_at (V b) off = x"
  by (simp add: le64_at_def has_rd)

lemma has_le32: "has V b off (le32 x) \<Longrightarrow> le32_at (V b) off = x"
  by (simp add: le32_at_def has_rd)

lemma has_le16: "has V b off (le16 x) \<Longrightarrow> le16_at (V b) off = x"
  by (simp add: le16_at_def has_rd)

section \<open>The members beside the buffer\<close>

definition fidx :: "nat option list" where
  "fidx = [None, Some 2, Some 0, Some 9, Some 7, Some 8, Some 6, Some 1, Some 3, Some 4, Some 5]"

definition files_raw :: "u64 \<Rightarrow> (nat \<Rightarrow> ptr option) \<Rightarrow> nilfs_file_info list" where
  "files_raw bs rs = map (\<lambda>j. (planned_files bs ! j)\<lparr>mf_raw_inode := rs j\<rparr>) [0..<10]"

definition seg_raw :: "u64 \<Rightarrow> (nat \<Rightarrow> ptr option) \<Rightarrow> nilfs_segment_info" where
  "seg_raw bs rs = (planned_segment bs)\<lparr>mi_files := files_raw bs rs\<rparr>"

definition di_raw :: "u64 \<Rightarrow> nilfs_disk_info \<Rightarrow> (nat \<Rightarrow> ptr option) \<Rightarrow> nilfs_disk_info" where
  "di_raw bs di rs = (planned bs di)\<lparr>di_seginfo := [seg_raw bs rs]\<rparr>"

definition last_block :: "u64 \<Rightarrow> u64" where
  "last_block bs = first_block bs + ucast (ifile_blocks bs) + 7"

definition gok :: "u64 \<Rightarrow> nilfs_disk_info \<Rightarrow> (nat \<Rightarrow> ptr option) \<Rightarrow> 'w mkfs \<Rightarrow> bool" where
  "gok bs di rs G \<longleftrightarrow> mk_di G = di_raw bs di rs \<and> mk_current G = 0 \<and> mk_files G = fidx
     \<and> mk_buffer_size G = last_block bs + 1 \<and> mk_cno G = 1 \<and> mk_seq G = 0 \<and> mk_next G = di_blocks_per_segment di"

lemma index_planned: "index_files (planned_files bs) = fidx"
  by (simp add: index_files_def planned_files_def Let_def NILFS_MAX_INITIAL_INO_def NILFS_USER_INO_def fidx_def
      enumerate_eq_zip upt_rec) (simp add: numeral_eq_Suc)

lemma length_planned: "length (planned_files bs) = 10"
  by (simp add: planned_files_def Let_def)

lemma files_raw_None: "files_raw bs (\<lambda>_. None) = planned_files bs"
proof -
  have "\<forall>j < 10. (planned_files bs ! j)\<lparr>mf_raw_inode := None\<rparr> = planned_files bs ! j"
    by (simp add: planned_files_def Let_def numeral_eq_Suc All_less_Suc)
  then show ?thesis unfolding files_raw_def by (intro nth_equalityI) (simp_all add: length_planned)
qed

lemma files_raw_nth: "j < 10 \<Longrightarrow> files_raw bs rs ! j = (planned_files bs ! j)\<lparr>mf_raw_inode := rs j\<rparr>"
  by (simp add: files_raw_def)

lemma files_raw_update:
  "j < 10 \<Longrightarrow> (files_raw bs rs)[j := (files_raw bs rs ! j)\<lparr>mf_raw_inode := q\<rparr>] = files_raw bs (rs(j := q))"
  by (intro nth_equalityI) (auto simp: files_raw_def nth_list_update)

lemma gok_cur: "gok bs di rs G \<Longrightarrow> cur_seg G = seg_raw bs rs"
  by (simp add: gok_def cur_seg_def di_raw_def)

context formatter
begin

lemma wpv_file_index:
  assumes "gok bs di rs G" "fidx ! unat ino = Some j" "Q j M V G"
  shows "wpv (file_index ino) M V G Q"
proof (rule wpv_cong)
  fix s assume g: "ghost s = G"
  show "file_index ino s = retE j s"
    using assms(1,2) by (simp add: file_index_def gok_def deref_def ghost_fields(10) [OF g])
qed (rule wpv_ret, rule assms(3))

lemma wpv_get_file:
  assumes "gok bs di rs G" "fidx ! unat ino = Some j" "Q (files_raw bs rs ! j) M V G"
  shows "wpv (get_file ino) M V G Q"
  unfolding get_file_def
proof (rule wpv_bind, rule wpv_file_index [OF assms(1,2)], rule wpv_cong)
  fix s assume g: "ghost s = G"
  show "(Inr (mi_files (cur_seg s) ! j), s) = retE (files_raw bs rs ! j) s"
    by (simp add: ghost_fields(15) [OF g] gok_cur [OF assms(1)] seg_raw_def)
qed (rule wpv_ret, rule assms(3))

lemma wpv_get_raw_inode:
  assumes "gok bs di rs G" "fidx ! unat ino = Some j" "j < 10" "rs j = Some p" "Q p M V G"
  shows "wpv (get_raw_inode ino) M V G Q"
  unfolding get_raw_inode_def
proof (rule wpv_bind, rule wpv_get_file [OF assms(1,2)])
  have e: "deref (mf_raw_inode (files_raw bs rs ! j)) = (retE p :: ('w mkfs, ptr) act)"
    using assms(3,4) by (simp add: files_raw_nth deref_def)
  show "wpv (deref (mf_raw_inode (files_raw bs rs ! j))) M V G Q"
    unfolding e by (rule wpv_ret, rule assms(5))
qed

lemma wpv_set_raw_inode:
  assumes "gok bs di rs G" "fidx ! unat ino = Some j" "j < 10"
    "Q () M V (G\<lparr>mk_di := di_raw bs di (rs(j := Some p))\<rparr>)"
  shows "wpv (set_raw_inode ino p) M V G Q"
  unfolding set_raw_inode_def
proof (rule wpv_bind, rule wpv_file_index [OF assms(1,2)], rule wpv_update)
  fix s assume g: "ghost s = G"
  let ?di = "di_raw bs di (rs(j := Some p))"
  have e: "?di = (di_raw bs di rs)\<lparr>di_seginfo :=
      [(seg_raw bs rs)\<lparr>mi_files := (files_raw bs rs)[j := (files_raw bs rs ! j)\<lparr>mf_raw_inode := Some p\<rparr>]\<rparr>]\<rparr>"
    using assms(3) by (simp add: di_raw_def seg_raw_def files_raw_update)
  have s: "mk_di s = di_raw bs di rs" "mk_current s = 0" using assms(1) ghost_fields [OF g] by (simp_all add: gok_def)
  have si: "di_seginfo (di_raw bs di rs) = [seg_raw bs rs]" "mi_files (seg_raw bs rs) = files_raw bs rs"
    by (simp_all add: di_raw_def seg_raw_def)
  have "(let di = mk_di s; c = mk_current s; si = di_seginfo di ! c;
           fis = (mi_files si)[j := (mi_files si ! j)\<lparr>mf_raw_inode := Some p\<rparr>]
       in (Inr (), s\<lparr>mk_di := di\<lparr>di_seginfo := (di_seginfo di)[c := si\<lparr>mi_files := fis\<rparr>]\<rparr>\<rparr>)) = (Inr (), s\<lparr>mk_di := ?di\<rparr>)"
    unfolding e by (simp add: Let_def s si)
  moreover have "ghost (s\<lparr>mk_di := ?di\<rparr>) = G\<lparr>mk_di := ?di\<rparr>" using g by (auto simp: ghost_def)
  ultimately show "\<exists>s'. (let di = mk_di s; c = mk_current s; si = di_seginfo di ! c;
           fis = (mi_files si)[j := (mi_files si ! j)\<lparr>mf_raw_inode := Some p\<rparr>]
       in (Inr (), s\<lparr>mk_di := di\<lparr>di_seginfo := (di_seginfo di)[c := si\<lparr>mi_files := fis\<rparr>]\<rparr>\<rparr>)) = (Inr (), s')
     \<and> mk_buffer s' = mk_buffer s \<and> mk_w s' = mk_w s \<and> ghost s' = G\<lparr>mk_di := ?di\<rparr>"
    by (intro exI [of _ "s\<lparr>mk_di := ?di\<rparr>"]) simp
qed (rule assms(4))

end

section \<open>Block-grouped files\<close>

lemma set_bit_bits: "nr < 8 * length a \<Longrightarrow> bits_of (snd (ext2fs_set_bit nr a)) = insert nr (bits_of a)"
  by (auto simp: bits_of_def ext2fs_set_bit_def Let_def nth_list_update bit_or_iff
        dest: div_mod_8_eq split: if_splits)

lemma test_bit_bits: "nr < 8 * length a \<Longrightarrow> ext2fs_test_bit nr a \<noteq> 0 \<longleftrightarrow> nr \<in> bits_of a"
  by (simp add: ext2fs_test_bit_def Let_def bit_mask_and_nonzero bits_of_def)

lemma length_set_bit [simp]: "length (snd (ext2fs_set_bit nr a)) = length a"
  by (simp add: ext2fs_set_bit_def Let_def)

lemma bits_of_zeros: "bits_of (replicate n 0) = {}"
  by (auto simp: bits_of_def)

text \<open>
  The first \<open>n\<close> entries of the file's first group are allocated: their bits are set, and
  the descriptor counts the others as free.
\<close>

definition grp :: "u64 \<Rightarrow> blocks \<Rightarrow> u64 \<Rightarrow> nat \<Rightarrow> bool" where
  "grp bs V b n \<longleftrightarrow> bits_of (V (b + 1)) = {..<n} \<and> has V b 0 (le32 (of_nat (8 * unat bs - n)))"

lemma grp_keep:
  assumes "grp bs V b n" "keep F V V'" "\<And>i. (b + 1, i) \<notin> F" "\<And>i. i < 4 \<Longrightarrow> (b, i) \<notin> F" "4 \<le> length (V b)"
  shows "grp bs V' b n"
proof -
  have "V' (b + 1) = V (b + 1)" using assms(2,3) by (rule keep_block)
  moreover have "has V' b 0 (le32 (of_nat (8 * unat bs - n)))"
    using assms(1) by (intro has_keep [OF _ assms(2)]) (simp_all add: grp_def assms(4,5))
  ultimately show ?thesis using assms(1) by (simp add: grp_def)
qed

context formatter
begin

lemma wpv_len: "((\<And>b. length (V b) = unat bs) \<Longrightarrow> wpv m M V G Q) \<Longrightarrow> wpv m M V G Q"
  unfolding wpv_def rep_def by blast

lemma keep_poke:
  assumes "\<And>b. length (V b) = unat bs" "snd p + length v \<le> unat bs" "{fst p} \<times> {snd p..<snd p + length v} \<subseteq> F"
  shows "keep F V (store p v V)"
  using keep_store [of "snd p" v V "fst p" F] assms by simp

lemma wpv_alloc:
  assumes sz: "b < mk_buffer_size G" "b + 1 < mk_buffer_size G" and g: "grp bs V b n"
    and n: "unat nr = n" "n < 8 * unat bs"
    and Q: "\<And>M' V'. M \<subseteq> M' \<Longrightarrow> keep ({b} \<times> {0..<4} \<union> {b + 1} \<times> UNIV) V V' \<Longrightarrow> grp bs V' b (Suc n) \<Longrightarrow> Q () M' V' G"
  shows "wpv (alloc_blockgrouped_file_entry k bs b nr) M V G Q"
proof (rule wpv_len)
  assume l: "\<And>c. length (V c) = unat bs"
  let ?bits = "V (b + 1)"
  let ?V1 = "store (b + 1, 0) (snd (ext2fs_set_bit n ?bits)) V"
  let ?c = "of_nat (8 * unat bs - n) :: u32"
  let ?V2 = "store (b, 0) (le32 (?c - 1)) ?V1"
  have ne: "b \<noteq> b + 1" by simp
  have b: "bits_of ?bits = {..<n}" and hd: "has V b 0 (le32 ?c)" using g by (simp_all add: grp_def)
  have nin: "\<not> ext2fs_test_bit n ?bits \<noteq> 0" using test_bit_bits [of n ?bits] b l n by auto
  have cpos: "?c \<noteq> 0" and cm: "?c - 1 = of_nat (8 * unat bs - Suc n)"
  proof -
    have u: "unat ?c = 8 * unat bs - n" using bs_ge by (simp add: unat_of_nat)
    then show "?c \<noteq> 0" using n by (metis diff_is_0_eq leD unat_0)
    have "8 * unat bs - n = Suc (8 * unat bs - Suc n)" using n by simp
    then show "?c - 1 = of_nat (8 * unat bs - Suc n)" by simp
  qed
  have l1: "length (?V1 c) = unat bs" for c using l by (simp add: store_def)
  have k1: "keep ({b + 1} \<times> UNIV) V ?V1" by (rule keep_poke [OF l]) (auto simp: l)
  have k2: "keep ({b} \<times> {0..<4}) ?V1 ?V2" using bs_ge by (intro keep_poke [OF l1]) simp_all
  have kk: "keep ({b} \<times> {0..<4} \<union> {b + 1} \<times> UNIV) V ?V2" using keep_trans [OF k1 k2] by (simp add: Un_commute)
  have V1b: "?V1 b = V b" using ne by (simp add: store_def)
  have rd: "le32_at (take 4 (drop 0 (?V1 b))) 0 = ?c"
    using hd by (simp add: V1b has_def le32_at_def rd_def)
  have "?V2 (b + 1) = snd (ext2fs_set_bit n ?bits)" using ne l by (auto simp: store_def put_at_def)
  then have "bits_of (?V2 (b + 1)) = {..<Suc n}" using set_bit_bits [of n ?bits] b n l by auto
  moreover have "has ?V2 b 0 (le32 (of_nat (8 * unat bs - Suc n)))"
    using has_store [of 0 "le32 (?c - 1)" ?V1 b] l1 bs_ge cm by simp
  ultimately have g2: "grp bs ?V2 b (Suc n)" by (simp add: grp_def)
  show "wpv (alloc_blockgrouped_file_entry k bs b nr) M V G Q"
    unfolding alloc_blockgrouped_file_entry_def
  proof (rule wpv_bind, rule wpv_map [OF sz(1)], rule wpv_bind, rule wpv_map [OF sz(2)], rule wpv_bind, rule wpv_peek)
    let ?M = "insert (b + 1) (insert b M)"
    have "Q () ?M ?V2 G" by (rule Q [OF _ kk g2]) blast
    then have "wpv (poke (b, 0) (le32 (?c - 1))) ?M ?V1 G Q" using bs_ge by (intro wpv_poke) simp_all
    then have "wpv (bindE (peek (b, 0) 4) (\<lambda>d. if le32_at d 0 = 0 then failE EAbort else poke (b, 0) (le32 (le32_at d 0 - 1))))
        ?M ?V1 G Q"
      using bs_ge rd cpos by (intro wpv_bind wpv_peek) simp_all
    then have "wpv (bindE (poke (b + 1, 0) (snd (ext2fs_set_bit n ?bits))) (\<lambda>_. bindE (peek (b, 0) 4)
        (\<lambda>d. if le32_at d 0 = 0 then failE EAbort else poke (b, 0) (le32 (le32_at d 0 - 1))))) ?M V G Q"
      by (rule wpv_bind [OF wpv_poke, rotated 2]) (simp_all add: l)
    then show "wpv (if ext2fs_test_bit (unat nr) (take (unat bs) (drop (snd (b + 1, 0)) (V (fst (b + 1, 0))))) \<noteq> 0
        then failE EExit
        else bindE (poke (b + 1, 0) (snd (ext2fs_set_bit (unat nr) (take (unat bs) (drop (snd (b + 1, 0)) (V (fst (b + 1, 0)))))))) (\<lambda>_.
             bindE (peek (b, 0) 4) (\<lambda>d. if le32_at d 0 = 0 then failE EAbort else poke (b, 0) (le32 (le32_at d 0 - 1))))) ?M V G Q"
      using nin l n(1) by simp
  qed simp_all
qed

lemma padd_simps [simp]: "fst (padd p n) = fst p" "snd (padd p n) = snd p + n"
  by (simp_all add: padd_def)

lemma keep_more:
  assumes "keep F V V'" "\<And>b. length (V b) = unat bs" "snd p + length v \<le> unat bs"
    "{fst p} \<times> {snd p..<snd p + length v} \<subseteq> F"
  shows "keep F V (store p v V')"
proof -
  have "keep F V' (store p v V')" using assms by (intro keep_poke) (simp_all add: keep_def)
  then show ?thesis using keep_chain [OF assms(1), of F _ F] by simp
qed

lemma keep_more_block:
  assumes "keep ({b} \<times> {lo..<hi}) V V'" "\<And>b. length (V b) = unat bs"
    "fst p = b" "lo \<le> snd p" "snd p + length v \<le> hi" "hi \<le> unat bs"
  shows "keep ({b} \<times> {lo..<hi}) V (store p v V')"
  using assms by (intro keep_more) auto

lemma wpv_prepare_blockgrouped:
  assumes sz: "b < mk_buffer_size G" "b + 1 < mk_buffer_size G" and z: "V (b + 1) = replicate (unat bs) 0"
    and Q: "\<And>M' V'. M \<subseteq> M' \<Longrightarrow> keep ({b} \<times> UNIV) V V' \<Longrightarrow> grp bs V' b 0 \<Longrightarrow> Q () M' V' G"
  shows "wpv (prepare_blockgrouped_file k bs b) M V G Q"
proof (rule wpv_len)
  assume l: "\<And>c. length (V c) = unat bs"
  have c: "ucast (bs * 8) = (of_nat (8 * unat bs - 0) :: u32)" using bs by (auto simp: mkfs_bs_def)
  have n: "unat (bs div ucast sizeof_group_desc) = unat bs div 4" by (simp add: sizeof_group_desc_def unat_div)
  let ?I = "\<lambda>i x M' V' G'. M \<subseteq> M' \<and> b \<in> M' \<and> G' = G \<and> keep ({b} \<times> UNIV) V V' \<and> (0 < i \<longrightarrow> has V' b 0 (le32 (of_nat (8 * unat bs - 0))))"
  have loop: "wpv (foldE (\<lambda>i _. poke (padd (b, 0) (4 * i)) (le32 (ucast (bs * 8)))) [0..<unat bs div 4] ()) (insert b M) V G
      (\<lambda>_ M V G. wpv (bindE (map_disk_buffer k bs (b + 1) True) (\<lambda>_. retE ())) M V G Q)"
  proof (rule wpv_fold [where I = ?I])
    fix i x M' V' G' assume i: "i < unat bs div 4" and I: "?I i x M' V' G'"
    have l': "length (V' c) = unat bs" for c using I l by (simp add: keep_def)
    have i4: "4 * i + 4 \<le> unat bs" using i by simp
    let ?V = "store (b, 4 * i) (le32 (of_nat (8 * unat bs - 0))) V'"
    have "keep ({b} \<times> UNIV) V ?V" using I i4 by (intro keep_more [OF _ l]) auto
    moreover have "has ?V b 0 (le32 (of_nat (8 * unat bs - 0)))"
    proof (cases i)
      case 0
      then show ?thesis using has_store [of 0 "le32 (of_nat (8 * unat bs - 0))" V' b] l' i4 by simp
    next
      case (Suc j)
      have "keep ({b} \<times> {4 * i..<4 * i + 4}) V' ?V" using i4 by (intro keep_poke [OF l']) auto
      then show ?thesis using I Suc l' bs_ge by (auto intro!: has_keep [of V' b 0 _ "{b} \<times> {4 * i..<4 * i + 4}"])
    qed
    ultimately show "wpv (poke (padd (b, 0) (4 * i)) (le32 (ucast (bs * 8)))) M' V' G' (?I (Suc i))"
      using I i4 unfolding c by (intro wpv_poke) (auto simp: padd_def)
  next
    fix x M' V' G' assume I: "?I (unat bs div 4) x M' V' G'"
    then have "V' (b + 1) = replicate (unat bs) 0" using keep_block [of "{b} \<times> UNIV" V V' "b + 1"] z by simp
    then have "grp bs V' b 0" using I bs_ge by (simp add: grp_def bits_of_zeros)
    then have "Q () (insert (b + 1) M') V' G" using I by (intro Q) auto
    then show "wpv (bindE (map_disk_buffer k bs (b + 1) True) (\<lambda>_. retE ())) M' V' G' Q"
      using I sz by (intro wpv_bind wpv_map wpv_ret) simp_all
  qed (use l in auto)
  show "wpv (prepare_blockgrouped_file k bs b) M V G Q"
    unfolding prepare_blockgrouped_file_def Let_def n
    by (rule wpv_bind, rule wpv_map [OF sz(1)], rule wpv_bind, rule loop)
qed

lemma wpv_ctime:
  assumes "wpv (f (di_ctime (mk_di G))) M V G Q"
  shows "wpv (\<lambda>s. let ctime = di_ctime (mk_di s) in f ctime s) M V G Q"
proof (rule wpv_cong [OF _ assms])
  fix s assume g: "ghost s = G"
  show "(let ctime = di_ctime (mk_di s) in f ctime s) = f (di_ctime (mk_di G)) s" by (simp add: ghost_fields(3) [OF g])
qed

lemma wpv_init_inode:
  assumes g: "gok bs di rs G" "fidx ! unat ino = Some j" "j < 10" "rs j = Some p" and ino: "ino < NILFS_USER_INO"
    and p: "fst p \<in> M" "snd p + 128 \<le> unat bs"
    and Q: "\<And>V'. keep ({fst p} \<times> {snd p..<snd p + 56}) V V' \<Longrightarrow> Q () M V' G"
  shows "wpv (init_inode k bs ino ty md sz) M V G Q"
proof (rule wpv_len)
  assume l: "\<And>c. length (V c) = unat bs"
  have e: "\<not> NILFS_USER_INO \<le> ino" using ino by simp
  show "wpv (init_inode k bs ino ty md sz) M V G Q"
    unfolding init_inode_def if_not_P [OF e]
    by (rule wpv_bind, rule wpv_get_file [OF g(1,2)], rule wpv_bind, rule wpv_get_raw_inode [OF g], rule wpv_ctime)
      (use p l in \<open>intro wpv_bind wpv_poke wpv_ret Q keep_more_block; simp\<close>)
qed

end

section \<open>The blocks of the log\<close>

definition bI :: "u64 \<Rightarrow> u64" where "bI bs = first_block bs + 2"
definition bC :: "u64 \<Rightarrow> u64" where "bC bs = first_block bs + 2 + ucast (ifile_blocks bs)"
definition bS :: "u64 \<Rightarrow> u64" where "bS bs = first_block bs + 3 + ucast (ifile_blocks bs)"
definition bD :: "u64 \<Rightarrow> u64" where "bD bs = first_block bs + 4 + ucast (ifile_blocks bs)"

lemmas block_defs = bI_def bC_def bS_def bD_def last_block_def first_block_def ifile_blocks_def

lemma log_blocks_distinct:
  assumes "mkfs_bs bs"
  shows "distinct [first_block bs, first_block bs + 1, bI bs, bI bs + 1, bI bs + 2, bC bs, bS bs, bD bs, bD bs + 1, bD bs + 2, last_block bs]"
  using assms unfolding mkfs_bs_def by (elim disjE; simp add: block_defs)

lemma log_blocks_less:
  assumes "mkfs_bs bs" "b \<in> set [first_block bs, first_block bs + 1, bI bs, bI bs + 1, bI bs + 2, bC bs, bS bs, bD bs, bD bs + 1, bD bs + 2, last_block bs]"
  shows "b < last_block bs + 1"
  using assms unfolding mkfs_bs_def by (elim disjE; auto simp: block_defs)

text \<open>The place of an inode in the ifile, eight inodes to a block of 1 KiB.\<close>

definition inode_ptr :: "u64 \<Rightarrow> nat \<Rightarrow> ptr" where
  "inode_ptr bs ino = (bI bs + 2 + of_nat (128 * ino div unat bs), 128 * ino mod unat bs)"

lemma inode_ptr_cases:
  assumes "mkfs_bs bs" "ino < 11"
  shows "inode_ptr bs ino = (if bs = 1024 \<and> 8 \<le> ino then (bI bs + 3, 128 * (ino - 8)) else (bI bs + 2, 128 * ino))"
proof -
  have "ino \<in> {0, 1, 2, 3, 4, 5, 6, 7, 8, 9, 10}" using assms(2) by (simp, presburger)
  then show ?thesis using assms(1) unfolding mkfs_bs_def by (elim disjE; auto simp: inode_ptr_def)
qed

lemma inode_block:
  assumes "mkfs_bs bs" "ino < 11"
  shows "fst (inode_ptr bs ino) \<notin> set [first_block bs, first_block bs + 1, bI bs, bI bs + 1, bC bs, bS bs, bD bs, bD bs + 1, bD bs + 2, last_block bs]"
    "fst (inode_ptr bs ino) < last_block bs + 1" "snd (inode_ptr bs ino) + 128 \<le> unat bs"
proof -
  have i: "bs = 1024 \<Longrightarrow> 8 \<le> ino \<Longrightarrow> 128 * (ino - 8) + 128 \<le> 1024" using assms(2) by simp
  have "\<not> (bs = 1024 \<and> 8 \<le> ino) \<Longrightarrow> 128 * ino + 128 \<le> unat bs"
    using assms unfolding mkfs_bs_def by (elim disjE; simp)
  with i show "snd (inode_ptr bs ino) + 128 \<le> unat bs" by (auto simp: inode_ptr_cases [OF assms])
  show "fst (inode_ptr bs ino) \<notin> set [first_block bs, first_block bs + 1, bI bs, bI bs + 1, bC bs, bS bs, bD bs, bD bs + 1, bD bs + 2, last_block bs]"
    using assms(1) unfolding inode_ptr_cases [OF assms] mkfs_bs_def by (elim disjE; simp add: block_defs)
  show "fst (inode_ptr bs ino) < last_block bs + 1"
    using assms(1) unfolding inode_ptr_cases [OF assms] mkfs_bs_def by (elim disjE; simp add: block_defs)
qed

section \<open>Sequences of stores\<close>

lemma padd_pair [simp]: "padd (b, off) n = (b, off + n)"
  by (simp add: padd_def)

lemma length_store [simp]:
  "off + length v \<le> length (V b) \<Longrightarrow> length (store (b, off) v V c) = length (V c)"
  by (simp add: store_def)

lemma has_store_other:
  assumes "b \<noteq> b' \<or> off + length v \<le> off' \<or> off' + length v' \<le> off" "off' + length v' \<le> length (V b')"
  shows "has (store (b', off') v' V) b off v = has V b off v"
  using assms
  by (cases "b = b'") (auto simp: has_def store_def take_drop_put_at_before take_drop_put_at_after)

text \<open>A run of stores into one block whose ranges are disjoint.\<close>

definition stores :: "u64 \<Rightarrow> (nat \<times> bytes) list \<Rightarrow> blocks \<Rightarrow> blocks" where
  "stores b ps V = foldl (\<lambda>V (off, v). store (b, off) v V) V ps"

definition apart :: "(nat \<times> bytes) list \<Rightarrow> bool" where
  "apart ps \<longleftrightarrow> sorted_wrt (\<lambda>(off, v) (off', v'). off + length v \<le> off' \<or> off' + length v' \<le> off) ps"

lemma stores_simps: "stores b [] V = V" "stores b ((off, v) # ps) V = stores b ps (store (b, off) v V)"
  by (simp_all add: stores_def)

lemma stores_snoc: "stores b (ps @ [(off, v)]) V = store (b, off) v (stores b ps V)"
  by (simp add: stores_def)

lemma has_stores:
  assumes "apart ps" "\<And>off v. (off, v) \<in> set ps \<Longrightarrow> off + length v \<le> length (V b)"
  shows "(\<forall>(off, v) \<in> set ps. has (stores b ps V) b off v) \<and> (\<forall>c. length (stores b ps V c) = length (V c))"
  using assms
proof (induction ps rule: rev_induct)
  case (snoc p ps)
  obtain off v where p: "p = (off, v)" by (cases p)
  have ap: "apart ps" "\<And>o1 v1. (o1, v1) \<in> set ps \<Longrightarrow> o1 + length v1 \<le> off \<or> off + length v \<le> o1"
    using snoc.prems(1) by (auto simp: apart_def sorted_wrt_append p)
  have IH: "\<And>o1 v1. (o1, v1) \<in> set ps \<Longrightarrow> has (stores b ps V) b o1 v1" "\<And>c. length (stores b ps V c) = length (V c)"
    using snoc.IH [OF ap(1)] snoc.prems(2) by auto
  have r: "off + length v \<le> length (stores b ps V b)" using snoc.prems(2) p IH(2) by simp
  have "has (stores b (ps @ [p]) V) b o1 v1" if "(o1, v1) \<in> set (ps @ [p])" for o1 v1
  proof (cases "(o1, v1) = p")
    case True
    then show ?thesis using has_store [of off v "stores b ps V" b, OF r] by (simp add: p stores_snoc)
  next
    case False
    then have m: "(o1, v1) \<in> set ps" using that by auto
    show ?thesis using IH(1) [OF m] ap(2) [OF m] has_store_other [of b b o1 v1 off v "stores b ps V", OF _ r] by (simp add: p stores_snoc)
  qed
  then show ?case using IH(2) r by (auto simp: p stores_snoc)
qed (simp add: stores_def)

lemma files_at:
  "planned_files bs ! 0 = \<lparr>mf_ino = 2, mf_start_blocknr = first_block bs + 1, mf_nblocks = 1, mf_raw_inode = None\<rparr>"
  "planned_files bs ! 6 = \<lparr>mf_ino = 6, mf_start_blocknr = bI bs, mf_nblocks = ifile_blocks bs, mf_raw_inode = None\<rparr>"
  "planned_files bs ! 7 = \<lparr>mf_ino = 4, mf_start_blocknr = bC bs, mf_nblocks = 1, mf_raw_inode = None\<rparr>"
  "planned_files bs ! 8 = \<lparr>mf_ino = 5, mf_start_blocknr = bS bs, mf_nblocks = 1, mf_raw_inode = None\<rparr>"
  "planned_files bs ! 9 = \<lparr>mf_ino = 3, mf_start_blocknr = bD bs, mf_nblocks = 3, mf_raw_inode = None\<rparr>"
  by (simp_all add: planned_files_def Let_def bI_def bC_def bS_def bD_def numeral_eq_Suc)

lemma empty_files_at:
  "planned_files bs ! 1 = \<lparr>mf_ino = 7, mf_start_blocknr = 0, mf_nblocks = 0, mf_raw_inode = None\<rparr>"
  "planned_files bs ! 2 = \<lparr>mf_ino = 1, mf_start_blocknr = 0, mf_nblocks = 0, mf_raw_inode = None\<rparr>"
  "planned_files bs ! 3 = \<lparr>mf_ino = 8, mf_start_blocknr = 0, mf_nblocks = 0, mf_raw_inode = None\<rparr>"
  "planned_files bs ! 4 = \<lparr>mf_ino = 9, mf_start_blocknr = 0, mf_nblocks = 0, mf_raw_inode = None\<rparr>"
  "planned_files bs ! 5 = \<lparr>mf_ino = 10, mf_start_blocknr = 0, mf_nblocks = 0, mf_raw_inode = None\<rparr>"
  by (simp_all add: planned_files_def Let_def numeral_eq_Suc)

text \<open>The members of the segment summary's header.\<close>

definition segsum_hdr :: "u64 \<Rightarrow> nilfs_disk_info \<Rightarrow> blocks \<Rightarrow> bool" where
  "segsum_hdr bs di V \<longleftrightarrow>
     has V (first_block bs) 8 (le32 NILFS_SEGSUM_MAGIC) \<and> has V (first_block bs) 12 (le16 64)
     \<and> has V (first_block bs) 14 (le16 7) \<and> has V (first_block bs) 16 (le64 0)
     \<and> has V (first_block bs) 24 (le64 (di_ctime di)) \<and> has V (first_block bs) 32 (le64 (di_blocks_per_segment di))
     \<and> has V (first_block bs) 40 (le32 (ifile_blocks bs + 8)) \<and> has V (first_block bs) 44 (le32 5)
     \<and> has V (first_block bs) 48 (le32 (if bs = 1024 then 320 else 304)) \<and> has V (first_block bs) 56 (le64 1)"

lemma segsum_hdr_keep:
  assumes "segsum_hdr bs di V" "keep F V V'" "\<And>i. 8 \<le> i \<Longrightarrow> i < 64 \<Longrightarrow> (first_block bs, i) \<notin> F" "64 \<le> length (V (first_block bs))"
  shows "segsum_hdr bs di V'"
proof -
  have "has V' (first_block bs) off v" if "has V (first_block bs) off v" "8 \<le> off" "off + length v \<le> 64" for off v
    using that assms(3,4) by (intro has_keep [OF that(1) assms(2)]) auto
  then show ?thesis using assms(1) unfolding segsum_hdr_def by simp
qed

context formatter
begin

lemmas log_distinct = log_blocks_distinct [OF bs]
lemmas log_less = log_blocks_less [OF bs]

lemma gok_size: "gok bs di rs G \<Longrightarrow> b \<in> set [first_block bs, first_block bs + 1, bI bs, bI bs + 1, bI bs + 2, bC bs, bS bs, bD bs, bD bs + 1, bD bs + 2, last_block bs] \<Longrightarrow> b < mk_buffer_size G"
  using log_less [of b] by (simp add: gok_def)

text \<open>A routine that reads members and goes on with some of them changed.\<close>

lemma wpv_step:
  assumes "\<And>s. ghost s = G \<Longrightarrow> m s = m' (u s)"
    "\<And>s. ghost s = G \<Longrightarrow> ghost (u s) = G' \<and> mk_buffer (u s) = mk_buffer s \<and> mk_w (u s) = mk_w s"
    "wpv m' M V G' Q"
  shows "wpv m M V G Q"
proof (rule wpvI)
  fix s assume r: "rep M V G s"
  then have g: "ghost s = G" by (simp add: rep_def)
  have "content bs (u s) = content bs s" using assms(2) [OF g] by (simp add: content_def fun_eq_iff)
  then have "rep M V G' (u s)" using r assms(2) [OF g] by (simp add: rep_def)
  from wpvE [OF assms(3) this] assms(1) [OF g]
  show "\<exists>x s' M' V' G'. m s = (Inr x, s') \<and> M \<subseteq> M' \<and> rep M' V' G' s' \<and> Q x M' V' G'" by metis
qed

lemma wpv_cur: "wpv (F (cur_seg G)) M V G Q \<Longrightarrow> wpv (\<lambda>s. let si = cur_seg s in F si s) M V G Q"
proof (rule wpv_cong)
  fix s assume g: "ghost s = G"
  show "(let si = cur_seg s in F si s) = F (cur_seg G) s" by (simp add: ghost_fields(15) [OF g])
qed

lemma wpv_init_segsum:
  assumes g: "gok bs di rs G"
    and Q: "\<And>M' V'. M \<subseteq> M' \<Longrightarrow> first_block bs \<in> M' \<Longrightarrow> keep ({first_block bs} \<times> {8..<64}) V V' \<Longrightarrow> segsum_hdr bs di V'
      \<Longrightarrow> Q () M' V' (G\<lparr>mk_segsum := Some (first_block bs, 0)\<rparr>)"
  shows "wpv (init_segsum k bs) M V G Q"
proof (rule wpv_len)
  assume l: "\<And>c. length (V c) = unat bs"
  let ?f = "first_block bs" and ?G = "G\<lparr>mk_segsum := Some (first_block bs, 0)\<rparr>"
  let ?pokes = "bindE (poke (?f, 8) (le32 NILFS_SEGSUM_MAGIC)) (\<lambda>_. bindE (poke (?f, 12) (le16 64)) (\<lambda>_.
    bindE (poke (?f, 14) (le16 7)) (\<lambda>_. bindE (poke (?f, 16) (le64 0)) (\<lambda>_.
    bindE (poke (?f, 24) (le64 (di_ctime di))) (\<lambda>_. bindE (poke (?f, 32) (le64 (di_blocks_per_segment di))) (\<lambda>_.
    bindE (poke (?f, 40) (le32 (ifile_blocks bs + 8))) (\<lambda>_. bindE (poke (?f, 44) (le32 5)) (\<lambda>_.
    bindE (poke (?f, 48) (le32 (if bs = 1024 then 320 else 304))) (\<lambda>_. poke (?f, 56) (le64 1))))))))))"
  have sz: "?f < mk_buffer_size G" using gok_size [OF g] by simp
  have cur: "mi_start_blocknr (cur_seg G) = ?f" "mi_nblocks (cur_seg G) = ifile_blocks bs + 8" "mi_nfinfo (cur_seg G) = 5"
      "mi_sumbytes (cur_seg G) = (if bs = 1024 then 320 else 304)"
    by (simp_all add: gok_cur [OF g] seg_raw_def planned_segment_def)
  have sz': "mi_start_blocknr (cur_seg G) < mk_buffer_size G" using sz cur by simp
  have "wpv ?pokes (insert ?f M) V ?G Q"
  proof -
    let ?ps = "[(8, le32 NILFS_SEGSUM_MAGIC), (12, le16 64), (14, le16 7), (16, le64 0), (24, le64 (di_ctime di)),
      (32, le64 (di_blocks_per_segment di)), (40, le32 (ifile_blocks bs + 8)), (44, le32 5),
      (48, le32 (if bs = 1024 then 320 else 304)), (56, le64 1)]"
    have "apart ?ps" by (simp add: apart_def)
    moreover have "off + length v \<le> length (V ?f)" if "(off, v) \<in> set ?ps" for off v
      using that l bs_ge by auto
    ultimately have "\<forall>(off, v) \<in> set ?ps. has (stores ?f ?ps V) ?f off v" using has_stores [of ?ps V ?f] by blast
    then have "segsum_hdr bs di (stores ?f ?ps V)" by (simp add: segsum_hdr_def)
    then show ?thesis unfolding stores_simps
      by (intro wpv_bind wpv_poke Q keep_more_block keep_refl) (use l bs_ge in \<open>simp_all add: subset_insertI\<close>)
  qed
  note pokes = this
  have eq: "ghost s = G \<Longrightarrow> mk_seq s = 0 \<and> mk_di s = di_raw bs di rs \<and> mk_next s = di_blocks_per_segment di \<and> mk_cno s = 1" for s
    using g ghost_fields [of s G] by (simp add: gok_def)
  show "wpv (init_segsum k bs) M V G Q"
    unfolding init_segsum_def [abs_def]
    apply (rule wpv_cur, rule wpv_bind, rule wpv_map [OF sz'])
    apply (rule wpv_step [where m' = ?pokes and u = "\<lambda>s. s\<lparr>mk_segsum := Some (?f, 0)\<rparr>" and G' = ?G])
    subgoal for s using eq [of s] by (simp add: cur sizeof_segment_summary_def di_raw_def planned_def)
    subgoal by (auto simp: ghost_def)
    subgoal using pokes by (simp add: cur)
    done
qed

end

context formatter
begin

lemma gok_di: "gok bs di rs G \<Longrightarrow> gok bs di rs' (G\<lparr>mk_di := di_raw bs di rs'\<rparr>)"
  by (simp add: gok_def)

lemma gok_upd [simp]: 
  "gok bs di rs (G\<lparr>mk_segsum := x\<rparr>) = gok bs di rs G" "gok bs di rs (G\<lparr>mk_super_root := x\<rparr>) = gok bs di rs G"
  "gok bs di rs (G\<lparr>mk_checkpoint := x\<rparr>) = gok bs di rs G" "gok bs di rs (G\<lparr>mk_vblocknr := v\<rparr>) = gok bs di rs G"
  by (simp_all add: gok_def)

lemma fidx_at: "fidx ! unat NILFS_CPFILE_INO = Some 7" "fidx ! unat NILFS_SUFILE_INO = Some 8" "fidx ! unat NILFS_DAT_INO = Some 9"
  "fidx ! unat NILFS_IFILE_INO = Some 6" "fidx ! unat NILFS_ROOT_INO = Some 0" "fidx ! unat NILFS_ATIME_INO = Some 1"
  "fidx ! unat (1 :: u64) = Some 2" "fidx ! unat (8 :: u64) = Some 3" "fidx ! unat (9 :: u64) = Some 4" "fidx ! unat (10 :: u64) = Some 5"
  by (simp_all add: fidx_def mkfs_consts NILFS_DAT_INO_def)

lemma last_block_eq: "first_block bs + ucast (ifile_blocks bs + 8) - 1 = last_block bs"
  using bs unfolding mkfs_bs_def by (elim disjE; simp add: block_defs)

definition raw1 :: "nat \<Rightarrow> ptr option" where
  "raw1 = (\<lambda>_. None)(7 := Some (last_block bs, 144), 8 := Some (last_block bs, 272), 9 := Some (last_block bs, 16))"

definition raw2 :: "nat \<Rightarrow> ptr option" where
  "raw2 = raw1(6 := Some (bC bs, 256))"

definition raw3 :: "nat \<Rightarrow> ptr option" where
  "raw3 = raw2(0 := Some (inode_ptr bs 2), 1 := Some (inode_ptr bs 7), 2 := Some (inode_ptr bs 1),
     3 := Some (inode_ptr bs 8), 4 := Some (inode_ptr bs 9), 5 := Some (inode_ptr bs 10))"

lemma wpv_init_super_root:
  assumes g: "gok bs di (\<lambda>_. None) G"
    and Q: "\<And>M' V'. M \<subseteq> M' \<Longrightarrow> last_block bs \<in> M' \<Longrightarrow> keep ({last_block bs} \<times> {4..<16}) V V'
      \<Longrightarrow> has V' (last_block bs) 4 (le16 NILFS_SR_BYTES) \<Longrightarrow> has V' (last_block bs) 8 (le64 (di_ctime di))
      \<Longrightarrow> Q () M' V' (G\<lparr>mk_super_root := Some (last_block bs, 0), mk_di := di_raw bs di raw1\<rparr>)"
  shows "wpv (init_super_root k bs) M V G Q"
proof (rule wpv_len)
  assume l: "\<And>c. length (V c) = unat bs"
  let ?r = "last_block bs" and ?G = "G\<lparr>mk_super_root := Some (last_block bs, 0)\<rparr>"
  let ?ps = "[(4, le16 NILFS_SR_BYTES), (8, le64 (di_ctime di)), (6, le16 0)]"
  let ?sets = "bindE (set_raw_inode NILFS_CPFILE_INO (?r, 144)) (\<lambda>_. bindE (set_raw_inode NILFS_SUFILE_INO (?r, 272)) (\<lambda>_.
      set_raw_inode NILFS_DAT_INO (?r, 16)))"
  have sz: "?r < mk_buffer_size G" using gok_size [OF g] by simp
  have cur: "mi_start_blocknr (cur_seg G) + ucast (mi_nblocks (cur_seg G)) - 1 = ?r"
    using last_block_eq by (simp add: gok_cur [OF g] seg_raw_def planned_segment_def)
  have "\<forall>(off, v) \<in> set ?ps. has (stores ?r ?ps V) ?r off v"
    by (rule has_stores [THEN conjunct1]) (use l bs_ge in \<open>auto simp: apart_def\<close>)
  then have h: "has (stores ?r ?ps V) ?r 4 (le16 NILFS_SR_BYTES)" "has (stores ?r ?ps V) ?r 8 (le64 (di_ctime di))"
    by simp_all
  have kp: "keep ({?r} \<times> {4..<16}) V (stores ?r ?ps V)"
    unfolding stores_simps by (intro keep_more_block keep_refl) (use l bs_ge in simp_all)
  have "Q () (insert ?r M) (stores ?r ?ps V) (?G\<lparr>mk_di := di_raw bs di raw1\<rparr>)"
    using Q [OF _ _ kp h, of "insert ?r M"] by blast
  then have sets: "wpv ?sets (insert ?r M) (stores ?r ?ps V) ?G Q"
    using g
    by (intro wpv_bind wpv_set_raw_inode [where di = di and rs = "\<lambda>_. None", OF _ fidx_at(1)]
        wpv_set_raw_inode [where di = di and rs = "(\<lambda>_. None)(7 := Some (?r, 144))", OF _ fidx_at(2)]
        wpv_set_raw_inode [where di = di and rs = "(\<lambda>_. None)(7 := Some (?r, 144), 8 := Some (?r, 272))", OF _ fidx_at(3)])
      (simp_all add: gok_di raw1_def)
  have eq: "ghost s = G \<Longrightarrow> mk_di s = di_raw bs di (\<lambda>_. None)" for s
    using g ghost_fields [of s G] by (simp add: gok_def)
  show "wpv (init_super_root k bs) M V G Q"
    unfolding init_super_root_def [abs_def]
    apply (rule wpv_cur, unfold Let_def cur, rule wpv_bind, rule wpv_map [OF sz])
    apply (rule wpv_step [where m' = "bindE (poke (?r, 4) (le16 NILFS_SR_BYTES)) (\<lambda>_. bindE (poke (?r, 8) (le64 (di_ctime di))) (\<lambda>_.
        bindE (poke (?r, 6) (le16 0)) (\<lambda>_. ?sets)))" and u = "\<lambda>s. s\<lparr>mk_super_root := Some (?r, 0)\<rparr>" and G' = ?G])
    subgoal for s using eq [of s] by (simp add: di_raw_def planned_def)
    subgoal by (auto simp: ghost_def)
    subgoal using sets unfolding stores_simps by (intro wpv_poke_bind) (use bs_ge in simp_all)
    done
qed

lemma wpv_prepare_dat:
  assumes g: "gok bs di rs G" and rs: "rs 9 = Some (last_block bs, 16)" and r: "last_block bs \<in> M"
    and z: "V (bD bs + 1) = replicate (unat bs) 0"
    and Q: "\<And>M' V'. M \<subseteq> M' \<Longrightarrow> keep ({bD bs, bD bs + 1} \<times> UNIV \<union> {last_block bs} \<times> {16..<72}) V V'
      \<Longrightarrow> grp bs V' (bD bs) 1 \<Longrightarrow> Q () M' V' G"
  shows "wpv (prepare_dat k bs) M V G Q"
proof -
  let ?D = "bD bs" and ?r = "last_block bs"
  have sz: "?D < mk_buffer_size G" "?D + 1 < mk_buffer_size G" "?D + 2 < mk_buffer_size G" using gok_size [OF g] by simp_all
  have fi: "files_raw bs rs ! 9 = \<lparr>mf_ino = 3, mf_start_blocknr = ?D, mf_nblocks = 3, mf_raw_inode = rs 9\<rparr>"
    by (simp add: files_raw_nth files_at)
  have d: "?r \<noteq> ?D" "?r \<noteq> ?D + 1" using log_distinct by auto
  have inode: "wpv (init_inode k bs NILFS_DAT_INO DT_REG 0 0) M2 V2 G Q"
    if "M \<subseteq> M2" "keep ({?D, ?D + 1} \<times> UNIV) V V2" "grp bs V2 ?D 1" for M2 V2
  proof (rule wpv_len)
    assume l2: "\<And>c. length (V2 c) = unat bs"
    show "wpv (init_inode k bs NILFS_DAT_INO DT_REG 0 0) M2 V2 G Q"
    proof (rule wpv_init_inode [where p = "(?r, 16)", OF g fidx_at(3) _ rs])
      fix V3 assume k3: "keep ({fst (?r, 16)} \<times> {snd (?r, 16)..<snd (?r, 16) + 56}) V2 V3"
      have "grp bs V3 ?D 1" by (rule grp_keep [OF that(3) k3]) (use d l2 bs_ge in auto)
      then show "Q () M2 V3 G" using that(1) k3 by (intro Q keep_chain [OF that(2) k3]) auto
    qed (use that(1) r bs_ge in \<open>auto simp: NILFS_DAT_INO_def NILFS_USER_INO_def\<close>)
  qed
  have alloc: "wpv (bindE (alloc_blockgrouped_file_entry k bs ?D 0) (\<lambda>_. init_inode k bs NILFS_DAT_INO DT_REG 0 0)) M1 V1 G Q"
    if "M \<subseteq> M1" "keep ({?D} \<times> UNIV) V V1" "grp bs V1 ?D 0" for M1 V1
  proof (rule wpv_bind, rule wpv_alloc [OF sz(1,2) that(3)])
    fix M2 V2 assume "M1 \<subseteq> M2" and k2: "keep ({?D} \<times> {0..<4} \<union> {?D + 1} \<times> UNIV) V1 V2" and "grp bs V2 ?D (Suc 0)"
    moreover have "keep ({?D, ?D + 1} \<times> UNIV) V V2" by (rule keep_chain [OF that(2) k2]) auto
    ultimately show "wpv (init_inode k bs NILFS_DAT_INO DT_REG 0 0) M2 V2 G Q" using that(1) by (intro inode) auto
  qed (use bs_ge in simp_all)
  show ?thesis
    unfolding prepare_dat_def
  proof (rule wpv_bind, rule wpv_get_file [OF g fidx_at(3)], unfold fi Let_def nilfs_file_info.simps,
      rule wpv_bind, rule wpv_prepare_blockgrouped [where V = V and b = ?D and G = G, OF sz(1,2) z])
    fix M1 V1 assume 1: "M \<subseteq> M1" "keep ({?D} \<times> UNIV) V V1" "grp bs V1 ?D 0"
    have "[2..<unat (3 :: u32)] = [2]" by (simp add: upt_rec)
    moreover have "wpv (bindE (alloc_blockgrouped_file_entry k bs ?D 0) (\<lambda>_. init_inode k bs NILFS_DAT_INO DT_REG 0 0)) (insert (?D + 2) M1) V1 G Q"
      using 1 by (intro alloc) auto
    ultimately show "wpv (bindE (foldE (\<lambda>i _. bindE (map_disk_buffer k bs (?D + of_nat i) True) (\<lambda>_. retE ())) [2..<unat (3 :: u32)] ())
       (\<lambda>_. bindE (alloc_blockgrouped_file_entry k bs ?D 0) (\<lambda>_. init_inode k bs NILFS_DAT_INO DT_REG 0 0))) M1 V1 G Q"
      using sz(3) by (auto intro!: wpv_bind wpv_map wpv_ret)
  qed
qed

end

text \<open>The header of the segment usage file and the flags of its entries: the two initial segments
  are active and dirty, the others clean.\<close>

definition sufile_hdr :: "u64 \<Rightarrow> nilfs_disk_info \<Rightarrow> blocks \<Rightarrow> bool" where
  "sufile_hdr bs di V \<longleftrightarrow> has V (bS bs) 0 (le64 (di_nsegments di - 2)) \<and> has V (bS bs) 8 (le64 2)
     \<and> has V (bS bs) 16 (le64 (di_nsegments di - 1))
     \<and> (\<forall>j. 2 \<le> j \<and> j < unat bs div 16 \<longrightarrow> has V (bS bs) (16 * j + 12) (le32 (if j < 4 then 3 else 0)))"

lemma has_peek32: "has V b off (le32 x) \<Longrightarrow> le32_at (take 4 (drop off (V b))) 0 = x"
  by (simp add: has_def le32_at_def rd_def)

lemma has_peek16: "has V b off (le16 x) \<Longrightarrow> le16_at (take 2 (drop off (V b))) 0 = x"
  by (simp add: has_def le16_at_def rd_def)

lemma has_zeros: "V b = replicate n 0 \<Longrightarrow> off + length v \<le> n \<Longrightarrow> v = replicate (length v) 0 \<Longrightarrow> has V b off v"
  by (simp add: has_def)

lemma to_le_zero: "to_le n 0 = replicate n 0"
  by (induction n) simp_all

lemma le_zero: "le16 0 = replicate 2 0" "le32 0 = replicate 4 0" "le64 0 = replicate 8 0"
  by (simp_all add: le16_def le32_def le64_def to_le_zero)

lemma sufile_hdr_keep:
  assumes "sufile_hdr bs di V" "keep F V V'" "\<And>i. (bS bs, i) \<in> F \<Longrightarrow> 32 \<le> i \<and> i < 44" "length (V (bS bs)) = unat bs" "1024 \<le> unat bs"
  shows "sufile_hdr bs di V'"
proof -
  have k: "has V' (bS bs) off v" if "has V (bS bs) off v" "off + length v \<le> 32 \<or> 44 \<le> off" "off + length v \<le> unat bs" for off v
    using that assms(3,4) by (intro has_keep [OF that(1) assms(2)]) force+
  have "has V' (bS bs) (16 * j + 12) (le32 (if j < 4 then 3 else 0))" if "2 \<le> j \<and> j < unat bs div 16" for j
  proof (rule k)
    show "has V (bS bs) (16 * j + 12) (le32 (if j < 4 then 3 else 0))" using assms(1) that by (simp add: sufile_hdr_def)
  qed (use that in auto)
  then show ?thesis using assms(1,5) k unfolding sufile_hdr_def by simp
qed

context formatter
begin

lemma wpv_su_set_flag:
  assumes "fst su \<in> M" "snd su + 16 \<le> unat bs" "has V (fst su) (snd su + 12) (le32 x)"
    and "Q () M (store (padd su 12) (le32 (x OR push_bit fl 1)) V) G"
  shows "wpv (su_set_flag fl su) M V G Q"
  unfolding su_set_flag_def
  by (rule wpv_peek_bind) (use assms in \<open>simp_all add: has_peek32 wpv_poke\<close>)

lemma wpv_sufile_entry:
  assumes S: "b \<in> M" and j: "16 * j + 16 \<le> unat bs" and z: "has V b (16 * j + 12) (le32 0)"
    and l: "\<And>c. length (V c) = unat bs"
    and Q: "\<And>V'. keep ({b} \<times> {16 * j..<16 * j + 16}) V V' \<Longrightarrow> has V' b (16 * j + 12) (le32 (if segnum < 2 then 3 else 0)) \<Longrightarrow> Q () M V' G"
  shows "wpv (if segnum < ucast nr_initial_segments
                    then bindE (su_set_flag 0 (b, 16 * j)) (\<lambda>_. su_set_flag 1 (b, 16 * j))
                    else su_set_clean (b, 16 * j)) M V G Q"
proof (cases "segnum < 2")
  case True
  let ?V1 = "store (b, 16 * j + 12) (le32 1) V"
  let ?V2 = "store (b, 16 * j + 12) (le32 3) ?V1"
  have "keep ({b} \<times> {16 * j..<16 * j + 16}) V ?V2" using j by (intro keep_more_block keep_refl l) simp_all
  moreover have h1: "has ?V1 b (16 * j + 12) (le32 1)" using j l by (simp add: has_store)
  moreover have "has ?V2 b (16 * j + 12) (le32 3)" using j l by (simp add: has_store)
  ultimately have "Q () M ?V2 G" using True by (intro Q) simp_all
  then have "wpv (bindE (su_set_flag 0 (b, 16 * j)) (\<lambda>_. su_set_flag 1 (b, 16 * j))) M V G Q"
    by (intro wpv_bind wpv_su_set_flag [where x = 0] wpv_su_set_flag [where x = 1]) (use S j z h1 in simp_all)
  then show ?thesis using True by (simp add: nr_initial_segments_def)
next
  case False
  let ?V = "store (b, 16 * j + 12) (le32 0) (store (b, 16 * j + 8) (le32 0) (store (b, 16 * j) (le64 0) V))"
  have "keep ({b} \<times> {16 * j..<16 * j + 16}) V ?V" using j by (intro keep_more_block keep_refl l) simp_all
  moreover have "has ?V b (16 * j + 12) (le32 0)" using j l by (simp add: has_store)
  ultimately have "Q () M ?V G" using False by (intro Q) simp_all
  then have "wpv (su_set_clean (b, 16 * j)) M V G Q" unfolding su_set_clean_def
    by (intro wpv_poke_bind wpv_poke) (use S j in simp_all)
  then show ?thesis using False by (simp add: nr_initial_segments_def)
qed

lemma wpv_sufile_block:
  assumes sz: "b < mk_buffer_size G" and l: "\<And>c. length (V c) = unat bs"
    and z: "\<And>j. 2 \<le> j \<Longrightarrow> j < unat bs div 16 \<Longrightarrow> has V b (16 * j + 12) (le32 0)"
    and Q: "\<And>x M' V'. M \<subseteq> M' \<Longrightarrow> keep ({b} \<times> {32..<unat bs}) V V'
      \<Longrightarrow> (\<forall>j. 2 \<le> j \<and> j < unat bs div 16 \<longrightarrow> has V' b (16 * j + 12) (le32 (if j < 4 then 3 else 0))) \<Longrightarrow> Q x M' V' G"
  shows "wpv (prepare_sufile_block k bs b 0 0) M V G Q"
proof -
  let ?n = "unat bs div 16"
  have n: "unat (bs div ucast sizeof_segment_usage) = ?n" by (simp add: sizeof_segment_usage_def unat_div)
  have n2: "2 \<le> ?n" using bs_ge by simp
  have i: "unat (if (0 :: nat) = 0 then NILFS_SUFILE_FIRST_SEGMENT_USAGE_OFFSET else 0) = 2"
    by (simp add: NILFS_SUFILE_FIRST_SEGMENT_USAGE_OFFSET_def sizeof_sufile_header_def sizeof_segment_usage_def)
  let ?I = "\<lambda>i (seg :: u64) M' V' G'. seg = of_nat (i - 2) \<and> G' = G \<and> keep ({b} \<times> {32..<unat bs}) V V'
    \<and> (\<forall>j. 2 \<le> j \<and> j < i \<longrightarrow> has V' b (16 * j + 12) (le32 (if j < 4 then 3 else 0)))
    \<and> (\<forall>j. i \<le> j \<and> j < ?n \<longrightarrow> has V' b (16 * j + 12) (le32 0))"
  show ?thesis
    unfolding prepare_sufile_block_def Let_def n i
  proof (rule wpv_map_bind, use sz in simp, rule wpv_fold [where I = ?I])
    fix i seg M1 V1 G1 assume i: "2 \<le> i" "i < ?n" and M1: "insert (b + of_nat 0) M \<subseteq> M1" and I: "?I i seg M1 V1 G1"
    have i16: "16 * i + 16 \<le> unat bs" using i by simp
    have l1: "length (V1 c) = unat bs" for c using I l by (simp add: keep_def)
    have seg: "seg < 2 \<longleftrightarrow> i < 4"
    proof -
      have "i - 2 < 2 ^ 64" using i bs_ge by simp
      then have "unat (of_nat (i - 2) :: u64) = i - 2" by (rule unat_of_nat_u64)
      then have "unat seg = i - 2" using I by metis
      then show ?thesis using i by (simp add: word_less_nat_alt) arith
    qed
    have bM: "b \<in> M1" using M1 by simp
    have "wpv (if seg < ucast nr_initial_segments then bindE (su_set_flag 0 (b, 16 * i)) (\<lambda>_. su_set_flag 1 (b, 16 * i))
        else su_set_clean (b, 16 * i)) M1 V1 G (\<lambda>_ M V G. ?I (Suc i) (seg + 1) M V G)"
    proof (rule wpv_sufile_entry [OF bM i16 _ l1])
      show "has V1 b (16 * i + 12) (le32 0)" using I i by simp
      fix V2 assume k2: "keep ({b} \<times> {16 * i..<16 * i + 16}) V1 V2" and h2: "has V2 b (16 * i + 12) (le32 (if seg < 2 then 3 else 0))"
      have "keep ({b} \<times> {32..<unat bs}) V V2" using I i i16 by (intro keep_chain [of _ V V1, OF _ k2]) auto
      moreover have o: "has V2 b (16 * j + 12) (le32 x)" if "has V1 b (16 * j + 12) (le32 x)" "j \<noteq> i" "j < ?n" for j x
        using that l1 by (intro has_keep [OF that(1) k2]) auto
      moreover have "has V2 b (16 * j + 12) (le32 (if j < 4 then 3 else 0))" if "2 \<le> j \<and> j < Suc i" for j
        using that I h2 seg i o [of j "if j < 4 then 3 else 0"] by (cases "j = i") simp_all
      moreover have "seg + 1 = of_nat (Suc i - 2)" using I i by (simp add: Suc_diff_le)
      ultimately show "?I (Suc i) (seg + 1) M1 V2 G" using I by simp
    qed
    note entry = this
    have e: "padd (b + of_nat 0, 0) (16 * i) = (b, 16 * i)" and G1: "G1 = G" using I by simp_all
    show "wpv (bindE (if seg < ucast nr_initial_segments
        then bindE (su_set_flag 0 (padd (b + of_nat 0, 0) (16 * i))) (\<lambda>_. su_set_flag 1 (padd (b + of_nat 0, 0) (16 * i)))
        else su_set_clean (padd (b + of_nat 0, 0) (16 * i))) (\<lambda>_. retE (seg + 1))) M1 V1 G1 (?I (Suc i))"
      unfolding e G1 by (rule wpv_bind_ret) (rule entry)
  next
    fix x M' V' G' assume "insert (b + of_nat 0) M \<subseteq> M'" "?I ?n x M' V' G'"
    then show "Q x M' V' G'" using Q by auto
  qed (use n2 z in auto)
qed

lemma wpv_prepare_sufile:
  assumes g: "gok bs di rs G" and rs: "rs 8 = Some (last_block bs, 272)" and r: "last_block bs \<in> M"
    and z: "V (bS bs) = replicate (unat bs) 0"
    and Q: "\<And>M' V'. M \<subseteq> M' \<Longrightarrow> keep ({bS bs} \<times> UNIV \<union> {last_block bs} \<times> {272..<328}) V V'
      \<Longrightarrow> sufile_hdr bs di V' \<Longrightarrow> Q () M' V' G"
  shows "wpv (prepare_sufile k bs) M V G Q"
proof (rule wpv_len)
  assume l: "\<And>c. length (V c) = unat bs"
  let ?S = "bS bs" and ?r = "last_block bs"
  let ?ps = "[(0, le64 (di_nsegments di - 2)), (8, le64 2), (16, le64 (di_nsegments di - 1))]"
  let ?V1 = "stores ?S ?ps V"
  have sz: "?S < mk_buffer_size G" using gok_size [OF g] by simp
  have fi: "files_raw bs rs ! 8 = \<lparr>mf_ino = 5, mf_start_blocknr = ?S, mf_nblocks = 1, mf_raw_inode = rs 8\<rparr>"
    by (simp add: files_raw_nth files_at)
  have d: "?r \<noteq> ?S" using log_distinct by auto
  have "(\<forall>(off, v) \<in> set ?ps. has ?V1 ?S off v) \<and> (\<forall>c. length (?V1 c) = length (V c))"
    by (rule has_stores) (use l bs_ge in \<open>auto simp: apart_def\<close>)
  then have h: "has ?V1 ?S 0 (le64 (di_nsegments di - 2))" "has ?V1 ?S 8 (le64 2)" "has ?V1 ?S 16 (le64 (di_nsegments di - 1))"
    and l1: "\<And>c. length (?V1 c) = unat bs" using l by simp_all
  have k1: "keep ({?S} \<times> {0..<24}) V ?V1"
    unfolding stores_simps by (intro keep_more_block keep_refl) (use l bs_ge in simp_all)
  have z1: "has ?V1 ?S (16 * j + 12) (le32 0)" if "2 \<le> j" "j < unat bs div 16" for j
    using that l by (intro has_keep [OF has_zeros [of V ?S, OF z] k1]) (auto simp: le_zero)
  have inode: "wpv (init_inode k bs NILFS_SUFILE_INO DT_REG 0 0) M2 V2 G Q"
    if m: "M \<subseteq> M2" and k2: "keep ({?S} \<times> UNIV) V V2" and H: "sufile_hdr bs di V2" for M2 V2
  proof (rule wpv_init_inode [where p = "(?r, 272)", OF g fidx_at(2) _ rs])
    fix V3 assume k3: "keep ({fst (?r, 272)} \<times> {snd (?r, 272)..<snd (?r, 272) + 56}) V2 V3"
    have "length (V2 c) = unat bs" for c using k2 l by (simp add: keep_def)
    then have "sufile_hdr bs di V3" by (intro sufile_hdr_keep [OF H k3]) (use d bs_ge in auto)
    then show "Q () M2 V3 G" using m k3 by (intro Q keep_chain [OF k2 k3]) auto
  qed (use m r bs_ge in \<open>auto simp: NILFS_SUFILE_INO_def NILFS_USER_INO_def\<close>)
  have block: "wpv (bindE (foldE (prepare_sufile_block k bs ?S) [0..<unat (1 :: u32)] 0) (\<lambda>_. init_inode k bs NILFS_SUFILE_INO DT_REG 0 0))
      (insert ?S M) ?V1 G Q"
  proof -
    have "wpv (prepare_sufile_block k bs ?S 0 0) (insert ?S M) ?V1 G (\<lambda>_ M V G. wpv (init_inode k bs NILFS_SUFILE_INO DT_REG 0 0) M V G Q)"
    proof (rule wpv_sufile_block [OF sz l1 z1])
      fix M2 V2 assume 2: "insert ?S M \<subseteq> M2" "keep ({?S} \<times> {32..<unat bs}) ?V1 V2"
        "\<forall>j. 2 \<le> j \<and> j < unat bs div 16 \<longrightarrow> has V2 ?S (16 * j + 12) (le32 (if j < 4 then 3 else 0))"
      have "has V2 ?S off v" if "has ?V1 ?S off v" "off + length v \<le> 32" for off v
        using that l1 bs_ge by (intro has_keep [OF that(1) 2(2)]) auto
      then have "sufile_hdr bs di V2" using h 2(3) by (simp add: sufile_hdr_def)
      moreover have "keep ({?S} \<times> UNIV) V V2" by (rule keep_chain [OF k1 2(2)]) auto
      ultimately show "wpv (init_inode k bs NILFS_SUFILE_INO DT_REG 0 0) M2 V2 G Q" using 2(1) by (intro inode) auto
    qed
    moreover have "[0..<unat (1 :: u32)] = [0]" by simp
    ultimately show ?thesis by (simp only:) (rule wpv_bind, rule wpv_fold1)
  qed
  let ?body = "bindE (poke (?S, 0) (le64 (di_nsegments di - 2))) (\<lambda>_. bindE (poke (?S, 8) (le64 2)) (\<lambda>_.
       bindE (poke (?S, 16) (le64 (di_nsegments di - 1))) (\<lambda>_.
       bindE (foldE (prepare_sufile_block k bs ?S) [0..<unat (1 :: u32)] 0) (\<lambda>_. init_inode k bs NILFS_SUFILE_INO DT_REG 0 0))))"
  have body: "wpv ?body (insert ?S M) V G Q"
    using block unfolding stores_simps by (intro wpv_poke_bind) (use bs_ge in simp_all)
  have n2: "ucast nr_initial_segments = (2 :: u64)" by (simp add: nr_initial_segments_def)
  have eq: "ghost s = G \<Longrightarrow> di_nsegments (mk_di s) = di_nsegments di" for s
    using g ghost_fields [of s G] by (simp add: gok_def di_raw_def planned_def)
  show "wpv (prepare_sufile k bs) M V G Q"
    unfolding prepare_sufile_def
    apply (rule wpv_bind, rule wpv_get_file [OF g fidx_at(2)])
    apply (rule wpv_cong [where m' = "bindE (map_disk_buffer k bs ?S True) (\<lambda>h. bindE (poke (padd h 0) (le64 (di_nsegments di - 2))) (\<lambda>_.
       bindE (poke (padd h 8) (le64 2)) (\<lambda>_. bindE (poke (padd h 16) (le64 (di_nsegments di - 1))) (\<lambda>_.
       bindE (foldE (prepare_sufile_block k bs ?S) [0..<unat (1 :: u32)] 0) (\<lambda>_. init_inode k bs NILFS_SUFILE_INO DT_REG 0 0)))))"])
    subgoal for s unfolding fi by (simp only: eq [of s] n2 Let_def nilfs_file_info.simps)
    subgoal using body sz by (intro wpv_map_bind) simp_all
    done
qed

end

text \<open>The checkpoint file: the header counts one checkpoint, the first entry is valid, the others are
  marked invalid.\<close>

definition cpfile_hdr :: "u64 \<Rightarrow> nilfs_disk_info \<Rightarrow> blocks \<Rightarrow> bool" where
  "cpfile_hdr bs di V \<longleftrightarrow> has V (bC bs) 0 (le64 1) \<and> has V (bC bs) 192 (le32 0) \<and> has V (bC bs) 216 (le64 1)
     \<and> has V (bC bs) 224 (le64 (di_ctime di))
     \<and> (\<forall>j. 2 \<le> j \<and> j < unat bs div 192 \<longrightarrow> has V (bC bs) (192 * j) (le32 2))"

lemma cpfile_hdr_keep:
  assumes "cpfile_hdr bs di V" "keep F V V'" "\<And>i. (bC bs, i) \<in> F \<Longrightarrow> 232 \<le> i \<and> i < 384" "length (V (bC bs)) = unat bs" "1024 \<le> unat bs"
  shows "cpfile_hdr bs di V'"
proof -
  have k: "has V' (bC bs) off v" if "has V (bC bs) off v" "off + length v \<le> 232 \<or> 384 \<le> off" "off + length v \<le> unat bs" for off v
    using that assms(3,4) by (intro has_keep [OF that(1) assms(2)]) force+
  have "has V' (bC bs) (192 * j) (le32 2)" if "2 \<le> j \<and> j < unat bs div 192" for j
  proof (rule k)
    show "has V (bC bs) (192 * j) (le32 2)" using assms(1) that by (simp add: cpfile_hdr_def)
  qed (use that in auto)
  then show ?thesis using assms(1,5) k unfolding cpfile_hdr_def by simp
qed

context formatter
begin

lemma wpv_cp_set_invalid:
  assumes "b \<in> M" "off + 4 \<le> unat bs" "has V b off (le32 0)" "Q () M (store (b, off) (le32 2) V) G"
  shows "wpv (cp_set_invalid (b, off)) M V G Q"
  unfolding cp_set_invalid_def
  by (rule wpv_peek_bind) (use assms in \<open>simp_all add: has_peek32 wpv_poke NILFS_CPINFO_INVALID_def\<close>)

lemma wpv_cpfile_block:
  assumes g: "gok bs di rs G" and l: "\<And>c. length (V c) = unat bs"
    and z: "\<And>j. 1 \<le> j \<Longrightarrow> j < unat bs div 192 \<Longrightarrow> has V (bC bs) (192 * j) (le32 0)"
    and Q: "\<And>x M' V'. M \<subseteq> M' \<Longrightarrow> bC bs \<in> M' \<Longrightarrow> keep ({bC bs} \<times> {192..<unat bs}) V V'
      \<Longrightarrow> has V' (bC bs) 192 (le32 0) \<Longrightarrow> has V' (bC bs) 216 (le64 1) \<Longrightarrow> has V' (bC bs) 224 (le64 (di_ctime di))
      \<Longrightarrow> (\<forall>j. 2 \<le> j \<and> j < unat bs div 192 \<longrightarrow> has V' (bC bs) (192 * j) (le32 2))
      \<Longrightarrow> Q x M' V' (G\<lparr>mk_checkpoint := Some (bC bs, 192), mk_di := di_raw bs di (rs(6 := Some (bC bs, 256)))\<rparr>)"
  shows "wpv (prepare_cpfile_block k bs (bC bs) 0 1) M V G Q"
proof -
  let ?b = "bC bs" and ?n = "unat bs div 192"
  let ?G1 = "G\<lparr>mk_checkpoint := Some (?b, 192), mk_di := di_raw bs di (rs(6 := Some (?b, 256)))\<rparr>"
  have sz: "?b < mk_buffer_size G" using gok_size [OF g] by simp
  have n: "unat (bs div ucast sizeof_checkpoint) = ?n" by (simp add: sizeof_checkpoint_def unat_div)
  have n2: "5 \<le> ?n" using bs_ge by simp
  have i: "unat (if (0 :: nat) = 0 then NILFS_CPFILE_FIRST_CHECKPOINT_OFFSET else 0) = 1"
    by (simp add: NILFS_CPFILE_FIRST_CHECKPOINT_OFFSET_def sizeof_cpfile_header_def sizeof_checkpoint_def)
  let ?I = "\<lambda>i (cno :: u64) M' V' G'. cno = of_nat i \<and> G' = (if i \<le> 1 then G else ?G1) \<and> keep ({?b} \<times> {192..<unat bs}) V V'
    \<and> (1 < i \<longrightarrow> has V' ?b 192 (le32 0) \<and> has V' ?b 216 (le64 1) \<and> has V' ?b 224 (le64 (di_ctime di)))
    \<and> (\<forall>j. 2 \<le> j \<and> j < i \<longrightarrow> has V' ?b (192 * j) (le32 2))
    \<and> (\<forall>j. i \<le> j \<and> j < ?n \<longrightarrow> has V' ?b (192 * j) (le32 0))"
  let ?tail = "\<lambda>cp cno. if cno = first_cno
        then (\<lambda>s. bindE (poke (padd cp 32) (le64 (di_ctime (mk_di s)))) (\<lambda>_ s.
               set_raw_inode NILFS_IFILE_INO (padd cp 64) (s\<lparr>mk_checkpoint := Some cp\<rparr>)) s)
        else cp_set_invalid cp"
  have entry: "wpv (bindE (poke (?b, 192 * i + 24) (le64 cno)) (\<lambda>_. bindE (?tail (?b, 192 * i) cno) (\<lambda>_. retE (cno + 1))))
      M1 V1 G1 (?I (Suc i))"
    if i: "1 \<le> i" "i < ?n" and M1: "?b \<in> M1" and I: "?I i cno M1 V1 G1" for i cno M1 V1 G1
  proof -
    have i192: "192 * i + 192 \<le> unat bs" using i by simp
    have l1: "length (V1 c) = unat bs" for c using I l by (simp add: keep_def)
    have one: "cno = first_cno \<longleftrightarrow> i = 1"
    proof -
      have "unat (of_nat i :: u64) = i" using i bs_ge by (intro unat_of_nat_u64) simp
      then show ?thesis using I by (auto simp: first_cno_def)
    qed
    let ?V2 = "store (?b, 192 * i + 24) (le64 cno) V1"
    have k2: "keep ({?b} \<times> {192 * i + 24..<192 * i + 32}) V1 ?V2" using i192 by (intro keep_more_block keep_refl l1) simp_all
    have l2: "length (?V2 c) = unat bs" for c using k2 l1 by (simp add: keep_def)
    have z2: "has ?V2 ?b (192 * j) (le32 x)" if "has V1 ?b (192 * j) (le32 x)" "j < ?n" for j x
    proof (rule has_keep [OF that(1) k2])
      fix m assume "192 * j \<le> m" "m < 192 * j + length (le32 x)"
      then show "(?b, m) \<notin> {?b} \<times> {192 * i + 24..<192 * i + 32}" by (cases j i rule: linorder_cases) auto
    qed (use that l1 in auto)
    show ?thesis
    proof (cases "i = 1")
      case True
      let ?V3 = "store (?b, 224) (le64 (di_ctime di)) ?V2"
      have cno: "cno = 1" using I True by simp
      have G1: "G1 = G" using I True by simp
      have k3: "keep ({?b} \<times> {224..<232}) ?V2 ?V3" using i192 True by (intro keep_more_block keep_refl l2) simp_all
      have V1: "keep ({?b} \<times> {192..<unat bs}) V V1" using I by simp
      have kk: "keep ({?b} \<times> {192..<unat bs}) V ?V3"
        using i192 True by (intro keep_chain [OF keep_trans [OF V1 k2] k3]) auto
      have z3: "has ?V3 ?b (192 * j) (le32 0)" if "1 \<le> j" "j < ?n" for j
      proof (rule has_keep [OF z2 k3])
        show "has V1 ?b (192 * j) (le32 0)" "j < ?n" using that True I by auto
        fix m assume "192 * j \<le> m" "m < 192 * j + length (le32 0)"
        then show "(?b, m) \<notin> {?b} \<times> {224..<232}" by (cases j "1 :: nat" rule: linorder_cases) auto
      qed (use that l2 in auto)
      have h: "has ?V3 ?b 216 (le64 1)" "has ?V3 ?b 224 (le64 (di_ctime di))"
        using True cno i192 l1 l2 by (simp_all add: has_store has_store_other)
      have fin: "?I 2 2 M1 ?V3 ?G1" using kk z3 [of 1] z3 h n2 by auto
      have "wpv (set_raw_inode NILFS_IFILE_INO (?b, 256)) M1 ?V3 (G\<lparr>mk_checkpoint := Some (?b, 192)\<rparr>) (\<lambda>_. ?I 2 2)"
        by (rule wpv_set_raw_inode [where di = di and rs = rs, OF _ fidx_at(4)]) (use g fin in simp_all)
      then have "wpv (\<lambda>s. bindE (poke (?b, 224) (le64 (di_ctime (mk_di s)))) (\<lambda>_ s.
               set_raw_inode NILFS_IFILE_INO (?b, 256) (s\<lparr>mk_checkpoint := Some (?b, 192)\<rparr>)) s) M1 ?V2 G (\<lambda>_. ?I 2 2)"
        apply (rule_tac wpv_cong [where G = G and m' = "bindE (poke (?b, 224) (le64 (di_ctime di))) (\<lambda>_ s.
               set_raw_inode NILFS_IFILE_INO (?b, 256) (s\<lparr>mk_checkpoint := Some (?b, 192)\<rparr>))"])
        subgoal for s using g by (simp add: ghost_fields(3) [of s G] gok_def di_raw_def planned_def)
        subgoal
          apply (rule wpv_poke_bind, use M1 in simp, use i192 True in simp)
          apply (rule wpv_step [where m' = "set_raw_inode NILFS_IFILE_INO (?b, 256)" and u = "\<lambda>s. s\<lparr>mk_checkpoint := Some (?b, 192)\<rparr>" and G' = "G\<lparr>mk_checkpoint := Some (?b, 192)\<rparr>"])
          by (auto simp: ghost_def)
        done
      then show ?thesis unfolding True cno G1
        by (intro wpv_poke_bind wpv_bind_ret) (use M1 i192 True cno in \<open>simp_all add: first_cno_def numeral_2_eq_2\<close>)
    next
      case False
      let ?V3 = "store (?b, 192 * i) (le32 2) ?V2"
      have G1: "G1 = ?G1" using I False i by simp
      have k3: "keep ({?b} \<times> {192 * i..<192 * i + 4}) ?V2 ?V3" using i192 by (intro keep_more_block keep_refl l2) simp_all
      have V1: "keep ({?b} \<times> {192..<unat bs}) V V1" using I by simp
      have kk: "keep ({?b} \<times> {192..<unat bs}) V ?V3"
        using i192 i by (intro keep_chain [OF keep_trans [OF V1 k2] k3]) auto
      have o3: "has ?V3 ?b (192 * j) (le32 x)" if "has V1 ?b (192 * j) (le32 x)" "j < ?n" "j \<noteq> i" for j x
        using that l2 i192 by (intro has_keep [OF z2 [OF that(1,2)] k3]) auto
      have p3: "has ?V3 ?b off v" if "has V1 ?b off v" "off + length v \<le> 232" for off v
        using that l1 l2 i192 i False by (intro has_keep [OF has_keep [OF that(1) k2] k3]) auto
      have h3: "has ?V3 ?b (192 * i) (le32 2)" using l2 i192 by (simp add: has_store)
      have "?I (Suc i) (cno + 1) M1 ?V3 ?G1"
      proof (intro conjI impI allI)
        fix j assume "2 \<le> j \<and> j < Suc i"
        then show "has ?V3 ?b (192 * j) (le32 2)" using I h3 o3 [of j 2] i by (cases "j = i") auto
      qed (use I i False kk p3 o3 in auto)
      then show ?thesis unfolding G1
        using M1 i192 one False I i z2 [of i 0]
        by (intro wpv_poke_bind wpv_bind_ret) (simp_all add: wpv_cp_set_invalid)
    qed
  qed
  show ?thesis
    unfolding prepare_cpfile_block_def Let_def n i
  proof (rule wpv_map_bind, use sz in simp, rule wpv_fold [where I = ?I])
    fix i cno M1 V1 G1 assume a: "1 \<le> i" "i < ?n" "insert (?b + of_nat 0) M \<subseteq> M1" "?I i cno M1 V1 G1"
    have e: "padd (?b, 192 * i) 24 = (?b, 192 * i + 24)" "padd (?b + of_nat 0, 0) (192 * i) = (?b, 192 * i)"
      by simp_all
    have bM: "?b \<in> M1" using a(3) by simp
    show "wpv (bindE (poke (padd (padd (?b + of_nat 0, 0) (192 * i)) 24) (le64 cno)) (\<lambda>_.
        bindE (?tail (padd (?b + of_nat 0, 0) (192 * i)) cno) (\<lambda>_. retE (cno + 1)))) M1 V1 G1 (?I (Suc i))"
      unfolding e by (rule entry [OF a(1,2) bM a(4)])
  next
    fix x M' V' G' assume "insert (?b + of_nat 0) M \<subseteq> M'" "?I ?n x M' V' G'"
    then show "Q x M' V' G'" using Q n2 by auto
  qed (use n2 z in auto)
qed

lemma wpv_prepare_cpfile:
  assumes g: "gok bs di rs G" and rs: "rs 7 = Some (last_block bs, 144)" and r: "last_block bs \<in> M"
    and z: "V (bC bs) = replicate (unat bs) 0"
    and Q: "\<And>M' V'. M \<subseteq> M' \<Longrightarrow> bC bs \<in> M' \<Longrightarrow> keep ({bC bs} \<times> UNIV \<union> {last_block bs} \<times> {144..<200}) V V'
      \<Longrightarrow> cpfile_hdr bs di V'
      \<Longrightarrow> Q () M' V' (G\<lparr>mk_checkpoint := Some (bC bs, 192), mk_di := di_raw bs di (rs(6 := Some (bC bs, 256)))\<rparr>)"
  shows "wpv (prepare_cpfile k bs) M V G Q"
proof (rule wpv_len)
  assume l: "\<And>c. length (V c) = unat bs"
  let ?C = "bC bs" and ?r = "last_block bs"
  let ?V1 = "store (?C, 0) (le64 1) V"
  let ?G1 = "G\<lparr>mk_checkpoint := Some (?C, 192), mk_di := di_raw bs di (rs(6 := Some (?C, 256)))\<rparr>"
  have sz: "?C < mk_buffer_size G" using gok_size [OF g] by simp
  have fi: "files_raw bs rs ! 7 = \<lparr>mf_ino = 4, mf_start_blocknr = ?C, mf_nblocks = 1, mf_raw_inode = rs 7\<rparr>"
    by (simp add: files_raw_nth files_at)
  have d: "?r \<noteq> ?C" using log_distinct by auto
  have h: "has ?V1 ?C 0 (le64 1)" using l bs_ge by (simp add: has_store)
  have k1: "keep ({?C} \<times> {0..<8}) V ?V1" by (intro keep_more_block keep_refl l) (use bs_ge in simp_all)
  have l1: "length (?V1 c) = unat bs" for c using k1 l by (simp add: keep_def)
  have z1: "has ?V1 ?C (192 * j) (le32 0)" if "1 \<le> j" "j < unat bs div 192" for j
    using that l by (intro has_keep [OF has_zeros [of V ?C, OF z] k1]) (auto simp: le_zero)
  have g1: "gok bs di (rs(6 := Some (?C, 256))) ?G1" using g by (simp add: gok_di)
  have inode: "wpv (init_inode k bs NILFS_CPFILE_INO DT_REG 0 0) M2 V2 ?G1 Q"
    if m: "M \<subseteq> M2" "?C \<in> M2" and k2: "keep ({?C} \<times> UNIV) V V2" and H: "cpfile_hdr bs di V2" for M2 V2
  proof (rule wpv_init_inode [where p = "(?r, 144)", OF g1 fidx_at(1)])
    fix V3 assume k3: "keep ({fst (?r, 144)} \<times> {snd (?r, 144)..<snd (?r, 144) + 56}) V2 V3"
    have "length (V2 c) = unat bs" for c using k2 l by (simp add: keep_def)
    then have "cpfile_hdr bs di V3" by (intro cpfile_hdr_keep [OF H k3]) (use d bs_ge in auto)
    then show "Q () M2 V3 ?G1" using m k3 by (intro Q keep_chain [OF k2 k3]) auto
  qed (use m r rs bs_ge in \<open>auto simp: NILFS_CPFILE_INO_def NILFS_USER_INO_def\<close>)
  have block: "wpv (prepare_cpfile_block k bs ?C 0 1) (insert ?C M) ?V1 G (\<lambda>_ M V G. wpv (init_inode k bs NILFS_CPFILE_INO DT_REG 0 0) M V G Q)"
  proof (rule wpv_cpfile_block [OF g l1 z1])
    fix M2 V2 assume 2: "insert ?C M \<subseteq> M2" "?C \<in> M2" and k2: "keep ({?C} \<times> {192..<unat bs}) ?V1 V2"
      and h2: "has V2 ?C 192 (le32 0)" "has V2 ?C 216 (le64 1)" "has V2 ?C 224 (le64 (di_ctime di))"
        "\<forall>j. 2 \<le> j \<and> j < unat bs div 192 \<longrightarrow> has V2 ?C (192 * j) (le32 2)"
    have "has V2 ?C 0 (le64 1)" by (rule has_keep [OF h k2]) (use l1 bs_ge in auto)
    then have "cpfile_hdr bs di V2" using h2 by (simp add: cpfile_hdr_def)
    moreover have "keep ({?C} \<times> UNIV) V V2" by (rule keep_chain [OF k1 k2]) auto
    ultimately show "wpv (init_inode k bs NILFS_CPFILE_INO DT_REG 0 0) M2 V2 ?G1 Q" using 2 by (intro inode) auto
  qed
  have one: "[0..<unat (1 :: u32)] = [0]" by simp
  show "wpv (prepare_cpfile k bs) M V G Q"
    unfolding prepare_cpfile_def
    by (rule wpv_bind, rule wpv_get_file [OF g fidx_at(1)], unfold fi Let_def nilfs_file_info.simps one,
        rule wpv_map_bind [OF sz], rule wpv_poke_bind, simp, use bs_ge in simp, rule wpv_bind, rule wpv_fold1, use block in simp)
qed

end

text \<open>The inode numbers of the files whose inodes lie in the ifile, in the order of the table.\<close>

definition ifile_inos :: "nat list" where
  "ifile_inos = [2, 7, 1, 8, 9, 10]"

context formatter
begin

definition rawi :: "nat \<Rightarrow> nat \<Rightarrow> ptr option" where
  "rawi n j = (if j < 6 \<and> ifile_inos ! j < n then Some (inode_ptr bs (ifile_inos ! j)) else raw2 j)"

lemma rawi_0: "rawi 0 = raw2"
  by (rule ext) (simp add: rawi_def)

lemma rawi_end: "11 \<le> n \<Longrightarrow> rawi n = raw3"
proof (rule ext)
  fix j :: nat assume n: "11 \<le> n"
  consider "j = 0" | "j = 1" | "j = 2" | "j = 3" | "j = 4" | "j = 5" | "6 \<le> j" by linarith
  then show "rawi n j = raw3 j" using n by cases (simp_all add: rawi_def raw3_def ifile_inos_def)
qed

lemma rawi_same: "\<forall>j < 6. ifile_inos ! j \<noteq> n \<Longrightarrow> rawi (Suc n) = rawi n"
  by (rule ext) (auto simp: rawi_def less_Suc_eq)

lemma rawi_new: "j < 6 \<Longrightarrow> ifile_inos ! j = n \<Longrightarrow> rawi (Suc n) = (rawi n)(j := Some (inode_ptr bs n))"
proof (rule ext)
  fix i assume j: "j < 6" "ifile_inos ! j = n"
  have "distinct ifile_inos" "length ifile_inos = 6" by (simp_all add: ifile_inos_def)
  then have "i < 6 \<Longrightarrow> ifile_inos ! i = n \<longleftrightarrow> i = j" using j by (metis nth_eq_iff_index_eq)
  then show "rawi (Suc n) i = ((rawi n)(j := Some (inode_ptr bs n))) i" using j by (auto simp: rawi_def less_Suc_eq)
qed

lemma rawi_step:
  assumes "n < 11"
  shows "(\<exists>j < 6. fidx ! n = Some j \<and> rawi n j = None \<and> rawi (Suc n) = (rawi n)(j := Some (inode_ptr bs n)))
    \<or> (fidx ! n = None \<or> (\<exists>j < 10. fidx ! n = Some j \<and> rawi n j \<noteq> None)) \<and> rawi (Suc n) = rawi n"
proof -
  have "n = 1 \<or> n = 2 \<or> n = 7 \<or> n = 8 \<or> n = 9 \<or> n = 10 \<or> n = 0 \<or> n = 3 \<or> n = 4 \<or> n = 5 \<or> n = 6"
    using assms by presburger
  then consider "n = 1" | "n = 2" | "n = 7" | "n = 8" | "n = 9" | "n = 10" | "n = 0" | "n = 3" | "n = 4" | "n = 5" | "n = 6"
    by blast
  then show ?thesis
  proof cases
    case 1
    then show ?thesis using rawi_new [of 2 n] by (intro disjI1 exI [of _ 2]) (simp add: ifile_inos_def fidx_def rawi_def raw2_def raw1_def)
  next
    case 2
    then show ?thesis using rawi_new [of 0 n] by (intro disjI1 exI [of _ 0]) (simp add: ifile_inos_def fidx_def rawi_def raw2_def raw1_def)
  next
    case 3
    then show ?thesis using rawi_new [of 1 n] by (intro disjI1 exI [of _ 1]) (simp add: ifile_inos_def fidx_def rawi_def raw2_def raw1_def)
  next
    case 4
    then show ?thesis using rawi_new [of 3 n] by (intro disjI1 exI [of _ 3]) (simp add: ifile_inos_def fidx_def rawi_def raw2_def raw1_def)
  next
    case 5
    then show ?thesis using rawi_new [of 4 n] by (intro disjI1 exI [of _ 4]) (simp add: ifile_inos_def fidx_def rawi_def raw2_def raw1_def)
  next
    case 6
    then show ?thesis using rawi_new [of 5 n] by (intro disjI1 exI [of _ 5]) (simp add: ifile_inos_def fidx_def rawi_def raw2_def raw1_def)
  qed (use rawi_same [of n] in \<open>simp_all add: ifile_inos_def fidx_def rawi_def raw2_def raw1_def All_less_Suc numeral_eq_Suc\<close>)
qed

lemma bs_128: "unat bs = 128 * (unat bs div 128)" "8 \<le> unat bs div 128"
  using bs by (auto simp: mkfs_bs_def)

lemma inode_ptr_at:
  assumes "i < unat bs div 128"
  shows "inode_ptr bs (b * (unat bs div 128) + i) = (bI bs + 2 + of_nat b, 128 * i)"
proof -
  let ?e = "unat bs div 128"
  have e: "unat bs = 128 * ?e" "0 < ?e" using bs_128 by simp_all
  have "128 * (b * ?e + i) div (128 * ?e) = (b * ?e + i) div ?e" by (rule div_mult_mult1) simp
  moreover have "128 * (b * ?e + i) mod (128 * ?e) = 128 * ((b * ?e + i) mod ?e)" by (rule mod_mult_mult1)
  moreover have "(b * ?e + i) div ?e = b" "(b * ?e + i) mod ?e = i" using assms e(2) by simp_all
  ultimately have "128 * (b * ?e + i) div (128 * ?e) = b" "128 * (b * ?e + i) mod (128 * ?e) = 128 * i" by simp_all
  then show ?thesis using e(1) by (simp add: inode_ptr_def)
qed

lemma wpv_ifile_inode:
  assumes g: "gok bs di (rawi n) G" and n: "n < 2 ^ 64"
    and Q: "Q (of_nat (Suc n)) M V (G\<lparr>mk_di := di_raw bs di (rawi (Suc n))\<rparr>)"
  shows "wpv (\<lambda>s. if of_nat n < NILFS_MAX_INITIAL_INO \<and> mk_files s ! unat (of_nat n :: u64) \<noteq> None
            \<and> mf_raw_inode (mi_files (cur_seg s) ! the (mk_files s ! unat (of_nat n :: u64))) = None
         then bindE (set_raw_inode (of_nat n) (inode_ptr bs n)) (\<lambda>_. retE (of_nat n + 1)) s
         else (Inr (of_nat n + 1), s)) M V G Q"
proof -
  have u: "unat (of_nat n :: u64) = n" using n by (rule unat_of_nat_u64)
  have lt: "of_nat n < NILFS_MAX_INITIAL_INO \<longleftrightarrow> n < 11"
    by (simp add: word_less_nat_alt u NILFS_MAX_INITIAL_INO_def NILFS_USER_INO_def)
  have st: "mk_files s = fidx" "mi_files (cur_seg s) = files_raw bs (rawi n)" if "ghost s = G" for s
    using g ghost_fields(10,15) [OF that] by (simp_all add: gok_def gok_cur [OF g] seg_raw_def)
  have skip: "wpv (retE (of_nat n + 1)) M V G Q" if "rawi (Suc n) = rawi n"
  proof (rule wpv_ret)
    have "G\<lparr>mk_di := di_raw bs di (rawi (Suc n))\<rparr> = G" using g that by (simp add: gok_def)
    then show "Q (of_nat n + 1) M V G" using Q by (simp add: add.commute)
  qed
  consider (new) j where "n < 11" "j < 6" "fidx ! n = Some j" "rawi n j = None" "rawi (Suc n) = (rawi n)(j := Some (inode_ptr bs n))"
    | (none) "\<not> n < 11 \<or> fidx ! n = None" "rawi (Suc n) = rawi n"
    | (old) j where "n < 11" "j < 10" "fidx ! n = Some j" "rawi n j \<noteq> None" "rawi (Suc n) = rawi n"
    using rawi_step [of n] rawi_end [of n] rawi_end [of "Suc n"] by (cases "n < 11") auto
  then show ?thesis
  proof cases
    case new
    have "wpv (set_raw_inode (of_nat n) (inode_ptr bs n)) M V G (\<lambda>_. Q (of_nat n + 1))"
      by (rule wpv_set_raw_inode [OF g, of _ j]) (use new Q u in \<open>auto simp: add.commute\<close>)
    then have w: "wpv (bindE (set_raw_inode (of_nat n) (inode_ptr bs n)) (\<lambda>_. retE (of_nat n + 1))) M V G Q"
      by (rule wpv_bind_ret)
    show ?thesis by (rule wpv_cong [OF _ w]) (use new in \<open>simp add: st u lt files_raw_nth\<close>)
  next
    case none
    show ?thesis by (rule wpv_cong [OF _ skip]) (use none in \<open>auto simp: st u lt\<close>)
  next
    case old
    show ?thesis by (rule wpv_cong [OF _ skip]) (use old in \<open>auto simp: st u lt files_raw_nth\<close>)
  qed
qed

lemma wpv_ifile_block:
  assumes g: "gok bs di (rawi (b * (unat bs div 128))) G" and b: "b < 16" and sz: "bI bs + 2 + of_nat b < mk_buffer_size G"
    and Q: "\<And>M'. insert (bI bs + 2 + of_nat b) M \<subseteq> M' \<Longrightarrow>
      Q (of_nat (Suc b * (unat bs div 128))) M' V (G\<lparr>mk_di := di_raw bs di (rawi (Suc b * (unat bs div 128)))\<rparr>)"
  shows "wpv (prepare_ifile_block k bs (bI bs) (b + 2) (of_nat (b * (unat bs div 128)))) M V G Q"
proof -
  let ?e = "unat bs div 128"
  have n: "unat (bs div ucast sizeof_inode) = ?e" by (simp add: sizeof_inode_def unat_div)
  have blk: "bI bs + of_nat (b + 2) = bI bs + 2 + of_nat b" by simp
  let ?I = "\<lambda>i (x :: u64) M' V' G'. x = of_nat (b * ?e + i) \<and> V' = V \<and> G' = G\<lparr>mk_di := di_raw bs di (rawi (b * ?e + i))\<rparr>"
  show ?thesis
    unfolding prepare_ifile_block_def n blk
  proof (rule wpv_map_bind [OF sz], rule wpv_fold [where I = ?I])
    fix i x M1 V1 G1 assume i: "i < ?e" and I: "?I i x M1 V1 G1"
    let ?m = "b * ?e + i"
    have p: "padd (bI bs + 2 + of_nat b, 0) (128 * i) = inode_ptr bs ?m" using inode_ptr_at [OF i, of b] by simp
    have x: "x = of_nat ?m" "V1 = V" "G1 = G\<lparr>mk_di := di_raw bs di (rawi ?m)\<rparr>" using I by simp_all
    have "b * ?e \<le> 16 * 512" using b bs_ge by (intro mult_le_mono) auto
    then have m: "?m < 2 ^ 64" using i bs_ge by simp
    have g1: "gok bs di (rawi ?m) G1" using g x(3) by (simp add: gok_di)
    show "wpv (\<lambda>s. if x < NILFS_MAX_INITIAL_INO \<and> mk_files s ! unat x \<noteq> None
            \<and> mf_raw_inode (mi_files (cur_seg s) ! the (mk_files s ! unat x)) = None
         then bindE (set_raw_inode x (padd (bI bs + 2 + of_nat b, 0) (128 * i))) (\<lambda>_. retE (x + 1)) s
         else (Inr (x + 1), s)) M1 V1 G1 (?I (Suc i))"
      unfolding p x(1) by (rule wpv_ifile_inode [OF g1 m]) (use x in simp)
  next
    fix x M' V' G' assume "insert (bI bs + 2 + of_nat b) M \<subseteq> M'" "?I ?e x M' V' G'"
    then show "Q x M' V' G'" using Q [of M'] by (simp add: add.commute)
  qed (use g in \<open>auto simp: gok_def\<close>)
qed

end

context formatter
begin

lemma wpv_ifile_blocks:
  assumes g: "gok bs di raw2 G"
    and Q: "\<And>x M'. M \<subseteq> M' \<Longrightarrow> \<forall>ino < 11. fst (inode_ptr bs ino) \<in> M' \<Longrightarrow> Q x M' V (G\<lparr>mk_di := di_raw bs di raw3\<rparr>)"
  shows "wpv (foldE (prepare_ifile_block k bs (bI bs)) [2..<unat (ifile_blocks bs)] 0) M V G Q"
proof -
  let ?e = "unat bs div 128" and ?n = "unat (ifile_blocks bs)"
  have n: "bs = 1024 \<and> ?n = 4 \<or> bs \<noteq> 1024 \<and> ?n = 3" by (simp add: ifile_blocks_def)
  have sz: "bI bs + 2 + of_nat b < last_block bs + 1" if "b + 2 < ?n" for b
  proof -
    have "b = 0 \<or> b = 1 \<and> bs = 1024" using n that by auto
    then show ?thesis using bs unfolding mkfs_bs_def by (elim disjE; simp add: block_defs)
  qed
  have big: "11 \<le> (?n - 2) * ?e"
  proof (cases "bs = 1024")
    case True
    then show ?thesis using n by simp
  next
    case False
    then have "16 \<le> ?e" using bs by (auto simp: mkfs_bs_def)
    then show ?thesis using False n by simp
  qed
  let ?I = "\<lambda>b (x :: u64) M' V' G'. x = of_nat ((b - 2) * ?e) \<and> V' = V \<and> G' = G\<lparr>mk_di := di_raw bs di (rawi ((b - 2) * ?e))\<rparr>
    \<and> (\<forall>c. 2 \<le> c \<and> c < b \<longrightarrow> bI bs + of_nat c \<in> M')"
  show ?thesis
  proof (rule wpv_fold [where I = ?I])
    fix b x M1 V1 G1 assume b: "2 \<le> b" "b < ?n" and I: "?I b x M1 V1 G1"
    obtain c where c: "b = c + 2" using b(1) by (metis le_add_diff_inverse2)
    have x: "x = of_nat (c * ?e)" "V1 = V" "G1 = G\<lparr>mk_di := di_raw bs di (rawi (c * ?e))\<rparr>" using I c by simp_all
    have g1: "gok bs di (rawi (c * ?e)) G1" using g x(3) by (simp add: gok_di)
    have sz1: "bI bs + 2 + of_nat c < mk_buffer_size G1" using sz [of c] b c g1 by (simp add: gok_def)
    have c16: "c < 16" using b c n by auto
    show "wpv (prepare_ifile_block k bs (bI bs) b x) M1 V1 G1 (?I (Suc b))"
      unfolding c x(1,2)
    proof (rule wpv_ifile_block [OF g1 c16 sz1])
      fix M' assume m: "insert (bI bs + 2 + of_nat c) M1 \<subseteq> M'"
      have "bI bs + of_nat d \<in> M'" if "2 \<le> d" "d < Suc (c + 2)" for d
      proof (cases "d = c + 2")
        case True
        then have "bI bs + of_nat d = bI bs + 2 + of_nat c" by simp
        moreover have "bI bs + 2 + of_nat c \<in> M'" using m by blast
        ultimately show ?thesis by (simp only:)
      next
        case False
        then show ?thesis using I that m c by auto
      qed
      then show "?I (Suc (c + 2)) (of_nat (Suc c * ?e)) M' V (G1\<lparr>mk_di := di_raw bs di (rawi (Suc c * ?e))\<rparr>)"
        using x(3) by simp
    qed
  next
    fix x M' V' G' assume m: "M \<subseteq> M'" and I: "?I ?n x M' V' G'"
    have "fst (inode_ptr bs ino) \<in> M'" if "ino < 11" for ino
    proof -
      have a: "\<forall>c. 2 \<le> c \<and> c < ?n \<longrightarrow> bI bs + of_nat c \<in> M'" using I by simp
      have "bI bs + of_nat 2 \<in> M'" using spec [OF a, of 2] n by auto
      moreover have "bs = 1024 \<Longrightarrow> bI bs + of_nat 3 \<in> M'" using spec [OF a, of 3] n by auto
      ultimately show ?thesis using inode_ptr_cases [OF bs that] by auto
    qed
    then show "Q x M' V' G'" using Q [OF m, of x] I rawi_end [OF big] by simp
  qed (use n g rawi_0 in \<open>auto simp: gok_def\<close>)
qed

lemma wpv_alloc_inodes:
  assumes sz: "bI bs < mk_buffer_size G" "bI bs + 1 < mk_buffer_size G" and g: "grp bs V (bI bs) 0"
    and Q: "\<And>M' V'. M \<subseteq> M' \<Longrightarrow> keep ({bI bs, bI bs + 1} \<times> UNIV) V V' \<Longrightarrow> grp bs V' (bI bs) 11 \<Longrightarrow> Q () M' V' G"
  shows "wpv (foldE (\<lambda>ino _. alloc_blockgrouped_file_entry k bs (bI bs) (of_nat ino)) [0..<unat NILFS_USER_INO] ()) M V G Q"
proof -
  have n: "unat NILFS_USER_INO = 11" by (simp add: NILFS_USER_INO_def)
  let ?F = "{bI bs, bI bs + 1} \<times> (UNIV :: nat set)"
  let ?I = "\<lambda>i x M' V' G'. G' = G \<and> keep ?F V V' \<and> grp bs V' (bI bs) i"
  show ?thesis unfolding n
  proof (rule wpv_fold [where I = ?I])
    fix i x M1 V1 G1 assume i: "i < 11" and I: "?I i x M1 V1 G1"
    have k1: "keep ?F V V1" and g1: "grp bs V1 (bI bs) i" and G1: "G1 = G" using I by auto
    have "unat (of_nat i :: u64) = i" using i by (intro unat_of_nat_u64) simp
    then show "wpv (alloc_blockgrouped_file_entry k bs (bI bs) (of_nat i)) M1 V1 G1 (?I (Suc i))"
      unfolding G1
    proof (rule wpv_alloc [OF sz g1])
      fix M2 V2 assume k2: "keep ({bI bs} \<times> {0..<4} \<union> {bI bs + 1} \<times> UNIV) V1 V2" and "grp bs V2 (bI bs) (Suc i)"
      moreover have "keep ?F V V2" by (rule keep_chain [OF k1 k2]) auto
      ultimately show "?I (Suc i) () M2 V2 G" by simp
    qed (use i bs_ge in auto)
  qed (use g Q in auto)
qed

lemma wpv_prepare_ifile:
  assumes g: "gok bs di raw2 G" and C: "bC bs \<in> M" and z: "V (bI bs + 1) = replicate (unat bs) 0"
    and Q: "\<And>M' V'. M \<subseteq> M' \<Longrightarrow> \<forall>ino < 11. fst (inode_ptr bs ino) \<in> M' \<Longrightarrow>
      keep ({bI bs, bI bs + 1} \<times> UNIV \<union> {bC bs} \<times> {256..<312}) V V' \<Longrightarrow> grp bs V' (bI bs) 11
      \<Longrightarrow> Q () M' V' (G\<lparr>mk_di := di_raw bs di raw3\<rparr>)"
  shows "wpv (prepare_ifile k bs) M V G Q"
proof (rule wpv_len)
  assume l: "\<And>c. length (V c) = unat bs"
  let ?b = "bI bs" and ?C = "bC bs" and ?G3 = "G\<lparr>mk_di := di_raw bs di raw3\<rparr>"
  let ?inode = "init_inode k bs NILFS_IFILE_INO DT_REG 0 0"
  let ?alloc = "foldE (\<lambda>ino _. alloc_blockgrouped_file_entry k bs ?b (of_nat ino)) [0..<unat NILFS_USER_INO] ()"
  have sz: "?b < mk_buffer_size G" "?b + 1 < mk_buffer_size G" using gok_size [OF g] by simp_all
  have sz3: "?b < mk_buffer_size ?G3" "?b + 1 < mk_buffer_size ?G3" using sz by simp_all
  have g3: "gok bs di raw3 ?G3" using g by (simp add: gok_di)
  have raw: "raw2 6 = Some (?C, 256)" "raw3 6 = Some (?C, 256)" by (simp_all add: raw2_def raw3_def)
  have fi: "files_raw bs raw2 ! 6 = \<lparr>mf_ino = 6, mf_start_blocknr = ?b, mf_nblocks = ifile_blocks bs, mf_raw_inode = raw2 6\<rparr>"
    by (simp add: files_raw_nth files_at)
  have d: "?C \<noteq> ?b" "?C \<noteq> ?b + 1" using log_distinct by auto
  have inode: "wpv ?inode M2 V2 ?G3 Q"
    if m: "M \<subseteq> M2" "\<forall>ino < 11. fst (inode_ptr bs ino) \<in> M2" and k2: "keep ({?b, ?b + 1} \<times> UNIV) V V2" and gr: "grp bs V2 ?b 11" for M2 V2
  proof (rule wpv_init_inode [where p = "(?C, 256)", OF g3 fidx_at(4) _ raw(2)])
    fix V3 assume k3: "keep ({fst (?C, 256)} \<times> {snd (?C, 256)..<snd (?C, 256) + 56}) V2 V3"
    have "length (V2 c) = unat bs" for c using k2 l by (simp add: keep_def)
    then have "grp bs V3 ?b 11" by (intro grp_keep [OF gr k3]) (use d bs_ge in auto)
    then show "Q () M2 V3 ?G3" using m k3 by (intro Q keep_chain [OF k2 k3]) auto
  qed (use m C bs_ge in \<open>auto simp: NILFS_IFILE_INO_def NILFS_USER_INO_def\<close>)
  have alloc: "wpv (bindE ?alloc (\<lambda>_. ?inode)) M1 V1 ?G3 Q"
    if m: "M \<subseteq> M1" "\<forall>ino < 11. fst (inode_ptr bs ino) \<in> M1" and k1: "keep ({?b} \<times> UNIV) V V1" and gr: "grp bs V1 ?b 0" for M1 V1
  proof (rule wpv_bind, rule wpv_alloc_inodes [OF sz3 gr])
    fix M2 V2 assume 2: "M1 \<subseteq> M2" "grp bs V2 ?b 11" and k2: "keep ({?b, ?b + 1} \<times> UNIV) V1 V2"
    have "keep ({?b, ?b + 1} \<times> UNIV) V V2" by (rule keep_chain [OF k1 k2]) auto
    then show "wpv ?inode M2 V2 ?G3 Q" using m 2 by (intro inode) auto
  qed
  show "wpv (prepare_ifile k bs) M V G Q"
    unfolding prepare_ifile_def
  proof (rule wpv_bind, rule wpv_get_file [OF g fidx_at(4)], unfold fi Let_def nilfs_file_info.simps,
      rule wpv_bind, rule wpv_prepare_blockgrouped [where V = V and b = ?b and G = G, OF sz z])
    fix M1 V1 assume 1: "M \<subseteq> M1" "keep ({?b} \<times> UNIV) V V1" "grp bs V1 ?b 0"
    show "wpv (bindE (foldE (prepare_ifile_block k bs ?b) [2..<unat (ifile_blocks bs)] 0) (\<lambda>_. bindE ?alloc (\<lambda>_. ?inode))) M1 V1 G Q"
      by (rule wpv_bind, rule wpv_ifile_blocks [OF g], rule alloc) (use 1 in auto)
  qed
qed

end

end
