(* ===== verification/Mkfs_Commit.thy ===== *)
theory Mkfs_Commit
  imports Mkfs_Format
begin

text \<open>
  The root directory, the reserved files and the commit of the initial log
  (\<open>src/sbin/mkfs.c\<close>): what \<open>nilfs_mkfs_make_rootdir\<close>, \<open>nilfs_mkfs_make_reserved_files\<close> and
  \<open>commit_segment\<close> store, as triples of the weakest precondition of \<open>Mkfs_Format\<close>. The
  predicate \<open>prepared\<close> holds of the blocks before the commit and \<open>committed\<close> after it: every
  file has its entry in the summary, its block pointers and, but for the DAT itself, an
  entry of the DAT for each of its blocks, and the three checksums are right.
\<close>

text \<open>The root directory: the entries \<open>.\<close> and \<open>..\<close>, both the root inode, the second one reaching to the
  end of the block.\<close>

definition dir_entry1 :: "(nat \<times> bytes) list" where
  "dir_entry1 = [(0, le64 2), (10, [1]), (8, le16 16), (11, [2]), (12, [46, 0, 0, 0])]"

definition dir_entry2 :: "u64 \<Rightarrow> (nat \<times> bytes) list" where
  "dir_entry2 bs =
     [(16, le64 2), (26, [2]), (24, le16 (ucast (bs - 16))), (27, [2]), (28, [46, 46, 0, 0, 0, 0, 0, 0])]"

definition rootdir_ok :: "u64 \<Rightarrow> blocks \<Rightarrow> bool" where
  "rootdir_ok bs V \<longleftrightarrow> (\<forall>(off, v) \<in> set (dir_entry1 @ dir_entry2 bs). has V (first_block bs + 1) off v)"

lemma name_padding: "replicate 6 (0 :: u8) = [0, 0, 0, 0, 0, 0]" "replicate 7 (0 :: u8) = [0, 0, 0, 0, 0, 0, 0]"
  by (simp_all add: numeral_eq_Suc)

lemma has_take: "has V b off v \<Longrightarrow> has V b off (take n v)"
  unfolding has_def by (metis length_take min.commute take_take)

lemma rootdir_keep:
  assumes "rootdir_ok bs V" "keep F V V'" "\<And>i. (first_block bs + 1, i) \<notin> F"
  shows "rootdir_ok bs V'"
  using assms keep_block [OF assms(2,3)] by (simp add: rootdir_ok_def has_def)

context formatter
begin

lemma rec_len_2: "nilfs_rec_len_to_disk (ucast (bs - ucast (NILFS_DIR_REC_LEN 1))) = retE (ucast (bs - 16))"
  using bs unfolding mkfs_bs_def
  by (elim disjE; simp add: NILFS_DIR_REC_LEN_def nilfs_rec_len_to_disk_def)

lemma rec_len_1: "nilfs_rec_len_to_disk (NILFS_DIR_REC_LEN 1) = retE 16"
  by (simp add: NILFS_DIR_REC_LEN_def nilfs_rec_len_to_disk_def)

lemma wpv_inc_link_count:
  assumes g: "gok bs di rs G" "fidx ! unat ino = Some j" "j < 10" "rs j = Some p"
    and p: "fst p \<in> M" "snd p + 128 \<le> unat bs"
    and Q: "\<And>V'. keep ({fst p} \<times> {snd p..<snd p + 56}) V V' \<Longrightarrow> Q () M V' G"
  shows "wpv (inc_link_count ino) M V G Q"
proof (rule wpv_len)
  assume l: "\<And>c. length (V c) = unat bs"
  show "wpv (inc_link_count ino) M V G Q"
    unfolding inc_link_count_def
    by (rule wpv_bind, rule wpv_get_raw_inode [OF g], rule wpv_peek_bind, use p in simp, use p in simp,
        intro wpv_poke Q keep_more_block keep_refl) (use p l in simp_all)
qed

lemma wpv_make_rootdir:
  assumes g: "gok bs di raw3 G" and M: "fst (inode_ptr bs 2) \<in> M"
    and Q: "\<And>M' V'. M \<subseteq> M' \<Longrightarrow> keep ({first_block bs + 1} \<times> UNIV \<union> {fst (inode_ptr bs 2)} \<times> {snd (inode_ptr bs 2)..<snd (inode_ptr bs 2) + 56}) V V'
      \<Longrightarrow> rootdir_ok bs V' \<Longrightarrow> Q () M' V' G"
  shows "wpv (nilfs_mkfs_make_rootdir k bs) M V G Q"
proof (rule wpv_len)
  assume l: "\<And>c. length (V c) = unat bs"
  let ?R = "first_block bs + 1" and ?p = "inode_ptr bs 2"
  let ?FI = "{fst ?p} \<times> {snd ?p..<snd ?p + 56}"
  have sz: "?R < mk_buffer_size G" using gok_size [OF g] by simp
  have raw: "raw3 0 = Some ?p" by (simp add: raw3_def)
  have p: "snd ?p + 128 \<le> unat bs" "fst ?p \<noteq> ?R" using inode_block [OF bs, of 2] by auto
  have fi: "files_raw bs raw3 ! 0 = \<lparr>mf_ino = 2, mf_start_blocknr = ?R, mf_nblocks = 1, mf_raw_inode = raw3 0\<rparr>"
    by (simp add: files_raw_nth files_at)
  note args = g fidx_at(5) _ raw
  have entries: "wpv (bindE (put_dir_entry (?R, 0) (NILFS_DIR_REC_LEN 1) [46]) (\<lambda>_. bindE (next_dir_entry (?R, 0)) (\<lambda>de.
       bindE (put_dir_entry de (ucast (bs - ucast (NILFS_DIR_REC_LEN 1))) [46, 46]) (\<lambda>_. inc_link_count NILFS_ROOT_INO)))) M1 V1 G Q"
    if M1: "M \<subseteq> M1" "?R \<in> M1" and k1: "keep ?FI V V1" for M1 V1
  proof -
    have l1: "length (V1 c) = unat bs" for c using k1 l by (simp add: keep_def)
    let ?ps1 = "[(0, le64 2), (10, [1]), (8, le16 16), (11, [2]), (12, [46, 0, 0, 0, 0, 0, 0, 0])]"
    let ?V2 = "stores ?R ?ps1 V1" and ?V3 = "stores ?R (dir_entry2 bs) (stores ?R ?ps1 V1)"
    have "(\<forall>(off, v) \<in> set ?ps1. has ?V2 ?R off v) \<and> (\<forall>c. length (?V2 c) = length (V1 c))"
      by (rule has_stores) (use l1 bs_ge in \<open>auto simp: apart_def\<close>)
    then have h2: "\<forall>(off, v) \<in> set ?ps1. has ?V2 ?R off v" and l2: "length (?V2 c) = unat bs" for c using l1 by auto
    have "(\<forall>(off, v) \<in> set (dir_entry2 bs). has ?V3 ?R off v) \<and> (\<forall>c. length (?V3 c) = length (?V2 c))"
      by (rule has_stores) (use l2 bs_ge in \<open>auto simp: apart_def dir_entry2_def\<close>)
    then have h3: "\<forall>(off, v) \<in> set (dir_entry2 bs). has ?V3 ?R off v" and l3: "length (?V3 c) = unat bs" for c using l2 by auto
    have k2: "keep ({?R} \<times> {0..<unat bs}) V1 ?V2"
      unfolding stores_simps by (intro keep_more_block keep_refl) (use l1 bs_ge in simp_all)
    have k23: "keep ({?R} \<times> {16..<unat bs}) ?V2 ?V3"
      unfolding dir_entry2_def stores_simps(1) stores_simps(2) [of ?R 16] stores_simps(2) [of ?R 24] stores_simps(2) [of ?R 26]
        stores_simps(2) [of ?R 27] stores_simps(2) [of ?R 28]
      by (intro keep_more_block keep_refl) (use l2 bs_ge in simp_all)
    have k3: "keep ({?R} \<times> {0..<unat bs}) V1 ?V3" by (rule keep_chain [OF k2 k23]) auto
    have n4: "has ?V2 ?R 12 [46, 0, 0, 0]" using has_take [of ?V2 ?R 12 "[46, 0, 0, 0, 0, 0, 0, 0]" 4] h2 by simp
    have "\<forall>(off, v) \<in> set dir_entry1. has ?V2 ?R off v \<and> off + length v \<le> 16" using h2 n4 by (simp add: dir_entry1_def)
    then have "\<forall>(off, v) \<in> set dir_entry1. has ?V3 ?R off v"
      using has_keep [OF _ k23] l2 bs_ge by fastforce
    then have r3: "rootdir_ok bs ?V3" using h3 by (auto simp: rootdir_ok_def)
    have rl: "le16_at (take 2 (drop 8 (?V2 ?R))) 0 = 16" using h2 by (intro has_peek16) simp
    have link: "wpv (inc_link_count NILFS_ROOT_INO) M1 ?V3 G Q"
    proof (rule wpv_inc_link_count [OF args])
      fix V4 assume k4: "keep ?FI ?V3 V4"
      have "rootdir_ok bs V4" by (rule rootdir_keep [OF r3 k4]) (use p(2) in auto)
      then show "Q () M1 V4 G" using M1 by (intro Q keep_chain [OF keep_trans [OF k1 k3] k4]) auto
    qed (use M M1 p in auto)
    show ?thesis
    proof (rule wpv_bind)
      have n2: "wpv (bindE (put_dir_entry (?R, 16) (ucast (bs - ucast (NILFS_DIR_REC_LEN 1))) [46, 46]) (\<lambda>_. inc_link_count NILFS_ROOT_INO)) M1 ?V2 G Q"
        using link M1 bs_ge unfolding put_dir_entry_def rec_len_2 bindE_retE dir_entry2_def stores_simps
        by (intro wpv_bind [of "bindE _ _"] wpv_poke_bind wpv_poke) (simp_all add: NILFS_ROOT_INO_def NILFS_FT_DIR_def name_padding)
      have "wpv (bindE (next_dir_entry (?R, 0)) (\<lambda>de. bindE (put_dir_entry de (ucast (bs - ucast (NILFS_DIR_REC_LEN 1))) [46, 46])
          (\<lambda>_. inc_link_count NILFS_ROOT_INO))) M1 ?V2 G Q"
        unfolding next_dir_entry_def
        by (rule wpv_bind, rule wpv_peek_bind) (use M1 bs_ge rl n2 in \<open>auto intro!: wpv_ret simp: nilfs_rec_len_from_disk_def NILFS_MAX_REC_LEN_def\<close>)
      then show "wpv (put_dir_entry (?R, 0) (NILFS_DIR_REC_LEN 1) [46]) M1 V1 G (\<lambda>_ M V G. wpv (bindE (next_dir_entry (?R, 0))
          (\<lambda>de. bindE (put_dir_entry de (ucast (bs - ucast (NILFS_DIR_REC_LEN 1))) [46, 46]) (\<lambda>_. inc_link_count NILFS_ROOT_INO))) M V G Q)"
        using M1 bs_ge unfolding put_dir_entry_def rec_len_1 bindE_retE stores_simps
        by (intro wpv_poke_bind wpv_poke) (simp_all add: NILFS_ROOT_INO_def NILFS_FT_DIR_def name_padding)
    qed
  qed
  show "wpv (nilfs_mkfs_make_rootdir k bs) M V G Q"
    unfolding nilfs_mkfs_make_rootdir_def
  proof (rule wpv_bind, rule wpv_get_file [OF g fidx_at(5)], unfold fi Let_def nilfs_file_info.simps,
      rule wpv_map_bind [OF sz], rule wpv_bind, rule wpv_init_inode [OF args])
    fix V1 assume "keep ?FI V V1"
    then show "wpv (bindE (put_dir_entry (?R, 0) (NILFS_DIR_REC_LEN 1) [46]) (\<lambda>_. bindE (next_dir_entry (?R, 0)) (\<lambda>de.
       bindE (put_dir_entry de (ucast (bs - ucast (NILFS_DIR_REC_LEN 1))) [46, 46]) (\<lambda>_. inc_link_count NILFS_ROOT_INO)))) (insert ?R M) V1 G Q"
      by (intro entries) auto
  qed (use M p in \<open>auto simp: NILFS_ROOT_INO_def NILFS_USER_INO_def\<close>)
qed

lemma inode_footprints: "ino < 11 \<Longrightarrow> fst (inode_ptr bs ino) \<in> {bI bs + 2, bI bs + 3}"
  using inode_ptr_cases [OF bs, of ino] by auto

text \<open>The inodes of the reserved files: only inode bytes of the ifile change.\<close>

definition inode_bytes :: "nat set \<Rightarrow> (u64 \<times> nat) set" where
  "inode_bytes inos = (\<Union>ino \<in> inos. {fst (inode_ptr bs ino)} \<times> {snd (inode_ptr bs ino)..<snd (inode_ptr bs ino) + 56})"

lemma wpv_make_reserved:
  assumes g: "gok bs di raw3 G" and M: "\<forall>ino < 11. fst (inode_ptr bs ino) \<in> M"
    and Q: "\<And>V'. keep (inode_bytes {7, 1, 8, 9, 10}) V V' \<Longrightarrow> Q () M V' G"
  shows "wpv (nilfs_mkfs_make_reserved_files k bs) M V G Q"
proof -
  have step: "wpv (init_inode k bs ino ty md sz) M V1 G Q1"
    if "fidx ! unat ino = Some j" "j < 10" "raw3 j = Some (inode_ptr bs (unat ino))" "unat ino < 11"
      "keep (inode_bytes A) V V1" "\<And>V'. keep (inode_bytes (insert (unat ino) A)) V V' \<Longrightarrow> Q1 () M V' G"
    for ino j ty md sz V1 A Q1
  proof (rule wpv_init_inode [OF g that(1-3)])
    fix V2 assume k2: "keep ({fst (inode_ptr bs (unat ino))} \<times> {snd (inode_ptr bs (unat ino))..<snd (inode_ptr bs (unat ino)) + 56}) V1 V2"
    show "Q1 () M V2 G" by (rule that(6), rule keep_chain [OF that(5) k2]) (auto simp: inode_bytes_def)
  qed (use that M inode_block(3) [OF bs that(4)] in \<open>auto simp: NILFS_USER_INO_def word_less_nat_alt\<close>)
  have k0: "keep (inode_bytes {}) V V" by simp
  have n: "unat NILFS_ATIME_INO = 7" by (simp add: NILFS_ATIME_INO_def)
  show ?thesis
    unfolding nilfs_mkfs_make_reserved_files_def
    apply (rule wpv_bind, rule step [OF fidx_at(6) _ _ _ k0], simp, simp add: raw3_def n, simp add: n)
    apply (rule wpv_bind, rule step [OF fidx_at(7)], simp, simp add: raw3_def, simp, assumption)
    apply (rule wpv_bind, rule step [OF fidx_at(8)], simp, simp add: raw3_def, simp, assumption)
    apply (rule wpv_bind, rule step [OF fidx_at(9)], simp, simp add: raw3_def, simp, assumption)
    apply (rule step [OF fidx_at(10)], simp, simp add: raw3_def, simp, assumption)
    apply (rule Q, erule keep_mono)
    apply (auto simp: inode_bytes_def n)
    done
qed

end

section \<open>Block numbers and the summary's items\<close>

text \<open>The translation entry of a virtual block number.\<close>

definition dat_entry :: "u64 \<Rightarrow> blocks \<Rightarrow> nat \<Rightarrow> u64 \<Rightarrow> bool" where
  "dat_entry bs V v blocknr \<longleftrightarrow> has V (bD bs + 2) (32 * v) (le64 blocknr) \<and> has V (bD bs + 2) (32 * v + 8) (le64 1)
     \<and> has V (bD bs + 2) (32 * v + 16) (le64 NILFS_CNO_MAX_mkfs)"

lemma dat_entry_keep:
  assumes "dat_entry bs V v blocknr" "keep F V V'" "\<And>i. 32 * v \<le> i \<Longrightarrow> i < 32 * v + 24 \<Longrightarrow> (bD bs + 2, i) \<notin> F"
    "32 * v + 24 \<le> length (V (bD bs + 2))"
  shows "dat_entry bs V' v blocknr"
proof -
  have "has V' (bD bs + 2) off x" if "has V (bD bs + 2) off x" "32 * v \<le> off" "off + length x \<le> 32 * v + 24" for off x
    using that assms(3,4) by (intro has_keep [OF that(1) assms(2)]) auto
  then show ?thesis using assms(1) by (simp add: dat_entry_def)
qed

text \<open>The first \<open>n\<close> entries of the DAT are allocated and numbered from one on.\<close>

context formatter
begin

lemma wpv_segsum_info:
  assumes "gok bs di rs G" "unat off + unat item \<le> unat bs" "0 < unat item"
    and Q: "Q ((first_block bs, unat off), off + ucast item) (insert (first_block bs) M) V G"
  shows "wpv (map_segsum_info k bs (first_block bs) off item) M V G Q"
proof -
  have sz: "first_block bs + 0 < mk_buffer_size G" using gok_size [OF assms(1)] by simp
  have lt: "off < bs" using assms(2,3) by (simp add: word_less_nat_alt)
  then have d: "off div bs = 0" "off mod bs = off" by (simp_all add: word_less_nat_alt word_arith_nat_div word_arith_nat_mod unat_div unat_mod)
  have "unat (bs - off) = unat bs - unat off" using lt by (simp add: unat_sub_u64 order_less_imp_le)
  then have nb: "\<not> bs - off < ucast item" using assms(2) by (simp add: word_less_nat_alt)
  show ?thesis
    unfolding map_segsum_info_def d Let_def if_not_P [OF nb] prod.case
    by (rule wpv_map_bind [OF sz], rule wpv_ret) (use Q in simp)
qed

lemma wpv_assign_vblocknr:
  assumes g: "gok bs di rs G" and v: "mk_vblocknr G = of_nat v" "v < 16" and gr: "grp bs V (bD bs) v"
    and Q: "\<And>M' V'. M \<subseteq> M' \<Longrightarrow> keep ({bD bs} \<times> {0..<4} \<union> {bD bs + 1} \<times> UNIV \<union> {bD bs + 2} \<times> {32 * v..<32 * v + 24}) V V'
      \<Longrightarrow> grp bs V' (bD bs) (Suc v) \<Longrightarrow> dat_entry bs V' v blocknr \<Longrightarrow> Q (of_nat v) M' V' (G\<lparr>mk_vblocknr := of_nat (Suc v)\<rparr>)"
  shows "wpv (assign_vblocknr k bs blocknr) M V G Q"
proof -
  let ?D = "bD bs" and ?G = "G\<lparr>mk_vblocknr := of_nat (Suc v)\<rparr>"
  have fi: "files_raw bs rs ! 9 = \<lparr>mf_ino = 3, mf_start_blocknr = ?D, mf_nblocks = 3, mf_raw_inode = rs 9\<rparr>"
    by (simp add: files_raw_nth files_at)
  have g': "gok bs di rs ?G" using g by simp
  have sz: "?D < mk_buffer_size ?G" "?D + 1 < mk_buffer_size ?G" "?D + 2 < mk_buffer_size ?G" using gok_size [OF g'] by simp_all
  have dd: "?D + 2 \<noteq> ?D" "?D + 2 \<noteq> ?D + 1" using log_distinct by auto
  have uv: "unat (of_nat v :: u64) = v" using v(2) by (intro unat_of_nat_u64) simp
  have epb: "unat (ucast sizeof_dat_entry :: u64) = 32" by (simp add: sizeof_dat_entry_def)
  have v32: "v < unat bs div 32" "32 * v + 32 \<le> unat bs" using v(2) bs_ge by simp_all
  have q: "of_nat v div (bs div ucast sizeof_dat_entry) = (0 :: u64)" "unat (of_nat v mod (bs div ucast sizeof_dat_entry) :: u64) = v"
    using v32(1) by (simp_all only: word_unat_eq_iff unat_div unat_mod epb uv unat_0 div_less mod_less)
  have blk: "?D + ucast (group_desc_blocks_per_group + bitmap_blocks_per_group) + (0 :: u64) = ?D + 2"
    by (simp add: group_desc_blocks_per_group_def bitmap_blocks_per_group_def)
  have nb: "\<not> ?D + ucast (3 :: u32) \<le> ?D + 2"
    using bs unfolding mkfs_bs_def by (elim disjE; simp add: block_defs)
  let ?rest = "\<lambda>p. bindE (poke (padd p 0) (le64 blocknr)) (\<lambda>_. bindE (poke (padd p 8) (le64 1)) (\<lambda>_.
      bindE (poke (padd p 16) (le64 NILFS_CNO_MAX_mkfs)) (\<lambda>_. retE (of_nat v :: u64))))"
  have rest: "wpv (?rest (?D + 2, 32 * v)) M1 V1 ?G Q"
    if m: "M \<subseteq> M1" "?D + 2 \<in> M1" and k1: "keep ({?D} \<times> {0..<4} \<union> {?D + 1} \<times> UNIV) V V1" and g1: "grp bs V1 ?D (Suc v)" for M1 V1
  proof (rule wpv_len)
    assume l1: "\<And>c. length (V1 c) = unat bs"
    let ?ps = "[(32 * v, le64 blocknr), (32 * v + 8, le64 1), (32 * v + 16, le64 NILFS_CNO_MAX_mkfs)]"
    let ?V2 = "stores (?D + 2) ?ps V1"
    have h: "\<forall>(off, x) \<in> set ?ps. has ?V2 (?D + 2) off x"
      by (rule has_stores [THEN conjunct1]) (use l1 v32 in \<open>auto simp: apart_def\<close>)
    have k2: "keep ({?D + 2} \<times> {32 * v..<32 * v + 24}) V1 ?V2"
      unfolding stores_simps by (intro keep_more_block keep_refl) (use l1 v32 in simp_all)
    have "grp bs ?V2 ?D (Suc v)" by (rule grp_keep [OF g1 k2]) (use dd l1 bs_ge in auto)
    moreover have "keep ({?D} \<times> {0..<4} \<union> {?D + 1} \<times> UNIV \<union> {?D + 2} \<times> {32 * v..<32 * v + 24}) V ?V2"
      by (rule keep_trans [OF k1 k2])
    ultimately have "Q (of_nat v) M1 ?V2 ?G" using h by (intro Q m(1)) (simp_all add: dat_entry_def)
    then show "wpv (?rest (?D + 2, 32 * v)) M1 V1 ?G Q"
      unfolding stores_simps by (intro wpv_poke_bind wpv_ret) (use m v32 in simp_all)
  qed
  let ?cno = "\<lambda>p s. bindE (poke (padd (padd p (32 * v)) 0) (le64 blocknr)) (\<lambda>_.
        bindE (poke (padd (padd p (32 * v)) 8) (le64 (mk_cno s))) (\<lambda>_.
        bindE (poke (padd (padd p (32 * v)) 16) (le64 NILFS_CNO_MAX_mkfs)) (\<lambda>_. retE (of_nat v :: u64)))) s"
  let ?body = "bindE (alloc_blockgrouped_file_entry k bs ?D (of_nat v)) (\<lambda>_. if ?D + 2 \<ge> ?D + ucast (3 :: u32) then failE EAbort
      else bindE (map_disk_buffer k bs (?D + 2) True) ?cno)"
  have body: "wpv ?body M V ?G Q"
    unfolding if_not_P [OF nb]
  proof (rule wpv_bind, rule wpv_alloc [OF sz(1,2) gr uv])
    fix M1 V1 assume 1: "M \<subseteq> M1" "keep ({?D} \<times> {0..<4} \<union> {?D + 1} \<times> UNIV) V V1" "grp bs V1 ?D (Suc v)"
    show "wpv (bindE (map_disk_buffer k bs (?D + 2) True) ?cno) M1 V1 ?G Q"
    proof (rule wpv_map_bind [OF sz(3)], rule wpv_cong)
      fix s assume "ghost s = ?G"
      then have "mk_cno s = 1" using ghost_fields(13) [of s ?G] g' by (simp add: gok_def)
      then show "?cno (?D + 2, 0) s = ?rest (?D + 2, 32 * v) s" by simp
    qed (use 1 in \<open>intro rest; auto\<close>)
  qed (use v32 in auto)
  show ?thesis
    unfolding assign_vblocknr_def
    apply (rule wpv_bind, rule wpv_get_file [OF g fidx_at(3)])
    apply (rule wpv_step [where u = "\<lambda>s. s\<lparr>mk_vblocknr := of_nat (Suc v)\<rparr>" and G' = ?G and m' = ?body])
    subgoal for s
    proof -
      assume s: "ghost s = G"
      have vs: "mk_vblocknr s = of_nat v" using ghost_fields(14) [OF s] v(1) by simp
      have vS: "of_nat v + 1 = (of_nat (Suc v) :: u64)" by simp
      show ?thesis unfolding fi Let_def nilfs_file_info.simps vs q blk vS ..
    qed
    subgoal by (auto simp: ghost_def)
    subgoal by (rule body)
    done
qed

end

text \<open>
  What \<open>update_blocknr\<close> records of a file: its finfo, and for each block the virtual block
  number in the summary and in the inode's block mapping, translated by the DAT to the
  block's place on the disk. The DAT's own blocks are mapped directly.
\<close>

definition finfo_ok :: "u64 \<Rightarrow> blocks \<Rightarrow> nat \<Rightarrow> u64 \<Rightarrow> nat \<Rightarrow> bool" where
  "finfo_ok bs V off ino n \<longleftrightarrow> has V (first_block bs) off (le64 ino) \<and> has V (first_block bs) (off + 8) (le64 1)
     \<and> has V (first_block bs) (off + 16) (le32 (of_nat n)) \<and> has V (first_block bs) (off + 20) (le32 (of_nat n))"

definition vblock_ok :: "u64 \<Rightarrow> blocks \<Rightarrow> nat \<Rightarrow> ptr \<Rightarrow> nat \<Rightarrow> u64 \<Rightarrow> nat \<Rightarrow> bool" where
  "vblock_ok bs V off raw v start i \<longleftrightarrow> has V (first_block bs) (off + 24 + 16 * i) (le64 (of_nat (v + i)))
     \<and> has V (first_block bs) (off + 32 + 16 * i) (le64 (of_nat i))
     \<and> has V (fst raw) (snd raw + 64 + 8 * i) (le64 (of_nat (v + i)))
     \<and> dat_entry bs V (v + i) (start + of_nat i)"

definition dblock_ok :: "u64 \<Rightarrow> blocks \<Rightarrow> nat \<Rightarrow> ptr \<Rightarrow> u64 \<Rightarrow> nat \<Rightarrow> bool" where
  "dblock_ok bs V off raw start i \<longleftrightarrow> has V (first_block bs) (off + 24 + 8 * i) (le64 (of_nat i))
     \<and> has V (fst raw) (snd raw + 64 + 8 * i) (le64 (start + of_nat i))"

lemma finfo_keep:
  assumes "finfo_ok bs V off ino n" "keep F V V'" "\<And>i. off \<le> i \<Longrightarrow> i < off + 24 \<Longrightarrow> (first_block bs, i) \<notin> F"
    "off + 24 \<le> length (V (first_block bs))"
  shows "finfo_ok bs V' off ino n"
proof -
  have "has V' (first_block bs) o' x" if "has V (first_block bs) o' x" "off \<le> o'" "o' + length x \<le> off + 24" for o' x
    using that assms(3,4) by (intro has_keep [OF that(1) assms(2)]) auto
  then show ?thesis using assms(1) by (simp add: finfo_ok_def)
qed

lemma vblock_keep:
  assumes "vblock_ok bs V off raw v start i" "keep F V V'"
    "\<And>j. off + 24 + 16 * i \<le> j \<Longrightarrow> j < off + 40 + 16 * i \<Longrightarrow> (first_block bs, j) \<notin> F"
    "\<And>j. snd raw + 64 + 8 * i \<le> j \<Longrightarrow> j < snd raw + 72 + 8 * i \<Longrightarrow> (fst raw, j) \<notin> F"
    "\<And>j. 32 * (v + i) \<le> j \<Longrightarrow> j < 32 * (v + i) + 24 \<Longrightarrow> (bD bs + 2, j) \<notin> F"
    "off + 40 + 16 * i \<le> length (V (first_block bs))" "snd raw + 72 + 8 * i \<le> length (V (fst raw))"
    "32 * (v + i) + 24 \<le> length (V (bD bs + 2))"
  shows "vblock_ok bs V' off raw v start i"
proof -
  have "has V' (first_block bs) (off + 24 + 16 * i) (le64 (of_nat (v + i)))" "has V' (first_block bs) (off + 32 + 16 * i) (le64 (of_nat i))"
    "has V' (fst raw) (snd raw + 64 + 8 * i) (le64 (of_nat (v + i)))"
    using assms(1,3,4,6,7) unfolding vblock_ok_def by (auto intro!: has_keep [OF _ assms(2)])
  moreover have "dat_entry bs V' (v + i) (start + of_nat i)"
    using assms(1,5,8) by (intro dat_entry_keep [OF _ assms(2)]) (auto simp: vblock_ok_def)
  ultimately show ?thesis by (simp add: vblock_ok_def)
qed

lemma dblock_keep:
  assumes "dblock_ok bs V off raw start i" "keep F V V'"
    "\<And>j. off + 24 + 8 * i \<le> j \<Longrightarrow> j < off + 32 + 8 * i \<Longrightarrow> (first_block bs, j) \<notin> F"
    "\<And>j. snd raw + 64 + 8 * i \<le> j \<Longrightarrow> j < snd raw + 72 + 8 * i \<Longrightarrow> (fst raw, j) \<notin> F"
    "off + 32 + 8 * i \<le> length (V (first_block bs))" "snd raw + 72 + 8 * i \<le> length (V (fst raw))"
  shows "dblock_ok bs V' off raw start i"
  using assms(1,3-6) unfolding dblock_ok_def by (auto intro!: has_keep [OF _ assms(2)])

context formatter
begin

definition dat_bytes :: "nat \<Rightarrow> nat \<Rightarrow> (u64 \<times> nat) set" where
  "dat_bytes v n = {bD bs} \<times> {0..<4} \<union> {bD bs + 1} \<times> UNIV \<union> {bD bs + 2} \<times> {32 * v..<32 * (v + n)}"

definition binfo_body :: "u64 \<Rightarrow> ptr \<Rightarrow> nat \<Rightarrow> u64 \<Rightarrow> ('w mkfs, u64) act" where
  "binfo_body start raw i off =
     bindE (map_segsum_info k bs (first_block bs) off sizeof_binfo_v) (\<lambda>(pbinfo_v, sum_offset).
       bindE (assign_vblocknr k bs (start + of_nat i)) (\<lambda>vblocknr.
       bindE (poke (padd pbinfo_v 0) (le64 vblocknr)) (\<lambda>_.
       bindE (poke (padd pbinfo_v 8) (le64 (of_nat i))) (\<lambda>_.
       bindE (poke (i_bmap raw (i + 1)) (le64 vblocknr)) (\<lambda>_.
         retE sum_offset)))))"

lemma wpv_binfo:
  assumes g: "gok bs di rs G" and v: "mk_vblocknr G = of_nat (v + i)" "v + i < 16" and gr: "grp bs V (bD bs) (v + i)"
    and off: "off + 40 + 16 * i \<le> unat bs" and raw: "fst raw \<in> M" "snd raw + 112 \<le> unat bs" "i < 6"
    and dis: "fst raw \<notin> {first_block bs, bD bs, bD bs + 1, bD bs + 2}"
    and Q: "\<And>M' V'. M \<subseteq> M' \<Longrightarrow> keep ({first_block bs} \<times> {off + 24 + 16 * i..<off + 40 + 16 * i}
        \<union> {fst raw} \<times> {snd raw + 64 + 8 * i..<snd raw + 72 + 8 * i} \<union> dat_bytes (v + i) 1) V V'
      \<Longrightarrow> grp bs V' (bD bs) (v + Suc i) \<Longrightarrow> vblock_ok bs V' off raw v start i
      \<Longrightarrow> Q (of_nat (off + 40 + 16 * i)) M' V' (G\<lparr>mk_vblocknr := of_nat (v + Suc i)\<rparr>)"
  shows "wpv (binfo_body start raw i (of_nat (off + 24 + 16 * i))) M V G Q"
proof -
  let ?f = "first_block bs" and ?D = "bD bs" and ?o = "off + 24 + 16 * i" and ?G = "G\<lparr>mk_vblocknr := of_nat (v + Suc i)\<rparr>"
  have uo: "unat (of_nat ?o :: u64) = ?o" using off bs_ge by (intro unat_of_nat_u64) simp
  have fd: "?f \<noteq> ?D" "?f \<noteq> ?D + 1" "?f \<noteq> ?D + 2" using log_distinct by auto
  have pokes: "wpv (bindE (poke (padd (?f, ?o) 0) (le64 (of_nat (v + i)))) (\<lambda>_. bindE (poke (padd (?f, ?o) 8) (le64 (of_nat i))) (\<lambda>_.
      bindE (poke (i_bmap raw (i + 1)) (le64 (of_nat (v + i)))) (\<lambda>_. retE (of_nat (off + 40 + 16 * i)))))) M1 V1 ?G Q"
    if m: "insert ?f M \<subseteq> M1" and k1: "keep ({?D} \<times> {0..<4} \<union> {?D + 1} \<times> UNIV \<union> {?D + 2} \<times> {32 * (v + i)..<32 * (v + i) + 24}) V V1"
      and g1: "grp bs V1 ?D (Suc (v + i))" and d1: "dat_entry bs V1 (v + i) (start + of_nat i)" for M1 V1
  proof (rule wpv_len)
    assume l1: "\<And>c. length (V1 c) = unat bs"
    let ?ps = "[(?o, le64 (of_nat (v + i))), (?o + 8, le64 (of_nat i))]"
    define V2 where "V2 = stores ?f ?ps V1"
    define V3 where "V3 = store (fst raw, snd raw + 64 + 8 * i) (le64 (of_nat (v + i))) V2"
    have "(\<forall>(off, x) \<in> set ?ps. has V2 ?f off x) \<and> (\<forall>c. length (V2 c) = length (V1 c))"
      unfolding V2_def by (rule has_stores) (use l1 off in \<open>auto simp: apart_def\<close>)
    then have h2: "has V2 ?f ?o (le64 (of_nat (v + i)))" "has V2 ?f (?o + 8) (le64 (of_nat i))" and l2: "length (V2 c) = unat bs" for c
      using l1 by auto
    have k2: "keep ({?f} \<times> {?o..<?o + 16}) V1 V2"
      unfolding V2_def stores_simps by (intro keep_more_block keep_refl) (use l1 off in simp_all)
    have k3: "keep ({fst raw} \<times> {snd raw + 64 + 8 * i..<snd raw + 72 + 8 * i}) V2 V3"
      unfolding V3_def by (intro keep_more_block keep_refl l2) (use raw in simp_all)
    have kk: "keep ({?f} \<times> {?o..<off + 40 + 16 * i} \<union> {fst raw} \<times> {snd raw + 64 + 8 * i..<snd raw + 72 + 8 * i} \<union> dat_bytes (v + i) 1) V V3"
      by (rule keep_chain [OF keep_trans [OF k1 k2] k3]) (auto simp: dat_bytes_def)
    have h3: "has V3 ?f ?o (le64 (of_nat (v + i)))" by (rule has_keep [OF h2(1) k3]) (use dis l2 off in auto)
    have h3': "has V3 ?f (?o + 8) (le64 (of_nat i))" by (rule has_keep [OF h2(2) k3]) (use dis l2 off in auto)
    have h4: "has V3 (fst raw) (snd raw + 64 + 8 * i) (le64 (of_nat (v + i)))"
      unfolding V3_def using raw l2 by (intro has_store) simp
    have k23: "keep ({?f} \<times> {?o..<?o + 16} \<union> {fst raw} \<times> {snd raw + 64 + 8 * i..<snd raw + 72 + 8 * i}) V1 V3"
      by (rule keep_trans [OF k2 k3])
    have d3: "dat_entry bs V3 (v + i) (start + of_nat i)"
      by (rule dat_entry_keep [OF d1 k23]) (use fd dis v bs_ge l1 in auto)
    have g3: "grp bs V3 ?D (Suc (v + i))" by (rule grp_keep [OF g1 k23]) (use fd dis l1 bs_ge in auto)
    have "Q (of_nat (off + 40 + 16 * i)) M1 V3 ?G"
      by (rule Q [OF _ kk]) (use m g3 h3 h3' h4 d3 in \<open>auto simp: vblock_ok_def add_ac\<close>)
    then show "wpv (bindE (poke (padd (?f, ?o) 0) (le64 (of_nat (v + i)))) (\<lambda>_. bindE (poke (padd (?f, ?o) 8) (le64 (of_nat i))) (\<lambda>_.
      bindE (poke (i_bmap raw (i + 1)) (le64 (of_nat (v + i)))) (\<lambda>_. retE (of_nat (off + 40 + 16 * i)))))) M1 V1 ?G Q"
      unfolding V3_def V2_def stores_simps i_bmap_def padd_def fst_conv snd_conv
      by (intro wpv_poke_bind wpv_ret) (use m off raw in \<open>auto simp: add_ac\<close>)
  qed
  have uo16: "unat (of_nat ?o :: u64) + unat sizeof_binfo_v \<le> unat bs" "0 < unat sizeof_binfo_v"
    using off unfolding uo by (simp_all add: sizeof_binfo_v_def)
  have nx: "of_nat ?o + ucast sizeof_binfo_v = (of_nat (off + 40 + 16 * i) :: u64)" by (simp add: sizeof_binfo_v_def)
  show ?thesis
    unfolding binfo_body_def
  proof (rule wpv_bind, rule wpv_segsum_info [OF g uo16], unfold prod.case uo nx, rule wpv_bind, rule wpv_assign_vblocknr [OF g v gr])
    fix M1 V1 assume "insert ?f M \<subseteq> M1" "keep ({?D} \<times> {0..<4} \<union> {?D + 1} \<times> UNIV \<union> {?D + 2} \<times> {32 * (v + i)..<32 * (v + i) + 24}) V V1"
      "grp bs V1 ?D (Suc (v + i))" "dat_entry bs V1 (v + i) (start + of_nat i)"
    then show "wpv (bindE (poke (padd (?f, ?o) 0) (le64 (of_nat (v + i)))) (\<lambda>_. bindE (poke (padd (?f, ?o) 8) (le64 (of_nat i))) (\<lambda>_.
      bindE (poke (i_bmap raw (i + 1)) (le64 (of_nat (v + i)))) (\<lambda>_. retE (of_nat (off + 40 + 16 * i)))))) M1 V1 (G\<lparr>mk_vblocknr := of_nat (Suc (v + i))\<rparr>) Q"
      using pokes [of M1 V1] by simp
  qed
qed

end

text \<open>A file whose blocks have virtual numbers, and the DAT itself.\<close>

definition vfile_ok :: "u64 \<Rightarrow> blocks \<Rightarrow> nat \<Rightarrow> ptr \<Rightarrow> u64 \<Rightarrow> nat \<Rightarrow> u64 \<Rightarrow> nat \<Rightarrow> bool" where
  "vfile_ok bs V off raw ino v start n \<longleftrightarrow> finfo_ok bs V off ino n \<and> has V (fst raw) (snd raw + 56) (le64 0)
     \<and> (\<forall>i < n. vblock_ok bs V off raw v start i)"

definition dfile_ok :: "u64 \<Rightarrow> blocks \<Rightarrow> nat \<Rightarrow> ptr \<Rightarrow> u64 \<Rightarrow> u64 \<Rightarrow> nat \<Rightarrow> bool" where
  "dfile_ok bs V off raw ino start n \<longleftrightarrow> finfo_ok bs V off ino n \<and> has V (fst raw) (snd raw + 56) (le64 0)
     \<and> (\<forall>i < n. dblock_ok bs V off raw start i)"

lemma vfile_keep:
  assumes "vfile_ok bs V off raw ino v start n" "keep F V V'"
    "\<And>j. off \<le> j \<Longrightarrow> j < off + 24 + 16 * n \<Longrightarrow> (first_block bs, j) \<notin> F"
    "\<And>j. snd raw + 56 \<le> j \<Longrightarrow> j < snd raw + 64 + 8 * n \<Longrightarrow> (fst raw, j) \<notin> F"
    "\<And>j. 32 * v \<le> j \<Longrightarrow> j < 32 * (v + n) \<Longrightarrow> (bD bs + 2, j) \<notin> F"
    "off + 24 + 16 * n \<le> length (V (first_block bs))" "snd raw + 64 + 8 * n \<le> length (V (fst raw))"
    "32 * (v + n) \<le> length (V (bD bs + 2))"
  shows "vfile_ok bs V' off raw ino v start n"
proof -
  have "finfo_ok bs V' off ino n" using assms(1) unfolding vfile_ok_def
    by (elim conjE) (erule finfo_keep [OF _ assms(2)], use assms(3,6) in auto)
  moreover have "has V' (fst raw) (snd raw + 56) (le64 0)"
    using assms(1) unfolding vfile_ok_def by (elim conjE) (erule has_keep [OF _ assms(2)], use assms(4,7) in auto)
  moreover have "vblock_ok bs V' off raw v start i" if "i < n" for i
    by (rule vblock_keep [OF _ assms(2)]) (use assms(1,3-8) that in \<open>auto simp: vfile_ok_def\<close>)
  ultimately show ?thesis by (simp add: vfile_ok_def)
qed

lemma dfile_keep:
  assumes "dfile_ok bs V off raw ino start n" "keep F V V'"
    "\<And>j. off \<le> j \<Longrightarrow> j < off + 24 + 8 * n \<Longrightarrow> (first_block bs, j) \<notin> F"
    "\<And>j. snd raw + 56 \<le> j \<Longrightarrow> j < snd raw + 64 + 8 * n \<Longrightarrow> (fst raw, j) \<notin> F"
    "off + 24 + 8 * n \<le> length (V (first_block bs))" "snd raw + 64 + 8 * n \<le> length (V (fst raw))"
  shows "dfile_ok bs V' off raw ino start n"
proof -
  have "finfo_ok bs V' off ino n" using assms(1) unfolding dfile_ok_def
    by (elim conjE) (erule finfo_keep [OF _ assms(2)], use assms(3,5) in auto)
  moreover have "has V' (fst raw) (snd raw + 56) (le64 0)"
    using assms(1) unfolding dfile_ok_def by (elim conjE) (erule has_keep [OF _ assms(2)], use assms(4,6) in auto)
  moreover have "dblock_ok bs V' off raw start i" if "i < n" for i
    by (rule dblock_keep [OF _ assms(2)]) (use assms(1,3-6) that in \<open>auto simp: dfile_ok_def\<close>)
  ultimately show ?thesis by (simp add: dfile_ok_def)
qed

context formatter
begin

text \<open>The finfo and the header of the inode's mapping, before the loop over the blocks.\<close>

definition finfo_body :: "nilfs_file_info \<Rightarrow> ptr \<Rightarrow> (u64 \<Rightarrow> ('w mkfs, 'a) act) \<Rightarrow> u64 \<Rightarrow> ('w mkfs, 'a) act" where
  "finfo_body fi raw rest off =
     bindE (map_segsum_info k bs (first_block bs) off (of_nat sizeof_finfo)) (\<lambda>(finfo, sum_offset).
       bindE (poke (padd finfo 0) (le64 (mf_ino fi))) (\<lambda>_.
       bindE (poke (padd finfo 16) (le32 (mf_nblocks fi))) (\<lambda>_.
       bindE (poke (padd finfo 20) (le32 (mf_nblocks fi))) (\<lambda>_.
       bindE (poke (padd finfo 8) (le64 1)) (\<lambda>_.
       bindE (poke (i_bmap raw 0) (le64 0)) (\<lambda>_. rest sum_offset))))))"

lemma wpv_finfo:
  assumes g: "gok bs di rs G" and off: "off + 24 \<le> unat bs" and raw: "fst raw \<in> M" "snd raw + 112 \<le> unat bs" "fst raw \<noteq> first_block bs"
    and Q: "\<And>V'. keep ({first_block bs} \<times> {off..<off + 24} \<union> {fst raw} \<times> {snd raw + 56..<snd raw + 64}) V V'
      \<Longrightarrow> finfo_ok bs V' off (mf_ino fi) (unat (mf_nblocks fi)) \<Longrightarrow> has V' (fst raw) (snd raw + 56) (le64 0)
      \<Longrightarrow> wpv (rest (of_nat (off + 24))) (insert (first_block bs) M) V' G Q"
  shows "wpv (finfo_body fi raw rest (of_nat off)) M V G Q"
proof (rule wpv_len)
  assume l: "\<And>c. length (V c) = unat bs"
  let ?f = "first_block bs"
  have uo: "unat (of_nat off :: u64) = off" using off bs_ge by (intro unat_of_nat_u64) simp
  let ?ps = "[(off, le64 (mf_ino fi)), (off + 16, le32 (mf_nblocks fi)), (off + 20, le32 (mf_nblocks fi)), (off + 8, le64 1)]"
  define V1 where "V1 = stores ?f ?ps V"
  define V2 where "V2 = store (fst raw, snd raw + 56) (le64 0) V1"
  have "(\<forall>(off, x) \<in> set ?ps. has V1 ?f off x) \<and> (\<forall>c. length (V1 c) = length (V c))"
    unfolding V1_def by (rule has_stores) (use l off in \<open>auto simp: apart_def\<close>)
  then have h1: "finfo_ok bs V1 off (mf_ino fi) (unat (mf_nblocks fi))" and l1: "length (V1 c) = unat bs" for c
    using l by (auto simp: finfo_ok_def)
  have k1: "keep ({?f} \<times> {off..<off + 24}) V V1"
    unfolding V1_def stores_simps by (intro keep_more_block keep_refl) (use l off in simp_all)
  have k2: "keep ({fst raw} \<times> {snd raw + 56..<snd raw + 64}) V1 V2"
    unfolding V2_def by (intro keep_more_block keep_refl l1) (use raw in simp_all)
  have h2: "finfo_ok bs V2 off (mf_ino fi) (unat (mf_nblocks fi))"
    by (rule finfo_keep [OF h1 k2]) (use raw l1 off in auto)
  have h3: "has V2 (fst raw) (snd raw + 56) (le64 0)" unfolding V2_def using raw l1 by (intro has_store) simp
  note fin = Q [OF keep_trans [OF k1 k2] h2 h3]
  have s24: "unat (of_nat off :: u64) + unat (of_nat sizeof_finfo :: u32) \<le> unat bs" "0 < unat (of_nat sizeof_finfo :: u32)"
    using off unfolding uo by (simp_all add: sizeof_finfo_def)
  have nx: "of_nat off + ucast (of_nat sizeof_finfo :: u32) = (of_nat (off + 24) :: u64)" by (simp add: sizeof_finfo_def)
  show "wpv (finfo_body fi raw rest (of_nat off)) M V G Q"
    unfolding finfo_body_def
  proof (rule wpv_bind, rule wpv_segsum_info [OF g s24], unfold prod.case uo nx)
    show "wpv (bindE (poke (padd (?f, off) 0) (le64 (mf_ino fi))) (\<lambda>_. bindE (poke (padd (?f, off) 16) (le32 (mf_nblocks fi))) (\<lambda>_.
       bindE (poke (padd (?f, off) 20) (le32 (mf_nblocks fi))) (\<lambda>_. bindE (poke (padd (?f, off) 8) (le64 1)) (\<lambda>_.
       bindE (poke (i_bmap raw 0) (le64 0)) (\<lambda>_. rest (of_nat (off + 24)))))))) (insert ?f M) V G Q"
      using fin unfolding V2_def V1_def stores_simps i_bmap_def padd_def fst_conv snd_conv
      by (intro wpv_poke_bind) (use raw off in \<open>auto simp: add_ac\<close>)
  qed
qed

lemma wpv_binfos:
  assumes g: "gok bs di rs G" and v: "mk_vblocknr G = of_nat v" "v + n \<le> 16" and gr: "grp bs V (bD bs) v"
    and off: "off + 24 + 16 * n \<le> unat bs" and raw: "fst raw \<in> M" "snd raw + 112 \<le> unat bs" "n \<le> 6"
    and dis: "fst raw \<notin> {first_block bs, bD bs, bD bs + 1, bD bs + 2}"
    and fin: "finfo_ok bs V off ino n" "has V (fst raw) (snd raw + 56) (le64 0)"
    and Q: "\<And>M' V'. M \<subseteq> M' \<Longrightarrow> keep ({first_block bs} \<times> {off + 24..<off + 24 + 16 * n}
        \<union> {fst raw} \<times> {snd raw + 64..<snd raw + 112} \<union> dat_bytes v n) V V'
      \<Longrightarrow> grp bs V' (bD bs) (v + n) \<Longrightarrow> vfile_ok bs V' off raw ino v start n
      \<Longrightarrow> Q (of_nat (off + 24 + 16 * n)) M' V' (G\<lparr>mk_vblocknr := of_nat (v + n)\<rparr>)"
  shows "wpv (foldE (binfo_body start raw) [0..<n] (of_nat (off + 24))) M V G Q"
proof (rule wpv_len)
  assume l: "\<And>c. length (V c) = unat bs"
  let ?f = "first_block bs" and ?D = "bD bs"
  let ?F = "\<lambda>i. {?f} \<times> {off + 24..<off + 24 + 16 * i} \<union> {fst raw} \<times> {snd raw + 64..<snd raw + 64 + 8 * i} \<union> dat_bytes v i"
  let ?I = "\<lambda>i (x :: u64) M' V' G'. x = of_nat (off + 24 + 16 * i) \<and> keep (?F i) V V' \<and> grp bs V' ?D (v + i)
    \<and> (\<forall>i' < i. vblock_ok bs V' off raw v start i') \<and> G' = G\<lparr>mk_vblocknr := of_nat (v + i)\<rparr>"
  have fd: "?f \<noteq> ?D" "?f \<noteq> ?D + 1" "?f \<noteq> ?D + 2" "?D \<noteq> ?D + 2" "?D + 1 \<noteq> ?D + 2" using log_distinct by auto
  show "wpv (foldE (binfo_body start raw) [0..<n] (of_nat (off + 24))) M V G Q"
  proof (rule wpv_fold [where I = ?I])
    fix i x M1 V1 G1 assume i: "i < n" and m: "M \<subseteq> M1" and I: "?I i x M1 V1 G1"
    have x: "x = of_nat (off + 24 + 16 * i)" and k1: "keep (?F i) V V1" and gr1: "grp bs V1 ?D (v + i)"
      and bl: "\<forall>i' < i. vblock_ok bs V1 off raw v start i'" and G1: "G1 = G\<lparr>mk_vblocknr := of_nat (v + i)\<rparr>"
      using I by blast+
    have l1: "length (V1 c) = unat bs" for c using k1 l by (simp add: keep_def)
    have g1: "gok bs di rs G1" using g G1 by simp
    show "wpv (binfo_body start raw i x) M1 V1 G1 (?I (Suc i))"
      unfolding x
    proof (rule wpv_binfo [OF g1 _ _ gr1 _ _ raw(2) _ dis])
      fix M' V' assume k2: "keep ({?f} \<times> {off + 24 + 16 * i..<off + 40 + 16 * i}
          \<union> {fst raw} \<times> {snd raw + 64 + 8 * i..<snd raw + 72 + 8 * i} \<union> dat_bytes (v + i) 1) V1 V'"
        and gr2: "grp bs V' ?D (v + Suc i)" and b2: "vblock_ok bs V' off raw v start i"
      have kk: "keep (?F (Suc i)) V V'" by (rule keep_chain [OF k1 k2]) (auto simp: dat_bytes_def)
      have old: "vblock_ok bs V' off raw v start i'" if "i' < i" for i'
      proof (rule vblock_keep [OF _ k2])
        show "vblock_ok bs V1 off raw v start i'" using bl that by blast
      qed (use that i fd dis off raw v l1 bs_ge in \<open>auto simp: dat_bytes_def\<close>)
      have "vblock_ok bs V' off raw v start i'" if "i' < Suc i" for i'
        using old [of i'] b2 that by (cases "i' = i") auto
      then show "?I (Suc i) (of_nat (off + 40 + 16 * i)) M' V' (G1\<lparr>mk_vblocknr := of_nat (v + Suc i)\<rparr>)"
        using kk gr2 G1 by (simp add: algebra_simps)
    qed (use i v off raw G1 m in auto)
  next
    fix x M' V' G' assume m: "M \<subseteq> M'" and I: "?I n x M' V' G'"
    then have x: "x = of_nat (off + 24 + 16 * n)" and k1: "keep (?F n) V V'" and gr1: "grp bs V' ?D (v + n)"
      and bl: "\<forall>i < n. vblock_ok bs V' off raw v start i" and G': "G' = G\<lparr>mk_vblocknr := of_nat (v + n)\<rparr>" by blast+
    have f': "finfo_ok bs V' off ino n" by (rule finfo_keep [OF fin(1) k1]) (use dis fd off l in \<open>auto simp: dat_bytes_def\<close>)
    have b': "has V' (fst raw) (snd raw + 56) (le64 0)" by (rule has_keep [OF fin(2) k1]) (use dis raw l in \<open>auto simp: dat_bytes_def\<close>)
    show "Q x M' V' G'" unfolding x G'
    proof (rule Q [OF m _ gr1])
      show "keep ({?f} \<times> {off + 24..<off + 24 + 16 * n} \<union> {fst raw} \<times> {snd raw + 64..<snd raw + 112} \<union> dat_bytes v n) V V'"
        by (rule keep_mono [OF k1]) (use raw(3) in auto)
      show "vfile_ok bs V' off raw ino v start n" using f' b' bl by (simp add: vfile_ok_def)
    qed
  next
    show "?I 0 (of_nat (off + 24)) M V G"
    proof (intro conjI)
      show "G = G\<lparr>mk_vblocknr := of_nat (v + 0)\<rparr>" using v by simp
    qed (use gr in simp_all)
  qed simp
qed

end

context formatter
begin

definition dbinfo_body :: "u64 \<Rightarrow> ptr \<Rightarrow> nat \<Rightarrow> u64 \<Rightarrow> ('w mkfs, u64) act" where
  "dbinfo_body start raw i off =
     bindE (map_segsum_info k bs (first_block bs) off 8) (\<lambda>(pblkoff, sum_offset).
       bindE (poke pblkoff (le64 (of_nat i))) (\<lambda>_.
       bindE (poke (i_bmap raw (i + 1)) (le64 (start + of_nat i))) (\<lambda>_. retE sum_offset)))"

lemma wpv_dbinfo:
  assumes g: "gok bs di rs G" and off: "off + 32 + 8 * i \<le> unat bs"
    and raw: "fst raw \<in> M" "snd raw + 112 \<le> unat bs" "i < 6" "fst raw \<noteq> first_block bs"
    and Q: "\<And>M' V'. M \<subseteq> M' \<Longrightarrow> keep ({first_block bs} \<times> {off + 24 + 8 * i..<off + 32 + 8 * i}
        \<union> {fst raw} \<times> {snd raw + 64 + 8 * i..<snd raw + 72 + 8 * i}) V V'
      \<Longrightarrow> dblock_ok bs V' off raw start i \<Longrightarrow> Q (of_nat (off + 32 + 8 * i)) M' V' G"
  shows "wpv (dbinfo_body start raw i (of_nat (off + 24 + 8 * i))) M V G Q"
proof (rule wpv_len)
  assume l: "\<And>c. length (V c) = unat bs"
  let ?f = "first_block bs" and ?o = "off + 24 + 8 * i"
  define V1 where "V1 = store (?f, ?o) (le64 (of_nat i)) V"
  define V2 where "V2 = store (fst raw, snd raw + 64 + 8 * i) (le64 (start + of_nat i)) V1"
  have uo: "unat (of_nat ?o :: u64) = ?o" using off bs_ge by (intro unat_of_nat_u64) simp
  have u8: "unat (of_nat ?o :: u64) + unat (8 :: u32) \<le> unat bs" "0 < unat (8 :: u32)" using off unfolding uo by simp_all
  have nx: "of_nat ?o + ucast (8 :: u32) = (of_nat (off + 32 + 8 * i) :: u64)" by simp
  have k1: "keep ({?f} \<times> {?o..<?o + 8}) V V1" unfolding V1_def by (intro keep_more_block keep_refl l) (use off in simp_all)
  have l1: "length (V1 c) = unat bs" for c using k1 l by (simp add: keep_def)
  have k2: "keep ({fst raw} \<times> {snd raw + 64 + 8 * i..<snd raw + 72 + 8 * i}) V1 V2"
    unfolding V2_def by (intro keep_more_block keep_refl l1) (use raw in simp_all)
  have h1: "has V1 ?f ?o (le64 (of_nat i))" unfolding V1_def by (rule has_store) (use l off in simp)
  have h1': "has V2 ?f ?o (le64 (of_nat i))" by (rule has_keep [OF h1 k2]) (use raw(4) off l1 in auto)
  have h2: "has V2 (fst raw) (snd raw + 64 + 8 * i) (le64 (start + of_nat i))" unfolding V2_def by (rule has_store) (use l1 raw in simp)
  have kk: "keep ({?f} \<times> {off + 24 + 8 * i..<off + 32 + 8 * i} \<union> {fst raw} \<times> {snd raw + 64 + 8 * i..<snd raw + 72 + 8 * i}) V V2"
    by (rule keep_chain [OF k1 k2]) auto
  have "Q (of_nat (off + 32 + 8 * i)) (insert ?f M) V2 G"
    by (rule Q [OF _ kk]) (use h1' h2 in \<open>auto simp: dblock_ok_def\<close>)
  then have pokes: "wpv (bindE (poke (?f, ?o) (le64 (of_nat i))) (\<lambda>_. bindE (poke (i_bmap raw (i + 1)) (le64 (start + of_nat i))) (\<lambda>_.
      retE (of_nat (off + 32 + 8 * i))))) (insert ?f M) V G Q"
    unfolding V2_def V1_def i_bmap_def padd_def fst_conv snd_conv
    by (intro wpv_poke_bind wpv_ret) (use off raw in \<open>auto simp: add_ac\<close>)
  show "wpv (dbinfo_body start raw i (of_nat ?o)) M V G Q"
    unfolding dbinfo_body_def
    by (rule wpv_bind, rule wpv_segsum_info [OF g u8], unfold prod.case uo nx, rule pokes)
qed

lemma wpv_dbinfos:
  assumes g: "gok bs di rs G" and off: "off + 24 + 8 * n \<le> unat bs"
    and raw: "fst raw \<in> M" "snd raw + 112 \<le> unat bs" "n \<le> 6" "fst raw \<noteq> first_block bs"
    and fin: "finfo_ok bs V off ino n" "has V (fst raw) (snd raw + 56) (le64 0)"
    and Q: "\<And>M' V'. M \<subseteq> M' \<Longrightarrow> keep ({first_block bs} \<times> {off + 24..<off + 24 + 8 * n}
        \<union> {fst raw} \<times> {snd raw + 64..<snd raw + 112}) V V'
      \<Longrightarrow> dfile_ok bs V' off raw ino start n \<Longrightarrow> Q (of_nat (off + 24 + 8 * n)) M' V' G"
  shows "wpv (foldE (dbinfo_body start raw) [0..<n] (of_nat (off + 24))) M V G Q"
proof (rule wpv_len)
  assume l: "\<And>c. length (V c) = unat bs"
  let ?f = "first_block bs"
  let ?F = "\<lambda>i. {?f} \<times> {off + 24..<off + 24 + 8 * i} \<union> {fst raw} \<times> {snd raw + 64..<snd raw + 64 + 8 * i}"
  let ?I = "\<lambda>i (x :: u64) M' V' G'. x = of_nat (off + 24 + 8 * i) \<and> keep (?F i) V V'
    \<and> (\<forall>i' < i. dblock_ok bs V' off raw start i') \<and> G' = G"
  show "wpv (foldE (dbinfo_body start raw) [0..<n] (of_nat (off + 24))) M V G Q"
  proof (rule wpv_fold [where I = ?I])
    fix i x M1 V1 G1 assume i: "i < n" and m: "M \<subseteq> M1" and I: "?I i x M1 V1 G1"
    have x: "x = of_nat (off + 24 + 8 * i)" and k1: "keep (?F i) V V1"
      and bl: "\<forall>i' < i. dblock_ok bs V1 off raw start i'" and G1: "G1 = G" using I by blast+
    have l1: "length (V1 c) = unat bs" for c using k1 l by (simp add: keep_def)
    show "wpv (dbinfo_body start raw i x) M1 V1 G1 (?I (Suc i))"
      unfolding x G1
    proof (rule wpv_dbinfo [OF g _ _ raw(2) _ raw(4)])
      fix M' V' assume k2: "keep ({?f} \<times> {off + 24 + 8 * i..<off + 32 + 8 * i} \<union> {fst raw} \<times> {snd raw + 64 + 8 * i..<snd raw + 72 + 8 * i}) V1 V'"
        and b2: "dblock_ok bs V' off raw start i"
      have kk: "keep (?F (Suc i)) V V'" by (rule keep_chain [OF k1 k2]) auto
      have old: "dblock_ok bs V' off raw start i'" if "i' < i" for i'
      proof (rule dblock_keep [OF _ k2])
        show "dblock_ok bs V1 off raw start i'" using bl that by blast
      qed (use that i off raw l1 in auto)
      have "dblock_ok bs V' off raw start i'" if "i' < Suc i" for i'
        using old [of i'] b2 that by (cases "i' = i") auto
      then show "?I (Suc i) (of_nat (off + 32 + 8 * i)) M' V' G" using kk by (simp add: algebra_simps)
    qed (use i off raw m in auto)
  next
    fix x M' V' G' assume m: "M \<subseteq> M'" and I: "?I n x M' V' G'"
    then have x: "x = of_nat (off + 24 + 8 * n)" and k1: "keep (?F n) V V'"
      and bl: "\<forall>i < n. dblock_ok bs V' off raw start i" and G': "G' = G" by blast+
    have f': "finfo_ok bs V' off ino n" by (rule finfo_keep [OF fin(1) k1]) (use raw off l in auto)
    have b': "has V' (fst raw) (snd raw + 56) (le64 0)" by (rule has_keep [OF fin(2) k1]) (use raw l in auto)
    show "Q x M' V' G'" unfolding x G'
    proof (rule Q [OF m])
      show "keep ({?f} \<times> {off + 24..<off + 24 + 8 * n} \<union> {fst raw} \<times> {snd raw + 64..<snd raw + 112}) V V'"
        by (rule keep_mono [OF k1]) (use raw(3) in auto)
      show "dfile_ok bs V' off raw ino start n" using f' b' bl by (simp add: dfile_ok_def)
    qed
  qed simp_all
qed

lemma update_blocknr_eq:
  assumes "gok bs di rs G" "ghost s = G" "j < 10" "rs j = Some raw"
  shows "update_blocknr k bs j off s =
    (let fi = files_raw bs rs ! j in
     if mf_nblocks fi = 0 then bindE (poke (i_bmap raw 0) (le64 0)) (\<lambda>_. retE off)
     else finfo_body fi raw (\<lambda>off.
       if mf_ino fi = NILFS_DAT_INO then foldE (dbinfo_body (mf_start_blocknr fi) raw) [0..<unat (mf_nblocks fi)] off
       else foldE (binfo_body (mf_start_blocknr fi) raw) [0..<unat (mf_nblocks fi)] off) off) s"
proof -
  have c: "mi_start_blocknr (cur_seg s) = first_block bs" "mi_files (cur_seg s) = files_raw bs rs"
    using ghost_fields(15) [OF assms(2)] gok_cur [OF assms(1)] by (simp_all add: seg_raw_def planned_segment_def)
  have d: "mf_raw_inode (files_raw bs rs ! j) = Some raw" using assms(3,4) by (simp add: files_raw_nth)
  show ?thesis
    unfolding update_blocknr_def Let_def c d finfo_body_def binfo_body_def [abs_def] dbinfo_body_def [abs_def]
    by (simp add: deref_def cong: if_cong)
qed

lemma wpv_update_empty:
  assumes g: "gok bs di rs G" "j < 10" "rs j = Some raw" and fi: "mf_nblocks (files_raw bs rs ! j) = 0"
    and raw: "fst raw \<in> M" "snd raw + 112 \<le> unat bs"
    and Q: "\<And>V'. keep ({fst raw} \<times> {snd raw + 56..<snd raw + 64}) V V' \<Longrightarrow> has V' (fst raw) (snd raw + 56) (le64 0) \<Longrightarrow> Q off M V' G"
  shows "wpv (update_blocknr k bs j off) M V G Q"
proof (rule wpv_len)
  assume l: "\<And>c. length (V c) = unat bs"
  let ?V = "store (fst raw, snd raw + 56) (le64 0) V"
  have "keep ({fst raw} \<times> {snd raw + 56..<snd raw + 64}) V ?V" by (intro keep_more_block keep_refl l) (use raw in simp_all)
  moreover have "has ?V (fst raw) (snd raw + 56) (le64 0)" by (rule has_store) (use l raw in simp)
  ultimately have q: "Q off M ?V G" by (rule Q)
  show "wpv (update_blocknr k bs j off) M V G Q"
  proof (rule wpv_cong)
    show "wpv (bindE (poke (i_bmap raw 0) (le64 0)) (\<lambda>_. retE off)) M V G Q"
      unfolding i_bmap_def padd_def using q by (intro wpv_poke_bind wpv_ret) (use raw in simp_all)
    fix s assume "ghost s = G"
    then show "update_blocknr k bs j off s = bindE (poke (i_bmap raw 0) (le64 0)) (\<lambda>_. retE off) s"
      using update_blocknr_eq [OF g(1) _ g(2,3), of s off] fi by (simp add: Let_def)
  qed
qed

lemma wpv_update_v:
  assumes g: "gok bs di rs G" "j < 10" "rs j = Some raw"
    and fi: "files_raw bs rs ! j = \<lparr>mf_ino = ino, mf_start_blocknr = start, mf_nblocks = nb, mf_raw_inode = rs j\<rparr>"
      "ino \<noteq> 3" "nb \<noteq> 0" "unat nb = n" "n \<le> 6"
    and v: "mk_vblocknr G = of_nat v" "v + n \<le> 16" and gr: "grp bs V (bD bs) v"
    and off: "off + 24 + 16 * n \<le> unat bs" and raw: "fst raw \<in> M" "snd raw + 112 \<le> unat bs"
    and dis: "fst raw \<notin> {first_block bs, bD bs, bD bs + 1, bD bs + 2}"
    and Q: "\<And>M' V'. M \<subseteq> M' \<Longrightarrow> keep ({first_block bs} \<times> {off..<off + 24 + 16 * n}
        \<union> {fst raw} \<times> {snd raw + 56..<snd raw + 112} \<union> dat_bytes v n) V V'
      \<Longrightarrow> grp bs V' (bD bs) (v + n) \<Longrightarrow> vfile_ok bs V' off raw ino v start n
      \<Longrightarrow> Q (of_nat (off + 24 + 16 * n)) M' V' (G\<lparr>mk_vblocknr := of_nat (v + n)\<rparr>)"
  shows "wpv (update_blocknr k bs j (of_nat off)) M V G Q"
proof (rule wpv_len, rule wpv_cong)
  assume l: "\<And>c. length (V c) = unat bs"
  let ?f = "first_block bs"
  have fd: "?f \<noteq> bD bs" "?f \<noteq> bD bs + 1" using log_distinct by auto
  let ?rest = "foldE (binfo_body start raw) [0..<n]"
  fix s assume "ghost s = G"
  then show "update_blocknr k bs j (of_nat off) s = finfo_body (files_raw bs rs ! j) raw ?rest (of_nat off) s"
    using update_blocknr_eq [OF g(1) _ g(2,3), of s "of_nat off"] fi by (simp add: Let_def NILFS_DAT_INO_def)
next
  assume l: "\<And>c. length (V c) = unat bs"
  let ?f = "first_block bs"
  have fd: "?f \<noteq> bD bs" "?f \<noteq> bD bs + 1" using log_distinct by auto
  show "wpv (finfo_body (files_raw bs rs ! j) raw (foldE (binfo_body start raw) [0..<n]) (of_nat off)) M V G Q"
  proof (rule wpv_finfo [OF g(1)])
    fix V1 assume k1: "keep ({?f} \<times> {off..<off + 24} \<union> {fst raw} \<times> {snd raw + 56..<snd raw + 64}) V V1"
      and f1: "finfo_ok bs V1 off (mf_ino (files_raw bs rs ! j)) (unat (mf_nblocks (files_raw bs rs ! j)))"
      and h1: "has V1 (fst raw) (snd raw + 56) (le64 0)"
    have f1': "finfo_ok bs V1 off ino n" using f1 fi by simp
    have g1: "grp bs V1 (bD bs) v" by (rule grp_keep [OF gr k1]) (use dis fd l bs_ge in auto)
    show "wpv (foldE (binfo_body start raw) [0..<n] (of_nat (off + 24))) (insert ?f M) V1 G Q"
    proof (rule wpv_binfos [OF g(1) v g1 off _ raw(2) fi(5) dis f1' h1])
      fix M' V' assume m: "insert ?f M \<subseteq> M'" and k2: "keep ({?f} \<times> {off + 24..<off + 24 + 16 * n}
          \<union> {fst raw} \<times> {snd raw + 64..<snd raw + 112} \<union> dat_bytes v n) V1 V'"
        and r: "grp bs V' (bD bs) (v + n)" "vfile_ok bs V' off raw ino v start n"
      show "Q (of_nat (off + 24 + 16 * n)) M' V' (G\<lparr>mk_vblocknr := of_nat (v + n)\<rparr>)"
        by (rule Q [OF _ _ r], use m in blast, rule keep_chain [OF k1 k2], auto)
    qed (use raw in blast)
  qed (use off raw dis in auto)
qed

lemma wpv_update_d:
  assumes g: "gok bs di rs G" "j < 10" "rs j = Some raw"
    and fi: "files_raw bs rs ! j = \<lparr>mf_ino = 3, mf_start_blocknr = start, mf_nblocks = nb, mf_raw_inode = rs j\<rparr>"
      "nb \<noteq> 0" "unat nb = n" "n \<le> 6"
    and off: "off + 24 + 8 * n \<le> unat bs" and raw: "fst raw \<in> M" "snd raw + 112 \<le> unat bs" "fst raw \<noteq> first_block bs"
    and Q: "\<And>M' V'. M \<subseteq> M' \<Longrightarrow> keep ({first_block bs} \<times> {off..<off + 24 + 8 * n}
        \<union> {fst raw} \<times> {snd raw + 56..<snd raw + 112}) V V'
      \<Longrightarrow> dfile_ok bs V' off raw 3 start n \<Longrightarrow> Q (of_nat (off + 24 + 8 * n)) M' V' G"
  shows "wpv (update_blocknr k bs j (of_nat off)) M V G Q"
proof (rule wpv_cong)
  fix s assume "ghost s = G"
  then show "update_blocknr k bs j (of_nat off) s = finfo_body (files_raw bs rs ! j) raw (foldE (dbinfo_body start raw) [0..<n]) (of_nat off) s"
    using update_blocknr_eq [OF g(1) _ g(2,3), of s "of_nat off"] fi by (simp add: Let_def NILFS_DAT_INO_def)
next
  let ?f = "first_block bs"
  show "wpv (finfo_body (files_raw bs rs ! j) raw (foldE (dbinfo_body start raw) [0..<n]) (of_nat off)) M V G Q"
  proof (rule wpv_finfo [OF g(1)])
    fix V1 assume k1: "keep ({?f} \<times> {off..<off + 24} \<union> {fst raw} \<times> {snd raw + 56..<snd raw + 64}) V V1"
      and f1: "finfo_ok bs V1 off (mf_ino (files_raw bs rs ! j)) (unat (mf_nblocks (files_raw bs rs ! j)))"
      and h1: "has V1 (fst raw) (snd raw + 56) (le64 0)"
    have f1': "finfo_ok bs V1 off 3 n" using f1 fi by simp
    show "wpv (foldE (dbinfo_body start raw) [0..<n] (of_nat (off + 24))) (insert ?f M) V1 G Q"
    proof (rule wpv_dbinfos [OF g(1) off _ raw(2) fi(4) raw(3) f1' h1])
      fix M' V' assume m: "insert ?f M \<subseteq> M'" and k2: "keep ({?f} \<times> {off + 24..<off + 24 + 8 * n}
          \<union> {fst raw} \<times> {snd raw + 64..<snd raw + 112}) V1 V'"
        and r: "dfile_ok bs V' off raw 3 start n"
      show "Q (of_nat (off + 24 + 8 * n)) M' V' G"
        by (rule Q [OF _ _ r], use m in blast, rule keep_chain [OF k1 k2], auto)
    qed (use raw in blast)
  qed (use off raw in auto)
qed

end

section \<open>The files of the log\<close>

definition nifile :: "u64 \<Rightarrow> nat" where
  "nifile bs = unat (ifile_blocks bs)"

lemma nifile_cases: "nifile bs = 3 \<or> nifile bs = 4"
  by (simp add: nifile_def ifile_blocks_def)

text \<open>What the commit records of the five files with blocks, in the order of the summary.\<close>

definition files_ok :: "u64 \<Rightarrow> blocks \<Rightarrow> bool" where
  "files_ok bs V \<longleftrightarrow> (let n = nifile bs; r = last_block bs in
     vfile_ok bs V 64 (inode_ptr bs 2) 2 1 (first_block bs + 1) 1
     \<and> vfile_ok bs V 104 (bC bs, 256) 6 2 (bI bs) n
     \<and> vfile_ok bs V (128 + 16 * n) (r, 144) 4 (2 + n) (bC bs) 1
     \<and> vfile_ok bs V (168 + 16 * n) (r, 272) 5 (3 + n) (bS bs) 1
     \<and> dfile_ok bs V (208 + 16 * n) (r, 16) 3 (bD bs) 3)"

definition inode_blocks :: "u64 \<Rightarrow> u64 set" where
  "inode_blocks bs = (\<lambda>ino. fst (inode_ptr bs ino)) ` {..<11}"

lemma inode_blocks_other:
  assumes "mkfs_bs bs" "b \<in> inode_blocks bs"
  shows "b \<notin> set [first_block bs, first_block bs + 1, bI bs, bI bs + 1, bC bs, bS bs, bD bs, bD bs + 1, bD bs + 2, last_block bs]"
    "b < last_block bs + 1"
  using assms(2) inode_block [OF assms(1)] unfolding inode_blocks_def by blast+

definition file_bytes :: "u64 \<Rightarrow> (u64 \<times> nat) set" where
  "file_bytes bs = {first_block bs} \<times> {64..<256 + 16 * nifile bs} \<union> inode_blocks bs \<times> UNIV \<union> {bC bs} \<times> {312..<368}
     \<union> {last_block bs} \<times> {16..<400} \<union> {bD bs} \<times> {0..<4} \<union> {bD bs + 1, bD bs + 2} \<times> UNIV"

lemma inode_apart:
  assumes "mkfs_bs bs" "ino < 11" "ino' < 11" "ino \<noteq> ino'"
  shows "fst (inode_ptr bs ino) \<noteq> fst (inode_ptr bs ino') \<or> snd (inode_ptr bs ino) + 128 \<le> snd (inode_ptr bs ino')
    \<or> snd (inode_ptr bs ino') + 128 \<le> snd (inode_ptr bs ino)"
proof (cases "ino < ino'")
  case True
  then show ?thesis using assms(2-4) by (auto simp: inode_ptr_cases [OF assms(1)])
next
  case False
  then have "ino' < ino" using assms(4) by simp
  then show ?thesis using assms(2-4) by (auto simp: inode_ptr_cases [OF assms(1)])
qed

lemma foldE_app: "foldE f (xs @ ys) b = bindE (foldE f xs b) (foldE f ys)"
proof (rule ext)
  show "foldE f (xs @ ys) b s = bindE (foldE f xs b) (foldE f ys) s" for s
  proof (induction xs arbitrary: b s)
    case (Cons x xs)
    show ?case by (cases "f x b s"; cases "fst (f x b s)") (use Cons in \<open>auto simp: bindE_def split: sum.splits prod.splits\<close>)
  qed (simp add: bindE_def)
qed

context formatter
begin

lemmas inode_facts = inode_block [OF bs] inode_footprints inode_apart [OF bs]

definition bmap_bytes :: "nat set \<Rightarrow> (u64 \<times> nat) set" where
  "bmap_bytes inos = (\<Union>ino \<in> inos. {fst (inode_ptr bs ino)} \<times> {snd (inode_ptr bs ino) + 56..<snd (inode_ptr bs ino) + 64})"

lemma raw3_empty:
  assumes "1 \<le> j" "j < 6"
  shows "\<exists>ino \<in> {1, 7, 8, 9, 10}. raw3 j = Some (inode_ptr bs ino) \<and> mf_nblocks (files_raw bs rs ! j) = 0"
proof -
  have "j = 1 \<or> j = 2 \<or> j = 3 \<or> j = 4 \<or> j = 5" using assms by auto
  then show ?thesis by (elim disjE) (auto simp: raw3_def files_raw_nth empty_files_at simp del: One_nat_def)
qed

lemma wpv_update_empties:
  assumes g: "gok bs di raw3 G" and M: "\<forall>ino < 11. fst (inode_ptr bs ino) \<in> M"
    and Q: "\<And>M' V'. M \<subseteq> M' \<Longrightarrow> keep (bmap_bytes {1, 7, 8, 9, 10}) V V' \<Longrightarrow> Q off M' V' G"
  shows "wpv (foldE (update_blocknr k bs) [1..<6] off) M V G Q"
proof (rule wpv_fold [where I = "\<lambda>(j :: nat) x M' V' G'. x = off \<and> G' = G \<and> keep (bmap_bytes {1, 7, 8, 9, 10}) V V'"])
  fix j :: nat and x M1 V1 G1 assume j: "1 \<le> j" "j < 6" and m: "M \<subseteq> M1" and I: "x = off \<and> G1 = G \<and> keep (bmap_bytes {1, 7, 8, 9, 10}) V V1"
  obtain ino where ino: "ino \<in> {1, 7, 8, 9, 10}" "raw3 j = Some (inode_ptr bs ino)" "mf_nblocks (files_raw bs raw3 ! j) = 0"
    using raw3_empty [OF j] by blast
  have i11: "ino < 11" using ino(1) by auto
  have x: "x = off" "G1 = G" and k1: "keep (bmap_bytes {1, 7, 8, 9, 10}) V V1" using I by auto
  have "wpv (update_blocknr k bs j off) M1 V1 G (\<lambda>x M' V' G'. x = off \<and> G' = G \<and> keep (bmap_bytes {1, 7, 8, 9, 10}) V V')"
  proof (rule wpv_update_empty [OF g _ ino(2,3)])
    fix V' assume k2: "keep ({fst (inode_ptr bs ino)} \<times> {snd (inode_ptr bs ino) + 56..<snd (inode_ptr bs ino) + 64}) V1 V'"
    have "keep (bmap_bytes {1, 7, 8, 9, 10}) V V'"
      by (rule keep_chain [OF k1 k2]) (use ino(1) in \<open>auto simp: bmap_bytes_def\<close>)
    then show "off = off \<and> G = G \<and> keep (bmap_bytes {1, 7, 8, 9, 10}) V V'" by simp
  qed (use j M m i11 inode_block(3) [OF bs i11] in auto)
  then show "wpv (update_blocknr k bs j x) M1 V1 G1 (\<lambda>x M' V' G'. x = off \<and> G' = G \<and> keep (bmap_bytes {1, 7, 8, 9, 10}) V V')"
    unfolding x .
qed (use Q in auto)

lemma files_at_raw3:
  "files_raw bs raw3 ! 0 = \<lparr>mf_ino = 2, mf_start_blocknr = first_block bs + 1, mf_nblocks = 1, mf_raw_inode = raw3 0\<rparr>"
  "files_raw bs raw3 ! 6 = \<lparr>mf_ino = 6, mf_start_blocknr = bI bs, mf_nblocks = ifile_blocks bs, mf_raw_inode = raw3 6\<rparr>"
  "files_raw bs raw3 ! 7 = \<lparr>mf_ino = 4, mf_start_blocknr = bC bs, mf_nblocks = 1, mf_raw_inode = raw3 7\<rparr>"
  "files_raw bs raw3 ! 8 = \<lparr>mf_ino = 5, mf_start_blocknr = bS bs, mf_nblocks = 1, mf_raw_inode = raw3 8\<rparr>"
  "files_raw bs raw3 ! 9 = \<lparr>mf_ino = 3, mf_start_blocknr = bD bs, mf_nblocks = 3, mf_raw_inode = raw3 9\<rparr>"
  by (simp_all add: files_raw_nth files_at)

lemma raw3_at:
  "raw3 0 = Some (inode_ptr bs 2)" "raw3 6 = Some (bC bs, 256)" "raw3 7 = Some (last_block bs, 144)"
  "raw3 8 = Some (last_block bs, 272)" "raw3 9 = Some (last_block bs, 16)"
  by (simp_all add: raw3_def raw2_def raw1_def)

end

context formatter
begin

lemma log_neq:
  "first_block bs \<noteq> bI bs + 2" "first_block bs \<noteq> bI bs + 3" "first_block bs \<noteq> bC bs" "first_block bs \<noteq> last_block bs"
  "first_block bs \<noteq> bD bs" "first_block bs \<noteq> bD bs + 1" "first_block bs \<noteq> bD bs + 2"
  "bC bs \<noteq> last_block bs" "bC bs \<noteq> bD bs" "bC bs \<noteq> bD bs + 1" "bC bs \<noteq> bD bs + 2"
  "last_block bs \<noteq> bD bs" "last_block bs \<noteq> bD bs + 1" "last_block bs \<noteq> bD bs + 2"
  "bI bs + 3 \<noteq> bD bs" "bI bs + 3 \<noteq> bD bs + 1" "bD bs + 2 \<noteq> bD bs" "bD bs + 2 \<noteq> bD bs + 1"
  using bs unfolding mkfs_bs_def by (elim disjE; simp add: block_defs)+

lemma inode2_neq:
  "fst (inode_ptr bs 2) = bI bs + 2" "snd (inode_ptr bs 2) = 256"
  "bI bs + 2 \<noteq> first_block bs" "bI bs + 2 \<noteq> bC bs" "bI bs + 2 \<noteq> last_block bs" "bI bs + 2 \<noteq> bD bs" "bI bs + 2 \<noteq> bD bs + 1"
  "bI bs + 2 \<noteq> bD bs + 2"
  using inode_block(1) [OF bs, of 2] by (auto simp: inode_ptr_cases [OF bs])

lemma bmap_bytes_empties: "bmap_bytes {1, 7, 8, 9, 10} \<subseteq> {bI bs + 2, bI bs + 3} \<times> UNIV"
  unfolding bmap_bytes_def by (auto simp: inode_ptr_cases [OF bs] split: if_splits)

lemma bmap_bytes_inodes: "bmap_bytes {1, 7, 8, 9, 10} \<subseteq> inode_blocks bs \<times> UNIV" "bI bs + 2 \<in> inode_blocks bs"
proof -
  have "(1 :: nat) < 11 \<and> (7 :: nat) < 11 \<and> (8 :: nat) < 11 \<and> (9 :: nat) < 11 \<and> (10 :: nat) < 11" by simp
  then show "bmap_bytes {1, 7, 8, 9, 10} \<subseteq> inode_blocks bs \<times> UNIV" unfolding bmap_bytes_def inode_blocks_def by fastforce
  show "bI bs + 2 \<in> inode_blocks bs" using inode2_neq(1) unfolding inode_blocks_def by (intro image_eqI [of _ _ 2]) simp_all
qed

lemma bmap_bytes_root: "256 \<le> i \<Longrightarrow> i < 384 \<Longrightarrow> (bI bs + 2, i) \<notin> bmap_bytes {1, 7, 8, 9, 10}"
proof
  assume i: "256 \<le> i" "i < 384" and m: "(bI bs + 2, i) \<in> bmap_bytes {1, 7, 8, 9, 10}"
  obtain ino where ino: "ino \<in> {1, 7, 8, 9, 10}"
    and p: "(bI bs + 2, i) \<in> {fst (inode_ptr bs ino)} \<times> {snd (inode_ptr bs ino) + 56..<snd (inode_ptr bs ino) + 64}"
    using m unfolding bmap_bytes_def UN_iff by (rule bexE)
  have "ino < 11" "ino \<noteq> 2" using ino by auto
  with inode_apart [OF bs, of ino 2] p i show False by (simp add: inode2_neq)
qed

lemma wpv_update_files:
  assumes g: "gok bs di raw3 G" and v: "mk_vblocknr G = 1" and gr: "grp bs V (bD bs) 1"
    and M: "\<forall>ino < 11. fst (inode_ptr bs ino) \<in> M" "bC bs \<in> M" "last_block bs \<in> M"
    and Q: "\<And>M' V'. M \<subseteq> M' \<Longrightarrow> keep (file_bytes bs) V V' \<Longrightarrow> grp bs V' (bD bs) (4 + nifile bs) \<Longrightarrow> files_ok bs V'
      \<Longrightarrow> Q (of_nat (256 + 16 * nifile bs)) M' V' (G\<lparr>mk_vblocknr := of_nat (4 + nifile bs)\<rparr>)"
  shows "wpv (foldE (update_blocknr k bs) [0..<10] (of_nat 64)) M V G Q"
proof (rule wpv_len)
  assume l: "\<And>c. length (V c) = unat bs"
  define n where "n = nifile bs"
  have n: "n = 3 \<or> n = 4" "n \<le> 6" using nifile_cases [of bs] by (auto simp: n_def)
  have nb: "ifile_blocks bs \<noteq> 0" "unat (ifile_blocks bs) = n" using n by (auto simp: n_def nifile_def)
  let ?f = "first_block bs" and ?C = "bC bs" and ?r = "last_block bs" and ?D = "bD bs" and ?u = "update_blocknr k bs"
  let ?P = "inode_ptr bs 2" and ?E = "bmap_bytes {1, 7, 8, 9, 10}"
  note ne = log_neq inode2_neq log_neq [symmetric] inode2_neq(3-) [symmetric]
  have split: "[0..<10] = 0 # [1..<6] @ [6, 7, 8, 9]" by (simp add: upt_rec)
  let ?F1 = "{?f} \<times> {64..<64 + 24 + 16 * 1} \<union> {fst ?P} \<times> {snd ?P + 56..<snd ?P + 112} \<union> dat_bytes 1 1"
  let ?F3 = "{?f} \<times> {104..<104 + 24 + 16 * n} \<union> {fst (?C, 256 :: nat)} \<times> {snd (?C, 256 :: nat) + 56..<snd (?C, 256 :: nat) + 112} \<union> dat_bytes 2 n"
  let ?F4 = "{?f} \<times> {128 + 16 * n..<128 + 16 * n + 24 + 16 * 1} \<union> {fst (?r, 144 :: nat)} \<times> {snd (?r, 144 :: nat) + 56..<snd (?r, 144 :: nat) + 112} \<union> dat_bytes (2 + n) 1"
  let ?F5 = "{?f} \<times> {168 + 16 * n..<168 + 16 * n + 24 + 16 * 1} \<union> {fst (?r, 272 :: nat)} \<times> {snd (?r, 272 :: nat) + 56..<snd (?r, 272 :: nat) + 112} \<union> dat_bytes (3 + n) 1"
  let ?F6 = "{?f} \<times> {208 + 16 * n..<208 + 16 * n + 24 + 8 * 3} \<union> {fst (?r, 16 :: nat)} \<times> {snd (?r, 16 :: nat) + 56..<snd (?r, 16 :: nat) + 112}"
  have last: "Q (of_nat (208 + 16 * n + 24 + 8 * 3)) M6 V6 (G\<lparr>mk_vblocknr := of_nat (3 + n + 1)\<rparr>)"
    if m: "M \<subseteq> M6" and k1: "keep ?F1 V V1" and k2: "keep ?E V1 V2" and k3: "keep ?F3 V2 V3" and k4: "keep ?F4 V3 V4"
      and k5: "keep ?F5 V4 V5" and k6: "keep ?F6 V5 V6" and g5: "grp bs V5 ?D (3 + n + 1)"
      and r1: "vfile_ok bs V1 64 ?P 2 1 (?f + 1) 1" and r3: "vfile_ok bs V3 104 (?C, 256) 6 2 (bI bs) n"
      and r4: "vfile_ok bs V4 (128 + 16 * n) (?r, 144) 4 (2 + n) ?C 1" and r5: "vfile_ok bs V5 (168 + 16 * n) (?r, 272) 5 (3 + n) (bS bs) 1"
      and r6: "dfile_ok bs V6 (208 + 16 * n) (?r, 16) 3 ?D 3" for M6 V1 V2 V3 V4 V5 V6
  proof -
    note a5 = keep_trans [OF k5 k6] note a4 = keep_trans [OF k4 a5] note a3 = keep_trans [OF k3 a4]
    note a2 = keep_trans [OF k2 a3] note a1 = keep_trans [OF k1 a2]
    have l1: "length (V1 c) = unat bs" for c using k1 l by (simp add: keep_def)
    have l3: "length (V3 c) = unat bs" for c using l1 k2 k3 by (simp add: keep_def)
    have l5: "length (V4 c) = unat bs" "length (V5 c) = unat bs" for c using l3 k4 k5 by (simp_all add: keep_def)
    have "grp bs V6 ?D (3 + n + 1)" by (rule grp_keep [OF g5 k6]) (use ne l5 bs_ge in auto)
    moreover have "vfile_ok bs V6 64 ?P 2 1 (?f + 1) 1"
      by (rule vfile_keep [OF r1 a2]) (use ne l1 bs_ge n(1) bmap_bytes_empties bmap_bytes_root in \<open>auto simp: dat_bytes_def\<close>)
    moreover have "vfile_ok bs V6 104 (?C, 256) 6 2 (bI bs) n"
      by (rule vfile_keep [OF r3 a4]) (use ne l3 bs_ge n in \<open>auto simp: dat_bytes_def\<close>)
    moreover have "vfile_ok bs V6 (128 + 16 * n) (?r, 144) 4 (2 + n) ?C 1"
      by (rule vfile_keep [OF r4 a5]) (use ne l5 bs_ge n in \<open>auto simp: dat_bytes_def\<close>)
    moreover have "vfile_ok bs V6 (168 + 16 * n) (?r, 272) 5 (3 + n) (bS bs) 1"
      by (rule vfile_keep [OF r5 k6]) (use ne l5 bs_ge n in \<open>auto simp: dat_bytes_def\<close>)
    moreover have "keep (file_bytes bs) V V6"
      by (rule keep_mono [OF a1]) (use bmap_bytes_inodes in \<open>auto simp: file_bytes_def dat_bytes_def inode2_neq n_def [symmetric]\<close>)
    ultimately have "Q (of_nat (256 + 16 * nifile bs)) M6 V6 (G\<lparr>mk_vblocknr := of_nat (4 + nifile bs)\<rparr>)"
      using r6 by (intro Q m) (simp_all add: files_ok_def Let_def n_def add_ac)
    then show ?thesis by (simp add: n_def add_ac)
  qed
  have v': "mk_vblocknr G = of_nat 1" using v by simp
  have MP: "bI bs + 2 \<in> M" using spec [OF M(1), of 2] by (simp add: inode2_neq)
  have upd [simp]: "G\<lparr>mk_vblocknr := a\<rparr>\<lparr>mk_vblocknr := b\<rparr> = G\<lparr>mk_vblocknr := b\<rparr>" for a b by simp
  show "wpv (foldE ?u [0..<10] (of_nat 64)) M V G Q"
    unfolding split foldE.simps(2)
  proof (rule wpv_bind, rule wpv_update_v [OF g _ raw3_at(1) files_at_raw3(1) _ _ _ _ v' _ gr])
    fix M1 V1 assume m1: "M \<subseteq> M1" and k1: "keep ?F1 V V1" and g1: "grp bs V1 ?D (1 + 1)" and r1: "vfile_ok bs V1 64 ?P 2 1 (?f + 1) 1"
    let ?G1 = "G\<lparr>mk_vblocknr := of_nat (1 + 1)\<rparr>"
    have gg1: "gok bs di raw3 ?G1" using g by simp
    have l1: "length (V1 c) = unat bs" for c using k1 l by (simp add: keep_def)
    show "wpv (foldE ?u ([1..<6] @ [6, 7, 8, 9]) (of_nat (64 + 24 + 16 * 1))) M1 V1 ?G1 Q"
      unfolding foldE_app
    proof (rule wpv_bind, rule wpv_update_empties [OF gg1])
      fix M2 V2 assume m2: "M1 \<subseteq> M2" and k2: "keep ?E V1 V2"
      have e: "(b, i) \<notin> ?E" if "b \<noteq> bI bs + 2" "b \<noteq> bI bs + 3" for b i using bmap_bytes_empties that by blast
      have g1': "grp bs V1 ?D 2" using g1 by (simp add: numeral_2_eq_2)
      have g2: "grp bs V2 ?D 2"
        by (rule grp_keep [OF g1' k2]) (use e [of ?D] e [of "?D + 1"] log_neq inode2_neq l1 bs_ge in auto)
      have o2: "of_nat (64 + 24 + 16 * 1) = (of_nat 104 :: u64)" by simp
      have v2: "mk_vblocknr ?G1 = of_nat 2" by simp
      show "wpv (foldE ?u [6, 7, 8, 9] (of_nat (64 + 24 + 16 * 1))) M2 V2 ?G1 Q"
        unfolding o2 foldE.simps(2)
      proof (rule wpv_bind, rule wpv_update_v [OF gg1 _ raw3_at(2) files_at_raw3(2) _ nb _ v2 _ g2])
        fix M3 V3 assume m3: "M2 \<subseteq> M3" and k3: "keep ?F3 V2 V3" and g3: "grp bs V3 ?D (2 + n)" and r3: "vfile_ok bs V3 104 (?C, 256) 6 2 (bI bs) n"
        let ?G3 = "G\<lparr>mk_vblocknr := of_nat (2 + n)\<rparr>"
        have gg3: "gok bs di raw3 ?G3" using g by simp
        have v3: "mk_vblocknr ?G3 = of_nat (2 + n)" by simp
        have o3: "104 + 24 + 16 * n = 128 + 16 * n" by simp
        have G3: "?G1\<lparr>mk_vblocknr := of_nat (2 + n)\<rparr> = ?G3" by (rule upd)
        show "wpv (bindE (?u 7 (of_nat (104 + 24 + 16 * n))) (\<lambda>y. bindE (?u 8 y) (\<lambda>y. bindE (?u 9 y) (foldE ?u [])))) M3 V3
            (?G1\<lparr>mk_vblocknr := of_nat (2 + n)\<rparr>) Q"
          unfolding o3 G3
        proof (rule wpv_bind, rule wpv_update_v [OF gg3 _ raw3_at(3) files_at_raw3(3) _ _ _ _ v3 _ g3])
          fix M4 V4 assume m4: "M3 \<subseteq> M4" and k4: "keep ?F4 V3 V4" and g4: "grp bs V4 ?D (2 + n + 1)"
            and r4: "vfile_ok bs V4 (128 + 16 * n) (?r, 144) 4 (2 + n) ?C 1"
          let ?G4 = "G\<lparr>mk_vblocknr := of_nat (3 + n)\<rparr>"
          have gg4: "gok bs di raw3 ?G4" using g by simp
          have v4: "mk_vblocknr ?G4 = of_nat (3 + n)" by simp
          have n3: "2 + n + 1 = 3 + n" by simp
          have o4: "128 + 16 * n + 24 + 16 * 1 = 168 + 16 * n" by simp
          have G4: "?G3\<lparr>mk_vblocknr := of_nat (3 + n)\<rparr> = ?G4" by (rule upd)
          note g4' = g4 [unfolded n3]
          show "wpv (bindE (?u 8 (of_nat (128 + 16 * n + 24 + 16 * 1))) (\<lambda>y. bindE (?u 9 y) (foldE ?u []))) M4 V4
              (?G3\<lparr>mk_vblocknr := of_nat (2 + n + 1)\<rparr>) Q"
            unfolding o4 n3 G4
          proof (rule wpv_bind, rule wpv_update_v [OF gg4 _ raw3_at(4) files_at_raw3(4) _ _ _ _ v4 _ g4'])
            fix M5 V5 assume m5: "M4 \<subseteq> M5" and k5: "keep ?F5 V4 V5" and g5: "grp bs V5 ?D (3 + n + 1)"
              and r5: "vfile_ok bs V5 (168 + 16 * n) (?r, 272) 5 (3 + n) (bS bs) 1"
            let ?G5 = "G\<lparr>mk_vblocknr := of_nat (3 + n + 1)\<rparr>"
            have gg5: "gok bs di raw3 ?G5" using g by simp
            have o5: "168 + 16 * n + 24 + 16 * 1 = 208 + 16 * n" by simp
            have G5: "?G4\<lparr>mk_vblocknr := of_nat (3 + n + 1)\<rparr> = ?G5" by (rule upd)
            have mm: "M \<subseteq> M5" using m1 m2 m3 m4 m5 by blast
            show "wpv (bindE (?u 9 (of_nat (168 + 16 * n + 24 + 16 * 1))) (foldE ?u [])) M5 V5
              (?G4\<lparr>mk_vblocknr := of_nat (3 + n + 1)\<rparr>) Q"
              unfolding o5 G5
            proof (rule wpv_bind, rule wpv_update_d [OF gg5 _ raw3_at(5) files_at_raw3(5)])
              fix M6 V6 assume m6: "M5 \<subseteq> M6" and k6: "keep ?F6 V5 V6" and r6: "dfile_ok bs V6 (208 + 16 * n) (?r, 16) 3 ?D 3"
              have "M \<subseteq> M6" using mm m6 by blast
              then show "wpv (foldE ?u [] (of_nat (208 + 16 * n + 24 + 8 * 3))) M6 V6 ?G5 Q"
                unfolding foldE.simps(1) by (intro wpv_ret last [OF _ k1 k2 k3 k4 k5 k6 g5 r1 r3 r4 r5 r6])
            qed (use mm M n(1) bs_ge ne in auto)
          qed (use m1 m2 m3 m4 M n(1) bs_ge ne in auto)
        qed (use m1 m2 m3 M n(1) bs_ge ne in auto)
      qed (use m1 m2 M n bs_ge ne in auto)
    qed (use m1 M in auto)
  qed (use M MP n bs_ge ne in auto)
qed

end

section \<open>The commit\<close>

lemma crc32_le_append: "crc32_le c (xs @ ys) = crc32_le (crc32_le c xs) ys"
  by (induction xs arbitrary: c) auto

definition cp_ok :: "u64 \<Rightarrow> blocks \<Rightarrow> bool" where
  "cp_ok bs V \<longleftrightarrow> has V (bC bs) 240 (le64 1) \<and> has V (bC bs) 248 (le64 (ucast (ifile_blocks bs) + 1))
     \<and> has V (bC bs) 232 (le64 (ucast (ifile_blocks bs + 8)))"

definition su_ok :: "u64 \<Rightarrow> nilfs_disk_info \<Rightarrow> blocks \<Rightarrow> bool" where
  "su_ok bs di V \<longleftrightarrow> has V (bS bs) 32 (le64 (di_ctime di)) \<and> has V (bS bs) 40 (le32 (ifile_blocks bs + 8))"

text \<open>The bytes of the log from the first block on, and its three checksums.\<close>

definition log_bytes :: "u64 \<Rightarrow> blocks \<Rightarrow> bytes" where
  "log_bytes bs V = concat (map (\<lambda>i. V (first_block bs + of_nat i)) [0..<nifile bs + 8])"

definition sums_ok :: "u64 \<Rightarrow> u32 \<Rightarrow> blocks \<Rightarrow> bool" where
  "sums_ok bs seed V \<longleftrightarrow>
     has V (first_block bs) 4 (le32 (crc32_le seed (take (248 + 16 * nifile bs) (drop 8 (V (first_block bs))))))
     \<and> has V (last_block bs) 0 (le32 (crc32_le seed (take 396 (drop 4 (V (last_block bs))))))
     \<and> has V (first_block bs) 0 (le32 (crc32_le seed (drop 4 (log_bytes bs V))))"

lemma take_drop_store:
  "b = b' \<Longrightarrow> off + length v \<le> i \<Longrightarrow> off + length v \<le> length (V b) \<Longrightarrow> take n (drop i (store (b', off) v V b)) = take n (drop i (V b))"
  by (simp add: store_def take_drop_put_at_after)

context formatter
begin

lemma wpv_commit_cpfile:
  assumes g: "gok bs di rs G" and cp: "mk_checkpoint G = Some (bC bs, 192)" and M: "bC bs \<in> M"
    and Q: "\<And>V'. keep ({bC bs} \<times> {232..<256}) V V' \<Longrightarrow> cp_ok bs V' \<Longrightarrow> Q () M V' G"
  shows "wpv commit_cpfile M V G Q"
proof (rule wpv_len)
  assume l: "\<And>c. length (V c) = unat bs"
  let ?C = "bC bs" and ?ps = "[(240, le64 1), (248, le64 (ucast (ifile_blocks bs) + 1)), (232, le64 (ucast (ifile_blocks bs + 8)))]"
  let ?pokes = "bindE (poke (?C, 240) (le64 1)) (\<lambda>_. bindE (poke (?C, 248) (le64 (ucast (ifile_blocks bs) + 1))) (\<lambda>_.
     poke (?C, 232) (le64 (ucast (ifile_blocks bs + 8)))))"
  have "\<forall>(off, v) \<in> set ?ps. has (stores ?C ?ps V) ?C off v"
    by (rule has_stores [THEN conjunct1]) (use l bs_ge in \<open>auto simp: apart_def\<close>)
  then have h: "cp_ok bs (stores ?C ?ps V)" by (simp add: cp_ok_def)
  have kp: "keep ({?C} \<times> {232..<256}) V (stores ?C ?ps V)"
    unfolding stores_simps by (intro keep_more_block keep_refl l) (use bs_ge in simp_all)
  show "wpv commit_cpfile M V G Q"
  proof (rule wpv_cong)
    show "wpv ?pokes M V G Q" using Q [OF kp h] unfolding stores_simps
      by (intro wpv_poke_bind wpv_poke) (use M bs_ge in simp_all)
    fix s assume s: "ghost s = G"
    have "di_nblocks_used (mk_di s) = ucast (ifile_blocks bs) + 1"
      using g ghost_fields(3) [OF s] by (simp add: gok_def di_raw_def planned_def)
    moreover have "mi_nblocks (cur_seg s) = ifile_blocks bs + 8"
      using ghost_fields(15) [OF s] gok_cur [OF g] by (simp add: seg_raw_def planned_segment_def)
    moreover have "mk_checkpoint s = Some (?C, 192)" using ghost_fields(8) [OF s] cp by simp
    ultimately show "commit_cpfile s = ?pokes s"
      by (simp add: commit_cpfile_def deref_def nr_initial_inodes_def)
  qed
qed

lemma wpv_commit_sufile:
  assumes g: "gok bs di rs G" and bps: "16 \<le> di_blocks_per_segment di"
    and Q: "\<And>M' V'. M \<subseteq> M' \<Longrightarrow> bS bs \<in> M' \<Longrightarrow> keep ({bS bs} \<times> {32..<44}) V V' \<Longrightarrow> su_ok bs di V' \<Longrightarrow> Q () M' V' G"
  shows "wpv (commit_sufile k bs) M V G Q"
proof (rule wpv_len)
  assume l: "\<And>c. length (V c) = unat bs"
  let ?S = "bS bs" and ?ps = "[(32, le64 (di_ctime di)), (40, le32 (ifile_blocks bs + 8))]"
  let ?m = "bindE (map_disk_buffer k bs ?S True) (\<lambda>_. bindE (poke (?S, 32) (le64 (di_ctime di))) (\<lambda>_. poke (?S, 40) (le32 (ifile_blocks bs + 8))))"
  have sz: "?S < mk_buffer_size G" using gok_size [OF g] by simp
  have "\<forall>(off, v) \<in> set ?ps. has (stores ?S ?ps V) ?S off v"
    by (rule has_stores [THEN conjunct1]) (use l bs_ge in \<open>auto simp: apart_def\<close>)
  then have h: "su_ok bs di (stores ?S ?ps V)" by (simp add: su_ok_def)
  have kp: "keep ({?S} \<times> {32..<44}) V (stores ?S ?ps V)"
    unfolding stores_simps by (intro keep_more_block keep_refl l) (use bs_ge in simp_all)
  have S16: "?S < 16" using bs unfolding mkfs_bs_def by (elim disjE; simp add: block_defs)
  have d0: "?S div di_blocks_per_segment di = 0" using S16 bps by (simp add: word_arith_nat_div word_less_nat_alt word_le_nat_alt)
  have fi: "files_raw bs rs ! 8 = \<lparr>mf_ino = 5, mf_start_blocknr = ?S, mf_nblocks = 1, mf_raw_inode = rs 8\<rparr>"
    by (simp add: files_raw_nth files_at)
  have e: "(2 :: u64) div (bs div ucast sizeof_segment_usage) = 0" "unat ((2 :: u64) mod (bs div ucast sizeof_segment_usage)) = 2"
    using bs unfolding mkfs_bs_def by (elim disjE; simp add: sizeof_segment_usage_def)+
  have off2: "NILFS_SUFILE_FIRST_SEGMENT_USAGE_OFFSET = 2"
    by (simp add: NILFS_SUFILE_FIRST_SEGMENT_USAGE_OFFSET_def sizeof_sufile_header_def sizeof_segment_usage_def)
  let ?k = "\<lambda>p s. let su = padd p (16 * 2) in
        bindE (poke (padd su 0) (le64 (di_ctime (mk_di s)))) (\<lambda>_. poke (padd su 8) (le32 (mi_nblocks (cur_seg s)))) s"
  have "Q () (insert ?S M) (stores ?S ?ps V) G" by (rule Q [OF _ _ kp h]) auto
  then have "wpv (bindE (poke (?S, 32) (le64 (di_ctime di))) (\<lambda>_. poke (?S, 40) (le32 (ifile_blocks bs + 8)))) (insert ?S M) V G Q"
    unfolding stores_simps by (intro wpv_poke_bind wpv_poke) (use bs_ge in simp_all)
  then have body: "wpv (?k (?S, 0)) (insert ?S M) V G Q"
  proof (rule wpv_cong [rotated])
    fix s assume s: "ghost s = G"
    have "di_ctime (mk_di s) = di_ctime di" "mi_nblocks (cur_seg s) = ifile_blocks bs + 8"
      using g ghost_fields(3,15) [OF s] gok_cur [OF g] by (simp_all add: gok_def di_raw_def planned_def seg_raw_def planned_segment_def)
    then show "?k (?S, 0) s = bindE (poke (?S, 32) (le64 (di_ctime di))) (\<lambda>_. poke (?S, 40) (le32 (ifile_blocks bs + 8))) s"
      by (simp add: Let_def)
  qed
  show "wpv (commit_sufile k bs) M V G Q"
    unfolding commit_sufile_def
  proof (rule wpv_bind, rule wpv_get_file [OF g fidx_at(2)], rule wpv_cong)
    show "wpv (bindE (map_disk_buffer k bs ?S True) ?k) M V G Q" by (rule wpv_map_bind [OF sz]) (rule body)
    fix s assume s: "ghost s = G"
    have "di_blocks_per_segment (mk_di s) = di_blocks_per_segment di"
      using g ghost_fields(3) [OF s] by (simp add: gok_def di_raw_def planned_def)
    then show "(let entries_per_block = bs div ucast sizeof_segment_usage;
           segnum = ucast (mf_start_blocknr (files_raw bs rs ! 8) div di_blocks_per_segment (mk_di s)) :: u32;
           n = ucast segnum + NILFS_SUFILE_FIRST_SEGMENT_USAGE_OFFSET
       in bindE (map_disk_buffer k bs (mf_start_blocknr (files_raw bs rs ! 8) + n div entries_per_block) True) (\<lambda>p s.
            let su = padd p (16 * unat (n mod entries_per_block)) in
            bindE (poke (padd su 0) (le64 (di_ctime (mk_di s)))) (\<lambda>_.
              poke (padd su 8) (le32 (mi_nblocks (cur_seg s)))) s) s) = bindE (map_disk_buffer k bs ?S True) ?k s"
      unfolding Let_def fi nilfs_file_info.simps by (simp only: d0 off2 e unsigned_0 add_0_left add_0_right)
  qed
qed

end

context formatter
begin

lemma log_block_less:
  assumes "i < nifile bs + 8"
  shows "first_block bs + of_nat i < last_block bs + 1"
proof -
  have f: "unat (first_block bs) \<le> 4" "last_block bs + 1 = of_nat (unat (first_block bs) + nifile bs + 8)"
    using bs unfolding mkfs_bs_def by (elim disjE; simp add: nifile_def ifile_blocks_def last_block_def first_block_def)+
  have "unat (of_nat (unat (first_block bs) + i) :: u64) = unat (first_block bs) + i"
    "unat (of_nat (unat (first_block bs) + nifile bs + 8) :: u64) = unat (first_block bs) + nifile bs + 8"
    using f(1) assms nifile_cases [of bs] by - (rule unat_of_nat_u64; auto)+
  moreover have "first_block bs + of_nat i = of_nat (unat (first_block bs) + i)" by simp
  ultimately show ?thesis using assms f(2) by (simp only: word_less_nat_alt)
qed

lemma wpv_datasum:
  assumes g: "gok bs di rs G"
    and Q: "\<And>M'. M \<subseteq> M' \<Longrightarrow> Q (crc32_le seed (drop 4 (log_bytes bs V))) M' V G"
  shows "wpv (foldE (\<lambda>i. datasum_block k bs (first_block bs + of_nat i)) [1..<nifile bs + 8] (crc32_le seed (drop 4 (V (first_block bs))))) M V G Q"
proof (rule wpv_len)
  assume l: "\<And>c. length (V c) = unat bs"
  let ?b = "\<lambda>i. first_block bs + of_nat i"
  let ?c = "\<lambda>n. crc32_le seed (drop 4 (concat (map (\<lambda>i. V (?b i)) [0..<n])))"
  show ?thesis
  proof (rule wpv_fold [where I = "\<lambda>n x M' V' G'. x = ?c n \<and> V' = V \<and> G' = G"])
    fix i x M1 V1 G1 assume i: "1 \<le> i" "i < nifile bs + 8" and I: "x = ?c i \<and> V1 = V \<and> G1 = G"
    have sz: "?b i < mk_buffer_size G" using log_block_less [OF i(2)] g by (simp add: gok_def)
    have "4 \<le> length (concat (map (\<lambda>i. V (?b i)) [0..<i]))"
      using i(1) l bs_ge by (simp add: upt_conv_Cons)
    then have "crc32_le (?c i) (V (?b i)) = ?c (Suc i)"
      by (simp add: crc32_le_append [symmetric])
    then have step: "wpv (retE (crc32_le (?c i) (take (unat bs) (drop (snd (?b i, 0 :: nat)) (V (fst (?b i, 0 :: nat))))))) (insert (?b i) M1) V G
        (\<lambda>x M' V' G'. x = ?c (Suc i) \<and> V' = V \<and> G' = G)"
      using l by (intro wpv_ret) simp
    have x: "x = ?c i" "V1 = V" "G1 = G" using I by auto
    show "wpv (datasum_block k bs (?b i) x) M1 V1 G1 (\<lambda>x M' V' G'. x = ?c (Suc i) \<and> V' = V \<and> G' = G)"
      unfolding x datasum_block_def
      by (rule wpv_map_bind [OF sz], rule wpv_peek_bind) (use l step in simp_all)
  next
    have "[0..<Suc 0] = [0]" by simp
    then show "crc32_le seed (drop 4 (V (first_block bs))) = ?c 1 \<and> V = V \<and> G = G" by simp
  next
    fix x M' V' G' assume "M \<subseteq> M'" "x = ?c (nifile bs + 8) \<and> V' = V \<and> G' = G"
    then show "Q x M' V' G'" using Q by (simp add: log_bytes_def)
  qed simp
qed

lemma log_bytes_first:
  assumes "\<And>c. length (V c) = unat bs" "4 \<le> unat bs"
  shows "drop 4 (log_bytes bs V) = drop 4 (V (first_block bs)) @ concat (map (\<lambda>i. V (first_block bs + of_nat i)) [1..<nifile bs + 8])"
proof -
  have "[0..<nifile bs + 8] = 0 # [1..<nifile bs + 8]" by (simp add: upt_conv_Cons)
  then show ?thesis using assms by (simp add: log_bytes_def)
qed

lemma log_bytes_sum:
  assumes "\<And>c. length (V c) = unat bs" "length v = 4"
  shows "drop 4 (log_bytes bs (store (first_block bs, 0) v V)) = drop 4 (log_bytes bs V)"
proof -
  let ?V = "store (first_block bs, 0) v V"
  have l: "length (?V c) = unat bs" for c using assms bs_ge by simp
  have "?V (first_block bs + of_nat i) = V (first_block bs + of_nat i)" if "i \<in> set [1..<nifile bs + 8]" for i
  proof -
    have "unat (of_nat i :: u64) = i" using that nifile_cases [of bs] by (intro unat_of_nat_u64) auto
    then have "(of_nat i :: u64) \<noteq> 0" using that by auto
    then show ?thesis by (simp add: store_def)
  qed
  then have m: "map (\<lambda>i. ?V (first_block bs + of_nat i)) [1..<nifile bs + 8] = map (\<lambda>i. V (first_block bs + of_nat i)) [1..<nifile bs + 8]"
    by (intro map_cong refl)
  have d: "drop 4 (?V (first_block bs)) = drop 4 (V (first_block bs))"
    using assms bs_ge by (simp add: store_def put_at_def)
  show ?thesis
    using bs_ge by (simp only: log_bytes_first [OF l] log_bytes_first [OF assms(1)] m d)
qed

lemma wpv_fill_in_checksums:
  assumes g: "gok bs di rs G" and p: "mk_segsum G = Some (first_block bs, 0)" "mk_super_root G = Some (last_block bs, 0)"
    and M: "first_block bs \<in> M" "last_block bs \<in> M"
    and Q: "\<And>M' V'. M \<subseteq> M' \<Longrightarrow> keep ({first_block bs} \<times> {0..<8} \<union> {last_block bs} \<times> {0..<4}) V V' \<Longrightarrow> sums_ok bs seed V' \<Longrightarrow> Q () M' V' G"
  shows "wpv (fill_in_checksums k bs seed) M V G Q"
proof (rule wpv_len)
  assume l: "\<And>c. length (V c) = unat bs"
  let ?f = "first_block bs" and ?r = "last_block bs" and ?n = "248 + 16 * nifile bs"
  have ne: "?f \<noteq> ?r" using log_distinct by auto
  have cur: "mi_start_blocknr (cur_seg G) = ?f" "unat (mi_sumbytes (cur_seg G) - 8) = ?n" "unat (mi_nblocks (cur_seg G)) = nifile bs + 8"
    "mi_nblocks (cur_seg G) \<noteq> 0"
    by (auto simp: gok_cur [OF g] seg_raw_def planned_segment_def nifile_def ifile_blocks_def)
  have n: "?n \<le> 312" using nifile_cases [of bs] by auto
  define c1 where "c1 = crc32_le seed (take ?n (drop 8 (V ?f)))"
  define V1 where "V1 = store (?f, 4) (le32 c1) V"
  define c2 where "c2 = crc32_le seed (take 396 (drop 4 (V1 ?r)))"
  define V2 where "V2 = store (?r, 0) (le32 c2) V1"
  define c3 where "c3 = crc32_le seed (drop 4 (log_bytes bs V2))"
  define V3 where "V3 = store (?f, 0) (le32 c3) V2"
  have k1: "keep ({?f} \<times> {4..<8}) V V1" unfolding V1_def by (intro keep_more_block keep_refl l) (use bs_ge in simp_all)
  have l1: "length (V1 c) = unat bs" for c using k1 l by (simp add: keep_def)
  have k2: "keep ({?r} \<times> {0..<4}) V1 V2" unfolding V2_def by (intro keep_more_block keep_refl l1) (use bs_ge in simp_all)
  have l2: "length (V2 c) = unat bs" for c using k2 l1 by (simp add: keep_def)
  have k3: "keep ({?f} \<times> {0..<4}) V2 V3" unfolding V3_def by (intro keep_more_block keep_refl l2) (use bs_ge in simp_all)
  have l3: "length (V3 c) = unat bs" for c using k3 l2 by (simp add: keep_def)
  have kk: "keep ({?f} \<times> {0..<8} \<union> {?r} \<times> {0..<4}) V V3" by (rule keep_chain [OF keep_trans [OF k1 k2] k3]) auto
  have r3: "V3 ?r = V2 ?r" "drop 4 (V2 ?r) = drop 4 (V1 ?r)" "V2 ?f = V1 ?f"
    using ne l1 bs_ge by (simp_all add: V3_def V2_def store_def put_at_def)
  have f3: "drop 8 (V3 ?f) = drop 8 (V2 ?f)" "drop 8 (V1 ?f) = drop 8 (V ?f)"
    using l l2 bs_ge by (simp_all add: V3_def V1_def store_def put_at_def)
  have h1: "has V3 ?f 4 (le32 c1)"
  proof (rule has_keep [OF _ k3])
    have "has V1 ?f 4 (le32 c1)" unfolding V1_def by (rule has_store) (use l bs_ge in simp)
    then show "has V2 ?f 4 (le32 c1)" using r3(3) by (simp add: has_def)
  qed (use l2 bs_ge in auto)
  have "has V2 ?r 0 (le32 c2)" unfolding V2_def by (rule has_store) (use l1 bs_ge in simp)
  then have h2: "has V3 ?r 0 (le32 c2)" using r3(1) by (simp add: has_def)
  have h3: "has V3 ?f 0 (le32 c3)" unfolding V3_def by (rule has_store) (use l2 bs_ge in simp)
  have lb: "drop 4 (log_bytes bs V3) = drop 4 (log_bytes bs V2)" unfolding V3_def by (rule log_bytes_sum [OF l2]) simp
  have s3: "sums_ok bs seed V3"
    unfolding sums_ok_def lb r3(1,2) f3(1) r3(3) f3(2) using h1 h2 h3 by (simp add: c1_def c2_def c3_def)
  have fin: "M \<subseteq> M' \<Longrightarrow> Q () M' V3 G" for M' by (rule Q [OF _ kk s3])
  let ?m3 = "bindE (map_disk_buffer k bs ?f True) (\<lambda>p. bindE (peek (padd p 4) (unat bs - 4)) (\<lambda>v.
     bindE (foldE (\<lambda>i. datasum_block k bs (?f + of_nat i)) [1..<nifile bs + 8] (crc32_le seed v)) (\<lambda>crc. poke (?f, 0) (le32 crc))))"
  have sz: "?f < mk_buffer_size G" using gok_size [OF g] by simp
  have t4: "take (unat bs - 4) (drop 4 (V2 ?f)) = drop 4 (V2 ?f)" using l2 by simp
  have m3: "wpv ?m3 M V2 G Q"
  proof (rule wpv_map_bind [OF sz], rule wpv_peek_bind)
    show "wpv (bindE (foldE (\<lambda>i. datasum_block k bs (?f + of_nat i)) [1..<nifile bs + 8]
        (crc32_le seed (take (unat bs - 4) (drop (snd (padd (?f, 0) 4)) (V2 (fst (padd (?f, 0) 4))))))) (\<lambda>crc. poke (?f, 0) (le32 crc))) (insert ?f M) V2 G Q"
      unfolding padd_pair fst_conv snd_conv add_0_left t4
    proof (rule wpv_bind, rule wpv_datasum [OF g])
      fix M' assume "insert ?f M \<subseteq> M'"
      then show "wpv (poke (?f, 0) (le32 (crc32_le seed (drop 4 (log_bytes bs V2))))) M' V2 G Q"
        unfolding c3_def [symmetric] by (intro wpv_poke) (use bs_ge fin V3_def in auto)
    qed
  qed (use bs_ge in auto)
  let ?m2 = "bindE (peek (?r, 4) 396) (\<lambda>v. bindE (poke (?r, 0) (le32 (crc32_le seed v))) (\<lambda>_. ?m3))"
  have m2: "wpv ?m2 M V1 G Q"
  proof (rule wpv_peek_bind)
    show "wpv (bindE (poke (?r, 0) (le32 (crc32_le seed (take 396 (drop (snd (?r, 4 :: nat)) (V1 (fst (?r, 4 :: nat)))))))) (\<lambda>_. ?m3)) M V1 G Q"
      unfolding fst_conv snd_conv c2_def [symmetric]
    proof (rule wpv_poke_bind)
      show "wpv ?m3 M (store (?r, 0) (le32 c2) V1) G Q" using m3 unfolding V2_def .
    qed (use M bs_ge in simp_all)
  qed (use M bs_ge in simp_all)
  let ?m1 = "bindE (peek (?f, 8) ?n) (\<lambda>v. bindE (poke (?f, 4) (le32 (crc32_le seed v))) (\<lambda>_. ?m2))"
  have m1: "wpv ?m1 M V G Q"
  proof (rule wpv_peek_bind)
    show "wpv (bindE (poke (?f, 4) (le32 (crc32_le seed (take ?n (drop (snd (?f, 8 :: nat)) (V (fst (?f, 8 :: nat)))))))) (\<lambda>_. ?m2)) M V G Q"
      unfolding fst_conv snd_conv c1_def [symmetric]
    proof (rule wpv_poke_bind)
      show "wpv ?m2 M (store (?f, 4) (le32 c1) V) G Q" using m2 unfolding V1_def .
    qed (use M bs_ge in simp_all)
  qed (use M bs_ge n in simp_all)
  show "wpv (fill_in_checksums k bs seed) M V G Q"
  proof (rule wpv_cong [OF _ m1])
    fix s assume s: "ghost s = G"
    have c: "cur_seg s = cur_seg G" "mk_segsum s = Some (?f, 0)" "mk_super_root s = Some (?r, 0)"
      using ghost_fields [OF s] p by simp_all
    have sr: "unat NILFS_SR_BYTES - 4 = 396" by (simp add: NILFS_SR_BYTES_def)
    show "fill_in_checksums k bs seed s = ?m1 s"
      unfolding fill_in_checksums_def Let_def c cur sr if_not_P [OF cur(4)]
      by (simp add: deref_def)
  qed
qed

end

text \<open>The blocks of the log before the commit, and after it.\<close>

definition log_area :: "u64 \<Rightarrow> (u64 \<times> nat) set" where
  "log_area bs = {first_block bs..last_block bs} \<times> UNIV"

definition prepared :: "u64 \<Rightarrow> nilfs_disk_info \<Rightarrow> blocks \<Rightarrow> bool" where
  "prepared bs di V \<longleftrightarrow> segsum_hdr bs di V \<and> has V (last_block bs) 4 (le16 NILFS_SR_BYTES) \<and> has V (last_block bs) 8 (le64 (di_ctime di))
     \<and> rootdir_ok bs V \<and> sufile_hdr bs di V \<and> cpfile_hdr bs di V \<and> grp bs V (bI bs) 11"

definition committed :: "u64 \<Rightarrow> nilfs_disk_info \<Rightarrow> u32 \<Rightarrow> blocks \<Rightarrow> bool" where
  "committed bs di seed V \<longleftrightarrow> prepared bs di V \<and> grp bs V (bD bs) (4 + nifile bs) \<and> files_ok bs V
     \<and> cp_ok bs V \<and> su_ok bs di V \<and> sums_ok bs seed V"

context formatter
begin

lemma prepared_keep:
  assumes p: "prepared bs di V" and kp: "keep F V V'" and l: "\<And>c. length (V c) = unat bs"
    and F: "\<And>i. 8 \<le> i \<Longrightarrow> i < 64 \<Longrightarrow> (first_block bs, i) \<notin> F" "\<And>i. (first_block bs + 1, i) \<notin> F"
      "\<And>i. i < 4 \<Longrightarrow> (bI bs, i) \<notin> F" "\<And>i. (bI bs + 1, i) \<notin> F" "\<And>i. (bS bs, i) \<in> F \<Longrightarrow> 32 \<le> i \<and> i < 44"
      "\<And>i. (bC bs, i) \<in> F \<Longrightarrow> 232 \<le> i \<and> i < 384" "\<And>i. 4 \<le> i \<Longrightarrow> i < 16 \<Longrightarrow> (last_block bs, i) \<notin> F"
  shows "prepared bs di V'"
proof -
  note q = p [unfolded prepared_def]
  have "segsum_hdr bs di V'" by (rule segsum_hdr_keep [OF _ kp]) (use q F(1) l bs_ge in auto)
  moreover have "has V' (last_block bs) 4 (le16 NILFS_SR_BYTES)" by (rule has_keep [OF _ kp]) (use q F(7) l bs_ge in auto)
  moreover have "has V' (last_block bs) 8 (le64 (di_ctime di))" by (rule has_keep [OF _ kp]) (use q F(7) l bs_ge in auto)
  moreover have "rootdir_ok bs V'" by (rule rootdir_keep [OF _ kp]) (use q F(2) in auto)
  moreover have "sufile_hdr bs di V'" by (rule sufile_hdr_keep [OF _ kp]) (use q F(5) l bs_ge in auto)
  moreover have "cpfile_hdr bs di V'" by (rule cpfile_hdr_keep [OF _ kp]) (use q F(6) l bs_ge in auto)
  moreover have "grp bs V' (bI bs) 11" by (rule grp_keep [OF _ kp]) (use q F(3,4) l bs_ge in auto)
  ultimately show ?thesis by (simp add: prepared_def)
qed

lemma log_neq2:
  "first_block bs \<noteq> first_block bs + 1" "first_block bs \<noteq> bI bs" "first_block bs \<noteq> bI bs + 1" "first_block bs \<noteq> bS bs"
  "first_block bs + 1 \<noteq> bI bs" "first_block bs + 1 \<noteq> bI bs + 1" "first_block bs + 1 \<noteq> bC bs" "first_block bs + 1 \<noteq> bS bs"
  "first_block bs + 1 \<noteq> bD bs" "first_block bs + 1 \<noteq> bD bs + 1" "first_block bs + 1 \<noteq> bD bs + 2" "first_block bs + 1 \<noteq> last_block bs"
  "bI bs \<noteq> bC bs" "bI bs + 1 \<noteq> bC bs"
  "bI bs \<noteq> bS bs" "bI bs + 1 \<noteq> bS bs" "bI bs \<noteq> bD bs" "bI bs + 1 \<noteq> bD bs" "bI bs \<noteq> bD bs + 1" "bI bs + 1 \<noteq> bD bs + 1"
  "bI bs \<noteq> bD bs + 2" "bI bs + 1 \<noteq> bD bs + 2" "bI bs \<noteq> last_block bs" "bI bs + 1 \<noteq> last_block bs"
  "bI bs + 2 \<noteq> bS bs" "bC bs \<noteq> bS bs" "bS bs \<noteq> last_block bs" "bS bs \<noteq> bD bs" "bS bs \<noteq> bD bs + 1" "bS bs \<noteq> bD bs + 2"
  using log_distinct by auto

end

lemma log_block_area:
  assumes "mkfs_bs bs" "b \<in> set [first_block bs, first_block bs + 1, bI bs, bI bs + 1, bI bs + 2, bC bs, bS bs, bD bs, bD bs + 1, bD bs + 2, last_block bs]"
  shows "first_block bs \<le> b \<and> b \<le> last_block bs"
  using assms unfolding mkfs_bs_def by (elim disjE; auto simp: block_defs)

lemma inode_block_area:
  assumes "mkfs_bs bs" "b \<in> inode_blocks bs"
  shows "first_block bs \<le> b \<and> b \<le> last_block bs"
proof -
  obtain ino where "ino < 11" "b = fst (inode_ptr bs ino)" using assms(2) by (auto simp: inode_blocks_def)
  then have "b = bI bs + 2 \<or> bs = 1024 \<and> b = bI bs + 3" by (auto simp: inode_ptr_cases [OF assms(1)])
  then show ?thesis using assms(1) unfolding mkfs_bs_def by (elim disjE; auto simp: block_defs)
qed

definition log_ref :: "u64 \<Rightarrow> nilfs_disk_info \<Rightarrow> nilfs_segment_ref" where
  "log_ref bs di = \<lparr>sf_seq = 0, sf_start_blocknr = first_block bs, sf_free_blocks_count = count_free_blocks (planned bs di), sf_cno = 1\<rparr>"

context formatter
begin

lemma area_block:
  "b \<in> set [first_block bs, first_block bs + 1, bI bs, bI bs + 1, bI bs + 2, bC bs, bS bs, bD bs, bD bs + 1, bD bs + 2, last_block bs] \<Longrightarrow> (b, i) \<in> log_area bs"
  using log_block_area [OF bs] by (auto simp: log_area_def)

lemma file_bytes_area: "file_bytes bs \<subseteq> log_area bs"
  using area_block inode_block_area [OF bs] by (fastforce simp: file_bytes_def log_area_def)

lemma files_keep:
  assumes p: "files_ok bs V" and kp: "keep F V V'" and l: "\<And>c. length (V c) = unat bs"
    and F: "\<And>i. 64 \<le> i \<Longrightarrow> (first_block bs, i) \<notin> F" "\<And>i. (bI bs + 2, i) \<notin> F" "\<And>i. 256 \<le> i \<Longrightarrow> (bC bs, i) \<notin> F"
      "\<And>i. 16 \<le> i \<Longrightarrow> (last_block bs, i) \<notin> F" "\<And>i. (bD bs + 2, i) \<notin> F"
  shows "files_ok bs V'"
proof -
  have n: "nifile bs \<le> 4" using nifile_cases [of bs] by auto
  note q = p [unfolded files_ok_def Let_def]
  have "vfile_ok bs V' 64 (inode_ptr bs 2) 2 1 (first_block bs + 1) 1"
    by (rule vfile_keep [OF _ kp]) (use q F l bs_ge inode2_neq in auto)
  moreover have "vfile_ok bs V' 104 (bC bs, 256) 6 2 (bI bs) (nifile bs)"
    by (rule vfile_keep [OF _ kp]) (use q F l bs_ge n in auto)
  moreover have "vfile_ok bs V' (128 + 16 * nifile bs) (last_block bs, 144) 4 (2 + nifile bs) (bC bs) 1"
    by (rule vfile_keep [OF _ kp]) (use q F l bs_ge n in auto)
  moreover have "vfile_ok bs V' (168 + 16 * nifile bs) (last_block bs, 272) 5 (3 + nifile bs) (bS bs) 1"
    by (rule vfile_keep [OF _ kp]) (use q F l bs_ge n in auto)
  moreover have "dfile_ok bs V' (208 + 16 * nifile bs) (last_block bs, 16) 3 (bD bs) 3"
    by (rule dfile_keep [OF _ kp]) (use q F l bs_ge n in auto)
  ultimately show ?thesis by (simp add: files_ok_def Let_def)
qed

lemma wpv_commit_segment:
  assumes g: "gok bs di raw3 G" and v: "mk_vblocknr G = 1" and gr: "grp bs V (bD bs) 1" and pr: "prepared bs di V"
    and cp: "mk_checkpoint G = Some (bC bs, 192)" and ss: "mk_segsum G = Some (first_block bs, 0)" and sr: "mk_super_root G = Some (last_block bs, 0)"
    and M: "\<forall>ino < 11. fst (inode_ptr bs ino) \<in> M" "bC bs \<in> M" "last_block bs \<in> M" "first_block bs \<in> M"
    and bps: "16 \<le> di_blocks_per_segment di"
    and Q: "\<And>M' V'. M \<subseteq> M' \<Longrightarrow> keep (log_area bs) V V' \<Longrightarrow> committed bs di (di_crc_seed di) V'
      \<Longrightarrow> Q () M' V' (G\<lparr>mk_vblocknr := of_nat (4 + nifile bs), mk_segref := log_ref bs di\<rparr>)"
  shows "wpv (commit_segment k bs) M V G Q"
proof (rule wpv_len)
  assume l: "\<And>c. length (V c) = unat bs"
  let ?f = "first_block bs" and ?G = "G\<lparr>mk_vblocknr := of_nat (4 + nifile bs)\<rparr>" and ?seed = "di_crc_seed di"
  let ?last = "\<lambda>s. (Inr (), s\<lparr>mk_segref := \<lparr>sf_seq = ucast (mk_seq s), sf_start_blocknr = mi_start_blocknr (cur_seg s),
                          sf_free_blocks_count = count_free_blocks (mk_di s), sf_cno = mk_cno s\<rparr>\<rparr>) :: (errno + unit) \<times> 'a mkfs"
  let ?fill = "\<lambda>s. fill_in_checksums k bs (di_crc_seed (mk_di s)) s"
  let ?m = "bindE (foldE (update_blocknr k bs) [0..<10] (of_nat 64)) (\<lambda>_. bindE commit_cpfile (\<lambda>_. bindE (commit_sufile k bs) (\<lambda>_.
     bindE ?fill (\<lambda>_. ?last))))"
  have gg: "gok bs di raw3 ?G" using g by simp
  have pG: "mk_checkpoint ?G = Some (bC bs, 192)" "mk_segsum ?G = Some (?f, 0)" "mk_super_root ?G = Some (last_block bs, 0)"
    using cp ss sr by simp_all
  note ne = log_neq inode2_neq log_neq2 log_neq [symmetric] inode2_neq(3-) [symmetric] log_neq2 [symmetric]
  have ib: "?f \<notin> inode_blocks bs" "?f + 1 \<notin> inode_blocks bs" "bI bs \<notin> inode_blocks bs" "bI bs + 1 \<notin> inode_blocks bs"
    "bC bs \<notin> inode_blocks bs" "bS bs \<notin> inode_blocks bs" "last_block bs \<notin> inode_blocks bs"
    using inode_blocks_other(1) [OF bs] by auto
  show "wpv (commit_segment k bs) M V G Q"
  proof (rule wpv_cong)
    fix s assume s: "ghost s = G"
    have "length (mi_files (cur_seg s)) = 10" using ghost_fields(15) [OF s] gok_cur [OF g] by (simp add: seg_raw_def files_raw_def)
    moreover have ns: "mk_segsum s \<noteq> None" using ghost_fields(7) [OF s] ss by simp
    ultimately show "commit_segment k bs s = ?m s"
      unfolding commit_segment_def if_not_P [OF ns] by (simp add: sizeof_segment_summary_def)
  next
    show "wpv ?m M V G Q"
    proof (rule wpv_bind, rule wpv_update_files [OF g v gr M(1-3)])
      fix M1 V1 assume m1: "M \<subseteq> M1" and k1: "keep (file_bytes bs) V V1" and g1: "grp bs V1 (bD bs) (4 + nifile bs)" and f1: "files_ok bs V1"
      have l1: "length (V1 c) = unat bs" for c using k1 l by (simp add: keep_def)
      have p1: "prepared bs di V1" by (rule prepared_keep [OF pr k1 l]) (use ne ib in \<open>auto simp: file_bytes_def\<close>)
      show "wpv (bindE commit_cpfile (\<lambda>_. bindE (commit_sufile k bs) (\<lambda>_. bindE ?fill (\<lambda>_. ?last)))) M1 V1 ?G Q"
      proof (rule wpv_bind, rule wpv_commit_cpfile [OF gg pG(1)])
        fix V2 assume k2: "keep ({bC bs} \<times> {232..<256}) V1 V2" and c2: "cp_ok bs V2"
        have l2: "length (V2 c) = unat bs" for c using k2 l1 by (simp add: keep_def)
        show "wpv (bindE (commit_sufile k bs) (\<lambda>_. bindE ?fill (\<lambda>_. ?last))) M1 V2 ?G Q"
        proof (rule wpv_bind, rule wpv_commit_sufile [OF gg bps])
          fix M3 V3 assume m3: "M1 \<subseteq> M3" "bS bs \<in> M3" and k3: "keep ({bS bs} \<times> {32..<44}) V2 V3" and s3: "su_ok bs di V3"
          have l3: "length (V3 c) = unat bs" for c using k3 l2 by (simp add: keep_def)
          note k13 = keep_trans [OF k2 k3]
          have p3: "prepared bs di V3" by (rule prepared_keep [OF p1 k13 l1]) (use ne in auto)
          have f3: "files_ok bs V3" by (rule files_keep [OF f1 k13 l1]) (use ne in auto)
          have g3: "grp bs V3 (bD bs) (4 + nifile bs)" by (rule grp_keep [OF g1 k13]) (use ne l1 bs_ge in auto)
          have c3: "cp_ok bs V3" using c2 has_keep [OF _ k3] ne l2 bs_ge by (simp add: cp_ok_def)
          have fill: "wpv (fill_in_checksums k bs ?seed) M3 V3 ?G (\<lambda>_ M V G. wpv ?last M V G Q)"
          proof (rule wpv_fill_in_checksums [OF gg pG(2,3)])
            fix M4 V4 assume m4: "M3 \<subseteq> M4" and k4: "keep ({?f} \<times> {0..<8} \<union> {last_block bs} \<times> {0..<4}) V3 V4" and s4: "sums_ok bs ?seed V4"
            have p4: "prepared bs di V4" by (rule prepared_keep [OF p3 k4 l3]) (use ne in auto)
            have f4: "files_ok bs V4" by (rule files_keep [OF f3 k4 l3]) (use ne in auto)
            have g4: "grp bs V4 (bD bs) (4 + nifile bs)" by (rule grp_keep [OF g3 k4]) (use ne l3 bs_ge in auto)
            have c4: "cp_ok bs V4" using c3 has_keep [OF _ k4] ne l3 bs_ge by (simp add: cp_ok_def)
            have u4: "su_ok bs di V4" using s3 has_keep [OF _ k4] ne l3 bs_ge by (simp add: su_ok_def)
            have kk: "keep (log_area bs) V V4"
              by (rule keep_chain [OF keep_trans [OF k1 keep_trans [OF k13 k4]] keep_refl [of "{}"]])
                (use file_bytes_area area_block in auto)
            have "Q () M4 V4 (?G\<lparr>mk_segref := log_ref bs di\<rparr>)"
              by (rule Q [OF _ kk]) (use m1 m3 m4 p4 f4 g4 c4 u4 s4 in \<open>auto simp: committed_def\<close>)
            then show "wpv ?last M4 V4 ?G Q"
            proof (rule wpv_update [rotated])
              fix s assume s: "ghost s = ?G"
              have "ucast (mk_seq s) = (0 :: u64)" "mk_cno s = 1" "mk_di s = di_raw bs di raw3"
                using ghost_fields [OF s] gg by (simp_all add: gok_def)
              moreover have "mi_start_blocknr (cur_seg s) = ?f"
                using ghost_fields(15) [OF s] gok_cur [OF gg] by (simp add: seg_raw_def planned_segment_def)
              moreover have "count_free_blocks (di_raw bs di raw3) = count_free_blocks (planned bs di)"
                by (simp add: count_free_blocks_def di_raw_def)
              ultimately have "?last s = (Inr (), s\<lparr>mk_segref := log_ref bs di\<rparr>)" by (simp add: log_ref_def)
              moreover have "ghost (s\<lparr>mk_segref := log_ref bs di\<rparr>) = (ghost s)\<lparr>mk_segref := log_ref bs di\<rparr>" by (simp add: ghost_def)
              ultimately show "\<exists>s'. ?last s = (Inr (), s') \<and> mk_buffer s' = mk_buffer s \<and> mk_w s' = mk_w s
                \<and> ghost s' = ?G\<lparr>mk_segref := log_ref bs di\<rparr>"
                unfolding s by (intro exI [of _ "s\<lparr>mk_segref := log_ref bs di\<rparr>"]) simp
            qed
          qed (use M m1 m3 in auto)
          show "wpv (bindE ?fill (\<lambda>_. ?last)) M3 V3 ?G Q"
          proof (rule wpv_bind, rule wpv_cong [OF _ fill])
            fix s assume s: "ghost s = ?G"
            have "di_crc_seed (mk_di s) = ?seed" using ghost_fields(3) [OF s] gg by (simp add: gok_def di_raw_def planned_def)
            then show "fill_in_checksums k bs (di_crc_seed (mk_di s)) s = fill_in_checksums k bs ?seed s" by simp
          qed
        qed
      qed (use M m1 in auto)
    qed
  qed
qed

end

context formatter
begin

lemma inode_bytes_blocks: "\<forall>ino \<in> inos. ino < 11 \<Longrightarrow> inode_bytes inos \<subseteq> inode_blocks bs \<times> UNIV"
  unfolding inode_bytes_def inode_blocks_def by fastforce

lemma area_bytes:
  "B \<subseteq> set [first_block bs, first_block bs + 1, bI bs, bI bs + 1, bI bs + 2, bC bs, bS bs, bD bs, bD bs + 1, bD bs + 2, last_block bs]
     \<union> inode_blocks bs \<Longrightarrow> B \<times> X \<subseteq> log_area bs"
proof
  fix p assume B: "B \<subseteq> set [first_block bs, first_block bs + 1, bI bs, bI bs + 1, bI bs + 2, bC bs, bS bs, bD bs, bD bs + 1, bD bs + 2, last_block bs]
     \<union> inode_blocks bs" and "p \<in> B \<times> X"
  then obtain b i where p: "p = (b, i)" "b \<in> B" by blast
  then have "first_block bs \<le> b \<and> b \<le> last_block bs"
    using subsetD [OF B p(2)] log_block_area [OF bs, of b] inode_block_area [OF bs, of b] by blast
  then show "p \<in> log_area bs" using p by (simp add: log_area_def)
qed

lemma di_raw_none: "di_raw bs di (\<lambda>_. None) = planned bs di"
  by (simp add: di_raw_def seg_raw_def files_raw_None planned_def planned_segment_def)

text \<open>The preparation of the segment, the root directory and the reserved files.\<close>

lemma wpv_prepare_log:
  assumes g: "gok bs di (\<lambda>_. None) G" and v: "mk_vblocknr G = 1"
    and z: "\<And>b. first_block bs \<le> b \<Longrightarrow> b \<le> last_block bs \<Longrightarrow> V b = replicate (unat bs) 0"
    and Q: "\<And>M' V' G'. M \<subseteq> M' \<Longrightarrow> {first_block bs, bC bs, last_block bs} \<subseteq> M' \<Longrightarrow> \<forall>ino < 11. fst (inode_ptr bs ino) \<in> M'
      \<Longrightarrow> keep (log_area bs) V V' \<Longrightarrow> prepared bs di V' \<Longrightarrow> grp bs V' (bD bs) 1
      \<Longrightarrow> G' = G\<lparr>mk_segsum := Some (first_block bs, 0), mk_super_root := Some (last_block bs, 0),
            mk_checkpoint := Some (bC bs, 192), mk_di := di_raw bs di raw3\<rparr> \<Longrightarrow> Q () M' V' G'"
  shows "wpv (bindE (bindE (init_segsum k bs) (\<lambda>_. bindE (init_super_root k bs) (\<lambda>_. bindE (prepare_dat k bs) (\<lambda>_.
      bindE (prepare_sufile k bs) (\<lambda>_. bindE (prepare_cpfile k bs) (\<lambda>_. prepare_ifile k bs))))))
      (\<lambda>_. bindE (nilfs_mkfs_make_rootdir k bs) (\<lambda>_. nilfs_mkfs_make_reserved_files k bs))) M V G Q"
proof (rule wpv_len)
  assume l: "\<And>c. length (V c) = unat bs"
  let ?f = "first_block bs" and ?C = "bC bs" and ?r = "last_block bs" and ?D = "bD bs" and ?S = "bS bs" and ?I = "bI bs"
  note ne = log_neq inode2_neq log_neq2 log_neq [symmetric] inode2_neq(3-) [symmetric] log_neq2 [symmetric]
  have ib: "?f \<notin> inode_blocks bs" "?f + 1 \<notin> inode_blocks bs" "?I \<notin> inode_blocks bs" "?I + 1 \<notin> inode_blocks bs"
    "?C \<notin> inode_blocks bs" "?S \<notin> inode_blocks bs" "?r \<notin> inode_blocks bs" "?D \<notin> inode_blocks bs" "?D + 1 \<notin> inode_blocks bs"
    using inode_blocks_other(1) [OF bs] by auto
  have zb: "V ?S = replicate (unat bs) 0" "V ?C = replicate (unat bs) 0" "V (?D + 1) = replicate (unat bs) 0" "V (?I + 1) = replicate (unat bs) 0"
    using z log_block_area [OF bs] by simp_all
  have r3: "raw2(0 := Some (inode_ptr bs 2)) = raw2(0 := Some (inode_ptr bs 2))" ..
  let ?rest = "\<lambda>_ :: unit. bindE (nilfs_mkfs_make_rootdir k bs) (\<lambda>_. nilfs_mkfs_make_reserved_files k bs)"
  let ?F3 = "{?D, ?D + 1} \<times> UNIV \<union> {?r} \<times> {16..<72}" and ?F4 = "{?S} \<times> UNIV \<union> {?r} \<times> {272..<328}"
  let ?F5 = "{?C} \<times> UNIV \<union> {?r} \<times> {144..<200}" and ?F6 = "{?I, ?I + 1} \<times> UNIV \<union> {?C} \<times> {256..<312}"
  let ?F7 = "{?f + 1} \<times> UNIV \<union> {fst (inode_ptr bs 2)} \<times> {snd (inode_ptr bs 2)..<snd (inode_ptr bs 2) + 56}"
  let ?F8 = "inode_bytes {7, 1, 8, 9, 10}"
  have F8: "?F8 \<subseteq> inode_blocks bs \<times> UNIV" by (rule inode_bytes_blocks) simp
  have F7: "?F7 \<subseteq> {?f + 1} \<times> UNIV \<union> inode_blocks bs \<times> UNIV" using bmap_bytes_inodes(2) inode2_neq(1) by auto
  have fin: "Q () M8 V8 G'"
    if m: "M \<subseteq> M8" "{?f, ?C, ?r} \<subseteq> M8" "\<forall>ino < 11. fst (inode_ptr bs ino) \<in> M8"
      and k1: "keep ({?f} \<times> {8..<64}) V V1" and k2: "keep ({?r} \<times> {4..<16}) V1 V2" and k3: "keep ?F3 V2 V3" and k4: "keep ?F4 V3 V4"
      and k5: "keep ?F5 V4 V5" and k6: "keep ?F6 V5 V6" and k7: "keep ?F7 V6 V7" and k8: "keep ?F8 V7 V8"
      and h1: "segsum_hdr bs di V1" and h2: "has V2 ?r 4 (le16 NILFS_SR_BYTES)" "has V2 ?r 8 (le64 (di_ctime di))"
      and h3: "grp bs V3 ?D 1" and h4: "sufile_hdr bs di V4" and h5: "cpfile_hdr bs di V5" and h6: "grp bs V6 ?I 11" and h7: "rootdir_ok bs V7"
      and G': "G' = G\<lparr>mk_segsum := Some (?f, 0), mk_super_root := Some (?r, 0), mk_checkpoint := Some (?C, 192), mk_di := di_raw bs di raw3\<rparr>"
    for M8 V1 V2 V3 V4 V5 V6 V7 V8 G'
  proof -
    have k8': "keep (inode_blocks bs \<times> UNIV) V7 V8" by (rule keep_mono [OF k8 F8])
    have k7': "keep ({?f + 1} \<times> UNIV \<union> inode_blocks bs \<times> UNIV) V6 V7" by (rule keep_mono [OF k7 F7])
    note a7 = keep_trans [OF k7' k8'] note a6 = keep_trans [OF k6 a7] note a5 = keep_trans [OF k5 a6] note a4 = keep_trans [OF k4 a5]
    note a3 = keep_trans [OF k3 a4] note a2 = keep_trans [OF k2 a3] note a1 = keep_trans [OF k1 a2]
    have ll: "length (V1 c) = unat bs" "length (V2 c) = unat bs" "length (V3 c) = unat bs" "length (V4 c) = unat bs" "length (V5 c) = unat bs"
      "length (V6 c) = unat bs" for c
      using k1 k2 k3 k4 k5 k6 l by (simp_all add: keep_def)
    have "segsum_hdr bs di V8" by (rule segsum_hdr_keep [OF h1 a2]) (use ne ib ll bs_ge in auto)
    moreover have "has V8 ?r 4 (le16 NILFS_SR_BYTES)" by (rule has_keep [OF h2(1) a3]) (use ne ib ll bs_ge in auto)
    moreover have "has V8 ?r 8 (le64 (di_ctime di))" by (rule has_keep [OF h2(2) a3]) (use ne ib ll bs_ge in auto)
    moreover have "grp bs V8 ?D 1" by (rule grp_keep [OF h3 a4]) (use ne ib ll bs_ge in auto)
    moreover have "sufile_hdr bs di V8" by (rule sufile_hdr_keep [OF h4 a5]) (use ne ib ll bs_ge in auto)
    moreover have "cpfile_hdr bs di V8" by (rule cpfile_hdr_keep [OF h5 a6]) (use ne ib ll bs_ge in auto)
    moreover have "grp bs V8 ?I 11" by (rule grp_keep [OF h6 a7]) (use ne ib ll bs_ge in auto)
    moreover have "rootdir_ok bs V8" by (rule rootdir_keep [OF h7 k8']) (use ib in auto)
    ultimately have p: "prepared bs di V8" "grp bs V8 ?D 1" by (simp_all add: prepared_def)
    have "keep (log_area bs) V V8"
      by (rule keep_mono [OF a1], intro Un_least area_bytes) auto
    then show ?thesis by (intro Q m p G')
  qed
  show "wpv (bindE (bindE (init_segsum k bs) (\<lambda>_. bindE (init_super_root k bs) (\<lambda>_. bindE (prepare_dat k bs) (\<lambda>_.
      bindE (prepare_sufile k bs) (\<lambda>_. bindE (prepare_cpfile k bs) (\<lambda>_. prepare_ifile k bs)))))) ?rest) M V G Q"
  proof (rule wpv_bind, rule wpv_bind, rule wpv_init_segsum [OF g])
    fix M1 V1 assume m1: "M \<subseteq> M1" "?f \<in> M1" and k1: "keep ({?f} \<times> {8..<64}) V V1" and h1: "segsum_hdr bs di V1"
    let ?G1 = "G\<lparr>mk_segsum := Some (?f, 0)\<rparr>"
    have g1: "gok bs di (\<lambda>_. None) ?G1" using g by simp
    show "wpv (bindE (init_super_root k bs) (\<lambda>_. bindE (prepare_dat k bs) (\<lambda>_. bindE (prepare_sufile k bs) (\<lambda>_. bindE (prepare_cpfile k bs) (\<lambda>_. prepare_ifile k bs)))))
        M1 V1 ?G1 (\<lambda>x M V G. wpv (?rest x) M V G Q)"
    proof (rule wpv_bind, rule wpv_init_super_root [OF g1])
      fix M2 V2 assume m2: "M1 \<subseteq> M2" "?r \<in> M2" and k2: "keep ({?r} \<times> {4..<16}) V1 V2"
        and h2: "has V2 ?r 4 (le16 NILFS_SR_BYTES)" "has V2 ?r 8 (le64 (di_ctime di))"
      let ?G2 = "?G1\<lparr>mk_super_root := Some (?r, 0), mk_di := di_raw bs di raw1\<rparr>"
      have g2: "gok bs di raw1 ?G2" using g by (simp add: gok_def)
      have z2: "V2 (?D + 1) = replicate (unat bs) 0"
        using keep_block [OF keep_trans [OF k1 k2], of "?D + 1"] zb ne by auto
      show "wpv (bindE (prepare_dat k bs) (\<lambda>_. bindE (prepare_sufile k bs) (\<lambda>_. bindE (prepare_cpfile k bs) (\<lambda>_. prepare_ifile k bs))))
          M2 V2 ?G2 (\<lambda>x M V G. wpv (?rest x) M V G Q)"
      proof (rule wpv_bind, rule wpv_prepare_dat [where rs = raw1 and V = V2, OF g2 _ m2(2) z2])
        fix M3 V3 assume m3: "M2 \<subseteq> M3" and k3: "keep ?F3 V2 V3" and h3: "grp bs V3 ?D 1"
        have z3: "V3 ?S = replicate (unat bs) 0"
          using keep_block [OF keep_trans [OF k1 keep_trans [OF k2 k3]], of ?S] zb ne by auto
        have r3: "?r \<in> M3" using m2 m3 by blast
        show "wpv (bindE (prepare_sufile k bs) (\<lambda>_. bindE (prepare_cpfile k bs) (\<lambda>_. prepare_ifile k bs))) M3 V3 ?G2 (\<lambda>x M V G. wpv (?rest x) M V G Q)"
        proof (rule wpv_bind, rule wpv_prepare_sufile [where rs = raw1 and V = V3, OF g2 _ r3 z3])
          fix M4 V4 assume m4: "M3 \<subseteq> M4" and k4: "keep ?F4 V3 V4" and h4: "sufile_hdr bs di V4"
          have z4: "V4 ?C = replicate (unat bs) 0"
            using keep_block [OF keep_trans [OF k1 keep_trans [OF k2 keep_trans [OF k3 k4]]], of ?C] zb ne by auto
          have r4: "?r \<in> M4" using r3 m4 by blast
          show "wpv (bindE (prepare_cpfile k bs) (\<lambda>_. prepare_ifile k bs)) M4 V4 ?G2 (\<lambda>x M V G. wpv (?rest x) M V G Q)"
          proof (rule wpv_bind, rule wpv_prepare_cpfile [where rs = raw1 and V = V4, OF g2 _ r4 z4])
            fix M5 V5 assume m5: "M4 \<subseteq> M5" "?C \<in> M5" and k5: "keep ?F5 V4 V5" and h5: "cpfile_hdr bs di V5"
            let ?G5 = "?G2\<lparr>mk_checkpoint := Some (?C, 192), mk_di := di_raw bs di (raw1(6 := Some (?C, 256)))\<rparr>"
            have g5: "gok bs di raw2 ?G5" using g by (simp add: gok_def raw2_def)
            have z5: "V5 (?I + 1) = replicate (unat bs) 0"
              using keep_block [OF keep_trans [OF k1 keep_trans [OF k2 keep_trans [OF k3 keep_trans [OF k4 k5]]]], of "?I + 1"] zb ne by auto
            show "wpv (prepare_ifile k bs) M5 V5 ?G5 (\<lambda>x M V G. wpv (?rest x) M V G Q)"
            proof (rule wpv_prepare_ifile [where V = V5, OF g5 m5(2) z5])
              fix M6 V6 assume m6: "M5 \<subseteq> M6" "\<forall>ino < 11. fst (inode_ptr bs ino) \<in> M6" and k6: "keep ?F6 V5 V6" and h6: "grp bs V6 ?I 11"
              let ?G6 = "?G5\<lparr>mk_di := di_raw bs di raw3\<rparr>"
              have g6: "gok bs di raw3 ?G6" using g by (simp add: gok_def)
              have p2: "fst (inode_ptr bs 2) \<in> M6" using m6(2) by simp
              show "wpv (?rest ()) M6 V6 ?G6 Q"
              proof (rule wpv_bind, rule wpv_make_rootdir [OF g6 p2])
                fix M7 V7 assume m7: "M6 \<subseteq> M7" and k7: "keep ?F7 V6 V7" and h7: "rootdir_ok bs V7"
                have i7: "\<forall>ino < 11. fst (inode_ptr bs ino) \<in> M7" using m6(2) m7 by blast
                show "wpv (nilfs_mkfs_make_reserved_files k bs) M7 V7 ?G6 Q"
                proof (rule wpv_make_reserved [OF g6 i7])
                  fix V8 assume k8: "keep ?F8 V7 V8"
                  have mm: "M \<subseteq> M7" "{?f, ?C, ?r} \<subseteq> M7" using m1 m2 m3 m4 m5 m6(1) m7 r4 by blast+
                  show "Q () M7 V8 ?G6"
                    by (rule fin [OF mm i7 k1 k2 k3 k4 k5 k6 k7 k8 h1 h2 h3 h4 h5 h6 h7]) simp
                qed
              qed
            qed
          qed (simp add: raw1_def)
        qed (simp add: raw1_def)
      qed (simp add: raw1_def)
    qed
  qed
qed

end

end
