(* ===== verification/Mkfs_Device.thy ===== *)
theory Mkfs_Device
  imports Mkfs_Commit
begin

text \<open>
  The formatting on a device (\<open>src/sbin/mkfs.c\<close>): reading the header, erasing, the superblock
  and \<open>write_disk\<close>. The locale \<open>writer\<close> states what the program relies on of the device; in it
  the precondition \<open>wpd\<close> adds the bytes of the device to that of \<open>formatter\<close>, of which it is a
  sublocale. \<open>format_device\<close> is the result for a real run, \<open>format_dry\<close> for a dry run.
\<close>

section \<open>Reading and writing the device\<close>

text \<open>What the program relies on of the calls beside the device's own: they succeed and leave its
  bytes alone, and a UUID has 16 bytes. Nothing is said of a discard request.\<close>

definition mkfs_laws :: "'w mkfs_env \<Rightarrow> int \<Rightarrow> ('w \<Rightarrow> bytes) \<Rightarrow> bool" where
  "mkfs_laws e fd dev \<longleftrightarrow>
     (\<forall>w off. fst (me_lseek e fd off w) = Inr () \<and> dev (snd (me_lseek e fd off w)) = dev w)
     \<and> (\<forall>w. fst (me_fsync e fd w) = Inr () \<and> dev (snd (me_fsync e fd w)) = dev w)
     \<and> (\<forall>w. length (fst (me_uuid e w)) = 16 \<and> dev (snd (me_uuid e w)) = dev w)"

locale writer =
  fixes k :: "'w kernel" and bs :: u64 and dev :: "'w \<Rightarrow> bytes" and e :: "'w mkfs_env" and fd :: int and dsz :: u64
  assumes bsok: "mkfs_bs bs" and laws: "device_laws k fd dev dsz" and elaws: "mkfs_laws e fd dev"

sublocale writer \<subseteq> fm: formatter k bs dev D for D
  by unfold_locales (use device_malloc [OF laws] bsok in auto)

context writer
begin

text \<open>The precondition with the bytes of the device as a further component.\<close>

definition wpd :: "('w mkfs, 'a) act \<Rightarrow> u64 set \<Rightarrow> blocks \<Rightarrow> 'w mkfs \<Rightarrow> bytes
    \<Rightarrow> ('a \<Rightarrow> u64 set \<Rightarrow> blocks \<Rightarrow> 'w mkfs \<Rightarrow> bytes \<Rightarrow> bool) \<Rightarrow> bool" where
  "wpd m M V G D Q \<longleftrightarrow> (\<forall>s. fm.rep D M V G s \<longrightarrow>
     (\<exists>x s' M' V' G' D'. m s = (Inr x, s') \<and> M \<subseteq> M' \<and> fm.rep D' M' V' G' s' \<and> Q x M' V' G' D'))"

lemma wpdI:
  "(\<And>s. fm.rep D M V G s \<Longrightarrow> \<exists>x s' M' V' G' D'. m s = (Inr x, s') \<and> M \<subseteq> M' \<and> fm.rep D' M' V' G' s' \<and> Q x M' V' G' D') \<Longrightarrow> wpd m M V G D Q"
  by (simp add: wpd_def)

lemma wpdE:
  assumes "wpd m M V G D Q" "fm.rep D M V G s"
  obtains x s' M' V' G' D' where "m s = (Inr x, s')" "M \<subseteq> M'" "fm.rep D' M' V' G' s'" "Q x M' V' G' D'"
  using assms unfolding wpd_def by meson

lemma wpd_lift: "fm.wpv D m M V G (\<lambda>x M V G. Q x M V G D) \<Longrightarrow> wpd m M V G D Q"
  unfolding wpd_def fm.wpv_def by blast

lemma wpd_ret: "Q x M V G D \<Longrightarrow> wpd (retE x) M V G D Q"
  unfolding wpd_def by auto

lemma wpd_bind:
  assumes "wpd m M V G D (\<lambda>x M V G D. wpd (f x) M V G D Q)"
  shows "wpd (bindE m f) M V G D Q"
proof (rule wpdI)
  fix s assume r: "fm.rep D M V G s"
  obtain x s1 M1 V1 G1 D1 where 1: "m s = (Inr x, s1)" "M \<subseteq> M1" "fm.rep D1 M1 V1 G1 s1" "wpd (f x) M1 V1 G1 D1 Q"
    by (rule wpdE [OF assms r])
  obtain y s2 M2 V2 G2 D2 where 2: "f x s1 = (Inr y, s2)" "M1 \<subseteq> M2" "fm.rep D2 M2 V2 G2 s2" "Q y M2 V2 G2 D2"
    by (rule wpdE [OF 1(4,3)])
  have "bindE m f s = (Inr y, s2)" using 1(1) 2(1) by simp
  moreover have "M \<subseteq> M2" using 1(2) 2(2) by (rule order_trans)
  ultimately show "\<exists>x s' M' V' G' D'. bindE m f s = (Inr x, s') \<and> M \<subseteq> M' \<and> fm.rep D' M' V' G' s' \<and> Q x M' V' G' D'"
    using 2(3,4) by blast
qed

lemma wpd_conseq:
  "wpd m M V G D Q \<Longrightarrow> (\<And>x M' V' G' D'. M \<subseteq> M' \<Longrightarrow> Q x M' V' G' D' \<Longrightarrow> Q' x M' V' G' D') \<Longrightarrow> wpd m M V G D Q'"
  unfolding wpd_def by meson

lemma wpd_cong: "(\<And>s. ghost s = G \<Longrightarrow> m s = m' s) \<Longrightarrow> wpd m' M V G D Q \<Longrightarrow> wpd m M V G D Q"
  unfolding wpd_def fm.rep_def by metis

lemma wpd_orExit:
  assumes "wpd m M V G D Q"
  shows "wpd (orExit m) M V G D Q"
proof (rule wpdI)
  fix s assume r: "fm.rep D M V G s"
  obtain x s' M' V' G' D' where 1: "m s = (Inr x, s')" "M \<subseteq> M'" "fm.rep D' M' V' G' s'" "Q x M' V' G' D'"
    by (rule wpdE [OF assms r])
  have "orExit m s = (Inr x, s')" using 1(1) by (simp add: orExit_def)
  with 1 show "\<exists>x s' M' V' G' D'. orExit m s = (Inr x, s') \<and> M \<subseteq> M' \<and> fm.rep D' M' V' G' s' \<and> Q x M' V' G' D'" by blast
qed

lemma wpd_tryE:
  assumes "wpd m M V G D (\<lambda>x. Q (Inr x))"
  shows "wpd (tryE m) M V G D Q"
proof (rule wpdI)
  fix s assume r: "fm.rep D M V G s"
  obtain x s' M' V' G' D' where 1: "m s = (Inr x, s')" "M \<subseteq> M'" "fm.rep D' M' V' G' s'" "Q (Inr x) M' V' G' D'"
    by (rule wpdE [OF assms r])
  have "tryE m s = (Inr (Inr x), s')" using 1(1) by (simp add: tryE_def)
  with 1 show "\<exists>x s' M' V' G' D'. tryE m s = (Inr x, s') \<and> M \<subseteq> M' \<and> fm.rep D' M' V' G' s' \<and> Q x M' V' G' D'" by blast
qed

text \<open>A call that steps the world and sets the position.\<close>

lemma rep_world:
  assumes "fm.rep D M V G s" "dev w = D'"
  shows "fm.rep D' M V (G\<lparr>mk_pos := p\<rparr>) (s\<lparr>mk_w := w, mk_pos := p\<rparr>)" "mk_pos s = mk_pos G \<Longrightarrow> fm.rep D' M V G (s\<lparr>mk_w := w\<rparr>)"
proof -
  have "content bs (s\<lparr>mk_w := w, mk_pos := p\<rparr>) = content bs s" "content bs (s\<lparr>mk_w := w\<rparr>) = content bs s"
    by (simp_all add: content_def fun_eq_iff)
  moreover have "ghost (s\<lparr>mk_w := w, mk_pos := p\<rparr>) = (ghost s)\<lparr>mk_pos := p\<rparr>" "ghost (s\<lparr>mk_w := w\<rparr>) = ghost s"
    by (simp_all add: ghost_def)
  ultimately show "fm.rep D' M V (G\<lparr>mk_pos := p\<rparr>) (s\<lparr>mk_w := w, mk_pos := p\<rparr>)" "mk_pos s = mk_pos G \<Longrightarrow> fm.rep D' M V G (s\<lparr>mk_w := w\<rparr>)"
    using assms by (simp_all add: fm.rep_def)
qed

lemma rep_ghost: "fm.rep D M V G s \<Longrightarrow> ghost s = G" "fm.rep D M V G s \<Longrightarrow> dev (mk_w s) = D"
  by (simp_all add: fm.rep_def)

lemma wpd_seek: "Q () M V (G\<lparr>mk_pos := off\<rparr>) D \<Longrightarrow> wpd (m_lseek e fd off) M V G D Q"
proof (rule wpdI)
  fix s assume q: "Q () M V (G\<lparr>mk_pos := off\<rparr>) D" and r: "fm.rep D M V G s"
  obtain w where w: "me_lseek e fd off (mk_w s) = (Inr (), w)" "dev w = D"
    using elaws rep_ghost(2) [OF r] unfolding mkfs_laws_def by (metis prod.collapse)
  have "m_lseek e fd off s = (Inr (), s\<lparr>mk_w := w, mk_pos := off\<rparr>)" using w(1) by (simp add: m_lseek_def)
  with q rep_world(1) [OF r w(2)]
  show "\<exists>x s' M' V' G' D'. m_lseek e fd off s = (Inr x, s') \<and> M \<subseteq> M' \<and> fm.rep D' M' V' G' s' \<and> Q x M' V' G' D'" by blast
qed

lemma wpd_write:
  assumes "unat (mk_pos G) + length v \<le> unat dsz"
    "Q (of_nat (length v)) M V (G\<lparr>mk_pos := mk_pos G + of_nat (length v)\<rparr>) (put_at (unat (mk_pos G)) v D)"
  shows "wpd (m_write k fd v) M V G D Q"
proof (rule wpdI)
  fix s assume r: "fm.rep D M V G s"
  have p: "mk_pos s = mk_pos G" using fm.ghost_fields(1) [OF rep_ghost(1) [OF r]] .
  obtain w where w: "k_pwrite k fd v (mk_pos s) (mk_w s) = (Inr (of_nat (length v)), w)" "dev w = put_at (unat (mk_pos s)) v (dev (mk_w s))"
    using device_pwrite [OF laws] assms(1) p by metis
  have dw: "dev w = put_at (unat (mk_pos G)) v D" using w(2) p rep_ghost(2) [OF r] by simp
  have "m_write k fd v s = (Inr (of_nat (length v)), s\<lparr>mk_w := w, mk_pos := mk_pos G + of_nat (length v)\<rparr>)"
    using w(1) p by (simp add: m_write_def)
  with assms(2) rep_world(1) [OF r dw]
  show "\<exists>x s' M' V' G' D'. m_write k fd v s = (Inr x, s') \<and> M \<subseteq> M' \<and> fm.rep D' M' V' G' s' \<and> Q x M' V' G' D'" by blast
qed

lemma wpd_read:
  assumes "unat (mk_pos G) + unat n \<le> unat dsz"
    "\<And>v. length v = unat n \<Longrightarrow> Q v M V (G\<lparr>mk_pos := mk_pos G + n\<rparr>) D"
  shows "wpd (m_read k fd n) M V G D Q"
proof (rule wpdI)
  fix s assume r: "fm.rep D M V G s"
  have p: "mk_pos s = mk_pos G" using fm.ghost_fields(1) [OF rep_ghost(1) [OF r]] .
  let ?v = "take (unat n) (drop (unat (mk_pos s)) (dev (mk_w s)))"
  obtain w where w: "k_pread k fd n (mk_pos s) (mk_w s) = (Inr ?v, w)" "dev w = dev (mk_w s)"
    using device_pread [OF laws] assms(1) p by metis
  have lv: "length ?v = unat n" using assms(1) p device_length [OF laws] by simp
  have dw: "dev w = D" using w(2) rep_ghost(2) [OF r] by simp
  have "m_read k fd n s = (Inr ?v, s\<lparr>mk_w := w, mk_pos := mk_pos G + n\<rparr>)"
    using w(1) p lv by (simp add: m_read_def)
  with assms(2) [OF lv] rep_world(1) [OF r dw]
  show "\<exists>x s' M' V' G' D'. m_read k fd n s = (Inr x, s') \<and> M \<subseteq> M' \<and> fm.rep D' M' V' G' s' \<and> Q x M' V' G' D'" by blast
qed

lemma wpd_fsync: "Q () M V G D \<Longrightarrow> wpd (liftW (me_fsync e fd)) M V G D Q"
proof (rule wpdI)
  fix s assume q: "Q () M V G D" and r: "fm.rep D M V G s"
  have p: "mk_pos s = mk_pos G" using fm.ghost_fields(1) [OF rep_ghost(1) [OF r]] .
  obtain w where w: "me_fsync e fd (mk_w s) = (Inr (), w)" "dev w = D"
    using elaws rep_ghost(2) [OF r] unfolding mkfs_laws_def by (metis prod.collapse)
  have "liftW (me_fsync e fd) s = (Inr (), s\<lparr>mk_w := w\<rparr>)" using w(1) by (simp add: liftW_def)
  with q rep_world(2) [OF r w(2) p]
  show "\<exists>x s' M' V' G' D'. liftW (me_fsync e fd) s = (Inr x, s') \<and> M \<subseteq> M' \<and> fm.rep D' M' V' G' s' \<and> Q x M' V' G' D'" by blast
qed

text \<open>A discard request may change the device.\<close>

lemma wpd_discard: "(\<And>b D'. length D' = unat dsz \<Longrightarrow> Q b M V G D') \<Longrightarrow> wpd (nilfs_mkfs_discard_range e fd start len) M V G D Q"
proof (rule wpdI)
  fix s assume q: "\<And>b D'. length D' = unat dsz \<Longrightarrow> Q b M V G D'" and r: "fm.rep D M V G s"
  have p: "mk_pos s = mk_pos G" using fm.ghost_fields(1) [OF rep_ghost(1) [OF r]] .
  obtain b w where w: "me_discard e fd start len (mk_w s) = (b, w)" by (metis prod.exhaust)
  have "nilfs_mkfs_discard_range e fd start len s = (Inr b, s\<lparr>mk_w := w\<rparr>)" using w by (simp add: nilfs_mkfs_discard_range_def)
  with q [of "dev w" b] device_length [OF laws, of w] rep_world(2) [OF r refl p, of w]
  show "\<exists>x s' M' V' G' D'. nilfs_mkfs_discard_range e fd start len s = (Inr x, s') \<and> M \<subseteq> M' \<and> fm.rep D' M' V' G' s' \<and> Q x M' V' G' D'" by blast
qed

lemma wpd_discard_zeroes: "(\<And>b D'. length D' = unat dsz \<Longrightarrow> Q b M V G D') \<Longrightarrow> wpd (nilfs_mkfs_discard_zeroes_data e fd) M V G D Q"
proof (rule wpdI)
  fix s assume q: "\<And>b D'. length D' = unat dsz \<Longrightarrow> Q b M V G D'" and r: "fm.rep D M V G s"
  have p: "mk_pos s = mk_pos G" using fm.ghost_fields(1) [OF rep_ghost(1) [OF r]] .
  obtain b w where w: "me_discard_zeroes e fd (mk_w s) = (b, w)" by (metis prod.exhaust)
  have "nilfs_mkfs_discard_zeroes_data e fd s = (Inr b, s\<lparr>mk_w := w\<rparr>)" using w by (simp add: nilfs_mkfs_discard_zeroes_data_def)
  with q [of "dev w" b] device_length [OF laws, of w] rep_world(2) [OF r refl p, of w]
  show "\<exists>x s' M' V' G' D'. nilfs_mkfs_discard_zeroes_data e fd s = (Inr x, s') \<and> M \<subseteq> M' \<and> fm.rep D' M' V' G' s' \<and> Q x M' V' G' D'" by blast
qed

end

lemma put_at_append:
  "off + length xs + length ys \<le> length D \<Longrightarrow> put_at (off + length xs) ys (put_at off xs D) = put_at off (xs @ ys) D"
  by (simp add: put_at_def add_ac)

lemma erase_loop_eq:
  "erase_loop k fd bufsz n =
     (if n = 0 then retE () else if bufsz = 0 then failE EHang
      else let sz = (if n > bufsz then bufsz else n) in
           bindE (tryE (m_write k fd (replicate (unat sz) 0))) (\<lambda>r. case r of
             Inr written \<Rightarrow> if written < sz then failE (EOther 0) else erase_loop k fd bufsz (n - sz)
           | Inl _ \<Rightarrow> if (- 1 :: u64) < sz then failE (EOther 0) else erase_loop k fd bufsz (n - sz)))"
  by (rule ext, subst erase_loop.simps)
    (simp add: Let_def bindE_def split: sum.splits prod.splits)

context writer
begin

lemma wpd_map: "b < mk_buffer_size G \<Longrightarrow> Q (b, 0) (insert b M) V G D \<Longrightarrow> wpd (map_disk_buffer k bs b True) M V G D Q"
  by (rule wpd_lift, rule fm.wpv_map)

lemma wpd_mapped:
  assumes "b \<in> M" "b < mk_buffer_size G" "Q (b, 0) M V G D"
  shows "wpd (map_disk_buffer k bs b c) M V G D Q"
proof (rule wpdI)
  fix s assume r: "fm.rep D M V G s"
  then have "mk_buffer_size s = mk_buffer_size G" using fm.ghost_fields(2) [OF rep_ghost(1) [OF r]] by simp
  moreover have "b \<in> dom (mk_buffer s)" using r assms(1) by (auto simp: fm.rep_def)
  ultimately have "map_disk_buffer k bs b c s = (Inr (b, 0), s)" using assms(2) by (auto simp: map_disk_buffer_def)
  with r assms(3) show "\<exists>x s' M' V' G' D'. map_disk_buffer k bs b c s = (Inr x, s') \<and> M \<subseteq> M' \<and> fm.rep D' M' V' G' s' \<and> Q x M' V' G' D'"
    by blast
qed

lemma wpd_peek: "fst p \<in> M \<Longrightarrow> snd p + n \<le> unat bs \<Longrightarrow> Q (take n (drop (snd p) (V (fst p)))) M V G D \<Longrightarrow> wpd (peek p n) M V G D Q"
  by (rule wpd_lift, rule fm.wpv_peek)

lemma wpd_poke: "fst p \<in> M \<Longrightarrow> snd p + length v \<le> unat bs \<Longrightarrow> Q () M (store p v V) G D \<Longrightarrow> wpd (poke p v) M V G D Q"
  by (rule wpd_lift, rule fm.wpv_poke)

text \<open>Erasing succeeds inside the device; what it writes does not matter.\<close>

definition moved :: "(u64 set \<Rightarrow> blocks \<Rightarrow> 'w mkfs \<Rightarrow> bytes \<Rightarrow> bool) \<Rightarrow> u64 set \<Rightarrow> blocks \<Rightarrow> 'w mkfs \<Rightarrow> bool" where
  "moved Q M V G \<longleftrightarrow> (\<forall>p D. length D = unat dsz \<longrightarrow> Q M V (G\<lparr>mk_pos := p\<rparr>) D)"

lemma wpd_erase_loop:
  assumes "bufsz \<noteq> 0" "unat (mk_pos G) + unat n \<le> unat dsz" "moved (Q ()) M V G" "length D = unat dsz"
  shows "wpd (erase_loop k fd bufsz n) M V G D Q"
  using assms(2-4)
proof (induction "unat n" arbitrary: n G D rule: less_induct)
  case less
  show ?case
  proof (cases "n = 0")
    case True
    have "G\<lparr>mk_pos := mk_pos G\<rparr> = G" by simp
    then have "Q () M V G D" using less.prems(2,3) unfolding moved_def by metis
    then show ?thesis unfolding erase_loop_eq [of k fd bufsz n] using True by (simp add: wpd_ret)
  next
    case False
    let ?sz = "if n > bufsz then bufsz else n"
    let ?G = "G\<lparr>mk_pos := mk_pos G + ?sz\<rparr>"
    have sz: "unat ?sz \<le> unat n" by (auto simp: word_less_nat_alt)
    have dec: "unat (n - ?sz) < unat n" using erase_loop_decreases [OF False assms(1)] .
    have n': "unat (n - ?sz) = unat n - unat ?sz" using sz by (simp add: unat_sub_u64 split: if_splits)
    have p: "unat (mk_pos G + ?sz) = unat (mk_pos G) + unat ?sz"
      using less.prems(1) sz unat_lt_u64 [of dsz] by (intro unat_add_u64) linarith
    have of: "of_nat (length (replicate (unat ?sz) (0 :: u8))) = ?sz" by simp
    have mv: "moved (Q ()) M V ?G" using less.prems(2) by (simp add: moved_def)
    have rest: "wpd (erase_loop k fd bufsz (n - ?sz)) M V ?G (put_at (unat (mk_pos G)) (replicate (unat ?sz) 0) D) Q"
      by (rule less.hyps [OF dec]) (use less.prems p n' sz mv in \<open>simp_all\<close>)
    have "wpd (bindE (tryE (m_write k fd (replicate (unat ?sz) 0))) (\<lambda>r. case r of
             Inr written \<Rightarrow> if written < ?sz then failE (EOther 0) else erase_loop k fd bufsz (n - ?sz)
           | Inl _ \<Rightarrow> if (- 1 :: u64) < ?sz then failE (EOther 0) else erase_loop k fd bufsz (n - ?sz))) M V G D Q"
      by (rule wpd_bind, rule wpd_tryE, rule wpd_write) (use less.prems sz rest of in \<open>simp_all\<close>)
    then show ?thesis unfolding erase_loop_eq [of k fd bufsz n] if_not_P [OF False] if_not_P [OF assms(1)] Let_def .
  qed
qed

lemma wpd_erase_range:
  assumes "unat off + unat n \<le> unat dsz" "moved (Q ()) M V G" "length D = unat dsz"
  shows "wpd (erase_disk_range k e bs fd off n) M V G D Q"
proof -
  have u: "[0..<4] = [0, 1, 2, 3 :: nat]" by (simp add: upt_rec)
  let ?b = "bs * MAX_NBLOCKS_CLEAR_BUFFER"
  have b: "?b \<noteq> 0" using bsok unfolding mkfs_bs_def MAX_NBLOCKS_CLEAR_BUFFER_def by (elim disjE; simp)
  have buf: "wpd (erase_buffer k (?b # sizes)) M V G D (\<lambda>x M V G D. wpd (bindE (m_lseek e fd off) (\<lambda>_. erase_loop k fd x n)) M V G D Q)" for sizes
  proof (rule wpdI)
    fix s assume r: "fm.rep D M V G s"
    obtain a w where w: "k_malloc k ?b (mk_w s) = (Some a, w)" "dev w = dev (mk_w s)" using device_malloc [OF laws] by blast
    have dw: "dev w = D" using w(2) rep_ghost(2) [OF r] by simp
    have p: "mk_pos s = mk_pos G" using fm.ghost_fields(1) [OF rep_ghost(1) [OF r]] .
    have "wpd (bindE (m_lseek e fd off) (\<lambda>_. erase_loop k fd ?b n)) M V G D Q"
      by (rule wpd_bind, rule wpd_seek, rule wpd_erase_loop [OF b]) (use assms in \<open>simp_all add: moved_def\<close>)
    moreover have "erase_buffer k (?b # sizes) s = (Inr ?b, s\<lparr>mk_w := w\<rparr>)" using w(1) by simp
    ultimately show "\<exists>x s' M' V' G' D'. erase_buffer k (?b # sizes) s = (Inr x, s') \<and> M \<subseteq> M' \<and> fm.rep D' M' V' G' s'
        \<and> wpd (bindE (m_lseek e fd off) (\<lambda>_. erase_loop k fd x n)) M' V' G' D' Q"
      using rep_world(2) [OF r dw p] by blast
  qed
  show ?thesis
    unfolding erase_disk_range_def u list.map drop_bit_0 id_apply by (rule wpd_bind, rule buf)
qed

end

lemma and_not_mask: "(x :: u64) AND NOT (mask n) = push_bit n (drop_bit n x)"
  by (rule bit_word_eqI) (auto simp: bit_simps)

lemma and_not_511: "(x :: u64) AND NOT (512 - 1) = push_bit 9 (drop_bit 9 x)"
proof -
  have "(512 :: u64) - 1 = mask 9" by (simp add: mask_eq_exp_minus_1)
  then show ?thesis by (simp only: and_not_mask)
qed

lemma sint_eq_unat: "unat (L :: u64) < 2 ^ 63 \<Longrightarrow> sint L = int (unat L)"
proof -
  assume a: "unat L < 2 ^ 63"
  have u: "uint L = int (unat L)" by (rule uint_nat)
  have "int (unat L) < int (2 ^ 63)" using a by (simp only: of_nat_less_iff)
  then have l: "int (unat L) < 2 ^ 63" by (simp only: of_nat_power of_nat_numeral)
  have "LENGTH(64) - Suc 0 = 63" by simp
  moreover have "signed_take_bit 63 (int (unat L)) = int (unat L)"
    using l by (intro signed_take_bit_int_eq_self) linarith+
  ultimately show "sint L = int (unat L)" unfolding sint_uint u by (simp only:)
qed

lemma sector_end:
  assumes "2 ^ 20 + 1024 \<le> unat (dsz :: u64)"
  shows "unat (dsz AND NOT (512 - 1)) \<le> unat dsz" "2 ^ 20 + 1024 \<le> unat (dsz AND NOT (512 - 1))"
proof -
  let ?q = "unat dsz div 512"
  have d: "unat (drop_bit 9 dsz) = ?q" using unat_drop_bit_div [of 9 dsz] by simp
  have "unat (push_bit 9 (drop_bit 9 dsz)) = unat (drop_bit 9 dsz * 512)" by (simp add: push_bit_eq_mult)
  also have "\<dots> = ?q * 512 mod 2 ^ 64" by (simp only: unat_word_ariths d) simp
  also have "\<dots> = ?q * 512" using unat_lt_u64 [of dsz] by simp
  finally have u: "unat (dsz AND NOT (512 - 1)) = ?q * 512" by (simp only: and_not_511)
  then show "unat (dsz AND NOT (512 - 1)) \<le> unat dsz" by simp
  have "(2 ^ 20 + 1024) div 512 * 512 \<le> ?q * 512" using assms by (intro mult_right_mono div_le_mono) auto
  then show "2 ^ 20 + 1024 \<le> unat (dsz AND NOT (512 - 1))" unfolding u by simp
qed

lemma erase_signed:
  assumes "x = int a" "y = int (a - 2 ^ 20)" "z = (2 ^ 20 :: int)" "w = int b" "b \<le> 1024" "2 ^ 20 + 1024 \<le> a"
  shows "\<not> (x < z \<or> y < w)"
  using assms by auto

context writer
begin

lemma wpd_fold:
  assumes "\<And>i x M' V' G' D'. m \<le> i \<Longrightarrow> i < n \<Longrightarrow> M \<subseteq> M' \<Longrightarrow> I i x M' V' G' D' \<Longrightarrow> wpd (f i x) M' V' G' D' (I (Suc i))"
    and "m \<le> n" "I m x M V G D" "\<And>x M' V' G' D'. M \<subseteq> M' \<Longrightarrow> I n x M' V' G' D' \<Longrightarrow> Q x M' V' G' D'"
  shows "wpd (foldE f [m..<n] x) M V G D Q"
proof -
  have "wpd (foldE f [n - j..<n] x) M' V' G' D' Q" if "j \<le> n - m" "I (n - j) x M' V' G' D'" "M \<subseteq> M'" for j x M' V' G' D'
    using that
  proof (induction j arbitrary: x M' V' G' D')
    case 0
    then have "wpd (retE x) M' V' G' D' Q" using assms(4) by (intro wpd_ret) simp
    moreover have "foldE f [n - 0..<n] x = retE x" by simp
    ultimately show ?case by (simp only:)
  next
    case (Suc j)
    have u: "[n - Suc j..<n] = (n - Suc j) # [n - j..<n]"
      using Suc.prems(1) by (subst upt_conv_Cons) (auto simp: Suc_diff_Suc)
    show ?case unfolding u foldE.simps
    proof (rule wpd_bind, rule wpd_conseq [OF assms(1)])
      show "m \<le> n - Suc j" "n - Suc j < n" using Suc.prems(1) by auto
      show "I (n - Suc j) x M' V' G' D'" "M \<subseteq> M'" using Suc.prems by auto
      fix x1 M1 V1 G1 D1 assume "M' \<subseteq> M1" and "I (Suc (n - Suc j)) x1 M1 V1 G1 D1"
      then show "wpd (foldE f [n - j..<n] x1) M1 V1 G1 D1 Q"
        using Suc by (auto simp: Suc_diff_Suc)
    qed
  qed
  from this [of "n - m" x M V G D] assms(2,3) show ?thesis by simp
qed

lemma wpd_erase_disk:
  assumes o: "o_blocksize opts = bs" and big: "2 ^ 20 + 1024 \<le> unat dsz" "unat dsz < 2 ^ 63"
    and G: "0 \<in> M" "0 < mk_buffer_size G" "di_dev_size (mk_di G) = dsz" and D: "length D = unat dsz"
    and Q: "moved (Q ()) M V G"
  shows "wpd (erase_disk k e opts fd) M V G D Q"
proof -
  define L where "L = dsz AND NOT (512 - 1)"
  let ?last = L and ?E = NILFS_DISK_ERASE_SIZE
  have last: "unat ?last \<le> unat dsz" "2 ^ 20 + 1024 \<le> unat ?last" "unat ?last < 2 ^ 63"
    using sector_end [OF big(1), folded L_def] big(2) by simp_all
  have uE: "unat ?E = 2 ^ 20" by (simp add: NILFS_DISK_ERASE_SIZE_def)
  have "?E \<le> ?last" unfolding word_le_nat_alt uE using last(2) by simp
  then have lE: "unat (?last - ?E) = unat ?last - 2 ^ 20" by (simp only: unat_sub_u64 uE)
  let ?wipe = "\<lambda>start. bindE (erase_disk_range k e bs fd (?last - ?E) ?E) (\<lambda>_. erase_disk_range k e bs fd start (?E - start))"
  have wipe: "wpd (?wipe start) M V G D' Q" if "start = 0 \<or> start = NILFS_SB_OFFSET_BYTES" "length D' = unat dsz" for start D'
  proof (rule wpd_bind, rule wpd_erase_range)
    have "unat (?E - start) = 2 ^ 20 - unat start" using that(1) by (auto simp: NILFS_DISK_ERASE_SIZE_def NILFS_SB_OFFSET_BYTES_def)
    then have sm: "unat start + unat (?E - start) \<le> unat dsz" using that(1) big(1) by (auto simp: NILFS_SB_OFFSET_BYTES_def)
    show "moved (\<lambda>M V G D. wpd (erase_disk_range k e bs fd start (?E - start)) M V G D Q) M V G"
      unfolding moved_def by (intro allI impI wpd_erase_range [OF sm]) (use Q in \<open>simp_all add: moved_def\<close>)
  qed (use lE last that in \<open>auto simp: NILFS_DISK_ERASE_SIZE_def\<close>)
  have noabort: "\<not> (sint ?last < sint ?E \<or> sint (?last - ?E) < sint start)" if "start = 0 \<or> start = NILFS_SB_OFFSET_BYTES" for start
  proof -
    have "sint ?last = int (unat ?last)" using last by (intro sint_eq_unat)
    moreover have "sint (?last - ?E) = int (unat (?last - ?E))" by (rule sint_eq_unat) (use last lE in linarith)
    moreover have "sint ?E = 2 ^ 20" "sint start = int (unat start)" using that
      by (auto simp: NILFS_DISK_ERASE_SIZE_def NILFS_SB_OFFSET_BYTES_def)
    moreover have "unat start \<le> 1024" using that by (auto simp: NILFS_SB_OFFSET_BYTES_def)
    ultimately show ?thesis using last(2) unfolding lE by (rule erase_signed)
  qed
  let ?m = "\<lambda>start. if o_discard opts
          then bindE (nilfs_mkfs_discard_range e fd start (?last - start)) (\<lambda>done.
                 if done then bindE (nilfs_mkfs_discard_zeroes_data e fd) (\<lambda>z. if z then retE () else ?wipe start)
                 else ?wipe start)
          else ?wipe start"
  have qD: "wpd (retE ()) M V G D' Q" if "length D' = unat dsz" for D'
  proof (rule wpd_ret)
    have "G\<lparr>mk_pos := mk_pos G\<rparr> = G" by simp
    then show "Q () M V G D'" using Q that unfolding moved_def by metis
  qed
  have body: "wpd (?m start) M V G D Q" if s: "start = 0 \<or> start = NILFS_SB_OFFSET_BYTES" for start
  proof (cases "o_discard opts")
    case True
    have z: "wpd (bindE (nilfs_mkfs_discard_zeroes_data e fd) (\<lambda>z. if z then retE () else ?wipe start)) M V G D' Q" for D'
      by (rule wpd_bind, rule wpd_discard_zeroes) (use qD wipe [OF s] in auto)
    have "wpd (bindE (nilfs_mkfs_discard_range e fd start (?last - start)) (\<lambda>done.
                 if done then bindE (nilfs_mkfs_discard_zeroes_data e fd) (\<lambda>z. if z then retE () else ?wipe start)
                 else ?wipe start)) M V G D Q"
      by (rule wpd_bind, rule wpd_discard) (use z wipe [OF s] in auto)
    then show ?thesis using True by simp
  next
    case False
    then show ?thesis using wipe [OF s D] by simp
  qed
  have boot: "wpd (device_has_boot_sector k bs) M V G D Q'" if "\<And>b. Q' b M V G D" for Q'
    unfolding device_has_boot_sector_def
    by (rule wpd_bind, rule wpd_mapped [OF G(1,2)], rule wpd_bind, rule wpd_peek) (use G fm.bs_ge that in \<open>auto intro: wpd_ret\<close>)
  show ?thesis
    unfolding erase_disk_def o
  proof (rule wpd_bind, rule boot, rule wpd_cong)
    fix b
    show "wpd (?m (if b then NILFS_SB_OFFSET_BYTES else 0)) M V G D Q" by (rule body) simp
    fix s assume s: "ghost s = G"
    have d: "di_dev_size (mk_di s) = dsz" using fm.ghost_fields(3) [OF s] G by simp
    have na: "\<not> (sint ?last < sint ?E \<or> sint (?last - ?E) < sint (if b then NILFS_SB_OFFSET_BYTES else 0))" by (rule noabort) simp
    show "(let start = (if b then NILFS_SB_OFFSET_BYTES else 0);
           last = di_dev_size (mk_di s) AND NOT (512 - 1);
           wipe = bindE (erase_disk_range k e bs fd (last - NILFS_DISK_ERASE_SIZE) NILFS_DISK_ERASE_SIZE)
                    (\<lambda>_. erase_disk_range k e bs fd start (NILFS_DISK_ERASE_SIZE - start))
       in if sint last < sint NILFS_DISK_ERASE_SIZE \<or> sint (last - NILFS_DISK_ERASE_SIZE) < sint start
          then (Inl EAbort, s)
          else if o_discard opts
          then bindE (nilfs_mkfs_discard_range e fd start (last - start)) (\<lambda>done.
                 if done then bindE (nilfs_mkfs_discard_zeroes_data e fd) (\<lambda>z. if z then retE () else wipe)
                 else wipe) s
          else wipe s) = ?m (if b then NILFS_SB_OFFSET_BYTES else 0) s"
      unfolding Let_def d L_def [symmetric] if_not_P [OF na] by (cases "o_discard opts") simp_all
  qed
qed

end

text \<open>The bytes of the log, and the position of its first block.\<close>

definition log_image :: "u64 \<Rightarrow> blocks \<Rightarrow> nat \<Rightarrow> bytes" where
  "log_image bs V n = concat (map (\<lambda>j. V (first_block bs + of_nat j)) [0..<n])"

lemma log_image_Suc: "log_image bs V (Suc n) = log_image bs V n @ V (first_block bs + of_nat n)"
  by (simp add: log_image_def)

lemma length_log_image: "(\<And>b. length (V b) = m) \<Longrightarrow> length (log_image bs V n) = n * m"
  by (induction n) (simp_all add: log_image_def)

lemma log_base:
  assumes "mkfs_bs bs"
  shows "4096 \<le> unat (first_block bs * bs)" "unat (first_block bs * bs) \<le> 65536" "unat bs \<le> 65536"
  using assms unfolding mkfs_bs_def by (auto simp: first_block_def)

lemma log_start:
  assumes "mkfs_bs bs" "i \<le> 12"
  shows "unat ((first_block bs + of_nat i) * bs) = unat (first_block bs * bs) + i * unat bs"
    "4096 \<le> unat (first_block bs * bs)" "unat (first_block bs * bs) + i * unat bs \<le> 851968"
proof -
  note b = log_base [OF assms(1)]
  have m: "i * unat bs \<le> 12 * 65536" using assms(2) b(3) by (rule mult_le_mono)
  have "unat (of_nat i :: u64) = i" using assms(2) by (intro unat_of_nat_u64) simp
  then have "unat (of_nat i * bs) = i * unat bs mod 2 ^ 64" by (simp only: unat_word_ariths) simp
  then have "unat (of_nat i * bs) = i * unat bs" using m by simp
  moreover have "(first_block bs + of_nat i) * bs = first_block bs * bs + of_nat i * bs" by (rule distrib_right)
  ultimately show "unat ((first_block bs + of_nat i) * bs) = unat (first_block bs * bs) + i * unat bs"
    using b(2) m by (simp only:) (subst unat_add_u64; simp)
  show "4096 \<le> unat (first_block bs * bs)" "unat (first_block bs * bs) + i * unat bs \<le> 851968" using b m by simp_all
qed

lemma log_span:
  assumes "mkfs_bs bs"
  shows "unat (first_block bs) \<le> 4" "i \<le> 12 \<Longrightarrow> unat (first_block bs + of_nat i) = unat (first_block bs) + i"
    "last_block bs + 1 = first_block bs + of_nat (nifile bs + 8)"
proof -
  show f: "unat (first_block bs) \<le> 4" using assms unfolding mkfs_bs_def by (auto simp: first_block_def)
  show "unat (first_block bs + of_nat i) = unat (first_block bs) + i" if "i \<le> 12"
  proof -
    have "unat (of_nat i :: u64) = i" using that by (intro unat_of_nat_u64) simp
    then show ?thesis using f that by (subst unat_add_u64; simp)
  qed
  show "last_block bs + 1 = first_block bs + of_nat (nifile bs + 8)"
    by (simp add: last_block_def nifile_def add.assoc)
qed

lemma sb2_offset:
  assumes "2 ^ 20 + 1024 \<le> unat dsz"
  shows "unat (NILFS_SB2_OFFSET_BYTES dsz) = (unat dsz div 4096 - 1) * 4096"
    "1044480 \<le> unat (NILFS_SB2_OFFSET_BYTES dsz)" "unat (NILFS_SB2_OFFSET_BYTES dsz) + 1024 \<le> unat dsz"
proof -
  let ?q = "unat dsz div 4096"
  have q: "(2 ^ 20 + 1024) div 4096 \<le> ?q" using assms by (rule div_le_mono)
  then have q': "256 \<le> ?q" by simp
  have d: "unat (drop_bit 12 dsz) = ?q" using unat_drop_bit_div [of 12 dsz] by simp
  have "(1 :: u64) \<le> drop_bit 12 dsz" using d q' by (simp add: word_le_nat_alt)
  then have s: "unat (drop_bit 12 dsz - 1) = ?q - 1" using d by (simp add: unat_sub_u64)
  have "unat (NILFS_SB2_OFFSET_BYTES dsz) = (?q - 1) * 4096 mod 2 ^ 64"
    unfolding NILFS_SB2_OFFSET_BYTES_def push_bit_eq_mult by (simp only: unat_word_ariths s) simp
  also have "\<dots> = (?q - 1) * 4096" using unat_lt_u64 [of dsz] by simp
  finally show e: "unat (NILFS_SB2_OFFSET_BYTES dsz) = (?q - 1) * 4096" .
  have "255 * 4096 \<le> (?q - 1) * 4096" using q' by (intro mult_right_mono) simp_all
  then show "1044480 \<le> unat (NILFS_SB2_OFFSET_BYTES dsz)" unfolding e by simp
  have "(?q - 1) * 4096 + 4096 = ?q * 4096" using q' by (simp add: algebra_simps)
  moreover have "?q * 4096 \<le> unat dsz" by simp
  ultimately show "unat (NILFS_SB2_OFFSET_BYTES dsz) + 1024 \<le> unat dsz" unfolding e by linarith
qed

context writer
begin

lemma wpd_len: "((\<And>c. length (V c) = unat bs) \<Longrightarrow> wpd m M V G D Q) \<Longrightarrow> wpd m M V G D Q"
  unfolding wpd_def fm.rep_def by blast

lemma wpd_write_blocks:
  assumes si: "mi_start_blocknr si = first_block bs" "unat (mi_nblocks si) = n" "n \<le> 12"
    and b: "\<And>i. i < n \<Longrightarrow> first_block bs + of_nat i < mk_buffer_size G" and dsz: "2 ^ 20 \<le> unat dsz"
    and Q: "\<And>M' G'. M \<subseteq> M' \<Longrightarrow> G' = G\<lparr>mk_pos := (first_block bs + of_nat n) * bs\<rparr>
      \<Longrightarrow> Q () M' V G' (put_at (unat (first_block bs * bs)) (log_image bs V n) D)" and D: "length D = unat dsz"
  shows "wpd (write_blocks k e bs fd si) M V G D Q"
proof (rule wpd_len)
  assume l: "\<And>c. length (V c) = unat bs"
  let ?p = "unat (first_block bs * bs)"
  let ?I = "\<lambda>i (x :: unit) M' V' G' D'. V' = V \<and> G' = G\<lparr>mk_pos := (first_block bs + of_nat i) * bs\<rparr>
      \<and> D' = put_at ?p (log_image bs V i) D"
  show ?thesis
    unfolding write_blocks_def si
  proof (rule wpd_bind, rule wpd_tryE, rule wpd_seek, rule wpd_fold [where I = ?I])
    fix i x M' V' G' D' assume i: "i < n" and I: "?I i x M' V' G' D'"
    have i12: "i \<le> 12" "Suc i \<le> 12" using i si(3) by simp_all
    note ls = log_start [OF bsok i12(1)] and ls' = log_start(3) [OF bsok i12(2)]
    have pos: "unat (mk_pos G') = ?p + i * unat bs" using I ls(1) by simp
    have room: "?p + i * unat bs + unat bs \<le> unat dsz" using ls' dsz by simp
    have bl: "first_block bs + of_nat i < mk_buffer_size G'" using b [OF i] I by simp
    have im: "length (log_image bs V i) = i * unat bs" by (rule length_log_image [OF l])
    have D': "put_at (?p + i * unat bs) (V (first_block bs + of_nat i)) D' = put_at ?p (log_image bs V (Suc i)) D"
      using put_at_append [of ?p "log_image bs V i" "V (first_block bs + of_nat i)" D] I l im room D
      by (simp add: log_image_Suc)
    have np: "mk_pos G' + bs = (first_block bs + of_nat (Suc i)) * bs" using I by (simp add: algebra_simps)
    have post: "?I (Suc i) () M'' V' (G'\<lparr>mk_pos := mk_pos G' + bs\<rparr>)
       (put_at (unat (mk_pos G')) (V (first_block bs + of_nat i)) D')" for M''
      unfolding pos D' np using I by simp
    have tk: "take (unat bs) (V (first_block bs + of_nat i)) = V (first_block bs + of_nat i)" using l by simp
    let ?tail = "\<lambda>v. bindE (orExit (m_write k fd v)) (\<lambda>_. retE ())"
    have w: "wpd (?tail (V (first_block bs + of_nat i))) M'' V' G' D' (?I (Suc i))" for M''
      by (rule wpd_bind, rule wpd_orExit, rule wpd_write, use pos room l in simp, rule wpd_ret, use l post in simp)
    show "wpd (bindE (map_disk_buffer k bs (first_block bs + of_nat i) True) (\<lambda>p. bindE (peek p (unat bs)) ?tail)) M' V' G' D' (?I (Suc i))"
    proof (rule wpd_bind, rule wpd_map [OF bl], rule wpd_bind, rule wpd_peek)
      show "wpd (?tail (take (unat bs) (drop (snd (first_block bs + of_nat i, 0)) (V' (fst (first_block bs + of_nat i, 0)))))) (insert (first_block bs + of_nat i) M') V' G' D' (?I (Suc i))"
        using w tk I by simp
    qed simp_all
  next
    show "?I 0 () M V (G\<lparr>mk_pos := first_block bs * bs\<rparr>) D" using D log_start(3) [OF bsok, of 0] dsz by (simp add: log_image_def put_at_def)
  next
    fix x M' V' G' D' assume "M \<subseteq> M'" "?I n x M' V' G' D'"
    then show "Q x M' V' G' D'" using Q [of M' G'] by simp
  qed simp
qed

lemma wpd_write_super_block:
  assumes "mk_raw_sb G = Some sb" "fst sb \<in> M" "snd sb + 1024 \<le> unat bs" "unat off + 1024 \<le> unat dsz"
    and Q: "\<And>p. Q () M V (G\<lparr>mk_pos := p\<rparr>) (put_at (unat off) (take 1024 (drop (snd sb) (V (fst sb)))) D)"
  shows "wpd (write_super_block k e fd off) M V G D Q"
proof (rule wpd_len)
  assume l: "\<And>c. length (V c) = unat bs"
  let ?v = "take 1024 (drop (snd sb) (V (fst sb)))"
  have lv: "length ?v = 1024" using l assms(3) by simp
  let ?tail = "\<lambda>sb. bindE (peek sb 1024) (\<lambda>v. bindE (orExit (m_write k fd v)) (\<lambda>_. retE ()))"
  have "wpd (?tail sb) M V (G\<lparr>mk_pos := off\<rparr>) D Q"
    by (rule wpd_bind, rule wpd_peek [OF assms(2,3)], rule wpd_bind, rule wpd_orExit, rule wpd_write, use lv assms(4) in simp,
        rule wpd_ret, use Q in simp)
  then have t: "wpd (\<lambda>s. bindE (deref (mk_raw_sb s)) ?tail s) M V (G\<lparr>mk_pos := off\<rparr>) D Q"
  proof (rule wpd_cong [rotated])
    fix s assume s: "ghost s = G\<lparr>mk_pos := off\<rparr>"
    have "mk_raw_sb s = Some sb" using fm.ghost_fields(4) [OF s] assms(1) by simp
    then show "bindE (deref (mk_raw_sb s)) ?tail s = ?tail sb s" by (simp add: deref_def)
  qed
  show ?thesis
    unfolding write_super_block_def NILFS_MAX_SB_SIZE_def
    by (rule wpd_bind, rule wpd_orExit, rule wpd_seek) (rule t)
qed

end

context writer
begin

lemma wpd_fold1:
  assumes "wpd (f a x) M V G D Q"
  shows "wpd (foldE f [a] x) M V G D Q"
  unfolding foldE.simps(2)
proof (rule wpd_bind, rule wpd_conseq [OF assms])
  fix y M' V' G' D' assume "Q y M' V' G' D'"
  then show "wpd (foldE f [] y) M' V' G' D' Q" unfolding foldE.simps(1) by (rule wpd_ret)
qed

definition written :: "blocks \<Rightarrow> bytes \<Rightarrow> bytes \<Rightarrow> bool" where
  "written V S D \<longleftrightarrow> length D = unat dsz
     \<and> take ((nifile bs + 8) * unat bs) (drop (unat (first_block bs * bs)) D) = log_image bs V (nifile bs + 8)
     \<and> dev_sb D 1024 = S \<and> dev_sb D (unat (NILFS_SB2_OFFSET_BYTES dsz)) = S"

lemma written_image:
  assumes l: "\<And>c. length (V c) = unat bs" and S: "length S = 1024" and D: "length D = unat dsz" and big: "2 ^ 20 + 1024 \<le> unat dsz"
  shows "written V S (put_at (unat (NILFS_SB2_OFFSET_BYTES dsz)) S (put_at 1024 S (put_at (unat (first_block bs * bs)) (log_image bs V (nifile bs + 8)) D)))"
proof -
  let ?p = "unat (first_block bs * bs)" and ?L = "log_image bs V (nifile bs + 8)" and ?q = "unat (NILFS_SB2_OFFSET_BYTES dsz)"
  have n: "nifile bs + 8 \<le> 12" using nifile_cases [of bs] by auto
  note p = log_start(2,3) [OF bsok n] and q = sb2_offset(2,3) [OF big]
  have L: "length ?L = (nifile bs + 8) * unat bs" by (rule length_log_image [OF l])
  have pq: "?p + length ?L \<le> ?q" using p q unfolding L by linarith
  let ?D2 = "put_at ?p ?L D"
  have l2: "length ?D2 = unat dsz" using D pq q by simp
  let ?D3 = "put_at 1024 S ?D2"
  have l3: "length ?D3 = unat dsz" using l2 S big by simp
  have "take (length ?L) (drop ?p (put_at ?q S ?D3)) = ?L"
    using pq q p l2 l3 S D by (simp add: take_drop_put_at_before take_drop_put_at_after take_drop_put_at_same)
  moreover have "take 1024 (drop 1024 (put_at ?q S ?D3)) = S"
    using q l2 l3 S take_drop_put_at_same [of 1024 S ?D2] by (simp add: take_drop_put_at_before)
  moreover have "take 1024 (drop ?q (put_at ?q S ?D3)) = S"
    using q l3 S take_drop_put_at_same [of ?q S ?D3] by simp
  moreover have "length (put_at ?q S ?D3) = unat dsz" using l3 S q by simp
  ultimately show ?thesis unfolding written_def dev_sb_def L by blast
qed

lemma wpd_write_disk:
  assumes o: "o_blocksize opts = bs" "\<not> o_nflag opts" and big: "2 ^ 20 + 1024 \<le> unat dsz" "unat dsz < 2 ^ 63"
    and g: "gok bs di rs G" "di_dev_size di = dsz" and sb: "mk_raw_sb G = Some sb" "fst sb \<in> M" "snd sb + 1024 \<le> unat bs"
    and M: "0 \<in> M" and D: "length D = unat dsz"
    and Q: "\<And>M' G' D'. M \<subseteq> M' \<Longrightarrow> written V (take 1024 (drop (snd sb) (V (fst sb)))) D' \<Longrightarrow> Q () M' V G' D'"
  shows "wpd (write_disk k e opts fd) M V G D Q"
proof (rule wpd_len)
  assume l: "\<And>c. length (V c) = unat bs"
  let ?n = "nifile bs + 8" and ?S = "take 1024 (drop (snd sb) (V (fst sb)))" and ?p = "unat (first_block bs * bs)"
  have S: "length ?S = 1024" using l sb(3) by simp
  have n: "?n \<le> 12" using nifile_cases [of bs] by auto
  have dz: "di_dev_size (mk_di G) = dsz" using g by (simp add: gok_def di_raw_def planned_def)
  have sz: "mk_buffer_size G = last_block bs + 1" using g(1) by (simp add: gok_def)
  have pos: "0 < mk_buffer_size G" by (rule order.strict_trans1 [OF word_zero_le fm.gok_size [OF g(1), of "first_block bs"]]) simp
  have si: "mi_start_blocknr (seg_raw bs rs) = first_block bs" "unat (mi_nblocks (seg_raw bs rs)) = ?n"
    using nifile_cases [of bs] by (auto simp: seg_raw_def planned_segment_def nifile_def ifile_blocks_def)
  have bl: "first_block bs + of_nat i < last_block bs + 1" if "i < ?n" for i
    using that n log_span(1) [OF bsok] log_span(2) [OF bsok, of i] log_span(2) [OF bsok, of ?n]
    unfolding log_span(3) [OF bsok] word_less_nat_alt by simp
  let ?q = "NILFS_SB2_OFFSET_BYTES dsz"
  have sync: "wpd (orExit (liftW (me_fsync e fd))) M' V G' D' Q" if "M \<subseteq> M'" "written V ?S D'" for M' G' D'
    by (rule wpd_orExit, rule wpd_fsync, rule Q [OF that])
  have r: "NILFS_SB_OFFSET_BYTES = 1024" "unat NILFS_SB_OFFSET_BYTES = 1024" by (simp_all add: NILFS_SB_OFFSET_BYTES_def)
  have sbs: "wpd (bindE (write_super_block k e fd NILFS_SB_OFFSET_BYTES) (\<lambda>_.
           bindE (\<lambda>s. write_super_block k e fd (NILFS_SB2_OFFSET_BYTES (di_dev_size (mk_di s))) s) (\<lambda>_.
             orExit (liftW (me_fsync e fd))))) M' V (G\<lparr>mk_pos := x\<rparr>) (put_at ?p (log_image bs V ?n) D') Q"
    if m: "M \<subseteq> M'" and l': "length D' = unat dsz" for M' D' x
  proof (rule wpd_bind, rule wpd_write_super_block [where sb = sb])
    fix y
    let ?D = "put_at (unat NILFS_SB_OFFSET_BYTES) ?S (put_at ?p (log_image bs V ?n) D')" and ?G = "G\<lparr>mk_pos := x, mk_pos := y\<rparr>"
    have w: "wpd (write_super_block k e fd ?q) M' V ?G ?D (\<lambda>_ M V G D. wpd (orExit (liftW (me_fsync e fd))) M V G D Q)"
      by (rule wpd_write_super_block [where sb = sb], use sb m sb2_offset(3) [OF big(1)] in auto)
        (rule sync [OF m], use written_image [OF l S l' big(1)] r in simp)
    show "wpd (bindE (\<lambda>s. write_super_block k e fd (NILFS_SB2_OFFSET_BYTES (di_dev_size (mk_di s))) s) (\<lambda>_.
             orExit (liftW (me_fsync e fd)))) M' V ?G ?D Q"
    proof (rule wpd_bind, rule wpd_cong [OF _ w])
      fix s assume "ghost s = ?G"
      from fm.ghost_fields(3) [OF this] show "write_super_block k e fd (NILFS_SB2_OFFSET_BYTES (di_dev_size (mk_di s))) s = write_super_block k e fd ?q s"
        using dz by simp
    qed
  qed (use sb m big r in auto)
  let ?rest = "bindE (\<lambda>s. foldE (\<lambda>si _. write_blocks k e bs fd si) (di_seginfo (mk_di s)) () s) (\<lambda>_.
           bindE (orExit (liftW (me_fsync e fd))) (\<lambda>_.
           bindE (write_super_block k e fd NILFS_SB_OFFSET_BYTES) (\<lambda>_.
           bindE (\<lambda>s. write_super_block k e fd (NILFS_SB2_OFFSET_BYTES (di_dev_size (mk_di s))) s) (\<lambda>_.
             orExit (liftW (me_fsync e fd))))))"
  have rest: "wpd ?rest M V (G\<lparr>mk_pos := y\<rparr>) D' Q" if l': "length D' = unat dsz" for y D'
  proof (rule wpd_bind, rule wpd_cong)
    fix s assume s: "ghost s = G\<lparr>mk_pos := y\<rparr>"
    have "di_seginfo (mk_di s) = [seg_raw bs rs]" using fm.ghost_fields(3) [OF s] g(1) by (simp add: gok_def di_raw_def)
    then show "foldE (\<lambda>si _. write_blocks k e bs fd si) (di_seginfo (mk_di s)) () s = foldE (\<lambda>si _. write_blocks k e bs fd si) [seg_raw bs rs] () s" by simp
  next
    show "wpd (foldE (\<lambda>si _. write_blocks k e bs fd si) [seg_raw bs rs] ()) M V (G\<lparr>mk_pos := y\<rparr>) D' (\<lambda>_ M V G D. wpd
           (bindE (orExit (liftW (me_fsync e fd))) (\<lambda>_.
           bindE (write_super_block k e fd NILFS_SB_OFFSET_BYTES) (\<lambda>_.
           bindE (\<lambda>s. write_super_block k e fd (NILFS_SB2_OFFSET_BYTES (di_dev_size (mk_di s))) s) (\<lambda>_.
             orExit (liftW (me_fsync e fd)))))) M V G D Q)"
    proof (rule wpd_fold1, rule wpd_write_blocks [OF si n])
      fix M' G' assume m: "M \<subseteq> M'" and G': "G' = G\<lparr>mk_pos := y, mk_pos := (first_block bs + of_nat ?n) * bs\<rparr>"
      show "wpd (bindE (orExit (liftW (me_fsync e fd))) (\<lambda>_.
           bindE (write_super_block k e fd NILFS_SB_OFFSET_BYTES) (\<lambda>_.
           bindE (\<lambda>s. write_super_block k e fd (NILFS_SB2_OFFSET_BYTES (di_dev_size (mk_di s))) s) (\<lambda>_.
             orExit (liftW (me_fsync e fd)))))) M' V G' (put_at ?p (log_image bs V ?n) D') Q"
        by (rule wpd_bind, rule wpd_orExit, rule wpd_fsync) (use sbs [OF m l'] G' in simp)
    qed (use l' big(1) bl sz in auto)
  qed
  show ?thesis
    unfolding write_disk_def if_not_P [OF o(2)] o(1)
  proof (rule wpd_bind, rule wpd_orExit, rule wpd_erase_disk [OF o(1) big M pos dz D])
    show "moved (\<lambda>M V G D. wpd ?rest M V G D Q) M V G" unfolding moved_def using rest by blast
  qed
qed

end

section \<open>The header and the superblock\<close>

definition sb_ptr :: "u64 \<Rightarrow> ptr" where
  "sb_ptr bs = (NILFS_SB_OFFSET_BYTES div bs, unat (NILFS_SB_OFFSET_BYTES mod bs))"

lemma sb_ptr_bounds:
  assumes "mkfs_bs bs"
  shows "snd (sb_ptr bs) + 1024 \<le> unat bs" "fst (sb_ptr bs) < first_block bs" "0 < first_block bs"
    "unat (DIV_ROUND_UP NILFS_SB_OFFSET_BYTES bs) = 1"
  using assms unfolding mkfs_bs_def sb_ptr_def
  by (auto simp: NILFS_SB_OFFSET_BYTES_def first_block_def DIV_ROUND_UP_def)

definition shift :: "nat \<Rightarrow> (nat \<times> bytes) list \<Rightarrow> (nat \<times> bytes) list" where
  "shift n ps = map (\<lambda>(off, v). (n + off, v)) ps"

definition commit_fields :: "nilfs_disk_info \<Rightarrow> nilfs_segment_ref \<Rightarrow> (nat \<times> bytes) list" where
  "commit_fields di segref =
     [(56, le64 (sf_cno segref)), (64, le64 (sf_start_blocknr segref)), (72, le64 (sf_seq segref)),
      (80, le64 (sf_free_blocks_count segref)), (104, le64 (di_ctime di))]"

lemma shift_simps: "shift n [] = []" "shift n ((off, v) # ps) = (n + off, v) # shift n ps" "shift n (ps @ qs) = shift n ps @ shift n qs"
  by (simp_all add: shift_def)

lemma apart_shift: "apart (shift n ps) = apart ps"
  unfolding apart_def shift_def sorted_wrt_map by (rule arg_cong2 [where f = sorted_wrt]) (auto simp: fun_eq_iff)

lemma stores_append: "stores b (ps @ qs) V = stores b qs (stores b ps V)"
  by (simp add: stores_def)

lemma stores_other: "c \<noteq> b \<Longrightarrow> stores b ps V c = V c"
  by (induction ps arbitrary: V) (auto simp: stores_def store_def)

context formatter
begin

lemma wpv_pokes:
  assumes "b \<in> M" "\<forall>(off, v) \<in> set ps. n + off + length v \<le> unat bs" "Q () M (stores b (shift n ps) V) G"
  shows "wpv (foldE (\<lambda>(off, v) _. poke (padd (b, n) off) v) ps ()) M V G Q"
  using assms(2,3)
proof (induction ps arbitrary: V)
  case Nil
  then show ?case unfolding foldE.simps by (intro wpv_ret) (simp add: shift_simps stores_simps)
next
  case (Cons p ps)
  obtain off v where p: "p = (off, v)" by (cases p)
  have "wpv (bindE (poke (padd (b, n) off) v) (\<lambda>_. foldE (\<lambda>(off, v) _. poke (padd (b, n) off) v) ps ())) M V G Q"
    using Cons.prems assms(1) by (intro wpv_poke_bind Cons.IH) (auto simp: p shift_simps stores_simps)
  then show ?case by (simp add: p)
qed

end

context writer
begin

lemma wpd_map_junk:
  assumes "b < mk_buffer_size G" "\<And>v. length v = unat bs \<Longrightarrow> Q (b, 0) (insert b M) (V(b := v)) G D"
  shows "wpd (map_disk_buffer k bs b False) M V G D Q"
proof (rule wpdI)
  fix s assume r: "fm.rep D M V G s"
  then have sz: "b < mk_buffer_size s" using assms(1) fm.ghost_fields(2) [of s G] by (simp add: fm.rep_def)
  show "\<exists>x s' M' V' G' D'. map_disk_buffer k bs b False s = (Inr x, s') \<and> M \<subseteq> M' \<and> fm.rep D' M' V' G' s' \<and> Q x M' V' G' D'"
  proof (cases "mk_buffer s b")
    case (Some c)
    then have "fm.rep D (insert b M) (V(b := V b)) G s" using r by (auto simp: fm.rep_def)
    moreover have "length (V b) = unat bs" using r by (simp add: fm.rep_def)
    moreover have "map_disk_buffer k bs b False s = (Inr (b, 0), s)" using Some sz by (simp add: map_disk_buffer_def)
    ultimately show ?thesis using assms(2) by blast
  next
    case None
    obtain a w where w: "k_malloc k bs (mk_w s) = (Some a, w)" "dev w = dev (mk_w s)" using device_malloc [OF laws] by blast
    let ?v = "map (k_junk k) [0..<unat bs]"
    let ?s = "s\<lparr>mk_w := w, mk_buffer := (mk_buffer s)(b \<mapsto> ?v)\<rparr>"
    have "content bs ?s = (content bs s)(b := ?v)" by (auto simp: content_def fun_eq_iff)
    moreover have "ghost ?s = ghost s" by (simp add: ghost_def)
    ultimately have "fm.rep D (insert b M) (V(b := ?v)) G ?s" using r w by (auto simp: fm.rep_def)
    moreover have "map_disk_buffer k bs b False s = (Inr (b, 0), ?s)" using None w sz by (simp add: map_disk_buffer_def)
    moreover have "Q (b, 0) (insert b M) (V(b := ?v)) G D" by (rule assms(2)) simp
    moreover have "M \<subseteq> insert b M" by blast
    ultimately show ?thesis by blast
  qed
qed

lemma wpd_read_disk_header:
  assumes "0 < mk_buffer_size G" "unat bs \<le> unat dsz"
    "\<And>v p. length v = unat bs \<Longrightarrow> Q () (insert 0 M) (V(0 := v)) (G\<lparr>mk_pos := p\<rparr>) D"
  shows "wpd (read_disk_header k e bs fd) M V G D Q"
  unfolding read_disk_header_def sb_ptr_bounds(4) [OF bsok]
proof (rule wpd_bind, rule wpd_tryE, rule wpd_seek)
  let ?f = "\<lambda>i (_ :: unit). bindE (map_disk_buffer k bs (of_nat i) False) (\<lambda>p. bindE (orExit (m_read k fd bs)) (poke p))"
  have u: "[0..<1] = [0]" by simp
  show "wpd (foldE ?f [0..<1] ()) M V (G\<lparr>mk_pos := 0\<rparr>) D Q"
    unfolding u
  proof (rule wpd_fold1, rule wpd_bind)
    have z: "of_nat 0 = (0 :: u64)" by simp
    show "wpd (map_disk_buffer k bs (of_nat 0) False) M V (G\<lparr>mk_pos := 0\<rparr>) D
        (\<lambda>x M V G D. wpd (bindE (orExit (m_read k fd bs)) (poke x)) M V G D Q)"
      unfolding z
    proof (rule wpd_map_junk)
      fix v :: bytes assume v: "length v = unat bs"
      show "wpd (bindE (orExit (m_read k fd bs)) (poke (0, 0))) (insert 0 M) (V(0 := v)) (G\<lparr>mk_pos := 0\<rparr>) D Q"
      proof (rule wpd_bind, rule wpd_orExit, rule wpd_read)
        fix x :: bytes assume x: "length x = unat bs"
        have "store (0, 0) x (V(0 := v)) = V(0 := x)" using x v by (simp add: store_def put_at_def)
        then show "wpd (poke (0, 0) x) (insert 0 M) (V(0 := v)) (G\<lparr>mk_pos := 0, mk_pos := mk_pos (G\<lparr>mk_pos := 0\<rparr>) + bs\<rparr>) D Q"
          by (intro wpd_poke) (use x assms(3) [OF x] in simp_all)
      qed (use assms(2) in simp)
    qed (use assms(1) in simp)
  qed
qed

end

lemma fields_fit:
  assumes "length uuid = 16" "length (o_volume_label opts) = 80"
  shows "\<forall>(off, v) \<in> set (super_block_fields opts di uuid). off + length v \<le> 1024"
    "apart (tl (super_block_fields opts di uuid) @ commit_fields di' r)"
    "\<forall>(off, v) \<in> set (tl (super_block_fields opts di uuid) @ commit_fields di' r). off + length v \<le> 1024"
    "super_block_fields opts di uuid = (0, replicate 1024 0) # tl (super_block_fields opts di uuid)"
  using assms by (simp_all add: super_block_fields_def commit_fields_def apart_def)

context writer
begin

lemma wpd_prepare_super_block:
  assumes o: "o_blocksize opts = bs" "length (o_volume_label opts) = 80"
    and G: "first_block bs \<le> mk_buffer_size G"
    and Q: "\<And>uuid. length uuid = 16 \<Longrightarrow> Q () (insert (fst (sb_ptr bs)) M)
       (stores (fst (sb_ptr bs)) (shift (snd (sb_ptr bs)) (super_block_fields opts di uuid)) V) (G\<lparr>mk_raw_sb := Some (sb_ptr bs)\<rparr>) D"
  shows "wpd (prepare_super_block k e opts di) M V G D Q"
proof -
  let ?b = "fst (sb_ptr bs)" and ?n = "snd (sb_ptr bs)"
  have sp: "NILFS_SB_OFFSET_BYTES div bs = ?b" "unat (NILFS_SB_OFFSET_BYTES mod bs) = ?n" "(?b, ?n) = sb_ptr bs" by (simp_all add: sb_ptr_def)
  have n: "\<not> 1024 > unat bs" using fm.bs_ge by simp
  have bl: "?b < mk_buffer_size G" using sb_ptr_bounds(2) [OF bsok] G by (rule order.strict_trans2)
  let ?fold = "\<lambda>uuid. foldE (\<lambda>(off, v) _. poke (padd (?b, ?n) off) v) (super_block_fields opts di uuid) ()"
  let ?m = "\<lambda>s :: 'w mkfs. case me_uuid e (mk_w s) of (uuid, w) \<Rightarrow> ?fold uuid (s\<lparr>mk_w := w, mk_raw_sb := Some (?b, ?n)\<rparr>)"
  have m: "wpd ?m (insert ?b M) V G D Q"
  proof (rule wpdI)
    fix s assume r: "fm.rep D (insert ?b M) V G s"
    obtain uuid w where w: "me_uuid e (mk_w s) = (uuid, w)" by (cases "me_uuid e (mk_w s)")
    then have u: "length uuid = 16" "dev w = dev (mk_w s)" using elaws unfolding mkfs_laws_def by (metis fst_conv, metis snd_conv)
    let ?s = "s\<lparr>mk_w := w, mk_raw_sb := Some (?b, ?n)\<rparr>"
    have "content bs ?s = content bs s" by (simp add: content_def fun_eq_iff)
    moreover have "ghost ?s = (ghost s)\<lparr>mk_raw_sb := Some (?b, ?n)\<rparr>" by (simp add: ghost_def)
    ultimately have r': "fm.rep D (insert ?b M) V (G\<lparr>mk_raw_sb := Some (sb_ptr bs)\<rparr>) ?s" using r u(2) sp(3) by (simp add: fm.rep_def)
    have "fm.wpv D (?fold uuid) (insert ?b M) V (G\<lparr>mk_raw_sb := Some (sb_ptr bs)\<rparr>) (\<lambda>x M V G. Q x M V G D)"
      by (rule fm.wpv_pokes) (use fields_fit(1) [OF u(1) o(2), of di] sb_ptr_bounds(1) [OF bsok] Q [OF u(1)] in fastforce)+
    then have "wpd (?fold uuid) (insert ?b M) V (G\<lparr>mk_raw_sb := Some (sb_ptr bs)\<rparr>) D Q" by (rule wpd_lift)
    from wpdE [OF this r'] show "\<exists>x s' M' V' G' D'. ?m s = (Inr x, s') \<and> insert ?b M \<subseteq> M' \<and> fm.rep D' M' V' G' s' \<and> Q x M' V' G' D'"
      using w by (metis (no_types, lifting) prod.case)
  qed
  show ?thesis
    unfolding prepare_super_block_def Let_def o(1) sp if_not_P [OF n]
    by (rule wpd_bind, rule wpd_map [OF bl]) (use m in simp)
qed

lemma wpv_commit_super_block:
  assumes sb: "mk_raw_sb G = Some (b, n)" "b \<in> M" "n + 1024 \<le> unat bs"
    and Q: "let W = stores b (shift n (commit_fields di r)) V in
       Q () M (store (b, n + 16) (le32 (crc32_le (di_crc_seed di) (take NILFS_SB_BYTES (drop n (W b))))) W) G"
  shows "fm.wpv D (commit_super_block di r) M V G Q"
proof -
  let ?W = "stores b (shift n (commit_fields di r)) V"
  have W: "?W = store (b, n + 104) (le64 (di_ctime di)) (store (b, n + 80) (le64 (sf_free_blocks_count r)) (store (b, n + 72) (le64 (sf_seq r))
      (store (b, n + 64) (le64 (sf_start_blocknr r)) (store (b, n + 56) (le64 (sf_cno r)) V))))"
    by (simp add: commit_fields_def shift_simps stores_simps)
  have 0: "fm.wpv D (bindE (poke (padd (b, n) 56) (le64 (sf_cno r))) (\<lambda>_.
     bindE (poke (padd (b, n) 64) (le64 (sf_start_blocknr r))) (\<lambda>_.
     bindE (poke (padd (b, n) 72) (le64 (sf_seq r))) (\<lambda>_.
     bindE (poke (padd (b, n) 80) (le64 (sf_free_blocks_count r))) (\<lambda>_.
     bindE (poke (padd (b, n) 104) (le64 (di_ctime di))) (\<lambda>_.
     bindE (peek (b, n) NILFS_SB_BYTES) (\<lambda>v.
       poke (padd (b, n) 16) (le32 (crc32_le (di_crc_seed di) v))))))))) M V G Q"
    unfolding padd_pair
  proof ((rule fm.wpv_poke_bind, use sb in simp, use sb in simp)+, rule fm.wpv_peek_bind, use sb in simp, use sb in \<open>simp add: NILFS_SB_BYTES_def\<close>, rule fm.wpv_poke)
  qed (use sb Q [unfolded Let_def W] in simp_all)
  show ?thesis
  proof (rule fm.wpv_cong [OF _ 0])
    fix s assume s: "ghost s = G"
    have "mk_raw_sb s = Some (b, n)" using fm.ghost_fields(4) [OF s] sb(1) by simp
    then show "commit_super_block di r s = bindE (poke (padd (b, n) 56) (le64 (sf_cno r))) (\<lambda>_.
     bindE (poke (padd (b, n) 64) (le64 (sf_start_blocknr r))) (\<lambda>_.
     bindE (poke (padd (b, n) 72) (le64 (sf_seq r))) (\<lambda>_.
     bindE (poke (padd (b, n) 80) (le64 (sf_free_blocks_count r))) (\<lambda>_.
     bindE (poke (padd (b, n) 104) (le64 (di_ctime di))) (\<lambda>_.
     bindE (peek (b, n) NILFS_SB_BYTES) (\<lambda>v.
       poke (padd (b, n) 16) (le32 (crc32_le (di_crc_seed di) v)))))))) s"
      by (simp add: commit_super_block_def deref_def)
  qed
qed

end

text \<open>The superblock as a whole: the stores into 1024 zeros, and the checksum.\<close>

definition sb_image :: "(nat \<times> bytes) list \<Rightarrow> bytes" where
  "sb_image ps = stores 0 ps (\<lambda>_. replicate 1024 0) 0"

definition mkfs_sb :: "mkfs_opts \<Rightarrow> nilfs_disk_info \<Rightarrow> nilfs_segment_ref \<Rightarrow> bytes \<Rightarrow> bytes" where
  "mkfs_sb opts di segref uuid =
     (let sb = sb_image (tl (super_block_fields opts di uuid) @ commit_fields di segref)
      in put_at 16 (le32 (crc32_le (di_crc_seed di) (take NILFS_SB_BYTES sb))) sb)"

lemma take_drop_shifted:
  assumes "off + length v \<le> 1024" "n + 1024 \<le> length x"
  shows "take 1024 (drop n (put_at (n + off) v x)) = put_at off v (take 1024 (drop n x))"
proof (rule nth_equalityI)
  fix i assume "i < length (take 1024 (drop n (put_at (n + off) v x)))"
  then show "take 1024 (drop n (put_at (n + off) v x)) ! i = put_at off v (take 1024 (drop n x)) ! i"
    using assms by (simp add: nth_put_at)
qed (use assms in simp)

lemma take_drop_stores:
  assumes "\<forall>(off, v) \<in> set ps. off + length v \<le> 1024" "n + 1024 \<le> length (V b)" "take 1024 (drop n (V b)) = x"
  shows "take 1024 (drop n (stores b (shift n ps) V b)) = stores 0 ps (\<lambda>_. x) 0
     \<and> length (stores b (shift n ps) V b) = length (V b)"
  using assms
proof (induction ps arbitrary: V x rule: rev_induct)
  case Nil
  then show ?case by (simp add: shift_simps stores_simps)
next
  case (snoc p ps)
  obtain off v where p: "p = (off, v)" by (cases p)
  let ?W = "stores b (shift n ps) V"
  have IH: "take 1024 (drop n (?W b)) = stores 0 ps (\<lambda>_. x) 0" "length (?W b) = length (V b)"
    using snoc.IH [of V x] snoc.prems by auto
  have r: "off + length v \<le> 1024" using snoc.prems(1) p by simp
  have "take 1024 (drop n (store (b, n + off) v ?W b)) = put_at off v (stores 0 ps (\<lambda>_. x) 0)"
    using take_drop_shifted [OF r, of n "?W b"] IH snoc.prems(2) by (simp add: store_def)
  then show ?case using IH(2) r snoc.prems(2) by (simp add: p shift_simps stores_snoc) (simp add: store_def)
qed

lemma stores_block: "V b = V' b \<Longrightarrow> stores b ps V b = stores b ps V' b"
proof (induction ps arbitrary: V V')
  case (Cons p ps)
  obtain off v where p: "p = (off, v)" by (cases p)
  have "store (b, off) v V b = store (b, off) v V' b" using Cons.prems by (simp add: store_def)
  from Cons.IH [where V = "store (b, off) v V" and V' = "store (b, off) v V'", OF this] show ?case by (simp add: p stores_simps)
qed (simp add: stores_simps)

lemma mkfs_sb_stores:
  assumes u: "length uuid = 16" "length (o_volume_label opts) = 80" and l: "n + 1024 \<le> length (V b)"
    and W: "W = stores b (shift n (commit_fields di r)) V'" and V': "V' b = stores b (shift n (super_block_fields opts di uuid)) V b"
  shows "take 1024 (drop n (store (b, n + 16) (le32 (crc32_le (di_crc_seed di) (take NILFS_SB_BYTES (drop n (W b))))) W b)) = mkfs_sb opts di r uuid"
proof -
  let ?ps = "tl (super_block_fields opts di uuid)" and ?z = "replicate 1024 0 :: bytes"
  note fit = fields_fit(3) [OF u, of di di r]
  let ?V0 = "store (b, n) ?z V"
  have s: "stores b (shift n (super_block_fields opts di uuid)) V = stores b (shift n ?ps) ?V0"
    by (subst fields_fit(4) [OF u]) (simp add: shift_simps stores_simps)
  have V0: "n + 1024 \<le> length (?V0 b)" "take 1024 (drop n (?V0 b)) = ?z"
    using l take_drop_put_at_same [of n ?z "V b"] by (simp_all add: store_def)
  have "W b = stores b (shift n (?ps @ commit_fields di r)) ?V0 b"
    unfolding W shift_simps stores_append
    by (rule stores_block) (simp only: V' s)
  then have w: "take 1024 (drop n (W b)) = sb_image (?ps @ commit_fields di r)" "length (W b) = length (?V0 b)"
    using take_drop_stores [where V = ?V0, OF fit V0] by (simp_all add: sb_image_def)
  have "take NILFS_SB_BYTES (drop n (W b)) = take NILFS_SB_BYTES (take 1024 (drop n (W b)))"
    by (simp add: NILFS_SB_BYTES_def min_def)
  then show ?thesis
    using take_drop_shifted [of 16 "le32 (crc32_le (di_crc_seed di) (take NILFS_SB_BYTES (drop n (W b))))" n "W b"] V0(1) w
    by (simp add: store_def mkfs_sb_def Let_def)
qed

lemma mkfs_sb_at:
  assumes u: "length uuid = 16" "length (o_volume_label opts) = 80"
    and m: "(off, v) \<in> set (tl (super_block_fields opts di uuid) @ commit_fields di r)" and off: "off + length v \<le> 16 \<or> 20 \<le> off"
  shows "take (length v) (drop off (mkfs_sb opts di r uuid)) = v"
proof -
  let ?ps = "tl (super_block_fields opts di uuid) @ commit_fields di r"
  have fit: "\<And>off v. (off, v) \<in> set ?ps \<Longrightarrow> off + length v \<le> 1024" using fields_fit(3) [OF u, of di di r] by fast
  have "(\<forall>(off, v) \<in> set ?ps. has (stores 0 ?ps (\<lambda>_. replicate 1024 0)) 0 off v) \<and> (\<forall>c. length (stores 0 ?ps (\<lambda>_. replicate 1024 0) c) = 1024)"
    using has_stores [OF fields_fit(2) [OF u], of di di r "\<lambda>_. replicate 1024 0" 0] fit by simp
  then have "take (length v) (drop off (sb_image ?ps)) = v" "length (sb_image ?ps) = 1024"
    using m by (auto simp: has_def sb_image_def)
  moreover define c where "c = le32 (crc32_le (di_crc_seed di) (take NILFS_SB_BYTES (sb_image ?ps)))"
  moreover have c: "length c = 4" "mkfs_sb opts di r uuid = put_at 16 c (sb_image ?ps)"
    unfolding mkfs_sb_def Let_def c_def by (rule length_le(2), rule refl)
  ultimately show ?thesis using off fit [OF m] unfolding c(2)
    by (elim disjE; subst take_drop_put_at_before take_drop_put_at_after) (simp_all only: c(1))
qed

lemma planned_members:
  "super_block_fields opts (planned bs di) uuid = super_block_fields opts di uuid"
  "commit_fields (di_raw bs di rs) r = commit_fields di r" "di_crc_seed (di_raw bs di rs) = di_crc_seed di"
  by (simp_all add: super_block_fields_def commit_fields_def di_raw_def planned_def)

context writer
begin

lemma wpd_init_nilfs:
  assumes "Q () M V (G\<lparr>mk_di := di, mk_current := 0,
        mk_segref := \<lparr>sf_seq = 0, sf_start_blocknr = 0, sf_free_blocks_count = 0, sf_cno = 0\<rparr>,
        mk_segsum := None, mk_checkpoint := None, mk_super_root := None,
        mk_files := replicate (unat NILFS_MAX_INITIAL_INO) None,
        mk_next := segment_start_blocknr di 1, mk_seq := 0, mk_cno := 1, mk_vblocknr := 1\<rparr>) D"
  shows "wpd (init_nilfs di) M V G D Q"
proof (rule wpd_lift, rule fm.wpv_update [rotated], rule assms)
  fix s assume s: "ghost s = G"
  show "\<exists>s'. init_nilfs di s = (Inr (), s') \<and> mk_buffer s' = mk_buffer s \<and> mk_w s' = mk_w s \<and> ghost s' = G\<lparr>mk_di := di, mk_current := 0,
        mk_segref := \<lparr>sf_seq = 0, sf_start_blocknr = 0, sf_free_blocks_count = 0, sf_cno = 0\<rparr>,
        mk_segsum := None, mk_checkpoint := None, mk_super_root := None,
        mk_files := replicate (unat NILFS_MAX_INITIAL_INO) None,
        mk_next := segment_start_blocknr di 1, mk_seq := 0, mk_cno := 1, mk_vblocknr := 1\<rparr>"
    unfolding s [symmetric] init_nilfs_def by (simp add: ghost_def)
qed

text \<open>From the planned layout to the committed log, with the superblock's block as it was.\<close>

lemma wpd_make_log:
  assumes g: "mk_di G = planned bs di" "mk_buffer_size G = last_block bs + 1" "mk_cno G = 1" "mk_seq G = 0"
      "mk_next G = di_blocks_per_segment di" "mk_vblocknr G = 1"
    and bps: "16 \<le> di_blocks_per_segment di"
    and z: "\<And>b. first_block bs \<le> b \<Longrightarrow> b \<le> last_block bs \<Longrightarrow> V b = replicate (unat bs) 0"
    and Q: "\<And>M' V' G'. M \<subseteq> M' \<Longrightarrow> keep (log_area bs) V V' \<Longrightarrow> committed bs di (di_crc_seed di) V'
      \<Longrightarrow> gok bs di fm.raw3 G' \<Longrightarrow> mk_raw_sb G' = mk_raw_sb G \<Longrightarrow> mk_segref G' = log_ref bs di \<Longrightarrow> Q () M' V' G'"
  shows "fm.wpv D (bindE (prepare_segment k bs 0) (\<lambda>_. bindE (nilfs_mkfs_make_rootdir k bs) (\<lambda>_.
      bindE (nilfs_mkfs_make_reserved_files k bs) (\<lambda>_. commit_segment k bs)))) M V G Q"
proof -
  let ?P = "bindE (init_segsum k bs) (\<lambda>_. bindE (init_super_root k bs) (\<lambda>_. bindE (prepare_dat k bs) (\<lambda>_.
      bindE (prepare_sufile k bs) (\<lambda>_. bindE (prepare_cpfile k bs) (\<lambda>_. prepare_ifile k bs)))))"
  let ?R = "\<lambda>_ :: unit. bindE (nilfs_mkfs_make_rootdir k bs) (\<lambda>_. nilfs_mkfs_make_reserved_files k bs)"
  let ?u = "\<lambda>s :: 'w mkfs. s\<lparr>mk_current := 0, mk_files := index_files (mi_files (cur_seg (s\<lparr>mk_current := 0\<rparr>)))\<rparr>"
  let ?G = "G\<lparr>mk_current := 0, mk_files := fidx\<rparr>"
  have g0: "gok bs di (\<lambda>_. None) ?G" using g by (simp add: gok_def fm.di_raw_none)
  have "fm.wpv D (bindE (bindE ?P ?R) (\<lambda>_. commit_segment k bs)) M V ?G Q"
  proof (rule fm.wpv_bind, rule fm.wpv_prepare_log [OF g0 _ z])
    fix M1 V1 G1
    assume m: "M \<subseteq> M1" "{first_block bs, bC bs, last_block bs} \<subseteq> M1" "\<forall>ino < 11. fst (inode_ptr bs ino) \<in> M1"
      and k1: "keep (log_area bs) V V1" and p: "prepared bs di V1" "grp bs V1 (bD bs) 1"
      and G1: "G1 = ?G\<lparr>mk_segsum := Some (first_block bs, 0), mk_super_root := Some (last_block bs, 0),
            mk_checkpoint := Some (bC bs, 192), mk_di := di_raw bs di fm.raw3\<rparr>"
    have g1: "gok bs di fm.raw3 G1" using g0 unfolding G1 by (simp add: gok_def)
    show "fm.wpv D (commit_segment k bs) M1 V1 G1 Q"
    proof (rule fm.wpv_commit_segment [OF g1 _ p(2,1)])
      fix M2 V2 assume m2: "M1 \<subseteq> M2" and k2: "keep (log_area bs) V1 V2" and c: "committed bs di (di_crc_seed di) V2"
      have "keep (log_area bs) V V2" using keep_trans [OF k1 k2] by simp
      then show "Q () M2 V2 (G1\<lparr>mk_vblocknr := of_nat (4 + nifile bs), mk_segref := log_ref bs di\<rparr>)"
        by (rule Q [OF order_trans [OF m(1) m2] _ c]) (use g1 in \<open>simp_all add: gok_def G1\<close>)
    qed (use m bps g(6) in \<open>simp_all add: G1\<close>)
  qed (use g(6) in simp_all)
  then show ?thesis
  proof (rule fm.wpv_step [where u = ?u, rotated 2])
    fix s assume s: "ghost s = G"
    show "bindE (prepare_segment k bs 0) (\<lambda>_. bindE (nilfs_mkfs_make_rootdir k bs) (\<lambda>_.
      bindE (nilfs_mkfs_make_reserved_files k bs) (\<lambda>_. commit_segment k bs))) s = bindE (bindE ?P ?R) (\<lambda>_. commit_segment k bs) (?u s)"
      by (simp add: bindE_def prepare_segment_def Let_def split: prod.splits sum.splits)
    have "cur_seg (s\<lparr>mk_current := 0\<rparr>) = planned_segment bs"
      using fm.ghost_fields(3) [OF s] g(1) by (simp add: cur_seg_def planned_def)
    then have "index_files (mi_files (cur_seg (s\<lparr>mk_current := 0\<rparr>))) = fidx" using index_planned by (simp add: planned_segment_def)
    then show "ghost (?u s) = ?G \<and> mk_buffer (?u s) = mk_buffer s \<and> mk_w (?u s) = mk_w s" unfolding s [symmetric] by (simp add: ghost_def)
  qed
qed

end

lemma bindE_seq: "bindE m (\<lambda>x. bindE (f x) g) = bindE (bindE m f) g"
  by (rule ext) (simp add: bindE_def split: prod.splits sum.splits)

text \<open>What the device holds when the program returns.\<close>

definition formatted :: "mkfs_opts \<Rightarrow> nilfs_disk_info \<Rightarrow> nilfs_segment_ref \<Rightarrow> bytes \<Rightarrow> bool" where
  "formatted opts di r D \<longleftrightarrow>
     (let bs = o_blocksize opts; n = nifile bs + 8 in
      \<exists>uuid V. length uuid = 16 \<and> (\<forall>c. length (V c) = unat bs) \<and> committed bs di (di_crc_seed di) V
        \<and> length D = unat (di_dev_size di)
        \<and> take (n * unat bs) (drop (unat (first_block bs * bs)) D) = log_image bs V n
        \<and> dev_sb D 1024 = mkfs_sb opts di r uuid
        \<and> dev_sb D (unat (NILFS_SB2_OFFSET_BYTES (di_dev_size di))) = mkfs_sb opts di r uuid)"

context writer
begin

lemma wpd_finish:
  assumes o: "o_blocksize opts = bs" "\<not> o_nflag opts" "length (o_volume_label opts) = 80"
    and big: "2 ^ 20 + 1024 \<le> unat dsz" "unat dsz < 2 ^ 63" and di: "di_dev_size di = dsz"
    and g: "gok bs di fm.raw3 G" "mk_raw_sb G = Some (sb_ptr bs)" "mk_segref G = log_ref bs di"
    and M: "0 \<in> M" "fst (sb_ptr bs) \<in> M" and u: "length uuid = 16" and D: "length D = unat dsz"
    and V: "V (fst (sb_ptr bs)) = stores (fst (sb_ptr bs)) (shift (snd (sb_ptr bs)) (super_block_fields opts di uuid)) VZ (fst (sb_ptr bs))"
      "length (VZ (fst (sb_ptr bs))) = unat bs"
    and c: "committed bs di (di_crc_seed di) V"
    and Q: "\<And>M' V' G' D'. formatted opts di (log_ref bs di) D' \<Longrightarrow> Q () M' V' G' D'"
  shows "wpd (bindE (\<lambda>s. commit_super_block (mk_di s) (mk_segref s) s) (\<lambda>_. write_disk k e opts fd)) M V G D Q"
proof (rule wpd_len)
  assume l: "\<And>c. length (V c) = unat bs"
  obtain b n where bn: "sb_ptr bs = (b, n)" by (cases "sb_ptr bs")
  let ?r = "log_ref bs di" and ?di = "di_raw bs di fm.raw3"
  define W where "W = stores b (shift n (commit_fields di ?r)) V"
  define V1 where "V1 = store (b, n + 16) (le32 (crc32_le (di_crc_seed di) (take NILFS_SB_BYTES (drop n (W b))))) W"
  have n: "n + 1024 \<le> unat bs" "b < first_block bs" using sb_ptr_bounds [OF bsok] bn by simp_all
  have S: "take 1024 (drop n (V1 b)) = mkfs_sb opts di ?r uuid"
    unfolding V1_def by (rule mkfs_sb_stores [where V = VZ, OF u o(3) _ W_def]) (use V n bn in simp_all)
  have other: "V1 x = V x" if "x \<noteq> b" for x using that by (simp add: V1_def W_def store_def stores_other)
  have log: "V1 (first_block bs + of_nat i) = V (first_block bs + of_nat i)" if "i < nifile bs + 8" for i
  proof (rule other)
    have "i \<le> 12" using that nifile_cases [of bs] by auto
    from log_span(2) [OF bsok this] n(2) show "first_block bs + of_nat i \<noteq> b" by (auto simp: word_less_nat_alt)
  qed
  have im: "log_image bs V1 (nifile bs + 8) = log_image bs V (nifile bs + 8)"
    unfolding log_image_def using log by (intro arg_cong [where f = concat] map_cong) simp_all
  have cs: "fm.wpv D (commit_super_block ?di ?r) M V G (\<lambda>x M V G. V = V1 \<and> mk_raw_sb G = Some (b, n) \<and> gok bs di fm.raw3 G \<and> 0 \<in> M \<and> b \<in> M)"
    by (rule fm.wpv_conseq [where Q = "\<lambda>x M' V' G'. V' = V1 \<and> M' = M \<and> G' = G"], rule wpv_commit_super_block [where b = b and n = n])
      (use g(2) bn M n g(1) in \<open>simp_all add: Let_def planned_members V1_def W_def\<close>)
  show ?thesis
  proof (rule wpd_bind, rule wpd_cong)
    show "wpd (commit_super_block ?di ?r) M V G D (\<lambda>x M V G D. wpd (write_disk k e opts fd) M V G D Q)"
    proof (rule wpd_lift, rule fm.wpv_conseq [OF cs])
      fix x :: unit and M' V' and G' :: "'w mkfs" assume a: "V' = V1 \<and> mk_raw_sb G' = Some (b, n) \<and> gok bs di fm.raw3 G' \<and> 0 \<in> M' \<and> b \<in> M'"
      show "wpd (write_disk k e opts fd) M' V' G' D Q"
      proof (rule wpd_write_disk [OF o(1,2) big, where di = di and rs = fm.raw3 and sb = "(b, n)"])
        fix D' assume w: "written V' (take 1024 (drop (snd (b, n)) (V' (fst (b, n))))) D'"
        have "formatted opts di ?r D'"
          unfolding formatted_def Let_def o(1) di
          by (rule exI [of _ uuid], rule exI [of _ V]) (use w a S im u l c in \<open>simp add: written_def\<close>)
        then show "Q () M'' V' G'' D'" for M'' G'' by (rule Q)
      qed (use a di n D in simp_all)
    qed
    fix s assume s: "ghost s = G"
    have "mk_di s = ?di" "mk_segref s = ?r" using fm.ghost_fields [OF s] g by (simp_all add: gok_def)
    then show "commit_super_block (mk_di s) (mk_segref s) s = commit_super_block ?di ?r s" by simp
  qed
qed

end

context writer
begin

lemma wpd_format:
  assumes o: "o_blocksize opts = bs" "length (o_volume_label opts) = 80"
    and big: "65536 \<le> unat dsz" and bps: "16 \<le> di_blocks_per_segment di"
    and G: "mk_buffer_size G = last_block bs + 1" and D: "length D = unat dsz"
    and fin: "\<And>M V G uuid v. gok bs di fm.raw3 G \<Longrightarrow> mk_raw_sb G = Some (sb_ptr bs) \<Longrightarrow> mk_segref G = log_ref bs di \<Longrightarrow> 0 \<in> M
      \<Longrightarrow> fst (sb_ptr bs) \<in> M \<Longrightarrow> length uuid = 16 \<Longrightarrow> length v = unat bs
      \<Longrightarrow> V (fst (sb_ptr bs)) = stores (fst (sb_ptr bs)) (shift (snd (sb_ptr bs)) (super_block_fields opts di uuid))
            ((\<lambda>_. replicate (unat bs) 0)(0 := v)) (fst (sb_ptr bs))
      \<Longrightarrow> committed bs di (di_crc_seed di) V
      \<Longrightarrow> wpd (bindE (\<lambda>s. commit_super_block (mk_di s) (mk_segref s) s) (\<lambda>_. write_disk k e opts fd)) M V G D Q"
  shows "wpd (bindE (read_disk_header k e bs fd) (\<lambda>_.
     bindE (prepare_super_block k e opts (planned bs di)) (\<lambda>_.
     bindE (init_nilfs (planned bs di)) (\<lambda>_.
     bindE (bindE (prepare_segment k bs 0) (\<lambda>_. bindE (nilfs_mkfs_make_rootdir k bs) (\<lambda>_.
       bindE (nilfs_mkfs_make_reserved_files k bs) (\<lambda>_. commit_segment k bs)))) (\<lambda>_.
     bindE (\<lambda>s. commit_super_block (mk_di s) (mk_segref s) s) (\<lambda>_. write_disk k e opts fd))))))
     {} (\<lambda>_. replicate (unat bs) 0) G D Q"
proof -
  let ?Z = "\<lambda>_ :: u64. replicate (unat bs) (0 :: u8)" and ?b = "fst (sb_ptr bs)" and ?n = "snd (sb_ptr bs)"
  let ?fin = "bindE (\<lambda>s. commit_super_block (mk_di s) (mk_segref s) s) (\<lambda>_. write_disk k e opts fd)"
  note sp = sb_ptr_bounds(2,3) [OF bsok]
  have fG: "first_block bs < mk_buffer_size G" using fm.log_less [of "first_block bs"] G by simp
  have pos: "0 < mk_buffer_size G" using sp(2) fG by (rule order.strict_trans)
  have room: "unat bs \<le> unat dsz" using fm.bs_ge(2) big by simp
  show ?thesis
  proof (rule wpd_bind, rule wpd_read_disk_header [OF pos room])
    fix v :: bytes and p assume v: "length v = unat bs"
    let ?V0 = "?Z(0 := v)"
    have l0: "length (?V0 c) = unat bs" for c using v by simp
    show "wpd (bindE (prepare_super_block k e opts (planned bs di)) (\<lambda>_. bindE (init_nilfs (planned bs di)) (\<lambda>_.
       bindE (bindE (prepare_segment k bs 0) (\<lambda>_. bindE (nilfs_mkfs_make_rootdir k bs) (\<lambda>_.
       bindE (nilfs_mkfs_make_reserved_files k bs) (\<lambda>_. commit_segment k bs)))) (\<lambda>_. ?fin))))
       (insert 0 {}) ?V0 (G\<lparr>mk_pos := p\<rparr>) D Q"
    proof (rule wpd_bind, rule wpd_prepare_super_block [OF o])
      fix uuid :: bytes assume u: "length uuid = 16"
      let ?M = "insert ?b (insert 0 {})"
      define V1 where "V1 = stores ?b (shift ?n (super_block_fields opts di uuid)) ?V0"
      have z: "V1 b = replicate (unat bs) 0" if "first_block bs \<le> b" for b
      proof -
        have "b \<noteq> ?b" using sp(1) that by (meson leD)
        moreover have "b \<noteq> 0" using sp(2) that by (meson leD)
        ultimately show ?thesis by (simp add: V1_def stores_other)
      qed
      have out: "(?b, i) \<notin> log_area bs" for i using sp(1) by (auto simp: log_area_def)
      show "wpd (bindE (init_nilfs (planned bs di)) (\<lambda>_.
       bindE (bindE (prepare_segment k bs 0) (\<lambda>_. bindE (nilfs_mkfs_make_rootdir k bs) (\<lambda>_.
       bindE (nilfs_mkfs_make_reserved_files k bs) (\<lambda>_. commit_segment k bs)))) (\<lambda>_. ?fin)))
         ?M (stores ?b (shift ?n (super_block_fields opts (planned bs di) uuid)) ?V0) (G\<lparr>mk_pos := p, mk_raw_sb := Some (sb_ptr bs)\<rparr>) D Q"
        unfolding planned_members V1_def [symmetric]
      proof (rule wpd_bind, rule wpd_init_nilfs, rule wpd_bind, rule wpd_lift, rule wpd_make_log [OF _ _ _ _ _ _ bps z])
        fix M2 V2 and G2 :: "'w mkfs"
        assume m: "?M \<subseteq> M2" and k2: "keep (log_area bs) V1 V2" and c: "committed bs di (di_crc_seed di) V2"
          and g2: "gok bs di fm.raw3 G2" "mk_segref G2 = log_ref bs di"
          and r2: "mk_raw_sb G2 = mk_raw_sb (G\<lparr>mk_pos := p, mk_raw_sb := Some (sb_ptr bs), mk_di := planned bs di, mk_current := 0,
            mk_segref := \<lparr>sf_seq = 0, sf_start_blocknr = 0, sf_free_blocks_count = 0, sf_cno = 0\<rparr>,
            mk_segsum := None, mk_checkpoint := None, mk_super_root := None,
            mk_files := replicate (unat NILFS_MAX_INITIAL_INO) None,
            mk_next := segment_start_blocknr (planned bs di) 1, mk_seq := 0, mk_cno := 1, mk_vblocknr := 1\<rparr>)"
        have V2: "V2 ?b = V1 ?b" by (rule keep_block [OF k2 out])
        show "wpd ?fin M2 V2 G2 D Q"
          by (rule fin [OF g2(1) _ g2(2) _ _ u v _ c]) (use r2 m V2 V1_def in auto)
      qed (use G in \<open>simp_all add: segment_start_blocknr_def planned_def\<close>)
    qed (use fG in simp)
  qed
qed

lemma format_runs:
  assumes o: "o_blocksize opts = bs" "length (o_volume_label opts) = 80"
    and big: "65536 \<le> unat dsz" and bps: "16 \<le> di_blocks_per_segment di"
    and fin: "\<And>M V G uuid v. gok bs di fm.raw3 G \<Longrightarrow> mk_raw_sb G = Some (sb_ptr bs) \<Longrightarrow> mk_segref G = log_ref bs di \<Longrightarrow> 0 \<in> M
      \<Longrightarrow> fst (sb_ptr bs) \<in> M \<Longrightarrow> length uuid = 16 \<Longrightarrow> length v = unat bs
      \<Longrightarrow> V (fst (sb_ptr bs)) = stores (fst (sb_ptr bs)) (shift (snd (sb_ptr bs)) (super_block_fields opts di uuid))
            ((\<lambda>_. replicate (unat bs) 0)(0 := v)) (fst (sb_ptr bs))
      \<Longrightarrow> committed bs di (di_crc_seed di) V
      \<Longrightarrow> wpd (bindE (\<lambda>s. commit_super_block (mk_di s) (mk_segref s) s) (\<lambda>_. write_disk k e opts fd)) M V G (dev w) (\<lambda>_ _ _ _. P)"
  shows "\<exists>s'. make_filesystem k e opts fd (planned bs di) (mkfs_start w (planned bs di)) = (Inr (), s')
     \<and> P (dev (mk_w s'))"
proof -
  let ?s = "mkfs_start w (planned bs di)" and ?n = "di_nblocks_to_write (planned bs di)"
  obtain a w1 where w1: "k_malloc k (?n * 8) w = (Some a, w1)" "dev w1 = dev w" using device_malloc [OF laws] by blast
  let ?s1 = "?s\<lparr>mk_w := w1, mk_buffer := (\<lambda>_. None), mk_buffer_size := ?n\<rparr>"
  have i: "init_disk_buffer k ?n ?s = (Inr (), ?s1)" using w1(1) by (simp add: init_disk_buffer_def mkfs_start_def)
  have r: "fm.rep (dev w) {} (\<lambda>_. replicate (unat bs) 0) (ghost ?s1) ?s1"
    using w1(2) by (simp add: fm.rep_def content_def fun_eq_iff)
  have n: "mk_buffer_size (ghost ?s1) = last_block bs + 1"
    by (simp add: ghost_def planned_def last_block_def add.assoc)
  let ?m = "bindE (read_disk_header k e bs fd) (\<lambda>_.
     bindE (prepare_super_block k e opts (planned bs di)) (\<lambda>_.
     bindE (init_nilfs (planned bs di)) (\<lambda>_.
     bindE (bindE (prepare_segment k bs 0) (\<lambda>_. bindE (nilfs_mkfs_make_rootdir k bs) (\<lambda>_.
       bindE (nilfs_mkfs_make_reserved_files k bs) (\<lambda>_. commit_segment k bs)))) (\<lambda>_.
     bindE (\<lambda>s. commit_super_block (mk_di s) (mk_segref s) s) (\<lambda>_. write_disk k e opts fd)))))"
  have "wpd ?m {} (\<lambda>_. replicate (unat bs) 0) (ghost ?s1) (dev w) (\<lambda>_ _ _ _. P)"
    by (rule wpd_format [OF o big bps n device_length [OF laws] fin])
  from this r obtain x s' M' V' G' D' where s0: "?m ?s1 = (Inr x, s')" "fm.rep D' M' V' G' s'" "P D'"
    by (rule wpdE)
  have x: "x = ()" by (rule unit_eq)
  note s' = s0 [unfolded x]
  have "make_filesystem k e opts fd (planned bs di) ?s = ?m ?s1"
    unfolding make_filesystem_def o(1) bindE_step [where m = "init_disk_buffer k ?n", OF i] bindE_seq [symmetric] ..
  then have "make_filesystem k e opts fd (planned bs di) ?s = (Inr (), s')" using s'(1) by (rule trans)
  moreover have "P (dev (mk_w s'))" unfolding rep_ghost(2) [OF s'(2)] by (rule s'(3))
  ultimately show ?thesis by blast
qed

lemma format_device:
  assumes o: "o_blocksize opts = bs" "\<not> o_nflag opts" "length (o_volume_label opts) = 80"
    and big: "2 ^ 20 + 1024 \<le> unat dsz" "unat dsz < 2 ^ 63" and di: "di_dev_size di = dsz" and bps: "16 \<le> di_blocks_per_segment di"
  shows "\<exists>s'. make_filesystem k e opts fd (planned bs di) (mkfs_start w (planned bs di)) = (Inr (), s')
     \<and> formatted opts di (log_ref bs di) (dev (mk_w s'))"
proof (rule format_runs [OF o(1,3) _ bps])
  fix M V and G :: "'w mkfs" and uuid v
  assume a: "gok bs di fm.raw3 G" "mk_raw_sb G = Some (sb_ptr bs)" "mk_segref G = log_ref bs di" "0 \<in> M"
    "fst (sb_ptr bs) \<in> M" "length uuid = 16" "length v = unat bs"
    "V (fst (sb_ptr bs)) = stores (fst (sb_ptr bs)) (shift (snd (sb_ptr bs)) (super_block_fields opts di uuid))
            ((\<lambda>_. replicate (unat bs) 0)(0 := v)) (fst (sb_ptr bs))"
    "committed bs di (di_crc_seed di) V"
  show "wpd (bindE (\<lambda>s. commit_super_block (mk_di s) (mk_segref s) s) (\<lambda>_. write_disk k e opts fd)) M V G (dev w)
     (\<lambda>_ _ _ _. formatted opts di (log_ref bs di))"
    by (rule wpd_finish [OF o big di a(1-6) device_length [OF laws] a(8) _ a(9)]) (use a(7) in auto)
qed (use big(1) in simp)

text \<open>A dry run computes the same and leaves the device.\<close>

lemma format_dry:
  assumes o: "o_blocksize opts = bs" "o_nflag opts" "length (o_volume_label opts) = 80"
    and big: "65536 \<le> unat dsz" and bps: "16 \<le> di_blocks_per_segment di"
  shows "\<exists>s'. make_filesystem k e opts fd (planned bs di) (mkfs_start w (planned bs di)) = (Inr (), s') \<and> dev (mk_w s') = dev w"
proof (rule format_runs [OF o(1,3) big bps, where P = "\<lambda>D. D = dev w"])
  fix M V and G :: "'w mkfs"
  assume a: "gok bs di fm.raw3 G" "mk_raw_sb G = Some (sb_ptr bs)" "mk_segref G = log_ref bs di" "fst (sb_ptr bs) \<in> M"
  obtain b n where bn: "sb_ptr bs = (b, n)" by (cases "sb_ptr bs")
  have n: "n + 1024 \<le> unat bs" using sb_ptr_bounds(1) [OF bsok] bn by simp
  show "wpd (bindE (\<lambda>s. commit_super_block (mk_di s) (mk_segref s) s) (\<lambda>_. write_disk k e opts fd)) M V G (dev w) (\<lambda>_ _ _ _ D. D = dev w)"
    unfolding write_disk_def if_P [OF o(2)]
  proof (rule wpd_bind, rule wpd_cong)
    show "wpd (commit_super_block (di_raw bs di fm.raw3) (log_ref bs di)) M V G (dev w) (\<lambda>x M V G D. wpd (retE ()) M V G D (\<lambda>_ _ _ _ D. D = dev w))"
      by (rule wpd_lift, rule wpv_commit_super_block [where b = b and n = n]) (use a bn n in \<open>simp_all add: Let_def wpd_ret\<close>)
    fix s assume s: "ghost s = G"
    have "mk_di s = di_raw bs di fm.raw3" "mk_segref s = log_ref bs di" using fm.ghost_fields [OF s] a by (simp_all add: gok_def)
    then show "commit_super_block (mk_di s) (mk_segref s) s = commit_super_block (di_raw bs di fm.raw3) (log_ref bs di) s" by simp
  qed
qed

end

end
