(* ===== verification/Mkfs_Verified.thy ===== *)
theory Mkfs_Verified
  imports Mkfs_Device Nilfs_Api
begin

text \<open>
  mkfs from its options to the device, and what the library reads back. The properties
  compose \<open>parse_options\<close>, \<open>layout_segments\<close>, \<open>plan_segment\<close> and \<open>make_filesystem\<close> and then look
  at the device with the functions of \<open>Superblock\<close>, \<open>Nilfs_Api\<close> and \<open>Segment_Iter\<close>: the
  superblock is read back, the log is accepted by the collector's iterators.
\<close>

section \<open>Accepted options and layouts\<close>

definition opts_inv :: "mkfs_opts \<Rightarrow> bool" where
  "opts_inv opts \<longleftrightarrow> mkfs_bs (o_blocksize opts) \<and> length (o_volume_label opts) = 80"

lemma foldE_inv:
  assumes "\<And>x a s a' s'. I a \<Longrightarrow> f x a s = (Inr a', s') \<Longrightarrow> I a'"
  shows "I a \<Longrightarrow> foldE f xs a s = (Inr a', s') \<Longrightarrow> I a'"
proof (induction xs arbitrary: a s)
  case (Cons x xs)
  then obtain b t where "f x a s = (Inr b, t)" "foldE f xs b t = (Inr a', s')" by (auto simp: Nilfs_Env.bindE_Inr)
  with Cons assms show ?case by blast
qed simp

lemma parse_option_inv:
  assumes "opts_inv (pa_opts p)" "k_pagesize k \<le> 65536" "parse_option k e opt p w = (Inr p', w')"
  shows "opts_inv (pa_opts p')"
proof -
  have "length (strncpy 80 x) = 80" for x by (simp add: strncpy_def)
  moreover have "mkfs_bs b" if "check_blocksize (k_pagesize k) b s = (Inr x, s')" for b x and s s' :: 'a
    using check_blocksize_ok [OF that assms(2)] by simp
  ultimately show ?thesis
    using assms(1,3) unfolding parse_option_def Let_def
    by (auto simp: opts_inv_def Nilfs_Env.bindE_Inr split: if_splits)
qed

lemma blocks_per_segment_ok:
  assumes "check_blocks_per_segment b s = (Inr x, s')"
  shows "16 \<le> b" "unat b < 2 ^ 63" "\<exists>n < 63. b = 2 ^ n"
proof -
  have c: "16 \<le> sint b" "(b - 1) AND b = 0"
    using assms by (auto simp: check_blocks_per_segment_def NILFS_SEG_MIN_BLOCKS_mkfs_def split: if_splits)
  then obtain n where n: "n < 63" "b = 2 ^ n" "sint b = 2 ^ n" using power_of_two_word [of b] by auto
  have s: "sint b = int (unat b)" using c(1) by (intro sint_unat_pos) simp
  then have "int 16 \<le> int (unat b)" using c(1) by linarith
  then show "16 \<le> b" unfolding word_le_nat_alt of_nat_le_iff by simp
  have "(2 :: int) ^ n < 2 ^ 63" using n(1) by (intro power_strict_increasing) simp_all
  then have "int (unat b) < 2 ^ 63" using n(3) s by (simp only:)
  then show "unat b < 2 ^ 63" by (metis of_nat_less_iff of_nat_numeral of_nat_power)
  show "\<exists>n < 63. b = 2 ^ n" using n by blast
qed

text \<open>What accepted options satisfy.\<close>

lemma parse_options_facts:
  assumes "parse_options k e args operands w = (Inr opts, w')" "k_pagesize k \<le> 65536"
  shows "mkfs_bs (o_blocksize opts) \<and> length (o_volume_label opts) = 80
    \<and> 16 \<le> o_blocks_per_segment opts \<and> unat (o_blocks_per_segment opts) < 2 ^ 63 \<and> (\<exists>n < 63. o_blocks_per_segment opts = 2 ^ n)
    \<and> sint (o_r_segments_percentage opts) \<in> {1..99} \<and> operands \<noteq> []"
proof -
  let ?p0 = "\<lparr>pa_opts = default_opts, pa_version = False, pa_features = None\<rparr>"
  obtain p w1 where p: "foldE (parse_option k e) args ?p0 w = (Inr p, w1)"
    using assms(1) by (auto simp: parse_options_def Nilfs_Env.bindE_Inr)
  have "opts_inv (pa_opts ?p0)"
    by (simp add: opts_inv_def default_opts_def NILFS_DEF_BLOCKSIZE_def mkfs_bs_def)
  from foldE_inv [where I = "\<lambda>p. opts_inv (pa_opts p)", OF parse_option_inv [OF _ assms(2)] this p]
  have inv: "opts_inv (pa_opts p)" .
  let ?o = "if o_quiet (pa_opts p) then (pa_opts p)\<lparr>o_verbose := 0\<rparr> else pa_opts p"
  have o: "o_blocksize ?o = o_blocksize (pa_opts p)" "o_volume_label ?o = o_volume_label (pa_opts p)" by simp_all
  obtain x w2 y w3 where c: "check_blocks_per_segment (o_blocks_per_segment ?o) w1 = (Inr x, w2)"
      "check_reserved_segments_percentage (o_r_segments_percentage ?o) w2 = (Inr y, w3)" "operands \<noteq> []"
    and r: "(case pa_features p of None \<Rightarrow> retE ?o | Some str \<Rightarrow> (\<lambda>w. case k_malloc k (of_nat (length str + 1)) w of (m, w) \<Rightarrow>
          bindE (nilfs_mkfs_edit_feature (m \<noteq> None) str (o_compat_array ?o)) (\<lambda>a. retE (?o\<lparr>o_compat_array := a\<rparr>)) w)) w3 = (Inr opts, w')"
    using assms(1) p unfolding parse_options_def Let_def by (fastforce simp: Nilfs_Env.bindE_Inr split: if_splits)
  have e: "o_blocksize opts = o_blocksize (pa_opts p)" "o_volume_label opts = o_volume_label (pa_opts p)"
    "o_blocks_per_segment opts = o_blocks_per_segment ?o" "o_r_segments_percentage opts = o_r_segments_percentage ?o"
    using r by (auto simp: Nilfs_Env.bindE_Inr split: option.splits prod.splits)
  have "sint (o_r_segments_percentage opts) \<in> {1..99}" using c(2) e(4)
    by (simp add: check_reserved_segments_percentage_def split: if_splits)
  then show ?thesis using inv blocks_per_segment_ok [OF c(1)] c(3) unfolding e opts_inv_def by blast
qed

lemma log2_at:
  "my_log2 1024 = 10" "my_log2 2048 = 11" "my_log2 4096 = 12" "my_log2 8192 = 13" "my_log2 16384 = 14" "my_log2 32768 = 15" "my_log2 65536 = 16"
  by (simp_all add: my_log2.simps)

lemma layout_eq:
  assumes "mkfs_bs (o_blocksize opts)" "layout_segments opts t dsz s = (Inr di, s')"
  shows "di_dev_size di = dsz" "di_first_segment_block di = first_block (o_blocksize opts)" "di_seginfo di = []"
    "di_blocks_per_segment di = o_blocks_per_segment opts" "unat (di_blkbits di) \<in> {10..16}"
    "unat (o_blocksize opts) = 2 ^ unat (di_blkbits di)"
    "di_nsegments di = drop_bit (unat (di_blkbits di)) (NILFS_SB2_OFFSET_BYTES dsz) div o_blocks_per_segment opts"
    "di_nsegments di \<noteq> 0"
proof -
  let ?b = "my_log2 (sint (o_blocksize opts))"
  have di: "di = \<lparr>di_dev_size = dsz, di_blkbits = of_nat ?b,
                di_ctime = (if o_creation_time opts \<noteq> 0 then o_creation_time opts else t),
                di_crc_seed = srand48_mrand48 t, di_blocks_per_segment = o_blocks_per_segment opts,
                di_nsegments = drop_bit ?b (NILFS_SB2_OFFSET_BYTES dsz) div o_blocks_per_segment opts,
                di_first_segment_block = DIV_ROUND_UP NILFS_DISKHDR_SIZE (o_blocksize opts), di_nblocks_to_write = 0, di_nblocks_used = 0,
                di_nsegments_to_write = 0, di_seginfo = []\<rparr>"
    using assms(2) by (auto simp: layout_segments_def Let_def split: if_splits)
  have b: "?b \<in> {10..16}" "unat (o_blocksize opts) = 2 ^ ?b"
    using assms(1) unfolding mkfs_bs_def by (auto simp: log2_at)
  then have u: "unat (of_nat ?b :: u32) = ?b" by (simp add: unat_of_nat)
  show "di_first_segment_block di = first_block (o_blocksize opts)"
    using assms(1) unfolding mkfs_bs_def by (auto simp: di DIV_ROUND_UP_def NILFS_DISKHDR_SIZE_def first_block_def)
  show "di_dev_size di = dsz" "di_seginfo di = []" "di_blocks_per_segment di = o_blocks_per_segment opts" "unat (di_blkbits di) \<in> {10..16}"
    "unat (o_blocksize opts) = 2 ^ unat (di_blkbits di)"
    "di_nsegments di = drop_bit (unat (di_blkbits di)) (NILFS_SB2_OFFSET_BYTES dsz) div o_blocks_per_segment opts"
    using b u by (simp_all add: di)
  have m: "\<not> di_nsegments di < nilfs_min_nsegments di (o_r_segments_percentage opts)"
    using assms(2) by (auto simp: layout_segments_def Let_def split: if_splits)
  show "di_nsegments di \<noteq> 0"
  proof
    assume "di_nsegments di = 0"
    then show False using m by (simp add: nilfs_min_nsegments_def mkfs_consts nr_initial_segments_def word_less_nat_alt)
  qed
qed

section \<open>The superblock\<close>

lemma mkfs_sb_length:
  assumes "length uuid = 16" "length (o_volume_label opts) = 80"
  shows "length (mkfs_sb opts di r uuid) = 1024"
proof -
  have "length (sb_image (tl (super_block_fields opts di uuid) @ commit_fields di r)) = 1024"
    using has_stores [OF fields_fit(2) [OF assms], of di di r "\<lambda>_. replicate 1024 0" 0] fields_fit(3) [OF assms, of di di r]
    by (fastforce simp: sb_image_def)
  then show ?thesis by (simp add: mkfs_sb_def Let_def)
qed

lemma rd_at: "take (length v) (drop off x) = v \<Longrightarrow> n = length v \<Longrightarrow> rd n x off = le_nat v"
  by (simp add: rd_def)

lemma mkfs_sb_fields:
  assumes u: "length uuid = 16" "length (o_volume_label opts) = 80"
    and sb: "sb = mkfs_sb opts di r uuid"
  shows "s_rev_level sb = NILFS_CURRENT_REV" "s_magic sb = NILFS_SUPER_MAGIC" "s_bytes sb = 280" "s_crc_seed sb = di_crc_seed di"
    "s_log_block_size sb = di_blkbits di - 10" "s_nsegments sb = di_nsegments di" "s_dev_size sb = di_dev_size di"
    "s_first_data_block sb = di_first_segment_block di" "s_blocks_per_segment sb = ucast (di_blocks_per_segment di)"
    "s_r_segments_percentage sb = ucast (o_r_segments_percentage opts)"
    "le64_at sb 56 = sf_cno r" "le64_at sb 64 = sf_start_blocknr r" "le64_at sb 72 = sf_seq r" "le64_at sb 80 = sf_free_blocks_count r"
    "s_feature_compat sb = o_compat_array opts ! NILFS_FEATURE_TYPE_COMPAT"
    "s_feature_compat_ro sb = o_compat_array opts ! NILFS_FEATURE_TYPE_COMPAT_RO"
    "s_feature_incompat sb = o_compat_array opts ! NILFS_FEATURE_TYPE_INCOMPAT"
    "take 80 (drop 168 sb) = o_volume_label opts"
proof -
  note at = mkfs_sb_at [OF u, of _ _ di r, folded sb]
  have 4: "le32_at sb off = x" if "(off, le32 x) \<in> set (tl (super_block_fields opts di uuid) @ commit_fields di r)" "off + 4 \<le> 16 \<or> 20 \<le> off" for off x
    unfolding le32_at_def by (subst rd_at [OF at [OF that(1)]]) (use that(2) in simp_all)
  have 8: "le64_at sb off = x" if "(off, le64 x) \<in> set (tl (super_block_fields opts di uuid) @ commit_fields di r)" "off + 8 \<le> 16 \<or> 20 \<le> off" for off x
    unfolding le64_at_def by (subst rd_at [OF at [OF that(1)]]) (use that(2) in simp_all)
  have 2: "le16_at sb off = x" if "(off, le16 x) \<in> set (tl (super_block_fields opts di uuid) @ commit_fields di r)" "off + 2 \<le> 16 \<or> 20 \<le> off" for off x
    unfolding le16_at_def by (subst rd_at [OF at [OF that(1)]]) (use that(2) in simp_all)
  note m = super_block_fields_def commit_fields_def
  show "s_magic sb = NILFS_SUPER_MAGIC" unfolding s_magic_def by (rule 2) (simp_all add: m)
  show "s_bytes sb = 280" unfolding s_bytes_def by (rule 2) (simp_all add: m NILFS_SB_BYTES_def)
  show "s_rev_level sb = NILFS_CURRENT_REV" unfolding s_rev_level_def by (rule 4) (simp_all add: m)
  show "s_crc_seed sb = di_crc_seed di" unfolding s_crc_seed_def by (rule 4) (simp_all add: m)
  show "s_log_block_size sb = di_blkbits di - 10" unfolding s_log_block_size_def by (rule 4) (simp_all add: m)
  show "s_nsegments sb = di_nsegments di" unfolding s_nsegments_def by (rule 8) (simp_all add: m)
  show "s_dev_size sb = di_dev_size di" unfolding s_dev_size_def by (rule 8) (simp_all add: m)
  show "s_first_data_block sb = di_first_segment_block di" unfolding s_first_data_block_def by (rule 8) (simp_all add: m)
  show "s_blocks_per_segment sb = ucast (di_blocks_per_segment di)" unfolding s_blocks_per_segment_def by (rule 4) (simp_all add: m)
  show "s_r_segments_percentage sb = ucast (o_r_segments_percentage opts)" unfolding s_r_segments_percentage_def by (rule 4) (simp_all add: m)
  show "le64_at sb 56 = sf_cno r" "le64_at sb 64 = sf_start_blocknr r" "le64_at sb 72 = sf_seq r" "le64_at sb 80 = sf_free_blocks_count r"
    by (rule 8, simp_all add: m)+
  show "s_feature_compat sb = o_compat_array opts ! NILFS_FEATURE_TYPE_COMPAT" unfolding s_feature_compat_def by (rule 8) (simp_all add: m)
  show "s_feature_compat_ro sb = o_compat_array opts ! NILFS_FEATURE_TYPE_COMPAT_RO" unfolding s_feature_compat_ro_def by (rule 8) (simp_all add: m)
  show "s_feature_incompat sb = o_compat_array opts ! NILFS_FEATURE_TYPE_INCOMPAT" unfolding s_feature_incompat_def by (rule 8) (simp_all add: m)
  show "take 80 (drop 168 sb) = o_volume_label opts" using at [of 168 "o_volume_label opts"] u(2) by (simp add: m)
qed

lemma mkfs_sb_valid:
  assumes u: "length uuid = 16" "length (o_volume_label opts) = 80" and sb: "sb = mkfs_sb opts di r uuid"
  shows "nilfs_sb_is_valid sb c"
proof -
  note f = mkfs_sb_fields [OF u sb]
  let ?ps = "tl (super_block_fields opts di uuid) @ commit_fields di r"
  define img where "img = sb_image ?ps"
  have h: "\<forall>(off, v) \<in> set ?ps. has (stores 0 ?ps (\<lambda>_. replicate 1024 0)) 0 off v" "\<forall>c. length (stores 0 ?ps (\<lambda>_. replicate 1024 0) c) = 1024"
    using has_stores [OF fields_fit(2) [OF u], of di di r "\<lambda>_. replicate 1024 0" 0] fields_fit(3) [OF u, of di di r] by fastforce+
  have z: "(16, le32 0) \<in> set ?ps" by (simp add: super_block_fields_def)
  have l: "length img = 1024" using h(2) by (simp add: img_def sb_image_def)
  have "has (stores 0 ?ps (\<lambda>_. replicate 1024 0)) 0 16 (le32 0)" using bspec [OF h(1) z] by simp
  then have "take 4 (drop 16 img) = to_le 4 0" by (simp add: has_def img_def sb_image_def le32_def)
  then have id: "put_at 16 (to_le 4 0) img = img" using l put_at_id [of 16 4 img] by simp
  define crc where "crc = crc32_le (di_crc_seed di) (take 280 img)"
  have sb': "sb = put_at 16 (le32 crc) img" unfolding sb mkfs_sb_def Let_def img_def crc_def NILFS_SB_BYTES_def ..
  have "put_at 16 (to_le 4 0) sb = img" using l id unfolding sb' by (subst put_at_put_at) simp_all
  then have "nilfs_sb_check_sum sb = crc" unfolding nilfs_sb_check_sum_def f crc_def by simp
  moreover have "s_sum sb = crc" using l unfolding sb' s_sum_def le32_at_def by (subst rd_put_at_same) simp_all
  ultimately show ?thesis unfolding nilfs_sb_is_valid_def f by (simp add: NILFS_MAX_SB_SIZE_def)
qed

lemma mkfs_sb_offset:
  assumes o: "mkfs_bs (o_blocksize opts)" "layout_segments opts t dsz s = (Inr di, s')" "o_blocks_per_segment opts < 2 ^ 32"
    and u: "length uuid = 16" "length (o_volume_label opts) = 80" and sb: "sb = mkfs_sb opts di r uuid" and big: "2 ^ 20 + 1024 \<le> unat dsz"
  shows "\<not> nilfs_sb2_offset_is_too_small sb (NILFS_SB2_OFFSET_BYTES dsz)"
    "unat (s_blocks_per_segment sb) = unat (o_blocks_per_segment opts)"
    "unat (o_blocksize opts) = 2 ^ (10 + unat (s_log_block_size sb))"
    "unat (o_blocks_per_segment opts) * 2 ^ unat (di_blkbits di) \<le> unat dsz"
proof -
  note f = mkfs_sb_fields [OF u sb] and e = layout_eq [OF o(1,2)]
  let ?q = "NILFS_SB2_OFFSET_BYTES dsz" and ?b = "unat (di_blkbits di)" and ?n = "o_blocks_per_segment opts"
  have n: "unat ?n < 2 ^ 32" using o(3) by (simp add: word_less_nat_alt)
  show bps: "unat (s_blocks_per_segment sb) = unat ?n" unfolding f e(4) using n by (simp add: unsigned_ucast_eq take_bit_eq_mod)
  have b: "unat (s_log_block_size sb + 10) = ?b" unfolding f by simp
  have "(10 :: u32) \<le> di_blkbits di" using e(5) by (simp add: word_le_nat_alt)
  then have "unat (s_log_block_size sb) = ?b - 10" unfolding f by (simp add: unat_sub)
  then show "unat (o_blocksize opts) = 2 ^ (10 + unat (s_log_block_size sb))" using e(5,6) by simp
  have "unat (di_nsegments di) = unat ?q div 2 ^ ?b div unat ?n" using e(7) unat_drop_bit_div [of ?b ?q] by (simp add: unat_div)
  then have "unat (di_nsegments di) * unat ?n \<le> unat ?q div 2 ^ ?b" by simp
  then have m: "unat (di_nsegments di) * unat ?n * 2 ^ ?b \<le> unat ?q" using e(5) by (simp add: less_eq_div_iff_mult_less_eq)
  have "1 * (unat ?n * 2 ^ ?b) \<le> unat (di_nsegments di) * (unat ?n * 2 ^ ?b)"
    using e(8) by (intro mult_right_mono) (simp_all add: Suc_le_eq unat_gt_0)
  moreover have "unat ?q \<le> unat dsz" using sb2_offset(3) [OF big] by simp
  ultimately show "unat ?n * 2 ^ ?b \<le> unat dsz" using m unfolding mult.assoc by linarith
  have uc: "unat (ucast (s_blocks_per_segment sb) :: u64) = unat ?n" using bps n by (simp add: unsigned_ucast_eq take_bit_eq_mod)
  have le: "unat (di_nsegments di) * unat ?n \<le> unat (di_nsegments di) * unat ?n * 2 ^ ?b" by simp
  have p: "unat (di_nsegments di * ucast (s_blocks_per_segment sb)) = unat (di_nsegments di) * unat ?n"
    using order.strict_trans1 [OF order_trans [OF le m] unat_lt_u64] unfolding unat_word_ariths uc by simp
  have "unat (push_bit ?b (di_nsegments di * ucast (s_blocks_per_segment sb))) = unat (di_nsegments di) * unat ?n * 2 ^ ?b mod 2 ^ 64"
    by (simp only: unsigned_push_bit_eq p) (simp add: take_bit_eq_mod push_bit_eq_mult)
  also have "\<dots> = unat (di_nsegments di) * unat ?n * 2 ^ ?b" using m unat_lt_u64 [of ?q] by simp
  finally have "unat (push_bit ?b (di_nsegments di * ucast (s_blocks_per_segment sb))) \<le> unat ?q" using m by simp
  then show "\<not> nilfs_sb2_offset_is_too_small sb ?q"
    unfolding nilfs_sb2_offset_is_too_small_def b f(6) by (simp add: word_less_nat_alt)
qed

section \<open>The program from its options to the device\<close>

lemma mkfs_layout_planned:
  assumes p: "parse_options k e args operands w0 = (Inr opts, w1)" "k_pagesize k \<le> 65536"
    and l: "layout_segments opts t dsz w1 = (Inr di, w2)"
  shows "plan_segment (o_blocksize opts) di w = (Inr (planned (o_blocksize opts) di), w)" "16 \<le> di_blocks_per_segment di"
proof -
  note s = parse_options_facts [OF p]
  have b: "mkfs_bs (o_blocksize opts)" "16 \<le> o_blocks_per_segment opts" "unat (o_blocks_per_segment opts) < 2 ^ 63" using s by simp_all
  note e = layout_eq [OF b(1) l]
  show "plan_segment (o_blocksize opts) di w = (Inr (planned (o_blocksize opts) di), w)"
    by (rule plan_segment_eq [OF b(1) e(2,3)]) (use b e(4) in simp_all)
  show "16 \<le> di_blocks_per_segment di" using b(2) e(4) by simp
qed

lemma mkfs_formats:
  assumes dl: "device_laws k fd dev dsz" and ml: "mkfs_laws e fd dev"
    and p: "parse_options k e args operands w0 = (Inr opts, w1)" "k_pagesize k \<le> 65536" "\<not> o_nflag opts"
    and l: "layout_segments opts t dsz w1 = (Inr di, w2)"
    and big: "2 ^ 20 + 1024 \<le> unat dsz" "unat dsz < 2 ^ 63"
  shows "\<exists>s'. make_filesystem k e opts fd (planned (o_blocksize opts) di) (mkfs_start w2 (planned (o_blocksize opts) di)) = (Inr (), s')
    \<and> formatted opts di (log_ref (o_blocksize opts) di) (dev (mk_w s'))"
proof -
  have bs: "mkfs_bs (o_blocksize opts)" "length (o_volume_label opts) = 80" using parse_options_facts [OF p(1,2)] by simp_all
  have w: "writer k (o_blocksize opts) dev e fd dsz" using bs(1) dl ml by (rule writer.intro)
  show ?thesis
    by (rule writer.format_device [OF w refl p(3) bs(2) big layout_eq(1) [OF bs(1) l] mkfs_layout_planned(2) [OF p(1,2) l]])
qed

text \<open>C6. A file system that mkfs makes can be read back by the library: with options that
  \<open>parse_options\<close> accepted and a layout that \<open>layout_segments\<close> accepted, on a device that holds
  the area mkfs erases, the whole formatting succeeds, both superblock copies on the device are
  the same and carry a valid checksum, and \<open>nilfs_sb_read\<close> returns the geometry, the features
  and the label that were asked for, with checkpoint 1 and the first log as the latest.\<close>

theorem mkfs_then_read:
  assumes dl: "device_laws k fd dev dsz" and ml: "mkfs_laws e fd dev"
    and p: "parse_options k e args operands w0 = (Inr opts, w1)" "k_pagesize k \<le> 65536" "\<not> o_nflag opts"
    and l: "layout_segments opts t dsz w1 = (Inr di, w2)" "o_blocks_per_segment opts < 2 ^ 32"
    and big: "2 ^ 20 + 1024 \<le> unat dsz" "unat dsz < 2 ^ 63"
  shows "\<exists>di' s' sb w'. plan_segment (o_blocksize opts) di w2 = (Inr di', w2)
    \<and> make_filesystem k e opts fd di' (mkfs_start w2 di') = (Inr (), s')
    \<and> dev_copies (dev (mk_w s')) (NILFS_SB2_OFFSET_BYTES dsz) = (Some sb, Some sb)
    \<and> nilfs_sb_is_valid sb True \<and> nilfs_sb_read k fd (mk_w s') = (Inr sb, w')
    \<and> s_dev_size sb = dsz \<and> s_nsegments sb = di_nsegments di
    \<and> unat (s_blocks_per_segment sb) = unat (o_blocks_per_segment opts)
    \<and> unat (o_blocksize opts) = 2 ^ (10 + unat (s_log_block_size sb))
    \<and> s_first_data_block sb * o_blocksize opts \<ge> NILFS_DISKHDR_SIZE
    \<and> le64_at sb 64 = s_first_data_block sb \<and> le64_at sb 56 = 1
    \<and> [s_feature_compat sb, s_feature_compat_ro sb, s_feature_incompat sb] = 
         map ((!) (o_compat_array opts)) [NILFS_FEATURE_TYPE_COMPAT, NILFS_FEATURE_TYPE_COMPAT_RO, NILFS_FEATURE_TYPE_INCOMPAT]
    \<and> take 80 (drop 168 sb) = o_volume_label opts"
proof -
  note s = parse_options_facts [OF p(1,2)]
  have bs: "mkfs_bs (o_blocksize opts)" "length (o_volume_label opts) = 80" using s by simp_all
  note pl = mkfs_layout_planned [OF p(1,2) l(1)] and e = layout_eq [OF bs(1) l(1)]
  let ?bs = "o_blocksize opts" and ?q = "NILFS_SB2_OFFSET_BYTES dsz"
  let ?di = "planned ?bs di"
  obtain s' where s': "make_filesystem k e opts fd ?di (mkfs_start w2 ?di) = (Inr (), s')"
    and f: "formatted opts di (log_ref ?bs di) (dev (mk_w s'))"
    using mkfs_formats [OF dl ml p l(1) big] by blast
  obtain uuid where u: "length uuid = 16" and c: "dev_sb (dev (mk_w s')) 1024 = mkfs_sb opts di (log_ref ?bs di) uuid"
      "dev_sb (dev (mk_w s')) (unat ?q) = mkfs_sb opts di (log_ref ?bs di) uuid"
    using f unfolding formatted_def Let_def e(1) by blast
  define sb where sb: "sb = mkfs_sb opts di (log_ref ?bs di) uuid"
  note fs = mkfs_sb_fields [OF u bs(2) sb] and off = mkfs_sb_offset [OF bs(1) l u bs(2) sb big(1)] and v = mkfs_sb_valid [OF u bs(2) sb]
  have dc: "dev_copies (dev (mk_w s')) ?q = (Some sb, Some sb)"
    using v off(1) by (simp add: dev_copies_def c sb [symmetric])
  have "8192 \<le> unat dsz" using big(1) by simp
  from read2_device [OF dl this, of "mk_w s'"] dc obtain w' where "nilfs_sb_read2 k fd (mk_w s') = (Inr ((Some sb, Some sb), 1024, ?q), w')"
    by auto
  then have r: "nilfs_sb_read k fd (mk_w s') = (Inr sb, w')" by (simp add: nilfs_sb_read_def)
  have first: "NILFS_DISKHDR_SIZE \<le> first_block ?bs * ?bs"
    using log_base(1) [OF bs(1)] by (simp add: NILFS_DISKHDR_SIZE_def word_le_nat_alt)
  show ?thesis
    by (intro exI [of _ ?di] exI [of _ s'] exI [of _ sb] exI [of _ w'] conjI)
      (use pl(1) s' dc v r off(2,3) fs e first in \<open>simp_all add: log_ref_def\<close>)
qed

lemma rd_take: "off + n \<le> j \<Longrightarrow> rd n (take j m) off = rd n m off"
  by (simp add: rd_def drop_take)

text \<open>What the summary of the log says, read from the memory of a segment.\<close>

definition log_finfo :: "bytes \<Rightarrow> nat \<Rightarrow> u64 \<Rightarrow> u32 \<Rightarrow> bool" where
  "log_finfo m off ino n \<longleftrightarrow> fi_ino m off = ino \<and> fi_nblocks m off = n \<and> fi_ndatablk m off = n"

definition log_summary :: "bytes \<Rightarrow> nat \<Rightarrow> bool" where
  "log_summary m n \<longleftrightarrow> ss_magic m 0 = NILFS_SEGSUM_MAGIC \<and> ss_bytes m 0 = 64 \<and> ss_nblocks m 0 = of_nat (n + 8)
     \<and> ss_nfinfo m 0 = 5 \<and> ss_sumbytes m 0 = of_nat (256 + 16 * n)
     \<and> log_finfo m 64 2 1 \<and> log_finfo m 104 6 (of_nat n) \<and> log_finfo m (128 + 16 * n) 4 1
     \<and> log_finfo m (168 + 16 * n) 5 1 \<and> log_finfo m (208 + 16 * n) 3 3"

text \<open>The positions of the file iterator over the log: offset, first block, length of the entry.\<close>

definition log_positions :: "nat \<Rightarrow> (nat \<times> nat \<times> nat) list" where
  "log_positions n = [(64, 1, 40), (104, 2, 24 + 16 * n), (128 + 16 * n, 2 + n, 40), (168 + 16 * n, 3 + n, 40), (208 + 16 * n, 4 + n, 48)]"

definition log_file :: "nilfs_psegment \<Rightarrow> nat \<Rightarrow> nat \<Rightarrow> nilfs_file" where
  "log_file p n j = (case log_positions n ! j of (off, bn, len) \<Rightarrow>
     \<lparr>fl_psegment = p, fl_finfo = off, fl_blocknr = ps_blocknr p + of_nat bn, fl_offset = of_nat off, fl_index = of_nat j,
      fl_nfinfo = 5, fl_sumbytes = of_nat (256 + 16 * n), fl_sumlen = of_nat len, fl_error = NILFS_FILE_SUCCESS,
      fl_use_real_blocknr = (j = 4)\<rparr>)"

lemmas file_ops = ps_mem_def ps_blksize_def Let_def log_summary_def log_finfo_def fl_mem_def log_file_def log_positions_def
  nilfs_file_adjust_finfo_position_def nilfs_file_init_from_finfo_def sizeof_finfo_def nilfs_finfo_use_real_blocknr_def
  NILFS_DAT_INO_def nilfs_file_info_size_def nilfs_binfo_total_size_def NILFS_BINFO_DATA_SIZE_def NILFS_BINFO_NODE_SIZE_def
  NILFS_BINFO_DAT_DATA_SIZE_def NILFS_BINFO_DAT_NODE_SIZE_def

lemma bits_cases:
  assumes "unat (b :: u32) \<in> {10..16}"
  shows "b = 10 \<or> b = 11 \<or> b = 12 \<or> b = 13 \<or> b = 14 \<or> b = 15 \<or> b = 16"
proof -
  have e: "b = x \<longleftrightarrow> unat b = unat x" for x by (rule word_unat_eq_iff)
  show ?thesis unfolding e using assms by simp arith
qed

lemma file_start:
  assumes s: "log_summary (ps_mem p) n" and p: "ps_segsum p = 0" "ps_blkbits p = b" "unat b \<in> {10..16}" and n: "n = (if b = 10 then 4 else 3)"
  shows "nilfs_file_init flag p = log_file p n 0"
  using bits_cases [OF p(3)] s n
  by (elim disjE; simp add: nilfs_file_init_def p(1,2) file_ops)

lemma file_step:
  assumes s: "log_summary (ps_mem p) n" and p: "ps_segsum p = 0" "ps_blkbits p = b" "unat b \<in> {10..16}" and n: "n = (if b = 10 then 4 else 3)"
    and j: "j < 4"
  shows "nilfs_file_next (log_file p n j) = log_file p n (Suc j)"
proof -
  have "j = 0 \<or> j = 1 \<or> j = 2 \<or> j = 3" using j by auto
  then show ?thesis
    using bits_cases [OF p(3)] s n
    by (elim disjE; simp add: nilfs_file_next_def p(1,2) file_ops)
qed

lemma file_valid:
  assumes s: "log_summary (ps_mem p) n" and p: "ps_segsum p = 0" and n: "n = 3 \<or> n = 4" and j: "j < 5"
  shows "nilfs_file_is_end (log_file p n j) = (False, log_file p n j)"
proof -
  have "j = 0 \<or> j = 1 \<or> j = 2 \<or> j = 3 \<or> j = 4" using j by auto
  moreover have "\<not> (5 :: u32) \<le> 1" by (simp add: word_le_nat_alt)
  ultimately show ?thesis
    using s n
    by (elim disjE; simp add: nilfs_file_is_end_def nilfs_file_is_valid_def p file_ops)
qed

lemma file_end:
  assumes s: "log_summary (ps_mem p) n" and p: "ps_segsum p = 0" "ps_blkbits p = b" "unat b \<in> {10..16}" and n: "n = (if b = 10 then 4 else 3)"
  shows "\<exists>f. nilfs_file_is_end (nilfs_file_next (log_file p n 4)) = (True, f) \<and> fl_error f = NILFS_FILE_SUCCESS"
  using bits_cases [OF p(3)] s n
  by (elim disjE; simp add: nilfs_file_next_def nilfs_file_is_end_def p(1,2) file_ops)

lemma log_files:
  assumes s: "log_summary (ps_mem p) n" and p: "ps_segsum p = 0" "ps_blkbits p = b" "unat b \<in> {10..16}" and n: "n = (if b = 10 then 4 else 3)"
  shows "\<exists>f. nilfs_file_for_each flag p = (map (log_file p n) [0..<5], f) \<and> \<not> nilfs_file_is_error f"
proof -
  have n': "n = 3 \<or> n = 4" using n by simp
  obtain f where f: "nilfs_file_is_end (nilfs_file_next (log_file p n 4)) = (True, f)" "fl_error f = NILFS_FILE_SUCCESS"
    using file_end [OF s p n] by blast
  have "nilfs_file_iter (nilfs_file_next (log_file p n 4)) = ([], f)" using f(1) by (subst nilfs_file_iter.simps) simp
  moreover have "nilfs_file_iter (log_file p n j) = (let (fs, e) = nilfs_file_iter (nilfs_file_next (log_file p n j)) in (log_file p n j # fs, e))"
    if "j < 5" for j
    using file_valid [OF s p(1) n' that] by (subst nilfs_file_iter.simps) simp
  ultimately have "nilfs_file_iter (log_file p n 0) = (map (log_file p n) [0, 1, 2, 3, 4], f)"
    using file_step [OF s p n] by (simp add: numeral_eq_Suc)
  moreover have "[0..<5] = [0, 1, 2, 3, 4 :: nat]" by (simp add: upt_rec)
  ultimately show ?thesis
    using file_start [OF s p n] f(2) by (simp add: nilfs_file_for_each_def nilfs_file_is_error_def)
qed

lemma log_valid:
  assumes s: "log_summary (ps_mem p) n" and p: "ps_segsum p = 0" "ps_blkbits p = b" "unat b \<in> {10..16}" and n: "n = 3 \<or> n = 4"
    and crc: "ss_sumsum (ps_mem p) 0 = crc32_le (sg_seed (ps_segment p)) (take (248 + 16 * n) (drop 8 (ps_mem p)))"
    and room: "320 < sg_segsize (ps_segment p)" "ps_blocknr p + of_nat (n + 8) \<le> sg_blocknr (ps_segment p) + ucast (sg_nblocks (ps_segment p))"
    and c: "2 \<le> ps_blkcnt p"
  shows "nilfs_psegment_is_end p = (False, p)"
proof -
  let ?m = "ps_mem p"
  have f: "ss_magic ?m 0 = NILFS_SEGSUM_MAGIC" "ss_bytes ?m 0 = 64" "ss_nblocks ?m 0 = of_nat (n + 8)" "ss_sumbytes ?m 0 = of_nat (256 + 16 * n)"
    using s by (simp_all add: log_summary_def)
  have u: "unat (of_nat (256 + 16 * n) - 8 :: u32) = 248 + 16 * n" "unat (of_nat (256 + 16 * n) :: u32) = 256 + 16 * n" using n by auto
  have r: "320 < unat (sg_segsize (ps_segment p))" using room(1) by (simp add: word_less_nat_alt)
  have nb: "ucast (of_nat (n + 8) :: u32) = (of_nat (n + 8) :: u64)" using n by auto
  have blk: "ucast (drop_bit (unat b) ((ucast (of_nat (256 + 16 * n) :: u32) :: u64) + push_bit (unat b) 1 - 1)) = (1 :: u32)"
    using bits_cases [OF p(3)] n by (elim disjE; simp)
  have one: "\<not> (11 :: u32) \<le> 1" "\<not> (12 :: u32) \<le> 1" by (simp_all add: word_le_nat_alt)
  have v: "nilfs_psegment_is_valid p = (True, p)"
    unfolding nilfs_psegment_is_valid_def Let_def p(1,2) f blk nb
    using n r crc u room(2) one by (auto simp: not_less)
  then show ?thesis using c by (simp add: nilfs_psegment_is_end_def NILFS_PSEG_MIN_BLOCKS_def not_less)
qed

lemma rd_has:
  assumes "has V b off v" "take n m = V b" "off + length v \<le> n"
  shows "rd (length v) m off = le_nat v"
proof -
  have "rd (length v) (take n m) off = le_nat v" unfolding assms(2) by (rule has_rd [OF assms(1) refl])
  then show ?thesis using rd_take [OF assms(3)] by simp
qed

lemma committed_summary:
  assumes c: "committed bs di seed V" and m: "take (unat bs) m = V (first_block bs)" and bs: "1024 \<le> unat bs"
  shows "log_summary m (nifile bs)"
    "ss_sumsum m 0 = crc32_le seed (take (248 + 16 * nifile bs) (drop 8 m))"
proof -
  let ?f = "first_block bs" and ?n = "nifile bs"
  have n: "?n = 3 \<or> ?n = 4" by (rule nifile_cases)
  have 8: "le64_at m off = x" if "has V ?f off (le64 x)" "off \<le> 1000" for off x
    using rd_has [OF that(1) m] that(2) bs by (simp add: le64_at_def)
  have 4: "le32_at m off = x" if "has V ?f off (le32 x)" "off \<le> 1000" for off x
    using rd_has [OF that(1) m] that(2) bs by (simp add: le32_at_def)
  have 2: "le16_at m off = x" if "has V ?f off (le16 x)" "off \<le> 1000" for off x
    using rd_has [OF that(1) m] that(2) bs by (simp add: le16_at_def)
  have fi: "log_finfo m off ino (of_nat j)" if "finfo_ok bs V off ino j" "off \<le> 900" for off ino j
    using that(1) 8 [of off ino] 4 [of "off + 16" "of_nat j"] 4 [of "off + 20" "of_nat j"] that(2)
    by (simp add: finfo_ok_def log_finfo_def fi_ino_def fi_nblocks_def fi_ndatablk_def)
  have h: "segsum_hdr bs di V" "files_ok bs V" "sums_ok bs seed V" using c by (simp_all add: committed_def prepared_def)
  have ib: "ifile_blocks bs = of_nat ?n" by (simp add: nifile_def)
  have nb: "(if bs = 1024 then 320 else 304 :: u32) = of_nat (256 + 16 * ?n)" by (simp add: nifile_def ifile_blocks_def)
  note hd = h(1) [unfolded segsum_hdr_def]
  have hdr: "ss_magic m 0 = NILFS_SEGSUM_MAGIC" "ss_bytes m 0 = 64" "ss_nblocks m 0 = of_nat (?n + 8)" "ss_nfinfo m 0 = 5" "ss_sumbytes m 0 = of_nat (256 + 16 * ?n)"
    using hd 4 [of 8] 2 [of 12] 4 [of 40] 4 [of 44] 4 [of 48] unfolding nb
    by (simp_all add: ss_magic_def ss_bytes_def ss_nblocks_def ss_nfinfo_def ss_sumbytes_def ib)
  note fs = h(2) [unfolded files_ok_def Let_def vfile_ok_def dfile_ok_def]
  have ff: "finfo_ok bs V 64 2 1" "finfo_ok bs V 104 6 ?n" "finfo_ok bs V (128 + 16 * ?n) 4 1" "finfo_ok bs V (168 + 16 * ?n) 5 1"
    "finfo_ok bs V (208 + 16 * ?n) 3 3" using fs by blast+
  show "log_summary m ?n"
    unfolding log_summary_def using hdr fi [OF ff(1)] fi [OF ff(2)] fi [OF ff(3)] fi [OF ff(4)] fi [OF ff(5)] n by auto
  have "drop 8 (V ?f) = take (unat bs - 8) (drop 8 m)" unfolding m [symmetric] by (simp add: drop_take)
  then have t: "take (248 + 16 * ?n) (drop 8 (V ?f)) = take (248 + 16 * ?n) (drop 8 m)" using n bs by auto
  have "has V ?f 4 (le32 (crc32_le seed (take (248 + 16 * ?n) (drop 8 (V ?f)))))" using h(3) by (simp add: sums_ok_def)
  from 4 [OF this] show "ss_sumsum m 0 = crc32_le seed (take (248 + 16 * ?n) (drop 8 m))" unfolding t by (simp add: ss_sumsum_def)
qed

lemma get_segment_0:
  assumes dl: "device_laws k fd dev dsz" and L: "n_sb (l_nilfs L) = Some sb" "n_devfd (l_nilfs L) = fd" "0 \<le> fd" "\<not> nilfs_opt_test (l_nilfs L) NILFS_OPT_MMAP"
    and k: "0 < k_pagesize k" and sb: "s_nsegments sb \<noteq> 0" "16 \<le> unat (s_blocks_per_segment sb)" "unat (s_first_data_block sb) \<le> 4"
    and b: "unat (s_log_block_size sb + 10) = b" "unat (s_blocks_per_segment sb) * 2 ^ b \<le> unat dsz"
  defines "nb \<equiv> s_blocks_per_segment sb - ucast (s_first_data_block sb)"
  shows "unat nb = unat (s_blocks_per_segment sb) - unat (s_first_data_block sb)
    \<and> unat (push_bit b (ucast nb :: u64)) = unat nb * 2 ^ b
    \<and> (\<exists>addr L'. nilfs_get_segment k 0 L = (Inr (mk_segment sb 0 (s_first_data_block sb) nb addr
         (take (unat nb * 2 ^ b) (drop (unat (s_first_data_block sb) * 2 ^ b) (dev (l_env L)))) False False), L'))"
proof -
  let ?bps = "s_blocks_per_segment sb" and ?f = "s_first_data_block sb"
  have uf: "unat (ucast ?f :: u32) = unat ?f" using sb(3) by (simp add: unsigned_ucast_eq take_bit_eq_mod)
  have "(ucast ?f :: u32) \<le> ?bps" using sb(2,3) uf by (simp add: word_le_nat_alt)
  then have nb: "unat nb = unat ?bps - unat ?f" using uf by (simp add: nb_def unat_sub)
  have ub: "unat (ucast ?bps :: u64) = unat ?bps" "unat (ucast nb :: u64) = unat nb"
    using unat_lt_u32 [of ?bps] unat_lt_u32 [of nb] by (simp_all add: unsigned_ucast_eq take_bit_eq_mod)
  have "unat nb * 2 ^ b + unat ?f * 2 ^ b = unat ?bps * 2 ^ b" using nb sb(2,3) by (simp add: distrib_right [symmetric])
  then have fit: "unat nb * 2 ^ b + unat ?f * 2 ^ b \<le> unat dsz" using b(2) by simp
  have sz: "unat (push_bit b (ucast nb :: u64)) = unat nb * 2 ^ b"
    using unat_shift_u64' [of "ucast nb" b] ub(2) fit unat_lt_u64 [of dsz] by simp
  have st: "unat (push_bit b ?f) = unat ?f * 2 ^ b"
    using unat_shift_u64' [of ?f b] fit unat_lt_u64 [of dsz] by simp
  let ?sz = "push_bit b (ucast nb :: u64)" and ?st = "push_bit b ?f"
  obtain a w where w: "k_malloc k ?sz (l_env L) = (Some a, w)" "dev w = dev (l_env L)" using device_malloc [OF dl] by blast
  let ?m = "take (unat nb * 2 ^ b) (drop (unat ?f * 2 ^ b) (dev (l_env L)))"
  have r0: "unat ?st + unat ?sz \<le> unat dsz" using fit sz st by simp
  obtain w2 where w2: "k_pread k fd ?sz ?st w = (Inr ?m, w2)" using device_pread [OF dl r0, of w] w(2) sz st by auto
  have lm: "length ?m = unat ?sz" using fit sz device_length [OF dl, of "l_env L"] by simp
  have r: "read_segment k fd ?sz ?st (l_env L) = (Inr (a, ?m), w2)"
    using w(1) w2 lm by (simp add: read_segment_def)
  have g: "segment_geometry sb 0 = Inr (?f, nb)"
  proof -
    have "\<not> ?bps < NILFS_SEG_MIN_BLOCKS" using sb(2) by (simp add: word_less_nat_alt NILFS_SEG_MIN_BLOCKS_def)
    moreover have "\<not> ucast ?bps \<le> ?f" using sb(2,3) ub(1) by (simp add: word_le_nat_alt)
    ultimately show ?thesis by (simp add: segment_geometry_def Let_def nb_def)
  qed
  have seg: "\<not> s_nsegments sb \<le> 0" using sb(1) by simp
  have "nilfs_get_segment k 0 L = (Inr (mk_segment sb 0 ?f nb a ?m False False), L\<lparr>l_env := w2\<rparr>)"
    using L k r seg by (simp add: nilfs_get_segment_def Let_def g b(1) liftK_def not_less)
  then show ?thesis using nb sz by blast
qed

lemma log_image_first:
  assumes l: "\<And>c. length (V c) = unat bs" and n: "0 < n" and i: "take (n * unat bs) (drop off D) = log_image bs V n" and j: "unat bs \<le> j"
  shows "take (unat bs) (take j (drop off D)) = V (first_block bs)"
proof -
  obtain n' where n': "n = Suc n'" using n by (cases n) simp_all
  have "log_image bs V n = V (first_block bs) @ concat (map (\<lambda>j. V (first_block bs + of_nat j)) [1..<n])"
    unfolding log_image_def n' by (subst upt_conv_Cons) simp_all
  then have "take (unat bs) (log_image bs V n) = V (first_block bs)" using l by simp
  moreover have "take (unat bs) (log_image bs V n) = take (unat bs) (drop off D)" unfolding i [symmetric] using n by (simp add: min_def)
  ultimately show ?thesis using j by (simp add: min_def)
qed

text \<open>What the iterators see in the log: inode number, first block and number of blocks of each file.\<close>

definition log_listing :: "u64 \<Rightarrow> nat \<Rightarrow> (u64 \<times> u64 \<times> u32) list" where
  "log_listing first n =
     [(NILFS_ROOT_INO, first + 1, 1), (NILFS_IFILE_INO, first + 2, of_nat n), (NILFS_CPFILE_INO, first + 2 + of_nat n, 1),
      (NILFS_SUFILE_INO, first + 3 + of_nat n, 1), (NILFS_DAT_INO, first + 4 + of_nat n, 3)]"

lemma log_files_listing:
  assumes "log_summary (ps_mem p) n" "n = 3 \<or> n = 4"
  shows "map (\<lambda>f. (fi_ino (fl_mem f) (fl_finfo f), fl_blocknr f, fi_nblocks (fl_mem f) (fl_finfo f))) (map (log_file p n) [0..<5])
     = log_listing (ps_blocknr p) n"
proof -
  have "[0..<5] = [0, 1, 2, 3, 4 :: nat]" by (simp add: upt_rec)
  then show ?thesis using assms
    by (auto simp: log_listing_def file_ops NILFS_ROOT_INO_def NILFS_IFILE_INO_def NILFS_CPFILE_INO_def NILFS_SUFILE_INO_def)
qed

lemma formatted_log:
  assumes f: "formatted opts di r D" and bs: "mkfs_bs (o_blocksize opts)" and j: "(12 * unat (o_blocksize opts)) \<le> j"
  shows "\<exists>V. committed (o_blocksize opts) di (di_crc_seed di) V
    \<and> take (unat (o_blocksize opts)) (take j (drop (unat (first_block (o_blocksize opts) * o_blocksize opts)) D)) = V (first_block (o_blocksize opts))"
proof -
  let ?bs = "o_blocksize opts"
  obtain V where V: "\<And>c. length (V c) = unat ?bs" "committed ?bs di (di_crc_seed di) V"
    "take ((nifile ?bs + 8) * unat ?bs) (drop (unat (first_block ?bs * ?bs)) D) = log_image ?bs V (nifile ?bs + 8)"
    using f unfolding formatted_def Let_def by blast
  have "unat ?bs \<le> j" using j by simp
  from log_image_first [where V = V, OF V(1) _ V(3) this] V(2) show ?thesis by auto
qed

section \<open>The plan\<close>

text \<open>Files that follow each other without a gap: the block behind the last one.\<close>

fun packed :: "u64 \<Rightarrow> nilfs_file_info list \<Rightarrow> u64 option" where
  "packed b [] = Some b"
| "packed b (fi # fis) =
     (if mf_nblocks fi = 0 then packed b fis
      else if mf_start_blocknr fi = b then packed (b + ucast (mf_nblocks fi)) fis else None)"

text \<open>The bytes that the file and block entries of a log take in its summary.\<close>

definition entry_bytes :: "nilfs_file_info list \<Rightarrow> u64" where
  "entry_bytes fis = sum_list (map (\<lambda>fi. if mf_nblocks fi = 0 then 0
     else 24 + ucast (mf_nblocks fi) * (if mf_ino fi = NILFS_DAT_INO then 8 else 16)) fis)"

lemma planned_sound:
  assumes bs: "mkfs_bs bs" and bps: "16 \<le> bps"
  shows "packed (first_block bs + ucast (mi_nblk_sum (planned_segment bs))) (mi_files (planned_segment bs))
      = Some (first_block bs + ucast (mi_nblocks (planned_segment bs)) - 1)"
    "mi_sumbytes (planned_segment bs) = 64 + entry_bytes (mi_files (planned_segment bs))"
    "mi_sumbytes (planned_segment bs) \<le> ucast (mi_nblk_sum (planned_segment bs)) * bs"
    "first_block bs + ucast (mi_nblocks (planned_segment bs)) \<le> bps"
proof -
  have i: "ifile_blocks bs = 3 \<or> ifile_blocks bs = 4" by (simp add: ifile_blocks_def)
  show "packed (first_block bs + ucast (mi_nblk_sum (planned_segment bs))) (mi_files (planned_segment bs))
      = Some (first_block bs + ucast (mi_nblocks (planned_segment bs)) - 1)"
    using i by (elim disjE) (simp_all add: planned_segment_def planned_files_def Let_def)
  show "mi_sumbytes (planned_segment bs) = 64 + entry_bytes (mi_files (planned_segment bs))"
    by (simp add: planned_segment_def planned_files_def Let_def entry_bytes_def NILFS_DAT_INO_def ifile_blocks_def)
  show "mi_sumbytes (planned_segment bs) \<le> ucast (mi_nblk_sum (planned_segment bs)) * bs"
    using bs unfolding mkfs_bs_def by (auto simp: planned_segment_def word_le_nat_alt)
  have "first_block bs + ucast (mi_nblocks (planned_segment bs)) \<le> 16"
    using bs unfolding mkfs_bs_def by (auto simp: planned_segment_def first_block_def ifile_blocks_def word_le_nat_alt)
  then show "first_block bs + ucast (mi_nblocks (planned_segment bs)) \<le> bps" using bps by (rule order_trans)
qed

text \<open>C14. The plan of the initial log is sound for every accepted choice of options and device:
  planning succeeds, the files' blocks follow the summary without gap or overlap and end right
  before the super root, the summary's size is its header and one entry per file and block and
  fits its blocks, and the log, which starts behind the disk header, ends inside segment 0.\<close>

theorem mkfs_plan_sound:
  assumes p: "parse_options k e args operands w0 = (Inr opts, w1)" "k_pagesize k \<le> 65536"
    and l: "layout_segments opts t dsz w1 = (Inr di, w2)"
  shows "\<exists>di' si. plan_segment (o_blocksize opts) di w = (Inr di', w) \<and> di_seginfo di' = [si]
    \<and> packed (mi_start_blocknr si + ucast (mi_nblk_sum si)) (mi_files si) = Some (mi_start_blocknr si + ucast (mi_nblocks si) - 1)
    \<and> mi_sumbytes si = of_nat sizeof_segment_summary + entry_bytes (mi_files si)
    \<and> mi_sumbytes si \<le> ucast (mi_nblk_sum si) * o_blocksize opts
    \<and> NILFS_DISKHDR_SIZE \<le> mi_start_blocknr si * o_blocksize opts
    \<and> mi_start_blocknr si + ucast (mi_nblocks si) \<le> di_blocks_per_segment di'"
proof -
  have s: "mkfs_bs (o_blocksize opts)" using parse_options_facts [OF p] by simp
  note pl = mkfs_layout_planned [OF p l] and ps = planned_sound [OF s mkfs_layout_planned(2) [OF p l]]
  have "NILFS_DISKHDR_SIZE \<le> first_block (o_blocksize opts) * o_blocksize opts"
    using log_base(1) [OF s] by (simp add: NILFS_DISKHDR_SIZE_def word_le_nat_alt)
  then show ?thesis
    by (intro exI [of _ "planned (o_blocksize opts) di"] exI [of _ "planned_segment (o_blocksize opts)"])
      (use pl(1) ps in \<open>simp add: planned_def sizeof_segment_summary_def, simp add: planned_segment_def\<close>)
qed

section \<open>The log on the device\<close>

lemma log_block_on_device:
  assumes l: "\<And>c. length (V c) = unat bs" and i: "take (n * unat bs) (drop st D) = log_image bs V n" and j: "j < n"
  shows "take (unat bs) (drop (st + j * unat bs) D) = V (first_block bs + of_nat j)"
proof -
  have a: "take (unat bs) (drop (j * unat bs) (log_image bs V n)) = V (first_block bs + of_nat j)"
  proof -
    have u: "[0..<n] = [0..<j] @ j # [Suc j..<n]" using j upt_add_eq_append [of 0 j "n - j"] upt_conv_Cons [OF j] by simp
    have "length (concat (map (\<lambda>j. V (first_block bs + of_nat j)) [0..<j])) = j * unat bs"
      using length_log_image [of V "unat bs" bs j] l by (simp add: log_image_def)
    then show ?thesis using l unfolding log_image_def u by simp
  qed
  have "Suc j * unat bs \<le> n * unat bs" using j by (intro mult_right_mono) simp_all
  then have "unat bs \<le> n * unat bs - j * unat bs" by simp
  then have "take (unat bs) (drop (j * unat bs) (take (n * unat bs) (drop st D))) = take (unat bs) (drop (st + j * unat bs) D)"
    by (simp add: drop_take add.commute)
  then show ?thesis using a unfolding i by simp
qed

lemma rd_shift: "rd n (drop a xs) b = rd n xs (a + b)"
  by (simp add: rd_def add.commute)

lemma has_on_device:
  assumes "has V (first_block bs + of_nat j) off v" "take (unat bs) (drop a D) = V (first_block bs + of_nat j)" "off + length v \<le> unat bs"
  shows "rd (length v) D (a + off) = le_nat v"
  using rd_has [OF assms] by (simp only: rd_shift)

lemma log_start_nat:
  assumes "mkfs_bs bs"
  shows "unat (first_block bs * bs) = unat (first_block bs) * unat bs"
proof -
  have "unat (first_block bs) * unat bs \<le> 4 * 65536" using log_span(1) [OF assms] log_base(3) [OF assms] by (rule mult_le_mono)
  then show ?thesis by (simp add: unat_word_ariths)
qed

lemma formatted_checksums:
  assumes f: "formatted opts di r D" and bs: "mkfs_bs (o_blocksize opts)"
  shows "let bs = unat (o_blocksize opts); st = unat (first_block (o_blocksize opts)) * bs; n = unat (ifile_blocks (o_blocksize opts)); sr = st + (n + 7) * bs;
             seed = di_crc_seed di in
      le32_at D st = crc32_le seed (take ((n + 8) * bs - 4) (drop (st + 4) D))
      \<and> le32_at D (st + 4) = crc32_le seed (take (256 + 16 * n - 8) (drop (st + 8) D))
      \<and> le32_at D sr = crc32_le seed (take (unat NILFS_SR_BYTES - 4) (drop (sr + 4) D))"
proof -
  let ?bs = "o_blocksize opts" and ?n = "nifile (o_blocksize opts)"
  let ?st = "unat (first_block ?bs) * unat ?bs"
  obtain V where l: "\<And>c. length (V c) = unat ?bs" and c: "committed ?bs di (di_crc_seed di) V"
    and i: "take ((?n + 8) * unat ?bs) (drop ?st D) = log_image ?bs V (?n + 8)"
    using f unfolding formatted_def Let_def log_start_nat [OF bs] by blast
  have ge: "1024 \<le> unat ?bs" using bs by (auto simp: mkfs_bs_def)
  have n: "?n = 3 \<or> ?n = 4" by (rule nifile_cases)
  have b0: "take (unat ?bs) (drop ?st D) = V (first_block ?bs)" using log_block_on_device [OF l i, of 0] by simp
  have last: "last_block ?bs = first_block ?bs + of_nat (?n + 7)" by (simp add: last_block_def nifile_def add.assoc)
  let ?sr = "?st + (?n + 7) * unat ?bs"
  have b1: "take (unat ?bs) (drop ?sr D) = V (last_block ?bs)"
    using log_block_on_device [OF l i, of "?n + 7"] unfolding last by simp
  note h = c [unfolded committed_def sums_ok_def]
  have 4: "le32_at D (a + off) = x" if "has V b off (le32 x)" "take (unat ?bs) (drop a D) = V b" "off \<le> 4" for a b off x
    using rd_has [OF that(1,2)] that(3) ge by (simp add: le32_at_def rd_shift)
  have "le32_at D (?st + 0) = crc32_le (di_crc_seed di) (drop 4 (log_bytes ?bs V))" by (rule 4 [OF _ b0]) (use h in simp_all)
  moreover
  have lb: "log_bytes ?bs V = log_image ?bs V (?n + 8)" by (simp add: log_bytes_def log_image_def)
  moreover have "drop 4 (log_bytes ?bs V) = take ((?n + 8) * unat ?bs - 4) (drop (?st + 4) D)"
    unfolding lb i [symmetric] by (simp add: drop_take add.commute)
  moreover have "le32_at D (?st + 4) = crc32_le (di_crc_seed di) (take (248 + 16 * ?n) (drop 8 (V (first_block ?bs))))"
    by (rule 4 [OF _ b0]) (use h in simp_all)
  moreover have "take (248 + 16 * ?n) (drop 8 (V (first_block ?bs))) = take (256 + 16 * ?n - 8) (drop (?st + 8) D)"
    unfolding b0 [symmetric] using n ge by (auto simp: drop_take add.commute [of 8])
  moreover have "le32_at D (?sr + 0) = crc32_le (di_crc_seed di) (take 396 (drop 4 (V (last_block ?bs))))"
    by (rule 4 [OF _ b1]) (use h in simp_all)
  moreover have "take 396 (drop 4 (V (last_block ?bs))) = take (unat NILFS_SR_BYTES - 4) (drop (?sr + 4) D)"
    unfolding b1 [symmetric] using ge by (simp add: drop_take NILFS_SR_BYTES_def add.commute [of 4])
  ultimately show ?thesis unfolding Let_def nifile_def [symmetric] by simp
qed

lemma formatted_dat:
  assumes f: "formatted opts di r D" and bs: "mkfs_bs (o_blocksize opts)" and v: "1 \<le> v" "v \<le> unat (ifile_blocks (o_blocksize opts)) + 3"
  shows "let bs = unat (o_blocksize opts); first = first_block (o_blocksize opts); n = unat (ifile_blocks (o_blocksize opts));
             entry = (unat first + n + 6) * bs + 32 * v in
      le64_at D entry = first + of_nat v \<and> le64_at D (entry + 8) = 1 \<and> le64_at D (entry + 16) = NILFS_CNO_MAX_mkfs"
proof -
  let ?bs = "o_blocksize opts" and ?n = "nifile (o_blocksize opts)" and ?f = "first_block (o_blocksize opts)"
  let ?st = "unat ?f * unat ?bs"
  obtain V where l: "\<And>c. length (V c) = unat ?bs" and c: "committed ?bs di (di_crc_seed di) V"
    and i: "take ((?n + 8) * unat ?bs) (drop ?st D) = log_image ?bs V (?n + 8)"
    using f unfolding formatted_def Let_def log_start_nat [OF bs] by blast
  have ge: "1024 \<le> unat ?bs" using bs by (auto simp: mkfs_bs_def)
  have n: "?n = 3 \<or> ?n = 4" by (rule nifile_cases)
  have v': "v \<le> ?n + 3" using v(2) by (simp only: nifile_def)
  have ib: "ucast (ifile_blocks ?bs) = (of_nat ?n :: u64)" by (simp add: nifile_def)
  have bD: "bD ?bs + 2 = ?f + of_nat (?n + 6)" by (simp add: bD_def ib)
  let ?a = "?st + (?n + 6) * unat ?bs"
  have b: "take (unat ?bs) (drop ?a D) = V (bD ?bs + 2)" using log_block_on_device [OF l i, of "?n + 6"] unfolding bD by simp
  have fs: "files_ok ?bs V" using c by (simp add: committed_def)
  note q = fs [unfolded files_ok_def Let_def vfile_ok_def vblock_ok_def]
  have d: "dat_entry ?bs V v (?f + of_nat v)"
  proof -
    consider "v = 1" | j where "v = 2 + j" "j < ?n" | "v = 2 + ?n" | "v = 3 + ?n"
    proof -
      have "v = 1 \<or> (\<exists>j < ?n. v = 2 + j) \<or> v = 2 + ?n \<or> v = 3 + ?n"
        using v(1) v' by presburger
      then show ?thesis using that by blast
    qed
    then show ?thesis
    proof cases
      case 1
      then show ?thesis using q by simp
    next
      case 2
      then have "dat_entry ?bs V (2 + j) (bI ?bs + of_nat j)" using q by blast
      then show ?thesis using 2 by (simp add: bI_def add.assoc)
    next
      case 3
      then show ?thesis using q by (simp add: bC_def ib add.assoc)
    next
      case 4
      then show ?thesis using q by (simp add: bS_def ib add.assoc)
    qed
  qed
  have 8: "le64_at D (?a + off) = x" if "has V (bD ?bs + 2) off (le64 x)" "off \<le> 1000" for off x
    using rd_has [OF that(1) b] that(2) ge by (simp add: le64_at_def rd_shift)
  have e: "(unat ?f + ?n + 6) * unat ?bs + 32 * v = ?a + 32 * v" by (simp add: algebra_simps)
  have "32 * v \<le> 224" using v' n by auto
  then show ?thesis
    using d 8 [of "32 * v"] 8 [of "32 * v + 8"] 8 [of "32 * v + 16"]
    unfolding Let_def nifile_def [symmetric] e dat_entry_def by (simp add: add.assoc)
qed

text \<open>C9. The three checksums that protect the log are right on the device: the checksum of the whole
  log in its first word, the one of the summary behind it, and the one of the super root in the
  log's last block, each over the bytes that the device holds after the formatting.\<close>

theorem mkfs_log_checksums:
  assumes dl: "device_laws k fd dev dsz" and ml: "mkfs_laws e fd dev"
    and p: "parse_options k e args operands w0 = (Inr opts, w1)" "k_pagesize k \<le> 65536" "\<not> o_nflag opts"
    and l: "layout_segments opts t dsz w1 = (Inr di, w2)"
    and big: "2 ^ 20 + 1024 \<le> unat dsz" "unat dsz < 2 ^ 63"
  shows "\<exists>di' s'. plan_segment (o_blocksize opts) di w2 = (Inr di', w2)
    \<and> make_filesystem k e opts fd di' (mkfs_start w2 di') = (Inr (), s')
    \<and> (let D = dev (mk_w s'); bs = unat (o_blocksize opts); st = unat (first_block (o_blocksize opts)) * bs;
           n = unat (ifile_blocks (o_blocksize opts)); sr = st + (n + 7) * bs; seed = di_crc_seed di' in
        le32_at D st = crc32_le seed (take ((n + 8) * bs - 4) (drop (st + 4) D))
        \<and> le32_at D (st + 4) = crc32_le seed (take (256 + 16 * n - 8) (drop (st + 8) D))
        \<and> le32_at D sr = crc32_le seed (take (unat NILFS_SR_BYTES - 4) (drop (sr + 4) D)))"
proof -
  have s: "mkfs_bs (o_blocksize opts)" using parse_options_facts [OF p(1,2)] by simp
  have seed: "di_crc_seed (planned (o_blocksize opts) di) = di_crc_seed di" by (simp add: planned_def)
  obtain s' where s': "make_filesystem k e opts fd (planned (o_blocksize opts) di) (mkfs_start w2 (planned (o_blocksize opts) di)) = (Inr (), s')"
    and f: "formatted opts di (log_ref (o_blocksize opts) di) (dev (mk_w s'))"
    using mkfs_formats [OF dl ml p l big] by blast
  show ?thesis
    by (rule exI [of _ "planned (o_blocksize opts) di"], rule exI [of _ s'], unfold seed,
        intro conjI mkfs_layout_planned(1) [OF p(1,2) l] s')
      (use formatted_checksums [OF f s] in \<open>unfold Let_def, blast\<close>)
qed

text \<open>C8. The disk address translation is complete on the device: the DAT entry of every virtual block
  number that the log uses, 1 for the root directory up to the sufile's, names the block at which
  the log has the block, valid from checkpoint 1 on without end.\<close>

theorem mkfs_dat_translates:
  assumes dl: "device_laws k fd dev dsz" and ml: "mkfs_laws e fd dev"
    and p: "parse_options k e args operands w0 = (Inr opts, w1)" "k_pagesize k \<le> 65536" "\<not> o_nflag opts"
    and l: "layout_segments opts t dsz w1 = (Inr di, w2)"
    and big: "2 ^ 20 + 1024 \<le> unat dsz" "unat dsz < 2 ^ 63"
  shows "\<exists>di' s'. plan_segment (o_blocksize opts) di w2 = (Inr di', w2)
    \<and> make_filesystem k e opts fd di' (mkfs_start w2 di') = (Inr (), s')
    \<and> (\<forall>v. 1 \<le> v \<and> v \<le> unat (ifile_blocks (o_blocksize opts)) + 3 \<longrightarrow>
        (let D = dev (mk_w s'); bs = unat (o_blocksize opts); first = first_block (o_blocksize opts);
             n = unat (ifile_blocks (o_blocksize opts)); entry = (unat first + n + 6) * bs + 32 * v in
         le64_at D entry = first + of_nat v \<and> le64_at D (entry + 8) = 1 \<and> le64_at D (entry + 16) = NILFS_CNO_MAX_mkfs))"
proof -
  have s: "mkfs_bs (o_blocksize opts)" using parse_options_facts [OF p(1,2)] by simp
  obtain s' where s': "make_filesystem k e opts fd (planned (o_blocksize opts) di) (mkfs_start w2 (planned (o_blocksize opts) di)) = (Inr (), s')"
    and f: "formatted opts di (log_ref (o_blocksize opts) di) (dev (mk_w s'))"
    using mkfs_formats [OF dl ml p l big] by blast
  show ?thesis
    by (rule exI [of _ "planned (o_blocksize opts) di"], rule exI [of _ s'],
        intro conjI mkfs_layout_planned(1) [OF p(1,2) l] s' allI impI, unfold Let_def, elim conjE)
      (rule formatted_dat [OF f s, unfolded Let_def])
qed


lemma log_in_segment:
  assumes f: "formatted opts di (log_ref (o_blocksize opts) di) (dev (l_env L))" and bs: "mkfs_bs (o_blocksize opts)" "length (o_volume_label opts) = 80"
    and l: "layout_segments opts t dsz s = (Inr di, s')" "16 \<le> o_blocks_per_segment opts" "o_blocks_per_segment opts < 2 ^ 32"
    and big: "2 ^ 20 + 1024 \<le> unat dsz" and dl: "device_laws k fd dev dsz" and k: "0 < k_pagesize k" "0 \<le> fd"
    and L: "n_sb (l_nilfs L) = Some (dev_sb (dev (l_env L)) 1024)" "n_devfd (l_nilfs L) = fd" "\<not> nilfs_opt_test (l_nilfs L) NILFS_OPT_MMAP"
    and c: "2 \<le> c"
  shows "\<exists>sg L' fs fe. nilfs_get_segment k 0 L = (Inr sg, L') \<and> (let p = nilfs_psegment_init sg c in
      nilfs_psegment_is_end p = (False, p) \<and> nilfs_file_for_each flag p = (fs, fe) \<and> \<not> nilfs_file_is_error fe
      \<and> map (\<lambda>f. (fi_ino (fl_mem f) (fl_finfo f), fl_blocknr f, fi_nblocks (fl_mem f) (fl_finfo f))) fs
          = log_listing (sg_blocknr sg) (unat (ifile_blocks (o_blocksize opts))))"
proof -
  let ?bs = "o_blocksize opts" and ?D = "dev (l_env L)" and ?f = "first_block (o_blocksize opts)" and ?n = "nifile (o_blocksize opts)"
  note e = layout_eq [OF bs(1) l(1)]
  let ?b = "unat (di_blkbits di)"
  obtain uuid where u: "length uuid = 16" and sb0: "dev_sb ?D 1024 = mkfs_sb opts di (log_ref ?bs di) uuid"
    using f unfolding formatted_def Let_def by blast
  define sb where "sb = dev_sb ?D 1024"
  have sb: "sb = mkfs_sb opts di (log_ref ?bs di) uuid" unfolding sb_def by (rule sb0)
  note fs = mkfs_sb_fields [OF u bs(2) sb] and off = mkfs_sb_offset [OF bs(1) l(1,3) u bs(2) sb big]
  have bits: "s_log_block_size sb + 10 = di_blkbits di" unfolding fs by simp
  have nseg: "s_nsegments sb \<noteq> 0" unfolding fs by (rule e(8))
  have bps: "16 \<le> unat (s_blocks_per_segment sb)" using off(2) l(2) by (simp add: word_le_nat_alt)
  have first: "s_first_data_block sb = ?f" unfolding fs by (rule e(2))
  have f4: "unat ?f \<le> 4" by (rule log_span(1) [OF bs(1)])
  have n: "?n = 3 \<or> ?n = 4" by (rule nifile_cases)
  define nb where "nb = s_blocks_per_segment sb - ucast (s_first_data_block sb)"
  have fit: "unat (s_blocks_per_segment sb) * 2 ^ ?b \<le> unat dsz" using off(2,4) by simp
  obtain addr L' where nb: "unat nb = unat (s_blocks_per_segment sb) - unat ?f" and sz: "unat (push_bit ?b (ucast nb :: u64)) = unat nb * 2 ^ ?b"
    and g: "nilfs_get_segment k 0 L = (Inr (mk_segment sb 0 ?f nb addr (take (unat nb * 2 ^ ?b) (drop (unat ?f * 2 ^ ?b) ?D)) False False), L')"
    using get_segment_0 [OF dl L(1,2) k(2) L(3) k(1), folded sb_def, OF nseg bps _ _ fit, folded nb_def] first f4 bits by auto
  have 12: "12 \<le> unat nb" using nb bps f4 by linarith
  define m where "m = take (unat nb * 2 ^ ?b) (drop (unat ?f * 2 ^ ?b) ?D)"
  define sg where "sg = mk_segment sb 0 ?f nb addr m False False"
  have sg: "sg_mem sg = m" "sg_blocknr sg = ?f" "sg_nblocks sg = nb" "sg_blkbits sg = di_blkbits di" "sg_seed sg = di_crc_seed di"
    "sg_segsize sg = push_bit ?b (ucast nb)" by (simp_all add: sg_def mk_segment_def Let_def bits fs)
  have bs2: "unat ?bs = 2 ^ ?b" by (rule e(6))
  have "unat ?f * unat ?bs = unat (?f * ?bs)"
  proof -
    have "unat ?f * unat ?bs \<le> 4 * 65536" using f4 log_base(3) [OF bs(1)] by (rule mult_le_mono)
    then show ?thesis by (simp add: unat_word_ariths)
  qed
  then have st: "unat ?f * 2 ^ ?b = unat (?f * ?bs)" unfolding bs2 [symmetric] .
  have "12 * unat ?bs \<le> unat nb * 2 ^ ?b" using 12 unfolding bs2 by simp
  from formatted_log [OF f bs(1) this] obtain V where V: "committed ?bs di (di_crc_seed di) V" "take (unat ?bs) m = V ?f"
    unfolding m_def st by blast
  have "1024 \<le> unat ?bs" using bs(1) by (auto simp: mkfs_bs_def)
  note cs = committed_summary [OF V this]
  let ?p = "nilfs_psegment_init sg c"
  have p: "ps_segsum ?p = 0" "ps_blkbits ?p = di_blkbits di" "ps_mem ?p = m" "ps_segment ?p = sg" "ps_blocknr ?p = ?f" "ps_blkcnt ?p = min c nb"
    by (simp_all add: nilfs_psegment_init_def ps_mem_def sg)
  have nn: "?n = (if di_blkbits di = 10 then 4 else 3)"
  proof -
    have "(di_blkbits di = 10) = (?b = 10)" by (simp add: word_unat_eq_iff)
    also have "\<dots> = (unat ?bs = 2 ^ 10)" unfolding bs2 by (simp only: power_inject_exp one_less_numeral_iff semiring_norm)
    also have "\<dots> = (?bs = 1024)" by (simp add: word_unat_eq_iff)
    finally show ?thesis by (simp add: nifile_def ifile_blocks_def)
  qed
  have val: "nilfs_psegment_is_end ?p = (False, ?p)"
  proof (rule log_valid [OF _ p(1,2) e(5) n])
    show "log_summary (ps_mem ?p) ?n" unfolding p by (rule cs(1))
    show "ss_sumsum (ps_mem ?p) 0 = crc32_le (sg_seed (ps_segment ?p)) (take (248 + 16 * ?n) (drop 8 (ps_mem ?p)))" unfolding p sg by (rule cs(2))
    have "12 * 1024 \<le> unat nb * unat ?bs" using 12 \<open>1024 \<le> unat ?bs\<close> by (rule mult_le_mono)
    then show "320 < sg_segsize (ps_segment ?p)" unfolding p sg word_less_nat_alt sz bs2 by simp
    have un: "unat (ucast nb :: u64) = unat nb" using unat_lt_u32 [of nb] by (simp add: unsigned_ucast_eq take_bit_eq_mod)
    have "unat (of_nat (?n + 8) :: u64) = ?n + 8" using n by (intro unat_of_nat_u64) auto
    moreover have "unat (?f + of_nat (?n + 8)) = unat ?f + (?n + 8)" using n by (intro log_span(2) [OF bs(1)]) auto
    moreover have "unat (?f + ucast nb) = unat ?f + unat nb" using f4 unat_lt_u32 [of nb] un by (subst unat_add_u64) simp_all
    ultimately show "ps_blocknr ?p + of_nat (?n + 8) \<le> sg_blocknr (ps_segment ?p) + ucast (sg_nblocks (ps_segment ?p))"
      unfolding p sg word_le_nat_alt using n 12 by auto
    show "2 \<le> ps_blkcnt ?p" unfolding p using c 12 by (simp add: word_le_nat_alt min_def)
  qed
  obtain fe where fl: "nilfs_file_for_each flag ?p = (map (log_file ?p ?n) [0..<5], fe)" "\<not> nilfs_file_is_error fe"
    using log_files [where p = ?p, OF _ p(1,2) e(5) nn] cs(1) unfolding p by blast
  have ls: "map (\<lambda>f. (fi_ino (fl_mem f) (fl_finfo f), fl_blocknr f, fi_nblocks (fl_mem f) (fl_finfo f))) (map (log_file ?p ?n) [0..<5]) = log_listing ?f ?n"
    using log_files_listing [of ?p ?n] cs(1) n unfolding p by simp
  show ?thesis
    by (intro exI [of _ sg] exI [of _ L'] exI [of _ "map (log_file ?p ?n) [0..<5]"] exI [of _ fe])
      (use g val fl ls in \<open>simp only: Let_def sg(2) nifile_def [symmetric] sg_def [symmetric] m_def [symmetric] simp_thms\<close>)
qed

text \<open>C7. The garbage collector's iterators accept the log that mkfs writes: after the formatting, a
  library that has read the superblock gets segment 0 from the device, finds the log at its first
  position valid (magic number, checksum of the summary, block counts), and the file iterator
  yields the root directory, the ifile, the cpfile, the sufile and the DAT in this order, each
  with its first block and its number of blocks, and ends without an error.\<close>

theorem mkfs_log_accepted:
  assumes dl: "device_laws k fd dev dsz" and ml: "mkfs_laws e fd dev"
    and p: "parse_options k e args operands w0 = (Inr opts, w1)" "0 < k_pagesize k" "k_pagesize k \<le> 65536" "\<not> o_nflag opts"
    and l: "layout_segments opts t dsz w1 = (Inr di, w2)" "o_blocks_per_segment opts < 2 ^ 32"
    and big: "2 ^ 20 + 1024 \<le> unat dsz" "unat dsz < 2 ^ 63" and c: "0 \<le> fd" "2 \<le> c"
  shows "\<exists>di' s'. plan_segment (o_blocksize opts) di w2 = (Inr di', w2)
    \<and> make_filesystem k e opts fd di' (mkfs_start w2 di') = (Inr (), s')
    \<and> (\<forall>L. dev (l_env L) = dev (mk_w s') \<and> n_sb (l_nilfs L) = Some (dev_sb (dev (mk_w s')) 1024)
          \<and> n_devfd (l_nilfs L) = fd \<and> \<not> nilfs_opt_test (l_nilfs L) NILFS_OPT_MMAP \<longrightarrow>
        (\<exists>sg L' fs fe. nilfs_get_segment k 0 L = (Inr sg, L') \<and> (let p = nilfs_psegment_init sg c in
          nilfs_psegment_is_end p = (False, p) \<and> nilfs_file_for_each flag p = (fs, fe) \<and> \<not> nilfs_file_is_error fe
          \<and> map (\<lambda>f. (fi_ino (fl_mem f) (fl_finfo f), fl_blocknr f, fi_nblocks (fl_mem f) (fl_finfo f))) fs
              = log_listing (sg_blocknr sg) (unat (ifile_blocks (o_blocksize opts))))))"
proof -
  let ?di = "planned (o_blocksize opts) di"
  have s: "mkfs_bs (o_blocksize opts)" "length (o_volume_label opts) = 80" "16 \<le> o_blocks_per_segment opts"
    using parse_options_facts [OF p(1,3)] by simp_all
  obtain s' where s': "make_filesystem k e opts fd ?di (mkfs_start w2 ?di) = (Inr (), s')"
    and f: "formatted opts di (log_ref (o_blocksize opts) di) (dev (mk_w s'))"
    using mkfs_formats [OF dl ml p(1,3,4) l(1) big] by blast
  show ?thesis
  proof (rule exI, rule exI, intro conjI allI impI)
    show "plan_segment (o_blocksize opts) di w2 = (Inr ?di, w2)" by (rule mkfs_layout_planned(1) [OF p(1,3) l(1)])
    show "make_filesystem k e opts fd ?di (mkfs_start w2 ?di) = (Inr (), s')" by (rule s')
    fix L :: "'a lib" assume L: "dev (l_env L) = dev (mk_w s') \<and> n_sb (l_nilfs L) = Some (dev_sb (dev (mk_w s')) 1024)
          \<and> n_devfd (l_nilfs L) = fd \<and> \<not> nilfs_opt_test (l_nilfs L) NILFS_OPT_MMAP"
    show "\<exists>sg L' fs fe. nilfs_get_segment k 0 L = (Inr sg, L') \<and> (let p = nilfs_psegment_init sg c in
          nilfs_psegment_is_end p = (False, p) \<and> nilfs_file_for_each flag p = (fs, fe) \<and> \<not> nilfs_file_is_error fe
          \<and> map (\<lambda>f. (fi_ino (fl_mem f) (fl_finfo f), fl_blocknr f, fi_nblocks (fl_mem f) (fl_finfo f))) fs
              = log_listing (sg_blocknr sg) (unat (ifile_blocks (o_blocksize opts))))"
      by (rule log_in_segment [OF _ s(1,2) l(1) s(3) l(2) big(1) dl p(2) c(1) _ _ _ c(2)]) (use L f in simp_all)
  qed
qed

section \<open>A run\<close>

text \<open>An image file of 256 MiB, formatted with the default options.\<close>

definition image_env :: "bytes mkfs_env" where
  "image_env =
     \<lparr>me_time = (\<lambda>w. (1000, w)), me_uuid = (\<lambda>w. (replicate 16 7, w)), me_getchar = (\<lambda>w. (None, w)),
      me_discard = (\<lambda>fd start len w. (False, w)), me_discard_zeroes = (\<lambda>fd w. (False, w)),
      me_fsync = (\<lambda>fd w. (Inr (), w)), me_lseek = (\<lambda>fd off w. (Inr (), w)), me_badblocks = (\<lambda>args w. (Exited 0, w)),
      me_new_probe = (\<lambda>path w. (Inl ENOENT, w)), me_probe_size = (\<lambda>p w. (0, w)), me_probe_partitions = (\<lambda>p w. (0, w)),
      me_fullprobe = (\<lambda>p w. (1, w)), me_probe_lookup = (\<lambda>p s w. (False, w)), me_free_probe = (\<lambda>p w. w)\<rparr>"

lemma image_laws: "mkfs_laws image_env fd (disk dsz)"
  by (simp add: mkfs_laws_def image_env_def)

lemmas image_consts = mkfs_consts NILFS_DEF_BLOCKSIZE_def NILFS_DEF_BLKS_PER_SEG_def NILFS_DEF_RESERVED_SEGMENTS_def
  NILFS_SEG_MIN_BLOCKS_mkfs_def NILFS_MIN_NRSVSEGS_mkfs_def NILFS_MIN_NUSERSEGS_def

lemma image_parse: "parse_options (disk_kernel (2 ^ 28)) image_env [] [''d''] w = (Inr default_opts, w)"
  by (simp add: parse_options_def Let_def default_opts_def check_blocks_per_segment_def check_reserved_segments_percentage_def image_consts)

lemma image_layout: "\<exists>di. layout_segments default_opts 1000 (2 ^ 28) w = (Inr di, w)"
  by (simp add: layout_segments_def Let_def default_opts_def image_consts log2_at NILFS_SB2_OFFSET_BYTES_def nilfs_min_nsegments_def
      nr_initial_segments_def NILFS_PSEG_MIN_BLOCKS_def DIV_ROUND_UP_def push_bit_eq_mult drop_bit_eq_div word_less_nat_alt)

lemma image_pages: "0 < k_pagesize (disk_kernel dsz)" "k_pagesize (disk_kernel dsz) \<le> 65536"
  by (simp_all add: disk_kernel_def null_kernel_def)

lemma image_size: "2 ^ 20 + 1024 \<le> unat (2 ^ 28 :: u64)" "unat (2 ^ 28 :: u64) < 2 ^ 63"
  "o_blocks_per_segment default_opts < 2 ^ 32" "\<not> o_nflag default_opts"
  by (simp_all add: default_opts_def image_consts)

theorem mkfs_then_read_witness:
  "\<exists>di di' s' sb w'. layout_segments default_opts 1000 (2 ^ 28) ([] :: bytes) = (Inr di, [])
    \<and> make_filesystem (disk_kernel (2 ^ 28)) image_env default_opts 3 di' (mkfs_start [] di') = (Inr (), s')
    \<and> nilfs_sb_is_valid sb True \<and> nilfs_sb_read (disk_kernel (2 ^ 28)) 3 (mk_w s') = (Inr sb, w') \<and> s_dev_size sb = 2 ^ 28"
proof -
  obtain di where di: "layout_segments default_opts 1000 (2 ^ 28) ([] :: bytes) = (Inr di, [])" by (rule exE [OF image_layout])
  with mkfs_then_read [OF disk_kernel_laws image_laws image_parse image_pages(2) image_size(4) di image_size(3,1,2)]
  show ?thesis by (elim exE conjE) (intro exI conjI, assumption+)
qed

theorem mkfs_log_accepted_witness:
  "\<exists>di di' s' L sg L' fs fe. layout_segments default_opts 1000 (2 ^ 28) ([] :: bytes) = (Inr di, [])
    \<and> make_filesystem (disk_kernel (2 ^ 28)) image_env default_opts 3 di' (mkfs_start [] di') = (Inr (), s')
    \<and> nilfs_get_segment (disk_kernel (2 ^ 28)) 0 L = (Inr sg, L')
    \<and> nilfs_file_for_each False (nilfs_psegment_init sg 2048) = (fs, fe)
    \<and> map (\<lambda>f. (fi_ino (fl_mem f) (fl_finfo f), fl_blocknr f, fi_nblocks (fl_mem f) (fl_finfo f))) fs = log_listing (sg_blocknr sg) 3"
proof -
  obtain di where di: "layout_segments default_opts 1000 (2 ^ 28) ([] :: bytes) = (Inr di, [])" by (rule exE [OF image_layout])
  let ?D = "\<lambda>s :: bytes mkfs. disk (2 ^ 28) (mk_w s)"
  let ?L = "\<lambda>s :: bytes mkfs. \<lparr>l_nilfs = \<lparr>n_sb = Some (dev_sb (?D s) 1024), n_dev = Some ''/dev/sdb1'', n_ioc = Some ''/mnt'', n_devfd = 3,
     n_iocfd = 4, n_opts = 0, n_mincno = 1, n_sems = Some 0\<rparr>, l_env = mk_w s\<rparr>"
  let ?D' = "\<lambda>L :: bytes lib. disk (2 ^ 28) (l_env L)"
  let ?accepted = "\<lambda>L. \<exists>sg L' fs fe. nilfs_get_segment (disk_kernel (2 ^ 28)) 0 L = (Inr sg, L') \<and> (let p = nilfs_psegment_init sg 2048 in
          nilfs_psegment_is_end p = (False, p) \<and> nilfs_file_for_each False p = (fs, fe) \<and> \<not> nilfs_file_is_error fe
          \<and> map (\<lambda>f. (fi_ino (fl_mem f) (fl_finfo f), fl_blocknr f, fi_nblocks (fl_mem f) (fl_finfo f))) fs
              = log_listing (sg_blocknr sg) (unat (ifile_blocks (o_blocksize default_opts))))"
  have "(0 :: int) \<le> 3" "(2 :: u32) \<le> 2048" by (simp_all add: word_le_nat_alt)
  from mkfs_log_accepted [where flag = False, OF disk_kernel_laws image_laws image_parse image_pages image_size(4) di image_size(3,1,2) this]
  obtain di' s' where s': "make_filesystem (disk_kernel (2 ^ 28)) image_env default_opts 3 di' (mkfs_start [] di') = (Inr (), s')"
    and r: "\<forall>L. ?D' L = ?D s' \<and> n_sb (l_nilfs L) = Some (dev_sb (?D s') 1024)
          \<and> n_devfd (l_nilfs L) = 3 \<and> \<not> nilfs_opt_test (l_nilfs L) NILFS_OPT_MMAP \<longrightarrow> ?accepted L"
    by (elim exE conjE) (rule that)
  have "?accepted (?L s')" by (rule mp [OF spec [OF r]]) (simp add: nilfs_opt_test_def)
  moreover have "unat (ifile_blocks (o_blocksize default_opts)) = 3" by (simp add: ifile_blocks_def default_opts_def image_consts)
  ultimately have "\<exists>sg L' fs fe. nilfs_get_segment (disk_kernel (2 ^ 28)) 0 (?L s') = (Inr sg, L')
    \<and> nilfs_file_for_each False (nilfs_psegment_init sg 2048) = (fs, fe)
    \<and> map (\<lambda>f. (fi_ino (fl_mem f) (fl_finfo f), fl_blocknr f, fi_nblocks (fl_mem f) (fl_finfo f))) fs = log_listing (sg_blocknr sg) 3"
    unfolding Let_def by (elim exE conjE) (intro exI conjI, assumption, assumption, simp only:)
  with di s' show ?thesis by (elim exE conjE) (intro exI conjI, assumption+)
qed



theorem mkfs_plan_sound_witness:
  "\<exists>di di' si. layout_segments default_opts 1000 (2 ^ 28) ([] :: bytes) = (Inr di, [])
    \<and> plan_segment (o_blocksize default_opts) di ([] :: bytes) = (Inr di', []) \<and> di_seginfo di' = [si]
    \<and> packed (mi_start_blocknr si + ucast (mi_nblk_sum si)) (mi_files si) = Some (mi_start_blocknr si + ucast (mi_nblocks si) - 1)"
proof -
  obtain di where di: "layout_segments default_opts 1000 (2 ^ 28) ([] :: bytes) = (Inr di, [])" by (rule exE [OF image_layout])
  with mkfs_plan_sound [OF image_parse image_pages(2) di, of "[] :: bytes"]
  show ?thesis by (elim exE conjE) (intro exI conjI, assumption+)
qed

theorem mkfs_log_checksums_witness:
  "\<exists>di' s'. make_filesystem (disk_kernel (2 ^ 28)) image_env default_opts 3 di' (mkfs_start [] di') = (Inr (), s')
    \<and> (let D = disk (2 ^ 28) (mk_w s'); bs = unat (o_blocksize default_opts); st = unat (first_block (o_blocksize default_opts)) * bs;
           n = unat (ifile_blocks (o_blocksize default_opts)); sr = st + (n + 7) * bs; seed = di_crc_seed di' in
        le32_at D st = crc32_le seed (take ((n + 8) * bs - 4) (drop (st + 4) D))
        \<and> le32_at D (st + 4) = crc32_le seed (take (256 + 16 * n - 8) (drop (st + 8) D))
        \<and> le32_at D sr = crc32_le seed (take (unat NILFS_SR_BYTES - 4) (drop (sr + 4) D)))"
proof -
  obtain di where di: "layout_segments default_opts 1000 (2 ^ 28) ([] :: bytes) = (Inr di, [])" by (rule exE [OF image_layout])
  from mkfs_log_checksums [OF disk_kernel_laws image_laws image_parse image_pages(2) image_size(4) di image_size(1,2)]
  show ?thesis by (elim exE conjE) (intro exI conjI, assumption+)
qed

theorem mkfs_dat_translates_witness:
  "\<exists>di' s'. make_filesystem (disk_kernel (2 ^ 28)) image_env default_opts 3 di' (mkfs_start [] di') = (Inr (), s')
    \<and> (let D = disk (2 ^ 28) (mk_w s'); bs = unat (o_blocksize default_opts); first = first_block (o_blocksize default_opts);
             n = unat (ifile_blocks (o_blocksize default_opts)); entry = (unat first + n + 6) * bs + 32 * 1 in
         le64_at D entry = first + of_nat 1 \<and> le64_at D (entry + 8) = 1 \<and> le64_at D (entry + 16) = NILFS_CNO_MAX_mkfs)"
proof -
  obtain di where di: "layout_segments default_opts 1000 (2 ^ 28) ([] :: bytes) = (Inr di, [])" by (rule exE [OF image_layout])
  have "1 \<le> (1 :: nat) \<and> 1 \<le> unat (ifile_blocks (o_blocksize default_opts)) + 3" by simp
  with mkfs_dat_translates [OF disk_kernel_laws image_laws image_parse image_pages(2) image_size(4) di image_size(1,2)]
  show ?thesis by (elim exE conjE) (intro exI conjI, assumption, drule spec, erule mp, intro conjI)
qed


section \<open>The interfaces on the image\<close>

interpretation img: writer "disk_kernel (2 ^ 28)" 4096 "disk (2 ^ 28)" image_env 3 "2 ^ 28"
  by unfold_locales (simp_all add: mkfs_bs_def disk_kernel_laws image_laws)

interpretation imgbuf: formatter "disk_kernel dsz" 4096 "disk dsz" d for dsz d
  by unfold_locales (use device_malloc [OF disk_kernel_laws] in \<open>auto simp: mkfs_bs_def\<close>)

end
