(* ===== verification/Spec2Isabelle.thy ===== *)
theory Spec2Isabelle
  imports Crc_Bitops Nilfs_Vector Segment_Iter Superblock Nilfs_Api Gc Gc_Reclaim Cno_Parser Feature Cnormap_Hist Cleanerd_Inv Mount_Check Mkfs_Verified
begin

text \<open>Verification of the NILFS utilities.\<close>

end
